(* ===== verification/Ofs_Prelude.thy ===== *)
theory Ofs_Prelude
  imports Main "HOL-Library.Word"
begin

text \<open>
  Shared vocabulary of the OrangeFS development: the machine types the C code uses, the
  error codes several components return, and the generic list and word lemmas the component
  theories rest on.

  \<^item> \<open>TROVE_handle\<close> and \<open>PVFS_handle\<close> are \<open>uint64_t\<close> (\<open>include/pvfs2-types.h\<close>), so they
    are 64-bit words and \<open>handle + 1\<close>, \<open>handle - 1\<close> wrap as in the code.
  \<^item> The collections \<open>ext_simps\<close>, \<open>dist_defs\<close> and \<open>sched_defs\<close> gather the equations that
    the proofs of one component share.
\<close>

section \<open>Machine types\<close>

type_synonym TROVE_handle = "64 word"
type_synonym TROVE_coll_id = "32 word"

abbreviation TROVE_HANDLE_NULL :: TROVE_handle where
  "TROVE_HANDLE_NULL \<equiv> 0"

text \<open>The largest handle value; \<open>(TROVE_handle) -1\<close> in the code.\<close>

abbreviation HANDLE_MAX :: TROVE_handle where
  "HANDLE_MAX \<equiv> - 1"

text \<open>\<open>struct timeval\<close>; the clock is an input of every operation that reads it.\<close>

record timeval =
  tv_sec :: int
  tv_usec :: int

section \<open>Error codes\<close>

text \<open>
  The error codes of \<open>include/pvfs2-types.h\<close> and \<open>src/io/trove/trove-types.h\<close>. The bits that
  the macros combine with \<open>|\<close> are disjoint, so they are written as sums.
\<close>

definition PVFS_ERROR_BIT :: int where "PVFS_ERROR_BIT = 2 ^ 30"
definition PVFS_ERROR_TROVE :: int where "PVFS_ERROR_TROVE = 2 * 2 ^ 7"

definition PVFS_ENOENT :: int where "PVFS_ENOENT = 2 + PVFS_ERROR_BIT"
definition PVFS_EAGAIN :: int where "PVFS_EAGAIN = 7 + PVFS_ERROR_BIT"
definition PVFS_EINVAL :: int where "PVFS_EINVAL = 15 + PVFS_ERROR_BIT"
definition PVFS_ENOSPC :: int where "PVFS_ENOSPC = 18 + PVFS_ERROR_BIT"
definition TROVE_EINVAL :: int where "TROVE_EINVAL = PVFS_EINVAL + PVFS_ERROR_TROVE"
definition TROVE_ENOSPC :: int where "TROVE_ENOSPC = PVFS_ENOSPC + PVFS_ERROR_TROVE"

lemmas error_code_defs = PVFS_ERROR_BIT_def PVFS_ERROR_TROVE_def PVFS_ENOENT_def PVFS_EAGAIN_def
  PVFS_EINVAL_def PVFS_ENOSPC_def TROVE_EINVAL_def TROVE_ENOSPC_def

named_theorems ext_simps
named_theorems dist_defs
named_theorems sched_defs

section \<open>Arrays\<close>

text \<open>Accesses to an array; out of its bounds they fault.\<close>

definition array_get :: "'a list \<Rightarrow> int \<Rightarrow> 'a option" where
  "array_get xs i = (if 0 \<le> i \<and> i < int (length xs) then Some (xs ! nat i) else None)"

definition array_set :: "'a list \<Rightarrow> int \<Rightarrow> 'a \<Rightarrow> 'a list option" where
  "array_set xs i x = (if 0 \<le> i \<and> i < int (length xs) then Some (xs[nat i := x]) else None)"

section \<open>Lists sorted by a key\<close>

lemma insort_key_append_le:
  "f x \<le> f y \<Longrightarrow> insort_key f x (xs @ y # ys) = insort_key f x xs @ y # ys"
  by (induction xs) auto

lemma insort_key_append_gr:
  "f y < f x \<Longrightarrow> \<forall>z \<in> set xs. f z \<le> f y \<Longrightarrow>
   insort_key f x (xs @ y # ys) = xs @ y # insort_key f x ys"
  by (induction xs) auto

lemma filter_key_absent:
  "k \<notin> f ` set xs \<Longrightarrow> filter (\<lambda>x. f x \<noteq> k) xs = xs"
  by (rule filter_True) auto

lemma filter_key_absent' [simp]:
  "\<forall>z \<in> set xs. f z < k \<Longrightarrow> filter (\<lambda>x. f x \<noteq> k) xs = xs"
  "\<forall>z \<in> set xs. k < f z \<Longrightarrow> filter (\<lambda>x. f x \<noteq> (k :: 'k :: linorder)) xs = xs"
  by (auto intro!: filter_True)

lemma sorted_by_key:
  fixes f :: "'a \<Rightarrow> 'k :: linorder"
  assumes "sorted_wrt (\<lambda>a b. f a < f b) xs"
  shows "distinct xs" and "inj_on f (set xs)"
proof -
  have "distinct (map f xs)"
    using assms by (metis sorted_wrt_map strict_sorted_iff)
  then show "distinct xs" and "inj_on f (set xs)" by (simp_all add: distinct_map)
qed

lemma find_key_iff:
  "inj_on f (set xs) \<Longrightarrow> List.find (\<lambda>x. f x = k) xs = Some e \<longleftrightarrow> e \<in> set xs \<and> f e = k"
  by (induction xs) (auto simp: inj_on_def)

lemma find_absent: "\<forall>x \<in> set xs. \<not> P x \<Longrightarrow> List.find P xs = None"
  by (auto simp: find_None_iff)

lemma find_append: "List.find P (xs @ ys) = (case List.find P xs of None \<Rightarrow> List.find P ys | Some x \<Rightarrow> Some x)"
  by (induction xs) auto

text \<open>Looking a key up around the pivot of a sorted list: the step of a tree search.\<close>

lemma find_key_mid:
  fixes f :: "'a \<Rightarrow> 'k :: linorder"
  assumes "sorted_wrt (\<lambda>a b. f a < f b) (xs @ x # ys)"
  shows "List.find (\<lambda>e. f e = k) (xs @ x # ys) =
    (if k < f x then List.find (\<lambda>e. f e = k) xs
     else if f x < k then List.find (\<lambda>e. f e = k) ys else Some x)"
proof -
  have *: "\<forall>z \<in> set xs. f z < f x" "\<forall>z \<in> set ys. f x < f z"
    using assms by (auto simp: sorted_wrt_append)
  consider "k < f x" | "f x < k" | "k = f x" by force
  then show ?thesis
  proof cases
    case 1
    with * have "\<forall>z \<in> set ys. f z \<noteq> k" by (metis less_asym less_trans)
    with 1 show ?thesis by (auto simp: find_append find_absent split: option.splits)
  next
    case 2
    with * have "\<forall>z \<in> set xs. f z \<noteq> k" by (metis less_asym less_trans)
    with 2 show ?thesis by (auto simp: find_append find_absent)
  next
    case 3
    with * have "\<forall>z \<in> set xs. f z \<noteq> k" by auto
    with 3 show ?thesis by (auto simp: find_append find_absent)
  qed
qed

lemma sorted_by_key_insort:
  fixes f :: "'a \<Rightarrow> 'k :: linorder"
  shows "sorted_wrt (\<lambda>a b. f a < f b) xs \<Longrightarrow> f e \<notin> f ` set xs \<Longrightarrow>
    sorted_wrt (\<lambda>a b. f a < f b) (insort_key f e xs)"
  by (induction xs) (auto simp: set_insort_key dest: less_trans)

section \<open>Neighbouring handles\<close>

text \<open>\<open>+ 1\<close> and \<open>- 1\<close> on 64-bit handles away from the two ends of the range.\<close>

lemma succ_le_iff: "(a :: TROVE_handle) < HANDLE_MAX \<Longrightarrow> a + 1 \<le> b \<longleftrightarrow> a < b"
  by unat_arith

lemma succ_less_max: "(a :: TROVE_handle) < HANDLE_MAX \<Longrightarrow> a < a + 1"
  by unat_arith

lemma less_succ_iff: "(b :: TROVE_handle) < HANDLE_MAX \<Longrightarrow> a < b + 1 \<longleftrightarrow> a \<le> b"
  by unat_arith

lemma le_pred_iff: "0 < (b :: TROVE_handle) \<Longrightarrow> a \<le> b - 1 \<longleftrightarrow> a < b"
  by unat_arith

lemma pred_less: "0 < (b :: TROVE_handle) \<Longrightarrow> b - 1 < b"
  by unat_arith

text \<open>A conversion to a 32-bit \<open>int\<close> that keeps the value.\<close>

lemma sint32_small: "0 \<le> d \<Longrightarrow> d < 2 ^ 31 \<Longrightarrow> sint (word_of_int d :: 32 word) = d"
  by (simp add: int_word_sint)

end
