(* ===== verification/Extent_Index.thy ===== *)
theory Extent_Index
  imports Ofs_Prelude
begin

text \<open>
  The interface between the extent lists (\<open>trove-extentlist.c\<close>) and the tree that indexes
  their extents (\<open>avltree.c\<close>): what the extent lists rely on when they insert, remove and
  look up extents. The locale states the contract over an arbitrary implementation; the tree
  discharges it in \<open>Avl_Tree\<close>, and \<open>Extent_List\<close> uses the derived, set-level laws.
\<close>

text \<open>The \<open>index\<close> member of the struct is neither written nor read by the code.\<close>

record TROVE_handle_extent =
  ext_first :: TROVE_handle
  ext_last :: TROVE_handle

section \<open>Extents\<close>

text \<open>The handles an extent stands for, and the handles a collection of extents stands for.\<close>

definition handles_of :: "TROVE_handle_extent \<Rightarrow> TROVE_handle set" where
  "handles_of e = {ext_first e .. ext_last e}"

definition cover :: "TROVE_handle_extent set \<Rightarrow> TROVE_handle set" where
  "cover S = (\<Union>e \<in> S. handles_of e)"

text \<open>
  A usable extent is non-empty and holds neither the null handle nor the value
  \<open>(TROVE_handle) -1\<close>, so that \<open>first - 1\<close> and \<open>last + 1\<close> do not wrap.
\<close>

definition extent_ok :: "TROVE_handle_extent \<Rightarrow> bool" where
  "extent_ok e \<longleftrightarrow> 0 < ext_first e \<and> ext_first e \<le> ext_last e \<and> ext_last e < HANDLE_MAX"

text \<open>Two extents of a canonical set neither overlap nor touch.\<close>

definition separated :: "TROVE_handle_extent set \<Rightarrow> bool" where
  "separated S \<longleftrightarrow>
     (\<forall>a \<in> S. \<forall>b \<in> S. a = b \<or> ext_last a + 1 < ext_first b \<or> ext_last b + 1 < ext_first a)"

definition canonical :: "TROVE_handle_extent set \<Rightarrow> bool" where
  "canonical S \<longleftrightarrow> (\<forall>e \<in> S. extent_ok e) \<and> separated S"

lemma canonical_empty [simp]: "canonical {}"
  by (simp add: canonical_def separated_def)

lemma canonical_subset: "canonical S \<Longrightarrow> T \<subseteq> S \<Longrightarrow> canonical T"
  unfolding canonical_def separated_def by blast

lemma canonical_extent_ok: "canonical S \<Longrightarrow> e \<in> S \<Longrightarrow> extent_ok e"
  by (simp add: canonical_def)

lemma canonicalD:
  assumes "canonical S" "a \<in> S" "b \<in> S" "a \<noteq> b"
  shows "ext_last a < ext_first b \<or> ext_last b < ext_first a"
proof -
  have "ext_last a < ext_last a + 1" "ext_last b < ext_last b + 1"
    using assms by (auto simp: canonical_def extent_ok_def intro!: succ_less_max)
  moreover have "ext_last a + 1 < ext_first b \<or> ext_last b + 1 < ext_first a"
    using assms unfolding canonical_def separated_def by blast
  ultimately show ?thesis by (auto dest: less_trans)
qed

lemma canonical_distinct_ends:
  assumes "canonical S" "a \<in> S" "b \<in> S" "a \<noteq> b"
  shows "ext_first a \<noteq> ext_first b" and "ext_last a \<noteq> ext_last b"
  using canonicalD [OF assms] assms by (auto simp: canonical_def extent_ok_def)

lemma canonical_last_inj: "canonical S \<Longrightarrow> inj_on ext_last S"
  using canonical_distinct_ends(2) unfolding inj_on_def by blast

lemma canonical_last_mono:
  assumes "canonical S" "a \<in> S" "b \<in> S" "ext_first a < ext_first b"
  shows "ext_last a < ext_last b"
proof -
  have "ext_last a < ext_first b \<or> ext_last b < ext_first a"
    using canonicalD [OF assms(1-3)] assms(4) by auto
  moreover have "ext_first a \<le> ext_last a" "ext_first b \<le> ext_last b"
    using assms by (auto simp: canonical_def extent_ok_def)
  ultimately show ?thesis using assms(4) by auto
qed

lemma cover_insert [simp]: "cover (insert e S) = handles_of e \<union> cover S"
  by (simp add: cover_def)

lemma cover_empty [simp]: "cover {} = {}"
  by (simp add: cover_def)

lemma in_cover: "h \<in> cover S \<longleftrightarrow> (\<exists>e \<in> S. ext_first e \<le> h \<and> h \<le> ext_last e)"
  by (auto simp: cover_def handles_of_def)

lemma handles_disjoint:
  assumes "canonical S" "a \<in> S" "b \<in> S" "a \<noteq> b"
  shows "handles_of a \<inter> handles_of b = {}"
  using canonicalD [OF assms] by (auto simp: handles_of_def)

lemma cover_remove:
  assumes "canonical S" "e \<in> S"
  shows "cover (S - {e}) = cover S - handles_of e"
  using handles_disjoint [OF assms(1) _ assms(2)] by (auto simp: cover_def)

section \<open>Joining neighbours\<close>

text \<open>
  An extent is \<open>addable\<close> to a set when it is usable and disjoint from what the set covers.
  Adding it keeps the set canonical unless it touches a member; touching members are first
  merged into it.
\<close>

definition addable :: "TROVE_handle_extent set \<Rightarrow> TROVE_handle_extent \<Rightarrow> bool" where
  "addable S e \<longleftrightarrow> canonical S \<and> extent_ok e \<and> handles_of e \<inter> cover S = {}"

lemma addable_order:
  assumes "addable S e" "a \<in> S"
  shows "ext_last a < ext_first e \<or> ext_last e < ext_first a"
proof -
  have "handles_of e \<inter> handles_of a = {}" "extent_ok e" "extent_ok a"
    using assms by (auto simp: addable_def cover_def canonical_def)
  then have "ext_first e \<notin> handles_of a" "ext_first a \<notin> handles_of e"
    by (auto simp: handles_of_def extent_ok_def)
  then show ?thesis
    using \<open>extent_ok e\<close> \<open>extent_ok a\<close> by (auto simp: handles_of_def extent_ok_def)
qed

lemma canonical_insert:
  assumes "addable S e"
    and "\<forall>a \<in> S. ext_last a \<noteq> ext_first e - 1" "\<forall>a \<in> S. ext_first a \<noteq> ext_last e + 1"
  shows "canonical (insert e S)"
proof -
  have "ext_last e + 1 < ext_first a \<or> ext_last a + 1 < ext_first e" if a: "a \<in> S" for a
  proof -
    have ok: "extent_ok e" "extent_ok a"
      using assms(1) a by (auto simp: addable_def canonical_def)
    from addable_order [OF assms(1) a] show ?thesis
    proof
      assume "ext_last a < ext_first e"
      then have "ext_last a + 1 \<le> ext_first e"
        using ok by (simp add: extent_ok_def succ_le_iff)
      moreover have "ext_last a + 1 \<noteq> ext_first e"
        using assms(2) a by (metis add_diff_cancel_right')
      ultimately show ?thesis by (simp add: less_le)
    next
      assume "ext_last e < ext_first a"
      then have "ext_last e + 1 \<le> ext_first a"
        using ok by (simp add: extent_ok_def succ_le_iff)
      moreover have "ext_last e + 1 \<noteq> ext_first a" using assms(3) a by metis
      ultimately show ?thesis by (simp add: less_le)
    qed
  qed
  then show ?thesis
    using assms(1) unfolding addable_def canonical_def separated_def by blast
qed

lemma join_lesser:
  assumes "addable S e" "le \<in> S" "ext_last le = ext_first e - 1"
  defines "e' \<equiv> e\<lparr>ext_first := ext_first le\<rparr>"
  shows "addable (S - {le}) e'" and "handles_of e' = handles_of le \<union> handles_of e"
    and "\<forall>a \<in> S - {le}. ext_last a \<noteq> ext_first e' - 1"
proof -
  have ok: "extent_ok e" "extent_ok le" and can: "canonical S"
    using assms by (auto simp: addable_def canonical_def)
  have next_e: "h \<le> ext_last le \<longleftrightarrow> h < ext_first e" for h
    using ok by (simp add: assms(3) extent_ok_def le_pred_iff)
  have lt: "ext_last le < ext_first e" using next_e by blast
  show hs: "handles_of e' = handles_of le \<union> handles_of e"
    using ok lt next_e unfolding e'_def handles_of_def extent_ok_def by fastforce
  have "extent_ok e'"
    using ok lt unfolding e'_def extent_ok_def by fastforce
  moreover have "handles_of e' \<inter> cover (S - {le}) = {}"
    using assms(1) cover_remove [OF can assms(2)] hs by (auto simp: addable_def)
  ultimately show "addable (S - {le}) e'"
    using can canonical_subset [of S "S - {le}"] by (auto simp: addable_def)
  show "\<forall>a \<in> S - {le}. ext_last a \<noteq> ext_first e' - 1"
  proof (intro ballI notI)
    fix a assume a: "a \<in> S - {le}" and "ext_last a = ext_first e' - 1"
    then have "ext_last a + 1 = ext_first le" by (simp add: e'_def)
    moreover have "ext_last a + 1 < ext_first le \<or> ext_last le + 1 < ext_first a"
      using can a assms(2) unfolding canonical_def separated_def by blast
    ultimately have "ext_first e < ext_first a" using assms(3) by simp
    moreover have "ext_first a \<le> ext_last a" "ext_last a < ext_first le"
      "ext_first le \<le> ext_last le"
      using can a assms(2) \<open>ext_last a + 1 = ext_first le\<close> succ_less_max [of "ext_last a"]
      by (auto simp: canonical_def extent_ok_def)
    ultimately show False using lt by simp
  qed
qed

lemma join_greater:
  assumes "addable S e" "gr \<in> S" "ext_first gr = ext_last e + 1"
  defines "e' \<equiv> e\<lparr>ext_last := ext_last gr\<rparr>"
  shows "addable (S - {gr}) e'" and "handles_of e' = handles_of e \<union> handles_of gr"
    and "\<forall>a \<in> S - {gr}. ext_first a \<noteq> ext_last e' + 1"
proof -
  have ok: "extent_ok e" "extent_ok gr" and can: "canonical S"
    using assms by (auto simp: addable_def canonical_def)
  have next_e: "ext_first gr \<le> h \<longleftrightarrow> ext_last e < h" for h
    using ok by (simp add: assms(3) extent_ok_def succ_le_iff)
  have lt: "ext_last e < ext_first gr" using next_e by blast
  show hs: "handles_of e' = handles_of e \<union> handles_of gr"
    using ok lt next_e unfolding e'_def handles_of_def extent_ok_def by fastforce
  have "extent_ok e'"
    using ok lt unfolding e'_def extent_ok_def by fastforce
  moreover have "handles_of e' \<inter> cover (S - {gr}) = {}"
    using assms(1) cover_remove [OF can assms(2)] hs by (auto simp: addable_def)
  ultimately show "addable (S - {gr}) e'"
    using can canonical_subset [of S "S - {gr}"] by (auto simp: addable_def)
  show "\<forall>a \<in> S - {gr}. ext_first a \<noteq> ext_last e' + 1"
  proof (intro ballI notI)
    fix a assume a: "a \<in> S - {gr}" and eq: "ext_first a = ext_last e' + 1"
    then have "ext_first a = ext_last gr + 1" by (simp add: e'_def)
    moreover have "ext_last a + 1 < ext_first gr \<or> ext_last gr + 1 < ext_first a"
      using can a assms(2) unfolding canonical_def separated_def by blast
    ultimately have "ext_last a + 1 < ext_first gr" by simp
    moreover have "ext_first a \<le> ext_last a" "ext_last a < ext_last a + 1"
      "ext_last gr < ext_first a" "ext_first gr \<le> ext_last gr"
      using can a assms(2) \<open>ext_first a = ext_last gr + 1\<close>
      by (auto simp: canonical_def extent_ok_def succ_less_max)
    ultimately show False by simp
  qed
qed

lemma addable_absent_first:
  assumes "addable S e"
  shows "ext_first e \<notin> ext_first ` S"
proof
  assume "ext_first e \<in> ext_first ` S"
  then obtain a where a: "a \<in> S" "ext_first a = ext_first e" by auto
  then have "extent_ok a" "extent_ok e" using assms by (auto simp: addable_def canonical_def)
  with addable_order [OF assms a(1)] a(2) show False by (auto simp: extent_ok_def)
qed

section \<open>Replacing an extent by parts of it\<close>

lemma canonical_refine:
  assumes "canonical S" "e \<in> S" "canonical T"
    and "\<forall>t \<in> T. ext_first e \<le> ext_first t \<and> ext_last t \<le> ext_last e"
  shows "canonical ((S - {e}) \<union> T)"
proof -
  have cross: "ext_last a + 1 < ext_first t \<or> ext_last t + 1 < ext_first a"
    if "a \<in> S - {e}" "t \<in> T" for a t
  proof -
    have "ext_first e \<le> ext_first t" "ext_last t \<le> ext_last e" "ext_last e < HANDLE_MAX"
      using assms that by (auto simp: canonical_def extent_ok_def)
    moreover from this have "ext_last t + 1 \<le> ext_last e + 1" by unat_arith
    moreover have "ext_last a + 1 < ext_first e \<or> ext_last e + 1 < ext_first a"
      using assms(1,2) that(1) unfolding canonical_def separated_def by blast
    ultimately show ?thesis by (meson le_less_trans less_le_trans)
  qed
  have "separated S" "separated T" using assms(1,3) by (simp_all add: canonical_def)
  with cross have "separated ((S - {e}) \<union> T)" unfolding separated_def by blast
  then show ?thesis using assms(1,3) by (auto simp: canonical_def)
qed

lemma cover_refine:
  assumes "canonical S" "e \<in> S"
  shows "cover ((S - {e}) \<union> T) = (cover S - handles_of e) \<union> cover T"
  using cover_remove [OF assms] by (auto simp: cover_def)

text \<open>The parts of an extent around one of its handles.\<close>

definition parts_around :: "TROVE_handle_extent \<Rightarrow> TROVE_handle \<Rightarrow> TROVE_handle_extent set" where
  "parts_around e h =
     (if ext_first e < h then {\<lparr>ext_first = ext_first e, ext_last = h - 1\<rparr>} else {}) \<union>
     (if h < ext_last e then {\<lparr>ext_first = h + 1, ext_last = ext_last e\<rparr>} else {})"

lemma around_handle:
  fixes h :: TROVE_handle
  assumes "0 < f" "f \<le> h" "h \<le> l" "l < HANDLE_MAX"
  shows "f < h \<Longrightarrow> f \<le> h - 1" "h < l \<Longrightarrow> h + 1 \<le> l" "h - 1 < HANDLE_MAX" "0 < h + 1"
    "h - 1 < h" "h < h + 1" "h - 1 + 1 = h" "h - 1 \<le> l" "f \<le> h + 1"
    "x \<le> h - 1 \<longleftrightarrow> x < h" "h + 1 \<le> x \<longleftrightarrow> h < x"
  using assms by (unat_arith | simp)+

lemma parts_around_ok:
  assumes "extent_ok e" "h \<in> handles_of e"
  shows "canonical (parts_around e h)" and "cover (parts_around e h) = handles_of e - {h}"
    and "\<forall>t \<in> parts_around e h. ext_first e \<le> ext_first t \<and> ext_last t \<le> ext_last e"
proof -
  have *: "0 < ext_first e" "ext_first e \<le> h" "h \<le> ext_last e" "ext_last e < HANDLE_MAX"
    using assms by (auto simp: extent_ok_def handles_of_def)
  note around = around_handle [OF *]
  have "separated (parts_around e h)"
    using around(6,7) by (simp add: parts_around_def separated_def)
  moreover have "\<forall>t \<in> parts_around e h. extent_ok t"
    using * around(1-4) by (auto simp: parts_around_def extent_ok_def)
  ultimately show "canonical (parts_around e h)" by (simp add: canonical_def)
  have "{x..h - 1} = {x..<h}" "{h + 1..x} = {h<..x}" for x
    by (auto simp: around(10,11))
  then show "cover (parts_around e h) = handles_of e - {h}"
    using *(2,3) by (auto simp: parts_around_def handles_of_def)
  show "\<forall>t \<in> parts_around e h. ext_first e \<le> ext_first t \<and> ext_last t \<le> ext_last e"
    using *(2,3) around(8,9) by (auto simp: parts_around_def)
qed

lemma remove_handle:
  assumes "canonical S" "e \<in> S" "h \<in> handles_of e"
  shows "canonical ((S - {e}) \<union> parts_around e h)"
    and "cover ((S - {e}) \<union> parts_around e h) = cover S - {h}"
proof -
  note parts = parts_around_ok [OF canonical_extent_ok [OF assms(1,2)] assms(3)]
  show "canonical ((S - {e}) \<union> parts_around e h)"
    by (rule canonical_refine [OF assms(1,2) parts(1,3)])
  show "cover ((S - {e}) \<union> parts_around e h) = cover S - {h}"
    using assms(2,3) unfolding cover_refine [OF assms(1,2)] parts(2) by (auto simp: cover_def)
qed

section \<open>The index contract\<close>

text \<open>
  \<open>ins\<close> and \<open>rem\<close> return \<open>None\<close> on a memory fault, and otherwise the new index with a
  result code; \<open>err\<close> is the code that reports a failure. \<open>items\<close> is the sequence of the
  indexed extents.
\<close>

locale extent_index =
  fixes ins :: "'t \<Rightarrow> TROVE_handle_extent \<Rightarrow> ('t \<times> 'r) option"
    and rem :: "'t \<Rightarrow> TROVE_handle \<Rightarrow> ('t \<times> 'r) option"
    and acc :: "'t \<Rightarrow> TROVE_handle \<Rightarrow> TROVE_handle_extent option"
    and alt :: "'t \<Rightarrow> TROVE_handle \<Rightarrow> TROVE_handle_extent option"
    and highest :: "'t \<Rightarrow> TROVE_handle_extent option"
    and store_highest :: "'t \<Rightarrow> TROVE_handle_extent \<Rightarrow> 't"
    and items :: "'t \<Rightarrow> TROVE_handle_extent list"
    and valid :: "'t \<Rightarrow> bool"
    and err :: 'r
  assumes ordered: "valid t \<Longrightarrow> sorted_wrt (\<lambda>a b. ext_first a < ext_first b) (items t)"
    and ins_new: "valid t \<Longrightarrow> ext_first e \<notin> ext_first ` set (items t) \<Longrightarrow>
      \<exists>t' r. ins t e = Some (t', r) \<and> r \<noteq> err \<and> valid t' \<and>
             items t' = insort_key ext_first e (items t)"
    and rem_old: "valid t \<Longrightarrow> k \<in> ext_first ` set (items t) \<Longrightarrow>
      \<exists>t' r. rem t k = Some (t', r) \<and> r \<noteq> err \<and> valid t' \<and>
             items t' = filter (\<lambda>e. ext_first e \<noteq> k) (items t)"
    and acc_find: "valid t \<Longrightarrow> acc t k = List.find (\<lambda>e. ext_first e = k) (items t)"
    and alt_find: "valid t \<Longrightarrow> sorted_wrt (\<lambda>a b. ext_last a < ext_last b) (items t) \<Longrightarrow>
      alt t k = List.find (\<lambda>e. ext_last e = k) (items t)"
    and highest_last: "highest t = (if items t = [] then None else Some (last (items t)))"
    and store_items: "items t \<noteq> [] \<Longrightarrow> items (store_highest t e) = butlast (items t) @ [e]"
    and store_valid: "valid t \<Longrightarrow> items t \<noteq> [] \<Longrightarrow> ext_first e = ext_first (last (items t)) \<Longrightarrow>
      valid (store_highest t e)"
begin

abbreviation exts :: "'t \<Rightarrow> TROVE_handle_extent set" where
  "exts t \<equiv> set (items t)"

lemma first_inj: "valid t \<Longrightarrow> inj_on ext_first (exts t)"
  by (rule sorted_by_key(2) [OF ordered])

lemma items_distinct: "valid t \<Longrightarrow> distinct (items t)"
  by (rule sorted_by_key(1) [OF ordered])

lemma put_in:
  assumes "valid t" "ext_first e \<notin> ext_first ` exts t"
  obtains t' r where "ins t e = Some (t', r)" "r \<noteq> err" "valid t'" "exts t' = insert e (exts t)"
  using ins_new [OF assms] by (auto simp: set_insort_key)

lemma take_out:
  assumes "valid t" "e \<in> exts t"
  obtains t' r where "rem t (ext_first e) = Some (t', r)" "r \<noteq> err" "valid t'"
    "exts t' = exts t - {e}" "length (items t) = Suc (length (items t'))"
proof -
  obtain t' r where t': "rem t (ext_first e) = Some (t', r)" "r \<noteq> err" "valid t'"
      "items t' = filter (\<lambda>x. ext_first x \<noteq> ext_first e) (items t)"
    using rem_old [OF assms(1)] assms(2) by blast
  have same: "ext_first x = ext_first e \<longleftrightarrow> x = e" if "x \<in> exts t" for x
    using first_inj [OF assms(1)] that assms(2) by (auto simp: inj_on_def)
  then have ex: "exts t' = exts t - {e}" by (auto simp: t'(4))
  have "distinct (items t)" "distinct (items t')"
    using items_distinct assms(1) t'(3) by blast+
  then have "length (items t) = card (exts t)" "length (items t') = card (exts t')"
    by (simp_all add: distinct_card)
  moreover have "card (exts t) = Suc (card (exts t - {e}))"
    by (rule card.remove) (use assms(2) in auto)
  ultimately have "length (items t) = Suc (length (items t'))"
    by (simp only: ex)
  with t' ex show thesis by (intro that)
qed

lemma acc_iff:
  "valid t \<Longrightarrow> acc t k = Some e \<longleftrightarrow> e \<in> exts t \<and> ext_first e = k"
  by (simp add: acc_find find_key_iff first_inj)

lemma acc_None: "valid t \<Longrightarrow> acc t k = None \<longleftrightarrow> k \<notin> ext_first ` exts t"
  by (auto simp: acc_find find_None_iff)

lemma last_ordered:
  assumes "valid t" "canonical (exts t)"
  shows "sorted_wrt (\<lambda>a b. ext_last a < ext_last b) (items t)"
  using ordered [OF assms(1)] canonical_last_mono [OF assms(2)]
  by (simp add: sorted_wrt_iff_nth_less)

lemma alt_iff:
  assumes "valid t" "canonical (exts t)"
  shows "alt t k = Some e \<longleftrightarrow> e \<in> exts t \<and> ext_last e = k"
  by (simp add: alt_find assms last_ordered find_key_iff canonical_last_inj)

lemma alt_None:
  assumes "valid t" "canonical (exts t)"
  shows "alt t k = None \<longleftrightarrow> k \<notin> ext_last ` exts t"
  by (auto simp: alt_find [OF assms(1) last_ordered [OF assms]] find_None_iff)

lemma highest_in: "highest t = Some e \<Longrightarrow> e \<in> exts t"
  by (auto simp: highest_last split: if_splits)

lemma highest_None: "highest t = None \<longleftrightarrow> exts t = {}"
  by (auto simp: highest_last)

end

end
