(* ===== verification/Avl_Tree.thy ===== *)
theory Avl_Tree
  imports Extent_Index
begin

text \<open>
  The AVL tree of \<open>src/io/trove/trove-handle-mgmt/avltree.c\<close>, instantiated by
  \<open>trove-extentlist.h\<close> on handle extents keyed by their first handle.

  A \<open>struct avlnode *\<close> is a value of the datatype \<open>avlnode\<close>. Every operation that
  follows a pointer returns an \<open>option\<close>: \<open>None\<close> is the dereference of a null pointer.
  The lemmas show that no operation does this on a balanced tree, that insertion and removal
  keep the tree balanced and ordered, and that the result code \<open>BALANCE\<close> is returned
  exactly when the height changed.
\<close>

section \<open>Data\<close>

datatype AVLSKEW = NONE | LEFT | RIGHT

datatype AVLRES = ERROR | OK | BALANCE

datatype avlnode =
  NULL
| Avlnode avlnode TROVE_handle_extent AVLSKEW avlnode

section \<open>Rotations\<close>

fun avlrotleft :: "avlnode \<Rightarrow> avlnode option" where
  "avlrotleft (Avlnode a x s (Avlnode b y t c)) = Some (Avlnode (Avlnode a x s b) y t c)"
| "avlrotleft _ = None"

fun avlrotright :: "avlnode \<Rightarrow> avlnode option" where
  "avlrotright (Avlnode (Avlnode a x s b) y t c) = Some (Avlnode a x s (Avlnode b y t c))"
| "avlrotright _ = None"

section \<open>Rebalancing after an insertion\<close>

text \<open>
  The result pairs the new value of \<open>*n\<close> with the returned code. The inner
  \<open>case\<close> on the skew of the grandchild is the \<open>switch\<close> of the double rotation.
\<close>

fun avlleftgrown :: "avlnode \<Rightarrow> (avlnode \<times> AVLRES) option" where
  "avlleftgrown NULL = None"
| "avlleftgrown (Avlnode l x sk r) =
     (case sk of
        LEFT \<Rightarrow>
          (case l of
             NULL \<Rightarrow> None
           | Avlnode ll lx ls lr \<Rightarrow>
               if ls = LEFT then
                 map_option (\<lambda>t. (t, OK)) (avlrotright (Avlnode (Avlnode ll lx NONE lr) x NONE r))
               else
                 (case lr of
                    NULL \<Rightarrow> None
                  | Avlnode lrl lrx lrs lrr \<Rightarrow>
                      (let (ns, ls') = (case lrs of LEFT \<Rightarrow> (RIGHT, NONE)
                                                  | RIGHT \<Rightarrow> (NONE, LEFT)
                                                  | NONE \<Rightarrow> (NONE, NONE))
                       in case avlrotleft (Avlnode ll lx ls' (Avlnode lrl lrx NONE lrr)) of
                            None \<Rightarrow> None
                          | Some l' \<Rightarrow> map_option (\<lambda>t. (t, OK)) (avlrotright (Avlnode l' x ns r)))))
      | RIGHT \<Rightarrow> Some (Avlnode l x NONE r, OK)
      | NONE \<Rightarrow> Some (Avlnode l x LEFT r, BALANCE))"

fun avlrightgrown :: "avlnode \<Rightarrow> (avlnode \<times> AVLRES) option" where
  "avlrightgrown NULL = None"
| "avlrightgrown (Avlnode l x sk r) =
     (case sk of
        LEFT \<Rightarrow> Some (Avlnode l x NONE r, OK)
      | RIGHT \<Rightarrow>
          (case r of
             NULL \<Rightarrow> None
           | Avlnode rl rx rs rr \<Rightarrow>
               if rs = RIGHT then
                 map_option (\<lambda>t. (t, OK)) (avlrotleft (Avlnode l x NONE (Avlnode rl rx NONE rr)))
               else
                 (case rl of
                    NULL \<Rightarrow> None
                  | Avlnode rll rlx rls rlr \<Rightarrow>
                      (let (ns, rs') = (case rls of RIGHT \<Rightarrow> (LEFT, NONE)
                                                  | LEFT \<Rightarrow> (NONE, RIGHT)
                                                  | NONE \<Rightarrow> (NONE, NONE))
                       in case avlrotright (Avlnode (Avlnode rll rlx NONE rlr) rx rs' rr) of
                            None \<Rightarrow> None
                          | Some r' \<Rightarrow> map_option (\<lambda>t. (t, OK)) (avlrotleft (Avlnode l x ns r')))))
      | NONE \<Rightarrow> Some (Avlnode l x RIGHT r, BALANCE))"

fun avlinsert :: "avlnode \<Rightarrow> TROVE_handle_extent \<Rightarrow> (avlnode \<times> AVLRES) option" where
  "avlinsert NULL e = Some (Avlnode NULL e NONE NULL, BALANCE)"
| "avlinsert (Avlnode l x sk r) e =
     (if ext_first e < ext_first x then
        (case avlinsert l e of
           None \<Rightarrow> None
         | Some (l', tmp) \<Rightarrow>
             if tmp = BALANCE then avlleftgrown (Avlnode l' x sk r)
             else Some (Avlnode l' x sk r, tmp))
      else if ext_first e > ext_first x then
        (case avlinsert r e of
           None \<Rightarrow> None
         | Some (r', tmp) \<Rightarrow>
             if tmp = BALANCE then avlrightgrown (Avlnode l x sk r')
             else Some (Avlnode l x sk r', tmp))
      else Some (Avlnode l x sk r, ERROR))"

section \<open>Rebalancing after a removal\<close>

fun avlleftshrunk :: "avlnode \<Rightarrow> (avlnode \<times> AVLRES) option" where
  "avlleftshrunk NULL = None"
| "avlleftshrunk (Avlnode l x sk r) =
     (case sk of
        LEFT \<Rightarrow> Some (Avlnode l x NONE r, BALANCE)
      | RIGHT \<Rightarrow>
          (case r of
             NULL \<Rightarrow> None
           | Avlnode rl rx rs rr \<Rightarrow>
               if rs = RIGHT then
                 map_option (\<lambda>t. (t, BALANCE)) (avlrotleft (Avlnode l x NONE (Avlnode rl rx NONE rr)))
               else if rs = NONE then
                 map_option (\<lambda>t. (t, OK)) (avlrotleft (Avlnode l x RIGHT (Avlnode rl rx LEFT rr)))
               else
                 (case rl of
                    NULL \<Rightarrow> None
                  | Avlnode rll rlx rls rlr \<Rightarrow>
                      (let (ns, rs') = (case rls of LEFT \<Rightarrow> (NONE, RIGHT)
                                                  | RIGHT \<Rightarrow> (LEFT, NONE)
                                                  | NONE \<Rightarrow> (NONE, NONE))
                       in case avlrotright (Avlnode (Avlnode rll rlx NONE rlr) rx rs' rr) of
                            None \<Rightarrow> None
                          | Some r' \<Rightarrow> map_option (\<lambda>t. (t, BALANCE)) (avlrotleft (Avlnode l x ns r')))))
      | NONE \<Rightarrow> Some (Avlnode l x RIGHT r, OK))"

fun avlrightshrunk :: "avlnode \<Rightarrow> (avlnode \<times> AVLRES) option" where
  "avlrightshrunk NULL = None"
| "avlrightshrunk (Avlnode l x sk r) =
     (case sk of
        RIGHT \<Rightarrow> Some (Avlnode l x NONE r, BALANCE)
      | LEFT \<Rightarrow>
          (case l of
             NULL \<Rightarrow> None
           | Avlnode ll lx ls lr \<Rightarrow>
               if ls = LEFT then
                 map_option (\<lambda>t. (t, BALANCE)) (avlrotright (Avlnode (Avlnode ll lx NONE lr) x NONE r))
               else if ls = NONE then
                 map_option (\<lambda>t. (t, OK)) (avlrotright (Avlnode (Avlnode ll lx RIGHT lr) x LEFT r))
               else
                 (case lr of
                    NULL \<Rightarrow> None
                  | Avlnode lrl lrx lrs lrr \<Rightarrow>
                      (let (ns, ls') = (case lrs of LEFT \<Rightarrow> (RIGHT, NONE)
                                                  | RIGHT \<Rightarrow> (NONE, LEFT)
                                                  | NONE \<Rightarrow> (NONE, NONE))
                       in case avlrotleft (Avlnode ll lx ls' (Avlnode lrl lrx NONE lrr)) of
                            None \<Rightarrow> None
                          | Some l' \<Rightarrow> map_option (\<lambda>t. (t, BALANCE)) (avlrotright (Avlnode l' x ns r)))))
      | NONE \<Rightarrow> Some (Avlnode l x LEFT r, OK))"

text \<open>
  \<open>avlfindhighest(target, n, res)\<close> takes the highest item out of \<open>*n\<close> and stores it
  in \<open>target\<close>. The model returns the item (\<open>None\<close> where the code returns 0), the new
  \<open>*n\<close> and \<open>*res\<close>.
\<close>

fun avlfindhighest :: "avlnode \<Rightarrow> (TROVE_handle_extent option \<times> avlnode \<times> AVLRES) option" where
  "avlfindhighest NULL = Some (None, NULL, BALANCE)"
| "avlfindhighest (Avlnode l x sk r) =
     (if r \<noteq> NULL then
        (case avlfindhighest r of
           None \<Rightarrow> None
         | Some (item, r', res) \<Rightarrow>
             if item = None then Some (None, Avlnode l x sk r', res)
             else if res = BALANCE then
               map_option (\<lambda>(t, res'). (item, t, res')) (avlrightshrunk (Avlnode l x sk r'))
             else Some (item, Avlnode l x sk r', res))
      else Some (Some x, l, BALANCE))"

fun avlfindlowest :: "avlnode \<Rightarrow> (TROVE_handle_extent option \<times> avlnode \<times> AVLRES) option" where
  "avlfindlowest NULL = Some (None, NULL, BALANCE)"
| "avlfindlowest (Avlnode l x sk r) =
     (if l \<noteq> NULL then
        (case avlfindlowest l of
           None \<Rightarrow> None
         | Some (item, l', res) \<Rightarrow>
             if item = None then Some (None, Avlnode l' x sk r, res)
             else if res = BALANCE then
               map_option (\<lambda>(t, res'). (item, t, res')) (avlleftshrunk (Avlnode l' x sk r))
             else Some (item, Avlnode l' x sk r, res))
      else Some (Some x, r, BALANCE))"

text \<open>
  The three ways out of the match in \<open>avlremove\<close>: replace the item by the highest of
  the left subtree, else by the lowest of the right subtree, else unlink the node.
\<close>

definition avlremove_here :: "avlnode \<Rightarrow> TROVE_handle_extent \<Rightarrow> AVLSKEW \<Rightarrow> avlnode
    \<Rightarrow> (avlnode \<times> AVLRES) option" where
  "avlremove_here l x sk r =
     (let try_right =
        (if r \<noteq> NULL then
           (case avlfindlowest r of
              None \<Rightarrow> None
            | Some (Some y, r', tmp) \<Rightarrow>
                if tmp = BALANCE then avlrightshrunk (Avlnode l y sk r')
                else Some (Avlnode l y sk r', tmp)
            | Some (None, r', tmp) \<Rightarrow> Some (NULL, BALANCE))
         else Some (NULL, BALANCE))
      in if l \<noteq> NULL then
           (case avlfindhighest l of
              None \<Rightarrow> None
            | Some (Some y, l', tmp) \<Rightarrow>
                if tmp = BALANCE then avlleftshrunk (Avlnode l' y sk r)
                else Some (Avlnode l' y sk r, tmp)
            | Some (None, l', tmp) \<Rightarrow> try_right)
         else try_right)"

fun avlremove :: "avlnode \<Rightarrow> TROVE_handle \<Rightarrow> (avlnode \<times> AVLRES) option" where
  "avlremove NULL key = Some (NULL, ERROR)"
| "avlremove (Avlnode l x sk r) key =
     (if key < ext_first x then
        (case avlremove l key of
           None \<Rightarrow> None
         | Some (l', tmp) \<Rightarrow>
             if tmp = BALANCE then avlleftshrunk (Avlnode l' x sk r)
             else Some (Avlnode l' x sk r, tmp))
      else if key > ext_first x then
        (case avlremove r key of
           None \<Rightarrow> None
         | Some (r', tmp) \<Rightarrow>
             if tmp = BALANCE then avlrightshrunk (Avlnode l x sk r')
             else Some (Avlnode l x sk r', tmp))
      else avlremove_here l x sk r)"

section \<open>Searches and traversals\<close>

fun avlaccess :: "avlnode \<Rightarrow> TROVE_handle \<Rightarrow> TROVE_handle_extent option" where
  "avlaccess NULL key = None"
| "avlaccess (Avlnode l x sk r) key =
     (if key < ext_first x then avlaccess l key
      else if key > ext_first x then avlaccess r key
      else Some x)"

fun avlaltaccess :: "avlnode \<Rightarrow> TROVE_handle \<Rightarrow> TROVE_handle_extent option" where
  "avlaltaccess NULL key = None"
| "avlaltaccess (Avlnode l x sk r) key =
     (if key < ext_last x then avlaltaccess l key
      else if key > ext_last x then avlaltaccess r key
      else Some x)"

fun avlgethighest :: "avlnode \<Rightarrow> TROVE_handle_extent option" where
  "avlgethighest NULL = None"
| "avlgethighest (Avlnode l x sk r) = (if r \<noteq> NULL then avlgethighest r else Some x)"

text \<open>
  \<open>avlgethighest\<close> returns a pointer into the tree, through which the caller may write.
  \<open>avlstorehighest t e\<close> is the tree after \<open>**p = e\<close> for that pointer.
\<close>

fun avlstorehighest :: "avlnode \<Rightarrow> TROVE_handle_extent \<Rightarrow> avlnode" where
  "avlstorehighest NULL e = NULL"
| "avlstorehighest (Avlnode l x sk r) e =
     (if r \<noteq> NULL then Avlnode l x sk (avlstorehighest r e) else Avlnode l e sk r)"

text \<open>
  The worker functions act on state; the model passes it through the calls in the code's
  order. The worker receives the node's datum, the caller's parameter and the depth.
\<close>

fun avldepthfirst :: "avlnode \<Rightarrow> (TROVE_handle_extent \<Rightarrow> int \<Rightarrow> int \<Rightarrow> 's \<Rightarrow> 's) \<Rightarrow> int \<Rightarrow> int
    \<Rightarrow> 's \<Rightarrow> 's" where
  "avldepthfirst NULL f param depth s = s"
| "avldepthfirst (Avlnode l x sk r) f param depth s =
     avldepthfirst r f param (depth + 1)
       (f x param depth (avldepthfirst l f param (depth + 1) s))"

fun avlpostorder :: "avlnode \<Rightarrow> (TROVE_handle_extent \<Rightarrow> int \<Rightarrow> int \<Rightarrow> 's \<Rightarrow> 's) \<Rightarrow> int \<Rightarrow> int
    \<Rightarrow> 's \<Rightarrow> 's" where
  "avlpostorder NULL f param depth s = s"
| "avlpostorder (Avlnode l x sk r) f param depth s =
     f x param depth (avlpostorder r f param (depth + 1) (avlpostorder l f param (depth + 1) s))"


section \<open>Abstraction and invariant\<close>

fun inorder :: "avlnode \<Rightarrow> TROVE_handle_extent list" where
  "inorder NULL = []"
| "inorder (Avlnode l x sk r) = inorder l @ x # inorder r"

fun avl_ht :: "avlnode \<Rightarrow> nat" where
  "avl_ht NULL = 0"
| "avl_ht (Avlnode l x sk r) = Suc (max (avl_ht l) (avl_ht r))"

text \<open>The \<open>skew\<close> flag of each node records the difference of its subtrees' heights.\<close>

fun skew_ok :: "AVLSKEW \<Rightarrow> nat \<Rightarrow> nat \<Rightarrow> bool" where
  "skew_ok NONE hl hr = (hl = hr)"
| "skew_ok LEFT hl hr = (hl = Suc hr)"
| "skew_ok RIGHT hl hr = (hr = Suc hl)"

fun avl :: "avlnode \<Rightarrow> bool" where
  "avl NULL = True"
| "avl (Avlnode l x sk r) = (avl l \<and> avl r \<and> skew_ok sk (avl_ht l) (avl_ht r))"

abbreviation bst :: "avlnode \<Rightarrow> bool" where
  "bst t \<equiv> sorted_wrt (\<lambda>a b. ext_first a < ext_first b) (inorder t)"

lemma avl_ht_0 [simp]: "avl_ht t = 0 \<longleftrightarrow> t = NULL"
  by (cases t) auto

lemma avl_ht_0' [simp]: "0 = avl_ht t \<longleftrightarrow> t = NULL"
  by (cases t) auto

lemma avl_ht_Suc: "avl_ht t = Suc n \<Longrightarrow> \<exists>l x sk r. t = Avlnode l x sk r"
  by (cases t) auto

text \<open>
  Each rebalancing helper, called on a node one of whose subtrees has just changed its height
  by one: it never follows a null pointer, restores the invariant, keeps the in-order
  sequence, and reports the change of height.
\<close>

definition rebalanced :: "(avlnode \<times> AVLRES) option \<Rightarrow> TROVE_handle_extent list \<Rightarrow> nat \<Rightarrow> nat \<Rightarrow> bool" where
  "rebalanced out xs h_ok h_balance \<longleftrightarrow>
     (\<exists>t res. out = Some (t, res) \<and> avl t \<and> inorder t = xs \<and>
        (res = OK \<and> avl_ht t = h_ok \<or> res = BALANCE \<and> avl_ht t = h_balance))"

lemma avlleftgrown_ok:
  assumes "avl l" "avl r" "skew_ok sk h (avl_ht r)" "avl_ht l = Suc h"
    and grown: "\<And>ll x sk lr. l = Avlnode ll x sk lr \<Longrightarrow> h = 0 \<or> sk \<noteq> NONE"
  shows "rebalanced (avlleftgrown (Avlnode l x sk r)) (inorder l @ x # inorder r)
           (Suc (max h (avl_ht r))) (Suc (Suc (max h (avl_ht r))))"
proof -
  obtain ll lx ls lr where l: "l = Avlnode ll lx ls lr"
    using assms(4) avl_ht_Suc by blast
  show ?thesis
    using assms grown [OF l] unfolding l rebalanced_def
    by (cases sk; cases ls; cases lr)
       (auto split: AVLSKEW.splits)
qed

lemma avlrightgrown_ok:
  assumes "avl l" "avl r" "skew_ok sk (avl_ht l) h" "avl_ht r = Suc h"
    and grown: "\<And>rl x sk rr. r = Avlnode rl x sk rr \<Longrightarrow> h = 0 \<or> sk \<noteq> NONE"
  shows "rebalanced (avlrightgrown (Avlnode l x sk r)) (inorder l @ x # inorder r)
           (Suc (max (avl_ht l) h)) (Suc (Suc (max (avl_ht l) h)))"
proof -
  obtain rl rx rs rr where r: "r = Avlnode rl rx rs rr"
    using assms(4) avl_ht_Suc by blast
  show ?thesis
    using assms grown [OF r] unfolding r rebalanced_def
    by (cases sk; cases rs; cases rl)
       (auto split: AVLSKEW.splits)
qed

lemma avlleftshrunk_ok:
  assumes "avl l" "avl r" "skew_ok sk (Suc (avl_ht l)) (avl_ht r)"
  shows "rebalanced (avlleftshrunk (Avlnode l x sk r)) (inorder l @ x # inorder r)
           (Suc (max (Suc (avl_ht l)) (avl_ht r))) (max (Suc (avl_ht l)) (avl_ht r))"
proof (cases sk)
  case RIGHT
  with assms obtain rl rx rs rr where r: "r = Avlnode rl rx rs rr"
    by (cases r) auto
  show ?thesis
    using assms RIGHT unfolding r rebalanced_def
    by (cases rs; cases rl) (auto split: AVLSKEW.splits)
qed (use assms in \<open>auto simp: rebalanced_def\<close>)

lemma avlrightshrunk_ok:
  assumes "avl l" "avl r" "skew_ok sk (avl_ht l) (Suc (avl_ht r))"
  shows "rebalanced (avlrightshrunk (Avlnode l x sk r)) (inorder l @ x # inorder r)
           (Suc (max (avl_ht l) (Suc (avl_ht r)))) (max (avl_ht l) (Suc (avl_ht r)))"
proof (cases sk)
  case LEFT
  with assms obtain ll lx ls lr where l: "l = Avlnode ll lx ls lr"
    by (cases l) auto
  show ?thesis
    using assms LEFT unfolding l rebalanced_def
    by (cases ls; cases lr) (auto split: AVLSKEW.splits)
qed (use assms in \<open>auto simp: rebalanced_def\<close>)

section \<open>Insertion\<close>

text \<open>The root of a tree that grew is skewed, unless the tree was empty.\<close>

fun root_skew :: "avlnode \<Rightarrow> AVLSKEW" where
  "root_skew NULL = NONE"
| "root_skew (Avlnode l x sk r) = sk"

definition inserted :: "avlnode \<Rightarrow> TROVE_handle_extent \<Rightarrow> (avlnode \<times> AVLRES) option \<Rightarrow> bool" where
  "inserted t e out \<longleftrightarrow>
     (\<exists>t' res. out = Some (t', res) \<and> avl t' \<and>
        inorder t' = insort_key ext_first e (inorder t) \<and>
        (res = OK \<and> avl_ht t' = avl_ht t \<or>
         res = BALANCE \<and> avl_ht t' = Suc (avl_ht t) \<and> (t = NULL \<or> root_skew t' \<noteq> NONE)))"

lemma avlleftgrown_skew:
  "avlleftgrown t = Some (t', BALANCE) \<Longrightarrow> root_skew t' \<noteq> NONE"
  by (cases t) (auto split: AVLSKEW.splits avlnode.splits if_splits option.splits)

lemma avlrightgrown_skew:
  "avlrightgrown t = Some (t', BALANCE) \<Longrightarrow> root_skew t' \<noteq> NONE"
  by (cases t) (auto split: AVLSKEW.splits avlnode.splits if_splits option.splits)

lemmas rebalance_simps =
  avlleftgrown.simps avlrightgrown.simps avlleftshrunk.simps avlrightshrunk.simps

declare rebalance_simps [simp del]

text \<open>One level of the recursion, in each direction.\<close>

lemma inserted_left:
  assumes "inserted l e out" "avl (Avlnode l x sk r)" "ext_first e < ext_first x"
  shows "inserted (Avlnode l x sk r) e
           (case out of None \<Rightarrow> None
            | Some (l', tmp) \<Rightarrow> if tmp = BALANCE then avlleftgrown (Avlnode l' x sk r)
                              else Some (Avlnode l' x sk r, tmp))"
proof -
  from assms(1) obtain l' tmp where l': "out = Some (l', tmp)" "avl l'"
      "inorder l' = insort_key ext_first e (inorder l)"
      "tmp = OK \<and> avl_ht l' = avl_ht l \<or>
       tmp = BALANCE \<and> avl_ht l' = Suc (avl_ht l) \<and> (l = NULL \<or> root_skew l' \<noteq> NONE)"
    by (auto simp: inserted_def)
  have ins: "insort_key ext_first e (inorder (Avlnode l x sk r)) = inorder l' @ x # inorder r"
    using assms(3) l'(3) by (simp add: insort_key_append_le)
  show ?thesis
  proof (cases "tmp = BALANCE")
    case True
    have "rebalanced (avlleftgrown (Avlnode l' x sk r)) (inorder l' @ x # inorder r)
         (Suc (max (avl_ht l) (avl_ht r))) (Suc (Suc (max (avl_ht l) (avl_ht r))))"
      by (rule avlleftgrown_ok) (use l' True assms(2) in auto)
    then show ?thesis
      using l' True ins avlleftgrown_skew by (auto simp: inserted_def rebalanced_def)
  qed (use l' ins assms(2) in \<open>auto simp: inserted_def\<close>)
qed

lemma inserted_right:
  assumes "inserted r e out" "avl (Avlnode l x sk r)" "ext_first x < ext_first e"
    and "\<forall>z \<in> set (inorder l). ext_first z \<le> ext_first x"
  shows "inserted (Avlnode l x sk r) e
           (case out of None \<Rightarrow> None
            | Some (r', tmp) \<Rightarrow> if tmp = BALANCE then avlrightgrown (Avlnode l x sk r')
                              else Some (Avlnode l x sk r', tmp))"
proof -
  from assms(1) obtain r' tmp where r': "out = Some (r', tmp)" "avl r'"
      "inorder r' = insort_key ext_first e (inorder r)"
      "tmp = OK \<and> avl_ht r' = avl_ht r \<or>
       tmp = BALANCE \<and> avl_ht r' = Suc (avl_ht r) \<and> (r = NULL \<or> root_skew r' \<noteq> NONE)"
    by (auto simp: inserted_def)
  have ins: "insort_key ext_first e (inorder (Avlnode l x sk r)) = inorder l @ x # inorder r'"
    using assms(3,4) r'(3) by (simp add: insort_key_append_gr)
  show ?thesis
  proof (cases "tmp = BALANCE")
    case True
    have "rebalanced (avlrightgrown (Avlnode l x sk r')) (inorder l @ x # inorder r')
         (Suc (max (avl_ht l) (avl_ht r))) (Suc (Suc (max (avl_ht l) (avl_ht r))))"
      by (rule avlrightgrown_ok) (use r' True assms(2) in auto)
    then show ?thesis
      using r' True ins avlrightgrown_skew by (auto simp: inserted_def rebalanced_def)
  qed (use r' ins assms(2) in \<open>auto simp: inserted_def\<close>)
qed

lemma avlinsert_inserted:
  assumes "avl t" "bst t" "ext_first e \<notin> ext_first ` set (inorder t)"
  shows "inserted t e (avlinsert t e)"
  using assms
proof (induction t)
  case NULL
  then show ?case by (simp add: inserted_def)
next
  case (Avlnode l x sk r)
  then have "\<forall>z \<in> set (inorder l). ext_first z \<le> ext_first x"
    by (auto simp: sorted_wrt_append less_imp_le)
  moreover from Avlnode.prems have "ext_first e < ext_first x \<or> ext_first x < ext_first e"
    by force
  ultimately show ?case
    using Avlnode inserted_left [of l e "avlinsert l e" x sk r]
      inserted_right [of r e "avlinsert r e" l x sk]
    by (auto simp: sorted_wrt_append)
qed

text \<open>On a key that is already present the tree is left as it was.\<close>

lemma avlinsert_collision:
  assumes "bst t" "ext_first e \<in> ext_first ` set (inorder t)"
  shows "avlinsert t e = Some (t, ERROR)"
  using assms
proof (induction t)
  case (Avlnode l x sk r)
  then show ?case by (auto simp: sorted_wrt_append)
qed simp

section \<open>Removal\<close>

text \<open>What taking the highest or the lowest item out of a non-empty tree gives.\<close>

definition extracted :: "avlnode \<Rightarrow> TROVE_handle_extent list \<Rightarrow> TROVE_handle_extent
    \<Rightarrow> (TROVE_handle_extent option \<times> avlnode \<times> AVLRES) option \<Rightarrow> bool" where
  "extracted t xs y out \<longleftrightarrow>
     (\<exists>t' res. out = Some (Some y, t', res) \<and> avl t' \<and> inorder t' = xs \<and>
        (res = OK \<and> avl_ht t' = avl_ht t \<or> res = BALANCE \<and> Suc (avl_ht t') = avl_ht t))"

lemma inorder_Nil [simp]: "inorder t = [] \<longleftrightarrow> t = NULL"
  by (cases t) auto

lemma avlfindhighest_extracted:
  "avl t \<Longrightarrow> t \<noteq> NULL \<Longrightarrow>
   extracted t (butlast (inorder t)) (last (inorder t)) (avlfindhighest t)"
proof (induction t)
  case (Avlnode l x sk r)
  show ?case
  proof (cases "r = NULL")
    case True
    with Avlnode.prems show ?thesis by (cases sk) (auto simp: extracted_def)
  next
    case False
    with Avlnode obtain r' res where r': "avlfindhighest r = Some (Some (last (inorder r)), r', res)"
        "avl r'" "inorder r' = butlast (inorder r)"
        "res = OK \<and> avl_ht r' = avl_ht r \<or> res = BALANCE \<and> Suc (avl_ht r') = avl_ht r"
      by (auto simp: extracted_def)
    show ?thesis
    proof (cases "res = BALANCE")
      case True
      with r' have h: "avl_ht r = Suc (avl_ht r')" by auto
      have "rebalanced (avlrightshrunk (Avlnode l x sk r')) (inorder l @ x # inorder r')
          (Suc (max (avl_ht l) (Suc (avl_ht r')))) (max (avl_ht l) (Suc (avl_ht r')))"
        by (rule avlrightshrunk_ok) (use Avlnode.prems r' h in auto)
      then show ?thesis
        using False r' True h by (auto simp: extracted_def rebalanced_def butlast_append)
    qed (use False r' Avlnode.prems in \<open>auto simp: extracted_def butlast_append\<close>)
  qed
qed simp

lemma avlfindlowest_extracted:
  "avl t \<Longrightarrow> t \<noteq> NULL \<Longrightarrow>
   extracted t (tl (inorder t)) (hd (inorder t)) (avlfindlowest t)"
proof (induction t)
  case (Avlnode l x sk r)
  show ?case
  proof (cases "l = NULL")
    case True
    with Avlnode.prems show ?thesis by (cases sk) (auto simp: extracted_def)
  next
    case False
    with Avlnode obtain l' res where l': "avlfindlowest l = Some (Some (hd (inorder l)), l', res)"
        "avl l'" "inorder l' = tl (inorder l)"
        "res = OK \<and> avl_ht l' = avl_ht l \<or> res = BALANCE \<and> Suc (avl_ht l') = avl_ht l"
      by (auto simp: extracted_def)
    show ?thesis
    proof (cases "res = BALANCE")
      case True
      with l' have h: "avl_ht l = Suc (avl_ht l')" by auto
      have "rebalanced (avlleftshrunk (Avlnode l' x sk r)) (inorder l' @ x # inorder r)
          (Suc (max (Suc (avl_ht l')) (avl_ht r))) (max (Suc (avl_ht l')) (avl_ht r))"
        by (rule avlleftshrunk_ok) (use Avlnode.prems l' h in auto)
      then show ?thesis
        using False l' True h by (auto simp: extracted_def rebalanced_def)
    qed (use False l' Avlnode.prems in \<open>auto simp: extracted_def\<close>)
  qed
qed simp

definition removed :: "avlnode \<Rightarrow> TROVE_handle_extent list \<Rightarrow> (avlnode \<times> AVLRES) option \<Rightarrow> bool" where
  "removed t xs out \<longleftrightarrow>
     (\<exists>t' res. out = Some (t', res) \<and> avl t' \<and> inorder t' = xs \<and>
        (res = OK \<and> avl_ht t' = avl_ht t \<or> res = BALANCE \<and> Suc (avl_ht t') = avl_ht t))"

lemma removed_left:
  assumes "avl (Avlnode l x sk r)" "avl l'"
    and "tmp = OK \<and> avl_ht l' = avl_ht l \<or> tmp = BALANCE \<and> Suc (avl_ht l') = avl_ht l"
  shows "removed (Avlnode l x sk r) (inorder l' @ y # inorder r)
           (if tmp = BALANCE then avlleftshrunk (Avlnode l' y sk r) else Some (Avlnode l' y sk r, tmp))"
proof (cases "tmp = BALANCE")
  case True
  with assms have h: "avl_ht l = Suc (avl_ht l')" by auto
  have "rebalanced (avlleftshrunk (Avlnode l' y sk r)) (inorder l' @ y # inorder r)
      (Suc (max (Suc (avl_ht l')) (avl_ht r))) (max (Suc (avl_ht l')) (avl_ht r))"
    by (rule avlleftshrunk_ok) (use assms h in auto)
  then show ?thesis using True h by (auto simp: removed_def rebalanced_def)
qed (use assms in \<open>auto simp: removed_def\<close>)

lemma removed_right:
  assumes "avl (Avlnode l x sk r)" "avl r'"
    and "tmp = OK \<and> avl_ht r' = avl_ht r \<or> tmp = BALANCE \<and> Suc (avl_ht r') = avl_ht r"
  shows "removed (Avlnode l x sk r) (inorder l @ y # inorder r')
           (if tmp = BALANCE then avlrightshrunk (Avlnode l y sk r') else Some (Avlnode l y sk r', tmp))"
proof (cases "tmp = BALANCE")
  case True
  with assms have h: "avl_ht r = Suc (avl_ht r')" by auto
  have "rebalanced (avlrightshrunk (Avlnode l y sk r')) (inorder l @ y # inorder r')
      (Suc (max (avl_ht l) (Suc (avl_ht r')))) (max (avl_ht l) (Suc (avl_ht r')))"
    by (rule avlrightshrunk_ok) (use assms h in auto)
  then show ?thesis using True h by (auto simp: removed_def rebalanced_def)
qed (use assms in \<open>auto simp: removed_def\<close>)

lemma removed_step_left:
  assumes "avl (Avlnode l x sk r)" "removed l xs out"
  shows "removed (Avlnode l x sk r) (xs @ x # inorder r)
           (case out of None \<Rightarrow> None
            | Some (l', tmp) \<Rightarrow> if tmp = BALANCE then avlleftshrunk (Avlnode l' x sk r)
                              else Some (Avlnode l' x sk r, tmp))"
proof -
  from assms(2) obtain l' tmp where "out = Some (l', tmp)" "avl l'" "inorder l' = xs"
      "tmp = OK \<and> avl_ht l' = avl_ht l \<or> tmp = BALANCE \<and> Suc (avl_ht l') = avl_ht l"
    by (auto simp: removed_def)
  with removed_left [OF assms(1), of l' tmp x] show ?thesis by simp
qed

lemma removed_step_right:
  assumes "avl (Avlnode l x sk r)" "removed r xs out"
  shows "removed (Avlnode l x sk r) (inorder l @ x # xs)
           (case out of None \<Rightarrow> None
            | Some (r', tmp) \<Rightarrow> if tmp = BALANCE then avlrightshrunk (Avlnode l x sk r')
                              else Some (Avlnode l x sk r', tmp))"
proof -
  from assms(2) obtain r' tmp where "out = Some (r', tmp)" "avl r'" "inorder r' = xs"
      "tmp = OK \<and> avl_ht r' = avl_ht r \<or> tmp = BALANCE \<and> Suc (avl_ht r') = avl_ht r"
    by (auto simp: removed_def)
  with removed_right [OF assms(1), of r' tmp x] show ?thesis by simp
qed

lemma avlremove_here_removed:
  assumes "avl (Avlnode l x sk r)"
  shows "removed (Avlnode l x sk r) (inorder l @ inorder r) (avlremove_here l x sk r)"
proof (cases "l = NULL")
  case False
  then obtain l' tmp where l': "avlfindhighest l = Some (Some (last (inorder l)), l', tmp)" "avl l'"
      "inorder l' = butlast (inorder l)"
      "tmp = OK \<and> avl_ht l' = avl_ht l \<or> tmp = BALANCE \<and> Suc (avl_ht l') = avl_ht l"
    using avlfindhighest_extracted [of l] assms by (auto simp: extracted_def)
  have "inorder l' @ last (inorder l) # inorder r = inorder l @ inorder r"
    using False l'(3) append_butlast_last_id [of "inorder l"]
    by (metis append.assoc append_Cons append_Nil inorder_Nil)
  with removed_left [OF assms l'(2,4), of "last (inorder l)"] show ?thesis
    using False l'(1) by (simp add: avlremove_here_def)
next
  case left: True
  show ?thesis
  proof (cases "r = NULL")
    case False
    then obtain r' tmp where r': "avlfindlowest r = Some (Some (hd (inorder r)), r', tmp)" "avl r'"
        "inorder r' = tl (inorder r)"
        "tmp = OK \<and> avl_ht r' = avl_ht r \<or> tmp = BALANCE \<and> Suc (avl_ht r') = avl_ht r"
      using avlfindlowest_extracted [of r] assms by (auto simp: extracted_def)
    have "hd (inorder r) # inorder r' = inorder r" using False r'(3) by simp
    with removed_right [OF assms r'(2,4), of "hd (inorder r)"] show ?thesis
      using left False r'(1) by (auto simp: avlremove_here_def split: if_splits)
  qed (use left assms in \<open>auto simp: avlremove_here_def removed_def\<close>)
qed

lemma avlremove_absent:
  assumes "bst t" "k \<notin> ext_first ` set (inorder t)"
  shows "avlremove t k = Some (t, ERROR)"
  using assms
proof (induction t)
  case (Avlnode l x sk r)
  then show ?case by (auto simp: sorted_wrt_append image_Un)
qed simp

lemma avlremove_removed:
  assumes "avl t" "bst t" "k \<in> ext_first ` set (inorder t)"
  shows "removed t (filter (\<lambda>e. ext_first e \<noteq> k) (inorder t)) (avlremove t k)"
  using assms
proof (induction t)
  case (Avlnode l x sk r)
  have ord: "\<forall>z \<in> set (inorder l). ext_first z < ext_first x"
    "\<forall>z \<in> set (inorder r). ext_first x < ext_first z" "bst l" "bst r"
    using Avlnode.prems(2) by (auto simp: sorted_wrt_append)
  consider "k < ext_first x" | "ext_first x < k" | "k = ext_first x" by force
  then show ?case
  proof cases
    case 1
    have "\<forall>z \<in> set (inorder r). k < ext_first z"
      using 1 ord(2) by (meson less_trans)
    moreover from this have "k \<in> ext_first ` set (inorder l)"
      using Avlnode.prems(3) 1 by auto
    ultimately show ?thesis
      using 1 Avlnode.IH(1) Avlnode.prems(1) ord removed_step_left [OF Avlnode.prems(1)]
      by (auto simp: less_imp_neq)
  next
    case 2
    have "\<forall>z \<in> set (inorder l). ext_first z < k"
      using 2 ord(1) by (meson less_trans)
    moreover from this have "k \<in> ext_first ` set (inorder r)"
      using Avlnode.prems(3) 2 by auto
    ultimately show ?thesis
      using 2 Avlnode.IH(2) Avlnode.prems(1) ord removed_step_right [OF Avlnode.prems(1)]
      by (auto simp: less_imp_neq)
  next
    case 3
    with avlremove_here_removed [OF Avlnode.prems(1)] ord show ?thesis by simp
  qed
qed simp

section \<open>Lookups\<close>

lemma avlaccess_find:
  "bst t \<Longrightarrow> avlaccess t k = List.find (\<lambda>e. ext_first e = k) (inorder t)"
  by (induction t) (auto simp: find_key_mid sorted_wrt_append)

lemma avlaltaccess_find:
  "sorted_wrt (\<lambda>a b. ext_last a < ext_last b) (inorder t) \<Longrightarrow>
   avlaltaccess t k = List.find (\<lambda>e. ext_last e = k) (inorder t)"
  by (induction t) (auto simp: find_key_mid sorted_wrt_append)

lemma avlgethighest_last:
  "avlgethighest t = (if inorder t = [] then None else Some (last (inorder t)))"
  by (induction t) auto

lemma inorder_avlstorehighest:
  "inorder t \<noteq> [] \<Longrightarrow> inorder (avlstorehighest t e) = butlast (inorder t) @ [e]"
  by (induction t) (auto simp: butlast_append)

lemma avlstorehighest_NULL [simp]: "avlstorehighest t e = NULL \<longleftrightarrow> t = NULL"
  by (cases t) auto

lemma avl_avlstorehighest:
  "avl_ht (avlstorehighest t e) = avl_ht t \<and> avl (avlstorehighest t e) = avl t"
  by (induction t) auto

lemma bst_avlstorehighest:
  assumes "bst t" "inorder t \<noteq> []" "ext_first e = ext_first (last (inorder t))"
  shows "bst (avlstorehighest t e)"
proof -
  obtain xs y where xs: "inorder t = xs @ [y]"
    using assms(2) by (metis rev_exhaust)
  with assms show ?thesis
    by (simp add: inorder_avlstorehighest sorted_wrt_append)
qed

section \<open>The tree implements the index contract\<close>

lemma inserted_contract:
  assumes "avl t \<and> bst t" "ext_first e \<notin> ext_first ` set (inorder t)"
  shows "\<exists>t' r. avlinsert t e = Some (t', r) \<and> r \<noteq> ERROR \<and> (avl t' \<and> bst t') \<and>
           inorder t' = insort_key ext_first e (inorder t)"
  using avlinsert_inserted [of t e] assms
  by (auto simp: inserted_def sorted_by_key_insort)

lemma removed_contract:
  assumes "avl t \<and> bst t" "k \<in> ext_first ` set (inorder t)"
  shows "\<exists>t' r. avlremove t k = Some (t', r) \<and> r \<noteq> ERROR \<and> (avl t' \<and> bst t') \<and>
           inorder t' = filter (\<lambda>e. ext_first e \<noteq> k) (inorder t)"
  using avlremove_removed [of t k] assms
  by (auto simp: removed_def sorted_wrt_filter)

interpretation ix: extent_index avlinsert avlremove avlaccess avlaltaccess avlgethighest
  avlstorehighest inorder "\<lambda>t. avl t \<and> bst t" ERROR
proof unfold_locales
  fix t and e :: TROVE_handle_extent
  assume "avl t \<and> bst t" "inorder t \<noteq> []" "ext_first e = ext_first (last (inorder t))"
  then show "avl (avlstorehighest t e) \<and> bst (avlstorehighest t e)"
    using bst_avlstorehighest [of t e] by (simp add: avl_avlstorehighest)
qed (fact inserted_contract removed_contract inorder_avlstorehighest avlgethighest_last
  | simp add: avlaccess_find avlaltaccess_find)+

section \<open>Properties\<close>

text \<open>
  C22. Inserting into a balanced search tree never follows a null pointer and gives a balanced
  search tree. A new key is placed in order; the code returned is BALANCE exactly when
  the tree has grown by one level. An existing key leaves the tree as it was and returns ERROR.
\<close>

theorem avlinsert_correct:
  assumes "avl t" "bst t"
  shows "\<exists>t' res. avlinsert t e = Some (t', res) \<and> avl t' \<and> bst t' \<and>
    (if ext_first e \<in> ext_first ` set (inorder t) then t' = t \<and> res = ERROR
     else inorder t' = insort_key ext_first e (inorder t) \<and> res \<noteq> ERROR \<and>
          avl_ht t' = avl_ht t + (if res = BALANCE then 1 else 0))"
proof (cases "ext_first e \<in> ext_first ` set (inorder t)")
  case True
  with avlinsert_collision [OF assms(2)] assms show ?thesis by simp
next
  case False
  then obtain t' res where "avlinsert t e = Some (t', res)" "avl t'"
      "inorder t' = insort_key ext_first e (inorder t)"
      "res = OK \<and> avl_ht t' = avl_ht t \<or> res = BALANCE \<and> avl_ht t' = Suc (avl_ht t)"
    using avlinsert_inserted [OF assms False] unfolding inserted_def by blast
  with False show ?thesis
    by (auto simp: sorted_by_key_insort assms(2) intro!: exI [of _ t'])
qed

definition ex_extent :: "TROVE_handle \<Rightarrow> TROVE_handle \<Rightarrow> TROVE_handle_extent" where
  "ex_extent a b = \<lparr>ext_first = a, ext_last = b\<rparr>"

text \<open>Inserting the first handle range 10..12 left of 20..29 and 40..40 grows the tree.\<close>

theorem avlinsert_correct_witness:
  "\<exists>t' res. avlinsert (Avlnode NULL (ex_extent 20 29) RIGHT (Avlnode NULL (ex_extent 40 40) NONE NULL))
       (ex_extent 10 12) = Some (t', res) \<and> avl t' \<and>
     inorder t' = [ex_extent 10 12, ex_extent 20 29, ex_extent 40 40] \<and> res = OK"
proof -
  let ?t = "Avlnode NULL (ex_extent 20 29) RIGHT (Avlnode NULL (ex_extent 40 40) NONE NULL)"
  have hyps: "avl ?t" "bst ?t" by (simp_all add: ex_extent_def)
  from avlinsert_correct [OF hyps, of "ex_extent 10 12"]
  show ?thesis by (auto simp: ex_extent_def rebalance_simps)
qed

text \<open>
  C21. Removing a key from a balanced search tree never follows a null pointer and gives a
  balanced search tree that holds exactly the other extents, in order; the code returned
  is BALANCE exactly when the tree has lost a level. A missing key is reported as ERROR and
  changes nothing.
\<close>

theorem avlremove_correct:
  assumes "avl t" "bst t"
  shows "\<exists>t' res. avlremove t k = Some (t', res) \<and> avl t' \<and> bst t' \<and>
    inorder t' = filter (\<lambda>e. ext_first e \<noteq> k) (inorder t) \<and>
    (if k \<in> ext_first ` set (inorder t)
     then res \<noteq> ERROR \<and> avl_ht t = avl_ht t' + (if res = BALANCE then 1 else 0)
     else t' = t \<and> res = ERROR)"
proof (cases "k \<in> ext_first ` set (inorder t)")
  case True
  then obtain t' res where "avlremove t k = Some (t', res)" "avl t'"
      "inorder t' = filter (\<lambda>e. ext_first e \<noteq> k) (inorder t)"
      "res = OK \<and> avl_ht t' = avl_ht t \<or> res = BALANCE \<and> Suc (avl_ht t') = avl_ht t"
    using avlremove_removed [OF assms True] unfolding removed_def by blast
  with True show ?thesis
    by (auto simp: sorted_wrt_filter assms(2) intro!: exI [of _ t'])
next
  case False
  with avlremove_absent [OF assms(2)] assms show ?thesis
    by (simp add: filter_key_absent)
qed

theorem avlremove_correct_witness:
  "\<exists>t' res. avlremove (Avlnode NULL (ex_extent 20 29) RIGHT (Avlnode NULL (ex_extent 40 40) NONE NULL))
       20 = Some (t', res) \<and> avl t' \<and> inorder t' = [ex_extent 40 40] \<and> res = BALANCE"
proof -
  let ?t = "Avlnode NULL (ex_extent 20 29) RIGHT (Avlnode NULL (ex_extent 40 40) NONE NULL)"
  have hyps: "avl ?t" "bst ?t" by (simp_all add: ex_extent_def)
  from avlremove_correct [OF hyps, of 20]
  show ?thesis by (auto simp: ex_extent_def avlremove_here_def rebalance_simps)
qed

text \<open>
  The height of a balanced tree is logarithmic in the number of its extents, so every
  search, insertion and removal visits a logarithmic number of nodes.
\<close>

theorem avl_height_bound:
  assumes "avl t"
  shows "2 ^ (avl_ht t div 2) \<le> length (inorder t) + 1"
  using assms
proof (induction t rule: measure_induct_rule [where f = avl_ht])
  case (less t)
  show ?case
  proof (cases t)
    case (Avlnode l x sk r)
    have "2 ^ (avl_ht l div 2) \<le> length (inorder l) + 1"
      "2 ^ (avl_ht r div 2) \<le> length (inorder r) + 1"
      using less Avlnode by auto
    moreover have "avl_ht t \<le> avl_ht l + 2" "avl_ht t \<le> avl_ht r + 2"
      using less.prems Avlnode by (cases sk; simp)+
    then have "avl_ht t div 2 \<le> Suc (avl_ht l div 2)" "avl_ht t div 2 \<le> Suc (avl_ht r div 2)"
      by linarith+
    then have "(2 :: nat) ^ (avl_ht t div 2) \<le> 2 * 2 ^ (avl_ht l div 2)"
      "(2 :: nat) ^ (avl_ht t div 2) \<le> 2 * 2 ^ (avl_ht r div 2)"
      by (metis one_le_numeral power_Suc power_increasing)+
    ultimately show ?thesis using Avlnode by simp
  qed simp
qed

theorem avl_height_bound_witness:
  "avl (Avlnode NULL (ex_extent 20 29) RIGHT (Avlnode NULL (ex_extent 40 40) NONE NULL)) \<and>
   (2 :: nat) ^ (avl_ht (Avlnode NULL (ex_extent 20 29) RIGHT
      (Avlnode NULL (ex_extent 40 40) NONE NULL)) div 2) \<le> 3"
  using avl_height_bound [of "Avlnode NULL (ex_extent 20 29) RIGHT
      (Avlnode NULL (ex_extent 40 40) NONE NULL)"]
  by simp

end
