(* ===== verification/Extent_List.thy ===== *)
theory Extent_List
  imports Avl_Tree
begin

text \<open>
  The extent lists of \<open>src/io/trove/trove-handle-mgmt/trove-extentlist.c\<close>: sets of free
  handles kept as maximal ranges in the AVL tree.

  The operations take the list and return its new value with the C return value. The result
  \<open>None\<close> is a memory fault or a failed \<open>assert\<close>. The abstraction of a list is the set
  \<open>el_free\<close> of its handles, and the lemmas show each operation to implement the
  corresponding set operation while keeping the extents disjoint, ordered and maximal.
  Memory allocation is taken to succeed. The counters \<open>num_handles\<close> and \<open>num_extents\<close> are
  64-bit words: the code compares \<open>num_handles\<close> with an unsigned cutoff.
\<close>

section \<open>Data\<close>

text \<open>
  \<open>__size\<close> and the array \<open>extents\<close> serve the disabled on-disk format only and are left out.
\<close>

record TROVE_handle_extentlist =
  num_extents :: "64 word"
  num_handles :: "64 word"
  timestamp :: timeval
  index :: avlnode

datatype extentlist_coalesce_status = COALESCE_ERROR | COALESCE_NONE | COALESCE_SUCCESS

definition extent_init :: "TROVE_handle \<Rightarrow> TROVE_handle \<Rightarrow> TROVE_handle_extent" where
  "extent_init f l = \<lparr>ext_first = f, ext_last = l\<rparr>"

definition zero_timeval :: timeval where
  "zero_timeval = \<lparr>tv_sec = 0, tv_usec = 0\<rparr>"

text \<open>A zeroed struct: what \<open>calloc\<close> and \<open>memset\<close> leave.\<close>

definition zero_extentlist :: TROVE_handle_extentlist where
  "zero_extentlist = \<lparr>num_extents = 0, num_handles = 0, timestamp = zero_timeval, index = NULL\<rparr>"

section \<open>Operations\<close>

definition extentlist_init :: "timeval \<Rightarrow> TROVE_handle_extentlist \<Rightarrow> TROVE_handle_extentlist \<times> int" where
  "extentlist_init now elist = (elist\<lparr>timestamp := now\<rparr>, 0)"

text \<open>All nodes are released and the struct is zeroed.\<close>

definition extentlist_free :: "TROVE_handle_extentlist \<Rightarrow> TROVE_handle_extentlist" where
  "extentlist_free e = zero_extentlist"

text \<open>
  \<open>extentlist_coalesce_extent\<close> returns the tree, the extent (whose bounds it may have
  widened) and the status. Its three parts run in the code's order: the search for the
  lesser neighbour, the search for the greater one on the tree the first removal left, and the
  insertion of the widened extent.
\<close>

definition coalesce_insert :: "avlnode \<Rightarrow> TROVE_handle_extent \<Rightarrow> bool
    \<Rightarrow> (avlnode \<times> TROVE_handle_extent \<times> extentlist_coalesce_status) option" where
  "coalesce_insert n e merged =
     (if merged then
        (case avlinsert n e of
           None \<Rightarrow> None
         | Some (n', res) \<Rightarrow>
             Some (n', e, if res = ERROR then COALESCE_ERROR else COALESCE_SUCCESS))
      else Some (n, e, COALESCE_NONE))"

definition coalesce_greater :: "avlnode \<Rightarrow> TROVE_handle_extent \<Rightarrow> bool
    \<Rightarrow> (avlnode \<times> TROVE_handle_extent \<times> extentlist_coalesce_status) option" where
  "coalesce_greater n e merge_lesser =
     (case avlaccess n (ext_last e + 1) of
        None \<Rightarrow> coalesce_insert n e merge_lesser
      | Some gr \<Rightarrow>
          (let e' = e\<lparr>ext_last := ext_last gr\<rparr>
           in case avlremove n (ext_first gr) of
                None \<Rightarrow> None
              | Some (n', res) \<Rightarrow>
                  if res = ERROR then Some (n', e', COALESCE_ERROR)
                  else coalesce_insert n' e' True))"

definition extentlist_coalesce_extent :: "avlnode \<Rightarrow> TROVE_handle_extent
    \<Rightarrow> (avlnode \<times> TROVE_handle_extent \<times> extentlist_coalesce_status) option" where
  "extentlist_coalesce_extent n e =
     (case avlaltaccess n (ext_first e - 1) of
        None \<Rightarrow> coalesce_greater n e False
      | Some le \<Rightarrow>
          (let e' = e\<lparr>ext_first := ext_first le\<rparr>
           in case avlremove n (ext_first le) of
                None \<Rightarrow> None
              | Some (n', res) \<Rightarrow>
                  if res = ERROR then Some (n', e', COALESCE_ERROR)
                  else coalesce_greater n' e' True))"

definition extentlist_addextent :: "timeval \<Rightarrow> TROVE_handle_extentlist \<Rightarrow> TROVE_handle \<Rightarrow> TROVE_handle
    \<Rightarrow> (TROVE_handle_extentlist \<times> int) option" where
  "extentlist_addextent now elist f l =
     (let counted = (\<lambda>el. el\<lparr>timestamp := now, num_handles := num_handles el + (l - f + 1)\<rparr>)
      in case extentlist_coalesce_extent (index elist) (extent_init f l) of
           None \<Rightarrow> None
         | Some (n, e, status) \<Rightarrow>
             if status = COALESCE_NONE then
               (case avlinsert n e of
                  None \<Rightarrow> None
                | Some (n', res) \<Rightarrow>
                    if res = ERROR then Some (elist\<lparr>index := n'\<rparr>, -1)
                    else Some (counted (elist\<lparr>index := n', num_extents := num_extents elist + 1\<rparr>), 0))
             else Some (counted (elist\<lparr>index := n\<rparr>), 0))"

text \<open>
  \<open>extentlist_merge\<close>: while the source tree is not empty, add the extent at its root to
  the destination and remove it from the source. Removing the key of the root always shrinks
  the tree, whatever its shape, so the loop ends.
\<close>

lemma inorder_avlrotleft: "avlrotleft t = Some t' \<Longrightarrow> inorder t' = inorder t"
  by (cases t rule: avlrotleft.cases) auto

lemma inorder_avlrotright: "avlrotright t = Some t' \<Longrightarrow> inorder t' = inorder t"
  by (cases t rule: avlrotright.cases) auto

lemma inorder_avlleftshrunk: "avlleftshrunk t = Some (t', res) \<Longrightarrow> inorder t' = inorder t"
  by (cases t) (auto simp: rebalance_simps split: AVLSKEW.splits avlnode.splits if_splits option.splits)

lemma inorder_avlrightshrunk: "avlrightshrunk t = Some (t', res) \<Longrightarrow> inorder t' = inorder t"
  by (cases t) (auto simp: rebalance_simps split: AVLSKEW.splits avlnode.splits if_splits option.splits)

lemma length_avlfindhighest:
  "avlfindhighest t = Some (Some y, t', res) \<Longrightarrow> length (inorder t) = Suc (length (inorder t'))"
  by (induction t arbitrary: t' res)
     (auto split: if_splits option.splits dest!: inorder_avlrightshrunk)

lemma length_avlfindlowest:
  "avlfindlowest t = Some (Some y, t', res) \<Longrightarrow> length (inorder t) = Suc (length (inorder t'))"
  by (induction t arbitrary: t' res)
     (auto split: if_splits option.splits dest!: inorder_avlleftshrunk)

lemma length_avlremove_here:
  "avlremove_here l x sk r = Some (t', res) \<Longrightarrow>
   length (inorder t') < length (inorder (Avlnode l x sk r))"
  unfolding avlremove_here_def Let_def
  by (auto split: if_splits option.splits
      dest!: inorder_avlleftshrunk inorder_avlrightshrunk length_avlfindhighest length_avlfindlowest)

function extentlist_merge_loop :: "timeval \<Rightarrow> TROVE_handle_extentlist \<Rightarrow> avlnode
    \<Rightarrow> TROVE_handle_extentlist option" where
  "extentlist_merge_loop now dest NULL = Some dest"
| "extentlist_merge_loop now dest (Avlnode l x sk r) =
     (case extentlist_addextent now dest (ext_first x) (ext_last x) of
        None \<Rightarrow> None
      | Some (dest', rc) \<Rightarrow>
          (case avlremove (Avlnode l x sk r) (ext_first x) of
             None \<Rightarrow> None
           | Some (n', res) \<Rightarrow> extentlist_merge_loop now dest' n'))"
  by pat_completeness auto
termination
  by (relation "measure (\<lambda>(now, dest, n). length (inorder n))")
     (auto dest: length_avlremove_here)

definition extentlist_merge :: "timeval \<Rightarrow> TROVE_handle_extentlist \<Rightarrow> TROVE_handle_extentlist
    \<Rightarrow> (TROVE_handle_extentlist \<times> TROVE_handle_extentlist \<times> int) option" where
  "extentlist_merge now dest src =
     map_option (\<lambda>d. (d, src\<lparr>index := NULL\<rparr>, 0)) (extentlist_merge_loop now dest (index src))"

text \<open>
  The handle returned when the list is empty is \<open>(TROVE_handle) -1\<close>, not
  \<open>TROVE_HANDLE_NULL\<close>. Only the branch that shortens an extent counts the handle off
  \<open>num_handles\<close>.
\<close>

definition extentlist_get_and_dec_extent :: "TROVE_handle_extentlist
    \<Rightarrow> (TROVE_handle_extentlist \<times> TROVE_handle) option" where
  "extentlist_get_and_dec_extent elist =
     (case avlgethighest (index elist) of
        None \<Rightarrow> Some (elist, -1)
      | Some ext \<Rightarrow>
          if \<not> ext_first ext \<le> ext_last ext then None
          else if ext_first ext = ext_last ext then
            (case avlremove (index elist) (ext_first ext) of
               None \<Rightarrow> None
             | Some (n, res) \<Rightarrow>
                 if res = ERROR then Some (elist\<lparr>index := n\<rparr>, -1)
                 else Some (elist\<lparr>index := n, num_extents := num_extents elist - 1\<rparr>, ext_last ext))
          else
            Some (elist\<lparr>index := avlstorehighest (index elist) (ext\<lparr>ext_last := ext_last ext - 1\<rparr>),
                        num_handles := num_handles elist - 1\<rparr>, ext_last ext))"

fun avltree_extent_search :: "avlnode \<Rightarrow> TROVE_handle \<Rightarrow> (TROVE_handle \<times> TROVE_handle) option" where
  "avltree_extent_search NULL handle = None"
| "avltree_extent_search (Avlnode l e sk r) handle =
     (if ext_first e > handle then avltree_extent_search l handle
      else if ext_last e < handle then avltree_extent_search r handle
      else Some (ext_first e, ext_last e))"

fun avltree_extent_search_in_range :: "avlnode \<Rightarrow> TROVE_handle_extent \<Rightarrow> TROVE_handle" where
  "avltree_extent_search_in_range NULL req = 0"
| "avltree_extent_search_in_range (Avlnode l e sk r) req =
     (if ext_first req = ext_first e \<or> ext_first req = ext_last e then ext_first req
      else if ext_last req = ext_first e \<or> ext_last req = ext_last e then ext_last req
      else if ext_first req > ext_first e \<and> ext_last req < ext_last e then ext_last req
      else if ext_first req < ext_first e \<and> ext_last req > ext_last e then ext_last e
      else if ext_first req < ext_first e \<and> ext_last req < ext_last e \<and> ext_last req > ext_first e
        then ext_first e
      else if ext_first req > ext_first e \<and> ext_last req > ext_last e \<and> ext_first req < ext_last e
        then ext_last e
      else if l \<noteq> NULL \<and> ext_last req < ext_first e then avltree_extent_search_in_range l req
      else if r \<noteq> NULL \<and> ext_first req > ext_last e then avltree_extent_search_in_range r req
      else 0)"

text \<open>
  \<open>extentlist_handle_remove\<close> ignores the results of its insertions and leaves both
  counters alone; \<open>assert(ret != 0)\<close> after the removal is a fault of the model.
\<close>

definition extentlist_handle_remove :: "TROVE_handle_extentlist \<Rightarrow> TROVE_handle
    \<Rightarrow> (TROVE_handle_extentlist \<times> int) option" where
  "extentlist_handle_remove elist handle =
     (case avltree_extent_search (index elist) handle of
        None \<Rightarrow> Some (elist, -1)
      | Some (key_handle, last_handle) \<Rightarrow>
          (case avlremove (index elist) key_handle of
             None \<Rightarrow> None
           | Some (n, res) \<Rightarrow>
               if res = ERROR then None
               else if key_handle = last_handle then Some (elist\<lparr>index := n\<rparr>, 0)
               else if key_handle = handle then
                 (case avlinsert n (extent_init (key_handle + 1) last_handle) of
                    None \<Rightarrow> None
                  | Some (n', _) \<Rightarrow> Some (elist\<lparr>index := n'\<rparr>, 0))
               else if last_handle = handle then
                 (case avlinsert n (extent_init key_handle (last_handle - 1)) of
                    None \<Rightarrow> None
                  | Some (n', _) \<Rightarrow> Some (elist\<lparr>index := n'\<rparr>, 0))
               else
                 (case avlinsert n (extent_init key_handle (handle - 1)) of
                    None \<Rightarrow> None
                  | Some (n', _) \<Rightarrow>
                      (case avlinsert n' (extent_init (handle + 1) last_handle) of
                         None \<Rightarrow> None
                       | Some (n'', _) \<Rightarrow> Some (elist\<lparr>index := n''\<rparr>, 0)))))"

definition extentlist_get_from_extent :: "TROVE_handle_extentlist \<Rightarrow> TROVE_handle_extent
    \<Rightarrow> (TROVE_handle_extentlist \<times> TROVE_handle) option" where
  "extentlist_get_from_extent elist extent =
     (let handle = avltree_extent_search_in_range (index elist) extent
      in if handle = TROVE_HANDLE_NULL then Some (elist, TROVE_HANDLE_NULL)
         else case extentlist_handle_remove elist handle of
                None \<Rightarrow> None
              | Some (elist', rc) \<Rightarrow>
                  if rc = -1 then Some (elist', TROVE_HANDLE_NULL) else Some (elist', handle))"

text \<open>
  The handles are written to the output array downwards from the end of the highest extent;
  \<open>out\<close> is what the array holds so far.
\<close>

lemma pred_two_less: "(h :: TROVE_handle) \<noteq> 1 \<Longrightarrow> h - 2 < h - 1"
  using pred_less [of "h - 1"] by (simp add: word_gt_0)

function extentlist_peek_loop :: "TROVE_handle \<Rightarrow> int \<Rightarrow> TROVE_handle \<Rightarrow> TROVE_handle list
    \<Rightarrow> TROVE_handle list" where
  "extentlist_peek_loop f max_num_handles handle out =
     (let out' = out @ [handle]
      in if int (length out') = max_num_handles then out'
         else let handle' = (if handle \<ge> f then handle - 1 else TROVE_HANDLE_NULL)
              in if handle' \<noteq> TROVE_HANDLE_NULL then extentlist_peek_loop f max_num_handles handle' out'
                 else out')"
  by pat_completeness auto
termination
  by (relation "measure (\<lambda>(f, max_num_handles, handle, out). unat (handle - 1))")
     (auto split: if_splits simp: word_less_nat_alt [symmetric] pred_two_less)

declare extentlist_peek_loop.simps [simp del]

definition extentlist_peek_handles :: "TROVE_handle_extentlist \<Rightarrow> int
    \<Rightarrow> (TROVE_handle list \<times> int) option" where
  "extentlist_peek_handles elist max_num_handles =
     (case avlgethighest (index elist) of
        None \<Rightarrow> Some ([], - TROVE_ENOSPC)
      | Some ext \<Rightarrow>
          if \<not> ext_first ext \<le> ext_last ext then None
          else let out = extentlist_peek_loop (ext_first ext) max_num_handles (ext_last ext) []
               in Some (out, if out \<noteq> [] then 0 else - TROVE_ENOSPC))"

text \<open>
  The loop over a requested range lowers the end of the request below each handle it finds. It
  ends when the array is full, when nothing is found, or when the handle found is 1; no
  argument bounds it otherwise, so not ending is the value \<open>None\<close>.
\<close>

partial_function (option) extentlist_peek_range_loop :: "avlnode \<Rightarrow> int \<Rightarrow> TROVE_handle_extent
    \<Rightarrow> TROVE_handle list \<Rightarrow> TROVE_handle list option" where
  "extentlist_peek_range_loop n max_num_handles tmp_extent out =
     (let handle = avltree_extent_search_in_range n tmp_extent
      in if handle = TROVE_HANDLE_NULL then Some out
         else let out' = out @ [handle]
              in if int (length out') = max_num_handles then Some out'
                 else if handle - 1 \<noteq> TROVE_HANDLE_NULL then
                   extentlist_peek_range_loop n max_num_handles (tmp_extent\<lparr>ext_last := handle - 1\<rparr>) out'
                 else Some out')"

definition extentlist_peek_handles_from_extent :: "TROVE_handle_extentlist \<Rightarrow> TROVE_handle_extent
    \<Rightarrow> int \<Rightarrow> (TROVE_handle list \<times> int) option" where
  "extentlist_peek_handles_from_extent elist extent max_num_handles =
     map_option (\<lambda>out. (out, if out \<noteq> [] then 0 else - TROVE_ENOSPC))
       (extentlist_peek_range_loop (index elist) max_num_handles extent [])"

definition extent_count :: "TROVE_handle_extent \<Rightarrow> int \<Rightarrow> int \<Rightarrow> 64 word \<Rightarrow> 64 word" where
  "extent_count e param depth g_counter = g_counter + (ext_last e - ext_first e + 1)"

definition extentlist_count :: "TROVE_handle_extentlist \<Rightarrow> 64 word" where
  "extentlist_count elist = avldepthfirst (index elist) extent_count 0 0 0"

text \<open>\<open>elist->num_handles > cutoff\<close> compares a signed with an unsigned value, hence unsigned.\<close>

definition extentlist_hit_cutoff :: "TROVE_handle_extentlist \<Rightarrow> 64 word \<Rightarrow> bool" where
  "extentlist_hit_cutoff elist cutoff \<longleftrightarrow> num_handles elist > cutoff"

text \<open>
  The static \<open>s_extentlist_purgatory\<close> is passed as \<open>purgatory\<close>. The difference of the
  seconds is cast to a 32-bit \<open>int\<close>.
\<close>

definition extentlist_endured_purgatory :: "timeval \<Rightarrow> TROVE_handle_extentlist
    \<Rightarrow> TROVE_handle_extentlist \<Rightarrow> bool" where
  "extentlist_endured_purgatory purgatory querent reference \<longleftrightarrow>
     sint (word_of_int (tv_sec (timestamp querent) - tv_sec (timestamp reference)) :: 32 word)
       > tv_sec purgatory"

text \<open>\<open>assert(timeout->tv_sec > -1)\<close>, then the new value of \<open>s_extentlist_purgatory\<close>.\<close>

definition extentlist_set_purgatory :: "timeval \<Rightarrow> (timeval \<times> int) option" where
  "extentlist_set_purgatory timeout = (if tv_sec timeout > -1 then Some (timeout, 0) else None)"

section \<open>Invariant and abstraction\<close>

definition el_ok :: "TROVE_handle_extentlist \<Rightarrow> bool" where
  "el_ok el \<longleftrightarrow> avl (index el) \<and> bst (index el) \<and> canonical (set (inorder (index el)))"

definition el_free :: "TROVE_handle_extentlist \<Rightarrow> TROVE_handle set" where
  "el_free el = cover (set (inorder (index el)))"

lemma el_ok_zero [simp]: "el_ok zero_extentlist" "el_free zero_extentlist = {}"
  by (simp_all add: el_ok_def el_free_def zero_extentlist_def)

section \<open>Adding an extent\<close>

text \<open>What is left in the tree and in the extent after the merges, before the insertion.\<close>

lemma coalesce_insert_ok:
  assumes "avl n \<and> bst n" "addable (ix.exts n) e"
    "\<forall>a \<in> ix.exts n. ext_last a \<noteq> ext_first e - 1" "\<forall>a \<in> ix.exts n. ext_first a \<noteq> ext_last e + 1"
  obtains n' res where "avlinsert n e = Some (n', res)" "res \<noteq> ERROR" "avl n' \<and> bst n'"
    "canonical (ix.exts n')" "ix.exts n' = insert e (ix.exts n)"
proof -
  obtain n' res where "avlinsert n e = Some (n', res)" "res \<noteq> ERROR" "avl n' \<and> bst n'"
      "ix.exts n' = insert e (ix.exts n)"
    by (rule ix.put_in [OF assms(1) addable_absent_first [OF assms(2)]])
  with canonical_insert [OF assms(2-4)] that show thesis by auto
qed


text \<open>
  What a merge leaves: either nothing was done and the extent touches no member, or the extent
  is part of a tree that covers it as well.
\<close>

definition coalesced :: "avlnode \<Rightarrow> TROVE_handle_extent
    \<Rightarrow> (avlnode \<times> TROVE_handle_extent \<times> extentlist_coalesce_status) option \<Rightarrow> bool" where
  "coalesced n e result \<longleftrightarrow> (\<exists>n' e' status. result = Some (n', e', status) \<and>
     (status = COALESCE_NONE \<and> n' = n \<and> e' = e \<and>
        (\<forall>a \<in> ix.exts n. ext_last a \<noteq> ext_first e - 1) \<and>
        (\<forall>a \<in> ix.exts n. ext_first a \<noteq> ext_last e + 1) \<or>
      status = COALESCE_SUCCESS \<and> avl n' \<and> bst n' \<and> canonical (ix.exts n') \<and>
        cover (ix.exts n') = cover (ix.exts n) \<union> handles_of e))"

lemma coalesce_insert_True:
  assumes "avl n \<and> bst n" "addable (ix.exts n) e"
    "\<forall>a \<in> ix.exts n. ext_last a \<noteq> ext_first e - 1" "\<forall>a \<in> ix.exts n. ext_first a \<noteq> ext_last e + 1"
  shows "\<exists>n'. coalesce_insert n e True = Some (n', e, COALESCE_SUCCESS) \<and> avl n' \<and> bst n' \<and>
    canonical (ix.exts n') \<and> cover (ix.exts n') = cover (ix.exts n) \<union> handles_of e"
  by (rule coalesce_insert_ok [OF assms]) (auto simp: coalesce_insert_def)

lemma coalesce_greater_coalesced:
  assumes "avl n \<and> bst n" "addable (ix.exts n) e"
    "\<forall>a \<in> ix.exts n. ext_last a \<noteq> ext_first e - 1"
  shows "coalesced n e (coalesce_greater n e merged) \<and>
    (merged \<longrightarrow> (\<exists>n' e'. coalesce_greater n e merged = Some (n', e', COALESCE_SUCCESS)))"
proof (cases "avlaccess n (ext_last e + 1)")
  case None
  then have absent: "\<forall>a \<in> ix.exts n. ext_first a \<noteq> ext_last e + 1"
    using ix.acc_None [OF assms(1)] by fastforce
  show ?thesis
  proof (cases merged)
    case True
    with None coalesce_insert_True [OF assms absent] show ?thesis
      by (auto simp: coalesce_greater_def coalesced_def)
  next
    case False
    with None absent assms(3) show ?thesis
      by (simp add: coalesce_greater_def coalesce_insert_def coalesced_def)
  qed
next
  case (Some gr)
  then have gr: "gr \<in> ix.exts n" "ext_first gr = ext_last e + 1"
    using ix.acc_iff [OF assms(1)] by auto
  obtain n1 r where n1: "avlremove n (ext_first gr) = Some (n1, r)" "r \<noteq> ERROR" "avl n1 \<and> bst n1"
      "ix.exts n1 = ix.exts n - {gr}"
    by (rule ix.take_out [OF assms(1) gr(1)])
  note join = join_greater [OF assms(2) gr]
  have "\<forall>a \<in> ix.exts n1. ext_last a \<noteq> ext_first (e\<lparr>ext_last := ext_last gr\<rparr>) - 1"
    using assms(3) by (simp add: n1(4))
  with join n1 obtain n2 where "coalesce_insert n1 (e\<lparr>ext_last := ext_last gr\<rparr>) True
        = Some (n2, e\<lparr>ext_last := ext_last gr\<rparr>, COALESCE_SUCCESS)"
      "avl n2 \<and> bst n2" "canonical (ix.exts n2)"
      "cover (ix.exts n2) = cover (ix.exts n - {gr}) \<union> (handles_of e \<union> handles_of gr)"
    using coalesce_insert_True [of n1 "e\<lparr>ext_last := ext_last gr\<rparr>"] by metis
  moreover have "cover (ix.exts n - {gr}) \<union> handles_of gr = cover (ix.exts n)"
    using gr(1) by (auto simp: cover_def)
  ultimately show ?thesis
    using Some n1(1,2) by (auto simp: coalesce_greater_def coalesced_def Let_def)
qed

lemma coalesce_extent_coalesced:
  assumes "avl n \<and> bst n" "addable (ix.exts n) e"
  shows "coalesced n e (extentlist_coalesce_extent n e)"
proof (cases "avlaltaccess n (ext_first e - 1)")
  case None
  have "canonical (ix.exts n)" using assms(2) by (simp add: addable_def)
  then have "\<forall>a \<in> ix.exts n. ext_last a \<noteq> ext_first e - 1"
    using None ix.alt_None [OF assms(1)] by fastforce
  with coalesce_greater_coalesced [OF assms] None show ?thesis
    by (simp add: extentlist_coalesce_extent_def)
next
  case (Some le)
  have "canonical (ix.exts n)" using assms(2) by (simp add: addable_def)
  then have le: "le \<in> ix.exts n" "ext_last le = ext_first e - 1"
    using Some ix.alt_iff [OF assms(1)] by auto
  obtain n1 r where n1: "avlremove n (ext_first le) = Some (n1, r)" "r \<noteq> ERROR" "avl n1 \<and> bst n1"
      "ix.exts n1 = ix.exts n - {le}"
    by (rule ix.take_out [OF assms(1) le(1)])
  let ?e' = "e\<lparr>ext_first := ext_first le\<rparr>"
  note join = join_lesser [OF assms(2) le]
  have "coalesced n1 ?e' (coalesce_greater n1 ?e' True)"
    "\<exists>n' e'. coalesce_greater n1 ?e' True = Some (n', e', COALESCE_SUCCESS)"
    using coalesce_greater_coalesced [OF n1(3), of ?e' True] join n1(4) by auto
  then obtain n2 e2 where n2: "coalesce_greater n1 ?e' True = Some (n2, e2, COALESCE_SUCCESS)"
      "avl n2 \<and> bst n2" "canonical (ix.exts n2)"
      "cover (ix.exts n2) = cover (ix.exts n - {le}) \<union> (handles_of le \<union> handles_of e)"
    by (auto simp: coalesced_def n1(4) join(2))
  moreover have "cover (ix.exts n - {le}) \<union> handles_of le = cover (ix.exts n)"
    using le(1) by (auto simp: cover_def)
  ultimately show ?thesis
    using Some n1(1,2) by (auto simp: extentlist_coalesce_extent_def coalesced_def Let_def)
qed

lemma addextent_ok:
  assumes "el_ok el" "0 < f" "f \<le> l" "l < HANDLE_MAX" "{f..l} \<inter> el_free el = {}"
  obtains el' where "extentlist_addextent now el f l = Some (el', 0)" "el_ok el'"
    "el_free el' = el_free el \<union> {f..l}" "timestamp el' = now"
    "num_handles el' = num_handles el + (l - f + 1)"
proof -
  let ?n = "index el" and ?e = "extent_init f l"
  have valid: "avl ?n \<and> bst ?n" using assms(1) by (simp add: el_ok_def)
  have hs: "handles_of ?e = {f..l}" by (simp add: handles_of_def extent_init_def)
  have add: "addable (ix.exts ?n) ?e"
    using assms hs by (simp add: addable_def el_ok_def el_free_def extent_ok_def extent_init_def)
  from coalesce_extent_coalesced [OF valid add]
  consider
    (none) "extentlist_coalesce_extent ?n ?e = Some (?n, ?e, COALESCE_NONE)"
      "\<forall>a \<in> ix.exts ?n. ext_last a \<noteq> ext_first ?e - 1"
      "\<forall>a \<in> ix.exts ?n. ext_first a \<noteq> ext_last ?e + 1"
  | (merged) n' e' where "extentlist_coalesce_extent ?n ?e = Some (n', e', COALESCE_SUCCESS)"
      "avl n'" "bst n'" "canonical (ix.exts n')" "cover (ix.exts n') = cover (ix.exts ?n) \<union> handles_of ?e"
    unfolding coalesced_def by blast
  then show thesis
  proof cases
    case none
    obtain n' res where "avlinsert ?n ?e = Some (n', res)" "res \<noteq> ERROR" "avl n' \<and> bst n'"
      "canonical (ix.exts n')" "ix.exts n' = insert ?e (ix.exts ?n)"
      by (rule coalesce_insert_ok [OF valid add none(2,3)])
    with none(1) hs show thesis
      by (intro that) (auto simp: extentlist_addextent_def Let_def el_ok_def el_free_def)
  next
    case merged
    with hs show thesis
      by (intro that) (auto simp: extentlist_addextent_def Let_def el_ok_def el_free_def)
  qed
qed

section \<open>Searching and removing handles\<close>

text \<open>The extents left and right of the root of an ordered tree.\<close>

lemma root_order:
  assumes "bst (Avlnode l e sk r)" "canonical (ix.exts (Avlnode l e sk r))"
  shows "\<forall>a \<in> ix.exts l. ext_last a < ext_first e" "\<forall>a \<in> ix.exts r. ext_last e < ext_first a"
    "ext_first e \<le> ext_last e" "bst l" "bst r" "canonical (ix.exts l)" "canonical (ix.exts r)"
    "\<forall>a \<in> ix.exts l. ext_first a \<le> ext_last a" "\<forall>a \<in> ix.exts r. ext_first a \<le> ext_last a"
proof -
  have ord: "\<forall>a \<in> ix.exts l. ext_first a < ext_first e" "\<forall>a \<in> ix.exts r. ext_first e < ext_first a"
    using assms(1) by (auto simp: sorted_wrt_append)
  have ok: "extent_ok a" if "a \<in> ix.exts (Avlnode l e sk r)" for a
    using assms(2) that by (rule canonical_extent_ok)
  show "\<forall>a \<in> ix.exts l. ext_last a < ext_first e"
  proof
    fix a assume a: "a \<in> ix.exts l"
    then have "a \<noteq> e" using ord(1) by auto
    with a canonicalD [OF assms(2), of a e] ord(1) ok [of e]
    show "ext_last a < ext_first e" by (auto simp: extent_ok_def)
  qed
  show "\<forall>a \<in> ix.exts r. ext_last e < ext_first a"
  proof
    fix a assume a: "a \<in> ix.exts r"
    then have "a \<noteq> e" using ord(2) by auto
    with a canonicalD [OF assms(2), of a e] ord(2) ok [of a]
    show "ext_last e < ext_first a" by (auto simp: extent_ok_def)
  qed
  show "ext_first e \<le> ext_last e" "\<forall>a \<in> ix.exts l. ext_first a \<le> ext_last a"
    "\<forall>a \<in> ix.exts r. ext_first a \<le> ext_last a"
    using ok by (auto simp: extent_ok_def)
  show "bst l" "bst r" using assms(1) by (auto simp: sorted_wrt_append)
  show "canonical (ix.exts l)" "canonical (ix.exts r)"
    by (rule canonical_subset [OF assms(2)]; auto)+
qed

lemma cover_root: "cover (ix.exts (Avlnode l e sk r)) = cover (ix.exts l) \<union> handles_of e \<union> cover (ix.exts r)"
  by (auto simp: cover_def)

lemma cover_below: "\<forall>a \<in> S. ext_last a < k \<Longrightarrow> h \<in> cover S \<Longrightarrow> h < k"
  by (auto simp: in_cover)

lemma cover_above: "\<forall>a \<in> S. k < ext_first a \<Longrightarrow> h \<in> cover S \<Longrightarrow> k < h"
  by (auto simp: in_cover)

lemma extent_search_spec:
  "bst n \<Longrightarrow> canonical (ix.exts n) \<Longrightarrow>
   (case avltree_extent_search n h of
      None \<Rightarrow> h \<notin> cover (ix.exts n)
    | Some (f, l) \<Rightarrow> f \<le> h \<and> h \<le> l \<and> \<lparr>ext_first = f, ext_last = l\<rparr> \<in> ix.exts n)"
proof (induction n)
  case (Avlnode l e sk r)
  note root = root_order [OF Avlnode.prems]
  consider "h < ext_first e" | "ext_last e < h" "\<not> h < ext_first e"
    | "ext_first e \<le> h" "h \<le> ext_last e" by force
  then show ?case
  proof cases
    case 1
    then have "h \<in> cover (ix.exts (Avlnode l e sk r)) \<longleftrightarrow> h \<in> cover (ix.exts l)"
      using cover_above [OF root(2), of h] root(3) unfolding cover_root
      by (auto simp: handles_of_def)
    with 1 Avlnode.IH(1) [OF root(4,6)] show ?thesis by (auto split: option.splits)
  next
    case 2
    then have "h \<in> cover (ix.exts (Avlnode l e sk r)) \<longleftrightarrow> h \<in> cover (ix.exts r)"
      using cover_below [OF root(1), of h] unfolding cover_root
      by (auto simp: handles_of_def)
    with 2 Avlnode.IH(2) [OF root(5,7)] show ?thesis by (auto split: option.splits)
  next
    case 3
    moreover have "e = \<lparr>ext_first = ext_first e, ext_last = ext_last e\<rparr>" by simp
    ultimately show ?thesis by (auto simp del: TROVE_handle_extent.surjective)
  qed
qed simp

lemma search_in_range_left:
  assumes "ext_first q \<le> ext_last q" "ext_last q < ext_first e" "ext_first e \<le> ext_last e"
  shows "avltree_extent_search_in_range (Avlnode l e sk r) q = avltree_extent_search_in_range l q"
proof -
  have "ext_first q < ext_first e" using assms(1,2) by (rule le_less_trans)
  moreover from this have "ext_first q < ext_last e" using assms(3) by (rule less_le_trans)
  moreover have "ext_last q < ext_last e" using assms(2,3) by (rule less_le_trans)
  ultimately have lt: "ext_first q < ext_first e" "ext_first q < ext_last e" "ext_last q < ext_last e"
    by blast+
  then show ?thesis
    using assms(2) lt [THEN less_not_sym] assms(2) [THEN less_not_sym]
    by (simp add: lt [THEN less_imp_neq] assms(2) [THEN less_imp_neq])
qed

lemma search_in_range_right:
  assumes "ext_first q \<le> ext_last q" "ext_last e < ext_first q" "ext_first e \<le> ext_last e"
  shows "avltree_extent_search_in_range (Avlnode l e sk r) q = avltree_extent_search_in_range r q"
proof -
  have "ext_last e < ext_last q" using assms(2,1) by (rule less_le_trans)
  moreover from this have "ext_first e < ext_last q" using assms(3) by (simp add: le_less_trans)
  moreover have "ext_first e < ext_first q" using assms(3,2) by (rule le_less_trans)
  ultimately have lt: "ext_first e < ext_first q" "ext_first e < ext_last q" "ext_last e < ext_last q"
    by blast+
  then show ?thesis
    using assms(2) lt [THEN less_not_sym] assms(2) [THEN less_not_sym]
    by (simp add: lt [THEN less_imp_neq, symmetric] assms(2) [THEN less_imp_neq, symmetric])
qed

lemma search_in_range_overlap:
  assumes "ext_first q \<le> ext_last q" "ext_first e \<le> ext_last q" "ext_first q \<le> ext_last e"
    "ext_first e \<le> ext_last e"
  shows "avltree_extent_search_in_range (Avlnode l e sk r) q \<in> handles_of q \<inter> handles_of e"
proof (cases "ext_first q \<in> {ext_first e, ext_last e} \<or> ext_last q \<in> {ext_first e, ext_last e}")
  case True
  with assms show ?thesis by (auto simp: handles_of_def)
next
  case False
  then have ne: "ext_first q \<noteq> ext_first e" "ext_first q \<noteq> ext_last e" "ext_last q \<noteq> ext_first e"
    "ext_last q \<noteq> ext_last e" by auto
  then have lt: "ext_first e < ext_last q" "ext_first q < ext_last e"
    using assms(2,3) by (metis le_less)+
  consider "ext_first q < ext_first e" "ext_last q < ext_last e"
    | "ext_first q < ext_first e" "ext_last e < ext_last q"
    | "ext_first e < ext_first q" "ext_last q < ext_last e"
    | "ext_first e < ext_first q" "ext_last e < ext_last q"
    using ne by (metis linorder_neqE)
  then show ?thesis
    by cases (simp_all add: ne lt lt [THEN less_imp_le] less_not_sym less_imp_le assms(1,4) handles_of_def)
qed

lemma search_in_range_spec:
  "bst n \<Longrightarrow> canonical (ix.exts n) \<Longrightarrow> 0 < ext_first q \<Longrightarrow> ext_first q \<le> ext_last q \<Longrightarrow>
   (if avltree_extent_search_in_range n q = 0 then handles_of q \<inter> cover (ix.exts n) = {}
    else avltree_extent_search_in_range n q \<in> handles_of q \<inter> cover (ix.exts n))"
proof (induction n)
  case (Avlnode l e sk r)
  note root = root_order [OF Avlnode.prems(1,2)]
  have "0 < ext_first e"
    using Avlnode.prems(2) by (simp add: canonical_def extent_ok_def)
  consider "ext_last q < ext_first e" | "ext_last e < ext_first q"
    | "ext_first e \<le> ext_last q" "ext_first q \<le> ext_last e" using leI by blast
  then show ?case
  proof cases
    case 1
    have "avltree_extent_search_in_range (Avlnode l e sk r) q = avltree_extent_search_in_range l q"
      using search_in_range_left [OF Avlnode.prems(4) 1 root(3)] .
    moreover have "handles_of q \<inter> cover (ix.exts (Avlnode l e sk r)) = handles_of q \<inter> cover (ix.exts l)"
      using 1 cover_above [OF root(2)] root(3) unfolding cover_root
      by (fastforce simp: handles_of_def)
    ultimately show ?thesis using Avlnode.IH(1) [OF root(4,6) Avlnode.prems(3,4)] by (simp only:)
  next
    case 2
    have "avltree_extent_search_in_range (Avlnode l e sk r) q = avltree_extent_search_in_range r q"
      using search_in_range_right [OF Avlnode.prems(4) 2 root(3)] .
    moreover have "handles_of q \<inter> cover (ix.exts (Avlnode l e sk r)) = handles_of q \<inter> cover (ix.exts r)"
      using 2 cover_below [OF root(1)] root(3) unfolding cover_root
      by (fastforce simp: handles_of_def)
    ultimately show ?thesis using Avlnode.IH(2) [OF root(5,7) Avlnode.prems(3,4)] by (simp only:)
  next
    case 3
    have "avltree_extent_search_in_range (Avlnode l e sk r) q \<in> handles_of q \<inter> handles_of e"
      using search_in_range_overlap [OF Avlnode.prems(4) 3 root(3)] .
    moreover have "0 \<notin> handles_of q" using Avlnode.prems(3) by (auto simp: handles_of_def)
    ultimately show ?thesis unfolding cover_root by (metis IntD1 IntD2 IntI UnI1 UnI2)
  qed
qed simp

text \<open>
  Putting the parts of an extent back: each part starts in a gap of the remaining tree, so
  the insertion succeeds.
\<close>

lemma put_part:
  assumes "avl n \<and> bst n" "canonical (insert p (ix.exts n))" "p \<notin> ix.exts n"
  shows "\<exists>n' res. avlinsert n p = Some (n', res) \<and> avl n' \<and> bst n' \<and> ix.exts n' = insert p (ix.exts n)"
proof -
  have "ext_first p \<notin> ext_first ` ix.exts n"
    using canonical_distinct_ends(1) [OF assms(2), of p] assms(3) by fastforce
  then show ?thesis by (rule ix.put_in [OF assms(1)]) blast
qed

lemma handle_remove_ok:
  assumes "el_ok el" "h \<in> el_free el"
  obtains n where "extentlist_handle_remove el h = Some (el\<lparr>index := n\<rparr>, 0)"
    "el_ok (el\<lparr>index := n\<rparr>)" "el_free (el\<lparr>index := n\<rparr>) = el_free el - {h}"
proof -
  let ?n = "index el"
  have ok: "avl ?n \<and> bst ?n" "canonical (ix.exts ?n)" using assms(1) by (simp_all add: el_ok_def)
  obtain f l where found: "avltree_extent_search ?n h = Some (f, l)" "f \<le> h" "h \<le> l"
      "extent_init f l \<in> ix.exts ?n"
    using extent_search_spec [of ?n h] ok assms(2)
    by (auto simp: el_free_def extent_init_def split: option.splits)
  let ?e = "extent_init f l"
  have e: "ext_first ?e = f" "ext_last ?e = l" "h \<in> handles_of ?e" "extent_ok ?e"
    using found ok(2) by (auto simp: extent_init_def handles_of_def canonical_def)
  obtain n1 r where n1: "avlremove ?n f = Some (n1, r)" "r \<noteq> ERROR" "avl n1 \<and> bst n1"
      "ix.exts n1 = ix.exts ?n - {?e}"
    using ix.take_out [OF ok(1) found(4)] e(1) by metis
  let ?lo = "extent_init f (h - 1)" and ?hi = "extent_init (h + 1) l"
  note parts = remove_handle [OF ok(2) found(4) e(3)]
  have parts_eq: "parts_around ?e h = (if f < h then {?lo} else {}) \<union> (if h < l then {?hi} else {})"
    by (simp add: parts_around_def extent_init_def)
  have lo_in: "f < h \<Longrightarrow> ?lo \<in> parts_around ?e h" and hi_in: "h < l \<Longrightarrow> ?hi \<in> parts_around ?e h"
    by (simp_all add: parts_eq)
  have new: "p \<notin> ix.exts n1" if "p \<in> parts_around ?e h" for p
  proof -
    have "handles_of p \<subseteq> handles_of ?e" "ext_first p \<in> handles_of p"
      using parts_around_ok [OF e(4,3)] that
      by (auto simp: handles_of_def canonical_def extent_ok_def)
    then have "ext_first p \<in> handles_of p \<inter> handles_of ?e" by blast
    then show ?thesis
      using handles_disjoint [OF ok(2) _ found(4), of p] by (auto simp: n1(4))
  qed
  note result = that
  have finish: thesis if "extentlist_handle_remove el h = Some (el\<lparr>index := n\<rparr>, 0)" "avl n \<and> bst n"
    "ix.exts n = (ix.exts ?n - {?e}) \<union> parts_around ?e h" for n
    using that parts by (intro result [of n]) (auto simp: el_ok_def el_free_def)
  have one: "\<exists>n' res. avlinsert n1 p = Some (n', res) \<and> avl n' \<and> bst n' \<and> ix.exts n' = insert p (ix.exts n1)"
    if "p \<in> parts_around ?e h" for p
    using that by (intro put_part n1(3) canonical_subset [OF parts(1)] new) (auto simp: n1(4))
  consider "f = l" "h = f" | "f = h" "h < l" | "l = h" "f < h" | "f < h" "h < l"
    using found(2,3) unfolding le_less by blast
  then show thesis
  proof cases
    case 1
    then show thesis
      using found(1) n1 parts_eq
      by (intro finish [of n1]) (simp_all add: extentlist_handle_remove_def)
  next
    case 2
    obtain n' res where "avlinsert n1 ?hi = Some (n', res)" "avl n' \<and> bst n'"
        "ix.exts n' = insert ?hi (ix.exts n1)" using one [OF hi_in [OF 2(2)]] by blast
    with 2 show thesis
      using found(1) n1 parts_eq
      by (intro finish [of n']) (simp_all add: extentlist_handle_remove_def less_imp_neq)
  next
    case 3
    obtain n' res where "avlinsert n1 ?lo = Some (n', res)" "avl n' \<and> bst n'"
        "ix.exts n' = insert ?lo (ix.exts n1)" using one [OF lo_in [OF 3(2)]] by blast
    with 3 show thesis
      using found(1) n1 parts_eq
      by (intro finish [of n']) (simp_all add: extentlist_handle_remove_def less_imp_neq)
  next
    case 4
    obtain n' res where n': "avlinsert n1 ?lo = Some (n', res)" "avl n' \<and> bst n'"
        "ix.exts n' = insert ?lo (ix.exts n1)" using one [OF lo_in [OF 4(1)]] by blast
    have "f < l" using 4 by (rule less_trans)
    have "f \<noteq> h + 1"
      using around_handle(6) [OF _ found(2,3)] e(4) 4(1) by (auto simp: extent_ok_def extent_init_def)
    then have "?hi \<notin> ix.exts n'"
      using new [OF hi_in [OF 4(2)]] by (auto simp: n'(3) extent_init_def)
    moreover have "insert ?hi (ix.exts n') \<subseteq> (ix.exts ?n - {?e}) \<union> parts_around ?e h"
      unfolding n'(3) n1(4) by (intro insert_subsetI UnI2 Un_upper1 lo_in hi_in 4)
    then have "canonical (insert ?hi (ix.exts n'))"
      by (rule canonical_subset [OF parts(1)])
    ultimately obtain n'' res' where "avlinsert n' ?hi = Some (n'', res')" "avl n'' \<and> bst n''"
        "ix.exts n'' = insert ?hi (ix.exts n')"
      using put_part [OF n'(2)] by blast
    with 4 n' \<open>f < l\<close> show thesis
      using found(1) n1 parts_eq
      by (intro finish [of n''])
         (simp_all add: extentlist_handle_remove_def less_imp_neq insert_commute)
  qed
qed

lemma handle_remove_absent:
  assumes "el_ok el" "h \<notin> el_free el"
  shows "extentlist_handle_remove el h = Some (el, -1)"
proof -
  have "case avltree_extent_search (index el) h of
      None \<Rightarrow> h \<notin> cover (ix.exts (index el))
    | Some (f, l) \<Rightarrow> f \<le> h \<and> h \<le> l \<and> \<lparr>ext_first = f, ext_last = l\<rparr> \<in> ix.exts (index el)"
    using assms(1) by (intro extent_search_spec) (simp_all add: el_ok_def)
  then have "avltree_extent_search (index el) h = None"
    using assms(2) by (force simp: el_free_def in_cover split: option.splits)
  then show ?thesis by (simp add: extentlist_handle_remove_def)
qed

lemma free_bounds:
  assumes "el_ok el" "h \<in> el_free el"
  shows "0 < h" "h < HANDLE_MAX"
proof -
  obtain e where "extent_ok e" "ext_first e \<le> h" "h \<le> ext_last e"
    using assms by (auto simp: el_ok_def el_free_def in_cover canonical_def)
  then show "0 < h" "h < HANDLE_MAX"
    unfolding extent_ok_def by (meson less_le_trans le_less_trans)+
qed

lemma get_from_extent_ok:
  assumes "el_ok el" "0 < ext_first q" "ext_first q \<le> ext_last q"
  obtains n h where "extentlist_get_from_extent el q = Some (el\<lparr>index := n\<rparr>, h)"
    "el_ok (el\<lparr>index := n\<rparr>)" "el_free (el\<lparr>index := n\<rparr>) = el_free el - {h}"
    "if h = 0 then handles_of q \<inter> el_free el = {} else h \<in> handles_of q \<inter> el_free el"
proof -
  let ?h = "avltree_extent_search_in_range (index el) q"
  have spec: "if ?h = 0 then handles_of q \<inter> el_free el = {} else ?h \<in> handles_of q \<inter> el_free el"
    using assms unfolding el_free_def el_ok_def by (intro search_in_range_spec) simp_all
  show thesis
  proof (cases "?h = 0")
    case True
    have "0 \<notin> el_free el" using free_bounds(1) [OF assms(1), of 0] by auto
    with True spec assms(1) show thesis
      by (intro that [of "index el" 0]) (simp_all add: extentlist_get_from_extent_def)
  next
    case False
    with spec have "?h \<in> el_free el" by simp
    then obtain n where "extentlist_handle_remove el ?h = Some (el\<lparr>index := n\<rparr>, 0)"
        "el_ok (el\<lparr>index := n\<rparr>)" "el_free (el\<lparr>index := n\<rparr>) = el_free el - {?h}"
      by (rule handle_remove_ok [OF assms(1)])
    with False spec show thesis
      by (intro that [of n ?h]) (simp_all add: extentlist_get_from_extent_def)
  qed
qed

section \<open>Taking the highest handle\<close>

lemma highest_bounds:
  assumes "el_ok el" "avlgethighest (index el) = Some e"
  shows "e \<in> ix.exts (index el)" "ext_last e \<in> el_free el" "\<forall>h \<in> el_free el. h \<le> ext_last e"
    "ext_first e \<le> ext_last e"
proof -
  let ?n = "index el"
  have ok: "avl ?n \<and> bst ?n" "canonical (ix.exts ?n)" using assms(1) by (simp_all add: el_ok_def)
  have e: "e \<in> ix.exts ?n" "e = last (inorder ?n)" "inorder ?n \<noteq> []"
    using assms(2) ix.highest_in [of ?n e] ix.highest_last [of ?n] by (auto split: if_splits)
  show "e \<in> ix.exts ?n" by fact
  show fl: "ext_first e \<le> ext_last e"
    using canonical_extent_ok [OF ok(2) e(1)] by (simp add: extent_ok_def)
  then show "ext_last e \<in> el_free el"
    using e(1) by (auto simp: el_free_def in_cover)
  have "sorted_wrt (\<lambda>a b. ext_last a < ext_last b) (butlast (inorder ?n) @ [e])"
    using ix.last_ordered [OF ok] e(2,3) by simp
  then have top: "\<forall>a \<in> ix.exts ?n. ext_last a \<le> ext_last e"
    using e(2,3) by (metis Un_iff append_butlast_last_id empty_iff list.set(1) order_refl set_ConsD set_append
        sorted_wrt_append less_imp_le list.set_intros(1))
  show "\<forall>h \<in> el_free el. h \<le> ext_last e"
  proof
    fix h assume "h \<in> el_free el"
    then obtain a where "a \<in> ix.exts ?n" "h \<le> ext_last a" by (auto simp: el_free_def in_cover)
    with top show "h \<le> ext_last e" by (meson order_trans)
  qed
qed

lemma get_and_dec_ok:
  assumes "el_ok el" "el_free el \<noteq> {}"
  obtains el' where "extentlist_get_and_dec_extent el = Some (el', Max (el_free el))" "el_ok el'"
    "el_free el' = el_free el - {Max (el_free el)}" "timestamp el' = timestamp el"
proof -
  let ?n = "index el"
  have ok: "avl ?n \<and> bst ?n" "canonical (ix.exts ?n)" using assms(1) by (simp_all add: el_ok_def)
  obtain e where high: "avlgethighest ?n = Some e"
    using assms(2) ix.highest_None [of ?n] by (cases "avlgethighest ?n") (auto simp: el_free_def)
  note e = highest_bounds [OF assms(1) high]
  have max: "Max (el_free el) = ext_last e"
    using e(2,3) by (intro Max_eqI) auto
  have mem: "ext_last e \<in> handles_of e" using e(4) by (simp add: handles_of_def)
  note parts = remove_handle [OF ok(2) e(1) mem]
  show thesis
  proof (cases "ext_first e = ext_last e")
    case True
    obtain n r where "avlremove ?n (ext_first e) = Some (n, r)" "r \<noteq> ERROR" "avl n \<and> bst n"
        "ix.exts n = ix.exts ?n - {e}"
      by (rule ix.take_out [OF ok(1) e(1)])
    moreover have "parts_around e (ext_last e) = {}" using True by (simp add: parts_around_def)
    ultimately show thesis
      using high True parts max
      by (intro that [of "el\<lparr>index := n, num_extents := num_extents el - 1\<rparr>"])
         (auto simp: extentlist_get_and_dec_extent_def el_ok_def el_free_def)
  next
    case False
    let ?e' = "e\<lparr>ext_last := ext_last e - 1\<rparr>"
    let ?n' = "avlstorehighest ?n ?e'"
    have "ext_first e < ext_last e" using False e(4) by simp
    then have part: "parts_around e (ext_last e) = {?e'}" by (simp add: parts_around_def)
    have ne: "inorder ?n \<noteq> []" and last: "last (inorder ?n) = e"
      using high ix.highest_last [of ?n] by (auto split: if_splits)
    have "avl ?n' \<and> bst ?n'" by (rule ix.store_valid [OF ok(1) ne]) (simp add: last)
    moreover have "ix.exts ?n' = (ix.exts ?n - {e}) \<union> {?e'}"
    proof -
      have "distinct (butlast (inorder ?n) @ [e])"
        using ix.items_distinct [OF ok(1)] ne last by (metis append_butlast_last_id)
      moreover have "ix.exts ?n = set (butlast (inorder ?n) @ [e])"
        using ne last by (metis append_butlast_last_id)
      ultimately show ?thesis unfolding ix.store_items [OF ne] by auto
    qed
    ultimately show thesis
      using high False parts max part e(4)
      by (intro that [of "el\<lparr>index := ?n', num_handles := num_handles el - 1\<rparr>"])
         (auto simp: extentlist_get_and_dec_extent_def el_ok_def el_free_def)
  qed
qed

lemma get_and_dec_empty:
  assumes "el_free el = {}" "el_ok el"
  shows "extentlist_get_and_dec_extent el = Some (el, -1)"
proof -
  have "ix.exts (index el) = {}"
    using assms by (auto simp: el_free_def el_ok_def canonical_def extent_ok_def cover_def handles_of_def)
  then have "avlgethighest (index el) = None" using ix.highest_None by blast
  then show ?thesis by (simp add: extentlist_get_and_dec_extent_def)
qed

end
