(* ===== verification/Free_Handles.thy ===== *)
theory Free_Handles
  imports Extent_List
begin

text \<open>
  What the operations of \<open>Extent_List\<close> do to the set of free handles: merging, counting,
  peeking and the properties of the extent lists.
\<close>

section \<open>Merging two lists\<close>

lemma merge_loop_ok:
  "el_ok dest \<Longrightarrow> avl n \<and> bst n \<Longrightarrow> canonical (ix.exts n) \<Longrightarrow> cover (ix.exts n) \<inter> el_free dest = {} \<Longrightarrow>
   \<exists>d. extentlist_merge_loop now dest n = Some d \<and> el_ok d \<and>
       el_free d = el_free dest \<union> cover (ix.exts n) \<and>
       timestamp d = (if n = NULL then timestamp dest else now)"
proof (induction now dest n rule: extentlist_merge_loop.induct)
  case (2 now dest l x sk r)
  let ?n = "Avlnode l x sk r"
  have x: "x \<in> ix.exts ?n" "extent_ok x" "handles_of x = {ext_first x..ext_last x}"
    using "2.prems"(3) by (auto simp: canonical_def handles_of_def)
  have "handles_of x \<inter> el_free dest = {}"
    using "2.prems"(4) x(1) by (auto simp: cover_def)
  then obtain d1 where d1: "extentlist_addextent now dest (ext_first x) (ext_last x) = Some (d1, 0)"
      "el_ok d1" "el_free d1 = el_free dest \<union> handles_of x" "timestamp d1 = now"
    using addextent_ok [OF "2.prems"(1), of "ext_first x" "ext_last x" now] x(2,3)
    by (auto simp: extent_ok_def)
  obtain n1 res where n1: "avlremove ?n (ext_first x) = Some (n1, res)" "avl n1 \<and> bst n1"
      "ix.exts n1 = ix.exts ?n - {x}"
    by (rule ix.take_out [OF "2.prems"(2) x(1)])
  have can: "canonical (ix.exts n1)"
    using "2.prems"(3) by (rule canonical_subset) (auto simp: n1(3))
  have cov: "cover (ix.exts n1) = cover (ix.exts ?n) - handles_of x"
    unfolding n1(3) by (rule cover_remove [OF "2.prems"(3) x(1)])
  then have "cover (ix.exts n1) \<inter> el_free d1 = {}"
    using "2.prems"(4) by (auto simp: d1(3))
  from "2.IH" [OF d1(1) refl n1(1) refl d1(2) n1(2) can this]
  obtain d where d: "extentlist_merge_loop now d1 n1 = Some d" "el_ok d"
      "el_free d = el_free d1 \<union> cover (ix.exts n1)" "timestamp d = now"
    using d1(4) by auto
  have "handles_of x \<subseteq> cover (ix.exts ?n)" using x(1) by (auto simp: cover_def)
  then have "el_free d = el_free dest \<union> cover (ix.exts ?n)"
    unfolding d(3) d1(3) cov by blast
  moreover have "extentlist_merge_loop now dest ?n = Some d"
    using d1(1) n1(1) d(1) by simp
  ultimately show ?case using d(2,4) by simp
qed simp

lemma merge_ok:
  assumes "el_ok dest" "el_ok src" "el_free dest \<inter> el_free src = {}"
  obtains dest' where "extentlist_merge now dest src = Some (dest', src\<lparr>index := NULL\<rparr>, 0)"
    "el_ok dest'" "el_free dest' = el_free dest \<union> el_free src"
proof -
  obtain d where "extentlist_merge_loop now dest (index src) = Some d" "el_ok d"
      "el_free d = el_free dest \<union> cover (ix.exts (index src))"
    using merge_loop_ok [of dest "index src" now] assms by (auto simp: el_ok_def el_free_def)
  then show thesis by (intro that [of d]) (simp_all add: extentlist_merge_def el_free_def)
qed

section \<open>Counting\<close>

lemma unat_image_interval: "unat ` {a..b :: 'a :: len word} = {unat a..unat b}"
proof
  show "{unat a..unat b} \<subseteq> unat ` {a..b}"
  proof
    fix m assume m: "m \<in> {unat a..unat b}"
    then have "m < 2 ^ LENGTH('a)" using unsigned_less [of b] by (auto intro: le_less_trans)
    then have "unat (of_nat m :: 'a word) = m" by (simp add: unat_of_nat take_bit_nat_eq_self)
    with m show "m \<in> unat ` {a..b}"
      by (intro image_eqI [of _ _ "of_nat m"]) (auto simp: word_le_nat_alt)
  qed
qed (auto simp: word_le_nat_alt)

lemma card_word_interval: "card {a..b :: 'a :: len word} = Suc (unat b) - unat a"
proof -
  have "card {a..b} = card (unat ` {a..b})"
    by (intro card_image [symmetric] inj_onI) (simp add: unsigned_word_eqI)
  then show ?thesis by (simp add: unat_image_interval)
qed

lemma card_handles_of: "extent_ok e \<Longrightarrow> of_nat (card (handles_of e)) = ext_last e - ext_first e + 1"
  by (simp add: handles_of_def card_word_interval extent_ok_def word_le_nat_alt of_nat_diff Suc_diff_le)

lemma count_sum:
  "avldepthfirst n extent_count p d g =
   g + sum_list (map (\<lambda>e. ext_last e - ext_first e + 1) (inorder n))"
  by (induction n arbitrary: d g) (simp_all add: extent_count_def algebra_simps)

lemma card_cover:
  assumes "canonical (set xs)" "distinct xs"
  shows "card (cover (set xs)) = sum_list (map (\<lambda>e. card (handles_of e)) xs)"
proof -
  have "card (cover (set xs)) = (\<Sum>e \<in> set xs. card (handles_of e))"
    unfolding cover_def using handles_disjoint [OF assms(1)] by (intro card_UN_disjoint) auto
  then show ?thesis using assms(2) by (simp add: sum_list_distinct_conv_sum_set)
qed

lemma of_nat_sum_map: "of_nat (sum_list (map f xs)) = sum_list (map (\<lambda>x. of_nat (f x)) xs)"
  by (induction xs) simp_all

lemma count_card:
  assumes "el_ok el"
  shows "extentlist_count el = of_nat (card (el_free el))"
proof -
  let ?xs = "inorder (index el)"
  have can: "canonical (set ?xs)" "distinct ?xs"
    using assms ix.items_distinct [of "index el"] by (auto simp: el_ok_def)
  have "extentlist_count el = sum_list (map (\<lambda>e. of_nat (card (handles_of e))) ?xs)"
    using can(1) unfolding extentlist_count_def count_sum
    by (simp add: card_handles_of canonical_def cong: map_cong)
  also have "\<dots> = of_nat (sum_list (map (\<lambda>e. card (handles_of e)) ?xs))"
    by (rule of_nat_sum_map [symmetric])
  finally show ?thesis by (simp add: el_free_def card_cover [OF can])
qed

lemma card_free_less: "el_ok el \<Longrightarrow> card (el_free el) < 2 ^ 64"
proof -
  assume "el_ok el"
  then have "el_free el \<subseteq> UNIV - {0}" using free_bounds(1) [of el 0] by auto
  then have "card (el_free el) \<le> card (UNIV - {0 :: TROVE_handle})" by (intro card_mono) auto
  also have "\<dots> < 2 ^ 64" by (simp add: card_word)
  finally show ?thesis .
qed

section \<open>Peeking\<close>

text \<open>
  The lowest handle the peek loop can write: one below the extent, unless the extent starts
  at 1.
\<close>

definition peek_floor :: "TROVE_handle \<Rightarrow> TROVE_handle" where
  "peek_floor f = (if f = 1 then 1 else f - 1)"

definition peek_len :: "int \<Rightarrow> nat \<Rightarrow> nat" where
  "peek_len room avail = (if 0 < room then min (nat room) avail else avail)"

lemma map_down_Suc:
  "map (\<lambda>i. (h :: TROVE_handle) - of_nat i) [0..<Suc k] = h # map (\<lambda>i. h - 1 - of_nat i) [0..<k]"
  by (simp add: upt_conv_Cons map_Suc_upt [symmetric] comp_def algebra_simps del: upt_Suc)

lemma peek_floor_step:
  assumes "0 < f" "peek_floor f < h"
  shows "f \<le> h" "h - 1 \<noteq> 0" "peek_floor f \<le> h - 1" "unat (h - 1) = unat h - 1" "0 < unat h"
proof -
  have h: "1 < h" "f \<le> h"
    using assms unfolding peek_floor_def by (cases "f = 1"; simp; unat_arith)+
  show "f \<le> h" by fact
  show "h - 1 \<noteq> 0" using h(1) by auto
  show "unat (h - 1) = unat h - 1" "0 < unat h"
    using h(1) by unat_arith+
  show "peek_floor f \<le> h - 1" using assms(2) by unat_arith
qed

lemma peek_loop_eq:
  "0 < f \<Longrightarrow> peek_floor f \<le> h \<Longrightarrow> int (length out) < m \<or> m \<le> 0 \<Longrightarrow>
   extentlist_peek_loop f m h out =
     out @ map (\<lambda>i. h - of_nat i) [0..<peek_len (m - int (length out)) (Suc (unat h) - unat (peek_floor f))]"
proof (induction f m h out rule: extentlist_peek_loop.induct)
  case (1 f m h out)
  let ?av = "Suc (unat h) - unat (peek_floor f)"
  have le: "unat (peek_floor f) \<le> unat h" using "1.prems"(2) by (simp add: word_le_nat_alt)
  consider (full) "int (length out) + 1 = m" | (stop) "int (length out) + 1 \<noteq> m" "h = peek_floor f"
    | (go) "int (length out) + 1 \<noteq> m" "peek_floor f < h" using "1.prems"(2) by fastforce
  then show ?case
  proof cases
    case full
    then have "m - int (length out) = 1" by simp
    with full show ?thesis using le by (simp add: extentlist_peek_loop.simps peek_len_def)
  next
    case stop
    have "h - 1 = 0 \<or> \<not> f \<le> h"
      using stop(2) "1.prems"(1) pred_less [of f] by (auto simp: peek_floor_def)
    moreover have "peek_len (m - int (length out)) ?av = 1"
      using stop "1.prems"(3) by (auto simp: peek_len_def)
    ultimately show ?thesis
      using stop(1) by (subst extentlist_peek_loop.simps) (auto simp: Let_def)
  next
    case go
    note h = peek_floor_step [OF "1.prems"(1) go(2)]
    have "peek_len (m - int (length out)) ?av =
        Suc (peek_len (m - int (length (out @ [h]))) (Suc (unat (h - 1)) - unat (peek_floor f)))"
      using go "1.prems"(3) h(4,5) le by (auto simp: peek_len_def word_less_nat_alt)
    moreover have "extentlist_peek_loop f m h out = extentlist_peek_loop f m (h - 1) (out @ [h])"
      using go(1) h by (subst extentlist_peek_loop.simps) (auto simp: Let_def)
    moreover have "int (length (out @ [h])) < m \<or> m \<le> 0" using go(1) "1.prems"(3) by auto
    ultimately show ?thesis
      using "1.IH" [OF refl _ refl _ "1.prems"(1)] go(1) h(1-3)
      by (simp add: map_down_Suc del: upt_Suc)
  qed
qed

text \<open>Repeated allocation from a list: the handles of \<open>k\<close> successive calls.\<close>

fun take_handles :: "nat \<Rightarrow> TROVE_handle_extentlist
    \<Rightarrow> (TROVE_handle_extentlist \<times> TROVE_handle list) option" where
  "take_handles 0 el = Some (el, [])"
| "take_handles (Suc k) el =
     (case extentlist_get_and_dec_extent el of
        None \<Rightarrow> None
      | Some (el', h) \<Rightarrow> map_option (\<lambda>(el'', hs). (el'', h # hs)) (take_handles k el'))"

lemma take_handles_run:
  "el_ok el \<Longrightarrow> \<forall>h \<in> el_free el. h \<le> hi \<Longrightarrow> \<forall>i < k. hi - of_nat i \<in> el_free el \<Longrightarrow>
   \<exists>el'. take_handles k el = Some (el', map (\<lambda>i. hi - of_nat i) [0..<k]) \<and> el_ok el' \<and>
         el_free el' = el_free el - (\<lambda>i. hi - of_nat i) ` {..<k}"
proof (induction k arbitrary: el hi)
  case (Suc k)
  have hi: "hi \<in> el_free el" using Suc.prems(3) [rule_format, of 0] by simp
  then have max: "Max (el_free el) = hi" using Suc.prems(2) by (intro Max_eqI) auto
  obtain el1 where el1: "extentlist_get_and_dec_extent el = Some (el1, hi)" "el_ok el1"
      "el_free el1 = el_free el - {hi}"
    using get_and_dec_ok [OF Suc.prems(1), unfolded max] hi by blast
  have "0 < hi" by (rule free_bounds(1) [OF Suc.prems(1) hi])
  have "\<forall>h \<in> el_free el1. h \<le> hi - 1"
    using Suc.prems(2) \<open>0 < hi\<close> by (auto simp: el1(3) le_pred_iff less_le)
  moreover have "\<forall>i < k. hi - 1 - of_nat i \<in> el_free el1"
  proof (intro allI impI)
    fix i assume "i < k"
    have "Suc i < 2 ^ 64"
    proof (rule ccontr)
      assume "\<not> Suc i < 2 ^ 64"
      then have "unat hi < Suc k" using \<open>i < k\<close> unsigned_less [of hi, where 'a = nat] by simp
      then have "hi - of_nat (unat hi) \<in> el_free el" using Suc.prems(3) by blast
      then show False using free_bounds(1) [OF Suc.prems(1), of 0] by simp
    qed
    then have "hi - of_nat (Suc i) \<noteq> hi"
      by (simp add: word_of_nat_eq_0_iff nat_dvd_not_less del: of_nat_Suc)
    moreover have "hi - of_nat (Suc i) \<in> el_free el" using Suc.prems(3) \<open>i < k\<close> by blast
    moreover have "hi - 1 - of_nat i = hi - of_nat (Suc i)" by (simp add: diff_diff_eq)
    ultimately show "hi - 1 - of_nat i \<in> el_free el1" unfolding el1(3) by (metis DiffI singletonD)
  qed
  ultimately obtain el2 where "take_handles k el1 = Some (el2, map (\<lambda>i. hi - 1 - of_nat i) [0..<k])"
      "el_ok el2" "el_free el2 = el_free el1 - (\<lambda>i. hi - 1 - of_nat i) ` {..<k}"
    using Suc.IH [OF el1(2)] by blast
  moreover have "(\<lambda>i. hi - of_nat i) ` {..<Suc k} = insert hi ((\<lambda>i. hi - 1 - of_nat i) ` {..<k})"
    by (simp add: lessThan_Suc_eq_insert_0 image_image algebra_simps)
  ultimately show ?case
    using el1 by (auto simp: map_down_Suc simp del: upt_Suc)
qed simp

lemma highest_run:
  assumes "el_ok el" "avlgethighest (index el) = Some e" "k \<le> card (handles_of e)"
  shows "\<forall>i < k. ext_last e - of_nat i \<in> el_free el"
proof (intro allI impI)
  fix i assume "i < k"
  have e: "ext_first e \<le> ext_last e" "e \<in> ix.exts (index el)"
    using highest_bounds [OF assms(1,2)] by blast+
  have i: "unat (ext_first e) + i \<le> unat (ext_last e)"
    using \<open>i < k\<close> assms(3) by (simp add: handles_of_def card_word_interval)
  then have "i < 2 ^ 64" using unsigned_less [of "ext_last e", where 'a = nat] by simp
  then have "unat (of_nat i :: TROVE_handle) = i" by (simp add: unat_of_nat take_bit_nat_eq_self)
  moreover from this have "(of_nat i :: TROVE_handle) \<le> ext_last e"
    using i by (simp add: word_le_nat_alt)
  ultimately have "unat (ext_last e - of_nat i) = unat (ext_last e) - i"
    by (simp add: unat_sub)
  then have "ext_last e - of_nat i \<in> handles_of e"
    using i by (simp add: handles_of_def word_le_nat_alt)
  with e(2) show "ext_last e - of_nat i \<in> el_free el" by (auto simp: el_free_def cover_def)
qed

lemma peek_handles_eq:
  assumes "el_ok el" "avlgethighest (index el) = Some e" "0 < m"
  shows "extentlist_peek_handles el m =
    Some (map (\<lambda>i. ext_last e - of_nat i)
            [0..<min (nat m) (Suc (unat (ext_last e)) - unat (peek_floor (ext_first e)))], 0)"
proof -
  have e: "ext_first e \<le> ext_last e" "0 < ext_first e"
    using highest_bounds [OF assms(1,2)] assms(1) by (auto simp: el_ok_def canonical_def extent_ok_def)
  have "peek_floor (ext_first e) \<le> ext_first e"
    using e(2) pred_less [of "ext_first e"] by (auto simp: peek_floor_def)
  with e(1) have "peek_floor (ext_first e) \<le> ext_last e" by (meson order_trans)
  then show ?thesis
    using e assms(3) peek_loop_eq [of "ext_first e" "ext_last e" "[]" m]
    by (simp add: extentlist_peek_handles_def assms(2) peek_len_def Let_def word_le_nat_alt)
qed

lemma below_extent_not_free:
  assumes "el_ok el" "e \<in> ix.exts (index el)"
  shows "ext_first e - 1 \<notin> el_free el"
proof
  assume "ext_first e - 1 \<in> el_free el"
  then obtain a where a: "a \<in> ix.exts (index el)" "ext_first a \<le> ext_first e - 1"
      "ext_first e - 1 \<le> ext_last a"
    by (auto simp: el_free_def in_cover)
  have can: "canonical (ix.exts (index el))" using assms(1) by (simp add: el_ok_def)
  have ok: "extent_ok e" "extent_ok a" using can assms(2) a(1) by (auto simp: canonical_def)
  then have "ext_first e - 1 < ext_first e" by (simp add: extent_ok_def pred_less)
  then have "a \<noteq> e" using a(2) by auto
  then consider "ext_last a + 1 < ext_first e" | "ext_last e + 1 < ext_first a"
    using can a(1) assms(2) unfolding canonical_def separated_def by blast
  then show False
  proof cases
    case 1
    with a(3) ok show False unfolding extent_ok_def by unat_arith
  next
    case 2
    have "ext_last e < ext_last e + 1" using ok(1) by (simp add: extent_ok_def succ_less_max)
    with 2 a(2) \<open>ext_first e - 1 < ext_first e\<close> ok(1) show False
      unfolding extent_ok_def by (meson leD less_trans order_trans le_less_trans)
  qed
qed

text \<open>The loop over a range writes at most \<open>max_num_handles\<close> handles.\<close>

lemma peek_range_loop_returns:
  "int (length out) < m \<Longrightarrow>
   \<exists>out'. extentlist_peek_range_loop n m q out = Some out' \<and> int (length out') \<le> m \<and>
          length out \<le> length out'"
proof (induction "nat (m - int (length out))" arbitrary: q out rule: less_induct)
  case less
  let ?h = "avltree_extent_search_in_range n q"
  show ?case
  proof (cases "?h = 0 \<or> int (length out) + 1 = m \<or> ?h - 1 = 0")
    case True
    with less.prems show ?thesis
      by (subst extentlist_peek_range_loop.simps) (auto simp: Let_def)
  next
    case False
    with less.prems less.hyps [of "out @ [?h]" "q\<lparr>ext_last := ?h - 1\<rparr>"] show ?thesis
      by (subst extentlist_peek_range_loop.simps) (auto simp: Let_def)
  qed
qed

section \<open>Properties\<close>

text \<open>A sample list: the free handles 20 to 29 and 40.\<close>

definition ex_tree :: avlnode where
  "ex_tree = Avlnode NULL (ex_extent 20 29) RIGHT (Avlnode NULL (ex_extent 40 40) NONE NULL)"

definition ex_list :: TROVE_handle_extentlist where
  "ex_list = zero_extentlist\<lparr>index := ex_tree, num_extents := 2, num_handles := 11\<rparr>"

lemma ex_list_ok: "el_ok ex_list"
  by (simp add: el_ok_def ex_list_def ex_tree_def canonical_def separated_def extent_ok_def ex_extent_def)

lemma ex_list_free: "el_free ex_list = {20..29} \<union> {40}"
  by (simp add: el_free_def ex_list_def ex_tree_def ex_extent_def handles_of_def)

lemma ex_list_counts: "num_handles ex_list = 11" "timestamp ex_list = zero_timeval"
  by (simp_all add: ex_list_def zero_extentlist_def)

text \<open>
  C28. Adding a range of new handles returns 0 and makes the list cover exactly these handles
  in addition. The extents stay disjoint, ordered and maximal: a range next to an existing extent
  is merged with it, on either side or both. The handle counter grows by the size of the range.
\<close>

theorem extentlist_addextent_adds:
  assumes "el_ok el" "0 < f" "f \<le> l" "l < HANDLE_MAX" "{f..l} \<inter> el_free el = {}"
  shows "\<exists>el'. extentlist_addextent now el f l = Some (el', 0) \<and> el_ok el' \<and>
    el_free el' = el_free el \<union> {f..l} \<and> num_handles el' = num_handles el + (l - f + 1) \<and>
    timestamp el' = now"
  by (rule addextent_ok [OF assms]) blast

theorem extentlist_addextent_adds_witness:
  "\<exists>el'. extentlist_addextent zero_timeval ex_list 30 39 = Some (el', 0) \<and> el_ok el' \<and>
     el_free el' = {20..29} \<union> {40} \<union> {30..39} \<and> num_handles el' = 21"
proof -
  have "{30..39} \<inter> el_free ex_list = {}" by (auto simp: ex_list_free)
  from extentlist_addextent_adds [OF ex_list_ok _ _ _ this, of zero_timeval]
  show ?thesis by (auto simp: ex_list_free ex_list_counts)
qed

text \<open>
  Allocation takes the highest free handle out of the list; from an empty list it returns
  the value -1 (all bits set) and changes nothing.
\<close>

theorem extentlist_get_and_dec_takes_max:
  assumes "el_ok el"
  shows "if el_free el = {} then extentlist_get_and_dec_extent el = Some (el, -1)
    else \<exists>el'. extentlist_get_and_dec_extent el = Some (el', Max (el_free el)) \<and> el_ok el' \<and>
      el_free el' = el_free el - {Max (el_free el)}"
  using get_and_dec_empty [OF _ assms] get_and_dec_ok [OF assms] by (metis (full_types))

theorem extentlist_get_and_dec_takes_max_witness:
  "\<exists>el'. extentlist_get_and_dec_extent ex_list = Some (el', 40) \<and> el_ok el' \<and> el_free el' = {20..29}"
proof -
  have "Max (el_free ex_list) = 40" unfolding ex_list_free
    by (intro Max_eqI) (auto intro: order_trans [of _ 29])
  then show ?thesis
    using extentlist_get_and_dec_takes_max [OF ex_list_ok] by (auto simp: ex_list_free)
qed

text \<open>
  Removing one handle succeeds exactly when the handle is free, and then takes it and no
  other handle out of the list, splitting its extent where needed. The counters are not
  touched; a handle that is not free is refused with -1.
\<close>

theorem extentlist_handle_remove_removes:
  assumes "el_ok el"
  shows "if h \<in> el_free el
    then \<exists>el'. extentlist_handle_remove el h = Some (el', 0) \<and> el_ok el' \<and>
      el_free el' = el_free el - {h} \<and> num_handles el' = num_handles el \<and> num_extents el' = num_extents el
    else extentlist_handle_remove el h = Some (el, -1)"
proof (cases "h \<in> el_free el")
  case True
  obtain n where "extentlist_handle_remove el h = Some (el\<lparr>index := n\<rparr>, 0)"
      "el_ok (el\<lparr>index := n\<rparr>)" "el_free (el\<lparr>index := n\<rparr>) = el_free el - {h}"
    by (rule handle_remove_ok [OF assms True])
  with True show ?thesis by simp
next
  case False
  with assms show ?thesis by (simp add: handle_remove_absent)
qed

theorem extentlist_handle_remove_removes_witness:
  "(\<exists>el'. extentlist_handle_remove ex_list 25 = Some (el', 0) \<and> el_free el' = {20..29} \<union> {40} - {25}) \<and>
   extentlist_handle_remove ex_list 35 = Some (ex_list, -1)"
proof -
  have "25 \<in> el_free ex_list" "35 \<notin> el_free ex_list" by (simp_all add: ex_list_free)
  then show ?thesis
    using extentlist_handle_remove_removes [OF ex_list_ok, of 25]
      extentlist_handle_remove_removes [OF ex_list_ok, of 35] by (auto simp: ex_list_free)
qed

text \<open>
  Allocation from a requested range returns a handle that is free and in the range, and takes
  exactly this handle out of the list; it returns the null handle, and changes nothing,
  exactly when no handle of the range is free.
\<close>

theorem extentlist_get_from_extent_in_range:
  assumes "el_ok el" "0 < ext_first q" "ext_first q \<le> ext_last q"
  shows "\<exists>el' h. extentlist_get_from_extent el q = Some (el', h) \<and> el_ok el' \<and>
    el_free el' = el_free el - {h} \<and>
    (if handles_of q \<inter> el_free el = {} then h = TROVE_HANDLE_NULL
     else h \<noteq> TROVE_HANDLE_NULL \<and> h \<in> handles_of q \<inter> el_free el)"
proof -
  obtain n h where "extentlist_get_from_extent el q = Some (el\<lparr>index := n\<rparr>, h)"
      "el_ok (el\<lparr>index := n\<rparr>)" "el_free (el\<lparr>index := n\<rparr>) = el_free el - {h}"
      "if h = 0 then handles_of q \<inter> el_free el = {} else h \<in> handles_of q \<inter> el_free el"
    by (rule get_from_extent_ok [OF assms])
  then show ?thesis
    by (intro exI [of _ "el\<lparr>index := n\<rparr>"] exI [of _ h]) (auto split: if_splits)
qed

theorem extentlist_get_from_extent_in_range_witness:
  "\<exists>el' h. extentlist_get_from_extent ex_list (ex_extent 25 100) = Some (el', h) \<and>
     h \<in> {25..29} \<union> {40} \<and> el_free el' = {20..29} \<union> {40} - {h}"
proof -
  have "handles_of (ex_extent 25 100) \<inter> el_free ex_list = {25..29} \<union> {40}"
    unfolding ex_list_free by (auto simp: handles_of_def ex_extent_def)
  then show ?thesis
    using extentlist_get_from_extent_in_range [OF ex_list_ok, of "ex_extent 25 100"]
    by (auto simp: ex_list_free ex_extent_def)
qed

text \<open>
  C29. Merging two disjoint lists always terminates; the destination then covers exactly the union,
  in canonical form, and the source is empty.
\<close>

theorem extentlist_merge_union:
  assumes "el_ok dest" "el_ok src" "el_free dest \<inter> el_free src = {}"
  shows "\<exists>dest' src'. extentlist_merge now dest src = Some (dest', src', 0) \<and> el_ok dest' \<and>
    el_free dest' = el_free dest \<union> el_free src \<and> el_ok src' \<and> el_free src' = {}"
proof -
  obtain d where "extentlist_merge now dest src = Some (d, src\<lparr>index := NULL\<rparr>, 0)" "el_ok d"
      "el_free d = el_free dest \<union> el_free src"
    by (rule merge_ok [OF assms])
  moreover have "el_ok (src\<lparr>index := NULL\<rparr>)" "el_free (src\<lparr>index := NULL\<rparr>) = {}"
    by (simp_all add: el_ok_def el_free_def)
  ultimately show ?thesis by blast
qed

theorem extentlist_merge_union_witness:
  "\<exists>d s. extentlist_merge zero_timeval zero_extentlist ex_list = Some (d, s, 0) \<and>
     el_ok d \<and> el_free d = {20..29} \<union> {40} \<and> el_free s = {}"
  using extentlist_merge_union [OF el_ok_zero(1) ex_list_ok, of zero_timeval]
  by (auto simp: ex_list_free)

text \<open>
  The count computed by walking the tree is the number of free handles; it never wraps
  around.
\<close>

theorem extentlist_count_free:
  assumes "el_ok el"
  shows "unat (extentlist_count el) = card (el_free el)"
  using card_free_less [OF assms] by (simp add: count_card [OF assms] unat_of_nat take_bit_nat_eq_self)

theorem extentlist_count_free_witness:
  "el_ok ex_list \<and> card (el_free ex_list) = 11"
proof -
  have "extentlist_count ex_list = 11"
    by (simp add: extentlist_count_def ex_list_def ex_tree_def ex_extent_def extent_count_def)
  then show ?thesis using extentlist_count_free [OF ex_list_ok] ex_list_ok by simp
qed

text \<open>
  Peeking at no more handles than the highest extent holds returns exactly the handles the
  same number of allocations would return, in the same order, and they are all free.
\<close>

theorem extentlist_peek_predicts:
  assumes "el_ok el" "avlgethighest (index el) = Some e" "0 < k" "k \<le> card (handles_of e)"
  shows "\<exists>hs el'. extentlist_peek_handles el (int k) = Some (hs, 0) \<and> length hs = k \<and>
    set hs \<subseteq> el_free el \<and> take_handles k el = Some (el', hs)"
proof -
  let ?hs = "map (\<lambda>i. ext_last e - of_nat i) [0..<k]"
  have e: "ext_first e \<le> ext_last e" "\<forall>h \<in> el_free el. h \<le> ext_last e" "0 < ext_first e"
    using highest_bounds [OF assms(1,2)] assms(1) by (auto simp: el_ok_def canonical_def extent_ok_def)
  have "unat (peek_floor (ext_first e)) \<le> unat (ext_first e)"
    using e(3) pred_less [of "ext_first e"] by (auto simp: peek_floor_def word_less_nat_alt)
  with assms(4) have "k \<le> Suc (unat (ext_last e)) - unat (peek_floor (ext_first e))"
    by (simp add: handles_of_def card_word_interval)
  then have "extentlist_peek_handles el (int k) = Some (?hs, 0)"
    using peek_handles_eq [OF assms(1,2), of "int k"] assms(3) by (simp add: min_def)
  moreover note run = highest_run [OF assms(1,2,4)]
  moreover from take_handles_run [OF assms(1) e(2) run]
  obtain el' where "take_handles k el = Some (el', ?hs)" by blast
  ultimately show ?thesis by auto
qed

theorem extentlist_peek_predicts_witness:
  "\<exists>el'. extentlist_peek_handles ex_list 1 = Some ([40], 0) \<and> take_handles 1 ex_list = Some (el', [40])"
proof -
  have top: "avlgethighest (index ex_list) = Some (ex_extent 40 40)"
    by (simp add: ex_list_def ex_tree_def)
  have "handles_of (ex_extent 40 40) = {40}" by (simp add: handles_of_def ex_extent_def)
  with extentlist_peek_predicts [OF ex_list_ok top, of 1]
  obtain hs el' where "extentlist_peek_handles ex_list 1 = Some (hs, 0)"
      "take_handles 1 ex_list = Some (el', hs)" by auto
  moreover have "extentlist_peek_handles ex_list 1 = Some ([40], 0)"
    by (simp add: extentlist_peek_handles_def top extentlist_peek_loop.simps ex_extent_def)
  ultimately show ?thesis by simp
qed

text \<open>
  Asked for more handles than the highest extent holds, peeking returns the handle just
  below that extent as well, although this handle is not free: the loop lets the handle fall to
  \<open>first - 1\<close> before it stops.
\<close>

theorem extentlist_peek_overruns:
  assumes "el_ok el" "avlgethighest (index el) = Some e" "1 < ext_first e"
    and "int (card (handles_of e)) < m"
  shows "\<exists>hs. extentlist_peek_handles el m = Some (hs, 0) \<and> ext_first e - 1 \<in> set hs \<and>
    ext_first e - 1 \<notin> el_free el"
proof -
  note e = highest_bounds [OF assms(1,2)]
  let ?k = "Suc (unat (ext_last e)) - unat (peek_floor (ext_first e))"
  have fl: "peek_floor (ext_first e) = ext_first e - 1" using assms(3) by (auto simp: peek_floor_def)
  have un: "unat (ext_first e - 1) = unat (ext_first e) - 1" "0 < unat (ext_first e)"
    using assms(3) by unat_arith+
  have le: "unat (ext_first e) \<le> unat (ext_last e)" using e(4) by (simp add: word_le_nat_alt)
  have k: "?k = Suc (card (handles_of e))"
    using un le by (simp add: fl handles_of_def card_word_interval)
  have out: "extentlist_peek_handles el m = Some (map (\<lambda>i. ext_last e - of_nat i) [0..<?k], 0)"
    using peek_handles_eq [OF assms(1,2), of m] assms(4) k by (simp add: min_absorb2 del: upt_Suc)
  have "ext_first e - 1 = ext_last e - of_nat (card (handles_of e))"
    using le by (simp add: handles_of_def card_word_interval of_nat_diff Suc_diff_le)
  then have "ext_first e - 1 \<in> set (map (\<lambda>i. ext_last e - of_nat i) [0..<?k])"
    unfolding k by simp
  with out below_extent_not_free [OF assms(1) e(1)] show ?thesis by blast
qed

theorem extentlist_peek_overruns_witness:
  "\<exists>hs. extentlist_peek_handles ex_list 5 = Some (hs, 0) \<and> 39 \<in> set hs \<and> 39 \<notin> el_free ex_list"
proof -
  have "avlgethighest (index ex_list) = Some (ex_extent 40 40)"
    by (simp add: ex_list_def ex_tree_def)
  from extentlist_peek_overruns [OF ex_list_ok this, of 5]
  show ?thesis by (simp add: handles_of_def ex_extent_def)
qed

text \<open>
  Peeking in a range with a positive bound always returns, with no more handles than asked
  for.
\<close>

theorem extentlist_peek_from_extent_returns:
  assumes "0 < m"
  shows "\<exists>hs rc. extentlist_peek_handles_from_extent el q m = Some (hs, rc) \<and> int (length hs) \<le> m \<and>
    rc = (if hs = [] then - TROVE_ENOSPC else 0)"
proof -
  obtain hs where "extentlist_peek_range_loop (index el) m q [] = Some hs" "int (length hs) \<le> m"
    using peek_range_loop_returns [of "[]" m "index el" q] assms by auto
  then show ?thesis by (simp add: extentlist_peek_handles_from_extent_def)
qed

theorem extentlist_peek_from_extent_returns_witness:
  "\<exists>hs rc. extentlist_peek_handles_from_extent ex_list (ex_extent 25 100) 3 = Some (hs, rc) \<and>
     int (length hs) \<le> 3"
  using extentlist_peek_from_extent_returns [of 3 ex_list "ex_extent 25 100"] by fastforce

text \<open>
  What it returns can be neither free nor in the range: with the handles 100 to 110 free
  and the single handle 105 requested, eight handles come back, down to 98. Lowering the end of the
  request below its start makes the search answer from the wrong side.
\<close>

theorem extentlist_peek_from_extent_leaves_range:
  "extentlist_peek_handles_from_extent
     (zero_extentlist\<lparr>index := Avlnode NULL (ex_extent 100 110) NONE NULL\<rparr>) (ex_extent 105 105) 8
   = Some ([105, 104, 103, 102, 101, 100, 99, 98], 0)"
  by (simp add: extentlist_peek_handles_from_extent_def extentlist_peek_range_loop.simps ex_extent_def)

text \<open>
  The handle counter drifts: taking the last handle of an extent, or removing a named handle,
  takes a handle out of the list without counting it off. From then on \<open>num_handles\<close> exceeds
  the number of free handles.
\<close>

theorem extentlist_counter_drift:
  "(\<exists>el'. extentlist_get_and_dec_extent ex_list = Some (el', 40) \<and>
      num_handles el' = num_handles ex_list \<and> extentlist_count el' = 10) \<and>
   num_handles ex_list = extentlist_count ex_list"
  by (simp add: extentlist_get_and_dec_extent_def ex_list_def ex_tree_def ex_extent_def
      avlremove_here_def rebalance_simps extentlist_count_def extent_count_def)

end
