(* ===== verification/Handle_Ledger.thy ===== *)
theory Handle_Ledger
  imports Free_Handles
begin

text \<open>
  The handle ledger of one collection, \<open>src/io/trove/trove-handle-mgmt/trove-ledger.c\<close>: the
  free handles, the recently freed ones and an overflow list for handles freed while the second
  list is full.

  The members of the C struct that serve the disabled on-disk format are left out. The static
  purgatory time of \<open>trove-extentlist.c\<close> and the clock are arguments. A ledger pointer that
  the code tests for NULL is an option.
\<close>

section \<open>Data and operations\<close>

record handle_ledger =
  free_list :: TROVE_handle_extentlist
  recently_freed_list :: TROVE_handle_extentlist
  overflow_list :: TROVE_handle_extentlist
  cutoff :: "64 word"

text \<open>The three clock readings are those of the three initialisations.\<close>

definition trove_handle_ledger_init :: "timeval \<Rightarrow> timeval \<Rightarrow> timeval \<Rightarrow> handle_ledger" where
  "trove_handle_ledger_init now1 now2 now3 =
     \<lparr>free_list = fst (extentlist_init now1 zero_extentlist),
      recently_freed_list = fst (extentlist_init now2 zero_extentlist),
      overflow_list = fst (extentlist_init now3 zero_extentlist),
      cutoff = 0\<rparr>"

definition trove_handle_ledger_dump :: "handle_ledger \<Rightarrow> int" where
  "trove_handle_ledger_dump hl = -1"

definition trove_ledger_handle_alloc :: "handle_ledger option
    \<Rightarrow> (handle_ledger option \<times> TROVE_handle) option" where
  "trove_ledger_handle_alloc hl =
     (case hl of
        None \<Rightarrow> Some (None, TROVE_HANDLE_NULL)
      | Some l \<Rightarrow>
          map_option (\<lambda>(el, h). (Some (l\<lparr>free_list := el\<rparr>), h))
            (extentlist_get_and_dec_extent (free_list l)))"

definition trove_ledger_handle_alloc_from_range :: "handle_ledger option \<Rightarrow> TROVE_handle_extent
    \<Rightarrow> (handle_ledger option \<times> TROVE_handle) option" where
  "trove_ledger_handle_alloc_from_range hl extent =
     (case hl of
        None \<Rightarrow> Some (None, TROVE_HANDLE_NULL)
      | Some l \<Rightarrow>
          map_option (\<lambda>(el, h). (Some (l\<lparr>free_list := el\<rparr>), h))
            (extentlist_get_from_extent (free_list l) extent))"

text \<open>The array of handles is part of the result; without a ledger it is not written.\<close>

definition trove_ledger_peek_handles :: "handle_ledger option \<Rightarrow> int
    \<Rightarrow> (TROVE_handle list \<times> int) option" where
  "trove_ledger_peek_handles hl max_num_handles =
     (case hl of
        None \<Rightarrow> Some ([], 0)
      | Some l \<Rightarrow> extentlist_peek_handles (free_list l) max_num_handles)"

definition trove_ledger_peek_handles_from_extent :: "handle_ledger option \<Rightarrow> TROVE_handle_extent
    \<Rightarrow> int \<Rightarrow> (TROVE_handle list \<times> int) option" where
  "trove_ledger_peek_handles_from_extent hl extent max_num_handles =
     (case hl of
        None \<Rightarrow> Some ([], 0)
      | Some l \<Rightarrow> extentlist_peek_handles_from_extent (free_list l) extent max_num_handles)"

text \<open>
  \<open>now\<close> is the clock of the merge, \<open>now'\<close> that of the new overflow list.
\<close>

definition handle_recycle :: "timeval \<Rightarrow> timeval \<Rightarrow> handle_ledger \<Rightarrow> (handle_ledger \<times> int) option" where
  "handle_recycle now now' hl =
     (case extentlist_merge now (free_list hl) (recently_freed_list hl) of
        None \<Rightarrow> None
      | Some (fl, rl, _) \<Rightarrow>
          let hl1 = hl\<lparr>free_list := fl, recently_freed_list := extentlist_free rl\<rparr>;
              hl2 = hl1\<lparr>recently_freed_list := overflow_list hl1\<rparr>;
              hl3 = hl2\<lparr>overflow_list := zero_extentlist\<lparr>timestamp := now'\<rparr>\<rparr>
          in Some (hl3, 0))"

text \<open>The results of the additions and of the recycling are ignored.\<close>

definition trove_ledger_handle_free :: "timeval \<Rightarrow> timeval \<Rightarrow> handle_ledger \<Rightarrow> TROVE_handle
    \<Rightarrow> (handle_ledger \<times> int) option" where
  "trove_ledger_handle_free purgatory now hl handle =
     (case (if extentlist_hit_cutoff (recently_freed_list hl) (cutoff hl)
            then map_option (\<lambda>(el, _). hl\<lparr>overflow_list := el\<rparr>)
                   (extentlist_addextent now (overflow_list hl) handle handle)
            else map_option (\<lambda>(el, _). hl\<lparr>recently_freed_list := el\<rparr>)
                   (extentlist_addextent now (recently_freed_list hl) handle handle)) of
        None \<Rightarrow> None
      | Some hl' \<Rightarrow>
          if num_handles (free_list hl') > cutoff hl' then Some (hl', 0)
          else if extentlist_endured_purgatory purgatory (recently_freed_list hl') (overflow_list hl')
          then map_option (\<lambda>(hl'', _). (hl'', 0)) (handle_recycle now now hl')
          else Some (hl', 0))"

definition trove_ledger_set_timeout :: "handle_ledger \<Rightarrow> timeval \<Rightarrow> (timeval \<times> int) option" where
  "trove_ledger_set_timeout hl timeout = extentlist_set_purgatory timeout"

definition trove_handle_ledger_get_statistics :: "handle_ledger \<Rightarrow> 64 word" where
  "trove_handle_ledger_get_statistics hl =
     0 + extentlist_count (free_list hl) + extentlist_count (recently_freed_list hl)
       + extentlist_count (overflow_list hl)"

definition trove_handle_ledger_addextent :: "timeval \<Rightarrow> handle_ledger \<Rightarrow> TROVE_handle_extent
    \<Rightarrow> (handle_ledger \<times> int) option" where
  "trove_handle_ledger_addextent now hl extent =
     map_option (\<lambda>(el, rc). (hl\<lparr>free_list := el\<rparr>, rc))
       (extentlist_addextent now (free_list hl) (ext_first extent) (ext_last extent))"

definition trove_handle_remove :: "handle_ledger \<Rightarrow> TROVE_handle \<Rightarrow> (handle_ledger \<times> int) option" where
  "trove_handle_remove hl handle =
     map_option (\<lambda>(el, rc). (hl\<lparr>free_list := el\<rparr>, rc)) (extentlist_handle_remove (free_list hl) handle)"

definition trove_handle_ledger_set_threshold :: "handle_ledger \<Rightarrow> 64 word \<Rightarrow> handle_ledger" where
  "trove_handle_ledger_set_threshold hl nhandles = hl\<lparr>cutoff := nhandles div 4 + 1\<rparr>"

section \<open>Invariant\<close>

definition ledger_ok :: "handle_ledger \<Rightarrow> bool" where
  "ledger_ok hl \<longleftrightarrow>
     el_ok (free_list hl) \<and> el_ok (recently_freed_list hl) \<and> el_ok (overflow_list hl) \<and>
     el_free (free_list hl) \<inter> el_free (recently_freed_list hl) = {} \<and>
     el_free (free_list hl) \<inter> el_free (overflow_list hl) = {} \<and>
     el_free (recently_freed_list hl) \<inter> el_free (overflow_list hl) = {}"

text \<open>All handles the ledger holds, available or waiting.\<close>

definition ledger_handles :: "handle_ledger \<Rightarrow> TROVE_handle set" where
  "ledger_handles hl =
     el_free (free_list hl) \<union> el_free (recently_freed_list hl) \<union> el_free (overflow_list hl)"

lemma el_ok_timestamp [simp]:
  "el_ok (el\<lparr>timestamp := t\<rparr>) = el_ok el" "el_free (el\<lparr>timestamp := t\<rparr>) = el_free el"
  by (simp_all add: el_ok_def el_free_def)

lemma ledger_init_ok: "ledger_ok (trove_handle_ledger_init t1 t2 t3)"
  "ledger_handles (trove_handle_ledger_init t1 t2 t3) = {}"
  by (simp_all add: trove_handle_ledger_init_def ledger_ok_def ledger_handles_def extentlist_init_def)

lemma recycle_ok:
  assumes "ledger_ok hl"
  obtains hl' where "handle_recycle now now' hl = Some (hl', 0)" "ledger_ok hl'"
    "ledger_handles hl' = ledger_handles hl" "cutoff hl' = cutoff hl"
    "el_free (free_list hl') = el_free (free_list hl) \<union> el_free (recently_freed_list hl)"
    "recently_freed_list hl' = overflow_list hl" "timestamp (overflow_list hl') = now'"
proof -
  have parts: "el_ok (free_list hl)" "el_ok (recently_freed_list hl)"
    "el_free (free_list hl) \<inter> el_free (recently_freed_list hl) = {}"
    using assms by (simp_all add: ledger_ok_def)
  obtain d where m: "extentlist_merge now (free_list hl) (recently_freed_list hl)
        = Some (d, recently_freed_list hl\<lparr>index := NULL\<rparr>, 0)"
      "el_ok d" "el_free d = el_free (free_list hl) \<union> el_free (recently_freed_list hl)"
    by (rule merge_ok [OF parts])
  let ?hl' = "hl\<lparr>free_list := d, recently_freed_list := overflow_list hl,
    overflow_list := zero_extentlist\<lparr>timestamp := now'\<rparr>\<rparr>"
  have "handle_recycle now now' hl = Some (?hl', 0)"
    by (simp add: handle_recycle_def m(1))
  moreover have "ledger_ok ?hl'" using assms m(2,3) by (auto simp: ledger_ok_def)
  moreover have "ledger_handles ?hl' = ledger_handles hl"
    using m(3) by (auto simp: ledger_handles_def)
  ultimately show thesis using m(3) by (intro that [of ?hl']) simp_all
qed

lemma alloc_ok:
  assumes "ledger_ok hl" "el_free (free_list hl) \<noteq> {}"
  obtains hl' where
    "trove_ledger_handle_alloc (Some hl) = Some (Some hl', Max (el_free (free_list hl)))"
    "ledger_ok hl'" "ledger_handles hl' = ledger_handles hl - {Max (el_free (free_list hl))}"
    "Max (el_free (free_list hl)) \<in> ledger_handles hl"
proof -
  let ?m = "Max (el_free (free_list hl))"
  have "el_ok (free_list hl)" using assms(1) by (simp add: ledger_ok_def)
  then obtain el where el: "extentlist_get_and_dec_extent (free_list hl) = Some (el, ?m)" "el_ok el"
      "el_free el = el_free (free_list hl) - {?m}"
    using assms(2) by (rule get_and_dec_ok)
  have "?m \<in> el_free (free_list hl)" using assms(2) by (intro Max_in) simp_all
  then have "ledger_ok (hl\<lparr>free_list := el\<rparr>)"
    "ledger_handles (hl\<lparr>free_list := el\<rparr>) = ledger_handles hl - {?m}" "?m \<in> ledger_handles hl"
    using assms(1) el(2,3) by (auto simp: ledger_ok_def ledger_handles_def)
  with el(1) show thesis
    by (intro that [of "hl\<lparr>free_list := el\<rparr>"]) (simp_all add: trove_ledger_handle_alloc_def)
qed

lemma alloc_empty:
  assumes "ledger_ok hl" "el_free (free_list hl) = {}"
  shows "trove_ledger_handle_alloc (Some hl) = Some (Some hl, -1)"
  using get_and_dec_empty [OF assms(2)] assms(1)
  by (simp add: trove_ledger_handle_alloc_def ledger_ok_def)

lemma alloc_from_range_ok:
  assumes "ledger_ok hl" "0 < ext_first q" "ext_first q \<le> ext_last q"
  obtains hl' h where
    "trove_ledger_handle_alloc_from_range (Some hl) q = Some (Some hl', h)" "ledger_ok hl'"
    "ledger_handles hl' = ledger_handles hl - {h}"
    "if h = 0 then handles_of q \<inter> el_free (free_list hl) = {}
     else h \<in> handles_of q \<inter> el_free (free_list hl)"
proof -
  have "el_ok (free_list hl)" using assms(1) by (simp add: ledger_ok_def)
  then obtain n h where el: "extentlist_get_from_extent (free_list hl) q = Some (free_list hl\<lparr>index := n\<rparr>, h)"
      "el_ok (free_list hl\<lparr>index := n\<rparr>)"
      "el_free (free_list hl\<lparr>index := n\<rparr>) = el_free (free_list hl) - {h}"
      "if h = 0 then handles_of q \<inter> el_free (free_list hl) = {}
       else h \<in> handles_of q \<inter> el_free (free_list hl)"
    using assms(2,3) by (rule get_from_extent_ok)
  let ?el = "free_list hl\<lparr>index := n\<rparr>"
  have ok: "ledger_ok (hl\<lparr>free_list := ?el\<rparr>)"
    using assms(1) el(2,3) by (auto simp: ledger_ok_def)
  have nz: "0 \<notin> el_free (recently_freed_list hl)" "0 \<notin> el_free (overflow_list hl)"
    using assms(1) free_bounds(1) [of _ 0] by (auto simp: ledger_ok_def)
  have "ledger_handles (hl\<lparr>free_list := ?el\<rparr>) = ledger_handles hl - {h}"
  proof (cases "h = 0")
    case True
    with nz el(3) show ?thesis by (auto simp: ledger_handles_def)
  next
    case False
    with el(4) have "h \<in> el_free (free_list hl)" by simp
    with el(3) assms(1) show ?thesis by (auto simp: ledger_handles_def ledger_ok_def)
  qed
  with ok el(1,4) show thesis
    by (intro that [of "hl\<lparr>free_list := ?el\<rparr>" h])
       (simp_all add: trove_ledger_handle_alloc_from_range_def)
qed

lemma remove_ok:
  assumes "ledger_ok hl" "h \<in> el_free (free_list hl)"
  obtains hl' where "trove_handle_remove hl h = Some (hl', 0)" "ledger_ok hl'"
    "ledger_handles hl' = ledger_handles hl - {h}"
proof -
  have "el_ok (free_list hl)" using assms(1) by (simp add: ledger_ok_def)
  then obtain n where el: "extentlist_handle_remove (free_list hl) h = Some (free_list hl\<lparr>index := n\<rparr>, 0)"
      "el_ok (free_list hl\<lparr>index := n\<rparr>)"
      "el_free (free_list hl\<lparr>index := n\<rparr>) = el_free (free_list hl) - {h}"
    using assms(2) by (rule handle_remove_ok)
  with assms show thesis
    by (intro that [of "hl\<lparr>free_list := free_list hl\<lparr>index := n\<rparr>\<rparr>"])
       (auto simp: trove_handle_remove_def ledger_ok_def ledger_handles_def)
qed

lemma ledger_addextent_ok:
  assumes "ledger_ok hl" "extent_ok e" "handles_of e \<inter> ledger_handles hl = {}"
  obtains hl' where "trove_handle_ledger_addextent now hl e = Some (hl', 0)" "ledger_ok hl'"
    "ledger_handles hl' = ledger_handles hl \<union> handles_of e" "cutoff hl' = cutoff hl"
proof -
  have "el_ok (free_list hl)" "{ext_first e..ext_last e} \<inter> el_free (free_list hl) = {}"
    using assms by (auto simp: ledger_ok_def ledger_handles_def handles_of_def)
  moreover have "0 < ext_first e" "ext_first e \<le> ext_last e" "ext_last e < HANDLE_MAX"
    using assms(2) by (simp_all add: extent_ok_def)
  ultimately obtain el where
      "extentlist_addextent now (free_list hl) (ext_first e) (ext_last e) = Some (el, 0)"
      "el_ok el" "el_free el = el_free (free_list hl) \<union> {ext_first e..ext_last e}"
    using addextent_ok [of "free_list hl" "ext_first e" "ext_last e" now] by blast
  with assms show thesis
    by (intro that [of "hl\<lparr>free_list := el\<rparr>"])
       (auto simp: trove_handle_ledger_addextent_def ledger_ok_def ledger_handles_def handles_of_def)
qed

text \<open>
  Freeing a handle parks it on the recently freed list, or on the overflow list when that list
  is full. \<open>parked\<close> is the ledger after this first step.
\<close>

lemma park_ok:
  assumes "ledger_ok hl" "0 < h" "h < HANDLE_MAX" "h \<notin> ledger_handles hl"
  obtains hl' where
    "trove_ledger_handle_free purgatory now hl h =
       (if num_handles (free_list hl') > cutoff hl' then Some (hl', 0)
        else if extentlist_endured_purgatory purgatory (recently_freed_list hl') (overflow_list hl')
        then map_option (\<lambda>(hl'', _). (hl'', 0)) (handle_recycle now now hl')
        else Some (hl', 0))"
    "ledger_ok hl'" "ledger_handles hl' = insert h (ledger_handles hl)"
    "free_list hl' = free_list hl" "cutoff hl' = cutoff hl"
    "if extentlist_hit_cutoff (recently_freed_list hl) (cutoff hl)
     then timestamp (overflow_list hl') = now \<and> recently_freed_list hl' = recently_freed_list hl
     else timestamp (recently_freed_list hl') = now \<and> overflow_list hl' = overflow_list hl \<and>
          h \<in> el_free (recently_freed_list hl')"
proof (cases "extentlist_hit_cutoff (recently_freed_list hl) (cutoff hl)")
  case True
  have "el_ok (overflow_list hl)" "{h..h} \<inter> el_free (overflow_list hl) = {}"
    using assms(1,4) by (auto simp: ledger_ok_def ledger_handles_def)
  then obtain el where el: "extentlist_addextent now (overflow_list hl) h h = Some (el, 0)" "el_ok el"
      "el_free el = el_free (overflow_list hl) \<union> {h..h}" "timestamp el = now"
    using addextent_ok [of "overflow_list hl" h h now] assms(2,3) by blast
  let ?hl' = "hl\<lparr>overflow_list := el\<rparr>"
  have "ledger_ok ?hl'" "ledger_handles ?hl' = insert h (ledger_handles hl)"
    using assms el by (auto simp: ledger_ok_def ledger_handles_def)
  then show thesis
    using True el by (intro that [of ?hl']) (simp_all add: trove_ledger_handle_free_def)
next
  case False
  have "el_ok (recently_freed_list hl)" "{h..h} \<inter> el_free (recently_freed_list hl) = {}"
    using assms(1,4) by (auto simp: ledger_ok_def ledger_handles_def)
  then obtain el where el: "extentlist_addextent now (recently_freed_list hl) h h = Some (el, 0)" "el_ok el"
      "el_free el = el_free (recently_freed_list hl) \<union> {h..h}" "timestamp el = now"
    using addextent_ok [of "recently_freed_list hl" h h now] assms(2,3) by blast
  let ?hl' = "hl\<lparr>recently_freed_list := el\<rparr>"
  have "ledger_ok ?hl'" "ledger_handles ?hl' = insert h (ledger_handles hl)"
    using assms el by (auto simp: ledger_ok_def ledger_handles_def)
  then show thesis
    using False el by (intro that [of ?hl']) (simp_all add: trove_ledger_handle_free_def)
qed

lemma handle_free_ok:
  assumes "ledger_ok hl" "0 < h" "h < HANDLE_MAX" "h \<notin> ledger_handles hl"
  obtains hl' where "trove_ledger_handle_free purgatory now hl h = Some (hl', 0)" "ledger_ok hl'"
    "ledger_handles hl' = insert h (ledger_handles hl)" "cutoff hl' = cutoff hl"
    "el_free (free_list hl) \<subseteq> el_free (free_list hl')"
proof -
  obtain hl1 where hl1: "trove_ledger_handle_free purgatory now hl h =
       (if num_handles (free_list hl1) > cutoff hl1 then Some (hl1, 0)
        else if extentlist_endured_purgatory purgatory (recently_freed_list hl1) (overflow_list hl1)
        then map_option (\<lambda>(hl'', _). (hl'', 0)) (handle_recycle now now hl1)
        else Some (hl1, 0))"
      "ledger_ok hl1" "ledger_handles hl1 = insert h (ledger_handles hl)"
      "free_list hl1 = free_list hl" "cutoff hl1 = cutoff hl"
    by (rule park_ok [OF assms])
  obtain hl2 where hl2: "handle_recycle now now hl1 = Some (hl2, 0)" "ledger_ok hl2"
      "ledger_handles hl2 = ledger_handles hl1" "cutoff hl2 = cutoff hl1"
      "el_free (free_list hl2) = el_free (free_list hl1) \<union> el_free (recently_freed_list hl1)"
    by (rule recycle_ok [OF hl1(2)])
  show thesis
  proof (cases "\<not> num_handles (free_list hl1) > cutoff hl1 \<and>
      extentlist_endured_purgatory purgatory (recently_freed_list hl1) (overflow_list hl1)")
    case True
    with hl1 hl2 show thesis by (intro that [of hl2]) auto
  next
    case False
    with hl1 show thesis by (intro that [of hl1]) auto
  qed
qed

section \<open>Runs of a ledger\<close>

text \<open>
  The state of a run: the ledger, the handles given out and not returned, and all handles
  ever added. A client frees only handles it holds; ranges are added only when they are new.
  Allocation from an empty list returns \<open>- 1\<close> and gives nothing out.
\<close>

type_synonym ledger_state = "handle_ledger \<times> TROVE_handle set \<times> TROVE_handle set"

inductive ledger_step :: "ledger_state \<Rightarrow> ledger_state \<Rightarrow> bool" where
  alloc: "trove_ledger_handle_alloc (Some hl) = Some (Some hl', h) \<Longrightarrow>
    ledger_step (hl, U, T) (hl', if h = -1 then U else insert h U, T)"
| alloc_range: "trove_ledger_handle_alloc_from_range (Some hl) q = Some (Some hl', h) \<Longrightarrow>
    0 < ext_first q \<Longrightarrow> ext_first q \<le> ext_last q \<Longrightarrow>
    ledger_step (hl, U, T) (hl', if h = 0 then U else insert h U, T)"
| set_used: "trove_handle_remove hl h = Some (hl', rc) \<Longrightarrow>
    ledger_step (hl, U, T) (hl', if rc = 0 then insert h U else U, T)"
| free_handle: "h \<in> U \<Longrightarrow> trove_ledger_handle_free purgatory now hl h = Some (hl', rc) \<Longrightarrow>
    ledger_step (hl, U, T) (hl', U - {h}, T)"
| add_range: "extent_ok e \<Longrightarrow> handles_of e \<inter> T = {} \<Longrightarrow>
    trove_handle_ledger_addextent now hl e = Some (hl', rc) \<Longrightarrow>
    ledger_step (hl, U, T) (hl', U, T \<union> handles_of e)"
| threshold: "ledger_step (hl, U, T) (trove_handle_ledger_set_threshold hl n, U, T)"

inductive ledger_reachable :: "ledger_state \<Rightarrow> bool" where
  start: "ledger_reachable (trove_handle_ledger_init t1 t2 t3, {}, {})"
| step: "ledger_reachable s \<Longrightarrow> ledger_step s s' \<Longrightarrow> ledger_reachable s'"

definition ledger_inv :: "ledger_state \<Rightarrow> bool" where
  "ledger_inv s \<longleftrightarrow> (case s of (hl, U, T) \<Rightarrow>
     ledger_ok hl \<and> U \<inter> ledger_handles hl = {} \<and> U \<union> ledger_handles hl = T \<and>
     (\<forall>h \<in> T. 0 < h \<and> h < HANDLE_MAX))"

lemma free_in_ledger: "h \<in> el_free (free_list hl) \<Longrightarrow> h \<in> ledger_handles hl"
  by (simp add: ledger_handles_def)

lemma ledger_inv_alloc:
  assumes "ledger_inv (hl, U, T)" "trove_ledger_handle_alloc (Some hl) = Some (Some hl', h)"
  shows "ledger_inv (hl', if h = -1 then U else insert h U, T)"
    and "h \<noteq> -1 \<Longrightarrow> h \<in> T - U"
proof -
  have ok: "ledger_ok hl" using assms(1) by (simp add: ledger_inv_def)
  have "ledger_inv (hl', if h = -1 then U else insert h U, T) \<and> (h \<noteq> -1 \<longrightarrow> h \<in> T - U)"
  proof (cases "el_free (free_list hl) = {}")
    case True
    with assms alloc_empty [OF ok True] show ?thesis by simp
  next
    case False
    with ok show ?thesis
    proof (rule alloc_ok)
      fix hl1 assume "trove_ledger_handle_alloc (Some hl) = Some (Some hl1, Max (el_free (free_list hl)))"
        and hl1: "ledger_ok hl1" "ledger_handles hl1 = ledger_handles hl - {Max (el_free (free_list hl))}"
        "Max (el_free (free_list hl)) \<in> ledger_handles hl"
      with assms(2) have eq: "hl' = hl1" "h = Max (el_free (free_list hl))" by auto
      have "h \<in> T" "h < HANDLE_MAX" using assms(1) hl1(3) unfolding eq by (auto simp: ledger_inv_def)
      with assms(1) hl1 show ?thesis unfolding eq by (auto simp: ledger_inv_def)
    qed
  qed
  then show "ledger_inv (hl', if h = -1 then U else insert h U, T)" "h \<noteq> -1 \<Longrightarrow> h \<in> T - U"
    by blast+
qed

lemma ledger_inv_alloc_range:
  assumes "ledger_inv (hl, U, T)" "trove_ledger_handle_alloc_from_range (Some hl) q = Some (Some hl', h)"
    "0 < ext_first q" "ext_first q \<le> ext_last q"
  shows "ledger_inv (hl', if h = 0 then U else insert h U, T)"
proof -
  have ok: "ledger_ok hl" using assms(1) by (simp add: ledger_inv_def)
  obtain hl1 h1 where "trove_ledger_handle_alloc_from_range (Some hl) q = Some (Some hl1, h1)"
      and hl1: "ledger_ok hl1" "ledger_handles hl1 = ledger_handles hl - {h1}"
      "if h1 = 0 then handles_of q \<inter> el_free (free_list hl) = {}
       else h1 \<in> handles_of q \<inter> el_free (free_list hl)"
    by (rule alloc_from_range_ok [OF ok assms(3,4)])
  with assms(2) have eq: "hl1 = hl'" "h1 = h" by auto
  show ?thesis
  proof (cases "h = 0")
    case True
    have "0 \<notin> ledger_handles hl" using assms(1) by (auto simp: ledger_inv_def)
    with True hl1(1,2) assms(1) show ?thesis unfolding eq by (simp add: ledger_inv_def)
  next
    case False
    with hl1(3) have "h \<in> ledger_handles hl" unfolding eq by (simp add: free_in_ledger)
    with False hl1(1,2) assms(1) show ?thesis unfolding eq by (auto simp: ledger_inv_def)
  qed
qed

lemma ledger_inv_set_used:
  assumes "ledger_inv (hl, U, T)" "trove_handle_remove hl h = Some (hl', rc)"
  shows "ledger_inv (hl', if rc = 0 then insert h U else U, T)"
proof (cases "h \<in> el_free (free_list hl)")
  case True
  have "ledger_ok hl" using assms(1) by (simp add: ledger_inv_def)
  then obtain hl1 where hl1: "trove_handle_remove hl h = Some (hl1, 0)" "ledger_ok hl1"
    "ledger_handles hl1 = ledger_handles hl - {h}" using True by (rule remove_ok)
  have "h \<in> ledger_handles hl" using True by (rule free_in_ledger)
  with hl1 assms show ?thesis by (auto simp: ledger_inv_def)
next
  case False
  then have "trove_handle_remove hl h = Some (hl, -1)"
    using assms(1) by (simp add: trove_handle_remove_def handle_remove_absent ledger_inv_def ledger_ok_def)
  with assms show ?thesis by simp
qed

lemma ledger_inv_free:
  assumes "ledger_inv (hl, U, T)" "h \<in> U" "trove_ledger_handle_free purgatory now hl h = Some (hl', rc)"
  shows "ledger_inv (hl', U - {h}, T)"
proof -
  have h: "ledger_ok hl" "0 < h" "h < HANDLE_MAX" "h \<notin> ledger_handles hl"
    using assms(1,2) by (auto simp: ledger_inv_def)
  obtain hl1 where "trove_ledger_handle_free purgatory now hl h = Some (hl1, 0)" "ledger_ok hl1"
      "ledger_handles hl1 = insert h (ledger_handles hl)"
    by (rule handle_free_ok [OF h])
  with assms h(4) show ?thesis by (auto simp: ledger_inv_def)
qed

lemma ledger_inv_add:
  assumes "ledger_inv (hl, U, T)" "extent_ok e" "handles_of e \<inter> T = {}"
    "trove_handle_ledger_addextent now hl e = Some (hl', rc)"
  shows "ledger_inv (hl', U, T \<union> handles_of e)"
proof -
  have disj: "ledger_ok hl" "handles_of e \<inter> ledger_handles hl = {}"
    using assms(1,3) by (auto simp: ledger_inv_def)
  obtain hl1 where "trove_handle_ledger_addextent now hl e = Some (hl1, 0)" "ledger_ok hl1"
      "ledger_handles hl1 = ledger_handles hl \<union> handles_of e"
    by (rule ledger_addextent_ok [OF disj(1) assms(2) disj(2)])
  moreover have "\<forall>h \<in> handles_of e. 0 < h \<and> h < HANDLE_MAX"
    using assms(2) unfolding handles_of_def extent_ok_def
    by (meson atLeastAtMost_iff le_less_trans less_le_trans)
  ultimately show ?thesis using assms by (auto simp: ledger_inv_def)
qed

lemma ledger_step_inv: "ledger_step s s' \<Longrightarrow> ledger_inv s \<Longrightarrow> ledger_inv s'"
proof (induction rule: ledger_step.induct)
  case (threshold hl U T n)
  then show ?case
    by (simp add: ledger_inv_def ledger_ok_def ledger_handles_def trove_handle_ledger_set_threshold_def)
qed (blast intro: ledger_inv_alloc(1) ledger_inv_alloc_range ledger_inv_set_used ledger_inv_free
  ledger_inv_add)+

lemma ledger_reachable_inv: "ledger_reachable s \<Longrightarrow> ledger_inv s"
proof (induction rule: ledger_reachable.induct)
  case (start t1 t2 t3)
  show ?case by (simp add: ledger_inv_def ledger_init_ok)
qed (rule ledger_step_inv)

section \<open>Properties\<close>

text \<open>A ledger that has just been given the handles 20 to 29.\<close>

definition ex_ledger :: handle_ledger where
  "ex_ledger = (trove_handle_ledger_init zero_timeval zero_timeval zero_timeval)
     \<lparr>free_list := \<lparr>num_extents = 1, num_handles = 10, timestamp = zero_timeval,
                    index = Avlnode NULL (ex_extent 20 29) NONE NULL\<rparr>\<rparr>"

lemma ex_ledger_added:
  "trove_handle_ledger_addextent zero_timeval
     (trove_handle_ledger_init zero_timeval zero_timeval zero_timeval) (ex_extent 20 29)
   = Some (ex_ledger, 0)"
  by (simp add: trove_handle_ledger_addextent_def trove_handle_ledger_init_def extentlist_init_def
      extentlist_addextent_def extentlist_coalesce_extent_def coalesce_greater_def coalesce_insert_def
      extent_init_def ex_ledger_def ex_extent_def zero_extentlist_def)

lemma ex_ledger_reachable: "ledger_reachable (ex_ledger, {}, {20..29})"
proof -
  have "ledger_step (trove_handle_ledger_init zero_timeval zero_timeval zero_timeval, {}, {})
      (ex_ledger, {}, {} \<union> handles_of (ex_extent 20 29))"
    by (rule add_range [OF _ _ ex_ledger_added]) (simp_all add: extent_ok_def ex_extent_def)
  then show ?thesis
    using ledger_reachable.step [OF start] by (simp add: handles_of_def ex_extent_def)
qed

lemma ex_ledger_ok: "ledger_ok ex_ledger" "ledger_handles ex_ledger = {20..29}"
  using ledger_reachable_inv [OF ex_ledger_reachable] by (simp_all add: ledger_inv_def)

text \<open>
  C2. In every run of a ledger no handle is lost and none is given out twice: the handles in use
  and those the ledger holds are disjoint and together are the handles ever added. An allocation
  always returns, with a handle that is not in use, unless no handle is available.
\<close>

theorem ledger_never_allocates_twice:
  assumes "ledger_reachable (hl, U, T)"
  shows "U \<inter> ledger_handles hl = {} \<and> U \<union> ledger_handles hl = T \<and>
    (\<exists>hl' h. trove_ledger_handle_alloc (Some hl) = Some (Some hl', h) \<and>
       (if el_free (free_list hl) = {} then h = -1 \<and> hl' = hl else h \<in> T \<and> h \<notin> U \<and> h \<noteq> -1))"
proof -
  have inv: "ledger_inv (hl, U, T)" using assms by (rule ledger_reachable_inv)
  then have ok: "ledger_ok hl" by (simp add: ledger_inv_def)
  have "\<exists>hl' h. trove_ledger_handle_alloc (Some hl) = Some (Some hl', h) \<and>
     (if el_free (free_list hl) = {} then h = -1 \<and> hl' = hl else h \<in> T \<and> h \<notin> U \<and> h \<noteq> -1)"
  proof (cases "el_free (free_list hl) = {}")
    case True
    then show ?thesis using alloc_empty [OF ok True] by simp
  next
    case False
    obtain hl' where hl': "trove_ledger_handle_alloc (Some hl) = Some (Some hl', Max (el_free (free_list hl)))"
        "Max (el_free (free_list hl)) \<in> ledger_handles hl"
      by (rule alloc_ok [OF ok False])
    then have "Max (el_free (free_list hl)) \<noteq> -1" using inv by (force simp: ledger_inv_def)
    with hl' False ledger_inv_alloc(2) [OF inv hl'(1)] show ?thesis by simp
  qed
  with inv show ?thesis by (simp add: ledger_inv_def)
qed

theorem ledger_never_allocates_twice_witness:
  "\<exists>hl'. trove_ledger_handle_alloc (Some ex_ledger) = Some (Some hl', 29) \<and>
     (29 :: TROVE_handle) \<in> {20..29} \<and> {} \<union> ledger_handles ex_ledger = {20..29}"
proof -
  have "trove_ledger_handle_alloc (Some ex_ledger) =
      Some (Some (ex_ledger\<lparr>free_list := \<lparr>num_extents = 1, num_handles = 9, timestamp = zero_timeval,
        index = Avlnode NULL (ex_extent 20 28) NONE NULL\<rparr>\<rparr>), 29)"
    by (simp add: trove_ledger_handle_alloc_def ex_ledger_def extentlist_get_and_dec_extent_def ex_extent_def)
  then show ?thesis
    using ledger_never_allocates_twice [OF ex_ledger_reachable] by simp
qed

text \<open>
  Freeing a handle that the ledger does not hold returns 0 and makes the ledger hold exactly this
  handle in addition; whether or not the lists are recycled, the three lists stay disjoint and
  canonical, and no available handle is withdrawn.
\<close>

theorem ledger_handle_free_returns_handle:
  assumes "ledger_ok hl" "0 < h" "h < HANDLE_MAX" "h \<notin> ledger_handles hl"
  shows "\<exists>hl'. trove_ledger_handle_free purgatory now hl h = Some (hl', 0) \<and> ledger_ok hl' \<and>
    ledger_handles hl' = insert h (ledger_handles hl) \<and> cutoff hl' = cutoff hl \<and>
    el_free (free_list hl) \<subseteq> el_free (free_list hl')"
  by (rule handle_free_ok [OF assms]) blast

theorem ledger_handle_free_returns_handle_witness:
  "\<exists>hl'. trove_ledger_handle_free zero_timeval zero_timeval ex_ledger 77 = Some (hl', 0) \<and>
     ledger_handles hl' = insert 77 {20..29}"
  using ledger_handle_free_returns_handle [OF ex_ledger_ok(1), of 77 zero_timeval zero_timeval]
  by (auto simp: ex_ledger_ok(2))



text \<open>
  The statistics report the number of handles the ledger holds, whichever list they are on.
\<close>

theorem ledger_statistics_count:
  assumes "ledger_ok hl"
  shows "unat (trove_handle_ledger_get_statistics hl) = card (ledger_handles hl)"
proof -
  let ?f = "el_free (free_list hl)" and ?r = "el_free (recently_freed_list hl)"
    and ?o = "el_free (overflow_list hl)"
  have ok: "el_ok (free_list hl)" "el_ok (recently_freed_list hl)" "el_ok (overflow_list hl)"
    and disj: "?f \<inter> ?r = {}" "?f \<inter> ?o = {}" "?r \<inter> ?o = {}"
    using assms by (simp_all add: ledger_ok_def)
  have "card (ledger_handles hl) = card (?f \<union> ?r) + card ?o"
    unfolding ledger_handles_def using disj by (intro card_Un_disjoint) auto
  also have "card (?f \<union> ?r) = card ?f + card ?r" using disj by (intro card_Un_disjoint) auto
  finally have sum: "card (ledger_handles hl) = card ?f + card ?r + card ?o" .
  have "ledger_handles hl \<subseteq> UNIV - {0}"
    using free_bounds(1) [of _ 0] ok by (auto simp: ledger_handles_def)
  then have "card (ledger_handles hl) \<le> card (UNIV - {0 :: TROVE_handle})" by (intro card_mono) auto
  also have "\<dots> < 2 ^ 64" by (simp add: card_word)
  finally have "card (ledger_handles hl) < 2 ^ 64" .
  moreover have "trove_handle_ledger_get_statistics hl = of_nat (card (ledger_handles hl))"
    by (simp add: trove_handle_ledger_get_statistics_def count_card ok sum)
  ultimately show ?thesis by (simp add: unat_of_nat take_bit_nat_eq_self)
qed

theorem ledger_statistics_count_witness:
  "ledger_ok ex_ledger \<and> card (ledger_handles ex_ledger) = 10"
proof -
  have "trove_handle_ledger_get_statistics ex_ledger = 10"
    by (simp add: trove_handle_ledger_get_statistics_def ex_ledger_def extentlist_count_def
        extent_count_def ex_extent_def trove_handle_ledger_init_def extentlist_init_def zero_extentlist_def)
  then show ?thesis using ledger_statistics_count [OF ex_ledger_ok(1)] ex_ledger_ok(1) by simp
qed

end
