(* ===== verification/Quick_Hash.thy ===== *)
theory Quick_Hash
  imports Ofs_Prelude
begin

text \<open>
  The chained hash table of \<open>src/common/quickhash/quickhash.h\<close>. A table holds the hash and the
  comparison function of its user. The links are the user's entries; the doubly linked list at
  an index is a list of entries, in order. An index outside the array is a memory fault, \<open>None\<close>.
  Searching returns a pointer to an entry through which the user changes it: \<open>qhash_store\<close>
  is such a write.

  The locale \<open>qhash_user\<close> states what the table relies on: the comparison tests the key of an
  entry, and the hash of a key is an index of the table. It shows that the table then is a finite
  map. The users of the table interpret it.
\<close>

section \<open>Data and operations\<close>

record ('k, 'v) qhash_table =
  qarray :: "'v list list"
  table_size :: int
  compare :: "'k \<Rightarrow> 'v \<Rightarrow> bool"
  hash :: "'k \<Rightarrow> int \<Rightarrow> int"

definition qhash_init :: "('k \<Rightarrow> 'v \<Rightarrow> bool) \<Rightarrow> ('k \<Rightarrow> int \<Rightarrow> int) \<Rightarrow> int \<Rightarrow> ('k, 'v) qhash_table" where
  "qhash_init cmp hsh n =
     \<lparr>qarray = replicate (nat n) [], table_size = n, compare = cmp, hash = hsh\<rparr>"

definition qhash_chain :: "('k, 'v) qhash_table \<Rightarrow> int \<Rightarrow> 'v list option" where
  "qhash_chain t i = (if 0 \<le> i \<and> i < int (length (qarray t)) then Some (qarray t ! nat i) else None)"

definition qhash_set_chain :: "('k, 'v) qhash_table \<Rightarrow> int \<Rightarrow> 'v list \<Rightarrow> ('k, 'v) qhash_table" where
  "qhash_set_chain t i vs = t\<lparr>qarray := (qarray t)[nat i := vs]\<rparr>"

definition qhash_add :: "('k, 'v) qhash_table \<Rightarrow> 'k \<Rightarrow> 'v \<Rightarrow> ('k, 'v) qhash_table option" where
  "qhash_add t key link =
     (let indx = hash t key (table_size t)
      in map_option (\<lambda>vs. qhash_set_chain t indx (vs @ [link])) (qhash_chain t indx))"

definition qhash_search :: "('k, 'v) qhash_table \<Rightarrow> 'k \<Rightarrow> 'v option option" where
  "qhash_search t key =
     (let indx = hash t key (table_size t)
      in map_option (\<lambda>vs. List.find (compare t key) vs) (qhash_chain t indx))"

definition qhash_search_at_index :: "('k, 'v) qhash_table \<Rightarrow> int \<Rightarrow> 'v option option" where
  "qhash_search_at_index t indx =
     (if indx \<ge> table_size t then Some None
      else map_option (\<lambda>vs. case vs of [] \<Rightarrow> None | v # _ \<Rightarrow> Some v) (qhash_chain t indx))"

text \<open>The list without its first entry that satisfies the test, and that entry.\<close>

fun unlink_first :: "('v \<Rightarrow> bool) \<Rightarrow> 'v list \<Rightarrow> 'v list \<times> 'v option" where
  "unlink_first P [] = ([], None)"
| "unlink_first P (v # vs) =
     (if P v then (vs, Some v) else case unlink_first P vs of (vs', r) \<Rightarrow> (v # vs', r))"

definition qhash_search_and_remove :: "('k, 'v) qhash_table \<Rightarrow> 'k
    \<Rightarrow> (('k, 'v) qhash_table \<times> 'v option) option" where
  "qhash_search_and_remove t key =
     (let indx = hash t key (table_size t)
      in map_option (\<lambda>vs. case unlink_first (compare t key) vs of (vs', r) \<Rightarrow> (qhash_set_chain t indx vs', r))
           (qhash_chain t indx))"

definition qhash_search_and_remove_at_index :: "('k, 'v) qhash_table \<Rightarrow> int
    \<Rightarrow> (('k, 'v) qhash_table \<times> 'v option) option" where
  "qhash_search_and_remove_at_index t indx =
     (if indx \<ge> table_size t then Some (t, None)
      else map_option (\<lambda>vs. case vs of [] \<Rightarrow> (t, None) | v # vs' \<Rightarrow> (qhash_set_chain t indx vs', Some v))
             (qhash_chain t indx))"

text \<open>The entry that a search for the key returns is replaced, as by a write through the pointer.\<close>

fun store_first :: "('v \<Rightarrow> bool) \<Rightarrow> 'v \<Rightarrow> 'v list \<Rightarrow> 'v list" where
  "store_first P w [] = []"
| "store_first P w (v # vs) = (if P v then w # vs else v # store_first P w vs)"

definition qhash_store :: "('k, 'v) qhash_table \<Rightarrow> 'k \<Rightarrow> 'v \<Rightarrow> ('k, 'v) qhash_table option" where
  "qhash_store t key w =
     (let indx = hash t key (table_size t)
      in map_option (\<lambda>vs. qhash_set_chain t indx (store_first (compare t key) w vs)) (qhash_chain t indx))"

definition qhash_entries :: "('k, 'v) qhash_table \<Rightarrow> 'v list" where
  "qhash_entries t = concat (qarray t)"

section \<open>Chains\<close>

lemma find_concat_chain:
  assumes "i < length xss" "\<forall>j < length xss. j \<noteq> i \<longrightarrow> (\<forall>v \<in> set (xss ! j). \<not> P v)"
  shows "List.find P (concat xss) = List.find P (xss ! i)"
  using assms
proof (induction xss arbitrary: i)
  case (Cons xs xss)
  show ?case
  proof (cases i)
    case 0
    then have "\<forall>v \<in> set (concat xss). \<not> P v"
      using Cons.prems(2) by (fastforce simp: in_set_conv_nth)
    with 0 show ?thesis by (auto simp: find_append find_absent split: option.splits)
  next
    case (Suc i')
    have "\<forall>v \<in> set xs. \<not> P v" using Cons.prems(2) Suc by force
    moreover have "List.find P (concat xss) = List.find P (xss ! i')"
      using Cons.prems Suc by (intro Cons.IH) force+
    ultimately show ?thesis using Suc by (simp add: find_append find_absent)
  qed
qed simp

lemma unlink_first_key:
  "distinct (map key vs) \<Longrightarrow>
   unlink_first (\<lambda>v. key v = k) vs = (filter (\<lambda>v. key v \<noteq> k) vs, List.find (\<lambda>v. key v = k) vs)"
  by (induction vs) (auto simp: filter_key_absent)

lemma find_filter_key:
  "List.find (\<lambda>v. key v = k') (filter (\<lambda>v. key v \<noteq> k) vs) =
   (if k' = k then None else List.find (\<lambda>v. key v = k') vs)"
  by (induction vs) auto

lemma store_first_key:
  "key w = k \<Longrightarrow> map key (store_first (\<lambda>v. key v = k) w vs) = map key vs"
  "set (store_first P w vs) \<subseteq> insert w (set vs)"
  by (induction vs) auto

lemma find_store_key:
  "key w = k \<Longrightarrow>
   List.find (\<lambda>v. key v = k') (store_first (\<lambda>v. key v = k) w vs) =
   (if k' = k then map_option (\<lambda>_. w) (List.find (\<lambda>v. key v = k) vs) else List.find (\<lambda>v. key v = k') vs)"
  by (induction vs) auto

section \<open>The table as a finite map\<close>

text \<open>Every entry is in the chain of its key's hash, and no key occurs twice in a chain.\<close>

definition qhash_ok :: "('v \<Rightarrow> 'k) \<Rightarrow> ('k, 'v) qhash_table \<Rightarrow> bool" where
  "qhash_ok key t \<longleftrightarrow> table_size t = int (length (qarray t)) \<and>
     (\<forall>i < length (qarray t). distinct (map key (qarray t ! i)) \<and>
        (\<forall>v \<in> set (qarray t ! i). hash t (key v) (table_size t) = int i))"

definition qhash_map :: "('v \<Rightarrow> 'k) \<Rightarrow> ('k, 'v) qhash_table \<Rightarrow> 'k \<Rightarrow> 'v option" where
  "qhash_map key t k = List.find (\<lambda>v. key v = k) (qhash_entries t)"

locale qhash_user =
  fixes cmp :: "'k \<Rightarrow> 'v \<Rightarrow> bool" and hsh :: "'k \<Rightarrow> int \<Rightarrow> int" and key :: "'v \<Rightarrow> 'k" and n :: int
  assumes cmp_key: "cmp k v \<longleftrightarrow> key v = k"
    and hash_range: "0 \<le> hsh k n" "hsh k n < n"
begin

definition managed :: "('k, 'v) qhash_table \<Rightarrow> bool" where
  "managed t \<longleftrightarrow> qhash_ok key t \<and> compare t = cmp \<and> hash t = hsh \<and> table_size t = n"

abbreviation slot :: "'k \<Rightarrow> nat" where
  "slot k \<equiv> nat (hsh k n)"

lemma cmp_eq: "cmp k = (\<lambda>v. key v = k)"
  by (simp add: cmp_key fun_eq_iff)

lemma managed_slot: "managed t \<Longrightarrow> slot k < length (qarray t)"
  using hash_range [of k] by (auto simp: managed_def qhash_ok_def)

lemma managed_chain:
  "managed t \<Longrightarrow> qhash_chain t (hsh k n) = Some (qarray t ! slot k)"
  using hash_range [of k] managed_slot [of t k] by (simp add: qhash_chain_def managed_def)

lemma managed_index: "managed t \<Longrightarrow> hash t k (table_size t) = hsh k n"
  by (simp add: managed_def)

lemma managed_compare: "managed t \<Longrightarrow> compare t k = (\<lambda>v. key v = k)"
  by (simp add: managed_def cmp_eq)

lemmas managed_access = managed_index managed_chain managed_compare

lemma map_slot:
  assumes "managed t"
  shows "qhash_map key t k = List.find (\<lambda>v. key v = k) (qarray t ! slot k)"
  unfolding qhash_map_def qhash_entries_def
proof (rule find_concat_chain [OF managed_slot [OF assms]], intro allI impI ballI)
  fix j v assume "j < length (qarray t)" "j \<noteq> slot k" "v \<in> set (qarray t ! j)"
  then show "key v \<noteq> k" using assms by (auto simp: managed_def qhash_ok_def)
qed

lemma managed_set_chain:
  assumes "managed t" "distinct (map key vs)" "\<forall>v \<in> set vs. slot (key v) = slot k"
  shows "managed (qhash_set_chain t (hsh k n) vs)"
proof -
  have "hsh (key v) n = hsh k n" if "v \<in> set vs" for v
    using assms(3) that hash_range by (metis int_nat_eq)
  then show ?thesis
    using assms(1,2) hash_range [of k]
    by (auto simp: managed_def qhash_ok_def qhash_set_chain_def nth_list_update split: if_splits)
qed

lemma map_set_chain:
  assumes "managed t" "managed (qhash_set_chain t (hsh k n) vs)"
  shows "qhash_map key (qhash_set_chain t (hsh k n) vs) k' =
    (if slot k' = slot k then List.find (\<lambda>v. key v = k') vs else qhash_map key t k')"
  using managed_slot [OF assms(1)]
  unfolding map_slot [OF assms(1)] map_slot [OF assms(2)] by (auto simp: qhash_set_chain_def)

lemma chain_facts:
  assumes "managed t"
  shows "distinct (map key (qarray t ! slot k))" "\<forall>v \<in> set (qarray t ! slot k). slot (key v) = slot k"
  using assms managed_slot [OF assms, of k] by (auto simp: managed_def qhash_ok_def)

lemma init_managed:
  "managed (qhash_init cmp hsh n)" "qhash_map key (qhash_init cmp hsh n) = Map.empty"
proof -
  have "0 < n" using hash_range [of undefined] by linarith
  then show "managed (qhash_init cmp hsh n)" by (simp add: managed_def qhash_ok_def qhash_init_def)
  show "qhash_map key (qhash_init cmp hsh n) = Map.empty"
    by (simp add: qhash_map_def qhash_entries_def qhash_init_def fun_eq_iff)
qed

lemma search_map: "managed t \<Longrightarrow> qhash_search t k = Some (qhash_map key t k)"
  by (simp add: qhash_search_def map_slot managed_access)

lemma add_map:
  assumes "managed t" "qhash_map key t (key v) = None"
  obtains t' where "qhash_add t (key v) v = Some t'" "managed t'"
    "qhash_map key t' = (qhash_map key t)(key v \<mapsto> v)"
proof -
  let ?vs = "qarray t ! slot (key v) @ [v]" and ?k = "key v"
  let ?t' = "qhash_set_chain t (hsh ?k n) ?vs"
  have new: "\<forall>x \<in> set (qarray t ! slot ?k). key x \<noteq> ?k"
    using assms by (simp add: map_slot find_None_iff)
  have "managed ?t'"
  proof (rule managed_set_chain [OF assms(1)])
    show "distinct (map key ?vs)" using chain_facts(1) [OF assms(1), of ?k] new by auto
    show "\<forall>x \<in> set ?vs. slot (key x) = slot ?k" using chain_facts(2) [OF assms(1), of ?k] by simp
  qed
  moreover have "qhash_map key ?t' k' = ((qhash_map key t)(?k \<mapsto> v)) k'" for k'
    using assms new
    by (auto simp: map_set_chain [OF assms(1) \<open>managed ?t'\<close>] map_slot [OF assms(1)] find_append find_absent
        split: option.splits)
  ultimately show thesis
    by (intro that [of ?t']) (auto simp: qhash_add_def Let_def managed_access [OF assms(1)])
qed

lemma remove_map:
  assumes "managed t"
  obtains t' where "qhash_search_and_remove t k = Some (t', qhash_map key t k)" "managed t'"
    "qhash_map key t' = (qhash_map key t)(k := None)"
proof -
  let ?vs = "filter (\<lambda>v. key v \<noteq> k) (qarray t ! slot k)"
  let ?t' = "qhash_set_chain t (hsh k n) ?vs"
  note facts = chain_facts [OF assms, of k]
  have "managed ?t'"
    using facts by (intro managed_set_chain assms) (auto simp: distinct_map inj_on_def)
  moreover have "qhash_map key ?t' k' = ((qhash_map key t)(k := None)) k'" for k'
    by (simp add: map_set_chain [OF assms \<open>managed ?t'\<close>] map_slot [OF assms] find_filter_key)
  ultimately show thesis
    by (intro that [of ?t'])
       (auto simp: qhash_search_and_remove_def Let_def managed_access [OF assms] unlink_first_key [OF facts(1)]
          map_slot [OF assms])
qed

lemma store_map:
  assumes "managed t" "qhash_map key t (key w) = Some v"
  obtains t' where "qhash_store t (key w) w = Some t'" "managed t'"
    "qhash_map key t' = (qhash_map key t)(key w \<mapsto> w)"
proof -
  let ?k = "key w"
  let ?vs = "store_first (\<lambda>v. key v = ?k) w (qarray t ! slot ?k)"
  let ?t' = "qhash_set_chain t (hsh ?k n) ?vs"
  note facts = chain_facts [OF assms(1), of ?k]
  have "managed ?t'"
  proof (rule managed_set_chain [OF assms(1)])
    show "distinct (map key ?vs)" using facts(1) by (simp add: store_first_key(1))
    show "\<forall>v \<in> set ?vs. slot (key v) = slot ?k"
      using facts(2) store_first_key(2) [of "\<lambda>v. key v = ?k" w] by blast
  qed
  moreover have "qhash_map key ?t' k' = ((qhash_map key t)(?k \<mapsto> w)) k'" for k'
    using assms(2)
    by (simp add: map_set_chain [OF assms(1) \<open>managed ?t'\<close>] map_slot [OF assms(1)] find_store_key)
  ultimately show thesis
    by (intro that [of ?t']) (auto simp: qhash_store_def Let_def managed_access [OF assms(1)])
qed

text \<open>Every entry can be found again under its key.\<close>

lemma entry_found:
  assumes "managed t" "v \<in> set (qhash_entries t)"
  shows "qhash_search t (key v) = Some (Some v)"
proof -
  obtain vs where "vs \<in> set (qarray t)" "v \<in> set vs"
    using assms(2) by (auto simp: qhash_entries_def)
  then obtain i where i: "i < length (qarray t)" "v \<in> set (qarray t ! i)"
    by (auto simp: in_set_conv_nth [of vs])
  then have "hsh (key v) n = int i" using assms(1) by (auto simp: managed_def qhash_ok_def)
  moreover have "inj_on key (set (qarray t ! i))"
    using assms(1) i(1) by (auto simp: managed_def qhash_ok_def distinct_map)
  ultimately show ?thesis
    using i(2) by (simp add: search_map [OF assms(1)] map_slot [OF assms(1)] find_key_iff)
qed

end

end
