(* ===== verification/C_Strings.thy ===== *)
theory C_Strings
  imports Ofs_Prelude
begin

text \<open>
  The functions of the C library that the parsers of the code call: \<open>isspace\<close>, \<open>strtoull\<close>
  with base 0, \<open>atoi\<close>, \<open>atoll\<close> and \<open>strtok_r\<close>, in the C locale. A C string is the list of its
  characters without the terminating NUL.

  The lemmas relate them to decimal printing: a number is read back from its digits when what
  follows is not a digit.
\<close>

section \<open>Characters\<close>

definition c_isspace :: "char \<Rightarrow> bool" where
  "c_isspace c \<longleftrightarrow> (let n = of_char c :: nat in n = 32 \<or> (9 \<le> n \<and> n \<le> 13))"

text \<open>The value of a digit or letter in a base up to 36; anything else has no value below 36.\<close>

definition digit_num :: "char \<Rightarrow> nat" where
  "digit_num c = (let n = of_char c :: nat
     in if 48 \<le> n \<and> n \<le> 57 then n - 48
        else if 97 \<le> n \<and> n \<le> 122 then n - 87
        else if 65 \<le> n \<and> n \<le> 90 then n - 55 else 99)"

definition digit_char :: "nat \<Rightarrow> char" where
  "digit_char d = char_of (48 + d)"

lemma digit_num_char [simp]: "d < 10 \<Longrightarrow> digit_num (digit_char d) = d"
  by (simp add: digit_num_def digit_char_def)

lemma digit_char_not_space [simp]: "d < 10 \<Longrightarrow> \<not> c_isspace (digit_char d)"
  by (simp add: c_isspace_def digit_char_def Let_def)

lemma digit_char_eq: "d < 10 \<Longrightarrow> digit_char d = c \<longleftrightarrow> 48 + d = of_char c"
  by (simp add: digit_char_def char_of_eq_iff take_bit_nat_eq_self)

lemma digit_char_neq [simp]:
  "d < 10 \<Longrightarrow> digit_char d \<noteq> CHR ''-''" "d < 10 \<Longrightarrow> digit_char d \<noteq> CHR ''+''"
  "d < 10 \<Longrightarrow> digit_char d \<noteq> CHR '':''" "d < 10 \<Longrightarrow> digit_char d \<noteq> CHR '';''"
  "d < 10 \<Longrightarrow> (digit_char d = CHR ''0'') = (d = 0)"
  by (simp_all add: digit_char_eq)

section \<open>Numbers\<close>

text \<open>The number that the longest prefix of digits of a base stands for, and its length.\<close>

definition num_prefix :: "nat \<Rightarrow> string \<Rightarrow> nat \<times> nat" where
  "num_prefix base cs =
     (let ds = takeWhile (\<lambda>c. digit_num c < base) cs
      in (foldl (\<lambda>a c. a * base + digit_num c) 0 ds, length ds))"

text \<open>The sign: whether it is negative, and the characters it takes.\<close>

definition sign_prefix :: "string \<Rightarrow> bool \<times> nat" where
  "sign_prefix cs =
     (case cs of [] \<Rightarrow> (False, 0)
      | c # _ \<Rightarrow> if c = CHR ''-'' then (True, 1) else if c = CHR ''+'' then (False, 1) else (False, 0))"

text \<open>Base 0: a leading 0x before a hexadecimal digit means 16, another leading 0 means 8.\<close>

definition radix_prefix :: "string \<Rightarrow> nat \<times> nat" where
  "radix_prefix cs =
     (case cs of [] \<Rightarrow> (10, 0)
      | c # r \<Rightarrow>
          if c \<noteq> CHR ''0'' then (10, 0)
          else (case r of x # h # _ \<Rightarrow>
                    if (x = CHR ''x'' \<or> x = CHR ''X'') \<and> digit_num h < 16 then (16, 2) else (8, 0)
                | _ \<Rightarrow> (8, 0)))"

text \<open>
  The result is the value and the number of characters read; 0 characters when there is no
  number. A value beyond the range is \<open>ULLONG_MAX\<close>.
\<close>

definition strtoull :: "string \<Rightarrow> 64 word \<times> nat" where
  "strtoull cs =
     (let ws = length (takeWhile c_isspace cs);
          (neg, sg) = sign_prefix (drop ws cs);
          (base, px) = radix_prefix (drop (ws + sg) cs);
          (v, k) = num_prefix base (drop (ws + sg + px) cs)
      in if k = 0 then (0, 0)
         else (if 2 ^ 64 \<le> v then - 1 else if neg then - of_nat v else of_nat v, ws + sg + px + k))"

text \<open>
  \<open>atoll\<close> is \<open>strtoll\<close> with base 10, which is limited to the range of the type; \<open>atoi\<close> is
  \<open>strtol\<close> converted to a 32-bit \<open>int\<close>.
\<close>

definition atoll :: "string \<Rightarrow> int" where
  "atoll cs =
     (let ws = length (takeWhile c_isspace cs);
          (neg, sg) = sign_prefix (drop ws cs);
          (v, k) = num_prefix 10 (drop (ws + sg) cs)
      in if neg then max (- int v) (- (2 ^ 63)) else min (int v) (2 ^ 63 - 1))"

definition atoi :: "string \<Rightarrow> int" where
  "atoi cs = sint (word_of_int (atoll cs) :: 32 word)"

text \<open>The next token and what the save pointer points to afterwards.\<close>

definition strtok_r :: "string \<Rightarrow> char \<Rightarrow> string option \<times> string" where
  "strtok_r cs delim =
     (let r = dropWhile (\<lambda>c. c = delim) cs
      in if r = [] then (None, [])
         else (Some (takeWhile (\<lambda>c. c \<noteq> delim) r), drop 1 (dropWhile (\<lambda>c. c \<noteq> delim) r)))"

section \<open>Decimal printing\<close>

fun decimal :: "nat \<Rightarrow> string" where
  "decimal n = (if n < 10 then [digit_char n] else decimal (n div 10) @ [digit_char (n mod 10)])"

declare decimal.simps [simp del]

lemma decimal_induct [case_names digit more]:
  fixes n :: nat
  assumes "\<And>n. n < 10 \<Longrightarrow> P n" "\<And>n. 10 \<le> n \<Longrightarrow> P (n div 10) \<Longrightarrow> P n"
  shows "P n"
  using assms by (induction n rule: decimal.induct) (metis not_less)

lemma decimal_digits: "c \<in> set (decimal n) \<Longrightarrow> \<exists>d < 10. c = digit_char d"
proof (induction n rule: decimal_induct)
  case (more n)
  from more.prems more.hyps have "c \<in> set (decimal (n div 10)) \<or> c = digit_char (n mod 10)"
    by (subst (asm) decimal.simps) auto
  then show ?case using more.IH by (metis mod_less_divisor zero_less_numeral)
qed (auto simp: decimal.simps)

lemma decimal_not_Nil [simp]: "decimal n \<noteq> []"
  by (subst decimal.simps) simp

lemma decimal_value: "foldl (\<lambda>a c. a * 10 + digit_num c) 0 (decimal n) = n"
  by (induction n rule: decimal_induct) (simp_all add: decimal.simps)

lemma decimal_hd: "\<exists>d < 10. hd (decimal n) = digit_char d \<and> (d = 0 \<longleftrightarrow> n = 0)"
proof (induction n rule: decimal_induct)
  case (more n)
  then have "hd (decimal n) = hd (decimal (n div 10))" by (subst decimal.simps) simp
  with more show ?case by (metis div_greater_zero_iff not_numeral_le_zero zero_less_numeral neq0_conv)
qed (auto simp: decimal.simps)

text \<open>What may follow a number: nothing, or something that is not a digit.\<close>

definition ends_number :: "string \<Rightarrow> bool" where
  "ends_number cs \<longleftrightarrow> (case cs of [] \<Rightarrow> True | c # _ \<Rightarrow> 10 \<le> digit_num c \<and> c \<noteq> CHR ''x'' \<and> c \<noteq> CHR ''X'')"

lemma num_prefix_decimal:
  assumes "ends_number rest"
  shows "num_prefix 10 (decimal n @ rest) = (n, length (decimal n))"
proof -
  have "\<forall>c \<in> set (decimal n). digit_num c < 10" using decimal_digits by fastforce
  moreover have "takeWhile (\<lambda>c. digit_num c < 10) rest = []"
    using assms by (cases rest) (auto simp: ends_number_def)
  ultimately have "takeWhile (\<lambda>c. digit_num c < 10) (decimal n @ rest) = decimal n"
    by (simp add: takeWhile_append2)
  then show ?thesis by (simp add: num_prefix_def decimal_value)
qed

lemma decimal_head:
  "takeWhile c_isspace (decimal n @ rest) = []" "sign_prefix (decimal n @ rest) = (False, 0)"
proof -
  obtain d where d: "d < 10" "hd (decimal n) = digit_char d" using decimal_hd by blast
  then obtain r where "decimal n @ rest = digit_char d # r"
    by (metis append_Cons decimal_not_Nil list.collapse)
  with d(1) show "takeWhile c_isspace (decimal n @ rest) = []" "sign_prefix (decimal n @ rest) = (False, 0)"
    by (simp_all add: sign_prefix_def)
qed

lemma strtoull_decimal:
  assumes "ends_number rest" "n < 2 ^ 64"
  shows "strtoull (decimal n @ rest) = (of_nat n, length (decimal n))"
proof (cases "n = 0")
  case True
  have dec: "decimal 0 = [CHR ''0'']" by (simp add: decimal.simps)
  have "radix_prefix (CHR ''0'' # rest) = (8, 0)"
    using assms(1) by (auto simp: radix_prefix_def ends_number_def split: list.splits)
  moreover have "num_prefix 8 (CHR ''0'' # rest) = (0, 1)"
    using assms(1) by (cases rest) (auto simp: num_prefix_def ends_number_def digit_num_def)
  ultimately show ?thesis
    using decimal_head [of 0 rest] True dec by (simp add: strtoull_def)
next
  case False
  obtain d where d: "d < 10" "hd (decimal n) = digit_char d" "d \<noteq> 0" using decimal_hd [of n] False by blast
  then obtain r where "decimal n @ rest = digit_char d # r"
    by (metis append_Cons decimal_not_Nil list.collapse)
  then have "radix_prefix (decimal n @ rest) = (10, 0)"
    using d(1,3) by (simp add: radix_prefix_def)
  with num_prefix_decimal [OF assms(1), of n] decimal_head [of n rest] assms(2) show ?thesis
    by (simp add: strtoull_def)
qed

lemma atoll_decimal:
  assumes "ends_number rest" "n < 2 ^ 63"
  shows "atoll (decimal n @ rest) = int n"
  using num_prefix_decimal [OF assms(1), of n] decimal_head [of n rest] assms(2)
  by (simp add: atoll_def min_def)

lemma atoi_decimal:
  assumes "ends_number rest" "n < 2 ^ 31"
  shows "atoi (decimal n @ rest) = int n"
proof -
  have "atoll (decimal n @ rest) = int n" using assms by (simp add: atoll_decimal)
  then show ?thesis unfolding atoi_def using assms(2) by (simp only:) (rule sint32_small; simp)
qed

end
