(* ===== verification/Handle_Ranges.thy ===== *)
theory Handle_Ranges
  imports Extent_Index C_Strings
begin

text \<open>
  Ranges of handles: the parser \<open>PINT_parse_handle_ranges\<close> of \<open>src/common/misc/str-utils.c\<close>
  and the lists and arrays of extents of \<open>src/common/misc/extent-utils.c\<close>. The C type
  \<open>PVFS_handle_extent\<close> has the members of \<open>TROVE_handle_extent\<close>; lists and arrays of extents
  are lists.

  A read behind the terminator of the string is the outcome \<open>Fault\<close>. The loop that collects the
  ranges does not always end; \<open>None\<close> is the value of a loop that does not.
\<close>

section \<open>Parsing a range\<close>

datatype 'a outcome = Fault | Done 'a

definition char_at :: "string \<Rightarrow> nat \<Rightarrow> char" where
  "char_at s p = (if p < length s then s ! p else CHR 0x00)"

definition skip_space :: "string \<Rightarrow> nat \<Rightarrow> nat" where
  "skip_space s p = p + length (takeWhile c_isspace (drop p s))"

text \<open>
  The result is the return value, the extent written to \<open>out_extent\<close> and the new \<open>status\<close>.
\<close>

definition PINT_parse_handle_ranges :: "string \<Rightarrow> nat \<Rightarrow> (int \<times> TROVE_handle_extent \<times> nat) outcome" where
  "PINT_parse_handle_ranges range_str status =
     (if length range_str < status then Fault
      else
        let (v, k) = strtoull (drop status range_str);
            out_extent = \<lparr>ext_first = v, ext_last = v\<rparr>
        in if k = 0 then Done (0, out_extent, status)
           else
             let endchar = skip_space range_str (status + k);
                 p = endchar + 1
             in if char_at range_str endchar = CHR ''-'' then
                  let (v', k') = strtoull (drop p range_str);
                      endchar' = skip_space range_str (p + k');
                      endchar'' = (if char_at range_str endchar' = CHR '','' then endchar' + 1 else endchar')
                  in Done (1, out_extent\<lparr>ext_last := v'\<rparr>, endchar'')
                else if char_at range_str endchar = CHR '','' \<or> char_at range_str endchar = CHR 0x00
                then Done (1, out_extent, p)
                else Done (- 1, out_extent, status))"

text \<open>The loop goes on while the return value is not 0, so also after an error.\<close>

partial_function (option) create_extent_loop :: "string \<Rightarrow> nat \<Rightarrow> TROVE_handle_extent list
    \<Rightarrow> TROVE_handle_extent list outcome option" where
  "create_extent_loop extent_str status extent_list =
     (case PINT_parse_handle_ranges extent_str status of
        Fault \<Rightarrow> Some Fault
      | Done (rc, cur_extent, status') \<Rightarrow>
          if rc \<noteq> 0 then create_extent_loop extent_str status' (extent_list @ [cur_extent])
          else Some (Done extent_list))"

definition PINT_create_extent_list :: "string \<Rightarrow> TROVE_handle_extent list outcome option" where
  "PINT_create_extent_list extent_str = create_extent_loop extent_str 0 []"

section \<open>Membership and size\<close>

definition PINT_handle_in_extent :: "TROVE_handle_extent \<Rightarrow> TROVE_handle \<Rightarrow> bool" where
  "PINT_handle_in_extent ext handle \<longleftrightarrow> handle \<ge> ext_first ext \<and> handle \<le> ext_last ext"

fun PINT_handle_in_extent_array :: "TROVE_handle_extent list \<Rightarrow> TROVE_handle \<Rightarrow> bool" where
  "PINT_handle_in_extent_array [] handle = False"
| "PINT_handle_in_extent_array (e # es) handle =
     (if PINT_handle_in_extent e handle then True else PINT_handle_in_extent_array es handle)"

fun PINT_handle_in_extent_list :: "TROVE_handle_extent list \<Rightarrow> TROVE_handle \<Rightarrow> bool" where
  "PINT_handle_in_extent_list [] handle = False"
| "PINT_handle_in_extent_list (cur # rest) handle =
     (if PINT_handle_in_extent cur handle then True else PINT_handle_in_extent_list rest handle)"

fun extent_array_count_from :: "64 word \<Rightarrow> TROVE_handle_extent list \<Rightarrow> 64 word" where
  "extent_array_count_from count [] = count"
| "extent_array_count_from count (e # es) =
     extent_array_count_from (count + (ext_last e - ext_first e + 1)) es"

definition PINT_extent_array_count_total :: "TROVE_handle_extent list \<Rightarrow> 64 word" where
  "PINT_extent_array_count_total extents = extent_array_count_from 0 extents"

lemma in_extent_list_iff: "PINT_handle_in_extent_list es h \<longleftrightarrow> h \<in> cover (set es)"
  by (induction es) (auto simp: PINT_handle_in_extent_def handles_of_def)

lemma in_extent_array_iff: "PINT_handle_in_extent_array es h \<longleftrightarrow> h \<in> cover (set es)"
  by (induction es) (auto simp: PINT_handle_in_extent_def handles_of_def)

section \<open>Printing ranges\<close>

definition print_range :: "TROVE_handle_extent \<Rightarrow> string" where
  "print_range e = decimal (unat (ext_first e)) @ CHR ''-'' # decimal (unat (ext_last e))"

definition print_prefix :: "TROVE_handle_extent list \<Rightarrow> string" where
  "print_prefix es = concat (map (\<lambda>e. print_range e @ '','') es)"

definition print_ranges :: "TROVE_handle_extent list \<Rightarrow> string" where
  "print_ranges es = (if es = [] then [] else print_prefix (butlast es) @ print_range (last es))"

lemma ends_number_sep [simp]:
  "ends_number []" "ends_number (CHR ''-'' # cs)" "ends_number (CHR '','' # cs)"
  by (simp_all add: ends_number_def digit_num_def)

lemma skip_space_none: "p \<le> length s \<Longrightarrow> \<not> c_isspace (char_at s p) \<Longrightarrow> skip_space s p = p"
  by (cases "drop p s") (auto simp: skip_space_def char_at_def nth_via_drop split: if_splits)

lemma char_at_append: "char_at (xs @ ys) (length xs + i) = char_at ys i"
  by (simp add: char_at_def nth_append)

lemma sep_not_space [simp]:
  "\<not> c_isspace (CHR ''-'')" "\<not> c_isspace (CHR '','')" "\<not> c_isspace (CHR 0x00)"
  by (simp_all add: c_isspace_def)

lemma strtoull_unat:
  "ends_number rest \<Longrightarrow> strtoull (decimal (unat (w :: 64 word)) @ rest) = (w, length (decimal (unat w)))"
  using strtoull_decimal [of rest "unat w"] unsigned_less [of w, where 'a = nat] by simp

text \<open>One printed range, followed by nothing or by a comma.\<close>

lemma parse_range:
  assumes "tail = [] \<or> (\<exists>r. tail = CHR '','' # r)"
  shows "PINT_parse_handle_ranges (pre @ print_range e @ tail) (length pre) =
    Done (1, e, length pre + length (print_range e) + (if tail = [] then 0 else 1))"
proof -
  let ?f = "decimal (unat (ext_first e))" and ?l = "decimal (unat (ext_last e))"
  let ?s = "pre @ print_range e @ tail"
  have s: "?s = (pre @ ?f) @ CHR ''-'' # ?l @ tail" by (simp add: print_range_def)
  have s': "?s = (pre @ ?f @ CHR ''-'' # ?l) @ tail" by (simp add: print_range_def)
  have ends: "ends_number tail" using assms by auto
  have first: "strtoull (drop (length pre) ?s) = (ext_first e, length ?f)"
    by (simp add: print_range_def strtoull_unat)
  have dash: "char_at ?s (length pre + length ?f) = CHR ''-''"
    unfolding s using char_at_append [of "pre @ ?f" _ 0] by (simp add: char_at_def)
  then have "skip_space ?s (length pre + length ?f) = length pre + length ?f"
    by (intro skip_space_none) (simp_all add: print_range_def)
  moreover have last: "strtoull (drop (length pre + length ?f + 1) ?s) = (ext_last e, length ?l)"
    using ends by (simp add: print_range_def strtoull_unat)
  let ?q = "length pre + length ?f + 1 + length ?l"
  have q: "?q = length (pre @ ?f @ CHR ''-'' # ?l) + 0" by simp
  have "char_at ?s ?q = char_at tail 0" unfolding s' q by (rule char_at_append)
  then have "char_at ?s ?q = (case tail of [] \<Rightarrow> CHR 0x00 | c # _ \<Rightarrow> c)"
    by (simp add: char_at_def split: list.splits)
  moreover from this have "skip_space ?s ?q = ?q"
    using assms by (intro skip_space_none) (auto simp: print_range_def)
  ultimately show ?thesis
    using assms first dash last
    by (auto simp: PINT_parse_handle_ranges_def Let_def print_range_def split: list.splits)
qed

lemma parse_end: "PINT_parse_handle_ranges s (length s) = Done (0, \<lparr>ext_first = 0, ext_last = 0\<rparr>, length s)"
  by (simp add: PINT_parse_handle_ranges_def strtoull_def sign_prefix_def radix_prefix_def num_prefix_def)

lemma parse_beyond: "length s < p \<Longrightarrow> PINT_parse_handle_ranges s p = Fault"
  by (simp add: PINT_parse_handle_ranges_def)

text \<open>A single number that ends the string: the new position is behind the terminator.\<close>

lemma parse_single:
  "PINT_parse_handle_ranges (pre @ decimal (unat h)) (length pre) =
   Done (1, \<lparr>ext_first = h, ext_last = h\<rparr>, length (pre @ decimal (unat h)) + 1)"
proof -
  let ?s = "pre @ decimal (unat h)"
  have "strtoull (drop (length pre) ?s) = (h, length (decimal (unat h)))"
    using strtoull_unat [of "[]" h] by simp
  moreover have "char_at ?s (length ?s) = CHR 0x00" by (simp add: char_at_def)
  moreover have "skip_space ?s (length ?s) = length ?s" by (simp add: skip_space_def)
  ultimately show ?thesis by (simp add: PINT_parse_handle_ranges_def Let_def)
qed

text \<open>The loop over ranges that are followed by commas.\<close>

lemma create_loop_prefix:
  "create_extent_loop (pre @ print_prefix es @ rest) (length pre) acc =
   create_extent_loop (pre @ print_prefix es @ rest) (length (pre @ print_prefix es)) (acc @ es)"
proof (induction es arbitrary: pre acc)
  case (Cons e es)
  let ?pre = "pre @ print_range e @ '',''"
  have s: "pre @ print_prefix (e # es) @ rest = ?pre @ print_prefix es @ rest"
    by (simp add: print_prefix_def)
  have "PINT_parse_handle_ranges (pre @ print_prefix (e # es) @ rest) (length pre) = Done (1, e, length ?pre)"
    using parse_range [of "'','' @ print_prefix es @ rest" pre e] by (simp add: print_prefix_def)
  then have "create_extent_loop (pre @ print_prefix (e # es) @ rest) (length pre) acc =
      create_extent_loop (?pre @ print_prefix es @ rest) (length ?pre) (acc @ [e])"
    by (subst create_extent_loop.simps) (simp add: s)
  also have "\<dots> = create_extent_loop (?pre @ print_prefix es @ rest) (length (?pre @ print_prefix es)) (acc @ e # es)"
    using Cons.IH [of ?pre "acc @ [e]"] by simp
  finally show ?case by (simp add: print_prefix_def)
qed (simp add: print_prefix_def)

lemma ranges_roundtrip: "PINT_create_extent_list (print_ranges es) = Some (Done es)"
proof (cases es rule: rev_cases)
  case Nil
  then show ?thesis
    using parse_end [of "[]"] by (simp add: PINT_create_extent_list_def print_ranges_def create_extent_loop.simps)
next
  case (snoc es' e)
  let ?s = "print_prefix es' @ print_range e"
  have "create_extent_loop ?s 0 [] = create_extent_loop ?s (length (print_prefix es')) es'"
    using create_loop_prefix [of "[]" es' "print_range e" "[]"] by simp
  also have "\<dots> = create_extent_loop ?s (length ?s) (es' @ [e])"
    using parse_range [of "[]" "print_prefix es'" e] by (subst create_extent_loop.simps) simp
  also have "\<dots> = Some (Done (es' @ [e]))"
    using parse_end [of ?s] by (subst create_extent_loop.simps) simp
  finally show ?thesis using snoc by (simp add: PINT_create_extent_list_def print_ranges_def)
qed

section \<open>Properties\<close>

text \<open>
  C25. Parsing reads back what printing wrote: from any list of ranges, printed as
  \<open>first-last\<close> with commas between them, the parser ends and returns the same list. The handles
  it accepts are then exactly those in one of the ranges.
\<close>

theorem handle_ranges_roundtrip:
  "\<exists>l. PINT_create_extent_list (print_ranges es) = Some (Done l) \<and> l = es \<and>
     (\<forall>h. PINT_handle_in_extent_list l h \<longleftrightarrow> (\<exists>e \<in> set es. ext_first e \<le> h \<and> h \<le> ext_last e))"
  by (simp add: ranges_roundtrip in_extent_list_iff in_cover)

text \<open>
  A list of ranges that ends with a single handle makes the parser read behind the end of the
  string: after the number it skips the terminator as if it were a comma.
\<close>

theorem handle_ranges_single_overrun:
  "PINT_create_extent_list (print_prefix es @ decimal (unat (h :: TROVE_handle))) = Some Fault"
proof -
  let ?s = "print_prefix es @ decimal (unat h)"
  have "create_extent_loop ?s 0 [] = create_extent_loop ?s (length (print_prefix es)) es"
    using create_loop_prefix [of "[]" es "decimal (unat h)" "[]"] by simp
  also have "\<dots> = create_extent_loop ?s (length ?s + 1) (es @ [\<lparr>ext_first = h, ext_last = h\<rparr>])"
    using parse_single [of "print_prefix es" h] by (subst create_extent_loop.simps) simp
  also have "\<dots> = Some Fault"
    using parse_beyond [of ?s "length ?s + 1"] by (subst create_extent_loop.simps) simp
  finally show ?thesis by (simp add: PINT_create_extent_list_def)
qed

lemma create_loop_stuck:
  assumes "create_extent_loop s p acc = Some r"
  shows "\<forall>e. PINT_parse_handle_ranges s p \<noteq> Done (- 1, e, p)"
proof (rule create_extent_loop.raw_induct
    [where P = "\<lambda>s p acc r. \<forall>e. PINT_parse_handle_ranges s p \<noteq> Done (- 1, e, p)", OF _ assms])
  fix loop s p acc and r :: "TROVE_handle_extent list outcome"
  assume IH: "\<And>s p acc r. loop s p acc = Some r \<Longrightarrow>
      \<forall>e. PINT_parse_handle_ranges s p \<noteq> Done (- 1, e, p)"
    and body: "(case PINT_parse_handle_ranges s p of Fault \<Rightarrow> Some Fault
      | Done (rc, cur_extent, status') \<Rightarrow>
          if rc \<noteq> 0 then loop s status' (acc @ [cur_extent]) else Some (Done acc)) = Some r"
  show "\<forall>e. PINT_parse_handle_ranges s p \<noteq> Done (- 1, e, p)"
  proof (intro allI notI)
    fix e assume parse: "PINT_parse_handle_ranges s p = Done (- 1, e, p)"
    then have "loop s p (acc @ [e]) = Some r" using body by simp
    from IH [OF this] parse show False by blast
  qed
qed

text \<open>
  C35. A malformed range makes the loop run forever: the parser reports the error without
  advancing, and the caller takes the error for another range.
\<close>

theorem handle_ranges_malformed_loops:
  assumes "PINT_parse_handle_ranges (print_prefix es @ bad) (length (print_prefix es)) =
    Done (- 1, e, length (print_prefix es))"
  shows "PINT_create_extent_list (print_prefix es @ bad) = None"
proof (cases "create_extent_loop (print_prefix es @ bad) (length (print_prefix es)) es")
  case None
  then show ?thesis
    using create_loop_prefix [of "[]" es bad "[]"] by (simp add: PINT_create_extent_list_def)
next
  case (Some r)
  from create_loop_stuck [OF this] assms show ?thesis by blast
qed

theorem handle_ranges_malformed_loops_witness:
  "PINT_create_extent_list ''5;6'' = None"
proof -
  have "PINT_parse_handle_ranges (print_prefix [] @ ''5;6'') (length (print_prefix [])) =
      Done (- 1, \<lparr>ext_first = 5, ext_last = 5\<rparr>, length (print_prefix []))"
    by (simp add: PINT_parse_handle_ranges_def print_prefix_def strtoull_def sign_prefix_def
        radix_prefix_def num_prefix_def c_isspace_def digit_num_def char_at_def skip_space_def)
  from handle_ranges_malformed_loops [OF this] show ?thesis by (simp add: print_prefix_def)
qed

end
