(* ===== verification/Handle_Mgmt.thy ===== *)
theory Handle_Mgmt
  imports Handle_Ledger Quick_Hash Handle_Ranges
begin

text \<open>
  Handle management per collection, \<open>src/io/trove/trove-handle-mgmt/trove-handle-mgmt.c\<close>: a
  hash table from collection ids to ledgers.

  The state holds the static table (NULL before initialisation, so an option) and the static
  purgatory time. Every public function runs under one mutex, so each is one atomic step. The
  clock is read once per call, as \<open>now\<close>. The result \<open>None\<close> is a memory fault, a failed
  \<open>assert\<close> or a loop that does not end. The storage layer that iterates over the stored handles
  is the parameter \<open>iter\<close>: the outcome of its \<open>k\<close>-th call.
\<close>

section \<open>Data and operations\<close>

record handle_ledger_t =
  coll_id :: TROVE_coll_id
  have_valid_ranges :: int
  ledger :: handle_ledger

type_synonym ledger_table = "(TROVE_coll_id, handle_ledger_t) qhash_table"

record mgmt_state =
  s_fsid_to_ledger_table :: "ledger_table option"
  s_extentlist_purgatory :: timeval

definition TROVE_DEFAULT_HANDLE_PURGATORY_SEC :: int where
  "TROVE_DEFAULT_HANDLE_PURGATORY_SEC = 360"

text \<open>\<open>EXTENTLIST_PURGATORY_DEFAULT\<close> seconds until a timeout is set.\<close>

definition mgmt_start :: mgmt_state where
  "mgmt_start = \<lparr>s_fsid_to_ledger_table = None, s_extentlist_purgatory = \<lparr>tv_sec = 50, tv_usec = 0\<rparr>\<rparr>"

text \<open>
  The id is sign-extended to \<open>unsigned long\<close>, the table size converted to it, and the
  remainder converted to \<open>int\<close>.
\<close>

definition hash_fsid :: "TROVE_coll_id \<Rightarrow> int \<Rightarrow> int" where
  "hash_fsid fsid tsize =
     (let tmp = 0 + (signed fsid :: 64 word);
          tmp' = tmp mod word_of_int tsize
      in sint (ucast tmp' :: 32 word))"

definition hash_fsid_compare :: "TROVE_coll_id \<Rightarrow> handle_ledger_t \<Rightarrow> bool" where
  "hash_fsid_compare key l \<longleftrightarrow> coll_id l = key"

definition trove_handle_mgmt_initialize :: "mgmt_state \<Rightarrow> mgmt_state \<times> int" where
  "trove_handle_mgmt_initialize st =
     (case s_fsid_to_ledger_table st of
        None \<Rightarrow> (st\<lparr>s_fsid_to_ledger_table := Some (qhash_init hash_fsid_compare hash_fsid 67)\<rparr>, 0)
      | Some _ \<Rightarrow> (st, 0))"

text \<open>The handles of one batch: each must be in the ranges, and is taken out of the ledger.\<close>

fun check_batch :: "TROVE_handle_extent list \<Rightarrow> handle_ledger \<Rightarrow> TROVE_handle list
    \<Rightarrow> (handle_ledger \<times> int) option" where
  "check_batch extent_list hl [] = Some (hl, 0)"
| "check_batch extent_list hl (h # hs) =
     (if \<not> PINT_handle_in_extent_list extent_list h then Some (hl, - 1)
      else case trove_handle_remove hl h of
             None \<Rightarrow> None
           | Some (hl', _) \<Rightarrow> check_batch extent_list hl' hs)"

partial_function (option) trove_check_handle_ranges :: "(nat \<Rightarrow> int \<times> int \<times> TROVE_handle list) \<Rightarrow> nat
    \<Rightarrow> TROVE_handle_extent list \<Rightarrow> handle_ledger \<Rightarrow> (handle_ledger \<times> int) option" where
  "trove_check_handle_ranges iter k extent_list hl =
     (case iter k of
        (ret, state, handles) \<Rightarrow>
          if ret < 0 then Some (hl, ret)
          else if state < 0 then Some (hl, state)
          else if handles = [0] then Some (hl, 0)
          else if handles = [] then Some (hl, 0)
          else case check_batch extent_list hl handles of
                 None \<Rightarrow> None
               | Some (hl', rc) \<Rightarrow>
                   if rc \<noteq> 0 then Some (hl', rc)
                   else trove_check_handle_ranges iter (Suc k) extent_list hl')"

fun map_ranges_loop :: "timeval \<Rightarrow> handle_ledger \<Rightarrow> 64 word \<Rightarrow> int \<Rightarrow> TROVE_handle_extent list
    \<Rightarrow> (handle_ledger \<times> 64 word \<times> int) option" where
  "map_ranges_loop now hl total_handles ret [] = Some (hl, total_handles, ret)"
| "map_ranges_loop now hl total_handles ret (cur # rest) =
     (case trove_handle_ledger_addextent now hl cur of
        None \<Rightarrow> None
      | Some (hl', rc) \<Rightarrow>
          if rc \<noteq> 0 then Some (hl', total_handles, rc)
          else map_ranges_loop now hl' (total_handles + (ext_last cur - ext_first cur + 1)) rc rest)"

definition trove_map_handle_ranges :: "timeval \<Rightarrow> TROVE_handle_extent list \<Rightarrow> handle_ledger
    \<Rightarrow> (handle_ledger \<times> int) option" where
  "trove_map_handle_ranges now extent_list hl =
     (case map_ranges_loop now hl 0 (- 1) extent_list of
        None \<Rightarrow> None
      | Some (hl', total_handles, ret) \<Rightarrow>
          Some (trove_handle_ledger_set_threshold hl' total_handles, ret))"

text \<open>Searching a table that is NULL is a fault.\<close>

definition search_ledger :: "mgmt_state \<Rightarrow> TROVE_coll_id \<Rightarrow> handle_ledger_t option option" where
  "search_ledger st cid =
     (case s_fsid_to_ledger_table st of None \<Rightarrow> None | Some t \<Rightarrow> qhash_search t cid)"

text \<open>What the functions do to the ledger they found is a write to its entry.\<close>

definition store_ledger :: "mgmt_state \<Rightarrow> TROVE_coll_id \<Rightarrow> handle_ledger_t \<Rightarrow> mgmt_state option" where
  "store_ledger st cid l =
     (case s_fsid_to_ledger_table st of
        None \<Rightarrow> None
      | Some t \<Rightarrow> map_option (\<lambda>t'. st\<lparr>s_fsid_to_ledger_table := Some t'\<rparr>) (qhash_store t cid l))"

definition get_or_add_handle_ledger :: "timeval \<Rightarrow> mgmt_state \<Rightarrow> TROVE_coll_id
    \<Rightarrow> (mgmt_state \<times> handle_ledger_t) option" where
  "get_or_add_handle_ledger now st cid =
     (case s_fsid_to_ledger_table st of
        None \<Rightarrow> None
      | Some t \<Rightarrow>
          (case qhash_search t cid of
             None \<Rightarrow> None
           | Some (Some l) \<Rightarrow> Some (st, l)
           | Some None \<Rightarrow>
               let l = \<lparr>coll_id = cid, have_valid_ranges = 0,
                        ledger = trove_handle_ledger_init now now now\<rparr>
               in map_option (\<lambda>t'. (st\<lparr>s_fsid_to_ledger_table := Some t'\<rparr>, l)) (qhash_add t cid l)))"

text \<open>
  \<open>handle_range_str\<close> may be NULL. The ranges are entered before they are checked, and stay
  when the check fails.
\<close>

definition trove_set_handle_ranges :: "timeval \<Rightarrow> (nat \<Rightarrow> int \<times> int \<times> TROVE_handle list) \<Rightarrow> mgmt_state
    \<Rightarrow> TROVE_coll_id \<Rightarrow> string option \<Rightarrow> (mgmt_state \<times> int) option" where
  "trove_set_handle_ranges now iter st cid handle_range_str =
     (case handle_range_str of
        None \<Rightarrow> Some (st, - TROVE_EINVAL)
      | Some str \<Rightarrow>
          (case PINT_create_extent_list str of
             None \<Rightarrow> None
           | Some Fault \<Rightarrow> None
           | Some (Done extent_list) \<Rightarrow>
               (case get_or_add_handle_ledger now st cid of
                  None \<Rightarrow> None
                | Some (st1, l) \<Rightarrow>
                    (case trove_map_handle_ranges now extent_list (ledger l) of
                       None \<Rightarrow> None
                     | Some (hl1, ret) \<Rightarrow>
                         if ret \<noteq> 0
                         then map_option (\<lambda>st2. (st2, ret)) (store_ledger st1 cid (l\<lparr>ledger := hl1\<rparr>))
                         else
                           (case trove_check_handle_ranges iter 0 extent_list hl1 of
                              None \<Rightarrow> None
                            | Some (hl2, ret2) \<Rightarrow>
                                map_option (\<lambda>st2. (st2, ret2))
                                  (store_ledger st1 cid
                                    (l\<lparr>ledger := hl2,
                                       have_valid_ranges := if ret2 \<noteq> 0 then have_valid_ranges l else 1\<rparr>)))))))"

definition trove_set_handle_timeout :: "timeval \<Rightarrow> mgmt_state \<Rightarrow> TROVE_coll_id \<Rightarrow> timeval
    \<Rightarrow> (mgmt_state \<times> int) option" where
  "trove_set_handle_timeout now st cid timeout =
     (case get_or_add_handle_ledger now st cid of
        None \<Rightarrow> None
      | Some (st1, l) \<Rightarrow>
          let timeout' = timeout\<lparr>tv_sec := if tv_sec timeout = 0 then TROVE_DEFAULT_HANDLE_PURGATORY_SEC
                                          else tv_sec timeout\<rparr>
          in map_option (\<lambda>(p, ret). (st1\<lparr>s_extentlist_purgatory := p\<rparr>, ret))
               (trove_ledger_set_timeout (ledger l) timeout'))"

text \<open>
  The remaining functions look the collection up. \<open>with_ledger\<close> runs \<open>f\<close> on the ledger found
  and writes the result back; \<open>absent\<close> is what is returned when there is none.
\<close>

definition with_ledger :: "mgmt_state \<Rightarrow> TROVE_coll_id \<Rightarrow> 'r
    \<Rightarrow> (handle_ledger_t \<Rightarrow> (handle_ledger_t \<times> 'r) option) \<Rightarrow> (mgmt_state \<times> 'r) option" where
  "with_ledger st cid absent f =
     (case search_ledger st cid of
        None \<Rightarrow> None
      | Some None \<Rightarrow> Some (st, absent)
      | Some (Some l) \<Rightarrow>
          (case f l of
             None \<Rightarrow> None
           | Some (l', r) \<Rightarrow> map_option (\<lambda>st'. (st', r)) (store_ledger st cid l')))"

text \<open>A ledger function as a function on the table entry: the pointer it gets is never NULL.\<close>

definition on_ledger :: "(handle_ledger option \<Rightarrow> (handle_ledger option \<times> 'r) option)
    \<Rightarrow> handle_ledger_t \<Rightarrow> (handle_ledger_t \<times> 'r) option" where
  "on_ledger g l =
     map_option (\<lambda>(hl, r). (case hl of None \<Rightarrow> l | Some hl' \<Rightarrow> l\<lparr>ledger := hl'\<rparr>, r)) (g (Some (ledger l)))"

definition trove_handle_alloc :: "mgmt_state \<Rightarrow> TROVE_coll_id \<Rightarrow> (mgmt_state \<times> TROVE_handle) option" where
  "trove_handle_alloc st cid =
     with_ledger st cid TROVE_HANDLE_NULL
       (\<lambda>l. if have_valid_ranges l = 1 then on_ledger trove_ledger_handle_alloc l
            else Some (l, TROVE_HANDLE_NULL))"

text \<open>The ranges of the array are tried in order until one gives a handle.\<close>

fun alloc_from_extents :: "TROVE_handle_extent list \<Rightarrow> handle_ledger_t
    \<Rightarrow> (handle_ledger_t \<times> TROVE_handle) option" where
  "alloc_from_extents [] l = Some (l, TROVE_HANDLE_NULL)"
| "alloc_from_extents (e # es) l =
     (case on_ledger (\<lambda>hl. trove_ledger_handle_alloc_from_range hl e) l of
        None \<Rightarrow> None
      | Some (l', handle) \<Rightarrow>
          if handle \<noteq> TROVE_HANDLE_NULL then Some (l', handle) else alloc_from_extents es l')"

definition trove_handle_alloc_from_range :: "mgmt_state \<Rightarrow> TROVE_coll_id \<Rightarrow> TROVE_handle_extent list
    \<Rightarrow> (mgmt_state \<times> TROVE_handle) option" where
  "trove_handle_alloc_from_range st cid extent_array =
     with_ledger st cid TROVE_HANDLE_NULL
       (\<lambda>l. if have_valid_ranges l = 1 then alloc_from_extents extent_array l
            else Some (l, TROVE_HANDLE_NULL))"

text \<open>Peeking returns the array of handles and the return value; it changes nothing.\<close>

definition trove_handle_peek :: "mgmt_state \<Rightarrow> TROVE_coll_id \<Rightarrow> int \<Rightarrow> (TROVE_handle list \<times> int) option" where
  "trove_handle_peek st cid max_num_handles =
     (case search_ledger st cid of
        None \<Rightarrow> None
      | Some None \<Rightarrow> Some ([], - TROVE_EINVAL)
      | Some (Some l) \<Rightarrow>
          if have_valid_ranges l = 1 then trove_ledger_peek_handles (Some (ledger l)) max_num_handles
          else Some ([], - TROVE_EINVAL))"

text \<open>\<open>assert(*returned_handle_count > 0)\<close> when a range answered with 0.\<close>

fun peek_from_extents :: "TROVE_handle_extent list \<Rightarrow> handle_ledger_t \<Rightarrow> int \<Rightarrow> TROVE_handle list \<Rightarrow> int
    \<Rightarrow> (TROVE_handle list \<times> int) option" where
  "peek_from_extents [] l max_num_handles out ret = Some (out, ret)"
| "peek_from_extents (e # es) l max_num_handles out ret =
     (case trove_ledger_peek_handles_from_extent (Some (ledger l)) e max_num_handles of
        None \<Rightarrow> None
      | Some (out', ret') \<Rightarrow>
          if ret' = 0 then (if out' \<noteq> [] then Some (out', ret') else None)
          else peek_from_extents es l max_num_handles out' ret')"

definition trove_handle_peek_from_range :: "mgmt_state \<Rightarrow> TROVE_coll_id \<Rightarrow> TROVE_handle_extent list \<Rightarrow> int
    \<Rightarrow> (TROVE_handle list \<times> int) option" where
  "trove_handle_peek_from_range st cid extent_array max_num_handles =
     (case search_ledger st cid of
        None \<Rightarrow> None
      | Some None \<Rightarrow> Some ([], - TROVE_EINVAL)
      | Some (Some l) \<Rightarrow>
          if have_valid_ranges l = 1
          then peek_from_extents extent_array l max_num_handles [] (- TROVE_EINVAL)
          else Some ([], - TROVE_EINVAL))"

definition trove_handle_set_used :: "mgmt_state \<Rightarrow> TROVE_coll_id \<Rightarrow> TROVE_handle
    \<Rightarrow> (mgmt_state \<times> int) option" where
  "trove_handle_set_used st cid handle =
     with_ledger st cid (- 1)
       (\<lambda>l. map_option (\<lambda>(hl, ret). (l\<lparr>ledger := hl\<rparr>, ret)) (trove_handle_remove (ledger l) handle))"

definition trove_handle_free :: "timeval \<Rightarrow> mgmt_state \<Rightarrow> TROVE_coll_id \<Rightarrow> TROVE_handle
    \<Rightarrow> (mgmt_state \<times> int) option" where
  "trove_handle_free now st cid handle =
     with_ledger st cid (- 1)
       (\<lambda>l. map_option (\<lambda>(hl, ret). (l\<lparr>ledger := hl\<rparr>, ret))
              (trove_ledger_handle_free (s_extentlist_purgatory st) now (ledger l) handle))"

text \<open>The count is an option: it is written only on success.\<close>

definition trove_handle_get_statistics :: "mgmt_state \<Rightarrow> TROVE_coll_id \<Rightarrow> (64 word option \<times> int) option" where
  "trove_handle_get_statistics st cid =
     (case search_ledger st cid of
        None \<Rightarrow> None
      | Some None \<Rightarrow> Some (None, - PVFS_ENOENT)
      | Some (Some l) \<Rightarrow> Some (Some (trove_handle_ledger_get_statistics (ledger l)), 0))"

text \<open>
  Each chain of the table is emptied from the front; the number of entries bounds the inner
  loop. The table itself is then released.
\<close>

fun finalize_chain :: "nat \<Rightarrow> ledger_table \<Rightarrow> int \<Rightarrow> ledger_table option" where
  "finalize_chain 0 t i = None"
| "finalize_chain (Suc fuel) t i =
     (case qhash_search_and_remove_at_index t i of
        None \<Rightarrow> None
      | Some (t', None) \<Rightarrow> Some t'
      | Some (t', Some l) \<Rightarrow> finalize_chain fuel t' i)"

fun finalize_chains :: "nat \<Rightarrow> ledger_table \<Rightarrow> ledger_table option" where
  "finalize_chains 0 t = Some t"
| "finalize_chains (Suc i) t =
     (case finalize_chains i t of
        None \<Rightarrow> None
      | Some t' \<Rightarrow> finalize_chain (Suc (length (qhash_entries t'))) t' (int i))"

definition trove_handle_mgmt_finalize :: "mgmt_state \<Rightarrow> (mgmt_state \<times> int) option" where
  "trove_handle_mgmt_finalize st =
     (case s_fsid_to_ledger_table st of
        None \<Rightarrow> None
      | Some t \<Rightarrow>
          (case finalize_chains (nat (table_size t)) t of
             None \<Rightarrow> None
           | Some _ \<Rightarrow> Some (st\<lparr>s_fsid_to_ledger_table := None\<rparr>, 0)))"

section \<open>The table of ledgers is a finite map\<close>

lemma hash_fsid_range: "0 \<le> hash_fsid c 67" "hash_fsid c 67 < 67"
proof -
  let ?w = "(signed c :: 64 word) mod 67"
  have "unat ?w < 67" by (simp add: unat_mod)
  then have w: "uint ?w < 67" unfolding uint_nat by linarith
  have "(ucast ?w :: 32 word) = word_of_int (uint ?w)" by simp
  then have "hash_fsid c 67 = sint (word_of_int (uint ?w) :: 32 word)"
    by (simp only: hash_fsid_def Let_def add_0 of_int_numeral)
  also have "\<dots> = uint ?w" using w by (intro sint32_small) auto
  finally show "0 \<le> hash_fsid c 67" "hash_fsid c 67 < 67" using w by simp_all
qed

interpretation fsid: qhash_user hash_fsid_compare hash_fsid coll_id 67
  by unfold_locales (simp_all add: hash_fsid_compare_def hash_fsid_range)

definition ledgers :: "mgmt_state \<Rightarrow> TROVE_coll_id \<Rightarrow> handle_ledger_t option" where
  "ledgers st cid =
     (case s_fsid_to_ledger_table st of None \<Rightarrow> None | Some t \<Rightarrow> qhash_map coll_id t cid)"

definition table_ok :: "mgmt_state \<Rightarrow> bool" where
  "table_ok st \<longleftrightarrow> (\<exists>t. s_fsid_to_ledger_table st = Some t \<and> fsid.managed t)"

definition mgmt_ok :: "mgmt_state \<Rightarrow> bool" where
  "mgmt_ok st \<longleftrightarrow> table_ok st \<and> (\<forall>cid l. ledgers st cid = Some l \<longrightarrow> ledger_ok (ledger l))"

lemma qhash_map_key: "qhash_map key t k = Some v \<Longrightarrow> key v = k"
  by (auto simp: qhash_map_def find_Some_iff)

lemma ledgers_key: "ledgers st cid = Some l \<Longrightarrow> coll_id l = cid"
  by (auto simp: ledgers_def dest: qhash_map_key split: option.splits)

lemma initialize_ok:
  assumes "s_fsid_to_ledger_table st = None"
  shows "mgmt_ok (fst (trove_handle_mgmt_initialize st))"
    "ledgers (fst (trove_handle_mgmt_initialize st)) = Map.empty"
  using assms fsid.init_managed
  by (auto simp: mgmt_ok_def table_ok_def ledgers_def trove_handle_mgmt_initialize_def fun_eq_iff)

lemma search_ledger_eq: "table_ok st \<Longrightarrow> search_ledger st cid = Some (ledgers st cid)"
  by (auto simp: table_ok_def search_ledger_def ledgers_def fsid.search_map)

lemma store_ledger_ok:
  assumes "table_ok st" "ledgers st cid = Some l0" "coll_id l = cid"
  obtains st' where "store_ledger st cid l = Some st'" "table_ok st'"
    "ledgers st' = (ledgers st)(cid \<mapsto> l)" "s_extentlist_purgatory st' = s_extentlist_purgatory st"
proof -
  obtain t where t: "s_fsid_to_ledger_table st = Some t" "fsid.managed t"
    using assms(1) by (auto simp: table_ok_def)
  have "qhash_map coll_id t (coll_id l) = Some l0" using assms(2,3) t(1) by (simp add: ledgers_def)
  with t(2) obtain t' where t': "qhash_store t (coll_id l) l = Some t'" "fsid.managed t'"
      "qhash_map coll_id t' = (qhash_map coll_id t)(coll_id l \<mapsto> l)"
    by (rule fsid.store_map)
  have ledgers_t: "ledgers st = qhash_map coll_id t" by (simp add: ledgers_def t(1) fun_eq_iff)
  show thesis
    by (rule that [of "st\<lparr>s_fsid_to_ledger_table := Some t'\<rparr>"])
       (use t t' assms(3) ledgers_t in \<open>auto simp: store_ledger_def table_ok_def ledgers_def fun_eq_iff\<close>)
qed

lemma get_or_add_ok:
  assumes "table_ok st"
  obtains st' l where "get_or_add_handle_ledger now st cid = Some (st', l)" "table_ok st'"
    "ledgers st' = (ledgers st)(cid \<mapsto> l)" "s_extentlist_purgatory st' = s_extentlist_purgatory st"
    "case ledgers st cid of
       Some l0 \<Rightarrow> l = l0
     | None \<Rightarrow> l = \<lparr>coll_id = cid, have_valid_ranges = 0, ledger = trove_handle_ledger_init now now now\<rparr>"
proof -
  obtain t where t: "s_fsid_to_ledger_table st = Some t" "fsid.managed t"
    using assms by (auto simp: table_ok_def)
  have ledgers_t: "ledgers st = qhash_map coll_id t" by (simp add: ledgers_def t(1) fun_eq_iff)
  show thesis
  proof (cases "ledgers st cid")
    case (Some l)
    then have "ledgers st = (ledgers st)(cid \<mapsto> l)" by (simp add: fun_upd_idem)
    with Some t assms ledgers_t show thesis
      by (intro that [of st l]) (auto simp: get_or_add_handle_ledger_def fsid.search_map)
  next
    case None
    let ?l = "\<lparr>coll_id = cid, have_valid_ranges = 0, ledger = trove_handle_ledger_init now now now\<rparr>"
    have "qhash_map coll_id t (coll_id ?l) = None" using None ledgers_t by simp
    with t(2) obtain t' where t': "qhash_add t (coll_id ?l) ?l = Some t'" "fsid.managed t'"
        "qhash_map coll_id t' = (qhash_map coll_id t)(coll_id ?l \<mapsto> ?l)"
      by (rule fsid.add_map)
    show thesis
      by (rule that [of "st\<lparr>s_fsid_to_ledger_table := Some t'\<rparr>" ?l])
         (use None t t' ledgers_t in \<open>auto simp: get_or_add_handle_ledger_def fsid.search_map table_ok_def
            ledgers_def fun_eq_iff\<close>)
  qed
qed

lemma with_ledger_ok:
  assumes "table_ok st" "ledgers st cid = Some l" "f l = Some (l', r)" "coll_id l' = cid"
  obtains st' where "with_ledger st cid absent f = Some (st', r)" "table_ok st'"
    "ledgers st' = (ledgers st)(cid \<mapsto> l')" "s_extentlist_purgatory st' = s_extentlist_purgatory st"
proof -
  obtain st' where "store_ledger st cid l' = Some st'" "table_ok st'"
      "ledgers st' = (ledgers st)(cid \<mapsto> l')" "s_extentlist_purgatory st' = s_extentlist_purgatory st"
    by (rule store_ledger_ok [OF assms(1,2,4)])
  with assms show thesis
    by (intro that [of st']) (simp_all add: with_ledger_def search_ledger_eq)
qed

lemma with_ledger_absent:
  "table_ok st \<Longrightarrow> ledgers st cid = None \<Longrightarrow> with_ledger st cid absent f = Some (st, absent)"
  by (simp add: with_ledger_def search_ledger_eq)

text \<open>A call changes at most the entry of its own collection.\<close>

lemma with_ledger_frame:
  assumes "table_ok st" "with_ledger st cid absent f = Some (st', r)"
    and key: "\<And>l l' r. f l = Some (l', r) \<Longrightarrow> coll_id l' = coll_id l"
  shows "table_ok st' \<and> (\<forall>c. c \<noteq> cid \<longrightarrow> ledgers st' c = ledgers st c)"
proof (cases "ledgers st cid")
  case None
  with assms show ?thesis by (simp add: with_ledger_absent)
next
  case (Some l)
  with assms(1,2) obtain l' where l': "f l = Some (l', r)"
    by (auto simp: with_ledger_def search_ledger_eq split: option.splits)
  have "coll_id l' = cid" using key [OF l'] ledgers_key [OF Some] by simp
  with assms(1) Some l' obtain st1 where "with_ledger st cid absent f = Some (st1, r)" "table_ok st1"
      "ledgers st1 = (ledgers st)(cid \<mapsto> l')"
    by (rule with_ledger_ok)
  with assms(2) show ?thesis by simp
qed

section \<open>Entering and checking ranges\<close>

text \<open>Ranges that can be entered together: usable and pairwise disjoint.\<close>

definition ranges_ok :: "TROVE_handle_extent list \<Rightarrow> bool" where
  "ranges_ok es \<longleftrightarrow> (\<forall>e \<in> set es. extent_ok e) \<and> sorted_wrt (\<lambda>a b. handles_of a \<inter> handles_of b = {}) es"

lemma map_ranges_loop_ok:
  "ranges_ok es \<Longrightarrow> ledger_ok hl \<Longrightarrow> cover (set es) \<inter> ledger_handles hl = {} \<Longrightarrow>
   \<exists>hl' total. map_ranges_loop now hl total0 ret es = Some (hl', total, if es = [] then ret else 0) \<and>
     ledger_ok hl' \<and> ledger_handles hl' = ledger_handles hl \<union> cover (set es) \<and>
     recently_freed_list hl' = recently_freed_list hl \<and> overflow_list hl' = overflow_list hl"
proof (induction es arbitrary: hl total0 ret)
  case (Cons e es)
  have e: "extent_ok e" "handles_of e \<inter> ledger_handles hl = {}" "handles_of e \<inter> cover (set es) = {}"
    "ranges_ok es" "cover (set es) \<inter> ledger_handles hl = {}"
    using Cons.prems by (auto simp: ranges_ok_def cover_def)
  obtain hl1 where hl1: "trove_handle_ledger_addextent now hl e = Some (hl1, 0)" "ledger_ok hl1"
      "ledger_handles hl1 = ledger_handles hl \<union> handles_of e"
    by (rule ledger_addextent_ok [OF Cons.prems(2) e(1,2)])
  then have "recently_freed_list hl1 = recently_freed_list hl" "overflow_list hl1 = overflow_list hl"
    by (auto simp: trove_handle_ledger_addextent_def)
  moreover have "cover (set es) \<inter> ledger_handles hl1 = {}" using e(3,5) hl1(3) by blast
  from Cons.IH [OF e(4) hl1(2) this, of "total0 + (ext_last e - ext_first e + 1)" 0]
  obtain hl2 total where hl2: "map_ranges_loop now hl1 (total0 + (ext_last e - ext_first e + 1)) 0 es
        = Some (hl2, total, 0)" "ledger_ok hl2" "ledger_handles hl2 = ledger_handles hl1 \<union> cover (set es)"
      "recently_freed_list hl2 = recently_freed_list hl1" "overflow_list hl2 = overflow_list hl1"
    by auto
  ultimately show ?case using hl1 by auto
qed simp

lemma map_handle_ranges_ok:
  assumes "ranges_ok es" "es \<noteq> []" "ledger_ok hl" "cover (set es) \<inter> ledger_handles hl = {}"
  obtains hl' where "trove_map_handle_ranges now es hl = Some (hl', 0)" "ledger_ok hl'"
    "ledger_handles hl' = ledger_handles hl \<union> cover (set es)"
    "recently_freed_list hl' = recently_freed_list hl" "overflow_list hl' = overflow_list hl"
proof -
  obtain hl1 total where "map_ranges_loop now hl 0 (- 1) es = Some (hl1, total, 0)" "ledger_ok hl1"
      "ledger_handles hl1 = ledger_handles hl \<union> cover (set es)"
      "recently_freed_list hl1 = recently_freed_list hl" "overflow_list hl1 = overflow_list hl"
    using map_ranges_loop_ok [OF assms(1,3,4), of now 0 "- 1"] assms(2) by auto
  then show thesis
    by (intro that [of "trove_handle_ledger_set_threshold hl1 total"])
       (auto simp: trove_map_handle_ranges_def trove_handle_ledger_set_threshold_def ledger_ok_def
          ledger_handles_def)
qed

lemma remove_any:
  assumes "ledger_ok hl"
  shows "\<exists>hl' rc. trove_handle_remove hl h = Some (hl', rc) \<and> ledger_ok hl' \<and>
    el_free (free_list hl') = el_free (free_list hl) - {h} \<and>
    recently_freed_list hl' = recently_freed_list hl \<and> overflow_list hl' = overflow_list hl"
proof (cases "h \<in> el_free (free_list hl)")
  case True
  have ok: "el_ok (free_list hl)" using assms by (simp add: ledger_ok_def)
  obtain n where "extentlist_handle_remove (free_list hl) h = Some (free_list hl\<lparr>index := n\<rparr>, 0)"
      "el_ok (free_list hl\<lparr>index := n\<rparr>)"
      "el_free (free_list hl\<lparr>index := n\<rparr>) = el_free (free_list hl) - {h}"
    by (rule handle_remove_ok [OF ok True])
  with assms show ?thesis by (auto simp: trove_handle_remove_def ledger_ok_def)
next
  case False
  with assms show ?thesis by (simp add: trove_handle_remove_def handle_remove_absent ledger_ok_def)
qed

lemma check_batch_ok:
  "ledger_ok hl \<Longrightarrow> set hs \<subseteq> cover (set es) \<Longrightarrow>
   \<exists>hl'. check_batch es hl hs = Some (hl', 0) \<and> ledger_ok hl' \<and>
     el_free (free_list hl') = el_free (free_list hl) - set hs \<and>
     recently_freed_list hl' = recently_freed_list hl \<and> overflow_list hl' = overflow_list hl"
proof (induction hs arbitrary: hl)
  case (Cons h hs)
  obtain hl1 rc where hl1: "trove_handle_remove hl h = Some (hl1, rc)" "ledger_ok hl1"
      "el_free (free_list hl1) = el_free (free_list hl) - {h}"
      "recently_freed_list hl1 = recently_freed_list hl" "overflow_list hl1 = overflow_list hl"
    using remove_any [OF Cons.prems(1)] by blast
  obtain hl2 where "check_batch es hl1 hs = Some (hl2, 0)" "ledger_ok hl2"
      "el_free (free_list hl2) = el_free (free_list hl1) - set hs"
      "recently_freed_list hl2 = recently_freed_list hl1" "overflow_list hl2 = overflow_list hl1"
    using Cons.IH [OF hl1(2)] Cons.prems(2) by auto
  with hl1 Cons.prems(2) show ?case by (auto simp: in_extent_list_iff)
qed simp

text \<open>
  The storage layer returns the stored handles in \<open>n\<close> batches, and then an empty one. A batch
  that holds only the null handle would stand for a blank file system.
\<close>

definition stored_batches :: "(nat \<Rightarrow> int \<times> int \<times> TROVE_handle list) \<Rightarrow> nat
    \<Rightarrow> (nat \<Rightarrow> TROVE_handle list) \<Rightarrow> bool" where
  "stored_batches iter n batch \<longleftrightarrow>
     (\<forall>k < n. (\<exists>ret state. iter k = (ret, state, batch k) \<and> 0 \<le> ret \<and> 0 \<le> state) \<and>
        batch k \<noteq> [] \<and> batch k \<noteq> [0]) \<and>
     (\<exists>ret state. iter n = (ret, state, []) \<and> 0 \<le> ret \<and> 0 \<le> state)"

lemma check_ranges_ok:
  assumes "stored_batches iter n batch" "\<forall>k < n. set (batch k) \<subseteq> cover (set es)"
  shows "k \<le> n \<Longrightarrow> ledger_ok hl \<Longrightarrow>
    \<exists>hl'. trove_check_handle_ranges iter k es hl = Some (hl', 0) \<and> ledger_ok hl' \<and>
      el_free (free_list hl') = el_free (free_list hl) - (\<Union>j \<in> {k..<n}. set (batch j)) \<and>
      recently_freed_list hl' = recently_freed_list hl \<and> overflow_list hl' = overflow_list hl"
proof (induction "n - k" arbitrary: k hl)
  case 0
  then have "k = n" by simp
  with 0 assms(1) show ?case
    by (subst trove_check_handle_ranges.simps) (auto simp: stored_batches_def)
next
  case (Suc m)
  then have "k < n" by simp
  then obtain ret state where it: "iter k = (ret, state, batch k)" "0 \<le> ret" "0 \<le> state"
      "batch k \<noteq> []" "batch k \<noteq> [0]"
    using assms(1) by (auto simp: stored_batches_def)
  obtain hl1 where hl1: "check_batch es hl (batch k) = Some (hl1, 0)" "ledger_ok hl1"
      "el_free (free_list hl1) = el_free (free_list hl) - set (batch k)"
      "recently_freed_list hl1 = recently_freed_list hl" "overflow_list hl1 = overflow_list hl"
    using check_batch_ok [OF Suc.prems(2)] assms(2) \<open>k < n\<close> by blast
  have "trove_check_handle_ranges iter k es hl = trove_check_handle_ranges iter (Suc k) es hl1"
    using it hl1(1) by (subst trove_check_handle_ranges.simps) simp
  moreover obtain hl2 where "trove_check_handle_ranges iter (Suc k) es hl1 = Some (hl2, 0)" "ledger_ok hl2"
      "el_free (free_list hl2) = el_free (free_list hl1) - (\<Union>j \<in> {Suc k..<n}. set (batch j))"
      "recently_freed_list hl2 = recently_freed_list hl1" "overflow_list hl2 = overflow_list hl1"
    using Suc.hyps(1) [OF _ _ hl1(2), of "Suc k"] Suc.hyps(2) \<open>k < n\<close> by force
  moreover have "{k..<n} = insert k {Suc k..<n}" using \<open>k < n\<close> by auto
  ultimately show ?case using hl1(3-5) by auto
qed

section \<open>Calls for different collections do not interfere\<close>

text \<open>One call of a function that changes the state, for a collection.\<close>

inductive mgmt_step :: "TROVE_coll_id \<Rightarrow> mgmt_state \<Rightarrow> mgmt_state \<Rightarrow> bool" where
  step_alloc: "trove_handle_alloc st cid = Some (st', h) \<Longrightarrow> mgmt_step cid st st'"
| step_alloc_range: "trove_handle_alloc_from_range st cid es = Some (st', h) \<Longrightarrow> mgmt_step cid st st'"
| step_set_used: "trove_handle_set_used st cid h = Some (st', ret) \<Longrightarrow> mgmt_step cid st st'"
| step_free: "trove_handle_free now st cid h = Some (st', ret) \<Longrightarrow> mgmt_step cid st st'"
| step_set_ranges: "trove_set_handle_ranges now iter st cid str = Some (st', ret) \<Longrightarrow> mgmt_step cid st st'"
| step_set_timeout: "trove_set_handle_timeout now st cid timeout = Some (st', ret) \<Longrightarrow> mgmt_step cid st st'"

definition framed :: "TROVE_coll_id \<Rightarrow> mgmt_state \<Rightarrow> mgmt_state \<Rightarrow> bool" where
  "framed cid st st' \<longleftrightarrow> table_ok st' \<and> (\<forall>c. c \<noteq> cid \<longrightarrow> ledgers st' c = ledgers st c)"

lemma on_ledger_key: "on_ledger g l = Some (l', r) \<Longrightarrow> coll_id l' = coll_id l"
  by (auto simp: on_ledger_def split: option.splits)

lemma alloc_from_extents_key: "alloc_from_extents es l = Some (l', h) \<Longrightarrow> coll_id l' = coll_id l"
  by (induction es arbitrary: l) (auto dest: on_ledger_key split: option.splits if_splits)

lemma store_framed:
  assumes "table_ok st" "store_ledger st1 cid l' = Some st'"
    "get_or_add_handle_ledger now st cid = Some (st1, l)" "coll_id l' = coll_id l"
  shows "framed cid st st'"
proof -
  obtain st2 l2 where "get_or_add_handle_ledger now st cid = Some (st2, l2)" "table_ok st2"
      "ledgers st2 = (ledgers st)(cid \<mapsto> l2)" "s_extentlist_purgatory st2 = s_extentlist_purgatory st"
    by (rule get_or_add_ok [OF assms(1)])
  with assms(3) have st1: "table_ok st1" "ledgers st1 = (ledgers st)(cid \<mapsto> l)" by auto
  then have l: "ledgers st1 cid = Some l" by simp
  have "coll_id l' = cid" using assms(4) ledgers_key [OF l] by simp
  with st1(1) l obtain st3 where "store_ledger st1 cid l' = Some st3" "table_ok st3"
      "ledgers st3 = (ledgers st1)(cid \<mapsto> l')"
    by (rule store_ledger_ok)
  with assms(2) st1(2) show ?thesis by (simp add: framed_def)
qed

lemma set_ranges_framed:
  assumes "table_ok st" "trove_set_handle_ranges now iter st cid str = Some (st', ret)"
  shows "framed cid st st'"
proof (cases str)
  case None
  with assms show ?thesis by (simp add: trove_set_handle_ranges_def framed_def)
next
  case (Some s)
  with assms(2) show ?thesis
    by (auto simp: trove_set_handle_ranges_def split: option.splits outcome.splits if_splits)
       (erule store_framed [OF assms(1)], assumption, simp)+
qed

lemma set_timeout_framed:
  assumes "table_ok st" "trove_set_handle_timeout now st cid timeout = Some (st', ret)"
  shows "framed cid st st'"
proof -
  obtain st1 l where st1: "get_or_add_handle_ledger now st cid = Some (st1, l)" "table_ok st1"
      "ledgers st1 = (ledgers st)(cid \<mapsto> l)"
    by (rule get_or_add_ok [OF assms(1)])
  with assms(2) obtain p where "st' = st1\<lparr>s_extentlist_purgatory := p\<rparr>"
    by (auto simp: trove_set_handle_timeout_def Let_def)
  with st1 show ?thesis by (simp add: framed_def table_ok_def ledgers_def fun_eq_iff)
qed

lemma mgmt_step_framed: "mgmt_step cid st st' \<Longrightarrow> table_ok st \<Longrightarrow> framed cid st st'"
proof (induction rule: mgmt_step.induct)
  case (step_alloc st cid st' h)
  then show ?case unfolding framed_def trove_handle_alloc_def
    by (elim with_ledger_frame) (auto dest: on_ledger_key split: if_splits)
next
  case (step_alloc_range st cid es st' h)
  then show ?case unfolding framed_def trove_handle_alloc_from_range_def
    by (elim with_ledger_frame) (auto dest: alloc_from_extents_key split: if_splits)
next
  case (step_set_used st cid h st' ret)
  then show ?case unfolding framed_def trove_handle_set_used_def
    by (elim with_ledger_frame) auto
next
  case (step_free now st cid h st' ret)
  then show ?case unfolding framed_def trove_handle_free_def
    by (elim with_ledger_frame) auto
qed (simp_all add: set_ranges_framed set_timeout_framed)

section \<open>Finalisation\<close>

lemma finalize_chain_ok:
  assumes "0 \<le> i" "i < table_size t" "table_size t = int (length (qarray t))"
    "length (qarray t ! nat i) < fuel"
  shows "\<exists>t'. finalize_chain fuel t i = Some t' \<and> table_size t' = table_size t \<and>
    length (qarray t') = length (qarray t)"
  using assms
proof (induction fuel arbitrary: t)
  case (Suc fuel)
  have chain: "qhash_chain t i = Some (qarray t ! nat i)" using Suc.prems by (simp add: qhash_chain_def)
  show ?case
  proof (cases "qarray t ! nat i")
    case Nil
    with chain Suc.prems show ?thesis by (simp add: qhash_search_and_remove_at_index_def)
  next
    case (Cons v vs)
    let ?t = "qhash_set_chain t i vs"
    have "qarray ?t ! nat i = vs" "length (qarray ?t) = length (qarray t)" "table_size ?t = table_size t"
      using Suc.prems by (simp_all add: qhash_set_chain_def)
    with Suc.IH [of ?t] Suc.prems Cons chain show ?thesis
      by (auto simp: qhash_search_and_remove_at_index_def)
  qed
qed simp

lemma chain_length_le: "i < length (qarray t) \<Longrightarrow> length (qarray t ! i) \<le> length (qhash_entries t)"
  unfolding qhash_entries_def length_concat
  by (rule member_le_sum_list) auto

lemma finalize_chains_ok:
  "table_size t = int (length (qarray t)) \<Longrightarrow> k \<le> length (qarray t) \<Longrightarrow>
   \<exists>t'. finalize_chains k t = Some t' \<and> table_size t' = table_size t \<and> length (qarray t') = length (qarray t)"
proof (induction k)
  case (Suc k)
  then obtain t1 where t1: "finalize_chains k t = Some t1" "table_size t1 = table_size t"
    "length (qarray t1) = length (qarray t)" by auto
  have "length (qarray t1 ! nat (int k)) < Suc (length (qhash_entries t1))"
    using chain_length_le [of k t1] Suc.prems t1(3) by simp
  with finalize_chain_ok [of "int k" t1 "Suc (length (qhash_entries t1))"] Suc.prems t1 show ?case
    by (auto simp del: finalize_chain.simps)
qed simp

section \<open>Properties\<close>

text \<open>
  C30. Setting the handle ranges of a new collection from a printed list of disjoint ranges: when the
  stored handles all lie in the ranges, the call returns 0, the collection is marked valid
  and its ledger holds exactly the handles of the ranges that are not stored, while no other
  collection is affected. The call parses the string, enters the ranges, and withdraws the
  stored handles batch by batch.
\<close>

theorem set_handle_ranges_correct:
  assumes "mgmt_ok st" "ledgers st cid = None" "ranges_ok es" "es \<noteq> []"
    "stored_batches iter n batch" "\<forall>k < n. set (batch k) \<subseteq> cover (set es)"
  shows "\<exists>st' l. trove_set_handle_ranges now iter st cid (Some (print_ranges es)) = Some (st', 0) \<and>
    mgmt_ok st' \<and> ledgers st' = (ledgers st)(cid \<mapsto> l) \<and> have_valid_ranges l = 1 \<and>
    ledger_handles (ledger l) = cover (set es) - (\<Union>k \<in> {..<n}. set (batch k))"
proof -
  let ?l0 = "\<lparr>coll_id = cid, have_valid_ranges = 0, ledger = trove_handle_ledger_init now now now\<rparr>"
  have tbl: "table_ok st" using assms(1) by (simp add: mgmt_ok_def)
  obtain st1 l0 where st1: "get_or_add_handle_ledger now st cid = Some (st1, l0)" "table_ok st1"
      "ledgers st1 = (ledgers st)(cid \<mapsto> l0)"
      and l0: "case ledgers st cid of Some l1 \<Rightarrow> l0 = l1 | None \<Rightarrow> l0 = ?l0"
    by (rule get_or_add_ok [OF tbl])
  have l0: "l0 = ?l0" using l0 assms(2) by simp
  have init: "ledger_ok (ledger l0)" "ledger_handles (ledger l0) = {}"
    by (simp_all add: l0 ledger_init_ok)
  obtain hl1 where hl1: "trove_map_handle_ranges now es (ledger l0) = Some (hl1, 0)" "ledger_ok hl1"
      "ledger_handles hl1 = ledger_handles (ledger l0) \<union> cover (set es)"
      "recently_freed_list hl1 = recently_freed_list (ledger l0)" "overflow_list hl1 = overflow_list (ledger l0)"
    using map_handle_ranges_ok [OF assms(3,4) init(1)] init(2) by blast
  obtain hl2 where hl2: "trove_check_handle_ranges iter 0 es hl1 = Some (hl2, 0)" "ledger_ok hl2"
      "el_free (free_list hl2) = el_free (free_list hl1) - (\<Union>k \<in> {0..<n}. set (batch k))"
      "recently_freed_list hl2 = recently_freed_list hl1" "overflow_list hl2 = overflow_list hl1"
    using check_ranges_ok [OF assms(5,6) _ hl1(2), of 0] by blast
  have empty: "el_free (recently_freed_list hl1) = {}" "el_free (overflow_list hl1) = {}"
    using init(2) by (simp_all add: hl1(4,5) ledger_handles_def)
  then have handles: "ledger_handles hl2 = cover (set es) - (\<Union>k \<in> {..<n}. set (batch k))"
    using hl1(3) hl2(3) init(2) by (simp add: ledger_handles_def hl2(4,5) atLeast0LessThan)
  let ?l = "l0\<lparr>ledger := hl2, have_valid_ranges := 1\<rparr>"
  have "ledgers st1 cid = Some l0" "coll_id ?l = cid" using st1(3) by (simp_all add: l0)
  then obtain st2 where st2: "store_ledger st1 cid ?l = Some st2" "table_ok st2"
      "ledgers st2 = (ledgers st1)(cid \<mapsto> ?l)"
    by (rule store_ledger_ok [OF st1(2)])
  have "trove_set_handle_ranges now iter st cid (Some (print_ranges es)) = Some (st2, 0)"
    using st1(1) hl1(1) hl2(1) st2(1) by (simp add: trove_set_handle_ranges_def ranges_roundtrip)
  moreover have "ledgers st2 = (ledgers st)(cid \<mapsto> ?l)" using st1(3) st2(3) by simp
  moreover from this have "mgmt_ok st2" using assms(1) hl2(2) st2(2) by (auto simp: mgmt_ok_def)
  ultimately show ?thesis using handles by (intro exI [of _ st2] exI [of _ ?l]) simp
qed

text \<open>Two ranges, and one batch with the stored handles 21 and 40.\<close>

definition ex_iter :: "nat \<Rightarrow> int \<times> int \<times> TROVE_handle list" where
  "ex_iter k = (if k = 0 then (1, 0, [21, 40]) else (1, 0, []))"

theorem set_handle_ranges_correct_witness:
  "\<exists>st' l. trove_set_handle_ranges zero_timeval ex_iter (fst (trove_handle_mgmt_initialize mgmt_start)) 9
       (Some (print_ranges [ex_extent 20 29, ex_extent 40 49])) = Some (st', 0) \<and>
     have_valid_ranges l = 1 \<and> ledgers st' 9 = Some l \<and>
     ledger_handles (ledger l) = {20..29} \<union> {40..49} - {21, 40}"
proof -
  let ?es = "[ex_extent 20 29, ex_extent 40 49]" and ?st = "fst (trove_handle_mgmt_initialize mgmt_start)"
  have st: "mgmt_ok ?st" "ledgers ?st 9 = None" using initialize_ok [of mgmt_start] by (simp_all add: mgmt_start_def)
  have es: "ranges_ok ?es" "?es \<noteq> []"
    by (auto simp: ranges_ok_def extent_ok_def ex_extent_def handles_of_def)
  have it: "stored_batches ex_iter 1 (\<lambda>_. [21, 40])" by (simp add: stored_batches_def ex_iter_def)
  have cov: "cover (set ?es) = {20..29} \<union> {40..49}" by (simp add: handles_of_def ex_extent_def)
  then have sub: "\<forall>k < 1. set ((\<lambda>_. [21, 40]) k) \<subseteq> cover (set ?es)" by simp
  show ?thesis using set_handle_ranges_correct [OF st es it sub, of zero_timeval] cov by auto
qed

text \<open>
  C20. Calls for different collections do not interfere: whatever a call does, and whether or not it
  succeeds, the ledgers of all other collections are untouched and the table stays well formed.
\<close>

theorem mgmt_collections_independent:
  assumes "mgmt_step cid st st'" "table_ok st"
  shows "table_ok st' \<and> (\<forall>c. c \<noteq> cid \<longrightarrow> ledgers st' c = ledgers st c)"
  using mgmt_step_framed [OF assms] by (simp add: framed_def)

theorem mgmt_collections_independent_witness:
  "\<exists>st'. mgmt_step 9 (fst (trove_handle_mgmt_initialize mgmt_start)) st' \<and> ledgers st' 8 = None"
proof -
  let ?st = "fst (trove_handle_mgmt_initialize mgmt_start)"
  have st: "mgmt_ok ?st" "ledgers ?st = Map.empty" using initialize_ok [of mgmt_start] by (simp_all add: mgmt_start_def)
  then have tbl: "table_ok ?st" by (simp add: mgmt_ok_def)
  have "trove_handle_alloc ?st 9 = Some (?st, 0)"
    using with_ledger_absent [OF tbl, of 9] st(2) by (simp add: trove_handle_alloc_def)
  then have "mgmt_step 9 ?st ?st" by (rule step_alloc)
  then show ?thesis using mgmt_collections_independent [OF _ tbl, of 9 ?st] st(2) by auto
qed

text \<open>
  Allocation for a collection: with valid ranges and an available handle, it returns a handle of
  that collection's ledger and takes it out; without valid ranges, or for an unknown collection,
  it returns the null handle and changes nothing.
\<close>

theorem trove_handle_alloc_correct:
  assumes "mgmt_ok st"
  shows "case ledgers st cid of
      None \<Rightarrow> trove_handle_alloc st cid = Some (st, TROVE_HANDLE_NULL)
    | Some l \<Rightarrow>
        \<exists>st' h l'. trove_handle_alloc st cid = Some (st', h) \<and> mgmt_ok st' \<and> ledgers st' = (ledgers st)(cid \<mapsto> l') \<and>
          (if have_valid_ranges l \<noteq> 1 then h = TROVE_HANDLE_NULL \<and> l' = l
           else if el_free (free_list (ledger l)) = {} then h = - 1 \<and> l' = l
           else h \<in> ledger_handles (ledger l) \<and> ledger_handles (ledger l') = ledger_handles (ledger l) - {h})"
proof (cases "ledgers st cid")
  case None
  have "table_ok st" using assms by (simp add: mgmt_ok_def)
  from with_ledger_absent [OF this None] None show ?thesis by (simp add: trove_handle_alloc_def)
next
  case (Some l)
  have tbl: "table_ok st" and ok: "ledger_ok (ledger l)" using assms Some by (auto simp: mgmt_ok_def)
  let ?f = "\<lambda>l. if have_valid_ranges l = 1 then on_ledger trove_ledger_handle_alloc l else Some (l, 0)"
  have run: "\<exists>st'. trove_handle_alloc st cid = Some (st', h) \<and> mgmt_ok st' \<and> ledgers st' = (ledgers st)(cid \<mapsto> l')"
    if f: "?f l = Some (l', h)" "ledger_ok (ledger l')" "coll_id l' = coll_id l" for l' h
  proof -
    have "coll_id l' = cid" using f(3) ledgers_key [OF Some] by simp
    with tbl Some f(1) obtain st' where "with_ledger st cid 0 ?f = Some (st', h)" "table_ok st'"
        "ledgers st' = (ledgers st)(cid \<mapsto> l')" by (rule with_ledger_ok)
    with f(2) assms show ?thesis by (auto simp: trove_handle_alloc_def mgmt_ok_def)
  qed
  consider (invalid) "have_valid_ranges l \<noteq> 1"
    | (none) "have_valid_ranges l = 1" "el_free (free_list (ledger l)) = {}"
    | (some) "have_valid_ranges l = 1" "el_free (free_list (ledger l)) \<noteq> {}" by blast
  then show ?thesis
  proof cases
    case invalid
    with run [of l 0] ok Some show ?thesis by auto
  next
    case none
    then have "?f l = Some (l, - 1)" using alloc_empty [OF ok] by (simp add: on_ledger_def)
    with run [of l "- 1"] ok none Some show ?thesis by auto
  next
    case some
    obtain hl' where hl': "trove_ledger_handle_alloc (Some (ledger l)) =
          Some (Some hl', Max (el_free (free_list (ledger l))))" "ledger_ok hl'"
        "ledger_handles hl' = ledger_handles (ledger l) - {Max (el_free (free_list (ledger l)))}"
        "Max (el_free (free_list (ledger l))) \<in> ledger_handles (ledger l)"
      by (rule alloc_ok [OF ok some(2)])
    then have "?f l = Some (l\<lparr>ledger := hl'\<rparr>, Max (el_free (free_list (ledger l))))"
      using some by (simp add: on_ledger_def)
    from run [OF this] hl'(2) obtain st' where
      "trove_handle_alloc st cid = Some (st', Max (el_free (free_list (ledger l))))" "mgmt_ok st'"
      "ledgers st' = (ledgers st)(cid \<mapsto> l\<lparr>ledger := hl'\<rparr>)" by auto
    with hl'(3,4) some Some show ?thesis
      by (simp, intro exI [of _ "l\<lparr>ledger := hl'\<rparr>"]) simp
  qed
qed

theorem trove_handle_alloc_correct_witness:
  "trove_handle_alloc (fst (trove_handle_mgmt_initialize mgmt_start)) 9 =
     Some (fst (trove_handle_mgmt_initialize mgmt_start), TROVE_HANDLE_NULL)"
proof -
  have "mgmt_ok (fst (trove_handle_mgmt_initialize mgmt_start))"
    "ledgers (fst (trove_handle_mgmt_initialize mgmt_start)) = Map.empty"
    using initialize_ok [of mgmt_start] by (simp_all add: mgmt_start_def)
  with trove_handle_alloc_correct [of "fst (trove_handle_mgmt_initialize mgmt_start)" 9]
  show ?thesis by simp
qed

text \<open>Finalisation of an initialised table always returns and leaves no table behind.\<close>

theorem trove_handle_mgmt_finalize_returns:
  assumes "table_ok st"
  shows "trove_handle_mgmt_finalize st = Some (st\<lparr>s_fsid_to_ledger_table := None\<rparr>, 0)"
proof -
  obtain t where t: "s_fsid_to_ledger_table st = Some t" "table_size t = int (length (qarray t))"
    using assms by (auto simp: table_ok_def fsid.managed_def qhash_ok_def)
  with finalize_chains_ok [OF t(2), of "nat (table_size t)"] show ?thesis
    by (auto simp: trove_handle_mgmt_finalize_def)
qed

theorem trove_handle_mgmt_finalize_returns_witness:
  "trove_handle_mgmt_finalize (fst (trove_handle_mgmt_initialize mgmt_start)) =
     Some ((fst (trove_handle_mgmt_initialize mgmt_start))\<lparr>s_fsid_to_ledger_table := None\<rparr>, 0)"
proof (rule trove_handle_mgmt_finalize_returns)
  show "table_ok (fst (trove_handle_mgmt_initialize mgmt_start))"
    using initialize_ok(1) [of mgmt_start] by (simp add: mgmt_start_def mgmt_ok_def)
qed

end
