(* ===== verification/Dist_Interface.thy ===== *)
theory Dist_Interface
  imports Ofs_Prelude "HOL-Library.Signed_Division"
begin

text \<open>
  The interface of the data distributions, \<open>PINT_dist_methods\<close> of
  \<open>src/io/description/pint-distribution.h\<close>: how the bytes of a file are spread over the data
  files of several servers.

  Offsets and sizes (\<open>PVFS_offset\<close>, \<open>PVFS_size\<close>, both \<open>int64_t\<close>) are integers: the code has
  no defined behaviour when they overflow. C division and remainder truncate towards zero and
  are \<open>sdiv\<close> and \<open>smod\<close>. The \<open>uint32_t\<close> server numbers and counts are integers too, reduced
  modulo \<open>2 ^ 32\<close> where the code computes with them at that width.

  The locale \<open>dist_bounded\<close> states what a distribution promises for one server, with
  \<open>mine\<close> telling which logical offsets are stored there: the two offset mappings are inverse to
  each other, \<open>next_mapped_offset\<close> finds the next logical offset stored there, and
  \<open>contiguous_length\<close> bounds a run that is contiguous on both sides. Some distributions count
  stripes in 32 bits; \<open>lin\<close> and \<open>pin\<close> are the logical and physical offsets for which that is
  enough. \<open>dist_map\<close> is the contract without such a bound, and \<open>dist_rank\<close> adds that the
  physical offset is the number of bytes before it that are stored there; what follows from
  that alone is in \<open>dist_counting\<close>.
\<close>

section \<open>Data\<close>

type_synonym PVFS_offset = int
type_synonym PVFS_size = int

text \<open>The pointer \<open>dist\<close> is a parameter of the definitions that use it; the distributions do not read \<open>extend_flag\<close>.\<close>

record PINT_request_file_data =
  fsize :: PVFS_size
  server_nr :: int
  server_ct :: int
  extend_flag :: bool

abbreviation uint32 :: "int \<Rightarrow> int" where
  "uint32 x \<equiv> x mod 2 ^ 32"

text \<open>The number of data files asked for, or one per server.\<close>

definition PINT_dist_default_get_num_dfiles :: "int \<Rightarrow> int \<Rightarrow> int" where
  "PINT_dist_default_get_num_dfiles num_servers_requested num_dfiles_requested =
     (if 0 < num_dfiles_requested then num_dfiles_requested else num_servers_requested)"

section \<open>C division\<close>

lemma sdiv_nonneg: "0 \<le> a \<Longrightarrow> 0 \<le> b \<Longrightarrow> a sdiv b = a div (b :: int)"
  by (cases "a = 0"; cases "b = 0") (simp_all add: signed_divide_int_def)

lemma smod_nonneg: "0 \<le> a \<Longrightarrow> 0 \<le> b \<Longrightarrow> a smod b = a mod (b :: int)"
  by (cases "a = 0"; cases "b = 0") (simp_all add: signed_modulo_int_def)

lemma smod_small_neg: "- b < a \<Longrightarrow> a < 0 \<Longrightarrow> a smod b = (a :: int)"
  by (simp add: signed_modulo_int_def)

lemmas c_division = sdiv_nonneg smod_nonneg

text \<open>A number from its quotient and remainder, and back.\<close>

lemma quot_rem:
  fixes q t S :: int
  assumes "0 \<le> t" "t < S"
  shows "(q * S + t) div S = q" "(q * S + t) mod S = t"
  using assms by (simp_all add: algebra_simps)

lemma mult_less_div:
  fixes x G k :: int
  assumes "0 < G" "x < k * G"
  shows "x div G < k"
proof (rule ccontr)
  assume "\<not> x div G < k"
  then have "k * G \<le> x div G * G" using assms(1) by (intro mult_right_mono) auto
  then show False using assms pos_mod_sign [of G x] div_mult_mod_eq [of x G] by linarith
qed

lemma div_less_iff:
  fixes x G k :: int
  assumes "0 < G"
  shows "x < k * G \<longleftrightarrow> x div G < k"
proof
  assume "x div G < k"
  then have "(x div G + 1) * G \<le> k * G" using assms by (intro mult_right_mono) auto
  then have "x div G * G + G \<le> k * G" by (simp add: distrib_right)
  then show "x < k * G" using pos_mod_bound [OF assms, of x] div_mult_mod_eq [of x G] by linarith
qed (rule mult_less_div [OF assms])

text \<open>Counting by steps of one byte.\<close>

lemma rank_by_step:
  fixes f :: "int \<Rightarrow> int"
  assumes "f 0 = 0" "\<And>x. 0 \<le> x \<Longrightarrow> f (x + 1) = f x + (if P x then 1 else 0)" "0 \<le> x"
  shows "f x = int (card {y. 0 \<le> y \<and> y < x \<and> P y})"
  using assms(3)
proof (induction x rule: int_ge_induct)
  case base
  have "{y :: int. 0 \<le> y \<and> y < 0 \<and> P y} = {}" by auto
  then show ?case by (simp only: assms(1) card.empty of_nat_0)
next
  case (step x)
  have fin: "finite {y. 0 \<le> y \<and> y < x \<and> P y}" by (rule finite_subset [of _ "{0..<x}"]) auto
  have "{y. 0 \<le> y \<and> y < x + 1 \<and> P y} =
      (if P x then insert x {y. 0 \<le> y \<and> y < x \<and> P y} else {y. 0 \<le> y \<and> y < x \<and> P y})"
    using step.hyps by (auto simp: less_le)
  then show ?case using step assms(2) [of x] fin by simp
qed

text \<open>The servers that share the bytes of a file hold all of them together.\<close>

lemma count_partition:
  fixes P :: "int \<Rightarrow> int \<Rightarrow> bool"
  assumes "\<And>y. 0 \<le> y \<Longrightarrow> y < L \<Longrightarrow> \<exists>!s. 0 \<le> s \<and> s < n \<and> P s y" "0 \<le> L"
  shows "(\<Sum>s\<in>{0..<n}. int (card {y. 0 \<le> y \<and> y < L \<and> P s y})) = L"
proof -
  let ?A = "\<lambda>s. {y. 0 \<le> y \<and> y < L \<and> P s y}"
  have fin: "finite (?A s)" for s by (rule finite_subset [of _ "{0..<L}"]) auto
  have "(\<Union>s\<in>{0..<n}. ?A s) = {0..<L}"
  proof
    show "{0..<L} \<subseteq> (\<Union>s\<in>{0..<n}. ?A s)"
    proof
      fix y assume "y \<in> {0..<L}"
      with ex1_implies_ex [OF assms(1), of y] show "y \<in> (\<Union>s\<in>{0..<n}. ?A s)" by auto
    qed
  qed auto
  moreover have "card (\<Union>s\<in>{0..<n}. ?A s) = (\<Sum>s\<in>{0..<n}. card (?A s))"
  proof (rule card_UN_disjoint)
    show "\<forall>s\<in>{0..<n}. \<forall>t\<in>{0..<n}. s \<noteq> t \<longrightarrow> ?A s \<inter> ?A t = {}" using assms(1) by fastforce
  qed (use fin in auto)
  ultimately have "(\<Sum>s\<in>{0..<n}. card (?A s)) = nat L" by simp
  then have "(\<Sum>s\<in>{0..<n}. int (card (?A s))) = int (nat L)" by (simp flip: of_nat_sum)
  then show ?thesis using assms(2) by simp
qed

section \<open>Contracts\<close>

text \<open>A configuration \<open>c\<close> holds the parameters of the distribution and the server.\<close>

locale dist_bounded =
  fixes valid :: "'c \<Rightarrow> bool"
    and l2p p2l next_off contig :: "'c \<Rightarrow> int \<Rightarrow> int"
    and mine lin pin :: "'c \<Rightarrow> int \<Rightarrow> bool"
  assumes p2l_mine: "valid c \<Longrightarrow> 0 \<le> p \<Longrightarrow> pin c p \<Longrightarrow> 0 \<le> p2l c p \<and> mine c (p2l c p) \<and> lin c (p2l c p)"
    and l2p_p2l: "valid c \<Longrightarrow> 0 \<le> p \<Longrightarrow> pin c p \<Longrightarrow> l2p c (p2l c p) = p"
    and p2l_l2p: "valid c \<Longrightarrow> 0 \<le> x \<Longrightarrow> lin c x \<Longrightarrow> mine c x \<Longrightarrow>
      0 \<le> l2p c x \<and> pin c (l2p c x) \<and> p2l c (l2p c x) = x"
    and next_mine: "valid c \<Longrightarrow> 0 \<le> x \<Longrightarrow> lin c x \<Longrightarrow> x \<le> next_off c x \<and> mine c (next_off c x)"
    and next_first: "valid c \<Longrightarrow> 0 \<le> x \<Longrightarrow> lin c x \<Longrightarrow> x \<le> y \<Longrightarrow> y < next_off c x \<Longrightarrow> \<not> mine c y"
    and contig_pos: "valid c \<Longrightarrow> 0 \<le> p \<Longrightarrow> pin c p \<Longrightarrow> 0 < contig c p"
    and contig_run: "valid c \<Longrightarrow> 0 \<le> p \<Longrightarrow> pin c p \<Longrightarrow> 0 \<le> i \<Longrightarrow> i < contig c p \<Longrightarrow>
      pin c (p + i) \<and> p2l c (p + i) = p2l c p + i"
begin

lemma p2l_inj: "valid c \<Longrightarrow> 0 \<le> p \<Longrightarrow> pin c p \<Longrightarrow> 0 \<le> q \<Longrightarrow> pin c q \<Longrightarrow> p2l c p = p2l c q \<Longrightarrow> p = q"
  by (metis l2p_p2l)

lemma p2l_bij:
  assumes c: "valid c"
  shows "bij_betw (p2l c) {p. 0 \<le> p \<and> pin c p} {x. 0 \<le> x \<and> lin c x \<and> mine c x}"
proof (rule bij_betw_byWitness [where f' = "l2p c"])
  show "p2l c ` {p. 0 \<le> p \<and> pin c p} \<subseteq> {x. 0 \<le> x \<and> lin c x \<and> mine c x}" using p2l_mine [OF c] by auto
  show "l2p c ` {x. 0 \<le> x \<and> lin c x \<and> mine c x} \<subseteq> {p. 0 \<le> p \<and> pin c p}" using p2l_l2p [OF c] by auto
qed (use l2p_p2l [OF c] p2l_l2p [OF c] in auto)

lemma next_least: "valid c \<Longrightarrow> 0 \<le> x \<Longrightarrow> lin c x \<Longrightarrow> x \<le> y \<Longrightarrow> mine c y \<Longrightarrow> next_off c x \<le> y"
  using next_first [of c x y] by force

lemma next_mine_id: "valid c \<Longrightarrow> 0 \<le> x \<Longrightarrow> lin c x \<Longrightarrow> mine c x \<Longrightarrow> next_off c x = x"
  using next_mine [of c x] next_least [of c x x] by force

text \<open>
  A run of \<open>contig\<close> bytes stays on this server: a request that starts at a logical offset
  of this server can transfer that many bytes as one piece.
\<close>

lemma contig_mine:
  assumes "valid c" "0 \<le> x" "lin c x" "mine c x" "0 \<le> i" "i < contig c (l2p c x)"
  shows "mine c (x + i)" "l2p c (x + i) = l2p c x + i"
proof -
  have p: "0 \<le> l2p c x" "pin c (l2p c x)" "p2l c (l2p c x) = x" using p2l_l2p [OF assms(1-4)] by auto
  have eq: "pin c (l2p c x + i)" "p2l c (l2p c x + i) = x + i"
    using contig_run [OF assms(1) p(1,2) assms(5,6)] p(3) by simp_all
  show "mine c (x + i)" using p2l_mine [OF assms(1) _ eq(1)] p(1) assms(5) eq(2) by simp
  show "l2p c (x + i) = l2p c x + i" using l2p_p2l [OF assms(1) _ eq(1)] p(1) assms(5) eq(2) by simp
qed

end

text \<open>The same with no bound on the offsets.\<close>

locale dist_map =
  fixes valid :: "'c \<Rightarrow> bool"
    and l2p p2l next_off contig :: "'c \<Rightarrow> int \<Rightarrow> int"
    and mine :: "'c \<Rightarrow> int \<Rightarrow> bool"
  assumes p2l_mine: "valid c \<Longrightarrow> 0 \<le> p \<Longrightarrow> 0 \<le> p2l c p \<and> mine c (p2l c p)"
    and l2p_p2l: "valid c \<Longrightarrow> 0 \<le> p \<Longrightarrow> l2p c (p2l c p) = p"
    and p2l_l2p: "valid c \<Longrightarrow> 0 \<le> x \<Longrightarrow> mine c x \<Longrightarrow> 0 \<le> l2p c x \<and> p2l c (l2p c x) = x"
    and next_mine: "valid c \<Longrightarrow> 0 \<le> x \<Longrightarrow> x \<le> next_off c x \<and> mine c (next_off c x)"
    and next_first: "valid c \<Longrightarrow> 0 \<le> x \<Longrightarrow> x \<le> y \<Longrightarrow> y < next_off c x \<Longrightarrow> \<not> mine c y"
    and contig_pos: "valid c \<Longrightarrow> 0 \<le> p \<Longrightarrow> 0 < contig c p"
    and contig_run: "valid c \<Longrightarrow> 0 \<le> p \<Longrightarrow> 0 \<le> i \<Longrightarrow> i < contig c p \<Longrightarrow> p2l c (p + i) = p2l c p + i"

sublocale dist_map \<subseteq> bnd: dist_bounded valid l2p p2l next_off contig mine "\<lambda>_ _. True" "\<lambda>_ _. True"
  by unfold_locales (simp_all add: p2l_mine l2p_p2l p2l_l2p next_mine next_first contig_pos contig_run)

context dist_map
begin

lemmas p2l_bij = bnd.p2l_bij [simplified]
lemmas next_least = bnd.next_least [OF _ _ TrueI]
lemmas contig_mine = bnd.contig_mine [OF _ _ TrueI]

end

text \<open>
  When the physical offset of \<open>x\<close> is the number of bytes before it that the server stores, the
  rest of the contract follows from the inverse mapping alone: the next offset of the server
  is the image of that number.
\<close>

locale dist_counting =
  fixes valid :: "'c \<Rightarrow> bool"
    and l2p p2l :: "'c \<Rightarrow> int \<Rightarrow> int"
    and mine :: "'c \<Rightarrow> int \<Rightarrow> bool"
  assumes p2l_mine: "valid c \<Longrightarrow> 0 \<le> p \<Longrightarrow> 0 \<le> p2l c p \<and> mine c (p2l c p)"
    and l2p_p2l: "valid c \<Longrightarrow> 0 \<le> p \<Longrightarrow> l2p c (p2l c p) = p"
    and rank: "valid c \<Longrightarrow> 0 \<le> x \<Longrightarrow> l2p c x = int (card {y. 0 \<le> y \<and> y < x \<and> mine c y})"
begin

lemma finite_below: "finite {y. 0 \<le> y \<and> y < x \<and> mine c y}"
  by (rule finite_subset [of _ "{0..<x}"]) auto

lemma l2p_mono:
  assumes "valid c" "0 \<le> x" "x \<le> y"
  shows "l2p c x \<le> l2p c y"
proof -
  have "card {z. 0 \<le> z \<and> z < x \<and> mine c z} \<le> card {z. 0 \<le> z \<and> z < y \<and> mine c z}"
    using assms by (intro card_mono finite_below) auto
  then show ?thesis using rank [of c x] rank [of c y] assms by simp
qed

lemma l2p_step:
  assumes "valid c" "0 \<le> x" "mine c x"
  shows "l2p c (x + 1) = l2p c x + 1"
proof -
  have "{y. 0 \<le> y \<and> y < x + 1 \<and> mine c y} = insert x {y. 0 \<le> y \<and> y < x \<and> mine c y}"
    using assms(2,3) by (auto simp: less_le)
  then show ?thesis
    using rank [OF assms(1), of "x + 1"] rank [OF assms(1,2)] assms(2) finite_below by simp
qed

lemma l2p_less:
  assumes "valid c" "0 \<le> x" "mine c x" "x < y"
  shows "l2p c x < l2p c y"
  using l2p_step [OF assms(1-3)] l2p_mono [OF assms(1), of "x + 1" y] assms(2,4) by simp

lemma p2l_strict_mono:
  assumes "valid c" "0 \<le> p" "p < q"
  shows "p2l c p < p2l c q"
proof (rule ccontr)
  assume "\<not> p2l c p < p2l c q"
  then have "l2p c (p2l c q) \<le> l2p c (p2l c p)"
    using p2l_mine [OF assms(1), of q] assms by (intro l2p_mono) auto
  then show False using l2p_p2l [OF assms(1), of p] l2p_p2l [OF assms(1), of q] assms by simp
qed

lemma l2p_bound: "valid c \<Longrightarrow> 0 \<le> x \<Longrightarrow> 0 \<le> l2p c x \<and> l2p c x \<le> x"
proof -
  assume "valid c" "0 \<le> x"
  moreover have "card {y. 0 \<le> y \<and> y < x \<and> mine c y} \<le> card {0..<x}" by (rule card_mono) auto
  ultimately show "0 \<le> l2p c x \<and> l2p c x \<le> x" using rank [of c x] by simp
qed

lemma image_reach: "valid c \<Longrightarrow> 0 \<le> x \<Longrightarrow> x \<le> p2l c (l2p c x)"
  using l2p_less [of c "p2l c (l2p c x)" x] p2l_mine [of c "l2p c x"] l2p_p2l [of c "l2p c x"]
    l2p_bound [of c x] by force

lemma image_gap:
  assumes "valid c" "0 \<le> x" "x \<le> y" "y < p2l c (l2p c x)"
  shows "\<not> mine c y"
proof
  assume "mine c y"
  with assms have "l2p c y < l2p c (p2l c (l2p c x))" by (intro l2p_less) auto
  then have "l2p c y < l2p c x" using l2p_p2l [OF assms(1)] l2p_bound [OF assms(1,2)] by simp
  then show False using l2p_mono [OF assms(1-3)] by simp
qed

lemma image_mine: "valid c \<Longrightarrow> 0 \<le> x \<Longrightarrow> mine c x \<Longrightarrow> p2l c (l2p c x) = x"
  using image_reach [of c x] image_gap [of c x x] by force

text \<open>The size on one server of a file of \<open>x\<close> bytes leads back to the size of the file.\<close>

lemma last_byte_below:
  assumes "valid c" "0 \<le> x" "0 < l2p c x"
  shows "p2l c (l2p c x - 1) < x"
proof (rule ccontr)
  assume "\<not> p2l c (l2p c x - 1) < x"
  then have "l2p c x \<le> l2p c (p2l c (l2p c x - 1))" using assms by (intro l2p_mono) auto
  then show False using l2p_p2l [OF assms(1), of "l2p c x - 1"] assms(3) by simp
qed

lemma last_byte_mine:
  assumes "valid c" "0 < x" "mine c (x - 1)"
  shows "0 < l2p c x" "p2l c (l2p c x - 1) = x - 1"
  using l2p_step [OF assms(1), of "x - 1"] image_mine [OF assms(1), of "x - 1"]
    l2p_bound [OF assms(1), of "x - 1"] assms(2,3) by simp_all

end

locale dist_rank = dist_map +
  assumes rank: "valid c \<Longrightarrow> 0 \<le> x \<Longrightarrow> l2p c x = int (card {y. 0 \<le> y \<and> y < x \<and> mine c y})"

sublocale dist_rank \<subseteq> cnt: dist_counting valid l2p p2l mine
  by unfold_locales (rule p2l_mine l2p_p2l rank, assumption+)+

end
