(* ===== verification/Pint_Request.thy ===== *)
theory Pint_Request
  imports Dist_Interface
begin

text \<open>
  The request engine, \<open>src/io/description/pint-request.c\<close> with \<open>pint-request.h\<close>: a request
  describes regions of a file or of memory as a nested pattern of blocks, like an MPI datatype. The
  engine walks the pattern, splits every contiguous region into the parts that the distribution
  of the file stores on one server, and returns them as segments.

  The engine only follows the pointers between the structures of a request. A request is
  therefore the tree that they span; a pointer is an option, and \<open>None\<close> is NULL. The walk compares
  pointers only between an element of a sequence chain and the head of the chain, which differ as
  trees whenever they differ as pointers.

  Offsets and sizes are integers, as for the distributions. \<open>None\<close> as the result of an operation
  means that the code would dereference NULL, leave the bounds of an array, divide by zero, fail an
  assertion or not return. Allocation succeeds.
\<close>

unbundle bit_operations_syntax

section \<open>Modes\<close>

definition PINT_SERVER :: int where "PINT_SERVER = 1"
definition PINT_CLIENT :: int where "PINT_CLIENT = 2"
definition PINT_CKSIZE :: int where "PINT_CKSIZE = 4"
definition PINT_LOGICAL_SKIP :: int where "PINT_LOGICAL_SKIP = 16"
definition PINT_MEMREQ :: int where "PINT_MEMREQ = 64"

definition PINT_IS_CLIENT :: "int \<Rightarrow> bool" where "PINT_IS_CLIENT x \<longleftrightarrow> x AND PINT_CLIENT \<noteq> 0"
definition PINT_IS_CKSIZE :: "int \<Rightarrow> bool" where "PINT_IS_CKSIZE x \<longleftrightarrow> x AND PINT_CKSIZE \<noteq> 0"
definition PINT_EQ_CKSIZE :: "int \<Rightarrow> bool" where "PINT_EQ_CKSIZE x \<longleftrightarrow> x = PINT_CKSIZE"
definition PINT_IS_LOGICAL_SKIP :: "int \<Rightarrow> bool" where "PINT_IS_LOGICAL_SKIP x \<longleftrightarrow> x AND PINT_LOGICAL_SKIP \<noteq> 0"
definition PINT_IS_MEMREQ :: "int \<Rightarrow> bool" where "PINT_IS_MEMREQ x \<longleftrightarrow> x AND PINT_MEMREQ \<noteq> 0"
definition PINT_SET_LOGICAL_SKIP :: "int \<Rightarrow> int" where "PINT_SET_LOGICAL_SKIP x = x OR PINT_LOGICAL_SKIP"
definition PINT_CLR_LOGICAL_SKIP :: "int \<Rightarrow> int" where "PINT_CLR_LOGICAL_SKIP x = x AND NOT PINT_LOGICAL_SKIP"

lemmas mode_defs = PINT_SERVER_def PINT_CLIENT_def PINT_CKSIZE_def PINT_LOGICAL_SKIP_def PINT_MEMREQ_def
  PINT_IS_CLIENT_def PINT_IS_CKSIZE_def PINT_EQ_CKSIZE_def PINT_IS_LOGICAL_SKIP_def PINT_IS_MEMREQ_def
  PINT_SET_LOGICAL_SKIP_def PINT_CLR_LOGICAL_SKIP_def

section \<open>Data\<close>

text \<open>The structure, with the type of its pointers as a parameter.\<close>

datatype 'p PINT_Request =
  PINT_Request (offset: PVFS_offset) (num_ereqs: int) (num_blocks: int) (stride: PVFS_size)
    (ub: PVFS_offset) (lb: PVFS_offset) (aggregate_size: PVFS_size) (num_contig_chunks: int)
    (depth: int) (num_nested_req: int) (committed: int) (refcount: int)
    (ereq: "'p option") (sreq: "'p option")

datatype request = At (deref: "request PINT_Request")

record PINT_reqstack =
  el :: int
  maxel :: int
  rq :: "request option"
  rqbase :: "request option"
  blk :: int
  chunk_offset :: PVFS_offset

record PINT_Request_state =
  cur :: "PINT_reqstack list"
  lvl :: int
  bytes :: PVFS_size
  type_offset :: PVFS_offset
  target_offset :: PVFS_offset
  final_offset :: PVFS_offset
  eof_flag :: bool

text \<open>The arrays of a result may be NULL.\<close>

record PINT_Request_result =
  offset_array :: "PVFS_offset list option"
  size_array :: "PVFS_size list option"
  segmax :: int
  segs :: int
  bytemax :: PVFS_size
  res_bytes :: PVFS_size

text \<open>The methods of a distribution with its parameters; they fault for the parameters of some.\<close>

record PINT_dist_methods =
  logical_to_physical_offset :: "PINT_request_file_data \<Rightarrow> PVFS_offset \<Rightarrow> PVFS_offset option"
  next_mapped_offset :: "PINT_request_file_data \<Rightarrow> PVFS_offset \<Rightarrow> PVFS_offset option"
  contiguous_length :: "PINT_request_file_data \<Rightarrow> PVFS_offset \<Rightarrow> PVFS_size option"

section \<open>Arrays\<close>

definition get_offset :: "PINT_Request_result \<Rightarrow> int \<Rightarrow> PVFS_offset option" where
  "get_offset r i = (case offset_array r of None \<Rightarrow> None | Some xs \<Rightarrow> array_get xs i)"

definition get_size :: "PINT_Request_result \<Rightarrow> int \<Rightarrow> PVFS_size option" where
  "get_size r i = (case size_array r of None \<Rightarrow> None | Some xs \<Rightarrow> array_get xs i)"

definition set_offset :: "PINT_Request_result \<Rightarrow> int \<Rightarrow> PVFS_offset \<Rightarrow> PINT_Request_result option" where
  "set_offset r i x = (case offset_array r of None \<Rightarrow> None
     | Some xs \<Rightarrow> map_option (\<lambda>ys. r\<lparr>offset_array := Some ys\<rparr>) (array_set xs i x))"

definition set_size :: "PINT_Request_result \<Rightarrow> int \<Rightarrow> PVFS_size \<Rightarrow> PINT_Request_result option" where
  "set_size r i x = (case size_array r of None \<Rightarrow> None
     | Some xs \<Rightarrow> map_option (\<lambda>ys. r\<lparr>size_array := Some ys\<rparr>) (array_set xs i x))"

section \<open>Segments\<close>

definition add_bytes :: "PINT_Request_result \<Rightarrow> PVFS_size \<Rightarrow> PINT_Request_result" where
  "add_bytes r sz = r\<lparr>res_bytes := res_bytes r + sz\<rparr>"

text \<open>Whether the last segment ends at the offset; it is looked at only if there is one.\<close>

definition ends_at :: "PINT_Request_result \<Rightarrow> PVFS_offset \<Rightarrow> bool option" where
  "ends_at r off =
     (if segs r > 0 then
        (case (get_offset r (segs r - 1), get_size r (segs r - 1)) of
           (Some o1, Some s1) \<Rightarrow> Some (o1 + s1 = off)
         | _ \<Rightarrow> None)
      else Some False)"

definition PINT_ADD_SEGMENT :: "PINT_Request_result \<Rightarrow> PVFS_offset \<Rightarrow> PVFS_size \<Rightarrow> int \<Rightarrow> PINT_Request_result option" where
  "PINT_ADD_SEGMENT r off sz mode =
     (if sz > 0 then
        if PINT_IS_CKSIZE mode then Some (add_bytes (r\<lparr>segs := segs r + 1\<rparr>) sz)
        else
          (case ends_at r off of
             None \<Rightarrow> None
           | Some True \<Rightarrow>
               (case get_size r (segs r - 1) of
                  None \<Rightarrow> None
                | Some s1 \<Rightarrow> map_option (\<lambda>r'. add_bytes r' sz) (set_size r (segs r - 1) (s1 + sz)))
           | Some False \<Rightarrow>
               (case set_offset r (segs r) off of
                  None \<Rightarrow> None
                | Some r1 \<Rightarrow>
                    map_option (\<lambda>r2. add_bytes (r2\<lparr>segs := segs r + 1\<rparr>) sz) (set_size r1 (segs r) sz)))
      else Some r)"

section \<open>The walk\<close>

lemma ereq_size: "ereq (deref r) = Some e \<Longrightarrow> size e < size r"
  by (cases r; cases "deref r") auto

lemma sreq_size: "sreq (deref r) = Some e \<Longrightarrow> size e < size r"
  by (cases r; cases "deref r") auto

text \<open>The sum of the offsets down the list of element types.\<close>

function PINT_request_disp :: "request \<Rightarrow> PVFS_offset" where
  "PINT_request_disp r =
     (case ereq (deref r) of None \<Rightarrow> 0 | Some e \<Rightarrow> offset (deref e) + PINT_request_disp e)"
  by pat_completeness auto
termination by (relation "measure size") (auto simp: ereq_size)

declare PINT_request_disp.simps [simp del]

definition extent :: "request \<Rightarrow> PVFS_size" where
  "extent r = ub (deref r) - lb (deref r)"

text \<open>
  The contiguous region at the top of the stack: its offset and size, what is left of it after
  \<open>bytes\<close>, and whether it completes the level. \<open>Some None\<close> means that the walk goes down a level.
\<close>

definition contig_region :: "PINT_reqstack \<Rightarrow> PVFS_size \<Rightarrow> (PVFS_offset \<times> PVFS_size \<times> bool) option option" where
  "contig_region s b =
     (case rq s of
        None \<Rightarrow> Some (Some (chunk_offset s + b, maxel s - b, True))
      | Some r \<Rightarrow>
          (case ereq (deref r) of
             None \<Rightarrow>
               if rq s = rqbase s then
                 Some (Some (offset (deref r) + chunk_offset s + b + PINT_request_disp r,
                             maxel s * aggregate_size (deref r) - b, True))
               else None
           | Some e \<Rightarrow>
               (case rqbase s of
                  None \<Rightarrow> None
                | Some base \<Rightarrow>
                    if aggregate_size (deref r) = extent base \<and> num_contig_chunks (deref e) = 1 \<and> r = base then
                      Some (Some (offset (deref r) + chunk_offset s + b + PINT_request_disp r,
                                  maxel s * aggregate_size (deref r) - b, True))
                    else if aggregate_size (deref e) = extent e \<and> num_contig_chunks (deref e) = 1 then
                      Some (Some (chunk_offset s + el s * extent base + offset (deref r) +
                                    stride (deref r) * blk s + b + PINT_request_disp r,
                                  aggregate_size (deref e) * num_ereqs (deref r) - b, False))
                    else Some None)))"

text \<open>The next level starts at the first element of the element type.\<close>

definition next_level :: "PINT_reqstack \<Rightarrow> PINT_reqstack option" where
  "next_level s =
     (case (rq s, rqbase s) of
        (Some r, Some base) \<Rightarrow>
          Some \<lparr>el = 0, maxel = num_ereqs (deref r), rq = ereq (deref r), rqbase = ereq (deref r), blk = 0,
                chunk_offset = chunk_offset s + el s * extent base + offset (deref r) + stride (deref r) * blk s\<rparr>
      | _ \<Rightarrow> None)"

text \<open>
  The label \<open>return_from_level\<close>: the next block, the next item of the sequence chain, the next
  element, or the level above.
\<close>

function return_from_level :: "PINT_reqstack list \<Rightarrow> int \<Rightarrow> (PINT_reqstack list \<times> int) option" where
  "return_from_level c l =
     (if l < 0 then Some (c, l)
      else
        (case array_get c l of
           None \<Rightarrow> None
         | Some s \<Rightarrow>
             (case rq s of
                None \<Rightarrow> None
              | Some r \<Rightarrow>
                  if blk s + 1 \<ge> num_blocks (deref r) then
                    (case sreq (deref r) of
                       Some r' \<Rightarrow> Some (c[nat l := s\<lparr>blk := 0, rq := Some r'\<rparr>], l)
                     | None \<Rightarrow>
                         let s' = s\<lparr>blk := 0, rq := rqbase s, el := el s + 1\<rparr>
                         in if el s' \<ge> maxel s' then return_from_level (c[nat l := s']) (l - 1)
                            else Some (c[nat l := s'], l))
                  else Some (c[nat l := s\<lparr>blk := blk s + 1\<rparr>], l))))"
  by pat_completeness auto
termination by (relation "measure (\<lambda>(c, l). nat (l + 1))") auto

declare return_from_level.simps [simp del]

section \<open>The loop\<close>

text \<open>
  What the loop changes: the request state, the state of the memory request if there is one, the
  data of the file and the result.
\<close>

type_synonym walk = "PINT_Request_state \<times> PINT_Request_state option \<times> PINT_request_file_data \<times> PINT_Request_result"

text \<open>
  \<open>PINT_distribute\<close> as the loop calls it: offset, size, and what it changes, with the return
  value and the end of file flag.
\<close>

type_synonym distributor = "PVFS_offset \<Rightarrow> PVFS_size \<Rightarrow> PINT_request_file_data \<Rightarrow> PINT_Request_state option
  \<Rightarrow> PINT_Request_result \<Rightarrow> int
  \<Rightarrow> (PVFS_size \<times> PINT_request_file_data \<times> PINT_Request_state option \<times> PINT_Request_result \<times> bool) option"

datatype outcome = Again int walk | Done walk | Failed walk

text \<open>
  One region: the bytes before the target are skipped; otherwise segments are made of the region up
  to the final offset, by the distribution or, for a memory request, directly. The result has the
  number of bytes processed; \<open>-1\<close> stands for that return value of \<open>PINT_distribute\<close>.
\<close>

definition process_region :: "distributor \<Rightarrow> int \<Rightarrow> PVFS_offset \<Rightarrow> PVFS_size \<Rightarrow> walk \<Rightarrow> (PVFS_size \<times> walk) option" where
  "process_region D mode off sz0 w =
     (case w of (req, mem, fd, res) \<Rightarrow>
        if PINT_IS_LOGICAL_SKIP mode then
          Some (if type_offset req + sz0 \<ge> target_offset req then target_offset req - type_offset req else sz0,
                (req\<lparr>eof_flag := fsize fd \<le> type_offset req \<and> \<not> extend_flag fd\<rparr>, mem, fd, res))
        else
          let sz = (if type_offset req + sz0 > final_offset req then final_offset req - type_offset req else sz0)
          in if PINT_IS_MEMREQ mode then
               let sz = (if res_bytes res + sz \<ge> bytemax res then bytemax res - res_bytes res else sz)
               in map_option (\<lambda>res'. (sz, (req, mem, fd, res'))) (PINT_ADD_SEGMENT res off sz mode)
             else
               map_option (\<lambda>(retval, fd', mem', res', eof). (retval, (req\<lparr>eof_flag := eof\<rparr>, mem', fd', res')))
                 (D off sz fd mem res mode))"

text \<open>What follows when the whole region has been processed.\<close>

definition process_return :: "int \<Rightarrow> bool \<Rightarrow> walk \<Rightarrow> outcome option" where
  "process_return mode lvl_flag w =
     (case w of (req, mem, fd, res) \<Rightarrow>
        (case return_from_level (cur req) (if lvl_flag then lvl req - 1 else lvl req) of
           None \<Rightarrow> None
         | Some (c, l) \<Rightarrow>
             let w' = (req\<lparr>cur := c, lvl := l, bytes := 0\<rparr>, mem, fd, res)
             in Some (if l < 0 then Done w'
                      else if res_bytes res = bytemax res \<or> (\<not> PINT_IS_CKSIZE mode \<and> segs res = segmax res) then Done w'
                      else if type_offset req \<ge> final_offset req then Done w'
                      else Again mode w')))"

definition process_iter :: "distributor \<Rightarrow> int \<Rightarrow> walk \<Rightarrow> outcome option" where
  "process_iter D mode w =
     (case w of (req, mem, fd, res) \<Rightarrow>
        (case array_get (cur req) (lvl req) of
           None \<Rightarrow> None
         | Some s \<Rightarrow>
             (case contig_region s (bytes req) of
                None \<Rightarrow> None
              | Some None \<Rightarrow>
                  (case array_get (cur req) 0 of
                     None \<Rightarrow> None
                   | Some s0 \<Rightarrow>
                       (case rqbase s0 of
                          None \<Rightarrow> None
                        | Some base0 \<Rightarrow>
                            if lvl req + 1 \<ge> depth (deref base0) then Some (Failed w)
                            else
                              (case next_level s of
                                 None \<Rightarrow> None
                               | Some s' \<Rightarrow>
                                   map_option (\<lambda>c. Again mode (req\<lparr>cur := c, lvl := lvl req + 1\<rparr>, mem, fd, res))
                                     (array_set (cur req) (lvl req + 1) s'))))
              | Some (Some (off, sz, lvl_flag)) \<Rightarrow>
                  (case (if PINT_IS_CLIENT mode
                         then set_offset res (segs res) (type_offset req - target_offset req) else Some res) of
                     None \<Rightarrow> None
                   | Some res1 \<Rightarrow>
                       (case process_region D mode off sz (req, mem, fd, res1) of
                          None \<Rightarrow> None
                        | Some (retval, (req1, mem1, fd1, res2)) \<Rightarrow>
                            if retval = - 1 \<and> \<not> PINT_IS_LOGICAL_SKIP mode \<and> \<not> PINT_IS_MEMREQ mode then
                              Some (Done (req1\<lparr>type_offset := final_offset req1\<rparr>, mem1, fd1,
                                          res2\<lparr>segs := 0, res_bytes := 0\<rparr>))
                            else
                              let req2 = req1\<lparr>type_offset := type_offset req1 + retval\<rparr>
                              in if retval \<noteq> sz then
                                   let req3 = req2\<lparr>bytes := bytes req2 + retval\<rparr>
                                   in Some (if PINT_IS_LOGICAL_SKIP mode
                                            then Again (PINT_CLR_LOGICAL_SKIP mode) (req3, mem1, fd1, res2)
                                            else Done (req3, mem1, fd1, res2))
                                 else process_return mode lvl_flag (req2, mem1, fd1, res2))))))"

partial_function (option) process_loop :: "distributor \<Rightarrow> int \<Rightarrow> walk \<Rightarrow> (int \<times> walk) option" where
  "process_loop D mode w =
     (case process_iter D mode w of
        None \<Rightarrow> None
      | Some (Again mode' w') \<Rightarrow> process_loop D mode' w'
      | Some (Done w') \<Rightarrow> Some (0, w')
      | Some (Failed w') \<Rightarrow> Some (- PVFS_EINVAL, w'))"

declare process_loop.simps [code]

section \<open>Processing a request\<close>

text \<open>\<open>PINT_REQUEST_STATE_RST\<close>: back to the first element of the first level.\<close>

definition PINT_REQUEST_STATE_RST :: "PINT_Request_state \<Rightarrow> PINT_Request_state option" where
  "PINT_REQUEST_STATE_RST req =
     (case cur req of
        [] \<Rightarrow> None
      | s # c \<Rightarrow> Some (req\<lparr>lvl := 0, bytes := 0, type_offset := 0, eof_flag := False,
                    cur := s\<lparr>el := 0, rq := rqbase s, blk := 0, chunk_offset := 0\<rparr> # c\<rparr>))"

text \<open>
  What happens before the loop: a finished state is reset, the final offset is taken from the memory
  request if it is not set, the request is repeated as often as the final offset needs, and the
  bytes before the target are to be skipped. The result is the mode and the request state.
\<close>

definition process_begin :: "PINT_Request_state \<Rightarrow> PINT_Request_state option \<Rightarrow> int \<Rightarrow> (int \<times> PINT_Request_state) option" where
  "process_begin req mem mode =
     (case (if lvl req < 0 then PINT_REQUEST_STATE_RST req else Some req) of
        None \<Rightarrow> None
      | Some req1 \<Rightarrow>
          (case (case mem of
                   Some m \<Rightarrow>
                     if PINT_IS_CLIENT mode \<and> final_offset req1 = 0 then
                       (case cur m of
                          [] \<Rightarrow> None
                        | s # _ \<Rightarrow> map_option (\<lambda>r. req1\<lparr>final_offset := target_offset req1 + aggregate_size (deref r)\<rparr>) (rqbase s))
                     else Some req1
                 | None \<Rightarrow> Some req1) of
             None \<Rightarrow> None
           | Some req2 \<Rightarrow>
               map_option (\<lambda>req3. (if target_offset req3 > type_offset req3 then PINT_SET_LOGICAL_SKIP mode else mode, req3))
                 (if PINT_IS_MEMREQ mode then Some req2
                  else
                    (case cur req2 of
                       [] \<Rightarrow> None
                     | s # c \<Rightarrow>
                         (case rqbase s of
                            None \<Rightarrow> Some (req2\<lparr>cur := s\<lparr>maxel := final_offset req2 + 1\<rparr> # c\<rparr>)
                          | Some r \<Rightarrow>
                              if aggregate_size (deref r) = 0 then None
                              else Some (req2\<lparr>cur := s\<lparr>maxel := final_offset req2 sdiv aggregate_size (deref r) + 1\<rparr> # c\<rparr>))))))"

text \<open>A size check works on a copy of the state, whose stack has the depth of the request.\<close>

definition check_copy :: "PINT_Request_state \<Rightarrow> PINT_Request_state option" where
  "check_copy req =
     (case cur req of
        [] \<Rightarrow> None
      | s # _ \<Rightarrow>
          (case rqbase s of
             None \<Rightarrow> None
           | Some r \<Rightarrow> if depth (deref r) \<le> int (length (cur req))
                       then Some (req\<lparr>cur := take (nat (depth (deref r))) (cur req)\<rparr>) else None))"

text \<open>
  The whole function, for a distribution function. The request state and the result may be NULL.
\<close>

definition process_with :: "distributor \<Rightarrow> PINT_Request_state option \<Rightarrow> PINT_Request_state option \<Rightarrow> PINT_request_file_data
    \<Rightarrow> PINT_Request_result option \<Rightarrow> int
    \<Rightarrow> (int \<times> PINT_Request_state option \<times> PINT_Request_state option \<times> PINT_request_file_data \<times> PINT_Request_result option) option" where
  "process_with D reqp mem fd resp mode =
     (case (reqp, resp) of
        (Some req, Some res) \<Rightarrow>
          if segmax res = 0 \<or> bytemax res = 0 \<or> segs res \<ge> segmax res \<or> res_bytes res \<ge> bytemax res \<or>
             (\<not> PINT_IS_CKSIZE mode \<and> (offset_array res = None \<or> size_array res = None))
          then Some (- PVFS_EINVAL, reqp, mem, fd, resp)
          else
            (case (if PINT_EQ_CKSIZE mode then check_copy req else Some req) of
               None \<Rightarrow> None
             | Some req1 \<Rightarrow>
                 (case process_begin req1 mem mode of
                    None \<Rightarrow> None
                  | Some (mode', req2) \<Rightarrow>
                      map_option (\<lambda>(ret, (req3, mem', fd', res')).
                          (ret, Some (if PINT_EQ_CKSIZE mode then req else req3), mem', fd', Some res'))
                        (process_loop D mode' (req2, mem, fd, res))))
      | _ \<Rightarrow> Some (- PVFS_EINVAL, reqp, mem, fd, resp))"

section \<open>Distributing a region\<close>

text \<open>
  The position in the region: the next logical offset that is stored here, where the rest of the
  region starts, and its size.
\<close>

record region =
  r_loff :: PVFS_offset
  r_offset :: PVFS_offset
  r_size :: PVFS_size
  r_eof :: bool

text \<open>
  The size of the next piece, the data of the file, extended if needed, and whether the piece hits
  the end of the file.
\<close>

definition piece_size :: "PINT_request_file_data \<Rightarrow> PINT_Request_result \<Rightarrow> PVFS_offset \<Rightarrow> PVFS_size \<Rightarrow> PVFS_size
    \<Rightarrow> PVFS_size \<times> PINT_request_file_data \<times> bool" where
  "piece_size fd res poff sz0 fraglen =
     (let sz = (if sz0 > fraglen \<and> server_ct fd \<noteq> 1 then fraglen else sz0);
          sz = (if res_bytes res + sz > bytemax res then bytemax res - res_bytes res else sz)
      in if poff + sz > fsize fd then
           if extend_flag fd then (sz, fd\<lparr>fsize := poff + sz\<rparr>, False) else (fsize fd - poff, fd, True)
         else (sz, fd, False))"

text \<open>
  Segments for one piece: on the client with a memory request, those of the memory request;
  otherwise one. The result has the size that was done; \<open>None\<close> in it means that the memory request
  gave no segment.
\<close>

definition piece_segments :: "distributor \<Rightarrow> int \<Rightarrow> PVFS_offset \<Rightarrow> PVFS_size \<Rightarrow> PINT_request_file_data \<Rightarrow> PINT_Request_state option
    \<Rightarrow> PINT_Request_result \<Rightarrow> (PVFS_size option \<times> PINT_Request_state option \<times> PINT_Request_result) option" where
  "piece_segments D mode poff sz fd mem res =
     (case mem of
        Some m \<Rightarrow>
          if PINT_IS_CLIENT mode then
            (case process_with D (Some (m\<lparr>target_offset := poff, final_offset := poff + sz\<rparr>)) None fd (Some res)
                    (mode OR PINT_MEMREQ) of
               Some (_, Some m', _, _, Some res') \<Rightarrow>
                 let sz' = type_offset m' - poff
                 in Some (if sz' \<le> 0 \<and> segs res' = segs res then None else Some sz', Some m', res')
             | _ \<Rightarrow> None)
          else map_option (\<lambda>res'. (Some sz, mem, res')) (PINT_ADD_SEGMENT res poff sz mode)
      | None \<Rightarrow> map_option (\<lambda>res'. (Some sz, mem, res')) (PINT_ADD_SEGMENT res poff sz mode))"

text \<open>On the client the next offset of the array starts behind the last segment.\<close>

definition client_next :: "int \<Rightarrow> PINT_Request_result \<Rightarrow> PINT_Request_result option" where
  "client_next mode res =
     (if PINT_IS_CLIENT mode \<and> segs res < segmax res then
        (case (get_offset res (segs res - 1), get_size res (segs res - 1)) of
           (Some o1, Some s1) \<Rightarrow> set_offset res (segs res) (o1 + s1)
         | _ \<Rightarrow> None)
      else Some res)"

type_synonym spread = "region \<times> PINT_request_file_data \<times> PINT_Request_state option \<times> PINT_Request_result"

text \<open>One iteration: \<open>Inl\<close> when the loop ends and \<open>Inr\<close> when it goes on.\<close>

definition distribute_iter :: "distributor \<Rightarrow> PINT_dist_methods \<Rightarrow> int \<Rightarrow> spread \<Rightarrow> (spread + spread) option" where
  "distribute_iter D methods mode w =
     (case w of (g, fd, mem, res) \<Rightarrow>
        let diff = r_loff g - r_offset g
        in if \<not> diff < r_size g then Some (Inl w)
           else
             (case logical_to_physical_offset methods fd (r_loff g) of
                None \<Rightarrow> None
              | Some poff \<Rightarrow>
                  (case contiguous_length methods fd poff of
                     None \<Rightarrow> None
                   | Some fraglen \<Rightarrow>
                       (case piece_size fd res poff (r_size g - diff) fraglen of
                          (sz, fd', hit_eof) \<Rightarrow>
                            let g' = g\<lparr>r_eof := r_eof g \<or> hit_eof\<rparr>
                            in if hit_eof \<and> sz \<le> 0 then Some (Inl (g', fd', mem, res))
                               else
                                 (case (if PINT_IS_CLIENT mode then map_option (\<lambda>x. x + diff) (get_offset res (segs res))
                                        else Some poff) of
                                    None \<Rightarrow> None
                                  | Some poff' \<Rightarrow>
                                      (case piece_segments D mode poff' sz fd' mem res of
                                         None \<Rightarrow> None
                                       | Some (None, mem', res') \<Rightarrow> Some (Inl (g', fd', mem', res'))
                                       | Some (Some sz', mem', res') \<Rightarrow>
                                           (case client_next mode res' of
                                              None \<Rightarrow> None
                                            | Some res2 \<Rightarrow>
                                                if sz' < 1 then Some (Inl (g', fd', mem', res2))
                                                else
                                                  let loff = r_loff g + sz'
                                                  in (case next_mapped_offset methods fd' loff of
                                                        None \<Rightarrow> None
                                                      | Some loff' \<Rightarrow>
                                                          if loff' = - 1 then None
                                                          else
                                                            let w' = (g'\<lparr>r_loff := loff', r_size := r_size g - (loff - r_offset g),
                                                                       r_offset := loff\<rparr>, fd', mem', res2)
                                                            in Some (if res_bytes res2 \<ge> bytemax res2 \<or>
                                                                        (\<not> PINT_IS_CKSIZE mode \<and> segs res2 \<ge> segmax res2)
                                                                     then Inl w' else Inr w')))))))))"

partial_function (option) distribute_loop :: "distributor \<Rightarrow> PINT_dist_methods \<Rightarrow> int \<Rightarrow> spread \<Rightarrow> spread option" where
  "distribute_loop D methods mode w =
     (case distribute_iter D methods mode w of
        None \<Rightarrow> None
      | Some (Inl w') \<Rightarrow> Some w'
      | Some (Inr w') \<Rightarrow> distribute_loop D methods mode w')"

declare distribute_loop.simps [code]

text \<open>No method, and no parameters, is a distribution that is NULL. \<open>D\<close> is what a memory request would call.\<close>

definition distribute_with :: "distributor \<Rightarrow> PINT_dist_methods option \<Rightarrow> distributor" where
  "distribute_with D dist off sz fd mem res mode =
     (if (\<not> PINT_IS_CKSIZE mode \<and> segs res \<ge> segmax res) \<or> res_bytes res \<ge> bytemax res \<or> sz = 0
      then Some (0, fd, mem, res, False)
      else
        (case dist of
           None \<Rightarrow> Some (0, fd, mem, res, False)
         | Some methods \<Rightarrow>
             (case next_mapped_offset methods fd off of
                None \<Rightarrow> None
              | Some loff \<Rightarrow>
                  if loff = - 1 then Some (- 1, fd, mem, res, False)
                  else
                    (case distribute_loop D methods mode
                            (\<lparr>r_loff = loff, r_offset = off, r_size = sz, r_eof = False\<rparr>, fd, mem, res) of
                       None \<Rightarrow> None
                     | Some (g, fd', mem', res') \<Rightarrow>
                         map_option
                           (\<lambda>poff. (if r_loff g \<ge> off + sz then sz else r_offset g - off, fd', mem', res',
                                    r_eof g \<or> (poff \<ge> fsize fd' \<and> \<not> extend_flag fd')))
                           (logical_to_physical_offset methods fd' (r_loff g))))))"

text \<open>A memory request distributes nothing.\<close>

definition no_distribution :: distributor where
  "no_distribution off sz fd mem res mode = None"

definition PINT_distribute :: "PINT_dist_methods option \<Rightarrow> distributor" where
  "PINT_distribute dist = distribute_with no_distribution dist"

definition PINT_process_request :: "PINT_dist_methods option \<Rightarrow> PINT_Request_state option \<Rightarrow> PINT_Request_state option
    \<Rightarrow> PINT_request_file_data \<Rightarrow> PINT_Request_result option \<Rightarrow> int
    \<Rightarrow> (int \<times> PINT_Request_state option \<times> PINT_Request_state option \<times> PINT_request_file_data \<times> PINT_Request_result option) option" where
  "PINT_process_request dist = process_with (PINT_distribute dist)"

text \<open>
  A new state walks the request once. The code reads the size of the request even if it is
  NULL. The stack above the first level is not initialised; it is not read before it is written.
\<close>

definition new_state :: "request \<Rightarrow> PINT_Request_state" where
  "new_state r =
     \<lparr>cur = \<lparr>el = 0, maxel = 1, rq = Some r, rqbase = Some r, blk = 0, chunk_offset = 0\<rparr> #
        replicate (nat (depth (deref r)) - 1)
          \<lparr>el = 0, maxel = 0, rq = None, rqbase = None, blk = 0, chunk_offset = 0\<rparr>,
      lvl = 0, bytes = 0, type_offset = 0, target_offset = 0, final_offset = aggregate_size (deref r), eof_flag = False\<rparr>"

definition PINT_new_request_states :: "request option \<Rightarrow> int \<Rightarrow> PINT_Request_state list option" where
  "PINT_new_request_states request n =
     (case request of
        None \<Rightarrow> if n \<le> 0 then Some [] else None
      | Some r \<Rightarrow> Some (replicate (nat n) (new_state r)))"

definition PINT_new_request_state :: "request option \<Rightarrow> PINT_Request_state option" where
  "PINT_new_request_state request = map_option hd (PINT_new_request_states request 1)"

end
