(* ===== verification/Pint_Distribute.thy ===== *)
theory Pint_Distribute
  imports Pint_Request
begin

text \<open>
  What \<open>PINT_distribute\<close> does on a server. The segments of a result are read as the list of the
  physical offsets that they cover. The locale \<open>dist_server\<close> states what the function
  relies on of the methods of a distribution; the distributions interpret it in \<open>Dist_Io\<close>, and \<open>Pint_Process\<close>
  uses it for whole requests.
\<close>

section \<open>Segments\<close>

definition seg_list :: "PINT_Request_result \<Rightarrow> (PVFS_offset \<times> PVFS_size) list" where
  "seg_list r = take (nat (segs r)) (zip (the (offset_array r)) (the (size_array r)))"

fun seg_offsets :: "PVFS_offset \<times> PVFS_size \<Rightarrow> PVFS_offset list" where
  "seg_offsets (off, sz) = [off..off + sz - 1]"

definition out :: "PINT_Request_result \<Rightarrow> PVFS_offset list" where
  "out r = concat (map seg_offsets (seg_list r))"

text \<open>The arrays are there, have room for \<open>segmax\<close> segments, and no segment has a negative size.\<close>

definition res_ok :: "PINT_Request_result \<Rightarrow> bool" where
  "res_ok r \<longleftrightarrow> offset_array r \<noteq> None \<and> size_array r \<noteq> None \<and> segmax r \<le> int (length (the (offset_array r))) \<and>
     segmax r \<le> int (length (the (size_array r))) \<and> 0 \<le> segs r \<and> segs r \<le> segmax r \<and>
     (\<forall>(off, sz) \<in> set (seg_list r). 0 \<le> sz)"

lemma length_seg_list: "res_ok r \<Longrightarrow> length (seg_list r) = nat (segs r)"
  by (auto simp: res_ok_def seg_list_def)

text \<open>What a call adds to a result.\<close>

definition adds :: "PINT_Request_result \<Rightarrow> PINT_Request_result \<Rightarrow> PVFS_offset list \<Rightarrow> bool" where
  "adds r r' ps \<longleftrightarrow> res_ok r' \<and> out r' = out r @ ps \<and> res_bytes r' = res_bytes r + int (length ps) \<and>
     segs r \<le> segs r' \<and> segs r' \<le> segs r + int (length ps) \<and> segmax r' = segmax r \<and> bytemax r' = bytemax r"

lemma adds_refl: "res_ok r \<Longrightarrow> adds r r []"
  by (simp add: adds_def)

lemma adds_trans: "adds r r1 ps \<Longrightarrow> adds r1 r2 qs \<Longrightarrow> adds r r2 (ps @ qs)"
  by (auto simp: adds_def)

lemma seg_list_last:
  assumes "res_ok r" "0 < segs r"
  obtains o1 s1 where "get_offset r (segs r - 1) = Some o1" "get_size r (segs r - 1) = Some s1" "0 \<le> s1"
    "seg_list r = take (nat (segs r) - 1) (zip (the (offset_array r)) (the (size_array r))) @ [(o1, s1)]"
proof -
  obtain os ss where a: "offset_array r = Some os" "size_array r = Some ss" using assms(1) by (auto simp: res_ok_def)
  define n where "n = nat (segs r) - 1"
  have n: "n < length os" "n < length ss" "nat (segs r) = Suc n" "nat (segs r - 1) = n"
    using assms a by (auto simp: res_ok_def n_def)
  have sl: "seg_list r = take n (zip os ss) @ [(os ! n, ss ! n)]"
    unfolding seg_list_def using a n by (simp add: take_Suc_conv_app_nth)
  have "(os ! n, ss ! n) \<in> set (seg_list r)" unfolding sl by simp
  then have pos: "0 \<le> ss ! n" using assms(1) unfolding res_ok_def by blast
  have "get_offset r (segs r - 1) = Some (os ! n)" "get_size r (segs r - 1) = Some (ss ! n)"
    using a n assms(2) by (simp_all add: get_offset_def get_size_def array_get_def)
  then show thesis by (rule that [OF _ _ pos]) (use sl a in \<open>simp add: n_def\<close>)
qed

lemma upto_append: "a \<le> b \<Longrightarrow> b \<le> c \<Longrightarrow> [a..b - 1] @ [b..c - 1] = [a..c - (1::int)]"
  using upto_split1 [of a b "c - 1"] by (cases "b = c") auto

lemma upto_join: "0 \<le> a \<Longrightarrow> 0 < b \<Longrightarrow> [x..x + a - 1] @ [x + a..x + a + b - 1] = [x..x + (a + b) - (1::int)]"
  using upto_append [of x "x + a" "x + a + b"] by (simp add: algebra_simps)

lemma PINT_ADD_SEGMENT_adds:
  assumes ok: "res_ok r" and "\<not> PINT_IS_CKSIZE mode" "0 < sz" "segs r < segmax r"
  obtains r' where "PINT_ADD_SEGMENT r off sz mode = Some r'" "adds r r' [off..off + sz - 1]"
proof -
  obtain os ss where a: "offset_array r = Some os" "size_array r = Some ss" using ok by (auto simp: res_ok_def)
  have len: "segs r < int (length os)" "segs r < int (length ss)" "0 \<le> segs r" using ok assms(4) a by (auto simp: res_ok_def)
  show thesis
  proof (cases "0 < segs r \<and> ends_at r off = Some True")
    case True
    then have pos: "0 < segs r" and ends: "ends_at r off = Some True" by auto
    obtain o1 s1 where l: "get_offset r (segs r - 1) = Some o1" "get_size r (segs r - 1) = Some s1" "0 \<le> s1"
      "seg_list r = take (nat (segs r) - 1) (zip (the (offset_array r)) (the (size_array r))) @ [(o1, s1)]"
      by (rule seg_list_last [OF ok pos])
    have off: "off = o1 + s1" using pos ends l by (simp add: ends_at_def)
    define n where "n = nat (segs r) - 1"
    have n: "n < length os" "n < length ss" "nat (segs r) = Suc n" "nat (segs r - 1) = n" "int n = segs r - 1"
      using pos len by (auto simp: n_def)
    let ?r = "add_bytes (r\<lparr>size_array := Some (ss[n := s1 + sz])\<rparr>) sz"
    have run: "PINT_ADD_SEGMENT r off sz mode = Some ?r"
      using ends assms(2,3) l(2) a n len pos
      by (simp add: PINT_ADD_SEGMENT_def set_size_def array_set_def)
    have "seg_list ?r = take n (zip os ss) @ [(o1, s1 + sz)]"
      using a n l(1) by (simp add: seg_list_def add_bytes_def take_Suc_conv_app_nth take_zip get_offset_def array_get_def split: if_splits)
    moreover have "seg_list r = take n (zip os ss) @ [(o1, s1)]" using l(4) a by (simp add: n_def)
    ultimately have "adds r ?r [off..off + sz - 1]"
      using ok l(3) assms(3) upto_join [of s1 sz o1]
      by (auto simp: adds_def out_def off res_ok_def add_bytes_def a algebra_simps)
    then show thesis by (rule that [OF run])
  next
    case False
    have ends: "ends_at r off = Some False"
    proof (cases "0 < segs r")
      case True
      obtain o1 s1 where "get_offset r (segs r - 1) = Some o1" "get_size r (segs r - 1) = Some s1"
        by (rule seg_list_last [OF ok True])
      then show ?thesis using True False by (auto simp: ends_at_def)
    qed (simp add: ends_at_def)
    let ?n = "nat (segs r)"
    let ?r = "add_bytes (r\<lparr>offset_array := Some (os[?n := off]), size_array := Some (ss[?n := sz]), segs := segs r + 1\<rparr>) sz"
    have run: "PINT_ADD_SEGMENT r off sz mode = Some ?r"
      using ends assms(2,3) a len by (simp add: PINT_ADD_SEGMENT_def set_offset_def set_size_def array_set_def)
    have "nat (segs r + 1) = Suc ?n" "?n < length os" "?n < length ss" using len by auto
    then have "seg_list ?r = seg_list r @ [(off, sz)]"
      using a by (simp add: seg_list_def add_bytes_def take_Suc_conv_app_nth take_zip)
    then have "adds r ?r [off..off + sz - 1]"
      using ok assms(3,4) len by (auto simp: adds_def out_def res_ok_def add_bytes_def a)
    then show thesis by (rule that [OF run])
  qed
qed

section \<open>The contract of the methods\<close>

text \<open>
  \<open>mine\<close> tells which logical offsets the server stores, \<open>place\<close> where, and \<open>lin\<close> for which
  offsets the distribution keeps its promises. The local size of the file does not matter.
\<close>

locale dist_server =
  fixes methods :: PINT_dist_methods
    and ok :: "PINT_request_file_data \<Rightarrow> bool"
    and mine lin :: "PINT_request_file_data \<Rightarrow> PVFS_offset \<Rightarrow> bool"
    and place :: "PINT_request_file_data \<Rightarrow> PVFS_offset \<Rightarrow> PVFS_offset"
  assumes next_ok: "ok fd \<Longrightarrow> 0 \<le> x \<Longrightarrow> lin fd x \<Longrightarrow>
      \<exists>n. next_mapped_offset methods fd x = Some n \<and> x \<le> n \<and> mine fd n \<and> (\<forall>y. x \<le> y \<and> y < n \<longrightarrow> \<not> mine fd y)"
    and l2p_ok: "ok fd \<Longrightarrow> 0 \<le> x \<Longrightarrow> lin fd x \<Longrightarrow> next_mapped_offset methods fd x = Some n \<Longrightarrow>
      logical_to_physical_offset methods fd n = Some (place fd n)"
    and contig_ok: "ok fd \<Longrightarrow> 0 \<le> x \<Longrightarrow> lin fd x \<Longrightarrow> mine fd x \<Longrightarrow>
      \<exists>k > 0. contiguous_length methods fd (place fd x) = Some k \<and>
        (\<forall>i. 0 \<le> i \<and> i < k \<longrightarrow> mine fd (x + i) \<and> place fd (x + i) = place fd x + i)"
    and single: "ok fd \<Longrightarrow> server_ct fd = 1 \<Longrightarrow> 0 \<le> x \<Longrightarrow> lin fd x \<Longrightarrow> mine fd x \<and> place fd x = x"
    and fsize_irrelevant: "next_mapped_offset methods (fd\<lparr>fsize := s\<rparr>) = next_mapped_offset methods fd"
      "logical_to_physical_offset methods (fd\<lparr>fsize := s\<rparr>) = logical_to_physical_offset methods fd"
      "contiguous_length methods (fd\<lparr>fsize := s\<rparr>) = contiguous_length methods fd"
      "ok (fd\<lparr>fsize := s\<rparr>) = ok fd" "mine (fd\<lparr>fsize := s\<rparr>) = mine fd" "lin (fd\<lparr>fsize := s\<rparr>) = lin fd"
      "place (fd\<lparr>fsize := s\<rparr>) = place fd"
begin

text \<open>The physical offsets of what the server stores of a region, in the order of the region.\<close>

abbreviation parts :: "PINT_request_file_data \<Rightarrow> PVFS_offset \<Rightarrow> PVFS_offset \<Rightarrow> PVFS_offset list" where
  "parts fd a b \<equiv> map (place fd) (filter (mine fd) [a..b - 1])"

lemma parts_gap:
  assumes "a \<le> l" "\<forall>y. a \<le> y \<and> y < l \<longrightarrow> \<not> mine fd y" "b \<le> l"
  shows "parts fd a b = []"
  using assms by (auto simp: filter_empty_conv)

lemma parts_run:
  assumes "a \<le> l" "0 \<le> n" "\<forall>y. a \<le> y \<and> y < l \<longrightarrow> \<not> mine fd y"
    "\<forall>i. 0 \<le> i \<and> i < n \<longrightarrow> mine fd (l + i) \<and> place fd (l + i) = p + i"
  shows "parts fd a (l + n) = [p..p + n - 1]"
proof -
  have split: "[a..l + n - 1] = [a..l - 1] @ [l..l + n - 1]" using assms(1,2) upto_append [of a l "l + n"] by simp
  have pre: "filter (mine fd) [a..l - 1] = []" using assms(3) by (auto simp: filter_empty_conv)
  have run: "mine fd y \<and> place fd y = p + (y - l)" if "y \<in> set [l..l + n - 1]" for y
    using assms(4) [rule_format, of "y - l"] that by auto
  then have "filter (mine fd) [l..l + n - 1] = [l..l + n - 1]" by (simp add: filter_id_conv)
  moreover have "map (place fd) [l..l + n - 1] = map (\<lambda>y. p + (y - l)) [l..l + n - 1]" using run by (intro map_cong) auto
  moreover have "map (\<lambda>y. p + (y - l)) [l..l + n - 1] = [p..p + n - 1]"
    by (rule nth_equalityI) (simp_all add: nth_upto)
  ultimately show ?thesis using pre unfolding split by simp
qed

lemma parts_append: "a \<le> b \<Longrightarrow> b \<le> c \<Longrightarrow> parts fd a b @ parts fd b c = parts fd a c"
  using upto_append [of a b c] by (metis filter_append map_append)

text \<open>The size of a piece that starts at an offset that is stored here.\<close>

lemma piece_ok:
  assumes ok: "ok fd" and l: "0 \<le> l" "mine fd l" "l < e" "\<forall>y. 0 \<le> y \<and> y \<le> e \<longrightarrow> lin fd y"
    and room: "res_bytes res < bytemax res"
    and k: "0 < k" "\<forall>i. 0 \<le> i \<and> i < k \<longrightarrow> mine fd (l + i) \<and> place fd (l + i) = place fd l + i"
  obtains sz s' hit where "piece_size (fd\<lparr>fsize := s\<rparr>) res (place fd l) (e - l) k = (sz, fd\<lparr>fsize := s'\<rparr>, hit)"
    "sz \<le> e - l" "res_bytes res + sz \<le> bytemax res"
    "\<forall>i. 0 \<le> i \<and> i < sz \<longrightarrow> mine fd (l + i) \<and> place fd (l + i) = place fd l + i"
    "s \<le> s'" "\<not> extend_flag fd \<longrightarrow> s' = s" "place fd l + sz \<le> s'" "hit \<longrightarrow> \<not> extend_flag fd" "sz \<le> 0 \<longrightarrow> hit \<and> s' \<le> place fd l"
proof -
  let ?sz1 = "if e - l > k \<and> server_ct fd \<noteq> 1 then k else e - l"
  let ?sz2 = "if res_bytes res + ?sz1 > bytemax res then bytemax res - res_bytes res else ?sz1"
  have run: "mine fd (l + i) \<and> place fd (l + i) = place fd l + i" if "0 \<le> i" "i < ?sz1" for i
  proof (cases "i < k")
    case False
    then have "server_ct fd = 1" "l + i \<le> e" using that by (auto split: if_splits)
    then show ?thesis using single [OF ok, of "l + i"] single [OF ok, of l] l that by simp
  qed (use k that in blast)
  have sz: "0 < ?sz2" "?sz2 \<le> ?sz1" "?sz1 \<le> e - l" "res_bytes res + ?sz2 \<le> bytemax res" using l(3) k(1) room by auto
  show thesis
  proof (cases "place fd l + ?sz2 > s")
    case True
    show thesis
    proof (cases "extend_flag fd")
      case ext: True
      show thesis
        by (rule that [of ?sz2 "place fd l + ?sz2" False])
          (use True ext sz run in \<open>auto simp: piece_size_def Let_def split: if_splits\<close>)
    next
      case ext: False
      have small: "s - place fd l < ?sz2" using True by simp
      show thesis
        by (rule that [of "s - place fd l" s True])
          (use True ext sz run small in \<open>auto simp: piece_size_def Let_def split: if_splits\<close>)
    qed
  next
    case False
    show thesis
      by (rule that [of ?sz2 s False])
        (use False sz run in \<open>auto simp: piece_size_def Let_def split: if_splits\<close>)
  qed
qed

lemma fd_fields [simp]: "extend_flag (fd\<lparr>fsize := s\<rparr>) = extend_flag fd" "server_ct (fd\<lparr>fsize := s\<rparr>) = server_ct fd"
  "fsize (fd\<lparr>fsize := s\<rparr>) = s"
  by simp_all

text \<open>
  From \<open>a\<close> to \<open>b\<close>: the parts in between have been added, the file has been extended as far as they
  need if it may be, and no byte is outside of it.
\<close>

abbreviation moved :: "PINT_request_file_data \<Rightarrow> PVFS_offset \<Rightarrow> PVFS_size \<Rightarrow> PINT_Request_result \<Rightarrow> PVFS_offset
    \<Rightarrow> PVFS_size \<Rightarrow> PINT_Request_result \<Rightarrow> bool" where
  "moved fd a s res b s' res' \<equiv> adds res res' (parts fd a b) \<and> res_bytes res' \<le> bytemax res \<and> s \<le> s' \<and>
     (\<not> extend_flag fd \<longrightarrow> s' = s) \<and> (\<forall>p \<in> set (parts fd a b). p < s')"

abbreviation at_end :: "PINT_request_file_data \<Rightarrow> PVFS_offset \<Rightarrow> PVFS_offset \<Rightarrow> PVFS_size \<Rightarrow> PINT_Request_result \<Rightarrow> bool" where
  "at_end fd e l s res \<equiv> e \<le> l \<or> segs res = segmax res \<or> res_bytes res = bytemax res \<or> (\<not> extend_flag fd \<and> s \<le> place fd l)"

lemma iter_ok:
  assumes ok: "ok fd" and plain: "\<not> PINT_IS_CLIENT mode" "\<not> PINT_IS_CKSIZE mode"
    and a: "0 \<le> a" "a \<le> e" "\<forall>y. 0 \<le> y \<and> y \<le> e \<longrightarrow> lin fd y"
    and res: "res_ok res" "segs res < segmax res" "res_bytes res < bytemax res"
    and l: "next_mapped_offset methods fd a = Some l" and f: "f \<longrightarrow> \<not> extend_flag fd"
  obtains (stop) b l' f' s' res' where
      "distribute_iter D methods mode (\<lparr>r_loff = l, r_offset = a, r_size = e - a, r_eof = f\<rparr>, fd\<lparr>fsize := s\<rparr>, mem, res) =
        Some (Inl (\<lparr>r_loff = l', r_offset = b, r_size = e - b, r_eof = f'\<rparr>, fd\<lparr>fsize := s'\<rparr>, mem, res'))"
      "a \<le> b" "b \<le> e" "next_mapped_offset methods fd b = Some l'" "f' \<longrightarrow> \<not> extend_flag fd"
      "moved fd a s res b s' res'" "at_end fd e l' s' res'"
    | (go) b l' f' s' res' where
      "distribute_iter D methods mode (\<lparr>r_loff = l, r_offset = a, r_size = e - a, r_eof = f\<rparr>, fd\<lparr>fsize := s\<rparr>, mem, res) =
        Some (Inr (\<lparr>r_loff = l', r_offset = b, r_size = e - b, r_eof = f'\<rparr>, fd\<lparr>fsize := s'\<rparr>, mem, res'))"
      "a < b" "b \<le> e" "next_mapped_offset methods fd b = Some l'" "f' \<longrightarrow> \<not> extend_flag fd"
      "moved fd a s res b s' res'" "segs res' < segmax res'" "res_bytes res' < bytemax res'"
proof -
  have nx: "a \<le> l" "mine fd l" "\<forall>y. a \<le> y \<and> y < l \<longrightarrow> \<not> mine fd y" using next_ok [OF ok a(1), of ] a l by auto
  show thesis
  proof (cases "l < e")
    case False
    show thesis
      by (rule stop [of l a f s res]) (use False a res l f adds_refl [OF res(1)] in \<open>auto simp: distribute_iter_def Let_def\<close>)
  next
    case True
    have l0: "0 \<le> l" "lin fd l" using nx a True by auto
    have l2p: "logical_to_physical_offset methods fd l = Some (place fd l)" by (rule l2p_ok [OF ok a(1) _ l]) (use a in simp)
    obtain k where k: "0 < k" "contiguous_length methods fd (place fd l) = Some k"
      "\<forall>i. 0 \<le> i \<and> i < k \<longrightarrow> mine fd (l + i) \<and> place fd (l + i) = place fd l + i"
      using contig_ok [OF ok l0 nx(2)] by blast
    obtain sz s' hit where z: "piece_size (fd\<lparr>fsize := s\<rparr>) res (place fd l) (e - l) k = (sz, fd\<lparr>fsize := s'\<rparr>, hit)"
      "sz \<le> e - l" "res_bytes res + sz \<le> bytemax res"
      "\<forall>i. 0 \<le> i \<and> i < sz \<longrightarrow> mine fd (l + i) \<and> place fd (l + i) = place fd l + i"
      "s \<le> s'" "\<not> extend_flag fd \<longrightarrow> s' = s" "place fd l + sz \<le> s'" "hit \<longrightarrow> \<not> extend_flag fd" "sz \<le> 0 \<longrightarrow> hit \<and> s' \<le> place fd l"
      by (rule piece_ok [OF ok l0(1) nx(2) True a(3) res(3) k(1,3), of s])
    show thesis
    proof (cases "sz \<le> 0")
      case eof: True
      show thesis
        by (rule stop [of l a "f \<or> hit" s' res])
          (use True eof a res l f z l2p k(2) adds_refl [OF res(1)] in \<open>auto simp: distribute_iter_def Let_def fsize_irrelevant\<close>)
    next
      case pos: False
      then have pos': "0 < sz" by simp
      obtain res1 where r1: "PINT_ADD_SEGMENT res (place fd l) sz mode = Some res1" "adds res res1 [place fd l..place fd l + sz - 1]"
        by (rule PINT_ADD_SEGMENT_adds [OF res(1) plain(2) pos' res(2)])
      have pt: "parts fd a (l + sz) = [place fd l..place fd l + sz - 1]" by (rule parts_run) (use nx z pos' in auto)
      have mv: "moved fd a s res (l + sz) s' res1"
        using r1(2) z(3,5,6,7) pos' unfolding pt by (auto simp: adds_def)
      obtain l2 where l2: "next_mapped_offset methods fd (l + sz) = Some l2" "l + sz \<le> l2"
        using next_ok [OF ok, of "l + sz"] l0 a z(2) pos' by auto
      let ?g = "\<lparr>r_loff = l2, r_offset = l + sz, r_size = e - (l + sz), r_eof = f \<or> hit\<rparr>"
      have iter: "distribute_iter D methods mode (\<lparr>r_loff = l, r_offset = a, r_size = e - a, r_eof = f\<rparr>, fd\<lparr>fsize := s\<rparr>, mem, res) =
          Some (if bytemax res1 \<le> res_bytes res1 \<or> segmax res1 \<le> segs res1 then Inl (?g, fd\<lparr>fsize := s'\<rparr>, mem, res1)
                else Inr (?g, fd\<lparr>fsize := s'\<rparr>, mem, res1))"
        using True pos l2p k(2) z(1) plain r1(1) l2 l0
        by (cases mem) (simp_all add: distribute_iter_def Let_def fsize_irrelevant piece_segments_def client_next_def algebra_simps)
      have lim: "segs res1 \<le> segmax res1" "segmax res1 = segmax res" "bytemax res1 = bytemax res"
        using r1(2) by (auto simp: adds_def res_ok_def)
      show thesis
      proof (cases "bytemax res1 \<le> res_bytes res1 \<or> segmax res1 \<le> segs res1")
        case full: True
        show thesis
          by (rule stop [of l2 "l + sz" "f \<or> hit" s' res1])
            (use iter full nx(1) z pos' l2 f mv lim in \<open>auto simp del: upto.simps\<close>)
      next
        case more: False
        show thesis
          by (rule go [of l2 "l + sz" "f \<or> hit" s' res1])
            (use iter more nx(1) z pos' l2 f mv lim in \<open>auto simp del: upto.simps\<close>)
      qed
    qed
  qed
qed

lemma moved_trans:
  assumes "moved fd a s res b s1 res1" "moved fd b s1 res1 c s2 res2" "a \<le> b" "b \<le> c"
  shows "moved fd a s res c s2 res2"
  using assms adds_trans [of res res1 "parts fd a b" res2 "parts fd b c"] unfolding parts_append [OF assms(3,4), symmetric]
  by (auto simp: adds_def)

lemma loop_ok:
  assumes "ok fd" "\<not> PINT_IS_CLIENT mode" "\<not> PINT_IS_CKSIZE mode"
    and "0 \<le> a" "a \<le> e" "\<forall>y. 0 \<le> y \<and> y \<le> e \<longrightarrow> lin fd y"
    and "res_ok res" "segs res < segmax res" "res_bytes res < bytemax res"
    and "next_mapped_offset methods fd a = Some l" "f \<longrightarrow> \<not> extend_flag fd"
  obtains b l' f' s' res' where
      "distribute_loop D methods mode (\<lparr>r_loff = l, r_offset = a, r_size = e - a, r_eof = f\<rparr>, fd\<lparr>fsize := s\<rparr>, mem, res) =
        Some (\<lparr>r_loff = l', r_offset = b, r_size = e - b, r_eof = f'\<rparr>, fd\<lparr>fsize := s'\<rparr>, mem, res')"
      "a \<le> b" "b \<le> e" "next_mapped_offset methods fd b = Some l'" "f' \<longrightarrow> \<not> extend_flag fd"
      "moved fd a s res b s' res'" "at_end fd e l' s' res'"
  using assms(4-)
proof (induction "nat (e - a)" arbitrary: a l f s res thesis rule: less_induct)
  case less
  show ?case
    using assms(1-3) less.prems(2-)
  proof (cases rule: iter_ok [of fd mode a e res l f D s mem])
    case (stop b l' f' s' res')
    show thesis by (rule less.prems(1) [of l' b f' s' res']) (use stop in \<open>simp_all add: distribute_loop.simps\<close>)
  next
    case (go b l' f' s' res')
    have b: "nat (e - b) < nat (e - a)" "0 \<le> b" using go(2,3) less.prems(2) by auto
    have ok': "res_ok res'" using go(6) by (simp add: adds_def)
    obtain c l2 f2 s2 res2 where IH:
      "distribute_loop D methods mode (\<lparr>r_loff = l', r_offset = b, r_size = e - b, r_eof = f'\<rparr>, fd\<lparr>fsize := s'\<rparr>, mem, res') =
        Some (\<lparr>r_loff = l2, r_offset = c, r_size = e - c, r_eof = f2\<rparr>, fd\<lparr>fsize := s2\<rparr>, mem, res2)"
      "b \<le> c" "c \<le> e" "next_mapped_offset methods fd c = Some l2" "f2 \<longrightarrow> \<not> extend_flag fd"
      "moved fd b s' res' c s2 res2" "at_end fd e l2 s2 res2"
      by (rule less.hyps [OF b(1) _ b(2) go(3) less.prems(4) ok' go(7,8,4,5)]) blast
    have bm: "bytemax res' = bytemax res" using go(6) by (simp add: adds_def)
    have "moved fd a s res c s2 res2" by (rule moved_trans [OF go(6) IH(6)]) (use go(2) IH(2) in simp_all)
    then show thesis
      by (intro less.prems(1) [of l2 c f2 s2 res2]) (use go(1,2) IH in \<open>simp_all add: distribute_loop.simps [of D methods mode "(_, _, _, res)"]\<close>)
  qed
qed

lemma distribute_exact:
  assumes ok: "ok fd" and plain: "\<not> PINT_IS_CLIENT mode" "\<not> PINT_IS_CKSIZE mode"
    and off: "0 \<le> off" "0 \<le> sz" "\<forall>y. 0 \<le> y \<and> y \<le> off + sz \<longrightarrow> lin fd y"
    and res: "res_ok res" "segs res < segmax res" "res_bytes res < bytemax res"
  obtains n s' res' f' where
      "distribute_with D (Some methods) off sz fd mem res mode = Some (n, fd\<lparr>fsize := s'\<rparr>, mem, res', f')"
      "0 \<le> n" "n \<le> sz" "moved fd off (fsize fd) res (off + n) s' res'" "f' \<longrightarrow> \<not> extend_flag fd"
      "n = sz \<or> segs res' = segmax res \<or> res_bytes res' = bytemax res \<or>
        (f' \<and> (\<exists>l. off + n \<le> l \<and> l < off + sz \<and> mine fd l \<and> s' \<le> place fd l \<and> (\<forall>y. off + n \<le> y \<and> y < l \<longrightarrow> \<not> mine fd y)))"
proof (cases "sz = 0")
  case True
  show thesis
    by (rule that [of 0 "fsize fd" res False]) (use True res adds_refl [OF res(1)] in \<open>simp_all add: distribute_with_def\<close>)
next
  case False
  obtain l where l: "next_mapped_offset methods fd off = Some l" "off \<le> l" using next_ok [OF ok off(1)] off by auto
  have e: "off \<le> off + sz" and f: "False \<longrightarrow> \<not> extend_flag fd" using off(2) by simp_all
  obtain b l' f' s' res' where g:
      "distribute_loop D methods mode (\<lparr>r_loff = l, r_offset = off, r_size = off + sz - off, r_eof = False\<rparr>, fd\<lparr>fsize := fsize fd\<rparr>, mem, res) =
        Some (\<lparr>r_loff = l', r_offset = b, r_size = off + sz - b, r_eof = f'\<rparr>, fd\<lparr>fsize := s'\<rparr>, mem, res')"
      "off \<le> b" "b \<le> off + sz" "next_mapped_offset methods fd b = Some l'" "f' \<longrightarrow> \<not> extend_flag fd"
      "moved fd off (fsize fd) res b s' res'" "at_end fd (off + sz) l' s' res'"
    by (rule loop_ok [OF ok plain off(1) e off(3) res l(1) f])
  have nx: "b \<le> l'" "mine fd l'" "\<forall>y. b \<le> y \<and> y < l' \<longrightarrow> \<not> mine fd y" using next_ok [OF ok, of b] g(2-4) off by auto
  have p: "logical_to_physical_offset methods fd l' = Some (place fd l')" by (rule l2p_ok [OF ok _ _ g(4)]) (use g(2,3) off in simp_all)
  let ?n = "if off + sz \<le> l' then sz else b - off"
  have run: "distribute_with D (Some methods) off sz fd mem res mode =
      Some (?n, fd\<lparr>fsize := s'\<rparr>, mem, res', f' \<or> (s' \<le> place fd l' \<and> \<not> extend_flag fd))"
    using False res plain l off g(1) p by (simp add: distribute_with_def fsize_irrelevant)
  have "parts fd off (off + ?n) = parts fd off b"
  proof (cases "off + sz \<le> l'")
    case True
    then have "parts fd b (off + sz) = []" using nx by (intro parts_gap [of _ l']) auto
    then show ?thesis using True parts_append [OF g(2,3), of fd] by simp
  qed simp
  then have mv: "moved fd off (fsize fd) res (off + ?n) s' res'" using g(6) by simp
  have eq: "segmax res' = segmax res" "bytemax res' = bytemax res" using g(6) by (simp_all add: adds_def)
  show thesis
    by (rule that [OF run _ _ mv]) (use g(2-5,7) nx off(2) eq in \<open>auto split: if_splits\<close>)
qed

end

end
