(* ===== verification/Pint_Walk.thy ===== *)
theory Pint_Walk
  imports Pint_Distribute
begin

text \<open>
  What the walk of \<open>PINT_process_request\<close> over a request does. \<open>layout\<close> is the meaning of a
  request: the offsets of its bytes, in order. The walk takes two short cuts, for a request that
  it takes to be contiguous as a whole and for one whose element type it takes to be contiguous;
  \<open>regular\<close> requests are those for which it is right to do so.
\<close>

section \<open>The bytes of a request\<close>

function layout :: "request \<Rightarrow> PVFS_offset \<Rightarrow> PVFS_offset list" where
  "layout r b =
     (case ereq (deref r) of
        None \<Rightarrow> [b + offset (deref r)..b + offset (deref r) + aggregate_size (deref r) - 1]
      | Some e \<Rightarrow>
          concat (map (\<lambda>k. concat (map (\<lambda>j. layout e (b + offset (deref r) + stride (deref r) * k + j * extent e))
            [0..num_ereqs (deref r) - 1])) [0..num_blocks (deref r) - 1]) @
          (case sreq (deref r) of None \<Rightarrow> [] | Some s \<Rightarrow> layout s b))"
  by pat_completeness auto
termination by (relation "measure (size \<circ> fst)") (auto simp: ereq_size sreq_size)

declare layout.simps [simp del]

text \<open>One block, for an element type.\<close>

definition block :: "request \<Rightarrow> request \<Rightarrow> PVFS_offset \<Rightarrow> int \<Rightarrow> PVFS_offset list" where
  "block r e b k = concat (map (\<lambda>j. layout e (b + offset (deref r) + stride (deref r) * k + j * extent e))
     [0..num_ereqs (deref r) - 1])"

definition tail_layout :: "request \<Rightarrow> PVFS_offset \<Rightarrow> PVFS_offset list" where
  "tail_layout r b = (case sreq (deref r) of None \<Rightarrow> [] | Some s \<Rightarrow> layout s b)"

lemma layout_basic: "ereq (deref r) = None \<Longrightarrow>
    layout r b = [b + offset (deref r)..b + offset (deref r) + aggregate_size (deref r) - 1]"
  by (simp add: layout.simps [of r])

lemma layout_blocks: "ereq (deref r) = Some e \<Longrightarrow>
    layout r b = concat (map (block r e b) [0..num_blocks (deref r) - 1]) @ tail_layout r b"
  by (simp add: layout.simps [of r] block_def [abs_def] tail_layout_def)

lemma map_upto_shift: "map (\<lambda>x. c + x) [a..b] = [c + a..c + (b::int)]"
  by (rule nth_equalityI) (simp_all add: nth_upto)

text \<open>The bytes move with the base.\<close>

lemma layout_shift: "layout r (c + b) = map ((+) c) (layout r b)"
proof (induction r b rule: layout.induct)
  case (1 r b)
  show ?case
  proof (cases "ereq (deref r)")
    case None
    then show ?thesis by (simp add: layout_basic map_upto_shift add.assoc add_diff_eq)
  next
    case (Some e)
    have "block r e (c + b) k = map ((+) c) (block r e b k)" if "k \<in> set [0..num_blocks (deref r) - 1]" for k
      unfolding block_def map_concat map_map comp_def
      by (intro arg_cong [where f = concat] map_cong refl) (use 1(1) [OF Some that] in \<open>simp add: add.assoc\<close>)
    moreover have "tail_layout r (c + b) = map ((+) c) (tail_layout r b)"
      using 1(2) [OF Some] by (simp add: tail_layout_def split: option.split)
    ultimately show ?thesis
      unfolding layout_blocks [OF Some] map_append map_concat map_map comp_def
      by (intro arg_cong2 [where f = append] arg_cong [where f = concat] map_cong refl)
  qed
qed

lemma layout_length: "length (layout r b) = length (layout r 0)"
  using layout_shift [of r b 0] by simp

text \<open>The bytes are one region that starts where the offsets down to the basic type lead.\<close>

definition contiguous :: "request \<Rightarrow> bool" where
  "contiguous r \<longleftrightarrow> layout r 0 = [offset (deref r) + PINT_request_disp r..
     offset (deref r) + PINT_request_disp r + aggregate_size (deref r) - 1]"

lemma contiguous_layout: "contiguous r \<Longrightarrow>
    layout r b = [b + (offset (deref r) + PINT_request_disp r)..
      b + (offset (deref r) + PINT_request_disp r) + aggregate_size (deref r) - 1]"
  using layout_shift [of r b 0] by (simp add: contiguous_def map_upto_shift add_diff_eq add.assoc)

text \<open>The first short cut: the whole request.\<close>

definition whole_shortcut :: "request \<Rightarrow> bool" where
  "whole_shortcut r \<longleftrightarrow> (case ereq (deref r) of None \<Rightarrow> True
     | Some e \<Rightarrow> aggregate_size (deref r) = extent r \<and> num_contig_chunks (deref e) = 1)"

text \<open>The second: the element type.\<close>

definition elem_shortcut :: "request \<Rightarrow> bool" where
  "elem_shortcut e \<longleftrightarrow> aggregate_size (deref e) = extent e \<and> num_contig_chunks (deref e) = 1"

function chain_regular :: "int \<Rightarrow> request \<Rightarrow> bool" and regular :: "request \<Rightarrow> bool" where
  "chain_regular d r \<longleftrightarrow>
     (case ereq (deref r) of
        None \<Rightarrow> False
      | Some e \<Rightarrow> 1 \<le> num_ereqs (deref r) \<and> 1 \<le> num_blocks (deref r) \<and> depth (deref e) < d \<and> regular e \<and>
          (case sreq (deref r) of None \<Rightarrow> True | Some s \<Rightarrow> chain_regular d s))"
| "regular r \<longleftrightarrow>
     1 \<le> depth (deref r) \<and> 0 < aggregate_size (deref r) \<and> int (length (layout r 0)) = aggregate_size (deref r) \<and>
     (whole_shortcut r \<or> elem_shortcut r \<longrightarrow> contiguous r \<and> aggregate_size (deref r) = extent r) \<and>
     (case ereq (deref r) of None \<Rightarrow> sreq (deref r) = None | Some e \<Rightarrow> chain_regular (depth (deref r)) r)"
  by pat_completeness auto
termination
  by (relation "measure (\<lambda>x. case x of Inl (d, r) \<Rightarrow> 2 * size r | Inr r \<Rightarrow> 2 * size r + 1)")
    (auto dest: ereq_size sreq_size)

declare chain_regular.simps [simp del] regular.simps [simp del]

lemma chain_regularD:
  assumes "chain_regular d r"
  obtains e where "ereq (deref r) = Some e" "1 \<le> num_ereqs (deref r)" "1 \<le> num_blocks (deref r)" "depth (deref e) < d" "regular e"
    "\<And>s. sreq (deref r) = Some s \<Longrightarrow> chain_regular d s"
  using assms by (auto simp: chain_regular.simps [of d r] split: option.splits)

lemma regularD:
  assumes "regular r"
  shows "1 \<le> depth (deref r)" "0 < aggregate_size (deref r)" "int (length (layout r b)) = aggregate_size (deref r)"
    "whole_shortcut r \<or> elem_shortcut r \<Longrightarrow> contiguous r \<and> aggregate_size (deref r) = extent r"
    "ereq (deref r) = None \<Longrightarrow> sreq (deref r) = None" "ereq (deref r) = Some e \<Longrightarrow> chain_regular (depth (deref r)) r"
  using assms layout_length [of r b] by (auto simp: regular.simps [of r] split: option.splits)

section \<open>The bytes that are left\<close>

inductive in_chain :: "request \<Rightarrow> request \<Rightarrow> bool" for q where
  chain_head: "in_chain q q"
| chain_next: "in_chain q r \<Longrightarrow> sreq (deref r) = Some s \<Longrightarrow> in_chain q s"

lemma in_chain_regular:
  assumes "in_chain q r" "chain_regular d q"
  shows "chain_regular d r"
  using assms by (induction rule: in_chain.induct) (auto elim: chain_regularD)

lemma in_chain_basic:
  assumes "in_chain q r" "regular q" "ereq (deref q) = None"
  shows "r = q"
  using assms(1)
proof (induction rule: in_chain.induct)
  case (chain_next r s)
  then show ?case using regularD(5) [OF assms(2,3)] by simp
qed simp

definition ebase :: "PINT_reqstack \<Rightarrow> PVFS_offset" where
  "ebase s = chunk_offset s + el s * extent (the (rqbase s))"

text \<open>The rest of the current element from a block on, and the elements behind it.\<close>

definition blocks_from :: "PINT_reqstack \<Rightarrow> int \<Rightarrow> PVFS_offset list" where
  "blocks_from s k = (let r = the (rq s) in
     case ereq (deref r) of None \<Rightarrow> layout r (ebase s)
     | Some e \<Rightarrow> concat (map (block r e (ebase s)) [k..num_blocks (deref r) - 1]) @ tail_layout r (ebase s))"

definition elems_after :: "PINT_reqstack \<Rightarrow> PVFS_offset list" where
  "elems_after s = concat (map (\<lambda>j. layout (the (rqbase s)) (chunk_offset s + j * extent (the (rqbase s)))) [el s + 1..maxel s - 1])"

definition here :: "PINT_reqstack \<Rightarrow> PVFS_offset list" where
  "here s = blocks_from s (blk s) @ elems_after s"

definition after :: "PINT_reqstack \<Rightarrow> PVFS_offset list" where
  "after s = blocks_from s (blk s + 1) @ elems_after s"

definition entry_ok :: "int \<Rightarrow> PINT_reqstack \<Rightarrow> bool" where
  "entry_ok d s \<longleftrightarrow> (\<exists>q r. rqbase s = Some q \<and> rq s = Some r \<and> regular q \<and> in_chain q r \<and> depth (deref q) \<le> d \<and>
     0 \<le> el s \<and> el s < maxel s \<and> 0 \<le> blk s \<and> (ereq (deref r) \<noteq> None \<longrightarrow> blk s < num_blocks (deref r)) \<and>
     (whole_shortcut q \<longrightarrow> el s = 0 \<and> blk s = 0 \<and> r = q))"

text \<open>A level that the walk comes back to.\<close>

definition open_entry :: "int \<Rightarrow> PINT_reqstack \<Rightarrow> bool" where
  "open_entry d s \<longleftrightarrow> entry_ok d s \<and> \<not> whole_shortcut (the (rqbase s))"

lemma open_entryD:
  assumes "open_entry d s"
  obtains q r e where "rqbase s = Some q" "rq s = Some r" "regular q" "in_chain q r" "depth (deref q) \<le> d"
    "0 \<le> el s" "el s < maxel s" "0 \<le> blk s" "blk s < num_blocks (deref r)" "\<not> whole_shortcut q"
    "ereq (deref r) = Some e" "chain_regular (depth (deref q)) r" "chain_regular (depth (deref q)) q"
proof -
  obtain q r where qr: "rqbase s = Some q" "rq s = Some r" "regular q" "in_chain q r" "depth (deref q) \<le> d"
    "0 \<le> el s" "el s < maxel s" "0 \<le> blk s" "ereq (deref r) \<noteq> None \<longrightarrow> blk s < num_blocks (deref r)"
    "\<not> whole_shortcut q"
    using assms by (auto simp: open_entry_def entry_ok_def)
  obtain e0 where "ereq (deref q) = Some e0" using qr(10) by (cases "ereq (deref q)") (auto simp: whole_shortcut_def)
  then have q: "chain_regular (depth (deref q)) q" using regularD(6) [OF qr(3)] by blast
  then have r: "chain_regular (depth (deref q)) r" by (rule in_chain_regular [OF qr(4)])
  obtain e where "ereq (deref r) = Some e" by (rule chain_regularD [OF r])
  then show thesis using that qr q r by blast
qed

lemma here_block:
  assumes "rq s = Some r" "ereq (deref r) = Some e" "blk s < num_blocks (deref r)"
  shows "here s = block r e (ebase s) (blk s) @ after s"
  using assms upto_rec1 [of "blk s" "num_blocks (deref r) - 1"] by (simp add: here_def after_def blocks_from_def)

text \<open>The elements from the current one on, when it has not been started.\<close>

lemma here_fresh:
  assumes "rq s = Some q" "rqbase s = Some q" "blk s = 0" "el s < maxel s"
  shows "here s = concat (map (\<lambda>j. layout q (chunk_offset s + j * extent q)) [el s..maxel s - 1])"
proof -
  have "blocks_from s 0 = layout q (ebase s)"
    using assms by (cases "ereq (deref q)") (simp_all add: blocks_from_def layout_blocks)
  then show ?thesis
    using assms upto_rec1 [of "el s" "maxel s - 1"] by (simp add: here_def elems_after_def ebase_def)
qed

fun rem_below :: "PINT_reqstack list \<Rightarrow> nat \<Rightarrow> PVFS_offset list" where
  "rem_below c 0 = []"
| "rem_below c (Suc l) = after (c ! l) @ rem_below c l"

lemma rem_below_cong: "(\<And>k. k < l \<Longrightarrow> c ! k = c' ! k) \<Longrightarrow> rem_below c l = rem_below c' l"
  by (induction l) auto

lemma rem_below_update [simp]: "l \<le> k \<Longrightarrow> rem_below (c[k := s]) l = rem_below c l"
  by (rule rem_below_cong) simp

section \<open>Returning from a level\<close>

lemma extent_update [simp]: "ebase (s\<lparr>blk := k, rq := r\<rparr>) = ebase s" "ebase (s\<lparr>blk := k\<rparr>) = ebase s"
  by (simp_all add: ebase_def)

lemma return_cases:
  assumes s: "open_entry d s"
  obtains r e q where "rq s = Some r" "rqbase s = Some q" "ereq (deref r) = Some e"
    "blk s + 1 < num_blocks (deref r)" "open_entry d (s\<lparr>blk := blk s + 1\<rparr>)" "here (s\<lparr>blk := blk s + 1\<rparr>) = after s"
  | r x where "rq s = Some r" "blk s + 1 \<ge> num_blocks (deref r)" "sreq (deref r) = Some x"
    "open_entry d (s\<lparr>blk := 0, rq := Some x\<rparr>)" "here (s\<lparr>blk := 0, rq := Some x\<rparr>) = after s"
  | r where "rq s = Some r" "blk s + 1 \<ge> num_blocks (deref r)" "sreq (deref r) = None" "el s + 1 < maxel s"
    "open_entry d (s\<lparr>blk := 0, rq := rqbase s, el := el s + 1\<rparr>)" "here (s\<lparr>blk := 0, rq := rqbase s, el := el s + 1\<rparr>) = after s"
  | r where "rq s = Some r" "blk s + 1 \<ge> num_blocks (deref r)" "sreq (deref r) = None" "el s + 1 \<ge> maxel s" "after s = []"
proof -
  obtain q r e where p: "rqbase s = Some q" "rq s = Some r" "regular q" "in_chain q r" "depth (deref q) \<le> d"
    "0 \<le> el s" "el s < maxel s" "0 \<le> blk s" "blk s < num_blocks (deref r)" "\<not> whole_shortcut q"
    "ereq (deref r) = Some e" "chain_regular (depth (deref q)) r" "chain_regular (depth (deref q)) q"
    by (rule open_entryD [OF s])
  show thesis
  proof (cases "blk s + 1 < num_blocks (deref r)")
    case True
    show thesis
      by (rule that(1) [OF p(2,1,11) True])
        (use p True in \<open>auto simp: open_entry_def entry_ok_def here_def after_def blocks_from_def elems_after_def\<close>)
  next
    case False
    then have none: "[blk s + 1..num_blocks (deref r) - 1] = []" by simp
    show thesis
    proof (cases "sreq (deref r)")
      case (Some x)
      have cx: "chain_regular (depth (deref q)) x" using chain_regularD [OF p(12)] Some by blast
      obtain ex where ex: "ereq (deref x) = Some ex" "1 \<le> num_blocks (deref x)" by (rule chain_regularD [OF cx])
      have "here (s\<lparr>blk := 0, rq := Some x\<rparr>) = after s"
        using p none ex Some by (simp add: here_def after_def blocks_from_def elems_after_def tail_layout_def layout_blocks)
      moreover have "open_entry d (s\<lparr>blk := 0, rq := Some x\<rparr>)"
        using p ex Some chain_next [OF p(4) Some] by (auto simp: open_entry_def entry_ok_def)
      ultimately show thesis using that(2) [OF p(2) _ Some] False by simp
    next
      case None
      have rest: "after s = elems_after s" using p none None by (simp add: after_def blocks_from_def tail_layout_def)
      show thesis
      proof (cases "el s + 1 < maxel s")
        case True
        let ?s = "s\<lparr>blk := 0, rq := rqbase s, el := el s + 1\<rparr>"
        have "here ?s = after s" using here_fresh [of ?s q] p True rest by (simp add: elems_after_def)
        moreover obtain e0 where "ereq (deref q) = Some e0" "1 \<le> num_blocks (deref q)" by (rule chain_regularD [OF p(13)])
        then have "open_entry d ?s" using p True chain_head [of q] by (auto simp: open_entry_def entry_ok_def)
        ultimately show thesis using that(3) [OF p(2) _ None True] False by simp
      next
        case last: False
        then show thesis using that(4) [OF p(2) _ None] False rest by (simp add: elems_after_def)
      qed
    qed
  qed
qed

text \<open>What stays at every level.\<close>

definition same_levels :: "PINT_reqstack list \<Rightarrow> PINT_reqstack list \<Rightarrow> bool" where
  "same_levels c c' \<longleftrightarrow> length c' = length c \<and>
     (\<forall>k < length c. rqbase (c' ! k) = rqbase (c ! k) \<and> maxel (c' ! k) = maxel (c ! k) \<and> chunk_offset (c' ! k) = chunk_offset (c ! k))"

lemma same_levels_update:
  "l < length c \<Longrightarrow> rqbase s = rqbase (c ! l) \<Longrightarrow> maxel s = maxel (c ! l) \<Longrightarrow> chunk_offset s = chunk_offset (c ! l)
    \<Longrightarrow> same_levels c (c[l := s])"
  by (auto simp: same_levels_def nth_list_update)

lemma same_levels_trans: "same_levels a b \<Longrightarrow> same_levels b c \<Longrightarrow> same_levels a c"
  by (auto simp: same_levels_def)

text \<open>The levels up to \<open>l\<close> are open.\<close>

definition open_levels :: "int \<Rightarrow> PINT_reqstack list \<Rightarrow> nat \<Rightarrow> bool" where
  "open_levels d c l \<longleftrightarrow> l \<le> length c \<and> (\<forall>k < l. open_entry (d - int k) (c ! k))"

lemma open_levels_update [simp]: "l \<le> k \<Longrightarrow> open_levels d (c[k := s]) l = open_levels d c l"
  by (simp add: open_levels_def)

lemma return_step:
  assumes l: "l < length c" and op: "open_entry d (c ! l)"
  obtains (stay) s where "return_from_level c (int l) = Some (c[l := s], int l)" "same_levels c (c[l := s])" "open_entry d s" "here s = after (c ! l)"
  | (up) s where "return_from_level c (int l) = return_from_level (c[l := s]) (int l - 1)" "same_levels c (c[l := s])" "after (c ! l) = []"
proof -
  have get: "array_get c (int l) = Some (c ! l)" using l by (simp add: array_get_def)
  note step = return_from_level.simps [of c "int l"] get
  have same: "same_levels c (c[l := s])" if "rqbase s = rqbase (c ! l)" "maxel s = maxel (c ! l)" "chunk_offset s = chunk_offset (c ! l)" for s
    by (rule same_levels_update [OF l that])
  show thesis
  proof (cases rule: return_cases [OF op])
    case (1 r e q)
    then show ?thesis by (intro stay [of "(c ! l)\<lparr>blk := blk (c ! l) + 1\<rparr>"] same) (simp_all add: step)
  next
    case (2 r x)
    then show ?thesis by (intro stay [of "(c ! l)\<lparr>blk := 0, rq := Some x\<rparr>"] same) (simp_all add: step)
  next
    case (3 r)
    then show ?thesis
      by (intro stay [of "(c ! l)\<lparr>blk := 0, rq := rqbase (c ! l), el := el (c ! l) + 1\<rparr>"] same) (simp_all add: step Let_def)
  next
    case (4 r)
    then show ?thesis
      by (intro up [of "(c ! l)\<lparr>blk := 0, rq := rqbase (c ! l), el := el (c ! l) + 1\<rparr>"] same) (simp_all add: step Let_def)
  qed
qed

lemma open_levels_Suc: "open_levels d c (Suc l) \<longleftrightarrow> l < length c \<and> open_entry (d - int l) (c ! l) \<and> open_levels d c l"
  by (auto simp: open_levels_def less_Suc_eq)

lemma return_from_level_ok:
  assumes "open_levels d c (Suc l)"
  obtains (finished) c' where "return_from_level c (int l) = Some (c', - 1)" "same_levels c c'" "rem_below c (Suc l) = []"
  | (continue) c' k where "return_from_level c (int l) = Some (c', int k)" "same_levels c c'" "k \<le> l" "open_levels d c' (Suc k)"
      "here (c' ! k) @ rem_below c' k = rem_below c (Suc l)"
  using assms
proof (induction l arbitrary: c thesis)
  case (0 c)
  have c0: "0 < length c" "open_entry d (c ! 0)" using 0(3) by (auto simp: open_levels_Suc)
  show ?case
  proof (cases rule: return_step [OF c0])
    case (1 s)
    then show ?thesis using c0 by (intro 0(2) [of "c[0 := s]" 0]) (simp_all add: open_levels_Suc, simp add: open_levels_def)
  next
    case (2 s)
    then show ?thesis using c0 by (intro 0(1) [of "c[0 := s]"]) (simp_all add: return_from_level.simps [of _ "- 1"])
  qed
next
  case (Suc l c)
  have c0: "Suc l < length c" "open_entry (d - int (Suc l)) (c ! Suc l)" "open_levels d c (Suc l)"
    using Suc.prems(3) by (simp_all add: open_levels_Suc)
  show ?case
  proof (cases rule: return_step [OF c0(1,2)])
    case (1 s)
    then show ?thesis using c0 by (intro Suc.prems(2) [of "c[Suc l := s]" "Suc l"]) (simp_all add: open_levels_Suc [of _ _ "Suc l"])
  next
    case up: (2 s)
    have eq: "return_from_level c (int (Suc l)) = return_from_level (c[Suc l := s]) (int l)" using up(1) by simp
    have op: "open_levels d (c[Suc l := s]) (Suc l)" using c0 by simp
    have rb: "rem_below (c[Suc l := s]) (Suc l) = rem_below c (Suc (Suc l))"
      using up(3) rem_below_update [of "Suc l" "Suc l" c s] by (simp only: rem_below.simps(2) [of c "Suc l"] append_Nil)
    show ?thesis
    proof (rule Suc.IH [OF _ _ op])
      fix c' assume "return_from_level (c[Suc l := s]) (int l) = Some (c', - 1)" "same_levels (c[Suc l := s]) c'" "rem_below (c[Suc l := s]) (Suc l) = []"
      then show ?thesis using eq same_levels_trans [OF up(2)] rb by (intro Suc.prems(1) [of c']) simp_all
    next
      fix c' k assume "return_from_level (c[Suc l := s]) (int l) = Some (c', int k)" "same_levels (c[Suc l := s]) c'" "k \<le> l" "open_levels d c' (Suc k)"
        "here (c' ! k) @ rem_below c' k = rem_below (c[Suc l := s]) (Suc l)"
      then show ?thesis using eq same_levels_trans [OF up(2)] rb by (intro Suc.prems(2) [of c' k]) simp_all
    qed
  qed
qed

section \<open>The next region\<close>

lemma concat_tiles:
  fixes a n x :: int
  assumes "0 \<le> n" "0 \<le> a" "\<And>j. f j = [x + j * a..x + j * a + a - 1]"
  shows "concat (map f [0..n - 1]) = [x..x + n * a - 1]"
  using assms(1)
proof (induction n rule: int_ge_induct)
  case (step n)
  have "[0..n + 1 - 1] = [0..n - 1] @ [n]" using step.hyps upto_rec2 [of 0 n] by simp
  then have "concat (map f [0..n + 1 - 1]) = [x..x + n * a - 1] @ [x + n * a..x + n * a + a - 1]"
    using step.IH by (simp only: map_append concat_append list.map concat.simps append_Nil2 assms(3) [of n])
  also have "\<dots> = [x..x + (n + 1) * a - 1]"
    using upto_append [of x "x + n * a" "x + n * a + a"] step.hyps assms(2) by (simp add: algebra_simps)
  finally show ?case .
qed simp

lemma region_cases:
  assumes s: "entry_ok d s"
  obtains (whole) x n where "here s = [x..x + n - 1]" "0 < n" "\<And>b. contig_region s b = Some (Some (x + b, n - b, True))"
  | (elem) x n where "here s = [x..x + n - 1] @ after s" "0 < n" "\<And>b. contig_region s b = Some (Some (x + b, n - b, False))" "open_entry d s"
  | (down) s' where "\<And>b. contig_region s b = Some None" "next_level s = Some s'" "here s = here s' @ after s" "entry_ok (d - 1) s'" "open_entry d s"
proof -
  obtain q r where p: "rqbase s = Some q" "rq s = Some r" "regular q" "in_chain q r" "depth (deref q) \<le> d" "0 \<le> el s" "el s < maxel s"
    "whole_shortcut q \<Longrightarrow> el s = 0 \<and> blk s = 0 \<and> r = q"
    using s by (auto simp: entry_ok_def)
  show thesis
  proof (cases "whole_shortcut q")
    case True
    then have f: "el s = 0" "blk s = 0" "r = q" using p(8) by auto
    have c: "contiguous q" "aggregate_size (deref q) = extent q" "0 < aggregate_size (deref q)" using regularD(4) [OF p(3)] regularD(2) [OF p(3)] True by auto
    let ?x = "chunk_offset s + (offset (deref q) + PINT_request_disp q)"
    have "here s = concat (map (\<lambda>j. layout q (chunk_offset s + j * extent q)) [0..maxel s - 1])"
      using here_fresh [of s q] p f by simp
    also have "\<dots> = [?x..?x + maxel s * extent q - 1]"
      using p(6,7) c by (intro concat_tiles) (simp_all add: contiguous_layout algebra_simps)
    finally have h: "here s = [?x..?x + maxel s * extent q - 1]" .
    have "contig_region s b = Some (Some (?x + b, maxel s * extent q - b, True))" for b
      using True p(1,2) f(3) c(2) by (cases "ereq (deref q)") (simp_all add: contig_region_def whole_shortcut_def algebra_simps)
    then show thesis using p(6,7) c(2,3) by (intro whole [OF h]) simp_all
  next
    case False
    then have op: "open_entry d s" using s p(1) by (simp add: open_entry_def)
    obtain e where e: "ereq (deref r) = Some e" "blk s < num_blocks (deref r)" "chain_regular (depth (deref q)) r"
      by (rule open_entryD [OF op]) (use p in auto)
    obtain e' where e': "e' = e" "1 \<le> num_ereqs (deref r)" "depth (deref e) < depth (deref q)" "regular e"
      by (rule chain_regularD [OF e(3)]) (use e(1) in auto)
    have hb: "here s = block r e (ebase s) (blk s) @ after s" by (rule here_block [OF p(2) e(1,2)])
    have nw: "\<not> (aggregate_size (deref r) = extent q \<and> num_contig_chunks (deref e) = 1 \<and> r = q)"
      using False e(1) by (auto simp: whole_shortcut_def)
    let ?y = "ebase s + offset (deref r) + stride (deref r) * blk s"
    show thesis
    proof (cases "elem_shortcut e")
      case True
      then have c: "contiguous e" "aggregate_size (deref e) = extent e" "0 < aggregate_size (deref e)"
        using regularD(2,4) [OF e'(4)] by auto
      let ?x = "?y + (offset (deref e) + PINT_request_disp e)"
      have "block r e (ebase s) (blk s) = [?x..?x + num_ereqs (deref r) * extent e - 1]"
        unfolding block_def using e'(2) c by (intro concat_tiles) (simp_all add: contiguous_layout algebra_simps)
      then have h: "here s = [?x..?x + num_ereqs (deref r) * extent e - 1] @ after s" using hb by simp
      have "PINT_request_disp r = offset (deref e) + PINT_request_disp e" using e(1) by (simp add: PINT_request_disp.simps [of r])
      then have "contig_region s b = Some (Some (?x + b, num_ereqs (deref r) * extent e - b, False))" for b
        using True p(1,2) e(1) nw c(2) by (simp add: contig_region_def elem_shortcut_def ebase_def algebra_simps)
      then show thesis using e'(2) c(2,3) op by (intro elem [OF h]) simp_all
    next
      case no: False
      let ?s = "\<lparr>el = 0, maxel = num_ereqs (deref r), rq = Some e, rqbase = Some e, blk = 0, chunk_offset = ?y\<rparr>"
      have nl: "next_level s = Some ?s" using p(1,2) e(1) by (simp add: next_level_def ebase_def algebra_simps)
      have "here ?s = block r e (ebase s) (blk s)" using here_fresh [of ?s e] e'(2) by (simp add: block_def)
      moreover have "contig_region s b = Some None" for b
        using no p(1,2) e(1) nw by (auto simp: contig_region_def elem_shortcut_def)
      moreover have "entry_ok (d - 1) ?s"
      proof -
        have "0 < num_blocks (deref e)" if "ereq (deref e) = Some x" for x
          using chain_regularD [OF regularD(6) [OF e'(4) that]] by fastforce
        then show ?thesis using e' p(5) chain_head [of e] by (auto simp: entry_ok_def)
      qed
      ultimately show thesis using nl hb op by (intro down [of ?s]) simp_all
    qed
  qed
qed

end
