(* ===== verification/Pint_Process.thy ===== *)
theory Pint_Process
  imports Pint_Walk
begin

text \<open>
  What \<open>PINT_process_request\<close> returns. A regular request, repeated as often as needed, is a stream of
  offsets; the state of a request stands at a place of the stream. A call moves the state on and
  adds the segments of the bytes in between, and a later call continues from there.

  The locale \<open>segment_maker\<close> states what the walk relies on when it turns a region into segments. A
  server with a distribution that keeps the contract \<open>dist_server\<close> provides it.
\<close>

section \<open>Lists\<close>

lemma drop_upto: "0 \<le> b \<Longrightarrow> drop (nat b) [x..y] = [x + b..(y::int)]"
  by (rule nth_equalityI) (auto simp: nth_upto)

lemma take_upto: "0 \<le> m \<Longrightarrow> m \<le> y - x + 1 \<Longrightarrow> take (nat m) [x..y] = [x..x + m - (1::int)]"
  by (rule nth_equalityI) (auto simp: nth_upto)

definition slice :: "'a list \<Rightarrow> int \<Rightarrow> int \<Rightarrow> 'a list" where
  "slice P a b = take (nat (b - a)) (drop (nat a) P)"

lemma slice_empty [simp]: "slice P a a = []"
  by (simp add: slice_def)

lemma slice_append:
  assumes "0 \<le> a" "a \<le> b" "b \<le> c"
  shows "slice P a b @ slice P b c = slice P a c"
proof -
  have "nat (c - a) = nat (b - a) + nat (c - b)" "nat b = nat (b - a) + nat a" using assms by auto
  then show ?thesis by (simp add: slice_def take_add add.commute)
qed

section \<open>States\<close>

text \<open>What is left for the walk, given the stack, the level and the bytes of the current region.\<close>

definition left :: "PINT_reqstack list \<Rightarrow> int \<Rightarrow> PVFS_size \<Rightarrow> PVFS_offset list" where
  "left c l b = drop (nat b) (here (c ! nat l)) @ rem_below c (nat l)"

text \<open>
  A state in the middle of a walk, for a request of depth \<open>d\<close>: the bytes are those of a region
  that the walk would return in one piece.
\<close>

definition walk_ok :: "int \<Rightarrow> PINT_reqstack list \<Rightarrow> int \<Rightarrow> PVFS_size \<Rightarrow> bool" where
  "walk_ok d c l b \<longleftrightarrow> 0 \<le> l \<and> nat l < length c \<and> d \<le> int (length c) \<and>
     (\<exists>q. rqbase (c ! 0) = Some q \<and> depth (deref q) = d) \<and>
     open_levels d c (nat l) \<and> entry_ok (d - l) (c ! nat l) \<and> 0 \<le> b \<and>
     (case contig_region (c ! nat l) 0 of Some (Some (x, n, f)) \<Rightarrow> b < n | _ \<Rightarrow> b = 0)"

lemma walk_ok_start:
  assumes "d \<le> int (length c)" "rqbase (c ! 0) = Some q" "depth (deref q) = d" "open_levels d c k" "entry_ok (d - int k) (c ! k)" "k < length c"
  shows "walk_ok d c (int k) 0"
proof -
  have "case contig_region (c ! k) 0 of Some (Some (x, n, f)) \<Rightarrow> 0 < n | _ \<Rightarrow> True"
    by (rule region_cases [OF assms(5)]) auto
  then show ?thesis using assms by (auto simp: walk_ok_def split: option.splits)
qed

text \<open>The walk goes down a level, or comes to a region.\<close>

lemma walk_down:
  assumes w: "walk_ok d c l b" and r: "contig_region (c ! nat l) b = Some None"
  obtains s c' q where "next_level (c ! nat l) = Some s" "array_set c (l + 1) s = Some c'" "array_get c 0 = Some (c ! 0)"
    "rqbase (c ! 0) = Some q" "l + 1 < depth (deref q)" "b = 0" "walk_ok d c' (l + 1) 0" "left c' (l + 1) 0 = left c l b" "same_levels [c ! 0] [c' ! 0]"
proof -
  obtain q where c: "0 \<le> l" "nat l < length c" "d \<le> int (length c)" "rqbase (c ! 0) = Some q" "depth (deref q) = d"
    "open_levels d c (nat l)" "entry_ok (d - l) (c ! nat l)"
    using w by (auto simp: walk_ok_def)
  obtain s where s: "next_level (c ! nat l) = Some s" "here (c ! nat l) = here s @ after (c ! nat l)" "entry_ok (d - l - 1) s"
      "open_entry (d - l) (c ! nat l)" "contig_region (c ! nat l) 0 = Some None"
    by (rule region_cases [OF c(7)]) (use r in auto)
  have b: "b = 0" using w s(5) by (simp add: walk_ok_def)
  have "1 \<le> d - l - 1" using s(3) regularD(1) by (fastforce simp: entry_ok_def)
  then have len: "l + 1 < d" "nat (l + 1) < length c" using c(1,3) by auto
  let ?c = "c[nat (l + 1) := s]"
  have n: "nat (l + 1) = Suc (nat l)" using c(1) by simp
  have run: "array_set c (l + 1) s = Some ?c" using c(1) len by (simp add: array_set_def)
  have root: "?c ! 0 = c ! 0" using n by simp
  have "open_levels d ?c (Suc (nat l))" using c(1,2,6) s(4) n by (simp add: open_levels_Suc)
  moreover have "entry_ok (d - int (Suc (nat l))) s" using s(3) c(1) by (simp add: algebra_simps)
  ultimately have "walk_ok d ?c (int (Suc (nat l))) 0"
    using c(3-5) root len n by (intro walk_ok_start [of d ?c q "Suc (nat l)"]) simp_all
  then have ok: "walk_ok d ?c (l + 1) 0" using c(1) by (simp add: add.commute)
  have "left ?c (l + 1) 0 = left c l b" using s(2) b len n by (simp add: left_def)
  moreover have "array_get c 0 = Some (c ! 0)" using c(2) by (auto simp: array_get_def)
  ultimately show thesis
    using that [OF s(1) run _ c(4) _ b ok] c len root by (simp add: same_levels_def)
qed

lemma walk_region:
  assumes w: "walk_ok d c l b" and r: "contig_region (c ! nat l) b = Some (Some (off, n, f))"
  obtains rest where "0 < n" "left c l b = [off..off + n - 1] @ rest"
    "\<And>m. 0 \<le> m \<Longrightarrow> m < n \<Longrightarrow> walk_ok d c l (b + m) \<and> left c l (b + m) = drop (nat m) (left c l b)"
    "(\<exists>c'. return_from_level c (if f then l - 1 else l) = Some (c', - 1) \<and> rest = []) \<or>
     (\<exists>c' k. return_from_level c (if f then l - 1 else l) = Some (c', int k) \<and> same_levels c c' \<and>
        walk_ok d c' (int k) 0 \<and> left c' (int k) 0 = rest)"
proof -
  obtain q where c: "0 \<le> l" "nat l < length c" "d \<le> int (length c)" "rqbase (c ! 0) = Some q" "depth (deref q) = d"
    "open_levels d c (nat l)" "entry_ok (d - l) (c ! nat l)" "0 \<le> b"
    using w by (auto simp: walk_ok_def)
  have onward: "walk_ok d c l (b + m) \<and> left c l (b + m) = drop (nat m) (left c l b)"
    if "0 \<le> m" "m < n" "here (c ! nat l) = [off - b..off + n - 1] @ y" "contig_region (c ! nat l) 0 = Some (Some (off - b, n + b, f))" for m y
    using that w c(8) by (auto simp: walk_ok_def left_def nat_add_distrib add.commute)
  have returned: "(\<exists>c'. return_from_level c (int k) = Some (c', - 1) \<and> rem_below c (Suc k) = []) \<or>
     (\<exists>c' j. return_from_level c (int k) = Some (c', int j) \<and> same_levels c c' \<and>
        walk_ok d c' (int j) 0 \<and> left c' (int j) 0 = rem_below c (Suc k))" if op: "open_levels d c (Suc k)" for k
  proof (cases rule: return_from_level_ok [OF op])
    case (2 c' j)
    have "0 < length c" using c(2) by linarith
    then have "rqbase (c' ! 0) = Some q" "length c' = length c" using 2(2) c(4) by (auto simp: same_levels_def)
    then have "walk_ok d c' (int j) 0"
      using c(3,5) 2(4) by (intro walk_ok_start [of d c' q j]) (simp_all add: open_levels_Suc open_entry_def)
    then show ?thesis using 2 by (auto simp: left_def)
  qed blast
  show thesis
    using c(7)
  proof (cases rule: region_cases)
    case (whole x k)
    have x: "off = x + b" "n = k - b" "f" using r whole(3) [of b] by auto
    have h: "here (c ! nat l) = [off - b..off + n - 1] @ []" "contig_region (c ! nat l) 0 = Some (Some (off - b, n + b, f))"
      using whole x by auto
    have pos: "0 < n" using w h(2) by (simp add: walk_ok_def)
    have lft: "left c l b = [off..off + n - 1] @ rem_below c (nat l)" using h(1) c(8) by (simp add: left_def drop_upto)
    show thesis
    proof (rule that [OF pos lft onward [OF _ _ h]])
      show "(\<exists>c'. return_from_level c (if f then l - 1 else l) = Some (c', - 1) \<and> rem_below c (nat l) = []) \<or>
        (\<exists>c' k. return_from_level c (if f then l - 1 else l) = Some (c', int k) \<and> same_levels c c' \<and>
          walk_ok d c' (int k) 0 \<and> left c' (int k) 0 = rem_below c (nat l))"
      proof (cases "l = 0")
        case True
        then show ?thesis using x(3) by (simp add: return_from_level.simps [of c "- 1"])
      next
        case False
        then obtain k where k: "nat l = Suc k" "l - 1 = int k" using c(1) by (cases "nat l") auto
        show ?thesis using returned [of k] c(6) x(3) unfolding k by simp
      qed
    qed
  next
    case (elem x k)
    have x: "off = x + b" "n = k - b" "\<not> f" using r elem(3) [of b] by auto
    have h: "here (c ! nat l) = [off - b..off + n - 1] @ after (c ! nat l)" "contig_region (c ! nat l) 0 = Some (Some (off - b, n + b, f))"
      using elem x by auto
    have pos: "0 < n" using w h(2) by (simp add: walk_ok_def)
    have lft: "left c l b = [off..off + n - 1] @ rem_below c (Suc (nat l))"
      using h(1) c(8) pos by (simp add: left_def drop_upto)
    have "open_levels d c (Suc (nat l))" using c elem(4) by (simp add: open_levels_Suc)
    then show thesis using that [OF pos lft onward [OF _ _ h]] returned [of "nat l"] x(3) c(1) by simp
  next
    case (down s')
    then show thesis using r by simp
  qed
qed

text \<open>The state stands at \<open>type_offset\<close> of the stream.\<close>

definition at :: "int \<Rightarrow> PVFS_offset list \<Rightarrow> PINT_Request_state \<Rightarrow> bool" where
  "at d P req \<longleftrightarrow> walk_ok d (cur req) (lvl req) (bytes req) \<and> 0 \<le> type_offset req \<and> type_offset req \<le> int (length P) \<and>
     left (cur req) (lvl req) (bytes req) = drop (nat (type_offset req)) P"

definition same_root :: "PINT_Request_state \<Rightarrow> PINT_Request_state \<Rightarrow> bool" where
  "same_root req req' \<longleftrightarrow> rqbase (cur req' ! 0) = rqbase (cur req ! 0) \<and> maxel (cur req' ! 0) = maxel (cur req ! 0) \<and>
     chunk_offset (cur req' ! 0) = chunk_offset (cur req ! 0) \<and> cur req' \<noteq> [] \<and>
     final_offset req' = final_offset req \<and> target_offset req' = target_offset req"

lemma same_root_trans: "same_root a b \<Longrightarrow> same_root b c \<Longrightarrow> same_root a c"
  by (simp add: same_root_def)

lemma walk_level: "walk_ok d c l b \<Longrightarrow> l < d \<and> c \<noteq> []"
  using regularD(1) by (fastforce simp: walk_ok_def entry_ok_def)

text \<open>One iteration at a region, of which \<open>m\<close> bytes are taken.\<close>

lemma iter_region:
  assumes at: "at d P req" and run: "contig_region (cur req ! nat (lvl req)) (bytes req) = Some (Some (off, n, f))"
  obtains "0 < n" "set [off..off + n - 1] \<subseteq> set P"
    "\<And>m. 0 \<le> m \<Longrightarrow> m \<le> n \<Longrightarrow> slice P (type_offset req) (type_offset req + m) = [off..off + m - 1]"
    "\<And>m. 0 \<le> m \<Longrightarrow> m < n \<Longrightarrow> P ! nat (type_offset req + m) = off + m"
    "\<And>D mode m ef mem mem' fd fd' res res'.
       process_region D mode off n (req, mem, fd, res) = Some (m, (req\<lparr>eof_flag := ef\<rparr>, mem', fd', res')) \<Longrightarrow>
       \<not> PINT_IS_CLIENT mode \<Longrightarrow> \<not> PINT_IS_CKSIZE mode \<Longrightarrow> 0 \<le> m \<Longrightarrow> m \<le> n \<Longrightarrow> type_offset req + m < int (length P) \<Longrightarrow>
       \<exists>req'. at d P req' \<and> same_root req req' \<and> type_offset req' = type_offset req + m \<and> eof_flag req' = ef \<and>
         process_iter D mode (req, mem, fd, res) =
           Some (if m \<noteq> n then if PINT_IS_LOGICAL_SKIP mode then Again (PINT_CLR_LOGICAL_SKIP mode) (req', mem', fd', res')
                                else Done (req', mem', fd', res')
                 else if res_bytes res' = bytemax res' \<or> segs res' = segmax res' \<or> final_offset req \<le> type_offset req'
                      then Done (req', mem', fd', res') else Again mode (req', mem', fd', res'))"
proof -
  let ?c = "cur req" and ?l = "lvl req" and ?b = "bytes req" and ?t = "type_offset req"
  have w: "walk_ok d ?c ?l ?b" and t: "0 \<le> ?t" "?t \<le> int (length P)" "left ?c ?l ?b = drop (nat ?t) P" using at by (auto simp: at_def)
  have get: "array_get ?c ?l = Some (?c ! nat ?l)" using w by (auto simp: walk_ok_def array_get_def)
  obtain rest where g: "0 < n" "left ?c ?l ?b = [off..off + n - 1] @ rest"
    "\<And>m. 0 \<le> m \<Longrightarrow> m < n \<Longrightarrow> walk_ok d ?c ?l (?b + m) \<and> left ?c ?l (?b + m) = drop (nat m) (left ?c ?l ?b)"
    "(\<exists>c'. return_from_level ?c (if f then ?l - 1 else ?l) = Some (c', - 1) \<and> rest = []) \<or>
     (\<exists>c' k. return_from_level ?c (if f then ?l - 1 else ?l) = Some (c', int k) \<and> same_levels ?c c' \<and>
        walk_ok d c' (int k) 0 \<and> left c' (int k) 0 = rest)"
    using walk_region [OF w run] by blast
  have dr: "drop (nat ?t) P = [off..off + n - 1] @ rest" using g(2) t(3) by simp
  then have "int (length (drop (nat ?t) P)) = int (length ([off..off + n - 1] @ rest))" by simp
  then have len: "int (length P) - ?t = n + int (length rest)" using t(1,2) g(1) by simp
  have sl: "slice P ?t (?t + m) = [off..off + m - 1]" if "0 \<le> m" "m \<le> n" for m
    using that dr by (simp add: slice_def take_upto)
  have sub: "set [off..off + n - 1] \<subseteq> set P" using dr set_drop_subset [of "nat ?t" P] by auto
  have nth: "P ! nat (?t + m) = off + m" if "0 \<le> m" "m < n" for m
  proof -
    have "P ! nat (?t + m) = drop (nat ?t) P ! nat m" using t that by (simp add: nat_add_distrib)
    also have "\<dots> = off + m" unfolding dr using that by (simp add: nth_append nth_upto)
    finally show ?thesis .
  qed
  show thesis
  proof (rule that [OF g(1) sub sl nth])
    fix D mode m ef mem mem' fd fd' res res'
    assume pr: "process_region D mode off n (req, mem, fd, res) = Some (m, (req\<lparr>eof_flag := ef\<rparr>, mem', fd', res'))"
      and modes: "\<not> PINT_IS_CLIENT mode" "\<not> PINT_IS_CKSIZE mode" and m: "0 \<le> m" "m \<le> n" "?t + m < int (length P)"
    let ?res = "\<lambda>req'. Some (if m \<noteq> n then if PINT_IS_LOGICAL_SKIP mode then Again (PINT_CLR_LOGICAL_SKIP mode) (req', mem', fd', res')
                                else Done (req', mem', fd', res')
                 else if res_bytes res' = bytemax res' \<or> segs res' = segmax res' \<or> final_offset req \<le> type_offset req'
                      then Done (req', mem', fd', res') else Again mode (req', mem', fd', res'))"
    let ?req2 = "req\<lparr>eof_flag := ef, type_offset := ?t + m\<rparr>"
    show "\<exists>req'. at d P req' \<and> same_root req req' \<and> type_offset req' = ?t + m \<and> eof_flag req' = ef \<and>
        process_iter D mode (req, mem, fd, res) = ?res req'"
    proof (cases "m = n")
      case False
      let ?req3 = "?req2\<lparr>bytes := ?b + m\<rparr>"
      have "at d P ?req3" using g(3) [of m] False m t len by (simp add: at_def nat_add_distrib add.commute)
      moreover have "same_root req ?req3" using walk_level [OF w] by (simp add: same_root_def)
      moreover have "process_iter D mode (req, mem, fd, res) = ?res ?req3"
        using get run pr m(1) modes False by (simp add: process_iter_def)
      ultimately show ?thesis by (intro exI [of _ ?req3]) simp
    next
      case True
      have rs: "rest = drop (nat (?t + n)) P" using dr t(1) g(1) by (simp add: nat_add_distrib drop_drop [symmetric] add.commute)
      have "rest \<noteq> []" using m(3) True len by auto
      with g(4) obtain c' k where c': "return_from_level ?c (if f then ?l - 1 else ?l) = Some (c', int k)" "same_levels ?c c'"
        "walk_ok d c' (int k) 0" "left c' (int k) 0 = rest" by blast
      let ?req3 = "?req2\<lparr>cur := c', lvl := int k, bytes := 0\<rparr>"
      have "at d P ?req3" using c'(3,4) rs t len True by (simp add: at_def)
      moreover have "same_root req ?req3" using c'(2) walk_level [OF w] walk_level [OF c'(3)] by (simp add: same_root_def same_levels_def)
      moreover have "process_return mode f (?req2, mem', fd', res') = ?res ?req3"
        using c'(1) modes True by (cases f) (simp_all add: process_return_def Let_def)
      then have "process_iter D mode (req, mem, fd, res) = ?res ?req3"
        using get run pr m(1) modes True by (simp add: process_iter_def)
      ultimately show ?thesis by (intro exI [of _ ?req3]) simp
    qed
  qed
qed

text \<open>An iteration that goes down.\<close>

lemma iter_down:
  assumes at: "at d P req" and down: "contig_region (cur req ! nat (lvl req)) (bytes req) = Some None"
  obtains req' where "\<And>D mode mem fd res. process_iter D mode (req, mem, fd, res) = Some (Again mode (req', mem, fd, res))"
    "at d P req'" "same_root req req'" "type_offset req' = type_offset req" "lvl req' = lvl req + 1"
proof -
  let ?c = "cur req" and ?l = "lvl req" and ?b = "bytes req" and ?t = "type_offset req"
  have w: "walk_ok d ?c ?l ?b" and t: "0 \<le> ?t" "?t \<le> int (length P)" "left ?c ?l ?b = drop (nat ?t) P" using at by (auto simp: at_def)
  have get: "array_get ?c ?l = Some (?c ! nat ?l)" using w by (auto simp: walk_ok_def array_get_def)
  obtain s c' q where s: "next_level (?c ! nat ?l) = Some s" "array_set ?c (?l + 1) s = Some c'" "array_get ?c 0 = Some (?c ! 0)"
    "rqbase (?c ! 0) = Some q" "?l + 1 < depth (deref q)" "?b = 0" "walk_ok d c' (?l + 1) 0" "left c' (?l + 1) 0 = left ?c ?l ?b"
    "same_levels [?c ! 0] [c' ! 0]"
    by (rule walk_down [OF w down])
  let ?req = "req\<lparr>cur := c', lvl := ?l + 1\<rparr>"
  have "process_iter D mode (req, mem, fd, res) = Some (Again mode (?req, mem, fd, res))" for D mode mem fd res
    using get down s by (simp add: process_iter_def)
  moreover have "at d P ?req" using s t by (simp add: at_def)
  moreover have "same_root req ?req" using s(9) walk_level [OF s(7)] by (simp add: same_root_def same_levels_def)
  ultimately show thesis by (intro that [of ?req]) simp_all
qed

lemma iter_kinds:
  assumes "at d P req"
  obtains (down) "contig_region (cur req ! nat (lvl req)) (bytes req) = Some None"
    | (run) off n f where "contig_region (cur req ! nat (lvl req)) (bytes req) = Some (Some (off, n, f))"
proof -
  have e: "entry_ok (d - lvl req) (cur req ! nat (lvl req))" using assms by (simp add: at_def walk_ok_def)
  show thesis by (rule region_cases [OF e]) (use that in auto)
qed

text \<open>Each iteration moves on in the stream or goes down a level.\<close>

definition later :: "int \<Rightarrow> PVFS_offset list \<Rightarrow> (PINT_Request_state \<times> PINT_Request_state) set" where
  "later d P = {(req', req). ((nat (int (length P) - type_offset req'), nat (d - lvl req')),
     (nat (int (length P) - type_offset req), nat (d - lvl req))) \<in> less_than <*lex*> less_than}"

lemma wf_later: "wf (later d P)"
proof -
  have "later d P = inv_image (less_than <*lex*> less_than) (\<lambda>req. (nat (int (length P) - type_offset req), nat (d - lvl req)))"
    by (auto simp: later_def inv_image_def)
  then show ?thesis using wf_inv_image [OF wf_lex_prod [OF wf_less_than wf_less_than]] by metis
qed

lemma laterI:
  assumes "at d P req'" "type_offset req < type_offset req' \<or> type_offset req' = type_offset req \<and> lvl req' = lvl req + 1"
  shows "(req', req) \<in> later d P"
  using assms walk_level [of d "cur req'" "lvl req'" "bytes req'"] by (auto simp: later_def at_def)

section \<open>Skipping to the target\<close>

lemma skip_ok:
  assumes "at d P req" "type_offset req \<le> target_offset req" "target_offset req \<le> final_offset req" "final_offset req < int (length P)"
    and "PINT_IS_LOGICAL_SKIP mode" "\<not> PINT_IS_CLIENT mode" "\<not> PINT_IS_CKSIZE mode"
    and "segs res < segmax res" "res_bytes res < bytemax res"
  obtains req' where "at d P req'" "same_root req req'" "type_offset req' = target_offset req"
    "process_loop D mode (req, mem, fd, res) = process_loop D (PINT_CLR_LOGICAL_SKIP mode) (req', mem, fd, res) \<or>
     target_offset req = final_offset req \<and> process_loop D mode (req, mem, fd, res) = Some (0, (req', mem, fd, res))"
  using assms(1-4)
proof (induction req arbitrary: thesis rule: wf_induct_rule [OF wf_later [of d P]])
  case less: (1 req)
  have cont: thesis
    if "at d P req1" "same_root req req1" "type_offset req1 \<le> target_offset req" "(req1, req) \<in> later d P"
      "process_iter D mode (req, mem, fd, res) = Some (Again mode (req1, mem, fd, res))" for req1
  proof -
    have "type_offset req1 \<le> target_offset req1" "target_offset req1 \<le> final_offset req1" "final_offset req1 < int (length P)"
      using that(2,3) less.prems(4,5) by (auto simp: same_root_def)
    with less.IH [OF that(4) _ that(1)] obtain req2 where "at d P req2" "same_root req1 req2" "type_offset req2 = target_offset req1"
      "process_loop D mode (req1, mem, fd, res) = process_loop D (PINT_CLR_LOGICAL_SKIP mode) (req2, mem, fd, res) \<or>
       target_offset req1 = final_offset req1 \<and> process_loop D mode (req1, mem, fd, res) = Some (0, (req2, mem, fd, res))"
      by blast
    then show thesis
      using that(2,5) same_root_trans [of req req1 req2]
      by (intro less.prems(1) [of req2]) (auto simp: process_loop.simps [of D mode "(req, mem, fd, res)"] same_root_def)
  qed
  show ?case
    using less.prems(2)
  proof (cases rule: iter_kinds)
    case down
    obtain req1 where r: "\<And>D mode mem fd res. process_iter D mode (req, mem, fd, res) = Some (Again mode (req1, mem, fd, res))"
      "at d P req1" "same_root req req1" "type_offset req1 = type_offset req" "lvl req1 = lvl req + 1"
      by (rule iter_down [OF less.prems(2) down]) blast
    show thesis by (rule cont [OF r(2,3) _ laterI [OF r(2)] r(1)]) (use r less.prems(3) in auto)
  next
    case (run off n f)
    define m where "m = (if target_offset req \<le> type_offset req + n then target_offset req - type_offset req else n)"
    let ?ef = "fsize fd \<le> type_offset req \<and> \<not> extend_flag fd"
    have pr: "process_region D mode off n (req, mem, fd, res) = Some (m, (req\<lparr>eof_flag := ?ef\<rparr>, mem, fd, res))"
      using assms(5) by (simp add: process_region_def m_def)
    have n: "0 < n" by (rule iter_region [OF less.prems(2) run])
    have m: "0 \<le> m" "m \<le> n" "type_offset req + m \<le> target_offset req" using n less.prems(3) by (auto simp: m_def)
    have lt: "type_offset req + m < int (length P)" using m(3) less.prems(4,5) by simp
    obtain req1 where r: "at d P req1" "same_root req req1" "type_offset req1 = type_offset req + m"
      "process_iter D mode (req, mem, fd, res) =
         Some (if m \<noteq> n then if PINT_IS_LOGICAL_SKIP mode then Again (PINT_CLR_LOGICAL_SKIP mode) (req1, mem, fd, res)
                                else Done (req1, mem, fd, res)
                 else if res_bytes res = bytemax res \<or> segs res = segmax res \<or> final_offset req \<le> type_offset req1
                      then Done (req1, mem, fd, res) else Again mode (req1, mem, fd, res))"
      by (rule iter_region [OF less.prems(2) run])
        (use pr assms(6,7) m(1,2) lt in blast)
    consider (part) "m \<noteq> n" | (stop) "m = n" "final_offset req \<le> type_offset req1" | (go) "m = n" "\<not> final_offset req \<le> type_offset req1" by blast
    then show thesis
    proof cases
      case part
      then have "process_loop D mode (req, mem, fd, res) = process_loop D (PINT_CLR_LOGICAL_SKIP mode) (req1, mem, fd, res)"
        using r(4) assms(5) by (simp add: process_loop.simps [of D mode "(req, mem, fd, res)"])
      then show thesis using part r by (intro less.prems(1) [of req1]) (auto simp: m_def split: if_splits)
    next
      case stop
      then have "process_loop D mode (req, mem, fd, res) = Some (0, (req1, mem, fd, res))"
        using r(4) by (simp add: process_loop.simps [of D mode "(req, mem, fd, res)"])
      then show thesis using stop r m less.prems(4) by (intro less.prems(1) [of req1]) auto
    next
      case go
      have it: "process_iter D mode (req, mem, fd, res) = Some (Again mode (req1, mem, fd, res))" using go r(4) assms(8,9) by simp
      show thesis by (rule cont [OF r(1,2) _ laterI [OF r(1)] it]) (use r m n go in auto)
    qed
  qed
qed

lemma skip_modes:
  assumes "\<not> PINT_IS_LOGICAL_SKIP mode"
  shows "PINT_IS_LOGICAL_SKIP (PINT_SET_LOGICAL_SKIP mode)" "PINT_CLR_LOGICAL_SKIP (PINT_SET_LOGICAL_SKIP mode) = mode"
    "PINT_IS_CLIENT (PINT_SET_LOGICAL_SKIP mode) = PINT_IS_CLIENT mode" "PINT_IS_CKSIZE (PINT_SET_LOGICAL_SKIP mode) = PINT_IS_CKSIZE mode"
proof -
  have z: "mode AND 16 = 0" using assms by (simp add: mode_defs)
  have "(mode OR 16) AND NOT 16 = (mode AND NOT 16) OR (16 AND NOT (16::int))" by (rule bit.conj_disj_distrib2)
  also have "\<dots> = (mode AND NOT 16) OR (mode AND 16)" using z by simp
  also have "\<dots> = mode" by (simp flip: bit.conj_disj_distrib)
  finally show "PINT_CLR_LOGICAL_SKIP (PINT_SET_LOGICAL_SKIP mode) = mode" by (simp add: mode_defs)
  show "PINT_IS_LOGICAL_SKIP (PINT_SET_LOGICAL_SKIP mode)" using z by (simp add: mode_defs bit.conj_disj_distrib2)
qed (simp_all add: mode_defs bit.conj_disj_distrib2)

section \<open>The stream of a request\<close>

text \<open>A request that is repeated \<open>n\<close> times, each time behind its extent.\<close>

definition stream :: "request \<Rightarrow> int \<Rightarrow> PVFS_offset list" where
  "stream r n = concat (map (\<lambda>j. layout r (j * extent r)) [0..n - 1])"

definition copies :: "request \<Rightarrow> PVFS_offset \<Rightarrow> int" where
  "copies r final = final sdiv aggregate_size (deref r) + 1"

lemma stream_length:
  assumes "regular r" "0 \<le> n"
  shows "int (length (stream r n)) = n * aggregate_size (deref r)"
  using assms(2)
proof (induction n rule: int_ge_induct)
  case (step n)
  have "[0..n + 1 - 1] = [0..n - 1] @ [n]" using step.hyps upto_rec2 [of 0 n] by simp
  then have "length (stream r (n + 1)) = length (stream r n) + length (layout r (n * extent r))" by (simp add: stream_def)
  then show ?case using step.IH regularD(3) [OF assms(1), of "n * extent r"] by (simp add: algebra_simps)
qed (simp add: stream_def)

lemma copies_enough:
  assumes "regular r" "0 \<le> f"
  shows "1 \<le> copies r f" "f < int (length (stream r (copies r f)))"
proof -
  let ?a = "aggregate_size (deref r)"
  have a: "0 < ?a" by (rule regularD(2) [OF assms(1)])
  have c: "copies r f = f div ?a + 1" using a assms(2) by (simp add: copies_def sdiv_nonneg)
  then show "1 \<le> copies r f" using a assms(2) by (simp add: pos_imp_zdiv_nonneg_iff)
  then have "int (length (stream r (copies r f))) = copies r f * ?a" by (intro stream_length [OF assms(1)]) simp
  also have "\<dots> = f div ?a * ?a + ?a" unfolding c by (simp add: algebra_simps)
  also have "\<dots> > f" using a pos_mod_bound [OF a, of f] div_mult_mod_eq [of f ?a] by linarith
  finally show "f < int (length (stream r (copies r f)))" .
qed

text \<open>
  A state that walks the request \<open>r\<close>: once the first level has been told how often to repeat the
  request, it stands in the stream, and it has not passed the final offset.
\<close>

definition walks :: "request \<Rightarrow> PINT_Request_state \<Rightarrow> bool" where
  "walks r req \<longleftrightarrow> regular r \<and> (\<exists>s c. cur req = s # c \<and> rqbase s = Some r \<and>
     at (depth (deref r)) (stream r (copies r (final_offset req)))
       (req\<lparr>cur := s\<lparr>maxel := copies r (final_offset req)\<rparr> # c\<rparr>)) \<and> 0 \<le> type_offset req \<and> type_offset req \<le> final_offset req"

lemma walks_new_state:
  assumes "regular r" "0 \<le> f"
  shows "walks r (new_state r\<lparr>target_offset := t, final_offset := f\<rparr>)"
proof -
  let ?n = "copies r f" and ?d = "depth (deref r)"
  let ?s = "\<lparr>el = 0, maxel = ?n, rq = Some r, rqbase = Some r, blk = 0, chunk_offset = 0\<rparr>"
  let ?c = "replicate (nat ?d - 1) \<lparr>el = 0, maxel = 0, rq = None, rqbase = None, blk = 0, chunk_offset = 0\<rparr>"
  have d: "1 \<le> ?d" by (rule regularD(1) [OF assms(1)])
  have n: "1 \<le> ?n" by (rule copies_enough [OF assms])
  have "ereq (deref r) \<noteq> None \<longrightarrow> 0 < num_blocks (deref r)"
    using regularD(6) [OF assms(1)] by (auto simp: chain_regular.simps [of _ r])
  then have "entry_ok ?d ?s" using assms(1) n by (auto simp: entry_ok_def intro: chain_head)
  then have w: "walk_ok ?d (?s # ?c) (int 0) 0"
    using d by (intro walk_ok_start [of ?d "?s # ?c" r 0]) (auto simp: open_levels_def)
  have "here ?s = concat (map (\<lambda>j. layout r (0 + j * extent r)) [0..?n - 1])"
    using n here_fresh [of ?s r] by simp
  then have "here ?s = stream r ?n" by (simp add: stream_def)
  then show ?thesis
    using w assms by (simp add: walks_def new_state_def at_def left_def)
qed

section \<open>Segments for the regions\<close>

text \<open>
  \<open>G\<close> gives the offsets of the segments for a list of offsets of the request. Turning a region
  into segments takes a first part of the region, and less than all of it only at the final
  offset, when the result is full, or at the end of the file: \<open>beyond\<close> tells that a byte belongs
  here but is behind the end of the file, and no byte before it that belongs here is left out.
\<close>

definition grown :: "PINT_request_file_data \<Rightarrow> PINT_request_file_data \<Rightarrow> PVFS_offset list \<Rightarrow> bool" where
  "grown fd fd' ps \<longleftrightarrow> fd' = fd\<lparr>fsize := fsize fd'\<rparr> \<and> fsize fd \<le> fsize fd' \<and> (\<not> extend_flag fd \<longrightarrow> fsize fd' = fsize fd) \<and>
     (\<forall>p \<in> set ps. p < fsize fd')"

lemma grown_refl: "grown fd fd []"
  by (simp add: grown_def)

lemma grown_trans:
  assumes "grown fd fd1 ps" "grown fd1 fd2 qs"
  shows "grown fd fd2 (ps @ qs)"
proof -
  obtain s1 s2 where "fd1 = fd\<lparr>fsize := s1\<rparr>" "fd2 = fd1\<lparr>fsize := s2\<rparr>" using assms unfolding grown_def by blast
  then show ?thesis using assms by (auto simp: grown_def)
qed

locale segment_maker =
  fixes D :: distributor and mode :: int
    and fdok :: "PINT_request_file_data \<Rightarrow> bool" and offok :: "PINT_request_file_data \<Rightarrow> PVFS_offset \<Rightarrow> bool"
    and G :: "PINT_request_file_data \<Rightarrow> PVFS_offset list \<Rightarrow> PVFS_offset list"
    and beyond :: "PINT_request_file_data \<Rightarrow> PVFS_offset \<Rightarrow> bool"
  assumes modes: "\<not> PINT_IS_CLIENT mode" "\<not> PINT_IS_CKSIZE mode" "\<not> PINT_IS_LOGICAL_SKIP mode"
    and G_append: "G fd (xs @ ys) = G fd xs @ G fd ys"
    and region: "fdok fd \<Longrightarrow> res_ok res \<Longrightarrow> segs res < segmax res \<Longrightarrow> res_bytes res < bytemax res \<Longrightarrow> type_offset req \<le> final_offset req \<Longrightarrow>
      0 < sz \<Longrightarrow> \<forall>x. off \<le> x \<and> x < off + sz \<longrightarrow> offok fd x \<Longrightarrow>
      \<exists>n fd' res' f. process_region D mode off sz (req, mem, fd, res) = Some (n, (req\<lparr>eof_flag := f\<rparr>, mem, fd', res')) \<and>
        0 \<le> n \<and> n \<le> sz \<and> n \<le> final_offset req - type_offset req \<and> adds res res' (G fd [off..off + n - 1]) \<and>
        res_bytes res' \<le> bytemax res \<and> fdok fd' \<and> G fd' = G fd \<and> offok fd' = offok fd \<and>
        grown fd fd' (G fd [off..off + n - 1]) \<and>
        (n = sz \<or> n = final_offset req - type_offset req \<or> segs res' = segmax res \<or> res_bytes res' = bytemax res \<or>
         f \<and> (\<exists>l. off + n \<le> l \<and> l < off + sz \<and> l < off + (final_offset req - type_offset req) \<and> beyond fd' l \<and> G fd [off + n..l - 1] = []))"
begin

abbreviation advanced :: "PVFS_offset list \<Rightarrow> PINT_Request_state \<Rightarrow> PINT_request_file_data \<Rightarrow> PINT_Request_result
    \<Rightarrow> PINT_Request_state \<Rightarrow> PINT_request_file_data \<Rightarrow> PINT_Request_result \<Rightarrow> bool" where
  "advanced P req fd res req' fd' res' \<equiv> type_offset req \<le> type_offset req' \<and> type_offset req' \<le> final_offset req \<and>
     same_root req req' \<and> adds res res' (G fd (slice P (type_offset req) (type_offset req'))) \<and>
     grown fd fd' (G fd (slice P (type_offset req) (type_offset req'))) \<and>
     res_bytes res' \<le> bytemax res \<and> fdok fd' \<and> G fd' = G fd \<and> offok fd' = offok fd"

lemma G_Nil: "G fd [] = []"
  using G_append [of fd "[]" "[]"] by simp

lemma advanced_trans:
  assumes "advanced P req fd res req1 fd1 res1" "advanced P req1 fd1 res1 req2 fd2 res2" "0 \<le> type_offset req"
  shows "advanced P req fd res req2 fd2 res2"
proof -
  let ?s = "slice P (type_offset req) (type_offset req1)" and ?s2 = "slice P (type_offset req1) (type_offset req2)"
  have G2: "G fd (slice P (type_offset req) (type_offset req2)) = G fd ?s @ G fd ?s2"
    using assms slice_append [of "type_offset req" "type_offset req1" "type_offset req2" P] by (simp add: G_append [symmetric])
  have "adds res res2 (G fd ?s @ G fd ?s2)" "grown fd fd2 (G fd ?s @ G fd ?s2)"
    using assms by (auto intro: adds_trans grown_trans)
  then show ?thesis using assms same_root_trans [of req req1 req2] unfolding G2 by (auto simp: same_root_def adds_def)
qed

abbreviation stopped :: "PVFS_offset list \<Rightarrow> int \<Rightarrow> PINT_Request_state \<Rightarrow> PINT_request_file_data \<Rightarrow> PINT_Request_result \<Rightarrow> bool" where
  "stopped P d req fd res \<equiv> at d P req \<and>
     (type_offset req = final_offset req \<or> segs res = segmax res \<or> res_bytes res = bytemax res \<or>
      eof_flag req \<and> (\<exists>i. type_offset req \<le> i \<and> i < final_offset req \<and> beyond fd (P ! nat i) \<and> G fd (slice P (type_offset req) i) = []))"

lemma iter_ok:
  assumes at: "at d P req" and fin: "type_offset req \<le> final_offset req" "final_offset req < int (length P)"
    and res: "res_ok res" "segs res < segmax res" "res_bytes res < bytemax res"
    and fd: "fdok fd" "\<forall>x \<in> set P. offok fd x"
  obtains (again) req' fd' res' where "process_iter D mode (req, mem, fd, res) = Some (Again mode (req', mem, fd', res'))"
      "at d P req'" "advanced P req fd res req' fd' res'" "segs res' < segmax res'" "res_bytes res' < bytemax res'"
      "(req', req) \<in> later d P"
  | (halt) req' fd' res' where "process_iter D mode (req, mem, fd, res) = Some (Done (req', mem, fd', res'))"
      "advanced P req fd res req' fd' res'" "stopped P d req' fd' res'"
proof -
  let ?t = "type_offset req"
  from at show thesis
  proof (cases rule: iter_kinds)
    case down
    obtain req1 where r: "\<And>D mode mem fd res. process_iter D mode (req, mem, fd, res) = Some (Again mode (req1, mem, fd, res))"
      "at d P req1" "same_root req req1" "type_offset req1 = ?t" "lvl req1 = lvl req + 1"
      by (rule iter_down [OF at down]) blast
    show thesis
      by (rule again [OF r(1,2) _ _ _ laterI [OF r(2)]]) (use r fin res fd adds_refl [OF res(1)] grown_refl in \<open>auto simp: G_Nil\<close>)
  next
    case (run off n f)
    have n: "0 < n" "set [off..off + n - 1] \<subseteq> set P" by (rule iter_region [OF at run], assumption)+
    then have okr: "\<forall>x. off \<le> x \<and> x < off + n \<longrightarrow> offok fd x" using fd(2) by auto
    obtain m fd' res' ef where m: "process_region D mode off n (req, mem, fd, res) = Some (m, (req\<lparr>eof_flag := ef\<rparr>, mem, fd', res'))"
      "0 \<le> m" "m \<le> n" "m \<le> final_offset req - ?t" "adds res res' (G fd [off..off + m - 1])" "res_bytes res' \<le> bytemax res"
      "fdok fd'" "G fd' = G fd" "offok fd' = offok fd" "grown fd fd' (G fd [off..off + m - 1])"
      "m = n \<or> m = final_offset req - ?t \<or> segs res' = segmax res \<or> res_bytes res' = bytemax res \<or>
       ef \<and> (\<exists>l. off + m \<le> l \<and> l < off + n \<and> l < off + (final_offset req - ?t) \<and> beyond fd' l \<and> G fd [off + m..l - 1] = [])"
      using region [OF fd(1) res fin(1) n(1) okr, of mem] by (elim exE conjE) (rule that)
    have lim: "segmax res' = segmax res" "bytemax res' = bytemax res" "segs res' \<le> segmax res'" using m(5) by (auto simp: adds_def res_ok_def)
    have lt: "?t + m < int (length P)" using m(4) fin(2) by simp
    obtain req1 where r: "at d P req1" "same_root req req1" "type_offset req1 = ?t + m" "eof_flag req1 = ef"
      "process_iter D mode (req, mem, fd, res) =
         Some (if m \<noteq> n then if PINT_IS_LOGICAL_SKIP mode then Again (PINT_CLR_LOGICAL_SKIP mode) (req1, mem, fd', res')
                                else Done (req1, mem, fd', res')
                 else if res_bytes res' = bytemax res' \<or> segs res' = segmax res' \<or> final_offset req \<le> type_offset req1
                      then Done (req1, mem, fd', res') else Again mode (req1, mem, fd', res'))"
      by (rule iter_region [OF at run]) (use m(1-3) modes(1,2) lt in blast)
    have sls: "slice P ?t (?t + k) = [off..off + k - 1]" if "0 \<le> k" "k \<le> n" for k by (rule iter_region [OF at run]) (use that in blast)
    note sl = sls [OF m(2,3)]
    have t0: "0 \<le> ?t" using at by (simp add: at_def)
    have nth: "P ! nat (?t + k) = off + k" if "0 \<le> k" "k < n" for k by (rule iter_region [OF at run]) (use that in blast)
    have end_of_file: "\<exists>i. ?t + m \<le> i \<and> i < final_offset req \<and> beyond fd' (P ! nat i) \<and> G fd' (slice P (?t + m) i) = []"
      if l: "off + m \<le> l" "l < off + n" "l < off + (final_offset req - ?t)" "beyond fd' l" "G fd [off + m..l - 1] = []" for l
    proof -
      have "slice P ?t (?t + (l - off)) = [off..off + m - 1] @ slice P (?t + m) (?t + (l - off))"
        using slice_append [of ?t "?t + m" "?t + (l - off)" P] sl t0 l m(2) by simp
      moreover have "slice P ?t (?t + (l - off)) = [off..off + m - 1] @ [off + m..l - 1]"
        using sls [of "l - off"] l m(2) upto_append [of off "off + m" l] by simp
      ultimately have "slice P (?t + m) (?t + (l - off)) = [off + m..l - 1]" by simp
      then show ?thesis using nth [of "l - off"] l m(2,8) by (intro exI [of _ "?t + (l - off)"]) simp
    qed
    have adv: "advanced P req fd res req1 fd' res'" using m r(2,3) sl by simp
    show thesis
    proof (cases "m \<noteq> n \<or> res_bytes res' = bytemax res' \<or> segs res' = segmax res' \<or> final_offset req \<le> type_offset req1")
      case True
      have "stopped P d req1 fd' res'" using True r m(3,4,11) lim end_of_file by (auto simp: same_root_def)
      then show thesis using r(5) True modes(3) by (intro halt [OF _ adv]) auto
    next
      case False
      then show thesis using r m(6) lim n(1) by (intro again [OF _ r(1) adv _ _ laterI [OF r(1)]]) auto
    qed
  qed
qed

lemma loop_ok:
  assumes "at d P req" "type_offset req \<le> final_offset req" "final_offset req < int (length P)"
    and "res_ok res" "segs res < segmax res" "res_bytes res < bytemax res"
    and "fdok fd" "\<forall>x \<in> set P. offok fd x"
  obtains req' fd' res' where "process_loop D mode (req, mem, fd, res) = Some (0, (req', mem, fd', res'))"
    "advanced P req fd res req' fd' res'" "stopped P d req' fd' res'"
  using assms
proof (induction req arbitrary: fd res thesis rule: wf_induct_rule [OF wf_later [of d P]])
  case less: (1 req)
  show ?case
    using less.prems(2-)
  proof (cases rule: iter_ok [of d P req res fd mem])
    case (again req1 fd1 res1)
    have ok1: "res_ok res1" "type_offset req1 \<le> final_offset req1" "final_offset req1 < int (length P)" "\<forall>x \<in> set P. offok fd1 x" "fdok fd1"
      using again(3) less.prems by (auto simp: adds_def same_root_def)
    obtain req2 fd2 res2 where IH: "process_loop D mode (req1, mem, fd1, res1) = Some (0, (req2, mem, fd2, res2))"
      "advanced P req1 fd1 res1 req2 fd2 res2" "stopped P d req2 fd2 res2"
      using less.IH [OF again(6) _ again(2) ok1(2,3,1) again(4,5) ok1(5,4)] by blast
    have "advanced P req fd res req2 fd2 res2"
      using advanced_trans [OF again(3) IH(2)] less.prems(2) by (simp add: at_def)
    then show thesis
      using again(1) IH(1,3) by (intro less.prems(1) [of req2 fd2 res2]) (simp_all add: process_loop.simps [of D mode "(req, mem, fd, res)"])
  next
    case (halt req1 fd1 res1)
    then show thesis
      by (intro less.prems(1) [of req1 fd1 res1]) (simp_all add: process_loop.simps [of D mode "(req, mem, fd, res)"])
  qed
qed

text \<open>
  A call moves from the target, or from where the state stands if that is behind it, and adds the
  segments for the bytes in between. It stops at the final offset, when the result is full, or at
  the end of the file. It can be called again on the state that it leaves.
\<close>

lemma process_exact:
  assumes more: "\<not> PINT_EQ_CKSIZE mode" "\<not> PINT_IS_MEMREQ mode"
    and w: "walks r req" and target: "target_offset req \<le> final_offset req"
    and res: "res_ok res" "segs res < segmax res" "res_bytes res < bytemax res" "bytemax res \<noteq> 0"
    and fd: "fdok fd" "\<forall>x \<in> set (stream r (copies r (final_offset req))). offok fd x"
  obtains req' fd' res' where "process_with D (Some req) mem fd (Some res) mode = Some (0, Some req', mem, fd', Some res')"
    "walks r req'" "final_offset req' = final_offset req" "target_offset req' = target_offset req"
    "max (type_offset req) (target_offset req) \<le> type_offset req'"
    "adds res res' (G fd (slice (stream r (copies r (final_offset req))) (max (type_offset req) (target_offset req)) (type_offset req')))"
    "grown fd fd' (G fd (slice (stream r (copies r (final_offset req))) (max (type_offset req) (target_offset req)) (type_offset req')))"
    "type_offset req' = final_offset req \<or> segs res' = segmax res \<or> res_bytes res' = bytemax res \<or>
       eof_flag req' \<and> (\<exists>i. type_offset req' \<le> i \<and> i < final_offset req \<and>
         beyond fd' (stream r (copies r (final_offset req)) ! nat i) \<and>
         G fd' (slice (stream r (copies r (final_offset req))) (type_offset req') i) = [])"
proof -
  note goal = that
  let ?n = "copies r (final_offset req)" and ?d = "depth (deref r)"
  let ?P = "stream r ?n"
  obtain s c where sc: "cur req = s # c" "rqbase s = Some r" "at ?d ?P (req\<lparr>cur := s\<lparr>maxel := ?n\<rparr> # c\<rparr>)"
    "0 \<le> type_offset req" "type_offset req \<le> final_offset req" "regular r"
    using w by (auto simp: walks_def)
  let ?req = "req\<lparr>cur := s\<lparr>maxel := ?n\<rparr> # c\<rparr>"
  have len: "final_offset req < int (length ?P)" by (rule copies_enough) (use sc in auto)
  have agg: "aggregate_size (deref r) \<noteq> 0" using regularD(2) [OF sc(6)] by simp
  have l: "0 \<le> lvl req" using sc(3) by (simp add: at_def walk_ok_def)
  let ?mode = "if type_offset req < target_offset req then PINT_SET_LOGICAL_SKIP mode else mode"
  obtain os ss where arrays: "offset_array res = Some os" "size_array res = Some ss" "segmax res \<noteq> 0"
    using res(1,2) by (auto simp: res_ok_def)
  have beg: "process_begin req mem mode = Some (?mode, ?req)"
    using sc(1,2) l agg more(2) modes(1) by (cases mem) (simp_all add: process_begin_def copies_def)
  have run: "process_with D (Some req) mem fd (Some res) mode =
      map_option (\<lambda>(ret, (req3, mem', fd', res')). (ret, Some req3, mem', fd', Some res')) (process_loop D ?mode (?req, mem, fd, res))"
    using res arrays more(1) beg by (simp add: process_with_def)
  have finish: thesis
    if "process_loop D ?mode (?req, mem, fd, res) = Some (0, (req2, mem, fd2, res2))" "advanced ?P req1 fd res req2 fd2 res2"
      "stopped ?P ?d req2 fd2 res2" "same_root ?req req1" "type_offset req1 = max (type_offset req) (target_offset req)" for req1 req2 fd2 res2
  proof -
    have rt: "same_root ?req req2" using that(2,4) same_root_trans by blast
    then obtain s2 c2 where c2: "cur req2 = s2 # c2" by (cases "cur req2") (auto simp: same_root_def)
    have f: "rqbase s2 = Some r" "maxel s2 = ?n" "final_offset req2 = final_offset req" "target_offset req2 = target_offset req"
      using rt sc(1,2) by (auto simp: same_root_def c2)
    have "s2\<lparr>maxel := ?n\<rparr> = s2" using f(2) by (cases s2) simp
    then have same: "req2\<lparr>cur := s2\<lparr>maxel := ?n\<rparr> # c2\<rparr> = req2" using c2 by (cases req2) simp
    have t2: "0 \<le> type_offset req2" "type_offset req2 \<le> final_offset req" using that(2,4,5) sc(4) by (auto simp: same_root_def)
    have w2: "walks r req2"
      unfolding walks_def f(3) using that(3) sc(6) c2 f(1) same t2 by auto
    show thesis
      by (rule goal [OF _ w2, of fd2 res2]) (use that f t2 run in \<open>auto simp: same_root_def adds_def\<close>)
  qed
  show thesis
  proof (cases "type_offset req < target_offset req")
    case False
    obtain req2 fd2 res2 where l: "process_loop D mode (?req, mem, fd, res) = Some (0, (req2, mem, fd2, res2))"
      "advanced ?P ?req fd res req2 fd2 res2" "stopped ?P ?d req2 fd2 res2"
      by (rule loop_ok [OF sc(3), of res fd]) (use sc(5) len res fd in auto)
    show thesis
      by (rule finish [OF _ l(2,3)]) (use l False in \<open>auto simp: same_root_def\<close>)
  next
    case True
    let ?sk = "PINT_SET_LOGICAL_SKIP mode"
    have sk: "PINT_IS_LOGICAL_SKIP ?sk" "\<not> PINT_IS_CLIENT ?sk" "\<not> PINT_IS_CKSIZE ?sk" "PINT_CLR_LOGICAL_SKIP ?sk = mode"
      using skip_modes modes by auto
    obtain req1 where r1: "at ?d ?P req1" "same_root ?req req1" "type_offset req1 = target_offset ?req"
      "process_loop D ?sk (?req, mem, fd, res) = process_loop D (PINT_CLR_LOGICAL_SKIP ?sk) (req1, mem, fd, res) \<or>
       target_offset ?req = final_offset ?req \<and> process_loop D ?sk (?req, mem, fd, res) = Some (0, (req1, mem, fd, res))"
      by (rule skip_ok [OF sc(3), of ?sk res D mem fd]) (use True target len res sk in auto)
    have f1: "type_offset req1 \<le> final_offset req1" "final_offset req1 < int (length ?P)" "final_offset req1 = final_offset req"
      using r1(2,3) target len by (auto simp: same_root_def)
    from r1(4) show thesis
    proof
      assume e: "process_loop D ?sk (?req, mem, fd, res) = process_loop D (PINT_CLR_LOGICAL_SKIP ?sk) (req1, mem, fd, res)"
      obtain req2 fd2 res2 where l: "process_loop D mode (req1, mem, fd, res) = Some (0, (req2, mem, fd2, res2))"
        "advanced ?P req1 fd res req2 fd2 res2" "stopped ?P ?d req2 fd2 res2"
        by (rule loop_ok [OF r1(1) f1(1,2), of res fd]) (use res fd in auto)
      show thesis by (rule finish [OF _ l(2,3) r1(2)]) (use e l True r1(3) sk(4) in auto)
    next
      assume e: "target_offset ?req = final_offset ?req \<and> process_loop D ?sk (?req, mem, fd, res) = Some (0, (req1, mem, fd, res))"
      have root: "same_root req1 req1" using r1(2) by (auto simp: same_root_def)
      show thesis
        by (rule finish [of req1 fd res req1]) (use e True r1 f1 res fd root adds_refl [OF res(1)] grown_refl in \<open>auto simp: G_Nil\<close>)
    qed
  qed
qed

end

section \<open>On a server\<close>

sublocale dist_server \<subseteq> server: segment_maker "PINT_distribute (Some methods)" PINT_SERVER ok
  "\<lambda>fd x. 0 \<le> x \<and> (\<forall>y. 0 \<le> y \<and> y \<le> x + 1 \<longrightarrow> lin fd y)" "\<lambda>fd xs. map (place fd) (filter (mine fd) xs)"
  "\<lambda>fd x. \<not> extend_flag fd \<and> mine fd x \<and> fsize fd \<le> place fd x"
proof (unfold_locales, goal_cases)
  case (5 fd res req sz off mem)
  let ?sz = "if type_offset req + sz > final_offset req then final_offset req - type_offset req else sz"
  have p: "\<not> PINT_IS_CLIENT PINT_SERVER" "\<not> PINT_IS_CKSIZE PINT_SERVER" "\<not> PINT_IS_LOGICAL_SKIP PINT_SERVER" "\<not> PINT_IS_MEMREQ PINT_SERVER"
    by (simp_all add: mode_defs)
  have b: "0 \<le> off" "0 \<le> ?sz" "?sz \<le> sz" using 5(5,6) 5(7) [rule_format, of off] by auto
  have "lin fd y" if "0 \<le> y" "y \<le> off + sz" for y using 5(6) 5(7) [rule_format, of "off + sz - 1"] that by auto
  then have lin: "\<forall>y. 0 \<le> y \<and> y \<le> off + ?sz \<longrightarrow> lin fd y" using b(3) by auto
  obtain n s' res' f' where r:
    "distribute_with no_distribution (Some methods) off ?sz fd mem res PINT_SERVER = Some (n, fd\<lparr>fsize := s'\<rparr>, mem, res', f')"
    "0 \<le> n" "n \<le> ?sz" "moved fd off (fsize fd) res (off + n) s' res'" "f' \<longrightarrow> \<not> extend_flag fd"
    "n = ?sz \<or> segs res' = segmax res \<or> res_bytes res' = bytemax res \<or>
      (f' \<and> (\<exists>l. off + n \<le> l \<and> l < off + ?sz \<and> mine fd l \<and> s' \<le> place fd l \<and> (\<forall>y. off + n \<le> y \<and> y < l \<longrightarrow> \<not> mine fd y)))"
    by (rule distribute_exact [OF 5(1) p(1,2) b(1,2) lin 5(2-4)])
  have run: "process_region (PINT_distribute (Some methods)) PINT_SERVER off sz (req, mem, fd, res) =
      Some (n, (req\<lparr>eof_flag := f'\<rparr>, mem, fd\<lparr>fsize := s'\<rparr>, res'))"
    using p(3,4) r(1) by (simp add: process_region_def Let_def PINT_distribute_def)
  show ?case
    by (intro exI [of _ n] exI [of _ "fd\<lparr>fsize := s'\<rparr>"] exI [of _ res'] exI [of _ f'] conjI run)
      (use r b 5(1,5) in \<open>auto simp: fsize_irrelevant grown_def fun_eq_iff split: if_splits\<close>)
qed (simp_all add: mode_defs)

end
