(* ===== verification/Dist_Basic.thy ===== *)
theory Dist_Basic
  imports Dist_Interface
begin

text \<open>
  The basic distribution, \<open>src/io/description/dist-basic.c\<close>: all data of a file is stored on a
  single server. The parameters are empty.
\<close>

section \<open>Operations\<close>

definition CONTIGBLOCKSZ :: PVFS_size where
  "CONTIGBLOCKSZ = 65536"

definition bd_logical_to_physical_offset :: "PINT_request_file_data \<Rightarrow> PVFS_offset \<Rightarrow> PVFS_offset" where
  "bd_logical_to_physical_offset fd logical_offset = logical_offset"

definition bd_physical_to_logical_offset :: "PINT_request_file_data \<Rightarrow> PVFS_offset \<Rightarrow> PVFS_offset" where
  "bd_physical_to_logical_offset fd physical_offset = physical_offset"

definition bd_next_mapped_offset :: "PINT_request_file_data \<Rightarrow> PVFS_offset \<Rightarrow> PVFS_offset" where
  "bd_next_mapped_offset fd logical_offset = logical_offset"

definition bd_contiguous_length :: "PINT_request_file_data \<Rightarrow> PVFS_offset \<Rightarrow> PVFS_size" where
  "bd_contiguous_length fd physical_offset = CONTIGBLOCKSZ"

text \<open>\<open>psizes\<close> may be NULL; otherwise it holds at least one size.\<close>

fun bd_logical_file_size :: "int \<Rightarrow> PVFS_size list option \<Rightarrow> PVFS_size option" where
  "bd_logical_file_size ct None = Some (- 1)"
| "bd_logical_file_size ct (Some []) = None"
| "bd_logical_file_size ct (Some (psize # psizes)) = Some psize"

definition bd_get_num_dfiles :: "int \<Rightarrow> int \<Rightarrow> int" where
  "bd_get_num_dfiles num_servers_requested num_dfiles_requested = 1"

definition bd_get_blksize :: "int \<Rightarrow> PVFS_size" where
  "bd_get_blksize num_servers = CONTIGBLOCKSZ"

lemmas bd_defs = bd_logical_to_physical_offset_def bd_physical_to_logical_offset_def
  bd_next_mapped_offset_def bd_contiguous_length_def CONTIGBLOCKSZ_def

section \<open>The contract\<close>

interpretation bd: dist_rank "\<lambda>_. True" bd_logical_to_physical_offset bd_physical_to_logical_offset
  bd_next_mapped_offset bd_contiguous_length "\<lambda>_ _. True"
proof (unfold_locales, goal_cases)
  case (8 fd x)
  have "{y. 0 \<le> y \<and> y < x \<and> True} = {0..<x}" by auto
  then show ?case using 8(2) by (simp add: bd_defs)
qed (simp_all add: bd_defs)

text \<open>One data file gives the size of the file back.\<close>

lemma bd_logical_file_size_roundtrip:
  "bd_logical_file_size 1 (Some [bd_logical_to_physical_offset fd L]) = Some L"
  by (simp add: bd_defs)

end
