(* ===== verification/Dist_Simple_Stripe.thy ===== *)
theory Dist_Simple_Stripe
  imports Dist_Interface
begin

text \<open>
  The simple stripe distribution, \<open>src/io/description/dist-simple-stripe.c\<close>: strips of equal
  size go round robin over the servers. The C functions are static and have the same names in
  every distribution; here they carry the prefix \<open>ss_\<close>.
\<close>

section \<open>Operations\<close>

record PVFS_simple_stripe_params =
  strip_size :: PVFS_size

definition ss_logical_to_physical_offset :: "PVFS_simple_stripe_params \<Rightarrow> PINT_request_file_data
    \<Rightarrow> PVFS_offset \<Rightarrow> PVFS_offset" where
  "ss_logical_to_physical_offset dparam fd logical_offset =
     (let full_stripes = logical_offset sdiv (strip_size dparam * server_ct fd);
          ret_offset = 0 + full_stripes * strip_size dparam;
          leftover = logical_offset - full_stripes * strip_size dparam * server_ct fd
      in if leftover \<ge> server_nr fd * strip_size dparam then
           if leftover < uint32 (server_nr fd + 1) * strip_size dparam
           then ret_offset + (leftover - server_nr fd * strip_size dparam)
           else ret_offset + strip_size dparam
         else ret_offset)"

definition ss_physical_to_logical_size :: "PVFS_simple_stripe_params \<Rightarrow> PINT_request_file_data
    \<Rightarrow> PVFS_size \<Rightarrow> PVFS_size" where
  "ss_physical_to_logical_size dparam fd physical_size =
     (let physical_size_n1 = (if physical_size \<noteq> 0 then physical_size - 1 else 0);
          strips_div = physical_size_n1 sdiv strip_size dparam;
          strips_mod = physical_size_n1 smod strip_size dparam + 1
      in strips_div * strip_size dparam * server_ct fd + strip_size dparam * server_nr fd + strips_mod)"

definition ss_physical_to_logical_offset :: "PVFS_simple_stripe_params \<Rightarrow> PINT_request_file_data
    \<Rightarrow> PVFS_offset \<Rightarrow> PVFS_offset" where
  "ss_physical_to_logical_offset dparam fd physical_offset =
     (let strips_div = physical_offset sdiv strip_size dparam;
          strips_mod = physical_offset smod strip_size dparam
      in strips_div * strip_size dparam * server_ct fd + strip_size dparam * server_nr fd + strips_mod)"

definition ss_next_mapped_offset :: "PVFS_simple_stripe_params \<Rightarrow> PINT_request_file_data
    \<Rightarrow> PVFS_offset \<Rightarrow> PVFS_offset" where
  "ss_next_mapped_offset dparam fd logical_offset =
     (let server_starting_offset = server_nr fd * strip_size dparam;
          stripe_size = server_ct fd * strip_size dparam;
          diff = (logical_offset - server_starting_offset) smod stripe_size
      in if diff < 0 then server_starting_offset
         else if diff \<ge> strip_size dparam then logical_offset + (stripe_size - diff)
         else logical_offset)"

definition ss_contiguous_length :: "PVFS_simple_stripe_params \<Rightarrow> PINT_request_file_data
    \<Rightarrow> PVFS_offset \<Rightarrow> PVFS_size" where
  "ss_contiguous_length dparam fd physical_offset =
     strip_size dparam - physical_offset smod strip_size dparam"

text \<open>
  The maximum over the servers. \<open>psizes\<close> may be NULL; otherwise it holds a size for each
  server.
\<close>

fun ss_max_size :: "PVFS_simple_stripe_params \<Rightarrow> int \<Rightarrow> int \<Rightarrow> PVFS_size \<Rightarrow> PVFS_size list \<Rightarrow> PVFS_size" where
  "ss_max_size dparam ct s mx [] = mx"
| "ss_max_size dparam ct s mx (psize # psizes) =
     (if psize \<noteq> 0 then
        let tmp_max = ss_physical_to_logical_size dparam \<lparr>fsize = 0, server_nr = s, server_ct = ct, extend_flag = False\<rparr> psize
        in ss_max_size dparam ct (s + 1) (if tmp_max > mx then tmp_max else mx) psizes
      else ss_max_size dparam ct (s + 1) mx psizes)"

definition ss_logical_file_size :: "PVFS_simple_stripe_params \<Rightarrow> int \<Rightarrow> PVFS_size list option \<Rightarrow> PVFS_size" where
  "ss_logical_file_size dparam ct psizes =
     (case psizes of None \<Rightarrow> - 1 | Some ps \<Rightarrow> ss_max_size dparam ct 0 0 (take (nat ct) ps))"

definition ss_get_blksize :: "PVFS_simple_stripe_params \<Rightarrow> int \<Rightarrow> PVFS_size" where
  "ss_get_blksize dparam dfile_count = strip_size dparam * dfile_count"

section \<open>The stripes\<close>

definition ss_valid :: "PVFS_simple_stripe_params \<times> PINT_request_file_data \<Rightarrow> bool" where
  "ss_valid c \<longleftrightarrow> (case c of (dparam, fd) \<Rightarrow>
     0 < strip_size dparam \<and> 0 \<le> server_nr fd \<and> server_nr fd < server_ct fd \<and> server_ct fd < 2 ^ 32)"

definition ss_mine :: "PVFS_simple_stripe_params \<times> PINT_request_file_data \<Rightarrow> int \<Rightarrow> bool" where
  "ss_mine c x \<longleftrightarrow> (case c of (dparam, fd) \<Rightarrow> (x div strip_size dparam) mod server_ct fd = server_nr fd)"

text \<open>
  The coordinates of a logical offset: the stripe, the server in it, and the offset in the
  strip.
\<close>

definition ss_at :: "int \<Rightarrow> int \<Rightarrow> int \<Rightarrow> int \<Rightarrow> int \<Rightarrow> int" where
  "ss_at S n q r t = (q * n + r) * S + t"

lemma ss_coords:
  fixes x :: int
  assumes "0 < S" "0 < n" "0 \<le> x"
  obtains q r t where "x = ss_at S n q r t" "0 \<le> q" "0 \<le> r" "r < n" "0 \<le> t" "t < S"
proof -
  let ?k = "x div S"
  have "0 \<le> ?k" using assms by (simp add: pos_imp_zdiv_nonneg_iff)
  then have "0 \<le> ?k div n" using assms by (simp add: pos_imp_zdiv_nonneg_iff)
  moreover have "x = ss_at S n (?k div n) (?k mod n) (x mod S)"
    unfolding ss_at_def by (simp add: mult.commute [of _ n] mult.commute [of _ S])
  ultimately show thesis using assms that by (meson pos_mod_bound pos_mod_sign)
qed

lemma ss_at_div:
  assumes "0 \<le> r" "r < n" "0 \<le> t" "t < S"
  shows "ss_at S n q r t div S = q * n + r" "ss_at S n q r t mod S = t"
    "(q * n + r) mod n = r" "ss_at S n q r t div (S * n) = q" "0 \<le> q \<Longrightarrow> 0 \<le> ss_at S n q r t"
proof -
  show d: "ss_at S n q r t div S = q * n + r" and "ss_at S n q r t mod S = t"
    unfolding ss_at_def using assms quot_rem [of t S "q * n + r"] by simp_all
  show "(q * n + r) mod n = r" using assms by simp
  have "ss_at S n q r t div (S * n) = (ss_at S n q r t div S) div n"
    using assms by (simp add: div_mult2_eq' zdiv_zmult2_eq)
  then show "ss_at S n q r t div (S * n) = q" using assms quot_rem(1) [of r n q] by (simp add: d)
  show "0 \<le> q \<Longrightarrow> 0 \<le> ss_at S n q r t" unfolding ss_at_def using assms by simp
qed

lemma ss_validD:
  assumes "ss_valid (dparam, fd)"
  shows "0 < strip_size dparam" "0 \<le> server_nr fd" "server_nr fd < server_ct fd"
    "uint32 (server_nr fd + 1) = server_nr fd + 1"
  using assms by (simp_all add: ss_valid_def)

text \<open>The operations in coordinates.\<close>

lemma ss_mine_at:
  assumes "ss_valid (dparam, fd)" "0 \<le> r" "r < server_ct fd" "0 \<le> t" "t < strip_size dparam"
  shows "ss_mine (dparam, fd) (ss_at (strip_size dparam) (server_ct fd) q r t) \<longleftrightarrow> r = server_nr fd"
  using ss_at_div(1,3) [OF assms(2-5)] by (simp add: ss_mine_def)

lemma ss_l2p_at:
  assumes "ss_valid (dparam, fd)" "0 \<le> q" "0 \<le> r" "r < server_ct fd" "0 \<le> t" "t < strip_size dparam"
  shows "ss_logical_to_physical_offset dparam fd (ss_at (strip_size dparam) (server_ct fd) q r t) =
    q * strip_size dparam +
      (if r < server_nr fd then 0 else if r = server_nr fd then t else strip_size dparam)"
proof -
  let ?S = "strip_size dparam" and ?n = "server_ct fd" and ?s = "server_nr fd"
  let ?x = "ss_at ?S ?n q r t"
  note v = ss_validD [OF assms(1)]
  have full: "?x sdiv (?S * ?n) = q"
    using ss_at_div(4,5) [OF assms(3-6), of q] assms(2) v by (simp add: sdiv_nonneg)
  have left: "?x - q * ?S * ?n = r * ?S + t" by (simp add: ss_at_def algebra_simps)
  have op: "ss_logical_to_physical_offset dparam fd ?x =
      (if r * ?S + t \<ge> ?s * ?S then
         if r * ?S + t < (?s + 1) * ?S then q * ?S + (r * ?S + t - ?s * ?S) else q * ?S + ?S
       else q * ?S)"
    unfolding ss_logical_to_physical_offset_def Let_def full left v(4) by simp
  consider "r < ?s" | "r = ?s" | "?s < r" by linarith
  then show ?thesis
  proof cases
    case 1
    then have "r * ?S + ?S \<le> ?s * ?S" using v(1) by (metis add1_zle_eq distrib_right mult_1 mult_right_mono less_imp_le)
    then have "r * ?S + t < ?s * ?S" using assms(6) by linarith
    with 1 show ?thesis unfolding op by simp
  next
    case 2
    then have "?s * ?S \<le> r * ?S + t" "r * ?S + t < (?s + 1) * ?S" using assms(5,6) by (simp_all add: algebra_simps)
    with 2 show ?thesis unfolding op by simp
  next
    case 3
    then have "(?s + 1) * ?S \<le> r * ?S" using v(1) by (intro mult_right_mono) auto
    then have "\<not> r * ?S + t < (?s + 1) * ?S" "?s * ?S \<le> r * ?S + t"
      using assms(5) v(1) by (simp_all add: algebra_simps)
    with 3 show ?thesis unfolding op by simp
  qed
qed

lemma ss_p2l_at:
  assumes "ss_valid (dparam, fd)" "0 \<le> q" "0 \<le> t" "t < strip_size dparam"
  shows "ss_physical_to_logical_offset dparam fd (q * strip_size dparam + t) =
    ss_at (strip_size dparam) (server_ct fd) q (server_nr fd) t"
  using assms(2-4) quot_rem [OF assms(3,4), of q]
  by (simp add: ss_physical_to_logical_offset_def c_division ss_at_def algebra_simps)

lemma ss_next_at:
  assumes "ss_valid (dparam, fd)" "0 \<le> q" "0 \<le> r" "r < server_ct fd" "0 \<le> t" "t < strip_size dparam"
  shows "ss_next_mapped_offset dparam fd (ss_at (strip_size dparam) (server_ct fd) q r t) =
    (if r < server_nr fd then ss_at (strip_size dparam) (server_ct fd) q (server_nr fd) 0
     else if r = server_nr fd then ss_at (strip_size dparam) (server_ct fd) q r t
     else ss_at (strip_size dparam) (server_ct fd) (q + 1) (server_nr fd) 0)"
proof -
  let ?S = "strip_size dparam" and ?n = "server_ct fd" and ?s = "server_nr fd"
  let ?x = "ss_at ?S ?n q r t"
  note v = ss_validD [OF assms(1)]
  have rem: "(q' * (?n * ?S) + (d * ?S + t)) smod (?n * ?S) = d * ?S + t"
    if "0 \<le> q'" "0 \<le> d" "d < ?n" for q' d
  proof -
    have "d * ?S + t < (d + 1) * ?S" using assms(6) by (simp add: algebra_simps)
    also have "\<dots> \<le> ?n * ?S" using that v(1) by (intro mult_right_mono) auto
    finally have "d * ?S + t < ?n * ?S" .
    moreover have "0 \<le> d * ?S + t" using that v(1) assms(5) by simp
    ultimately show ?thesis using quot_rem(2) [of "d * ?S + t" "?n * ?S" q'] that v by (simp add: smod_nonneg)
  qed
  have big: "?S \<le> d * ?S + t" if "1 \<le> d" for d
  proof -
    have "1 * ?S \<le> d * ?S" using that v(1) by (intro mult_right_mono) auto
    then show ?thesis using assms(5) by linarith
  qed
  have op: "ss_next_mapped_offset dparam fd ?x =
      (if d < 0 then ?s * ?S else if d \<ge> ?S then ?x + (?n * ?S - d) else ?x)"
    if "(?x - ?s * ?S) smod (?n * ?S) = d" for d
    unfolding ss_next_mapped_offset_def Let_def that ..
  consider (same) "r = ?s" | (after) "?s < r" | (before) "r < ?s" "1 \<le> q" | (first) "r < ?s" "q = 0"
    using assms(2) by linarith
  then show ?thesis
  proof cases
    case same
    have "?x - ?s * ?S = q * (?n * ?S) + (0 * ?S + t)" using same by (simp add: ss_at_def algebra_simps)
    then have "(?x - ?s * ?S) smod (?n * ?S) = t" using rem [of q 0] assms(2) v by simp
    from op [OF this] same assms(5,6) show ?thesis by simp
  next
    case after
    have "?x - ?s * ?S = q * (?n * ?S) + ((r - ?s) * ?S + t)" by (simp add: ss_at_def algebra_simps)
    then have "(?x - ?s * ?S) smod (?n * ?S) = (r - ?s) * ?S + t" using rem [of q "r - ?s"] assms(2,4) after v(2) by simp
    from op [OF this] after big [of "r - ?s"] v(1) show ?thesis by (simp add: ss_at_def algebra_simps)
  next
    case before
    have "?x - ?s * ?S = (q - 1) * (?n * ?S) + ((?n + r - ?s) * ?S + t)" by (simp add: ss_at_def algebra_simps)
    then have "(?x - ?s * ?S) smod (?n * ?S) = (?n + r - ?s) * ?S + t"
      using rem [of "q - 1" "?n + r - ?s"] before assms(3) v(3) by simp
    from op [OF this] before big [of "?n + r - ?s"] v(1,3) assms(3) show ?thesis
      by (simp add: ss_at_def algebra_simps)
  next
    case first
    have eq: "?x - ?s * ?S = (r - ?s) * ?S + t" using first by (simp add: ss_at_def algebra_simps)
    have "(r - ?s) * ?S \<le> (- 1) * ?S" using first v(1) by (intro mult_right_mono) auto
    then have neg: "(r - ?s) * ?S + t < 0" using assms(6) by simp
    have "(- ?n) * ?S < (r - ?s) * ?S" using assms(3) v(1,3) by (intro mult_strict_right_mono) auto
    then have "- (?n * ?S) < (r - ?s) * ?S + t" using assms(5) by simp
    with neg have "(?x - ?s * ?S) smod (?n * ?S) = (r - ?s) * ?S + t" unfolding eq by (intro smod_small_neg)
    from op [OF this] first neg show ?thesis by (simp add: ss_at_def)
  qed
qed

lemma ss_next_reach:
  assumes "ss_valid (dparam, fd)" "0 \<le> q" "0 \<le> r" "r < server_ct fd" "0 \<le> t" "t < strip_size dparam"
  defines "x \<equiv> ss_at (strip_size dparam) (server_ct fd) q r t"
  shows "x \<le> ss_next_mapped_offset dparam fd x" "ss_mine (dparam, fd) (ss_next_mapped_offset dparam fd x)"
proof -
  let ?S = "strip_size dparam" and ?n = "server_ct fd" and ?s = "server_nr fd"
  note v = ss_validD [OF assms(1)]
  note nx = ss_next_at [OF assms(1-6), folded x_def]
  have mono: "x \<le> ss_at ?S ?n p ?s 0" if "q * ?n + r + 1 \<le> p * ?n + ?s" for p
  proof -
    have "(q * ?n + r + 1) * ?S \<le> (p * ?n + ?s) * ?S" using that v(1) by (intro mult_right_mono) auto
    then show ?thesis using assms(6) by (simp add: x_def ss_at_def algebra_simps)
  qed
  show "x \<le> ss_next_mapped_offset dparam fd x"
    using nx mono [of q] mono [of "q + 1"] assms(3,4) v(2) by (auto simp: x_def distrib_right)
  show "ss_mine (dparam, fd) (ss_next_mapped_offset dparam fd x)"
    using nx ss_mine_at [OF assms(1) v(2,3), of 0] ss_mine_at [OF assms(1,3-6), of q] v(1)
    by (simp add: x_def split: if_splits)
qed

lemma ss_next_gap:
  assumes "ss_valid (dparam, fd)" "0 \<le> x" "x \<le> y" "y < ss_next_mapped_offset dparam fd x"
  shows "\<not> ss_mine (dparam, fd) y"
proof
  let ?S = "strip_size dparam" and ?n = "server_ct fd" and ?s = "server_nr fd"
  assume mine: "ss_mine (dparam, fd) y"
  note v = ss_validD [OF assms(1)]
  have n: "0 < ?n" "0 \<le> y" using v assms by auto
  obtain q r t where x: "x = ss_at ?S ?n q r t" "0 \<le> q" "0 \<le> r" "r < ?n" "0 \<le> t" "t < ?S"
    by (rule ss_coords [OF v(1) n(1) assms(2)])
  obtain q' r' t' where y: "y = ss_at ?S ?n q' r' t'" "0 \<le> q'" "0 \<le> r'" "r' < ?n" "0 \<le> t'" "t' < ?S"
    by (rule ss_coords [OF v(1) n])
  have r': "r' = ?s" using mine ss_mine_at [OF assms(1) y(3-6), of q'] y(1) by simp
  have "x div ?S \<le> y div ?S" using assms(3) v(1) by (rule zdiv_mono1)
  then have lower: "q * ?n + r \<le> q' * ?n + ?s" using ss_at_div(1) x y r' by simp
  have upper: "q' < p" if "y < ss_at ?S ?n p ?s 0" for p
  proof (rule ccontr)
    assume "\<not> q' < p"
    then have "p * ?n \<le> q' * ?n" using n(1) by (intro mult_right_mono) auto
    then have "(p * ?n + ?s) * ?S \<le> (q' * ?n + ?s) * ?S" using v(1) by (intro mult_right_mono) auto
    then show False using that y(1,5) r' by (simp add: ss_at_def)
  qed
  consider "r < ?s" | "r = ?s" | "?s < r" by linarith
  then show False
  proof cases
    case 1
    then have "q' < q" using assms(4) ss_next_at [OF assms(1) x(2-6)] x(1) upper by simp
    then have "(q' + 1) * ?n \<le> q * ?n" using n(1) by (intro mult_right_mono) auto
    then show False using lower x(3) v(3) by (simp add: distrib_right)
  next
    case 2
    then show False using assms(3,4) ss_next_at [OF assms(1) x(2-6)] x(1) by simp
  next
    case 3
    then have "q' < q + 1" using assms(4) ss_next_at [OF assms(1) x(2-6)] x(1) by (intro upper) simp
    then have "q' * ?n \<le> q * ?n" using n(1) by (intro mult_right_mono) auto
    then show False using lower 3 by simp
  qed
qed

lemma ss_l2p_step:
  assumes "ss_valid (dparam, fd)" "0 \<le> x"
  shows "ss_logical_to_physical_offset dparam fd (x + 1) =
    ss_logical_to_physical_offset dparam fd x + (if ss_mine (dparam, fd) x then 1 else 0)"
proof -
  let ?S = "strip_size dparam" and ?n = "server_ct fd" and ?s = "server_nr fd"
  note v = ss_validD [OF assms(1)]
  have n: "0 < ?n" using v by auto
  obtain q r t where x: "x = ss_at ?S ?n q r t" "0 \<le> q" "0 \<le> r" "r < ?n" "0 \<le> t" "t < ?S"
    by (rule ss_coords [OF v(1) n assms(2)])
  note here = ss_l2p_at [OF assms(1) x(2-6)] ss_mine_at [OF assms(1) x(3-6), of q]
  consider "t + 1 < ?S" | "t + 1 = ?S" "r + 1 < ?n" | "t + 1 = ?S" "r + 1 = ?n" using x by linarith
  then show ?thesis
  proof cases
    case 1
    have "x + 1 = ss_at ?S ?n q r (t + 1)" using x(1) by (simp add: ss_at_def)
    then show ?thesis using here ss_l2p_at [OF assms(1) x(2-4), of "t + 1"] x 1 by simp
  next
    case 2
    have "x + 1 = ss_at ?S ?n q (r + 1) 0" using x(1) 2 by (simp add: ss_at_def algebra_simps)
    then show ?thesis using here ss_l2p_at [OF assms(1) x(2), of "r + 1" 0] x 2 v(1) by auto
  next
    case 3
    have "x + 1 = (q * ?n + (r + 1)) * ?S" using x(1) 3(1) by (simp add: ss_at_def distrib_right)
    then have "x + 1 = ss_at ?S ?n (q + 1) 0 0" unfolding 3(2) by (simp add: ss_at_def distrib_right)
    then show ?thesis using here ss_l2p_at [OF assms(1), of "q + 1" 0 0] x 3 v by (auto simp: distrib_right)
  qed
qed

lemma ss_rank:
  assumes "ss_valid (dparam, fd)" "0 \<le> x"
  shows "ss_logical_to_physical_offset dparam fd x =
    int (card {y. 0 \<le> y \<and> y < x \<and> ss_mine (dparam, fd) y})"
proof (rule rank_by_step [OF _ _ assms(2)])
  show "ss_logical_to_physical_offset dparam fd 0 = 0"
    using ss_l2p_at [OF assms(1), of 0 0 0] ss_validD [OF assms(1)] by (simp add: ss_at_def)
qed (rule ss_l2p_step [OF assms(1)])

section \<open>The contract\<close>

lemma ss_strip:
  assumes "ss_valid (dparam, fd)" "0 \<le> p"
  obtains q t where "p = q * strip_size dparam + t" "0 \<le> q" "0 \<le> t" "t < strip_size dparam"
proof (rule that [of "p div strip_size dparam" "p mod strip_size dparam"])
  note v = ss_validD [OF assms(1)]
  show "p = p div strip_size dparam * strip_size dparam + p mod strip_size dparam" by simp
  show "0 \<le> p div strip_size dparam" using assms(2) v(1) by (simp add: pos_imp_zdiv_nonneg_iff)
  show "0 \<le> p mod strip_size dparam" "p mod strip_size dparam < strip_size dparam" using v(1) by simp_all
qed

interpretation ss: dist_rank ss_valid
  "\<lambda>(dparam, fd). ss_logical_to_physical_offset dparam fd"
  "\<lambda>(dparam, fd). ss_physical_to_logical_offset dparam fd"
  "\<lambda>(dparam, fd). ss_next_mapped_offset dparam fd"
  "\<lambda>(dparam, fd). ss_contiguous_length dparam fd"
  ss_mine
proof (unfold_locales, goal_cases)
  case (1 c p)
  obtain dparam fd where c: "c = (dparam, fd)" by (cases c)
  note v = ss_validD [OF 1(1) [unfolded c]]
  obtain q t where p: "p = q * strip_size dparam + t" "0 \<le> q" "0 \<le> t" "t < strip_size dparam"
    by (rule ss_strip [OF 1(1) [unfolded c] 1(2)])
  show ?case using ss_p2l_at [OF 1(1) [unfolded c] p(2-4)] ss_mine_at [OF 1(1) [unfolded c] v(2,3) p(3,4), of q]
    ss_at_div(5) [OF v(2,3) p(3,4) p(2)] p(1) c by simp
next
  case (2 c p)
  obtain dparam fd where c: "c = (dparam, fd)" by (cases c)
  note v = ss_validD [OF 2(1) [unfolded c]]
  obtain q t where p: "p = q * strip_size dparam + t" "0 \<le> q" "0 \<le> t" "t < strip_size dparam"
    by (rule ss_strip [OF 2(1) [unfolded c] 2(2)])
  show ?case using ss_p2l_at [OF 2(1) [unfolded c] p(2-4)] ss_l2p_at [OF 2(1) [unfolded c] p(2) v(2,3) p(3,4)] p(1) c by simp
next
  case (3 c x)
  obtain dparam fd where c: "c = (dparam, fd)" by (cases c)
  note v = ss_validD [OF 3(1) [unfolded c]]
  have n: "0 < server_ct fd" using v by auto
  obtain q r t where x: "x = ss_at (strip_size dparam) (server_ct fd) q r t" "0 \<le> q" "0 \<le> r" "r < server_ct fd"
      "0 \<le> t" "t < strip_size dparam"
    by (rule ss_coords [OF v(1) n 3(2)])
  have "r = server_nr fd" using ss_mine_at [OF 3(1) [unfolded c] x(3-6), of q] 3(3) x(1) c by simp
  then show ?case using ss_l2p_at [OF 3(1) [unfolded c] x(2-6)] ss_p2l_at [OF 3(1) [unfolded c] x(2,5,6)] x v(1) c by simp
next
  case (4 c x)
  obtain dparam fd where c: "c = (dparam, fd)" by (cases c)
  note v = ss_validD [OF 4(1) [unfolded c]]
  have n: "0 < server_ct fd" using v by auto
  obtain q r t where x: "x = ss_at (strip_size dparam) (server_ct fd) q r t" "0 \<le> q" "0 \<le> r" "r < server_ct fd"
      "0 \<le> t" "t < strip_size dparam"
    by (rule ss_coords [OF v(1) n 4(2)])
  show ?case using ss_next_reach [OF 4(1) [unfolded c] x(2-6)] x(1) c by simp
next
  case (5 c x y)
  then show ?case using ss_next_gap by (cases c) simp
next
  case (6 c p)
  obtain dparam fd where c: "c = (dparam, fd)" by (cases c)
  show ?case using ss_validD(1) [OF 6(1) [unfolded c]] 6(2) c by (simp add: ss_contiguous_length_def c_division)
next
  case (7 c p i)
  obtain dparam fd where c: "c = (dparam, fd)" by (cases c)
  obtain q t where p: "p = q * strip_size dparam + t" "0 \<le> q" "0 \<le> t" "t < strip_size dparam"
    by (rule ss_strip [OF 7(1) [unfolded c] 7(2)])
  have "i < strip_size dparam - t"
    using 7(2,4) quot_rem(2) [OF p(3,4), of q] p c by (simp add: ss_contiguous_length_def c_division)
  then show ?case using ss_p2l_at [OF 7(1) [unfolded c] p(2-4)] ss_p2l_at [OF 7(1) [unfolded c] p(2), of "t + i"]
    7(3) p c by (simp add: ss_at_def add.assoc)
next
  case (8 c x)
  then show ?case using ss_rank by (cases c) simp
qed

section \<open>The logical size of a file\<close>

lemma ss_size_last:
  assumes "0 < p"
  shows "ss_physical_to_logical_size dparam fd p = ss_physical_to_logical_offset dparam fd (p - 1) + 1"
  using assms by (simp add: ss_physical_to_logical_size_def ss_physical_to_logical_offset_def Let_def)

abbreviation ss_server :: "int \<Rightarrow> int \<Rightarrow> PINT_request_file_data" where
  "ss_server ct s \<equiv> \<lparr>fsize = 0, server_nr = s, server_ct = ct, extend_flag = False\<rparr>"

lemma ss_max_size_start: "mx \<le> ss_max_size dparam ct s mx ps"
proof (induction ps arbitrary: s mx)
  case (Cons p ps)
  let ?t = "ss_physical_to_logical_size dparam (ss_server ct s) p"
  have "mx \<le> (if ?t > mx then ?t else mx)" by simp
  also have "\<dots> \<le> ss_max_size dparam ct (s + 1) (if ?t > mx then ?t else mx) ps" by (rule Cons.IH)
  finally show ?case using Cons.IH [of mx "s + 1"] by (simp add: Let_def)
qed simp

lemma ss_max_size_upper:
  "i < length ps \<Longrightarrow> ps ! i \<noteq> 0 \<Longrightarrow>
    ss_physical_to_logical_size dparam (ss_server ct (s + int i)) (ps ! i) \<le> ss_max_size dparam ct s mx ps"
proof (induction ps arbitrary: s mx i)
  case (Cons p ps)
  show ?case
  proof (cases i)
    case 0
    let ?t = "ss_physical_to_logical_size dparam (ss_server ct s) p"
    have "?t \<le> (if ?t > mx then ?t else mx)" by simp
    also have "\<dots> \<le> ss_max_size dparam ct (s + 1) (if ?t > mx then ?t else mx) ps" by (rule ss_max_size_start)
    finally show ?thesis using Cons.prems 0 by (simp add: Let_def)
  next
    case (Suc j)
    then show ?thesis using Cons.prems Cons.IH [of j "s + 1"] by (simp add: Let_def algebra_simps)
  qed
qed simp

lemma ss_max_size_least:
  "mx \<le> b \<Longrightarrow>
    (\<And>i. i < length ps \<Longrightarrow> ps ! i \<noteq> 0 \<Longrightarrow> ss_physical_to_logical_size dparam (ss_server ct (s + int i)) (ps ! i) \<le> b) \<Longrightarrow>
    ss_max_size dparam ct s mx ps \<le> b"
proof (induction ps arbitrary: s mx)
  case (Cons p ps)
  have tail: "ss_max_size dparam ct (s + 1) m ps \<le> b" if "m \<le> b" for m
  proof (rule Cons.IH [OF that])
    fix i assume "i < length ps" "ps ! i \<noteq> 0"
    then show "ss_physical_to_logical_size dparam (ss_server ct (s + 1 + int i)) (ps ! i) \<le> b"
      using Cons.prems(2) [of "Suc i"] by (simp add: algebra_simps)
  qed
  show ?case using tail Cons.prems(1) Cons.prems(2) [of 0] by (simp add: Let_def)
qed simp

section \<open>Properties\<close>

text \<open>
  C8. Under the simple stripe distribution every byte of a file is stored exactly once: for a
  positive strip size and a non-empty set of servers, each logical offset is the image of
  exactly one pair of a server and a physical offset on it.
\<close>

theorem ss_stored_once:
  assumes "0 < strip_size dparam" "0 < n" "n < 2 ^ 32" "0 \<le> x"
  shows "\<exists>!(s, p). 0 \<le> s \<and> s < n \<and> 0 \<le> p \<and>
    ss_physical_to_logical_offset dparam \<lparr>fsize = 0, server_nr = s, server_ct = n, extend_flag = False\<rparr> p = x"
proof -
  let ?s = "x div strip_size dparam mod n"
  have valid: "ss_valid (dparam, ss_server n s)" if "0 \<le> s" "s < n" for s
    using that assms by (simp add: ss_valid_def)
  have s: "0 \<le> ?s" "?s < n" using assms by simp_all
  have mine: "ss_mine (dparam, ss_server n s) x \<longleftrightarrow> s = ?s" for s by (auto simp: ss_mine_def)
  let ?p = "ss_logical_to_physical_offset dparam (ss_server n ?s) x"
  show ?thesis
  proof (intro ex1I [of _ "(?s, ?p)"])
    show "case (?s, ?p) of (s, p) \<Rightarrow> 0 \<le> s \<and> s < n \<and> 0 \<le> p \<and>
        ss_physical_to_logical_offset dparam (ss_server n s) p = x"
      using ss.p2l_l2p [OF valid [OF s] assms(4)] mine s by simp
    fix sp assume sp: "case sp of (s, p) \<Rightarrow> 0 \<le> s \<and> s < n \<and> 0 \<le> p \<and>
        ss_physical_to_logical_offset dparam (ss_server n s) p = x"
    obtain s p where eq: "sp = (s, p)" by fastforce
    have v: "ss_valid (dparam, ss_server n s)" "0 \<le> p" using sp eq valid by auto
    show "sp = (?s, ?p)"
      using ss.p2l_mine [OF v] ss.l2p_p2l [OF v] sp eq mine [of s] by auto
  qed
qed

theorem ss_stored_once_witness:
  "\<exists>!(s, p). 0 \<le> s \<and> s < 3 \<and> 0 \<le> p \<and>
    ss_physical_to_logical_offset \<lparr>strip_size = 65536\<rparr> \<lparr>fsize = 0, server_nr = s, server_ct = 3, extend_flag = False\<rparr> p = 200000"
  by (rule ss_stored_once) simp_all

text \<open>
  The physical offset that the simple stripe distribution gives a logical offset is the
  number of bytes before it that the server stores, for every server and not only for the one
  that holds the offset.
\<close>

theorem ss_logical_to_physical_counts:
  assumes "0 < strip_size dparam" "0 \<le> server_nr fd" "server_nr fd < server_ct fd" "server_ct fd < 2 ^ 32" "0 \<le> x"
  shows "ss_logical_to_physical_offset dparam fd x =
    int (card {y. 0 \<le> y \<and> y < x \<and> (y div strip_size dparam) mod server_ct fd = server_nr fd})"
  using ss_rank [of dparam fd x] assms by (simp add: ss_valid_def ss_mine_def)

theorem ss_logical_to_physical_counts_witness:
  "ss_logical_to_physical_offset \<lparr>strip_size = 4\<rparr> \<lparr>fsize = 0, server_nr = 1, server_ct = 3, extend_flag = False\<rparr> 18 =
    int (card {y :: int. 0 \<le> y \<and> y < 18 \<and> (y div 4) mod 3 = 1}) \<and>
   ss_logical_to_physical_offset \<lparr>strip_size = 4\<rparr> \<lparr>fsize = 0, server_nr = 1, server_ct = 3, extend_flag = False\<rparr> 18 = 6"
  using ss_logical_to_physical_counts [of "\<lparr>strip_size = 4\<rparr>" "\<lparr>fsize = 0, server_nr = 1, server_ct = 3, extend_flag = False\<rparr>" 18]
  by (simp add: ss_logical_to_physical_offset_def c_division)

text \<open>
  \<open>next_mapped_offset\<close> of the simple stripe distribution is the first logical offset at or
  after the given one that is stored on the server, and from there \<open>contiguous_length\<close> bytes are
  stored on it one after the other, on the logical and on the physical side.
\<close>

theorem ss_next_run:
  assumes "0 < strip_size dparam" "0 \<le> server_nr fd" "server_nr fd < server_ct fd" "server_ct fd < 2 ^ 32" "0 \<le> x"
  defines "y \<equiv> ss_next_mapped_offset dparam fd x"
  defines "p \<equiv> ss_logical_to_physical_offset dparam fd y"
  shows "y = (LEAST z. x \<le> z \<and> (z div strip_size dparam) mod server_ct fd = server_nr fd) \<and>
    0 < ss_contiguous_length dparam fd p \<and>
    (\<forall>i. 0 \<le> i \<and> i < ss_contiguous_length dparam fd p \<longrightarrow>
      ss_physical_to_logical_offset dparam fd (p + i) = y + i \<and> ss_logical_to_physical_offset dparam fd (y + i) = p + i)"
proof (intro conjI)
  let ?c = "(dparam, fd)"
  have v: "ss_valid ?c" using assms(1-4) by (simp add: ss_valid_def)
  have y: "x \<le> y" "ss_mine ?c y" using ss.next_mine [OF v assms(5)] by (simp_all add: y_def)
  have "y = (LEAST z. x \<le> z \<and> ss_mine ?c z)"
    using y ss.next_least [OF v assms(5)] by (intro Least_equality [symmetric]) (auto simp: y_def)
  then show "y = (LEAST z. x \<le> z \<and> (z div strip_size dparam) mod server_ct fd = server_nr fd)"
    by (simp add: ss_mine_def)
  have p: "0 \<le> p" "ss_physical_to_logical_offset dparam fd p = y"
    using ss.p2l_l2p [OF v _ y(2)] y(1) assms(5) by (simp_all add: p_def)
  show "0 < ss_contiguous_length dparam fd p" using ss.contig_pos [OF v p(1)] by simp
  show "\<forall>i. 0 \<le> i \<and> i < ss_contiguous_length dparam fd p \<longrightarrow>
      ss_physical_to_logical_offset dparam fd (p + i) = y + i \<and> ss_logical_to_physical_offset dparam fd (y + i) = p + i"
    using ss.contig_run [OF v p(1)] ss.contig_mine(2) [OF v _ y(2)] p(2) y(1) assms(5) by (simp add: p_def)
qed

theorem ss_next_run_witness:
  "ss_next_mapped_offset \<lparr>strip_size = 4\<rparr> \<lparr>fsize = 0, server_nr = 1, server_ct = 3, extend_flag = False\<rparr> 9 =
     (LEAST z :: int. 9 \<le> z \<and> (z div 4) mod 3 = 1) \<and>
   ss_next_mapped_offset \<lparr>strip_size = 4\<rparr> \<lparr>fsize = 0, server_nr = 1, server_ct = 3, extend_flag = False\<rparr> 9 = 16"
  using ss_next_run [of "\<lparr>strip_size = 4\<rparr>" "\<lparr>fsize = 0, server_nr = 1, server_ct = 3, extend_flag = False\<rparr>" 9]
  by (simp add: ss_next_mapped_offset_def c_division)

text \<open>
  C24. The logical file size is recovered from the sizes of the data files: when each server of a
  simple stripe file holds the part of a file of \<open>L\<close> bytes that is its own,
  \<open>logical_file_size\<close> returns \<open>L\<close>.
\<close>

theorem ss_logical_file_size_roundtrip:
  assumes "0 < strip_size dparam" "0 < n" "n < 2 ^ 32" "0 \<le> L"
  shows "ss_logical_file_size dparam n
    (Some (map (\<lambda>s. ss_logical_to_physical_offset dparam \<lparr>fsize = 0, server_nr = s, server_ct = n, extend_flag = False\<rparr> L) [0..n - 1])) = L"
proof -
  let ?l2p = "\<lambda>s. ss_logical_to_physical_offset dparam (ss_server n s)"
  let ?ps = "map (\<lambda>s. ?l2p s L) [0..n - 1]"
  have valid: "ss_valid (dparam, ss_server n s)" if "0 \<le> s" "s < n" for s
    using that assms by (simp add: ss_valid_def)
  have len: "length ?ps = nat n" using assms by simp
  have at: "?ps ! i = ?l2p (int i) L" if "i < nat n" for i
    using that assms by (simp add: nth_upto)
  have nonneg: "0 \<le> ?l2p (int i) L" if "i < nat n" for i
    using ss.cnt.l2p_bound [OF valid assms(4), of "int i"] that by simp
  have eq: "ss_logical_file_size dparam n (Some ?ps) = ss_max_size dparam n 0 0 ?ps"
    using len by (simp add: ss_logical_file_size_def)
  have upper: "ss_max_size dparam n 0 0 ?ps \<le> L"
  proof (rule ss_max_size_least [OF assms(4)])
    fix i assume "i < length ?ps" "?ps ! i \<noteq> 0"
    then have i: "i < nat n" "0 < ?l2p (int i) L" using len at [of i] nonneg [of i] by auto
    then have "int i < n" by simp
    with i show "ss_physical_to_logical_size dparam (ss_server n (0 + int i)) (?ps ! i) \<le> L"
      using ss.cnt.last_byte_below [OF valid assms(4), of "int i"] at [OF i(1)] ss_size_last [OF i(2)] by simp
  qed
  have lower: "L \<le> ss_max_size dparam n 0 0 ?ps" if "0 < L"
  proof -
    let ?s = "(L - 1) div strip_size dparam mod n"
    have s: "0 \<le> ?s" "?s < n" using assms by simp_all
    have i: "nat ?s < nat n" "int (nat ?s) = ?s" using s by simp_all
    have "ss_mine (dparam, ss_server n ?s) (L - 1)" by (simp add: ss_mine_def)
    note last = ss.cnt.last_byte_mine [OF valid [OF s] that this]
    show ?thesis
      using ss_max_size_upper [where i = "nat ?s" and ps = ?ps and dparam = dparam and ct = n and s = 0 and mx = 0] len at [OF i(1)] i last
        ss_size_last [of "?l2p ?s L" dparam "ss_server n ?s"] by simp
  qed
  show ?thesis
    unfolding eq using upper lower ss_max_size_start [of 0 dparam n 0 ?ps] assms(4) by linarith
qed

theorem ss_logical_file_size_roundtrip_witness:
  "ss_logical_file_size \<lparr>strip_size = 4\<rparr> 3
    (Some (map (\<lambda>s. ss_logical_to_physical_offset \<lparr>strip_size = 4\<rparr> \<lparr>fsize = 0, server_nr = s, server_ct = 3, extend_flag = False\<rparr> 18) [0..2])) = 18"
  using ss_logical_file_size_roundtrip [of "\<lparr>strip_size = 4\<rparr>" 3 18] by simp

end
