(* ===== verification/Dist_Twod.thy ===== *)
theory Dist_Twod
  imports Dist_Simple_Stripe
begin

text \<open>
  The two-dimensional stripe distribution, \<open>src/io/description/dist-twod-stripe.c\<close>: the servers
  are partitioned into groups, and data is striped over one group, with
  \<open>group_strip_factor\<close> strips on each of its servers, before the next group is used. The static
  C functions carry the prefix \<open>tw_\<close> here.

  The operations are shown to be those of the simple stripe distribution inside the group of the
  server, and the contract follows from its contract.
\<close>

section \<open>Operations\<close>

record PVFS_twod_stripe_params =
  num_groups :: int
  twod_strip_size :: PVFS_size
  group_strip_factor :: int

text \<open>
  The group of a server, the number of servers in that group, and the number of the server in
  it. The code computes them in the same way in three of the functions.
\<close>

definition tw_group :: "int \<Rightarrow> int \<Rightarrow> PINT_request_file_data \<Rightarrow> int \<times> int \<times> int" where
  "tw_group groups small_group_size fd =
     (let group_nr = (if server_nr fd \<ge> uint32 (uint32 (groups - 1) * small_group_size) then uint32 (groups - 1)
                      else server_nr fd sdiv small_group_size);
          servers_in_group = (if group_nr = uint32 (groups - 1)
                              then uint32 (server_ct fd - uint32 (uint32 (groups - 1) * small_group_size))
                              else small_group_size);
          gserver_nr = uint32 (server_nr fd - uint32 (group_nr * small_group_size))
      in (group_nr, servers_in_group, gserver_nr))"

definition tw_logical_to_physical_offset :: "PVFS_twod_stripe_params \<Rightarrow> PINT_request_file_data
    \<Rightarrow> PVFS_offset \<Rightarrow> PVFS_offset" where
  "tw_logical_to_physical_offset dparam fd logical_offset =
     (if logical_offset = 0 then 0
      else
        let factor = group_strip_factor dparam;
            groups = (if num_groups dparam > server_ct fd then server_ct fd else num_groups dparam);
            strip_size = twod_strip_size dparam;
            small_group_size = server_ct fd sdiv groups;
            global_stripe_size = server_ct fd * strip_size * factor;
            (group_nr, servers_in_group, gserver_nr) = tw_group groups small_group_size fd;
            global_stripes = logical_offset sdiv global_stripe_size;
            last_stripe_offset = logical_offset - global_stripes * global_stripe_size;
            ret_offset = 0 + global_stripes * factor * strip_size;
            group_offset = last_stripe_offset - uint32 (group_nr * factor) * strip_size * small_group_size;
            local_offset = group_offset - uint32 (servers_in_group * factor) * strip_size
        in if group_offset > 0 then
             if local_offset > 0 then ret_offset + factor * strip_size
             else
               let group_stripes = group_offset sdiv (servers_in_group * strip_size);
                   ret_offset = ret_offset + group_stripes * strip_size;
                   group_offset = group_offset - group_stripes * strip_size * servers_in_group;
                   group_strips = group_offset sdiv strip_size
               in if group_strips \<ge> uint32 (gserver_nr + 1) then ret_offset + strip_size
                  else if group_strips = gserver_nr then ret_offset + group_offset smod strip_size
                  else ret_offset
           else ret_offset)"

text \<open>Here the group size is computed before \<open>num_groups\<close> is limited to the number of servers.\<close>

definition tw_physical_to_logical_offset :: "PVFS_twod_stripe_params \<Rightarrow> PINT_request_file_data
    \<Rightarrow> PVFS_offset \<Rightarrow> PVFS_offset" where
  "tw_physical_to_logical_offset dparam fd physical_offset =
     (let strip_size = twod_strip_size dparam;
          strips = physical_offset sdiv strip_size;
          small_group_size = server_ct fd sdiv num_groups dparam;
          factor = group_strip_factor dparam;
          full_group_strips = strips smod factor;
          groups = (if num_groups dparam > server_ct fd then server_ct fd else num_groups dparam);
          (group_nr, servers_in_group, gserver_nr) = tw_group groups small_group_size fd;
          ret_offset = (if strips > factor then
                          let global_stripes = strips sdiv factor
                          in 0 + global_stripes * factor * server_ct fd * strip_size
                        else if strips = factor then 0 + strips * server_ct fd * strip_size
                        else 0);
          ret_offset = ret_offset + uint32 (uint32 (group_nr * small_group_size) * factor) * strip_size;
          ret_offset = ret_offset + full_group_strips * servers_in_group * strip_size;
          ret_offset = ret_offset + gserver_nr * strip_size
      in ret_offset + physical_offset smod strip_size)"

text \<open>\<open>psizes\<close> may be NULL; otherwise it holds a size for each server.\<close>

fun tw_sum_sizes :: "PVFS_size \<Rightarrow> PVFS_size list \<Rightarrow> PVFS_size" where
  "tw_sum_sizes cur_max [] = cur_max"
| "tw_sum_sizes cur_max (psize # psizes) =
     tw_sum_sizes (if psize \<noteq> 0 then cur_max + psize else cur_max) psizes"

definition tw_logical_file_size :: "int \<Rightarrow> PVFS_size list option \<Rightarrow> PVFS_size" where
  "tw_logical_file_size ct psizes =
     (case psizes of None \<Rightarrow> - 1 | Some ps \<Rightarrow> tw_sum_sizes 0 (take (nat ct) ps))"

definition tw_next_mapped_offset :: "PVFS_twod_stripe_params \<Rightarrow> PINT_request_file_data
    \<Rightarrow> PVFS_offset \<Rightarrow> PVFS_offset" where
  "tw_next_mapped_offset dparam fd logical_offset =
     (let strip_size = twod_strip_size dparam;
          small_group_size = server_ct fd sdiv num_groups dparam;
          factor = group_strip_factor dparam;
          global_stripe_size = uint32 (server_ct fd * factor) * strip_size;
          global_stripes = uint32 (logical_offset sdiv global_stripe_size);
          small_group_stripe = uint32 (small_group_size * factor) * strip_size;
          l_off = logical_offset - global_stripe_size * global_stripes
      in if logical_offset = 0 then tw_physical_to_logical_offset dparam fd 0
         else
           let groups = (if num_groups dparam > server_ct fd then server_ct fd else num_groups dparam);
               total_stripes = uint32 (0 + uint32 (global_stripes * factor));
               (group_nr, servers_in_group, gserver_nr) = tw_group groups small_group_size fd;
               cur_group_size = uint32 (servers_in_group * factor) * strip_size
           in if l_off \<ge> group_nr * small_group_stripe + cur_group_size then
                tw_physical_to_logical_offset dparam fd (0 + uint32 (total_stripes + factor) * strip_size)
              else if l_off < group_nr * small_group_stripe + cur_group_size \<and> l_off > group_nr * small_group_stripe then
                let g_off = l_off - group_nr * small_group_stripe;
                    g_strips = uint32 (g_off sdiv (servers_in_group * strip_size));
                    total_stripes = uint32 (total_stripes + g_strips);
                    g_off = g_off - g_strips * strip_size * servers_in_group
                in if g_off < gserver_nr * strip_size then
                     tw_physical_to_logical_offset dparam fd (0 + total_stripes * strip_size)
                   else if g_off \<ge> uint32 (gserver_nr + 1) * strip_size then
                     tw_physical_to_logical_offset dparam fd (0 + uint32 (total_stripes + 1) * strip_size)
                   else logical_offset
              else tw_physical_to_logical_offset dparam fd (0 + total_stripes * strip_size))"

definition tw_contiguous_length :: "PVFS_twod_stripe_params \<Rightarrow> PINT_request_file_data
    \<Rightarrow> PVFS_offset \<Rightarrow> PVFS_size" where
  "tw_contiguous_length dparam fd physical_offset =
     twod_strip_size dparam - physical_offset smod twod_strip_size dparam"

text \<open>\<open>value\<close> points to a 64-bit integer; the group parameters have 32 bits.\<close>

definition tw_set_param :: "PVFS_twod_stripe_params \<Rightarrow> string \<Rightarrow> int \<Rightarrow> PVFS_twod_stripe_params \<times> int" where
  "tw_set_param dparam param_name v =
     (if param_name = ''strip_size'' then
        (if v \<le> 0 then dparam else dparam\<lparr>twod_strip_size := v\<rparr>, 0)
      else if param_name = ''num_groups'' then
        (if v \<le> 0 then dparam else dparam\<lparr>num_groups := uint32 v\<rparr>, 0)
      else if param_name = ''group_strip_factor'' then
        (if v \<le> 0 then dparam else dparam\<lparr>group_strip_factor := uint32 v\<rparr>, 0)
      else (dparam, - PVFS_EINVAL))"

definition tw_get_blksize :: "PVFS_twod_stripe_params \<Rightarrow> int \<Rightarrow> PVFS_size" where
  "tw_get_blksize dparam dfile_count = twod_strip_size dparam * dfile_count"

section \<open>The group of a server\<close>

definition tw_valid :: "PVFS_twod_stripe_params \<times> PINT_request_file_data \<Rightarrow> bool" where
  "tw_valid c \<longleftrightarrow> (case c of (dparam, fd) \<Rightarrow>
     0 < twod_strip_size dparam \<and> 0 < group_strip_factor dparam \<and>
     0 < num_groups dparam \<and> num_groups dparam \<le> server_ct fd \<and>
     0 \<le> server_nr fd \<and> server_nr fd < server_ct fd \<and> server_ct fd * group_strip_factor dparam < 2 ^ 32)"

lemma uint32_id: "0 \<le> x \<Longrightarrow> x < 2 ^ 32 \<Longrightarrow> uint32 x = (x :: int)"
  by simp

lemma tw_group_spec:
  assumes "0 < k" "k \<le> server_ct fd" "0 \<le> server_nr fd" "server_nr fd < server_ct fd" "server_ct fd < 2 ^ 32"
  defines "small \<equiv> server_ct fd div k"
  obtains g m s where "tw_group k small fd = (g, m, s)" "0 \<le> g" "0 \<le> s" "s < m"
    "g * small + s = server_nr fd" "g * small + m \<le> server_ct fd" "0 < small" "g < k"
    "m = (if g = k - 1 then server_ct fd - (k - 1) * small else small)"
proof -
  let ?n = "server_ct fd" and ?s = "server_nr fd"
  have small: "0 < small" using assms(1,2) by (simp add: small_def pos_imp_zdiv_pos_iff)
  have all: "k * small \<le> ?n" using assms(1) by (simp add: small_def) (metis mult.commute pos_mod_sign minus_mod_eq_mult_div diff_le_eq le_add_same_cancel1)
  then have last: "(k - 1) * small + small \<le> ?n" by (simp add: algebra_simps)
  have wrap: "uint32 (k - 1) = k - 1" "uint32 ((k - 1) * small) = (k - 1) * small"
    using assms(1,2,5) small last by (auto intro!: uint32_id)
  show thesis
  proof (cases "?s \<ge> (k - 1) * small")
    case True
    have "0 \<le> (k - 1) * small" using assms(1) small by simp
    then have "uint32 (?n - (k - 1) * small) = ?n - (k - 1) * small" "uint32 (?s - (k - 1) * small) = ?s - (k - 1) * small"
      using True assms(4,5) small last by (auto intro!: uint32_id)
    then have "tw_group k small fd = (k - 1, ?n - (k - 1) * small, ?s - (k - 1) * small)"
      using True wrap by (simp add: tw_group_def Let_def)
    then show thesis using True assms(1,4) small last
      by (intro that [of "k - 1" "?n - (k - 1) * small" "?s - (k - 1) * small"]) auto
  next
    case False
    let ?g = "?s div small"
    have g: "0 \<le> ?g" using assms(3) small by (simp add: pos_imp_zdiv_nonneg_iff)
    have s: "?s - ?g * small = ?s mod small" by (simp add: minus_div_mult_eq_mod)
    have lt: "?g < k - 1"
    proof (rule ccontr)
      assume "\<not> ?g < k - 1"
      then have "(k - 1) * small \<le> ?g * small" using small by (intro mult_right_mono) auto
      moreover have "0 \<le> ?s mod small" using small by simp
      ultimately show False using False s by linarith
    qed
    then have "(?g + 1) * small \<le> (k - 1) * small" using small by (intro mult_right_mono) auto
    then have room: "?g * small + small \<le> ?n" using last small by (simp add: algebra_simps)
    have m: "0 \<le> ?s mod small" "?s mod small < small" using small by simp_all
    have gs: "0 \<le> ?g * small" using g small by simp
    have "uint32 (?g * small) = ?g * small" using gs small room assms(5) by (intro uint32_id) linarith+
    moreover have "uint32 (?s - ?g * small) = ?s mod small"
      unfolding s using gs m room assms(5) by (intro uint32_id) linarith+
    ultimately have "tw_group k small fd = (?g, small, ?s mod small)"
      using False wrap assms(3) small lt unfolding tw_group_def Let_def by (simp add: sdiv_nonneg)
    then show thesis using g lt small room s by (intro that [of ?g small "?s mod small"]) auto
  qed
qed

text \<open>
  The servers before the group, and the group as a simple stripe configuration. A global stripe
  has \<open>group_strip_factor\<close> strips for each server.
\<close>

definition tw_first :: "PVFS_twod_stripe_params \<Rightarrow> PINT_request_file_data \<Rightarrow> int" where
  "tw_first dparam fd =
     (case tw_group (num_groups dparam) (server_ct fd div num_groups dparam) fd of
        (g, m, s) \<Rightarrow> g * (server_ct fd div num_groups dparam))"

definition tw_inner :: "PVFS_twod_stripe_params \<Rightarrow> PINT_request_file_data \<Rightarrow> PINT_request_file_data" where
  "tw_inner dparam fd =
     (case tw_group (num_groups dparam) (server_ct fd div num_groups dparam) fd of
        (g, m, s) \<Rightarrow> \<lparr>fsize = 0, server_nr = s, server_ct = m, extend_flag = False\<rparr>)"

abbreviation tw_ss :: "PVFS_twod_stripe_params \<Rightarrow> PVFS_simple_stripe_params" where
  "tw_ss dparam \<equiv> \<lparr>strip_size = twod_strip_size dparam\<rparr>"

definition tw_rows :: "PVFS_twod_stripe_params \<Rightarrow> PVFS_size" where
  "tw_rows dparam = group_strip_factor dparam * twod_strip_size dparam"

definition tw_global :: "PVFS_twod_stripe_params \<Rightarrow> PINT_request_file_data \<Rightarrow> PVFS_size" where
  "tw_global dparam fd = server_ct fd * tw_rows dparam"

definition tw_mine :: "PVFS_twod_stripe_params \<times> PINT_request_file_data \<Rightarrow> int \<Rightarrow> bool" where
  "tw_mine c x \<longleftrightarrow> (case c of (dparam, fd) \<Rightarrow>
     let w = x mod tw_global dparam fd - tw_first dparam fd * tw_rows dparam
     in 0 \<le> w \<and> w < server_ct (tw_inner dparam fd) * tw_rows dparam \<and> ss_mine (tw_ss dparam, tw_inner dparam fd) w)"

lemma tw_view:
  assumes "tw_valid (dparam, fd)"
  defines "small \<equiv> server_ct fd div num_groups dparam" and "F \<equiv> group_strip_factor dparam"
  obtains g m s where
    "tw_group (num_groups dparam) small fd = (g, m, s)"
    "tw_first dparam fd = g * small" "tw_inner dparam fd = \<lparr>fsize = 0, server_nr = s, server_ct = m, extend_flag = False\<rparr>"
    "0 \<le> s" "s < m" "0 \<le> g" "0 < small" "g * small + m \<le> server_ct fd"
    "uint32 (g * F) = g * F" "uint32 (m * F) = m * F" "uint32 (g * small) = g * small"
    "uint32 (g * small * F) = g * small * F" "uint32 (s + 1) = s + 1" "uint32 (small * F) = small * F"
proof -
  have v: "0 < F" "0 < num_groups dparam" "num_groups dparam \<le> server_ct fd" "0 \<le> server_nr fd"
      "server_nr fd < server_ct fd" "server_ct fd * F < 2 ^ 32"
    using assms(1) by (simp_all add: tw_valid_def F_def)
  have le: "x \<le> x * F" if "0 \<le> x" for x using mult_left_mono [of 1 F x] v(1) that by simp
  have ct: "server_ct fd < 2 ^ 32" using le [of "server_ct fd"] v by linarith
  obtain g m s where gr: "tw_group (num_groups dparam) small fd = (g, m, s)" "0 \<le> g" "0 \<le> s" "s < m"
      "g * small + m \<le> server_ct fd" "0 < small"
    using tw_group_spec [OF v(2-5) ct] unfolding small_def by metis
  have small_le: "small \<le> server_ct fd" using zdiv_mono2 [of "server_ct fd" 1 "num_groups dparam"] v(2,3) by (simp add: small_def)
  have g_le: "g \<le> g * small" using mult_left_mono [of 1 small g] gr(2,6) by simp
  have nn: "0 \<le> g * small" using gr(2,6) by simp
  have bound: "0 \<le> x * F \<and> x * F < 2 ^ 32" if "0 \<le> x" "x \<le> server_ct fd" for x
  proof
    show "0 \<le> x * F" using that(1) v(1) by simp
    have "x * F \<le> server_ct fd * F" using that(2) v(1) by (intro mult_right_mono) auto
    then show "x * F < 2 ^ 32" using v(6) by linarith
  qed
  have "uint32 (x * F) = x * F" if "0 \<le> x" "x \<le> server_ct fd" for x
    using bound [OF that] by (intro uint32_id) auto
  then have w: "uint32 (g * F) = g * F" "uint32 (m * F) = m * F" "uint32 (g * small * F) = g * small * F"
      "uint32 (small * F) = small * F"
    using gr g_le nn small_le by auto
  have u: "uint32 (g * small) = g * small" "uint32 (s + 1) = s + 1"
    using nn gr(3-5) ct by (intro uint32_id; linarith)+
  have "tw_first dparam fd = g * small" "tw_inner dparam fd = \<lparr>fsize = 0, server_nr = s, server_ct = m, extend_flag = False\<rparr>"
    unfolding tw_first_def tw_inner_def using gr(1) unfolding small_def by simp_all
  from that [OF gr(1) this gr(3,4,2,6,5) w(1,2) u(1) w(3) u(2) w(4)] show thesis .
qed

lemma tw_inner_valid:
  assumes "tw_valid (dparam, fd)"
  shows "ss_valid (tw_ss dparam, tw_inner dparam fd)" "0 < tw_rows dparam" "0 \<le> tw_first dparam fd"
    "tw_first dparam fd + server_ct (tw_inner dparam fd) \<le> server_ct fd"
proof -
  let ?F = "group_strip_factor dparam"
  have v: "0 < twod_strip_size dparam" "0 < ?F" "server_ct fd * ?F < 2 ^ 32" "0 \<le> server_ct fd"
    using assms by (simp_all add: tw_valid_def)
  have ct: "server_ct fd < 2 ^ 32" using mult_left_mono [of 1 ?F "server_ct fd"] v(2-4) by linarith
  obtain g m s where w: "tw_first dparam fd = g * (server_ct fd div num_groups dparam)"
      "tw_inner dparam fd = \<lparr>fsize = 0, server_nr = s, server_ct = m, extend_flag = False\<rparr>" "0 \<le> s" "s < m" "0 \<le> g"
      "0 < server_ct fd div num_groups dparam" "g * (server_ct fd div num_groups dparam) + m \<le> server_ct fd"
    by (rule tw_view [OF assms])
  show "0 < tw_rows dparam" using v by (simp add: tw_rows_def)
  show first: "0 \<le> tw_first dparam fd" using w(1,5,6) by simp
  show room: "tw_first dparam fd + server_ct (tw_inner dparam fd) \<le> server_ct fd" using w(1,2,7) by simp
  show "ss_valid (tw_ss dparam, tw_inner dparam fd)"
    using v(1) w(2-4) ct first room by (simp add: ss_valid_def)
qed

text \<open>Inside a group, the code computes the physical offset by strips.\<close>

lemma ss_l2p_by_strips:
  assumes "ss_valid (P, I)" "0 \<le> w"
  defines "q \<equiv> w sdiv (server_ct I * strip_size P)"
  defines "rest \<equiv> w - q * strip_size P * server_ct I"
  shows "ss_logical_to_physical_offset P I w = q * strip_size P +
    (if rest sdiv strip_size P \<ge> server_nr I + 1 then strip_size P
     else if rest sdiv strip_size P = server_nr I then rest smod strip_size P else 0)"
proof -
  let ?S = "strip_size P" and ?m = "server_ct I"
  note v = ss_validD [OF assms(1)]
  have m: "0 < ?m" using v by auto
  obtain k r t where w: "w = ss_at ?S ?m k r t" "0 \<le> k" "0 \<le> r" "r < ?m" "0 \<le> t" "t < ?S"
    by (rule ss_coords [OF v(1) m assms(2)])
  have q: "q = k" using ss_at_div(4) [OF w(3-6), of k] w(1) assms(2) v(1) m by (simp add: q_def c_division mult.commute)
  have rest: "rest = r * ?S + t" unfolding rest_def q w(1) by (simp add: ss_at_def algebra_simps)
  have "0 \<le> r * ?S + t" using w v(1) by simp
  then have "rest sdiv ?S = r" "rest smod ?S = t" unfolding rest using quot_rem [OF w(5,6), of r] v(1) by (simp_all add: c_division)
  then show ?thesis using ss_l2p_at [OF assms(1) w(2-6)] q w(1) by auto
qed

lemma ss_l2p_full:
  assumes "ss_valid (P, I)" "0 \<le> k"
  shows "ss_logical_to_physical_offset P I (server_ct I * (k * strip_size P)) = k * strip_size P"
  using ss_l2p_at [OF assms, of 0 0] ss_validD [OF assms(1)] by (simp add: ss_at_def mult_ac)

definition tw_clamp :: "PVFS_twod_stripe_params \<Rightarrow> PINT_request_file_data \<Rightarrow> int \<Rightarrow> int" where
  "tw_clamp dparam fd y =
     max 0 (min (y - tw_first dparam fd * tw_rows dparam) (server_ct (tw_inner dparam fd) * tw_rows dparam))"

lemma tw_clamp_low: "y \<le> tw_first dparam fd * tw_rows dparam \<Longrightarrow> tw_clamp dparam fd y = 0"
  by (simp add: tw_clamp_def)

lemma tw_l2p_eq:
  assumes "tw_valid (dparam, fd)" "0 \<le> x"
  shows "tw_logical_to_physical_offset dparam fd x =
    x div tw_global dparam fd * tw_rows dparam +
    ss_logical_to_physical_offset (tw_ss dparam) (tw_inner dparam fd) (tw_clamp dparam fd (x mod tw_global dparam fd))"
proof -
  let ?l2p = "ss_logical_to_physical_offset (tw_ss dparam) (tw_inner dparam fd)"
  let ?q = "x div tw_global dparam fd" and ?y = "x mod tw_global dparam fd"
  let ?S = "twod_strip_size dparam" and ?F = "group_strip_factor dparam" and ?n = "server_ct fd"
  let ?small = "?n div num_groups dparam" and ?I = "tw_inner dparam fd"
  have v: "0 < ?S" "0 < ?F" "0 < num_groups dparam" "num_groups dparam \<le> ?n" using assms(1) by (simp_all add: tw_valid_def)
  note iv = tw_inner_valid [OF assms(1)]
  obtain g m s where gr: "tw_group (num_groups dparam) ?small fd = (g, m, s)" "tw_first dparam fd = g * ?small"
      "?I = \<lparr>fsize = 0, server_nr = s, server_ct = m, extend_flag = False\<rparr>" "uint32 (g * ?F) = g * ?F" "uint32 (m * ?F) = m * ?F"
      "uint32 (s + 1) = s + 1" "0 \<le> s" "s < m"
    by (rule tw_view [OF assms(1)])
  have G: "?n * ?S * ?F = tw_global dparam fd" by (simp add: tw_global_def tw_rows_def mult_ac)
  have Gpos: "0 < tw_global dparam fd" using v iv(2) by (simp add: tw_global_def)
  have l2p0: "?l2p 0 = 0" using ss_l2p_full [OF iv(1), of 0] by simp
  have y: "x - ?q * tw_global dparam fd = ?y" "x sdiv tw_global dparam fd = ?q"
    using assms(2) Gpos by (simp_all add: c_division minus_div_mult_eq_mod)
  let ?w = "?y - tw_first dparam fd * tw_rows dparam"
  have w: "?y - g * ?F * ?S * ?small = ?w" by (simp add: gr(2) tw_rows_def mult_ac)
  have full: "?l2p (m * tw_rows dparam) = tw_rows dparam"
    using ss_l2p_full [OF iv(1), of ?F] v(2) gr(3) by (simp add: tw_rows_def)
  show ?thesis
  proof (cases "x = 0")
    case True
    have "tw_clamp dparam fd 0 = 0" using iv(2,3) by (intro tw_clamp_low) simp
    then show ?thesis using True l2p0 by (simp add: tw_logical_to_physical_offset_def)
  next
    case False
    have n: "(if num_groups dparam > ?n then ?n else num_groups dparam) = num_groups dparam"
      "?n sdiv num_groups dparam = ?small" using v(3,4) by (simp_all add: sdiv_nonneg)
    let ?k = "?w sdiv (m * ?S)"
    let ?rest = "?w - ?k * ?S * m"
    have "tw_logical_to_physical_offset dparam fd x = (if ?w > 0 then
          if ?w - m * ?F * ?S > 0 then 0 + ?q * ?F * ?S + ?F * ?S
          else if ?rest sdiv ?S \<ge> s + 1 then 0 + ?q * ?F * ?S + ?k * ?S + ?S
          else if ?rest sdiv ?S = s then 0 + ?q * ?F * ?S + ?k * ?S + ?rest smod ?S
          else 0 + ?q * ?F * ?S + ?k * ?S
        else 0 + ?q * ?F * ?S)"
      using False unfolding tw_logical_to_physical_offset_def Let_def n gr(1) prod.case G y gr(4-6) w by simp
    moreover have "?l2p ?w = ?k * ?S + (if ?rest sdiv ?S \<ge> s + 1 then ?S
        else if ?rest sdiv ?S = s then ?rest smod ?S else 0)" if "?w > 0"
      using ss_l2p_by_strips [OF iv(1) less_imp_le [OF that]] by (simp add: gr(3))
    ultimately have op: "tw_logical_to_physical_offset dparam fd x = ?q * tw_rows dparam +
        (if ?w > 0 then if ?w - m * tw_rows dparam > 0 then tw_rows dparam else ?l2p ?w else 0)"
      by (simp add: tw_rows_def mult.assoc)
    have "0 \<le> m * tw_rows dparam" using gr(7,8) iv(2) by simp
    then show ?thesis unfolding op tw_clamp_def using full l2p0 gr(3) by (auto simp: max_def min_def)
  qed
qed

lemma rows_split:
  fixes p S F :: int
  assumes "0 < S" "0 < F"
  shows "p div (F * S) = p div S div F" "(p mod (F * S)) div S = p div S mod F" "(p mod (F * S)) mod S = p mod S"
proof -
  show "p div (F * S) = p div S div F" using assms by (simp add: mult.commute [of F] zdiv_zmult2_eq)
  have "p mod (F * S) = (p div S mod F) * S + p mod S"
    using assms zmod_zmult2_eq [of F p S] by (simp add: mult.commute)
  then show "(p mod (F * S)) div S = p div S mod F" "(p mod (F * S)) mod S = p mod S"
    using assms quot_rem [of "p mod S" S "p div S mod F"] by simp_all
qed

lemma tw_p2l_eq:
  assumes "tw_valid (dparam, fd)" "0 \<le> p"
  shows "tw_physical_to_logical_offset dparam fd p =
    p div tw_rows dparam * tw_global dparam fd + tw_first dparam fd * tw_rows dparam +
    ss_physical_to_logical_offset (tw_ss dparam) (tw_inner dparam fd) (p mod tw_rows dparam)"
proof -
  let ?S = "twod_strip_size dparam" and ?F = "group_strip_factor dparam" and ?n = "server_ct fd"
  let ?small = "?n div num_groups dparam"
  have v: "0 < ?S" "0 < ?F" "0 < num_groups dparam" "num_groups dparam \<le> ?n" using assms(1) by (simp_all add: tw_valid_def)
  obtain g m s where gr: "tw_group (num_groups dparam) ?small fd = (g, m, s)" "tw_first dparam fd = g * ?small"
      "tw_inner dparam fd = \<lparr>fsize = 0, server_nr = s, server_ct = m, extend_flag = False\<rparr>" "uint32 (g * ?small) = g * ?small"
      "uint32 (g * ?small * ?F) = g * ?small * ?F"
    by (rule tw_view [OF assms(1)])
  have n: "(if num_groups dparam > ?n then ?n else num_groups dparam) = num_groups dparam"
    "?n sdiv num_groups dparam = ?small" using v(3,4) by (simp_all add: sdiv_nonneg)
  let ?k = "p div ?S"
  have k: "0 \<le> ?k" using assms(2) v(1) by (simp add: pos_imp_zdiv_nonneg_iff)
  have c: "p sdiv ?S = ?k" "?k sdiv ?F = ?k div ?F" "?k smod ?F = ?k mod ?F" "p smod ?S = p mod ?S"
    using assms(2) k v by (simp_all add: c_division)
  have base: "(if ?k > ?F then 0 + ?k div ?F * ?F * ?n * ?S else if ?k = ?F then 0 + ?k * ?n * ?S else 0) =
      ?k div ?F * ?F * ?n * ?S"
    using k v(2) by auto
  have "0 \<le> p mod tw_rows dparam" using v by (simp add: tw_rows_def)
  then have "ss_physical_to_logical_offset (tw_ss dparam) (tw_inner dparam fd) (p mod tw_rows dparam) =
      ?k mod ?F * ?S * m + ?S * s + p mod ?S"
    using rows_split [OF v(1,2), of p] v(1) gr(3) by (simp add: ss_physical_to_logical_offset_def c_division tw_rows_def)
  moreover have "tw_physical_to_logical_offset dparam fd p =
      ?k div ?F * ?F * ?n * ?S + g * ?small * ?F * ?S + ?k mod ?F * m * ?S + s * ?S + p mod ?S"
    unfolding tw_physical_to_logical_offset_def Let_def n gr(1) prod.case c gr(4,5) base by simp
  ultimately show ?thesis
    using rows_split(1) [OF v(1,2), of p] gr(2) by (simp add: tw_rows_def tw_global_def mult_ac)
qed

text \<open>The image of a physical offset lies in the group of the server.\<close>

lemma tw_inner_image:
  assumes "tw_valid (dparam, fd)" "0 \<le> p" "p < tw_rows dparam"
  defines "z \<equiv> ss_physical_to_logical_offset (tw_ss dparam) (tw_inner dparam fd) p"
  shows "0 \<le> z" "z < server_ct (tw_inner dparam fd) * tw_rows dparam" "ss_mine (tw_ss dparam, tw_inner dparam fd) z"
    "ss_logical_to_physical_offset (tw_ss dparam) (tw_inner dparam fd) z = p"
proof -
  let ?S = "twod_strip_size dparam" and ?F = "group_strip_factor dparam" and ?I = "tw_inner dparam fd"
  note iv = tw_inner_valid [OF assms(1)]
  note v = ss_validD [OF iv(1)]
  show z: "0 \<le> z" "ss_mine (tw_ss dparam, ?I) z" "ss_logical_to_physical_offset (tw_ss dparam) ?I z = p"
    using ss.p2l_mine [OF iv(1) assms(2)] ss.l2p_p2l [OF iv(1) assms(2)] by (simp_all add: z_def)
  show "z < server_ct ?I * tw_rows dparam"
  proof (rule ccontr)
    assume "\<not> z < server_ct ?I * tw_rows dparam"
    then have "ss_logical_to_physical_offset (tw_ss dparam) ?I (server_ct ?I * tw_rows dparam) \<le> p"
      using ss.cnt.l2p_mono [OF iv(1), of "server_ct ?I * tw_rows dparam" z] z v(2,3) iv(2) by simp
    moreover have "0 \<le> ?F" using assms(1) by (simp add: tw_valid_def)
    ultimately show False using ss_l2p_full [OF iv(1), of ?F] assms(3) by (simp add: tw_rows_def)
  qed
qed

lemma tw_room:
  assumes "tw_valid (dparam, fd)"
  shows "0 < tw_global dparam fd" "0 \<le> tw_first dparam fd * tw_rows dparam"
    "tw_first dparam fd * tw_rows dparam + server_ct (tw_inner dparam fd) * tw_rows dparam \<le> tw_global dparam fd"
proof -
  note iv = tw_inner_valid [OF assms]
  have "0 < server_ct (tw_inner dparam fd)" using ss_validD(2,3) [OF iv(1)] by simp
  then have "0 < server_ct fd" using iv(3,4) by simp
  then show "0 < tw_global dparam fd" using iv(2) by (simp add: tw_global_def)
  show "0 \<le> tw_first dparam fd * tw_rows dparam" using iv(2,3) by simp
  have "(tw_first dparam fd + server_ct (tw_inner dparam fd)) * tw_rows dparam \<le> tw_global dparam fd"
    unfolding tw_global_def using iv(2,4) by (intro mult_right_mono) auto
  then show "tw_first dparam fd * tw_rows dparam + server_ct (tw_inner dparam fd) * tw_rows dparam \<le> tw_global dparam fd"
    by (simp add: distrib_right)
qed

lemma tw_p2l_place:
  assumes "tw_valid (dparam, fd)" "0 \<le> p"
  defines "x \<equiv> tw_physical_to_logical_offset dparam fd p"
    and "z \<equiv> ss_physical_to_logical_offset (tw_ss dparam) (tw_inner dparam fd) (p mod tw_rows dparam)"
  shows "x div tw_global dparam fd = p div tw_rows dparam"
    "x mod tw_global dparam fd = tw_first dparam fd * tw_rows dparam + z" "0 \<le> x"
proof -
  note iv = tw_inner_valid [OF assms(1)] and room = tw_room [OF assms(1)]
  have "0 \<le> p mod tw_rows dparam" "p mod tw_rows dparam < tw_rows dparam" using iv(2) by simp_all
  note z = tw_inner_image [OF assms(1) this, folded z_def]
  have x: "x = p div tw_rows dparam * tw_global dparam fd + (tw_first dparam fd * tw_rows dparam + z)"
    unfolding x_def z_def by (simp add: tw_p2l_eq [OF assms(1,2)])
  have y: "0 \<le> tw_first dparam fd * tw_rows dparam + z" "tw_first dparam fd * tw_rows dparam + z < tw_global dparam fd"
    using z(1,2) room by linarith+
  show "x div tw_global dparam fd = p div tw_rows dparam"
    "x mod tw_global dparam fd = tw_first dparam fd * tw_rows dparam + z"
    unfolding x using quot_rem [OF y] by blast+
  have "0 \<le> p div tw_rows dparam" using assms(2) iv(2) by (simp add: pos_imp_zdiv_nonneg_iff)
  then show "0 \<le> x" unfolding x using room(1) y(1) by simp
qed

lemma tw_l2p_step:
  assumes "tw_valid (dparam, fd)" "0 \<le> x"
  shows "tw_logical_to_physical_offset dparam fd (x + 1) =
    tw_logical_to_physical_offset dparam fd x + (if tw_mine (dparam, fd) x then 1 else 0)"
proof -
  let ?l2p = "ss_logical_to_physical_offset (tw_ss dparam) (tw_inner dparam fd)"
  let ?G = "tw_global dparam fd" and ?q = "x div tw_global dparam fd" and ?y = "x mod tw_global dparam fd"
  let ?b = "tw_first dparam fd * tw_rows dparam" and ?m = "server_ct (tw_inner dparam fd) * tw_rows dparam"
  note iv = tw_inner_valid [OF assms(1)] and room = tw_room [OF assms(1)]
  have m: "0 \<le> ?m" using ss_validD(2,3) [OF iv(1)] iv(2) by simp
  have step: "?l2p (tw_clamp dparam fd (?y + 1)) = ?l2p (tw_clamp dparam fd ?y) + (if tw_mine (dparam, fd) x then 1 else 0)"
  proof (cases "0 \<le> ?y - ?b \<and> ?y - ?b < ?m")
    case True
    then have "tw_clamp dparam fd ?y = ?y - ?b" "tw_clamp dparam fd (?y + 1) = ?y - ?b + 1" by (simp_all add: tw_clamp_def)
    then show ?thesis using ss_l2p_step [OF iv(1), of "?y - ?b"] True by (simp add: tw_mine_def Let_def)
  next
    case False
    then have "tw_clamp dparam fd (?y + 1) = tw_clamp dparam fd ?y" using m by (auto simp: tw_clamp_def)
    then show ?thesis using False by (auto simp: tw_mine_def Let_def)
  qed
  have y: "0 \<le> ?y" "?y < ?G" "x = ?q * ?G + ?y" using room(1) by (simp_all only: pos_mod_sign pos_mod_bound div_mult_mod_eq)
  note here = tw_l2p_eq [OF assms] and there = tw_l2p_eq [OF assms(1), of "x + 1"]
  show ?thesis
  proof (cases "?y + 1 < ?G")
    case True
    have e: "x + 1 = ?q * ?G + (?y + 1)" using y(3) by simp
    have "0 \<le> ?y + 1" using y(1) by simp
    then have "(x + 1) div ?G = ?q" "(x + 1) mod ?G = ?y + 1" unfolding e using quot_rem [OF _ True, of ?q] by blast+
    then show ?thesis using here there step assms(2) by simp
  next
    case False
    then have last: "?y + 1 = ?G" using y(2) by simp
    then have "x + 1 = (?q + 1) * ?G" using y(3) by (simp add: distrib_right)
    then have nx: "(x + 1) div ?G = ?q + 1" "(x + 1) mod ?G = 0" using room(1) by simp_all
    have "0 \<le> group_strip_factor dparam" using assms(1) by (simp add: tw_valid_def)
    then have "?l2p ?m = tw_rows dparam" "?l2p 0 = 0"
      using ss_l2p_full [OF iv(1)] ss_l2p_full [OF iv(1), of 0] by (simp_all add: tw_rows_def)
    moreover have "tw_clamp dparam fd ?G = ?m" "tw_clamp dparam fd 0 = 0"
      using room m by (simp_all add: tw_clamp_def)
    ultimately show ?thesis using here there step nx last assms(2) by (simp add: distrib_right)
  qed
qed

interpretation twc: dist_counting tw_valid
  "\<lambda>(dparam, fd). tw_logical_to_physical_offset dparam fd"
  "\<lambda>(dparam, fd). tw_physical_to_logical_offset dparam fd"
  tw_mine
proof (unfold_locales, goal_cases)
  case (1 c p)
  obtain dparam fd where c: "c = (dparam, fd)" by (cases c)
  note v = 1(1) [unfolded c]
  have "0 \<le> p mod tw_rows dparam" "p mod tw_rows dparam < tw_rows dparam" using tw_inner_valid(2) [OF v] by simp_all
  note z = tw_inner_image [OF v this]
  show ?case using tw_p2l_place [OF v 1(2)] z(1-3) c by (simp add: tw_mine_def)
next
  case (2 c p)
  obtain dparam fd where c: "c = (dparam, fd)" by (cases c)
  note v = 2(1) [unfolded c]
  have "0 \<le> p mod tw_rows dparam" "p mod tw_rows dparam < tw_rows dparam" using tw_inner_valid(2) [OF v] by simp_all
  note z = tw_inner_image [OF v this]
  note x = tw_p2l_place [OF v 2(2)]
  have "tw_clamp dparam fd (tw_first dparam fd * tw_rows dparam +
      ss_physical_to_logical_offset (tw_ss dparam) (tw_inner dparam fd) (p mod tw_rows dparam)) =
    ss_physical_to_logical_offset (tw_ss dparam) (tw_inner dparam fd) (p mod tw_rows dparam)"
    using z(1,2) by (simp add: tw_clamp_def)
  then show ?case using tw_l2p_eq [OF v x(3)] x(1,2) z(4) c by simp
next
  case (3 c x)
  obtain dparam fd where c: "c = (dparam, fd)" by (cases c)
  note v = 3(1) [unfolded c]
  show ?case unfolding c prod.case
  proof (rule rank_by_step [OF _ _ 3(2)])
    show "tw_logical_to_physical_offset dparam fd 0 = 0"
      unfolding tw_logical_to_physical_offset_def by (simp only: refl if_True)
  qed (rule tw_l2p_step [OF v])
qed

section \<open>The next offset\<close>

text \<open>
  \<open>next_mapped_offset\<close> counts strips in 32 bits. Up to \<open>tw_limit\<close> the count does not wrap.
\<close>

definition tw_stripes :: "PVFS_twod_stripe_params \<Rightarrow> int" where
  "tw_stripes dparam = 2 ^ 32 div group_strip_factor dparam - 1"

definition tw_lin :: "PVFS_twod_stripe_params \<times> PINT_request_file_data \<Rightarrow> int \<Rightarrow> bool" where
  "tw_lin c x \<longleftrightarrow> (case c of (dparam, fd) \<Rightarrow> x < tw_stripes dparam * tw_global dparam fd)"

definition tw_pin :: "PVFS_twod_stripe_params \<times> PINT_request_file_data \<Rightarrow> int \<Rightarrow> bool" where
  "tw_pin c p \<longleftrightarrow> (case c of (dparam, fd) \<Rightarrow> p < tw_stripes dparam * tw_rows dparam)"

lemma tw_count:
  assumes "0 < F" "0 \<le> q" "q < 2 ^ 32 div F - 1"
  shows "uint32 q = q" "uint32 (q * F) = q * F" "k \<le> F \<Longrightarrow> 0 \<le> k \<Longrightarrow> uint32 (q * F + k) = q * F + (k :: int)"
proof -
  have "(q + 2) * F \<le> 2 ^ 32 div F * F" using assms by (intro mult_right_mono) auto
  moreover have "2 ^ 32 div F * F \<le> (2 ^ 32 :: int)"
    using minus_div_mult_eq_mod [of "2 ^ 32" F] pos_mod_sign [OF assms(1), of "2 ^ 32"] by linarith
  ultimately have b: "q * F + 2 * F \<le> 2 ^ 32" by (simp add: distrib_right)
  have nn: "0 \<le> q * F" "q \<le> q * F" using assms(1,2) mult_left_mono [of 1 F q] by auto
  show "uint32 q = q" "uint32 (q * F) = q * F" using b nn assms(1,2) by (intro uint32_id; linarith)+
  show "uint32 (q * F + k) = q * F + k" if "k \<le> F" "0 \<le> k" using b nn assms(1) that by (intro uint32_id; linarith)
qed

lemma strip_less:
  fixes r s t S :: int
  assumes "0 \<le> t" "t < S"
  shows "r * S + t < s * S \<longleftrightarrow> r < s"
proof
  assume "r * S + t < s * S"
  then show "r < s" using mult_less_div [of S "r * S + t" s] quot_rem(1) [OF assms, of r] assms by simp
next
  assume "r < s"
  then have "(r + 1) * S \<le> s * S" using assms by (intro mult_right_mono) auto
  then show "r * S + t < s * S" using assms by (simp add: distrib_right)
qed

lemma tw_next_eq:
  assumes "tw_valid (dparam, fd)" "0 \<le> x" "tw_lin (dparam, fd) x"
  shows "tw_next_mapped_offset dparam fd x =
    tw_physical_to_logical_offset dparam fd (tw_logical_to_physical_offset dparam fd x)"
proof (cases "x = 0")
  case True
  then show ?thesis
    unfolding tw_next_mapped_offset_def tw_logical_to_physical_offset_def Let_def by (simp only: refl if_True)
next
  case False
  let ?S = "twod_strip_size dparam" and ?F = "group_strip_factor dparam" and ?n = "server_ct fd"
  let ?small = "?n div num_groups dparam" and ?I = "tw_inner dparam fd" and ?G = "tw_global dparam fd"
  let ?l2p = "ss_logical_to_physical_offset (tw_ss dparam) (tw_inner dparam fd)"
  let ?q = "x div ?G" and ?y = "x mod ?G"
  have v: "0 < ?S" "0 < ?F" "0 < num_groups dparam" "num_groups dparam \<le> ?n" "?n * ?F < 2 ^ 32"
    using assms(1) by (simp_all add: tw_valid_def)
  note iv = tw_inner_valid [OF assms(1)] and room = tw_room [OF assms(1)]
  obtain g m s where gr: "tw_group (num_groups dparam) ?small fd = (g, m, s)" "tw_first dparam fd = g * ?small"
      "?I = \<lparr>fsize = 0, server_nr = s, server_ct = m, extend_flag = False\<rparr>" "uint32 (m * ?F) = m * ?F"
      "uint32 (s + 1) = s + 1" "uint32 (?small * ?F) = ?small * ?F" "0 \<le> s" "s < m"
    by (rule tw_view [OF assms(1)])
  have n: "(if num_groups dparam > ?n then ?n else num_groups dparam) = num_groups dparam"
    "?n sdiv num_groups dparam = ?small" "uint32 (?n * ?F) = ?n * ?F"
    using v(2-5) by (auto intro!: uint32_id simp: sdiv_nonneg)
  have G: "?n * ?F * ?S = ?G" "m * ?F * ?S = m * tw_rows dparam" "g * (?small * ?F * ?S) = tw_first dparam fd * tw_rows dparam"
    by (simp_all add: tw_global_def tw_rows_def gr(2) mult_ac)
  have q: "0 \<le> ?q" "?q < tw_stripes dparam"
    using assms(2,3) room(1) mult_less_div [of ?G x "tw_stripes dparam"] by (simp_all add: tw_lin_def pos_imp_zdiv_nonneg_iff)
  note cnt = tw_count [OF v(2) q [unfolded tw_stripes_def]]
  have y: "x sdiv ?G = ?q" "x - ?G * ?q = ?y"
    using assms(2) room(1) by (simp_all add: sdiv_nonneg minus_mult_div_eq_mod)
  let ?b = "tw_first dparam fd * tw_rows dparam"
  let ?w = "?y - ?b"
  let ?k = "?w sdiv (m * ?S)"
  have op: "tw_next_mapped_offset dparam fd x =
      (if ?y \<ge> ?b + m * tw_rows dparam then tw_physical_to_logical_offset dparam fd ((?q * ?F + ?F) * ?S)
       else if ?y < ?b + m * tw_rows dparam \<and> ?y > ?b then
         if ?w - uint32 ?k * ?S * m < s * ?S then
           tw_physical_to_logical_offset dparam fd (uint32 (?q * ?F + uint32 ?k) * ?S)
         else if ?w - uint32 ?k * ?S * m \<ge> (s + 1) * ?S then
           tw_physical_to_logical_offset dparam fd (uint32 (uint32 (?q * ?F + uint32 ?k) + 1) * ?S)
         else x
       else tw_physical_to_logical_offset dparam fd (?q * ?F * ?S))"
    unfolding tw_next_mapped_offset_def Let_def n gr(1,4-6) prod.case G y cnt(1) using False cnt(2) cnt(3) [of ?F] v(2) by simp
  note l2p = tw_l2p_eq [OF assms(1,2)]
  consider (above) "?y \<ge> ?b + m * tw_rows dparam" | (inside) "?b < ?y" "?y < ?b + m * tw_rows dparam"
    | (below) "?y \<le> ?b" "?y < ?b + m * tw_rows dparam" by linarith
  then show ?thesis
  proof cases
    case above
    then have "tw_clamp dparam fd ?y = server_ct ?I * (?F * ?S)"
      using gr(3,7,8) v(1,2) by (simp add: tw_clamp_def tw_rows_def)
    then have "tw_logical_to_physical_offset dparam fd x = (?q * ?F + ?F) * ?S"
      using l2p ss_l2p_full [OF iv(1), of ?F] v(2) by (simp add: tw_rows_def algebra_simps)
    then show ?thesis using op above by simp
  next
    case inside
    have m: "0 < m" "0 \<le> ?w" "0 < strip_size (tw_ss dparam)" using gr(7,8) inside(1) v(1) by simp_all
    obtain k r t where w: "?w = ss_at ?S m k r t" "0 \<le> k" "0 \<le> r" "r < m" "0 \<le> t" "t < ?S"
      using ss_coords [OF m(3,1,2)] by auto
    have k: "?k = k" using ss_at_div(4) [OF w(3-6), of k] w(1) m v(1) by (simp add: c_division mult.commute)
    have "k * (m * ?S) + (r * ?S + t) < ?F * (m * ?S)"
      using w(1) inside(2) by (simp add: ss_at_def tw_rows_def algebra_simps)
    moreover have "0 \<le> r * ?S + t" using w(3,5) v(1) by simp
    ultimately have "k * (m * ?S) < ?F * (m * ?S)" by linarith
    then have kF: "k < ?F" using m(1) v(1) by (simp add: mult_less_cancel_right)
    have u: "uint32 k = k" "uint32 (?q * ?F + k) = ?q * ?F + k" "uint32 (?q * ?F + k + 1) = ?q * ?F + (k + 1)"
    proof -
      have "?F \<le> ?n * ?F" using v(2-4) mult_right_mono [of 1 ?n ?F] by simp
      then show "uint32 k = k" using kF w(2) v(5) by (intro uint32_id) linarith+
      show "uint32 (?q * ?F + k) = ?q * ?F + k" "uint32 (?q * ?F + k + 1) = ?q * ?F + (k + 1)"
        using cnt(3) [of k] cnt(3) [of "k + 1"] kF w(2) by (simp_all add: add.assoc)
    qed
    have rest: "?w - k * ?S * m = r * ?S + t" unfolding w(1) by (simp add: ss_at_def algebra_simps)
    have "tw_clamp dparam fd ?y = ?w" using inside gr(3) by (simp add: tw_clamp_def)
    then have val: "tw_logical_to_physical_offset dparam fd x =
        ?q * tw_rows dparam + (k * ?S + (if r < s then 0 else if r = s then t else ?S))"
      using l2p ss_l2p_at [OF iv(1) w(2), of r t] w gr(3) by simp
    have cmp: "r * ?S + t < s * ?S \<longleftrightarrow> r < s" by (rule strip_less [OF w(5,6)])
    have cmp': "(s + 1) * ?S \<le> r * ?S + t \<longleftrightarrow> s + 1 \<le> r"
      by (simp only: not_less [symmetric] strip_less [OF w(5,6)])
    have mine: "tw_mine (dparam, fd) x" if "r = s"
      using ss_mine_at [OF iv(1), of r t k] w that gr(3) inside by (simp add: tw_mine_def)
    have op': "tw_next_mapped_offset dparam fd x =
        (if r < s then tw_physical_to_logical_offset dparam fd ((?q * ?F + k) * ?S)
         else if s + 1 \<le> r then tw_physical_to_logical_offset dparam fd ((?q * ?F + (k + 1)) * ?S) else x)"
      using op inside unfolding k u rest cmp cmp' by simp
    consider "r < s" | "s < r" | "r = s" by linarith
    then show ?thesis
    proof cases
      case 1 then show ?thesis unfolding op' val by (simp add: tw_rows_def distrib_right mult.assoc)
    next
      case 2 then show ?thesis unfolding op' val by (simp add: tw_rows_def distrib_right mult.assoc add.assoc)
    next
      case 3 then show ?thesis using op' twc.image_mine [OF assms(1,2) mine] by simp
    qed
  next
    case below
    then have "tw_logical_to_physical_offset dparam fd x = ?q * ?F * ?S"
      using l2p ss_l2p_full [OF iv(1), of 0] by (simp add: tw_clamp_low tw_rows_def)
    then show ?thesis using op below by simp
  qed
qed

end
