(* ===== verification/Dist_Twod_Contract.thy ===== *)
theory Dist_Twod_Contract
  imports Dist_Twod
begin

text \<open>
  The contract of the two-dimensional stripe distribution and the properties that follow from
  it: every byte of a file has one server, the sizes of the data files add up to the size of the
  file, and \<open>next_mapped_offset\<close> finds the next byte of the server.
\<close>

section \<open>The contract\<close>

lemma tw_contig_run:
  assumes "tw_valid (dparam, fd)" "0 \<le> p" "0 \<le> i" "i < tw_contiguous_length dparam fd p"
  shows "tw_physical_to_logical_offset dparam fd (p + i) = tw_physical_to_logical_offset dparam fd p + i"
    "(p + i) div tw_rows dparam = p div tw_rows dparam"
proof -
  let ?S = "twod_strip_size dparam" and ?F = "group_strip_factor dparam"
  have v: "0 < ?S" "0 < ?F" using assms(1) by (simp_all add: tw_valid_def)
  have t: "0 \<le> p mod ?S + i" "p mod ?S + i < ?S"
    using assms(2-4) v(1) by (simp_all add: tw_contiguous_length_def smod_nonneg)
  have "p + i = p div ?S * ?S + (p mod ?S + i)" by simp
  then have "(p + i) div ?S = p div ?S" "(p + i) mod ?S = p mod ?S + i"
    using quot_rem [OF t, of "p div ?S"] by simp_all
  then show "(p + i) div tw_rows dparam = p div tw_rows dparam"
    "tw_physical_to_logical_offset dparam fd (p + i) = tw_physical_to_logical_offset dparam fd p + i"
    using assms(2,3) v rows_split(1) [OF v] unfolding tw_physical_to_logical_offset_def Let_def tw_rows_def
    by (simp_all add: c_division split: prod.splits)
qed

lemma tw_bounds:
  assumes "tw_valid (dparam, fd)"
  shows "tw_lin (dparam, fd) x \<longleftrightarrow> x div tw_global dparam fd < tw_stripes dparam"
    "tw_pin (dparam, fd) p \<longleftrightarrow> p div tw_rows dparam < tw_stripes dparam"
  using div_less_iff tw_room(1) [OF assms] tw_inner_valid(2) [OF assms] by (simp_all add: tw_lin_def tw_pin_def)

text \<open>A logical offset of the server and its physical offset are in the same global stripe.\<close>

lemma tw_l2p_stripe:
  assumes "tw_valid (dparam, fd)" "0 \<le> x" "tw_mine (dparam, fd) x"
  shows "tw_logical_to_physical_offset dparam fd x div tw_rows dparam = x div tw_global dparam fd"
proof -
  let ?p = "tw_logical_to_physical_offset dparam fd x"
  have "0 \<le> ?p" using twc.l2p_bound [OF assms(1,2)] by simp
  from tw_p2l_place(1) [OF assms(1) this] show ?thesis using twc.image_mine [OF assms] by simp
qed

interpretation tw: dist_bounded tw_valid
  "\<lambda>(dparam, fd). tw_logical_to_physical_offset dparam fd"
  "\<lambda>(dparam, fd). tw_physical_to_logical_offset dparam fd"
  "\<lambda>(dparam, fd). tw_next_mapped_offset dparam fd"
  "\<lambda>(dparam, fd). tw_contiguous_length dparam fd"
  tw_mine tw_lin tw_pin
proof (unfold_locales, goal_cases)
  case (1 c p)
  then show ?case using twc.p2l_mine [OF 1(1,2)] by (cases c) (simp add: tw_bounds tw_p2l_place(1))
next
  case (2 c p)
  then show ?case using twc.l2p_p2l [OF 2(1,2)] by simp
next
  case (3 c x)
  then show ?case using twc.l2p_bound [OF 3(1,2)] twc.image_mine [OF 3(1,2,4)]
    by (cases c) (simp add: tw_bounds tw_l2p_stripe)
next
  case (4 c x)
  then show ?case using twc.image_reach [OF 4(1,2)] twc.l2p_bound [OF 4(1,2)] twc.p2l_mine [OF 4(1)]
    by (cases c) (simp add: tw_next_eq)
next
  case (5 c x y)
  then show ?case using twc.image_gap [OF 5(1,2,4)] by (cases c) (simp add: tw_next_eq)
next
  case (6 c p)
  then show ?case by (cases c) (auto simp: tw_contiguous_length_def smod_nonneg tw_valid_def)
next
  case (7 c p i)
  then show ?case by (cases c) (simp add: tw_bounds tw_contig_run)
qed

section \<open>Every byte has one server\<close>

lemma tw_group_server:
  assumes "0 < k" "k \<le> n" "0 \<le> s" "s < n" "n < 2 ^ 32"
  obtains g m r where "tw_group k (n div k) \<lparr>fsize = 0, server_nr = s, server_ct = n, extend_flag = False\<rparr> = (g, m, r)"
    "0 \<le> g" "0 \<le> r" "r < m" "g * (n div k) + r = s" "g * (n div k) + m \<le> n" "0 < n div k" "g < k"
    "m = (if g = k - 1 then n - (k - 1) * (n div k) else n div k)"
proof -
  let ?fd = "\<lparr>fsize = 0, server_nr = s, server_ct = n, extend_flag = False\<rparr>"
  have fd: "k \<le> server_ct ?fd" "0 \<le> server_nr ?fd" "server_nr ?fd < server_ct ?fd" "server_ct ?fd < 2 ^ 32"
    using assms by simp_all
  obtain g m r where "tw_group k (server_ct ?fd div k) ?fd = (g, m, r)" "0 \<le> g" "0 \<le> r" "r < m"
    "g * (server_ct ?fd div k) + r = server_nr ?fd" "g * (server_ct ?fd div k) + m \<le> server_ct ?fd"
    "0 < server_ct ?fd div k" "g < k"
    "m = (if g = k - 1 then server_ct ?fd - (k - 1) * (server_ct ?fd div k) else server_ct ?fd div k)"
    by (rule tw_group_spec [OF assms(1) fd])
  from that [OF this [unfolded PINT_request_file_data.select_convs]] show thesis .
qed

lemma tw_group_unique:
  assumes "0 < k" "k \<le> n" "n < 2 ^ 32" "0 \<le> g" "g < k" "0 \<le> r"
    "r < (if g = k - 1 then n - (k - 1) * (n div k) else n div k)"
  shows "tw_group k (n div k) \<lparr>fsize = 0, server_nr = g * (n div k) + r, server_ct = n, extend_flag = False\<rparr> =
    (g, if g = k - 1 then n - (k - 1) * (n div k) else n div k, r)"
proof -
  let ?small = "n div k" and ?fd = "\<lparr>fsize = 0, server_nr = g * (n div k) + r, server_ct = n, extend_flag = False\<rparr>"
  have small: "0 < ?small" using assms(1,2) by (simp add: pos_imp_zdiv_pos_iff)
  have apart: False if "a < b" "a * ?small + ra = b * ?small + rb" "0 \<le> rb" "ra < ?small" for a b ra rb
  proof -
    have "(a + 1) * ?small \<le> b * ?small" using that(1) small by (intro mult_right_mono) auto
    then show False using that by (simp add: distrib_right)
  qed
  have nn: "0 \<le> g * ?small" using assms(4) small by simp
  have "g * ?small + r < n"
  proof (cases "g = k - 1")
    case False
    have "(g + 1) * ?small \<le> k * ?small" using assms(5) small by (intro mult_right_mono) auto
    also have "\<dots> \<le> n" using mult_div_mod_eq [of k n] pos_mod_sign [OF assms(1), of n] by linarith
    finally show ?thesis using False assms(7) by (simp add: distrib_right)
  qed (use assms(7) in simp)
  then have s: "0 \<le> g * ?small + r" "g * ?small + r < n" using assms(6) nn by simp_all
  obtain g' m' s' where gr: "tw_group k ?small ?fd = (g', m', s')" "0 \<le> s'" "s' < m'" "g' * ?small + s' = g * ?small + r"
      "g' < k" "m' = (if g' = k - 1 then n - (k - 1) * ?small else ?small)"
    by (rule tw_group_server [OF assms(1,2) s assms(3)])
  have "g' = g"
  proof (rule linorder_cases [of g' g])
    assume "g' < g" then show ?thesis using apart [of g' g s' r] gr assms(5,6) by auto
  next
    assume "g < g'" then show ?thesis using apart [of g g' r s'] gr assms(5-7) by auto
  qed
  then show ?thesis using gr by simp
qed

text \<open>The slot of an offset in its global stripe tells the group.\<close>

lemma tw_mine_slot:
  fixes x :: int
  assumes "tw_valid (dparam, fd)" "tw_group (num_groups dparam) (server_ct fd div num_groups dparam) fd = (g, m, r)"
  defines "y \<equiv> x mod tw_global dparam fd" and "b \<equiv> g * (server_ct fd div num_groups dparam)"
  shows "tw_mine (dparam, fd) x \<longleftrightarrow> b \<le> y div tw_rows dparam \<and> y div tw_rows dparam < b + m \<and>
    ((y - b * tw_rows dparam) div twod_strip_size dparam) mod m = r"
proof -
  have pos: "0 < tw_rows dparam" by (rule tw_inner_valid(2) [OF assms(1)])
  have "b * tw_rows dparam \<le> y \<longleftrightarrow> b \<le> y div tw_rows dparam" "y < (b + m) * tw_rows dparam \<longleftrightarrow> y div tw_rows dparam < b + m"
    using div_less_iff [OF pos] by (auto simp: not_less [symmetric])
  then show ?thesis using assms(2)
    by (auto simp: tw_mine_def tw_first_def tw_inner_def ss_mine_def Let_def y_def b_def distrib_right)
qed

lemma tw_owner:
  assumes "0 < twod_strip_size dparam" "0 < group_strip_factor dparam" "0 < num_groups dparam" "num_groups dparam \<le> n"
    "n * group_strip_factor dparam < 2 ^ 32"
  shows "\<exists>!s. 0 \<le> s \<and> s < n \<and> tw_mine (dparam, \<lparr>fsize = 0, server_nr = s, server_ct = n, extend_flag = False\<rparr>) x"
proof -
  let ?k = "num_groups dparam" and ?R = "tw_rows dparam" and ?srv = "\<lambda>s. \<lparr>fsize = 0, server_nr = s, server_ct = n, extend_flag = False\<rparr>"
  let ?small = "n div num_groups dparam" and ?F = "group_strip_factor dparam"
  have valid: "tw_valid (dparam, ?srv s)" if "0 \<le> s" "s < n" for s using assms that by (simp add: tw_valid_def)
  have n: "0 < n" "n < 2 ^ 32" using assms mult_left_mono [of 1 ?F n] by linarith+
  have R: "0 < ?R" using assms by (simp add: tw_rows_def)
  let ?y = "x mod (n * ?R)"
  let ?c = "?y div ?R"
  have "0 \<le> ?y" "?y < n * ?R" using n(1) R by simp_all
  then have c: "0 \<le> ?c" "?c < n" using R div_less_iff [OF R, of ?y n] by (simp_all add: pos_imp_zdiv_nonneg_iff)
  obtain g m rc where gr: "tw_group ?k ?small (?srv ?c) = (g, m, rc)" "0 \<le> g" "0 \<le> rc" "rc < m" "g * ?small + rc = ?c"
      "g * ?small + m \<le> n" "g < ?k" "m = (if g = ?k - 1 then n - (?k - 1) * ?small else ?small)" "0 < ?small"
    by (rule tw_group_server [OF assms(3,4) c n(2)])
  let ?r = "((?y - g * ?small * ?R) div twod_strip_size dparam) mod m"
  have r: "0 \<le> ?r" "?r < m" using gr(3,4) by simp_all
  have mine: "tw_mine (dparam, ?srv s) x \<longleftrightarrow> s = g * ?small + ?r" if s: "0 \<le> s" "s < n" for s
  proof -
    obtain g' m' r' where gs: "tw_group ?k ?small (?srv s) = (g', m', r')" "0 \<le> g'" "0 \<le> r'" "r' < m'" "g' * ?small + r' = s"
        "g' < ?k" "m' = (if g' = ?k - 1 then n - (?k - 1) * ?small else ?small)"
      by (rule tw_group_server [OF assms(3,4) s n(2)])
    have eq: "tw_mine (dparam, ?srv s) x \<longleftrightarrow> g' * ?small \<le> ?c \<and> ?c < g' * ?small + m' \<and>
        ((?y - g' * ?small * ?R) div twod_strip_size dparam) mod m' = r'"
      using tw_mine_slot [OF valid [OF s], of g' m' r' x] gs(1) by (simp add: tw_global_def)
    show ?thesis
    proof
      assume "tw_mine (dparam, ?srv s) x"
      with eq have in': "g' * ?small \<le> ?c" "?c < g' * ?small + m'" and r': "((?y - g' * ?small * ?R) div twod_strip_size dparam) mod m' = r'"
        by simp_all
      have "tw_group ?k ?small (?srv (g' * ?small + (?c - g' * ?small))) = (g', m', ?c - g' * ?small)"
        unfolding gs(7) by (rule tw_group_unique [OF assms(3,4) n(2) gs(2,6)]) (use in' gs(7) in auto)
      then have "g' = g" "m' = m" using gr(1) by simp_all
      then show "s = g * ?small + ?r" using gs(5) r' by simp
    next
      assume s: "s = g * ?small + ?r"
      have "tw_group ?k ?small (?srv (g * ?small + ?r)) = (g, m, ?r)"
        unfolding gr(8) by (rule tw_group_unique [OF assms(3,4) n(2) gr(2,7)]) (use r gr(8) in auto)
      from trans [OF gs(1) [symmetric, unfolded s] this] have "g' = g" "m' = m" "r' = ?r"
        by (simp_all only: prod.inject)
      then show "tw_mine (dparam, ?srv s) x" unfolding eq using gr(3-5) by simp
    qed
  qed
  have "0 \<le> g * ?small + ?r" "g * ?small + ?r < n" using r gr(2,6,9) by simp_all
  then show ?thesis using mine by (intro ex1I [of _ "g * ?small + ?r"]) auto
qed

section \<open>Properties\<close>

lemma tw_sum_sizes_sum: "tw_sum_sizes a ps = a + sum_list ps"
  by (induction ps arbitrary: a) auto

text \<open>
  C9. Under the two-dimensional stripe distribution every byte of a file is stored exactly once:
  when there are not more groups than servers, each logical offset is the image of exactly one
  pair of a server and a physical offset on it.
\<close>

theorem tw_stored_once:
  assumes "0 < twod_strip_size dparam" "0 < group_strip_factor dparam" "0 < num_groups dparam" "num_groups dparam \<le> n"
    "n * group_strip_factor dparam < 2 ^ 32" "0 \<le> x"
  shows "\<exists>!(s, p). 0 \<le> s \<and> s < n \<and> 0 \<le> p \<and>
    tw_physical_to_logical_offset dparam \<lparr>fsize = 0, server_nr = s, server_ct = n, extend_flag = False\<rparr> p = x"
proof -
  let ?srv = "\<lambda>s. \<lparr>fsize = 0, server_nr = s, server_ct = n, extend_flag = False\<rparr>"
  let ?p = "\<lambda>s. tw_logical_to_physical_offset dparam (?srv s) x"
  have valid: "tw_valid (dparam, ?srv s)" if "0 \<le> s" "s < n" for s using assms that by (simp add: tw_valid_def)
  obtain s where s: "0 \<le> s" "s < n" "tw_mine (dparam, ?srv s) x"
    and uniq: "\<And>t. 0 \<le> t \<Longrightarrow> t < n \<Longrightarrow> tw_mine (dparam, ?srv t) x \<Longrightarrow> t = s"
    using tw_owner [OF assms(1-5), of x] by blast
  note v = valid [OF s(1,2)]
  show ?thesis
  proof (intro ex1I [of _ "(s, ?p s)"])
    show "case (s, ?p s) of (s, p) \<Rightarrow> 0 \<le> s \<and> s < n \<and> 0 \<le> p \<and> tw_physical_to_logical_offset dparam (?srv s) p = x"
      using twc.image_mine [OF v assms(6) s(3)] twc.l2p_bound [OF v assms(6)] s by simp
    fix tp assume tp: "case tp of (s, p) \<Rightarrow> 0 \<le> s \<and> s < n \<and> 0 \<le> p \<and> tw_physical_to_logical_offset dparam (?srv s) p = x"
    obtain t p where eq: "tp = (t, p)" by (cases tp)
    have vt: "tw_valid (dparam, ?srv t)" "0 \<le> p" using tp eq valid by auto
    have "t = s" using uniq [of t] twc.p2l_mine [OF vt] tp eq by simp
    then show "tp = (s, ?p s)" using twc.l2p_p2l [OF vt] tp eq by auto
  qed
qed

theorem tw_stored_once_witness:
  "\<exists>!(s, p). 0 \<le> s \<and> s < 5 \<and> 0 \<le> p \<and> tw_physical_to_logical_offset
     \<lparr>num_groups = 2, twod_strip_size = 65536, group_strip_factor = 256\<rparr> \<lparr>fsize = 0, server_nr = s, server_ct = 5, extend_flag = False\<rparr> p = 100000000"
  by (rule tw_stored_once) simp_all

text \<open>
  The logical size of a two-dimensional stripe file, computed as the sum of the sizes of the
  data files, is the size of the file when each server holds the bytes that are its own.
\<close>

theorem tw_logical_file_size_roundtrip:
  assumes "0 < twod_strip_size dparam" "0 < group_strip_factor dparam" "0 < num_groups dparam" "num_groups dparam \<le> n"
    "n * group_strip_factor dparam < 2 ^ 32" "0 \<le> L"
  shows "tw_logical_file_size n
    (Some (map (\<lambda>s. tw_logical_to_physical_offset dparam \<lparr>fsize = 0, server_nr = s, server_ct = n, extend_flag = False\<rparr> L) [0..n - 1])) = L"
proof -
  let ?srv = "\<lambda>s. \<lparr>fsize = 0, server_nr = s, server_ct = n, extend_flag = False\<rparr>"
  let ?ps = "map (\<lambda>s. tw_logical_to_physical_offset dparam (?srv s) L) [0..n - 1]"
  have n: "0 < n" using assms by simp
  have iv: "set [0..n - 1] = {0..<n}" by auto
  have "tw_logical_file_size n (Some ?ps) = sum_list ?ps"
    using n by (simp add: tw_logical_file_size_def tw_sum_sizes_sum)
  also have "\<dots> = (\<Sum>s\<in>{0..<n}. tw_logical_to_physical_offset dparam (?srv s) L)"
    unfolding sum_list_distinct_conv_sum_set [OF distinct_upto] iv ..
  also have "\<dots> = (\<Sum>s\<in>{0..<n}. int (card {y. 0 \<le> y \<and> y < L \<and> tw_mine (dparam, ?srv s) y}))"
  proof (rule sum.cong)
    fix s assume "s \<in> {0..<n}"
    then have "tw_valid (dparam, ?srv s)" using assms by (simp add: tw_valid_def)
    from twc.rank [OF this assms(6)]
    show "tw_logical_to_physical_offset dparam (?srv s) L = int (card {y. 0 \<le> y \<and> y < L \<and> tw_mine (dparam, ?srv s) y})"
      by simp
  qed simp
  also have "\<dots> = L" by (rule count_partition [OF tw_owner [OF assms(1-5)] assms(6)])
  finally show ?thesis .
qed

theorem tw_logical_file_size_roundtrip_witness:
  "tw_logical_file_size 5 (Some (map (\<lambda>s. tw_logical_to_physical_offset
     \<lparr>num_groups = 2, twod_strip_size = 4, group_strip_factor = 3\<rparr> \<lparr>fsize = 0, server_nr = s, server_ct = 5, extend_flag = False\<rparr> 77) [0..4])) = 77"
  using tw_logical_file_size_roundtrip [of "\<lparr>num_groups = 2, twod_strip_size = 4, group_strip_factor = 3\<rparr>" 5 77] by simp

text \<open>
  \<open>next_mapped_offset\<close> of the two-dimensional stripe distribution returns the first logical
  offset at or after the given one that the server stores, which is the image of the number of
  bytes the server stores before it. The offset must be below the one where the 32-bit count of
  strips wraps.
\<close>

theorem tw_next_run:
  assumes "tw_valid (dparam, fd)" "0 \<le> x"
    "x < (2 ^ 32 div group_strip_factor dparam - 1) * (server_ct fd * group_strip_factor dparam * twod_strip_size dparam)"
  defines "y \<equiv> tw_next_mapped_offset dparam fd x"
  shows "x \<le> y \<and> (\<exists>p\<ge>0. y = tw_physical_to_logical_offset dparam fd p) \<and>
    (\<forall>p\<ge>0. x \<le> tw_physical_to_logical_offset dparam fd p \<longrightarrow> y \<le> tw_physical_to_logical_offset dparam fd p)"
proof -
  have lin: "tw_lin (dparam, fd) x"
    using assms(3) by (simp add: tw_lin_def tw_stripes_def tw_global_def tw_rows_def mult.assoc)
  have p: "0 \<le> tw_logical_to_physical_offset dparam fd x" using twc.l2p_bound [OF assms(1,2)] by simp
  have "x \<le> y" using tw.next_mine [OF assms(1,2) lin] by (simp add: y_def)
  moreover have "y = tw_physical_to_logical_offset dparam fd (tw_logical_to_physical_offset dparam fd x)"
    unfolding y_def by (rule tw_next_eq [OF assms(1,2) lin])
  moreover have "y \<le> tw_physical_to_logical_offset dparam fd q" if "0 \<le> q" "x \<le> tw_physical_to_logical_offset dparam fd q" for q
    using tw.next_least [OF assms(1,2) lin that(2)] twc.p2l_mine [OF assms(1) that(1)] by (simp add: y_def)
  ultimately show ?thesis using p by blast
qed

theorem tw_next_run_witness:
  "9 \<le> tw_next_mapped_offset \<lparr>num_groups = 2, twod_strip_size = 4, group_strip_factor = 3\<rparr> \<lparr>fsize = 0, server_nr = 1, server_ct = 5, extend_flag = False\<rparr> 9"
  using tw_next_run [of "\<lparr>num_groups = 2, twod_strip_size = 4, group_strip_factor = 3\<rparr>" "\<lparr>fsize = 0, server_nr = 1, server_ct = 5, extend_flag = False\<rparr>" 9]
  by (simp add: tw_valid_def)

text \<open>
  With more groups than servers the two mappings disagree: \<open>physical_to_logical_offset\<close> divides
  the number of servers by the number of groups before that number is limited, so that the group
  size is zero and all servers form one group, while \<open>logical_to_physical_offset\<close> makes every
  server a group.
\<close>

theorem tw_many_groups_disagree:
  "tw_logical_to_physical_offset \<lparr>num_groups = 3, twod_strip_size = 1, group_strip_factor = 2\<rparr>
     \<lparr>fsize = 0, server_nr = 0, server_ct = 2, extend_flag = False\<rparr>
     (tw_physical_to_logical_offset \<lparr>num_groups = 3, twod_strip_size = 1, group_strip_factor = 2\<rparr>
        \<lparr>fsize = 0, server_nr = 0, server_ct = 2, extend_flag = False\<rparr> 1) \<noteq> 1"
  by code_simp

text \<open>A number of groups that is a positive multiple of \<open>2 ^ 32\<close> is accepted and stored as zero.\<close>

theorem tw_set_param_truncates:
  "tw_set_param dparam ''num_groups'' (2 ^ 32) = (dparam\<lparr>num_groups := 0\<rparr>, 0)"
  by (simp add: tw_set_param_def)

end
