(* ===== verification/Dist_Varstrip_Parser.thy ===== *)
theory Dist_Varstrip_Parser
  imports Dist_Interface C_Strings
begin

text \<open>
  The parser of the variable strip distribution, \<open>src/io/description/dist-varstrip-parser.c\<close>:
  a string \<open>server:size;server:size;...\<close> becomes the array of the strips of one stripe.

  \<open>None\<close> is an access outside of the allocated array; \<open>Some (Inl _)\<close> is the return value
  \<open>-1\<close> and \<open>Some (Inr _)\<close> the array with the return value 0. The lemmas show that the strips of
  an accepted string lie next to each other from offset 0 and are not empty, and that printing
  strips and parsing the string gives the strips back.
\<close>

section \<open>Operations\<close>

record PINT_dist_strips =
  s_server_nr :: int
  s_offset :: PVFS_offset
  s_size :: PVFS_size

definition PVFS_DIST_VARSTRIP_MAX_STRIPS_STRING_LENGTH :: nat where
  "PVFS_DIST_VARSTRIP_MAX_STRIPS_STRING_LENGTH = 1025"

text \<open>The result of one element: what the return values 1, -1 and 0 stand for.\<close>

datatype strips_elem = Strips_End | Strips_Error | Strips_Elem int PVFS_offset PVFS_size string

definition size_unit :: "string \<Rightarrow> PVFS_size" where
  "size_unit t =
     (if length t > 1 then
        let c = last t
        in if c = CHR ''k'' \<or> c = CHR ''K'' then 1024
           else if c = CHR ''m'' \<or> c = CHR ''M'' then 1024 * 1024
           else if c = CHR ''g'' \<or> c = CHR ''G'' then 1024 * 1024 * 1024 else 1
      else 1)"

text \<open>
  \<open>prev\<close> is the offset and size of the previous strip, if there is one; \<open>inp\<close> is the whole
  input for the first element and what the save pointer points to afterwards. The second
  component tells whether the server number was stored.
\<close>

definition strips_parse_elem :: "string \<Rightarrow> (PVFS_offset \<times> PVFS_size) option \<Rightarrow> strips_elem \<times> bool" where
  "strips_parse_elem inp prev =
     (case strtok_r inp CHR '':'' of
        (None, _) \<Rightarrow> (Strips_End, False)
      | (Some s_server, saveptr) \<Rightarrow>
          let i_server = uint32 (atoi s_server);
              offset = (case prev of Some (prev_offset, prev_size) \<Rightarrow> prev_offset + prev_size | None \<Rightarrow> 0)
          in (case strtok_r saveptr CHR '';'' of
                (None, _) \<Rightarrow> (Strips_Error, True)
              | (Some t_size, saveptr) \<Rightarrow>
                  let i_size = atoll t_size
                  in if i_size > 0 then (Strips_Elem i_server offset (i_size * size_unit t_size) saveptr, True)
                     else (Strips_Error, True)))"

text \<open>The number of elements for which memory is allocated; no memory for 0.\<close>

definition strips_alloc_mem :: "string \<Rightarrow> nat option" where
  "strips_alloc_mem inp =
     (let count = length (filter (\<lambda>c. c = CHR '':'') inp)
      in if count = 0 then None else Some count)"

lemma strtok_r_shorter: "strtok_r cs d = (Some t, rest) \<Longrightarrow> length rest < length cs"
proof -
  assume a: "strtok_r cs d = (Some t, rest)"
  let ?r = "dropWhile (\<lambda>c. c = d) cs"
  have r: "?r \<noteq> []" "rest = drop 1 (dropWhile (\<lambda>c. c \<noteq> d) ?r)" using a by (auto simp: strtok_r_def Let_def split: if_splits)
  have "length (dropWhile (\<lambda>c. c \<noteq> d) ?r) \<le> length ?r" "length ?r \<le> length cs" by (simp_all add: length_dropWhile_le)
  moreover have "0 < length ?r" "length rest = length (dropWhile (\<lambda>c. c \<noteq> d) ?r) - 1" using r by simp_all
  ultimately show ?thesis by linarith
qed

lemma strips_parse_elem_shorter:
  assumes "strips_parse_elem inp prev = (Strips_Elem nr off sz rest, stored)"
  shows "length rest < length inp"
proof -
  obtain t r1 where t: "strtok_r inp CHR '':'' = (Some t, r1)"
    using assms by (auto simp: strips_parse_elem_def split: prod.splits option.splits)
  obtain u r2 where u: "strtok_r r1 CHR '';'' = (Some u, r2)"
    using assms t by (auto simp: strips_parse_elem_def Let_def split: prod.splits option.splits)
  have "rest = r2" using assms t u by (auto simp: strips_parse_elem_def Let_def split: if_splits)
  then show ?thesis using strtok_r_shorter [OF t] strtok_r_shorter [OF u] by simp
qed

text \<open>
  The loop over the elements, with the strips stored so far. Storing an element beyond the
  \<open>count\<close> allocated ones is an access outside of the array.
\<close>

function strips_loop :: "nat \<Rightarrow> string \<Rightarrow> PINT_dist_strips list \<Rightarrow> (unit + PINT_dist_strips list) option" where
  "strips_loop count inp strips =
     (let prev = (if strips = [] then None else Some (s_offset (last strips), s_size (last strips)))
      in case strips_parse_elem inp prev of
           (res, stored) \<Rightarrow>
             if stored \<and> count \<le> length strips then None
             else (case res of
                     Strips_Elem nr off sz rest \<Rightarrow>
                       strips_loop count rest (strips @ [\<lparr>s_server_nr = nr, s_offset = off, s_size = sz\<rparr>])
                   | Strips_Error \<Rightarrow> Some (Inl ())
                   | Strips_End \<Rightarrow> if strips = [] then Some (Inl ()) else Some (Inr strips)))"
  by pat_completeness auto
termination
  by (relation "measure (\<lambda>(_, inp, _). length inp)")
    (auto dest: strips_parse_elem_shorter sym)

declare strips_loop.simps [simp del]

text \<open>\<open>input\<close> may be NULL.\<close>

definition PINT_dist_strips_parse :: "string option \<Rightarrow> (unit + PINT_dist_strips list) option" where
  "PINT_dist_strips_parse input =
     (case input of
        None \<Rightarrow> Some (Inl ())
      | Some inp \<Rightarrow>
          if inp = [] then Some (Inl ())
          else if length inp < PVFS_DIST_VARSTRIP_MAX_STRIPS_STRING_LENGTH - 1 then
            (case strips_alloc_mem inp of
               None \<Rightarrow> Some (Inl ())
             | Some count \<Rightarrow> strips_loop count inp [])
          else Some (Inl ()))"

section \<open>The layout of the strips\<close>

fun laid_out :: "int \<Rightarrow> PINT_dist_strips list \<Rightarrow> bool" where
  "laid_out o1 [] = True"
| "laid_out o1 (s # ss) = (s_offset s = o1 \<and> 0 < s_size s \<and> 0 \<le> s_server_nr s \<and> s_server_nr s < 2 ^ 32 \<and>
     laid_out (o1 + s_size s) ss)"

definition total_size :: "PINT_dist_strips list \<Rightarrow> int" where
  "total_size ss = sum_list (map s_size ss)"

lemma laid_out_append: "laid_out o1 (xs @ ys) \<longleftrightarrow> laid_out o1 xs \<and> laid_out (o1 + total_size xs) ys"
  by (induction xs arbitrary: o1) (auto simp: total_size_def algebra_simps)

lemma laid_out_last:
  "laid_out o1 xs \<Longrightarrow> xs \<noteq> [] \<Longrightarrow> s_offset (last xs) + s_size (last xs) = o1 + total_size xs"
  by (induction xs arbitrary: o1) (auto simp: total_size_def)

lemma strips_parse_elem_spec:
  assumes "strips_parse_elem inp prev = (Strips_Elem nr off sz rest, stored)"
  shows "0 \<le> nr" "nr < 2 ^ 32" "0 < sz" "off = (case prev of Some (o1, s1) \<Rightarrow> o1 + s1 | None \<Rightarrow> 0)"
  using assms by (auto simp: strips_parse_elem_def Let_def size_unit_def split: prod.splits option.splits if_splits)

lemma strips_loop_laid_out:
  "strips_loop count inp strips = Some (Inr ss) \<Longrightarrow> laid_out 0 strips \<Longrightarrow> laid_out 0 ss \<and> ss \<noteq> []"
proof (induction count inp strips rule: strips_loop.induct)
  case (1 count inp strips)
  let ?prev = "if strips = [] then None else Some (s_offset (last strips), s_size (last strips))"
  obtain res stored where pe: "strips_parse_elem inp ?prev = (res, stored)" by (cases "strips_parse_elem inp ?prev")
  have run: "strips_loop count inp strips =
      (if stored \<and> count \<le> length strips then None
       else (case res of
               Strips_Elem nr off sz rest \<Rightarrow> strips_loop count rest (strips @ [\<lparr>s_server_nr = nr, s_offset = off, s_size = sz\<rparr>])
             | Strips_Error \<Rightarrow> Some (Inl ())
             | Strips_End \<Rightarrow> if strips = [] then Some (Inl ()) else Some (Inr strips)))"
    by (subst strips_loop.simps) (simp add: pe)
  have free: "\<not> (stored \<and> count \<le> length strips)" using run 1(2) by auto
  show ?case
  proof (cases res)
    case (Strips_Elem nr off sz rest)
    have "off = total_size strips"
      using strips_parse_elem_spec(4) [OF pe [unfolded Strips_Elem]] laid_out_last [OF 1(3)]
      by (auto simp: total_size_def split: if_splits)
    then have "laid_out 0 (strips @ [\<lparr>s_server_nr = nr, s_offset = off, s_size = sz\<rparr>])"
      using strips_parse_elem_spec(1-3) [OF pe [unfolded Strips_Elem]] 1(3) by (simp add: laid_out_append)
    moreover have "strips_loop count rest (strips @ [\<lparr>s_server_nr = nr, s_offset = off, s_size = sz\<rparr>]) = Some (Inr ss)"
      using run 1(2) free Strips_Elem by simp
    ultimately show ?thesis using 1(1) [OF refl pe [symmetric] free Strips_Elem] by simp
  qed (use run 1(2,3) free in \<open>auto split: if_splits\<close>)
qed

section \<open>Printing and parsing\<close>

definition print_strips :: "PINT_dist_strips list \<Rightarrow> string" where
  "print_strips ss =
     concat (map (\<lambda>s. decimal (nat (s_server_nr s)) @ '':'' @ decimal (nat (s_size s)) @ '';'') ss)"

lemma strtok_r_token:
  assumes "t \<noteq> []" "d \<notin> set t"
  shows "strtok_r (t @ d # rest) d = (Some t, rest)"
proof -
  have "hd t \<noteq> d" using assms hd_in_set by metis
  then have "dropWhile (\<lambda>c. c = d) (t @ d # rest) = t @ d # rest" using assms(1) by (cases t) auto
  moreover have "takeWhile (\<lambda>c. c \<noteq> d) (t @ d # rest) = t" "dropWhile (\<lambda>c. c \<noteq> d) (t @ d # rest) = d # rest"
    using assms(2) by (induction t) auto
  ultimately show ?thesis by (simp add: strtok_r_def)
qed

lemma decimal_no_delim: "CHR '':'' \<notin> set (decimal n)" "CHR '';'' \<notin> set (decimal n)"
proof -
  have "c \<notin> set (decimal n)" if "\<And>d. d < 10 \<Longrightarrow> digit_char d \<noteq> c" for c using decimal_digits [of c n] that by auto
  then show "CHR '':'' \<notin> set (decimal n)" "CHR '';'' \<notin> set (decimal n)" by simp_all
qed

lemma size_unit_decimal: "size_unit (decimal n) = 1"
proof -
  obtain d where "d < 10" "last (decimal n) = digit_char d" using decimal_digits [of "last (decimal n)" n] by auto
  moreover have "digit_char d \<noteq> c" if "57 < (of_char c :: nat)" "d < 10" for c using that by (simp add: digit_char_eq)
  ultimately show ?thesis by (simp add: size_unit_def Let_def)
qed

lemma strips_parse_elem_print:
  assumes "0 \<le> nr" "nr < 2 ^ 31" "0 < sz" "sz < 2 ^ 63"
  shows "strips_parse_elem (decimal (nat nr) @ '':'' @ decimal (nat sz) @ '';'' @ rest) prev =
    (Strips_Elem nr (case prev of Some (o1, s1) \<Rightarrow> o1 + s1 | None \<Rightarrow> 0) sz rest, True)"
proof -
  have "strtok_r (decimal (nat nr) @ CHR '':'' # decimal (nat sz) @ CHR '';'' # rest) CHR '':'' =
      (Some (decimal (nat nr)), decimal (nat sz) @ CHR '';'' # rest)"
    "strtok_r (decimal (nat sz) @ CHR '';'' # rest) CHR '';'' = (Some (decimal (nat sz)), rest)"
    by (simp_all add: strtok_r_token decimal_no_delim)
  moreover have "nat nr < 2 ^ 31" "nat sz < 2 ^ 63" using assms by (simp_all add: nat_less_iff)
  then have "atoi (decimal (nat nr)) = nr" "atoll (decimal (nat sz)) = sz"
    using atoi_decimal [of "[]" "nat nr"] atoll_decimal [of "[]" "nat sz"] assms by (simp_all add: ends_number_def)
  moreover have "uint32 nr = nr" using assms by simp
  ultimately show ?thesis using assms(3) by (simp add: strips_parse_elem_def size_unit_decimal)
qed

lemma strips_loop_print:
  assumes "laid_out 0 (strips @ ss)" "strips @ ss \<noteq> []" "length (strips @ ss) \<le> count"
    "\<forall>s \<in> set ss. s_server_nr s < 2 ^ 31 \<and> s_size s < 2 ^ 63"
  shows "strips_loop count (print_strips ss) strips = Some (Inr (strips @ ss))"
  using assms
proof (induction ss arbitrary: strips)
  case Nil
  have "strips_parse_elem [] prev = (Strips_End, False)" for prev by (simp add: strips_parse_elem_def strtok_r_def)
  then show ?case using Nil by (subst strips_loop.simps) (simp add: print_strips_def)
next
  case (Cons s ss)
  let ?prev = "if strips = [] then None else Some (s_offset (last strips), s_size (last strips))"
  have s: "0 \<le> s_server_nr s" "0 < s_size s" "s_offset s = total_size strips" "laid_out 0 strips"
    using Cons.prems(1) by (auto simp: laid_out_append)
  have off: "(case ?prev of Some (o1, s1) \<Rightarrow> o1 + s1 | None \<Rightarrow> 0) = s_offset s"
    using laid_out_last [OF s(4)] s(3) by (auto simp: total_size_def)
  have "strips_parse_elem (print_strips (s # ss)) ?prev =
      (Strips_Elem (s_server_nr s) (s_offset s) (s_size s) (print_strips ss), True)"
    using strips_parse_elem_print [OF s(1) _ s(2), of "print_strips ss" ?prev] Cons.prems(4) off
    by (simp add: print_strips_def)
  moreover have eta: "\<lparr>s_server_nr = s_server_nr s, s_offset = s_offset s, s_size = s_size s\<rparr> = s" by (cases s) simp
  ultimately have "strips_loop count (print_strips (s # ss)) strips = strips_loop count (print_strips ss) (strips @ [s])"
    using Cons.prems(3) by (subst strips_loop.simps) (simp add: eta)
  also have "\<dots> = Some (Inr (strips @ s # ss))" using Cons.IH [of "strips @ [s]"] Cons.prems by simp
  finally show ?case .
qed

lemma print_strips_colons: "length (filter (\<lambda>c. c = CHR '':'') (print_strips ss)) = length ss"
proof -
  have no: "filter (\<lambda>c. c = CHR '':'') (decimal n) = []" for n using decimal_no_delim(1) [of n] by (auto simp: filter_empty_conv)
  show ?thesis by (induction ss) (simp_all add: print_strips_def no)
qed

section \<open>Properties\<close>

text \<open>
  The strips of every accepted parameter string are the pieces of one stripe: there is at
  least one, the first starts at offset 0, each starts where the one before ends, no strip is
  empty, and the server numbers have 32 bits.
\<close>

theorem strips_parse_layout:
  assumes "PINT_dist_strips_parse input = Some (Inr ss)"
  shows "ss \<noteq> [] \<and> laid_out 0 ss"
  using assms strips_loop_laid_out [of _ _ "[]" ss]
  by (auto simp: PINT_dist_strips_parse_def split: option.splits if_splits)

text \<open>
  C26. Printing a stripe as a parameter string and parsing it gives the same strips, for server
  numbers that fit in an \<open>int\<close>, sizes that fit in 64 bits and a string that fits in the buffer.
\<close>

theorem strips_print_parse:
  assumes "laid_out 0 ss" "ss \<noteq> []" "\<forall>s \<in> set ss. s_server_nr s < 2 ^ 31 \<and> s_size s < 2 ^ 63"
    "length (print_strips ss) < 1024"
  shows "PINT_dist_strips_parse (Some (print_strips ss)) = Some (Inr ss)"
proof -
  have "print_strips ss \<noteq> []" "strips_alloc_mem (print_strips ss) = Some (length ss)"
    using assms(2) print_strips_colons [of ss] by (auto simp: strips_alloc_mem_def)
  then show ?thesis
    using assms strips_loop_print [of "[]" ss "length ss"]
    by (simp add: PINT_dist_strips_parse_def PVFS_DIST_VARSTRIP_MAX_STRIPS_STRING_LENGTH_def)
qed

definition ex_strips :: "PINT_dist_strips list" where
  "ex_strips =
     [\<lparr>s_server_nr = 0, s_offset = 0, s_size = 512\<rparr>, \<lparr>s_server_nr = 1, s_offset = 512, s_size = 100\<rparr>,
      \<lparr>s_server_nr = 0, s_offset = 612, s_size = 30\<rparr>]"

lemma ex_strips_print: "print_strips ex_strips = ''0:512;1:100;0:30;''"
  by code_simp

theorem strips_parse_layout_witness:
  "PINT_dist_strips_parse (Some ''0:512;1:100;0:30;'') = Some (Inr ex_strips) \<and> ex_strips \<noteq> [] \<and> laid_out 0 ex_strips"
proof -
  have "PINT_dist_strips_parse (Some ''0:512;1:100;0:30;'') = Some (Inr ex_strips)" by code_simp
  with strips_parse_layout [OF this] show ?thesis by simp
qed

theorem strips_print_parse_witness:
  "PINT_dist_strips_parse (Some ''0:512;1:100;0:30;'') = Some (Inr ex_strips)"
  using strips_print_parse [of ex_strips] unfolding ex_strips_print by (simp add: ex_strips_def)

text \<open>
  A last element without a size makes the parser write behind the array: the array has one
  element for each colon, and the server number of the element is stored before its size is
  looked for.
\<close>

theorem strips_parse_overrun:
  "PINT_dist_strips_parse (Some ''1:5;2'') = None"
  by code_simp

end
