(* ===== verification/Dist_Varstrip.thy ===== *)
theory Dist_Varstrip
  imports Dist_Varstrip_Parser
begin

text \<open>
  The variable strip distribution, \<open>src/io/description/dist-varstrip.c\<close>: the parameter string
  lists the strips of one stripe with their servers and sizes, and the file is a sequence of such
  stripes. The static C functions carry the prefix \<open>vs_\<close> here.

  Every function parses the parameter string; the part after that is a function of the strips,
  with the suffix \<open>_in\<close>. \<open>None\<close> is a division by zero or an access outside of an array.
\<close>

section \<open>Operations\<close>

type_synonym vs_params = string

definition vs_stripe_size :: "PINT_dist_strips list \<Rightarrow> PVFS_size" where
  "vs_stripe_size strips = s_offset (last strips) + s_size (last strips)"

text \<open>The sizes of all strips of the server and of those before the strip \<open>ii\<close>.\<close>

fun vs_my_sizes :: "int \<Rightarrow> nat \<Rightarrow> nat \<Rightarrow> PINT_dist_strips list \<Rightarrow> PVFS_size \<times> PVFS_size \<Rightarrow> PVFS_size \<times> PVFS_size" where
  "vs_my_sizes nr ii jj [] sizes = sizes"
| "vs_my_sizes nr ii jj (s # ss) (all, before) =
     vs_my_sizes nr ii (jj + 1) ss
       (if s_server_nr s = nr then (all + s_size s, if jj < ii then before + s_size s else before) else (all, before))"

fun vs_search_mine :: "PINT_dist_strips list \<Rightarrow> int \<Rightarrow> int \<Rightarrow> PVFS_size \<Rightarrow> PVFS_offset \<Rightarrow> nat \<Rightarrow> PINT_dist_strips list
    \<Rightarrow> PVFS_offset" where
  "vs_search_mine strips nr stripe_nr stripe_size logical_offset ii [] = 0"
| "vs_search_mine strips nr stripe_nr stripe_size logical_offset ii (s # ss) =
     (if s_server_nr s = nr \<and> logical_offset \<ge> stripe_nr * stripe_size + s_offset s \<and>
         logical_offset \<le> stripe_nr * stripe_size + s_offset s + s_size s - 1
      then
        let (all, before) = vs_my_sizes nr ii 0 strips (0, 0);
            offset_in_strips = logical_offset - stripe_nr * stripe_size - s_offset s
        in stripe_nr * all + before + offset_in_strips
      else vs_search_mine strips nr stripe_nr stripe_size logical_offset (ii + 1) ss)"

definition vs_l2p_in :: "PINT_dist_strips list \<Rightarrow> int \<Rightarrow> PVFS_offset \<Rightarrow> PVFS_offset" where
  "vs_l2p_in strips nr logical_offset =
     (let stripe_size = vs_stripe_size strips;
          stripe_nr = uint32 (logical_offset sdiv stripe_size)
      in vs_search_mine strips nr stripe_nr stripe_size logical_offset 0 strips)"

fun vs_size_of_mine :: "int \<Rightarrow> PVFS_size \<Rightarrow> PINT_dist_strips list \<Rightarrow> PVFS_size" where
  "vs_size_of_mine nr sz [] = sz"
| "vs_size_of_mine nr sz (s # ss) = vs_size_of_mine nr (if s_server_nr s = nr then sz + s_size s else sz) ss"

fun vs_find_physical :: "int \<Rightarrow> PVFS_offset \<Rightarrow> PVFS_offset \<Rightarrow> PVFS_offset \<Rightarrow> PINT_dist_strips list \<Rightarrow> PVFS_offset" where
  "vs_find_physical nr base physical_in_stripe offset_in_stripe [] = - 1"
| "vs_find_physical nr base physical_in_stripe offset_in_stripe (s # ss) =
     (if s_server_nr s = nr then
        if physical_in_stripe < offset_in_stripe + s_size s
        then base + s_offset s + (physical_in_stripe - offset_in_stripe)
        else vs_find_physical nr base physical_in_stripe (offset_in_stripe + s_size s) ss
      else vs_find_physical nr base physical_in_stripe offset_in_stripe ss)"

definition vs_p2l_in :: "PINT_dist_strips list \<Rightarrow> int \<Rightarrow> PVFS_offset \<Rightarrow> PVFS_offset option" where
  "vs_p2l_in strips nr physical_offset =
     (let size_of_strips = vs_size_of_mine nr 0 strips
      in if size_of_strips = 0 then None
         else
           let stripe_nr = uint32 (physical_offset sdiv size_of_strips);
               physical_in_stripe = physical_offset - stripe_nr * size_of_strips
           in Some (vs_find_physical nr (stripe_nr * vs_stripe_size strips) physical_in_stripe 0 strips))"

text \<open>The index of the strip that holds an offset of the stripe; the number of strips if there is none.\<close>

fun vs_strip_of :: "PVFS_offset \<Rightarrow> nat \<Rightarrow> PINT_dist_strips list \<Rightarrow> nat" where
  "vs_strip_of offset_in_stripe ii [] = ii"
| "vs_strip_of offset_in_stripe ii (s # ss) =
     (if offset_in_stripe \<ge> s_offset s \<and> offset_in_stripe \<le> s_offset s + s_size s - 1 then ii
      else vs_strip_of offset_in_stripe (ii + 1) ss)"

fun vs_first_mine :: "int \<Rightarrow> PINT_dist_strips list \<Rightarrow> PVFS_offset option" where
  "vs_first_mine nr [] = None"
| "vs_first_mine nr (s # ss) = (if s_server_nr s = nr then Some (s_offset s) else vs_first_mine nr ss)"

definition vs_next_in :: "PINT_dist_strips list \<Rightarrow> int \<Rightarrow> PVFS_offset \<Rightarrow> PVFS_offset option" where
  "vs_next_in strips nr logical_offset =
     (let stripe_size = vs_stripe_size strips;
          stripe_nr = uint32 (logical_offset sdiv stripe_size);
          offset_in_stripe = logical_offset - stripe_nr * stripe_size;
          ii = vs_strip_of offset_in_stripe 0 strips
      in if length strips \<le> ii then None
         else if s_server_nr (strips ! ii) = nr then Some logical_offset
         else (case vs_first_mine nr (drop (ii + 1) strips) of
                 Some off \<Rightarrow> Some (stripe_nr * stripe_size + off)
               | None \<Rightarrow>
                   (case vs_first_mine nr strips of
                      Some off \<Rightarrow> Some (uint32 (stripe_nr + 1) * stripe_size + off)
                    | None \<Rightarrow> Some (- 1))))"

fun vs_run_length :: "PVFS_offset \<Rightarrow> PINT_dist_strips list \<Rightarrow> PVFS_size" where
  "vs_run_length offset_in_stripe [] = 0"
| "vs_run_length offset_in_stripe (s # ss) =
     (if offset_in_stripe \<ge> s_offset s \<and> offset_in_stripe \<le> s_offset s + s_size s - 1
      then s_offset s + s_size s - offset_in_stripe
      else vs_run_length offset_in_stripe ss)"

definition vs_contig_in :: "PINT_dist_strips list \<Rightarrow> PVFS_offset \<Rightarrow> PVFS_size" where
  "vs_contig_in strips logical_offset =
     (let stripe_size = vs_stripe_size strips;
          stripe_nr = uint32 (logical_offset sdiv stripe_size);
          offset_in_stripe = logical_offset - stripe_nr * stripe_size
      in vs_run_length offset_in_stripe strips)"

text \<open>The functions of the distribution.\<close>

definition vs_parsed :: "vs_params \<Rightarrow> (PINT_dist_strips list \<Rightarrow> int option) \<Rightarrow> int option" where
  "vs_parsed params f =
     (case PINT_dist_strips_parse (Some params) of
        None \<Rightarrow> None
      | Some (Inl _) \<Rightarrow> Some (- 1)
      | Some (Inr strips) \<Rightarrow> f strips)"

definition vs_logical_to_physical_offset :: "vs_params \<Rightarrow> PINT_request_file_data \<Rightarrow> PVFS_offset \<Rightarrow> PVFS_offset option" where
  "vs_logical_to_physical_offset params fd logical_offset =
     vs_parsed params (\<lambda>strips. Some (vs_l2p_in strips (server_nr fd) logical_offset))"

definition vs_physical_to_logical_offset :: "vs_params \<Rightarrow> PINT_request_file_data \<Rightarrow> PVFS_offset \<Rightarrow> PVFS_offset option" where
  "vs_physical_to_logical_offset params fd physical_offset =
     vs_parsed params (\<lambda>strips. vs_p2l_in strips (server_nr fd) physical_offset)"

definition vs_next_mapped_offset :: "vs_params \<Rightarrow> PINT_request_file_data \<Rightarrow> PVFS_offset \<Rightarrow> PVFS_offset option" where
  "vs_next_mapped_offset params fd logical_offset =
     vs_parsed params (\<lambda>strips. vs_next_in strips (server_nr fd) logical_offset)"

definition vs_contiguous_length :: "vs_params \<Rightarrow> PINT_request_file_data \<Rightarrow> PVFS_offset \<Rightarrow> PVFS_size option" where
  "vs_contiguous_length params fd physical_offset =
     (case vs_physical_to_logical_offset params fd physical_offset of
        None \<Rightarrow> None
      | Some logical_offset \<Rightarrow> vs_parsed params (\<lambda>strips. Some (vs_contig_in strips logical_offset)))"

text \<open>\<open>psizes\<close> may be NULL; otherwise it holds a size for each server.\<close>

definition vs_logical_file_size :: "int \<Rightarrow> PVFS_size list option \<Rightarrow> PVFS_size" where
  "vs_logical_file_size ct psizes =
     (case psizes of None \<Rightarrow> - 1 | Some ps \<Rightarrow> foldl (\<lambda>sz p. sz + p) 0 (take (nat ct) ps))"

definition vs_highest :: "PINT_dist_strips list \<Rightarrow> int" where
  "vs_highest strips = foldl (\<lambda>hi s. if s_server_nr s > hi then s_server_nr s else hi) 0 strips"

fun vs_all_found :: "PINT_dist_strips list \<Rightarrow> nat \<Rightarrow> bool" where
  "vs_all_found strips 0 = True"
| "vs_all_found strips (Suc k) =
     (vs_all_found strips k \<and> list_ex (\<lambda>s. s_server_nr s = int k) strips)"

definition vs_get_num_dfiles :: "vs_params \<Rightarrow> int \<Rightarrow> int \<Rightarrow> int option" where
  "vs_get_num_dfiles params num_servers_requested num_dfiles_requested =
     vs_parsed params (\<lambda>strips.
       let highest = vs_highest strips
       in if \<not> vs_all_found strips (nat highest) then Some (- 1)
          else
            let highest = uint32 (highest + 1)
            in if highest > num_servers_requested then Some (- 1)
               else Some (sint (word_of_int highest :: 32 word)))"

text \<open>
  The value is copied with its terminator to a buffer of
  \<open>PVFS_DIST_VARSTRIP_MAX_STRIPS_STRING_LENGTH\<close> bytes; \<open>None\<close> is a write behind its end.
\<close>

definition vs_set_param :: "vs_params \<Rightarrow> string \<Rightarrow> string \<Rightarrow> (vs_params \<times> int) option" where
  "vs_set_param params param_name v =
     (if param_name = ''strips'' then
        if length v = 0 then Some (params, 0)
        else if length v > PVFS_DIST_VARSTRIP_MAX_STRIPS_STRING_LENGTH then Some (params, 0)
        else if length v + 1 > PVFS_DIST_VARSTRIP_MAX_STRIPS_STRING_LENGTH then None
        else Some (v, 0)
      else Some (params, 0))"

definition vs_get_blksize :: "vs_params \<Rightarrow> int \<Rightarrow> PVFS_size option" where
  "vs_get_blksize params dfile_count = vs_parsed params (\<lambda>strips. Some (s_size (hd strips)))"

end
