(* ===== verification/Dist_Varstrip_Contract.thy ===== *)
theory Dist_Varstrip_Contract
  imports Dist_Varstrip
begin

text \<open>
  The contract of the variable strip distribution. The bytes of a server are counted strip by
  strip; the mappings of the code are that count and its inverse as long as the 32-bit number of
  the stripe does not wrap, and \<open>next_mapped_offset\<close> is the inverse of the count.
\<close>

section \<open>Strips of a server\<close>

definition my_size :: "int \<Rightarrow> PINT_dist_strips list \<Rightarrow> int" where
  "my_size nr ss = sum_list (map s_size (filter (\<lambda>s. s_server_nr s = nr) ss))"

lemma my_size_simps [simp]:
  "my_size nr [] = 0"
  "my_size nr (s # ss) = (if s_server_nr s = nr then s_size s else 0) + my_size nr ss"
  "my_size nr (xs @ ys) = my_size nr xs + my_size nr ys"
  by (simp_all add: my_size_def)

lemma total_size_simps [simp]:
  "total_size [] = 0" "total_size (s # ss) = s_size s + total_size ss" "total_size (xs @ ys) = total_size xs + total_size ys"
  by (simp_all add: total_size_def)

lemma vs_size_of_mine_eq [simp]: "vs_size_of_mine nr sz ss = sz + my_size nr ss"
  by (induction ss arbitrary: sz) auto

lemma vs_my_sizes_eq [simp]:
  "vs_my_sizes nr ii jj ss (a, b) = (a + my_size nr ss, b + my_size nr (take (ii - jj) ss))"
proof (induction ss arbitrary: jj a b)
  case (Cons s ss)
  then show ?case by (cases "ii - jj") (auto simp: diff_Suc split: nat.splits)
qed simp

lemma laid_out_nonneg: "laid_out o1 ss \<Longrightarrow> 0 \<le> my_size nr ss \<and> my_size nr ss \<le> total_size ss"
  by (induction ss arbitrary: o1) force+

lemma laid_out_bounds:
  "laid_out o1 ss \<Longrightarrow> s \<in> set ss \<Longrightarrow> o1 \<le> s_offset s \<and> 0 < s_size s \<and> s_offset s + s_size s \<le> o1 + total_size ss"
proof (induction ss arbitrary: o1)
  case (Cons a ss)
  then have "0 \<le> total_size ss" using laid_out_nonneg [of "o1 + s_size a" ss 0] by simp
  then show ?case using Cons by fastforce
qed simp

text \<open>The strip that holds an offset, with the strips before and after it.\<close>

lemma laid_out_split:
  assumes "laid_out o1 ss" "o1 \<le> y" "y < o1 + total_size ss"
  obtains pre s post where "ss = pre @ s # post" "s_offset s = o1 + total_size pre" "s_offset s \<le> y" "y < s_offset s + s_size s"
  using assms
proof (induction ss arbitrary: o1 thesis)
  case (Cons a ss)
  show ?case
  proof (cases "y < o1 + s_size a")
    case True
    then show ?thesis using Cons.prems by (intro Cons.prems(1) [of "[]" a ss]) auto
  next
    case False
    show ?thesis
    proof (rule Cons.IH [of "o1 + s_size a"])
      fix pre s post
      assume "ss = pre @ s # post" "s_offset s = o1 + s_size a + total_size pre" "s_offset s \<le> y" "y < s_offset s + s_size s"
      then show ?thesis by (intro Cons.prems(1) [of "a # pre" s post]) auto
    qed (use Cons.prems False in auto)
  qed
qed simp

lemma laid_out_before:
  assumes "laid_out o1 (pre @ s # post)" "t \<in> set pre"
  shows "s_offset t + s_size t \<le> s_offset s"
  using assms laid_out_bounds [of o1 pre t] by (auto simp: laid_out_append)

lemma laid_out_after:
  assumes "laid_out o1 (pre @ s # post)" "t \<in> set post"
  shows "s_offset s + s_size s \<le> s_offset t"
  using assms laid_out_bounds [of "s_offset s + s_size s" post t] by (auto simp: laid_out_append)

section \<open>Counting the bytes of a server\<close>

definition in_mine :: "int \<Rightarrow> PINT_dist_strips list \<Rightarrow> int \<Rightarrow> bool" where
  "in_mine nr ss y \<longleftrightarrow> (\<exists>s \<in> set ss. s_server_nr s = nr \<and> s_offset s \<le> y \<and> y < s_offset s + s_size s)"

definition count_mine :: "int \<Rightarrow> PINT_dist_strips list \<Rightarrow> int \<Rightarrow> int" where
  "count_mine nr ss y =
     sum_list (map (\<lambda>s. if s_server_nr s = nr then max 0 (min (y - s_offset s) (s_size s)) else 0) ss)"

lemma count_mine_before: "laid_out o1 ss \<Longrightarrow> y \<le> o1 \<Longrightarrow> count_mine nr ss y = 0"
  by (induction ss arbitrary: o1) (force simp: count_mine_def)+

lemma count_mine_after: "laid_out o1 ss \<Longrightarrow> o1 + total_size ss \<le> y \<Longrightarrow> count_mine nr ss y = my_size nr ss"
proof (induction ss arbitrary: o1)
  case (Cons a ss)
  then have "0 \<le> total_size ss" using laid_out_nonneg [of "o1 + s_size a" ss 0] by simp
  then show ?case using Cons by (auto simp: count_mine_def)
qed (simp add: count_mine_def)

lemma count_mine_split:
  assumes "laid_out o1 (pre @ s # post)" "s_offset s \<le> y" "y \<le> s_offset s + s_size s"
  shows "count_mine nr (pre @ s # post) y = my_size nr pre + (if s_server_nr s = nr then y - s_offset s else 0)"
proof -
  have "count_mine nr (pre @ s # post) y = count_mine nr pre y + count_mine nr [s] y + count_mine nr post y"
    by (simp add: count_mine_def)
  moreover have "count_mine nr pre y = my_size nr pre" "count_mine nr post y = 0"
    using assms by (auto simp: laid_out_append intro!: count_mine_after [of o1] count_mine_before [of "o1 + total_size pre + s_size s"])
  ultimately show ?thesis using assms(2,3) by (simp add: count_mine_def)
qed

lemma in_mine_split:
  assumes "laid_out o1 (pre @ s # post)" "s_offset s \<le> y" "y < s_offset s + s_size s"
  shows "in_mine nr (pre @ s # post) y \<longleftrightarrow> s_server_nr s = nr"
  using assms laid_out_before [OF assms(1)] laid_out_after [OF assms(1)] by (force simp: in_mine_def)

lemma count_mine_step:
  assumes "laid_out 0 ss" "0 \<le> y" "y < total_size ss"
  shows "count_mine nr ss (y + 1) = count_mine nr ss y + (if in_mine nr ss y then 1 else 0)"
proof -
  obtain pre s post where s: "ss = pre @ s # post" "s_offset s \<le> y" "y < s_offset s + s_size s"
    using laid_out_split [OF assms(1,2)] assms(3) by (metis add_0)
  then show ?thesis
    using count_mine_split [of 0 pre s post y nr] count_mine_split [of 0 pre s post "y + 1" nr]
      in_mine_split [of 0 pre s post y nr] assms(1) by simp
qed

text \<open>The search for a physical offset.\<close>

lemma vs_find_physical_spec:
  assumes "laid_out o1 ss" "acc \<le> p" "p < acc + my_size nr ss"
  obtains pre s post where "ss = pre @ s # post" "s_server_nr s = nr" "acc + my_size nr pre \<le> p"
    "p < acc + my_size nr pre + s_size s"
    "vs_find_physical nr base p acc ss = base + s_offset s + (p - (acc + my_size nr pre))"
  using assms
proof (induction ss arbitrary: o1 acc thesis)
  case (Cons a ss)
  show ?case
  proof (cases "s_server_nr a = nr \<and> p < acc + s_size a")
    case True
    then show ?thesis using Cons.prems by (intro Cons.prems(1) [of "[]" a ss]) auto
  next
    case False
    let ?acc = "if s_server_nr a = nr then acc + s_size a else acc"
    show ?thesis
    proof (rule Cons.IH [of ?acc _ "o1 + s_size a"])
      fix pre s post
      assume "ss = pre @ s # post" "s_server_nr s = nr" "?acc + my_size nr pre \<le> p" "p < ?acc + my_size nr pre + s_size s"
        "vs_find_physical nr base p ?acc ss = base + s_offset s + (p - (?acc + my_size nr pre))"
      then show ?thesis using False by (intro Cons.prems(1) [of "a # pre" s post]) (auto split: if_splits)
    qed (use Cons.prems False in auto)
  qed
qed simp

lemma vs_find_physical_skip:
  "acc + my_size nr pre \<le> p \<Longrightarrow> laid_out o1 (pre @ ss) \<Longrightarrow>
    vs_find_physical nr base p acc (pre @ ss) = vs_find_physical nr base p (acc + my_size nr pre) ss"
proof (induction pre arbitrary: acc o1)
  case (Cons a pre)
  have "0 \<le> my_size nr pre" using Cons.prems(2) laid_out_nonneg [of "o1 + s_size a" pre nr] by (simp add: laid_out_append)
  then show ?case using Cons by (auto simp: add.assoc)
qed simp

lemma vs_find_physical_first:
  "laid_out o1 ss \<Longrightarrow> vs_first_mine nr ss = Some off \<Longrightarrow> vs_find_physical nr base p p ss = base + off"
  by (induction ss arbitrary: o1) (auto split: if_splits)

lemma vs_first_mine_None: "vs_first_mine nr ss = None \<Longrightarrow> my_size nr ss = 0"
  by (induction ss) (auto split: if_splits)

lemma vs_first_mine_Some: "laid_out o1 ss \<Longrightarrow> vs_first_mine nr ss = Some off \<Longrightarrow> 0 < my_size nr ss"
proof (induction ss arbitrary: o1)
  case (Cons a ss)
  then have "0 \<le> my_size nr ss" using laid_out_nonneg [of "o1 + s_size a" ss nr] by simp
  then show ?case using Cons by (auto split: if_splits)
qed simp

section \<open>The count and its inverse\<close>

definition vs_valid :: "PINT_dist_strips list \<times> int \<Rightarrow> bool" where
  "vs_valid c \<longleftrightarrow> (case c of (ss, nr) \<Rightarrow> laid_out 0 ss \<and> ss \<noteq> [] \<and> (\<exists>s \<in> set ss. s_server_nr s = nr))"

definition vs_mine :: "PINT_dist_strips list \<times> int \<Rightarrow> int \<Rightarrow> bool" where
  "vs_mine c x \<longleftrightarrow> (case c of (ss, nr) \<Rightarrow> in_mine nr ss (x mod total_size ss))"

definition vs_rank :: "PINT_dist_strips list \<times> int \<Rightarrow> int \<Rightarrow> int" where
  "vs_rank c x = (case c of (ss, nr) \<Rightarrow>
     x div total_size ss * my_size nr ss + count_mine nr ss (x mod total_size ss))"

definition vs_place :: "PINT_dist_strips list \<times> int \<Rightarrow> int \<Rightarrow> int" where
  "vs_place c p = (case c of (ss, nr) \<Rightarrow>
     vs_find_physical nr (p div my_size nr ss * total_size ss) (p mod my_size nr ss) 0 ss)"

lemma vs_validD:
  assumes "vs_valid (ss, nr)"
  shows "laid_out 0 ss" "0 < total_size ss" "0 < my_size nr ss" "vs_stripe_size ss = total_size ss"
proof -
  show l: "laid_out 0 ss" using assms by (simp add: vs_valid_def)
  obtain s where s: "s \<in> set ss" "s_server_nr s = nr" using assms by (auto simp: vs_valid_def)
  then obtain pre post where ss: "ss = pre @ s # post" by (meson split_list)
  have "0 < s_size s" using laid_out_bounds [OF l s(1)] by simp
  moreover have "0 \<le> my_size nr pre" "0 \<le> my_size nr post"
    using l ss laid_out_nonneg by (auto simp: laid_out_append)
  ultimately show "0 < my_size nr ss" using ss s(2) by simp
  then show "0 < total_size ss" using laid_out_nonneg [OF l, of nr] by simp
  show "vs_stripe_size ss = total_size ss"
    using laid_out_last [OF l] assms by (simp add: vs_stripe_size_def vs_valid_def)
qed

text \<open>A strip of the server holds the image of a physical offset.\<close>

lemma vs_place_strip:
  assumes "vs_valid (ss, nr)"
  obtains pre s post where "ss = pre @ s # post" "s_server_nr s = nr"
    "my_size nr pre \<le> p mod my_size nr ss" "p mod my_size nr ss < my_size nr pre + s_size s"
    "vs_place (ss, nr) p = p div my_size nr ss * total_size ss + (s_offset s + (p mod my_size nr ss - my_size nr pre))"
    "0 \<le> s_offset s" "s_offset s + s_size s \<le> total_size ss"
    "vs_place (ss, nr) p div total_size ss = p div my_size nr ss"
    "vs_place (ss, nr) p mod total_size ss = s_offset s + (p mod my_size nr ss - my_size nr pre)"
proof -
  note v = vs_validD [OF assms]
  let ?q = "p div my_size nr ss" and ?r = "p mod my_size nr ss"
  have r: "0 \<le> ?r" "?r < 0 + my_size nr ss" using v(3) by simp_all
  obtain pre s post where s: "ss = pre @ s # post" "s_server_nr s = nr" "0 + my_size nr pre \<le> ?r"
      "?r < 0 + my_size nr pre + s_size s"
      "vs_find_physical nr (?q * total_size ss) ?r 0 ss = ?q * total_size ss + s_offset s + (?r - (0 + my_size nr pre))"
    by (rule vs_find_physical_spec [OF v(1) r])
  have b: "0 \<le> s_offset s" "s_offset s + s_size s \<le> total_size ss"
    using laid_out_bounds [OF v(1), of s] s(1) by simp_all
  have x: "vs_place (ss, nr) p = ?q * total_size ss + (s_offset s + (?r - my_size nr pre))"
    using s(5) by (simp add: vs_place_def)
  have y: "0 \<le> s_offset s + (?r - my_size nr pre)" "s_offset s + (?r - my_size nr pre) < total_size ss"
    using s(3,4) b by linarith+
  show thesis
    using that [OF s(1,2) _ _ x b] s(3,4) quot_rem [OF y, of ?q] unfolding x by simp
qed

lemma vs_count_step:
  assumes "vs_valid (ss, nr)"
  shows "vs_rank (ss, nr) (x + 1) = vs_rank (ss, nr) x + (if vs_mine (ss, nr) x then 1 else 0)"
proof -
  note v = vs_validD [OF assms]
  let ?T = "total_size ss"
  let ?q = "x div ?T" and ?y = "x mod ?T"
  have y: "0 \<le> ?y" "?y < ?T" using v(2) by simp_all
  have x: "x + 1 = ?q * ?T + (?y + 1)" using div_mult_mod_eq [of x ?T] by simp
  note step = count_mine_step [OF v(1) y, of nr]
  show ?thesis
  proof (cases "?y + 1 < ?T")
    case True
    have "0 \<le> ?y + 1" using y(1) by simp
    then have "(x + 1) div ?T = ?q" "(x + 1) mod ?T = ?y + 1" unfolding x using quot_rem [OF _ True, of ?q] by blast+
    then show ?thesis using step by (simp add: vs_rank_def vs_mine_def)
  next
    case False
    then have last: "?y + 1 = ?T" using y(2) by simp
    then have "x + 1 = (?q + 1) * ?T" using x by (simp add: distrib_right)
    then have "(x + 1) div ?T = ?q + 1" "(x + 1) mod ?T = 0" using v(2) by simp_all
    moreover have "count_mine nr ss ?T = my_size nr ss" "count_mine nr ss 0 = 0"
      using count_mine_after [OF v(1)] count_mine_before [OF v(1)] by simp_all
    ultimately show ?thesis using step last by (simp add: vs_rank_def vs_mine_def distrib_right)
  qed
qed

interpretation vsc: dist_counting vs_valid vs_rank vs_place vs_mine
proof (unfold_locales, goal_cases)
  case (1 c p)
  obtain ss nr where c: "c = (ss, nr)" by (cases c)
  note v = vs_validD [OF 1(1) [unfolded c]]
  obtain pre s post where s: "ss = pre @ s # post" "s_server_nr s = nr"
    "my_size nr pre \<le> p mod my_size nr ss" "p mod my_size nr ss < my_size nr pre + s_size s"
    "vs_place (ss, nr) p = p div my_size nr ss * total_size ss + (s_offset s + (p mod my_size nr ss - my_size nr pre))"
    "0 \<le> s_offset s"
    "vs_place (ss, nr) p mod total_size ss = s_offset s + (p mod my_size nr ss - my_size nr pre)"
    by (rule vs_place_strip [OF 1(1) [unfolded c]])
  have "in_mine nr ss (vs_place (ss, nr) p mod total_size ss)"
    unfolding s(7) in_mine_def using s(1-4) by (intro bexI [of _ s]) auto
  moreover have "0 \<le> p div my_size nr ss * total_size ss" using 1(2) v by (simp add: pos_imp_zdiv_nonneg_iff)
  ultimately show ?case using s(3,5,6) c by (simp add: vs_mine_def)
next
  case (2 c p)
  obtain ss nr where c: "c = (ss, nr)" by (cases c)
  note v = vs_validD [OF 2(1) [unfolded c]]
  obtain pre s post where s: "ss = pre @ s # post" "s_server_nr s = nr"
    "my_size nr pre \<le> p mod my_size nr ss" "p mod my_size nr ss < my_size nr pre + s_size s"
    "vs_place (ss, nr) p div total_size ss = p div my_size nr ss"
    "vs_place (ss, nr) p mod total_size ss = s_offset s + (p mod my_size nr ss - my_size nr pre)"
    by (rule vs_place_strip [OF 2(1) [unfolded c]])
  have "count_mine nr ss (s_offset s + (p mod my_size nr ss - my_size nr pre)) = p mod my_size nr ss"
    using count_mine_split [of 0 pre s post "s_offset s + (p mod my_size nr ss - my_size nr pre)" nr] v(1) s(1-4) by simp
  then show ?case using s(5,6) c by (simp add: vs_rank_def div_mult_mod_eq)
next
  case (3 c x)
  obtain ss nr where c: "c = (ss, nr)" by (cases c)
  note v = vs_validD [OF 3(1) [unfolded c]]
  show ?case unfolding c
  proof (rule rank_by_step [OF _ _ 3(2)])
    show "vs_rank (ss, nr) 0 = 0" using count_mine_before [OF v(1)] by (simp add: vs_rank_def)
  qed (rule vs_count_step [OF 3(1) [unfolded c]])
qed

section \<open>The code computes the count and its inverse\<close>

definition vs_lin :: "PINT_dist_strips list \<times> int \<Rightarrow> int \<Rightarrow> bool" where
  "vs_lin c x \<longleftrightarrow> (case c of (ss, nr) \<Rightarrow> x div total_size ss < 2 ^ 32 - 1)"

definition vs_pin :: "PINT_dist_strips list \<times> int \<Rightarrow> int \<Rightarrow> bool" where
  "vs_pin c p \<longleftrightarrow> (case c of (ss, nr) \<Rightarrow> p div my_size nr ss < 2 ^ 32 - 1)"

lemma vs_stripe_nr:
  assumes "vs_valid (ss, nr)" "0 \<le> x" "vs_lin (ss, nr) x"
  shows "uint32 (x sdiv total_size ss) = x div total_size ss"
    "uint32 (x div total_size ss + 1) = x div total_size ss + 1"
    "x - x div total_size ss * total_size ss = x mod total_size ss"
proof -
  note v = vs_validD [OF assms(1)]
  have "0 \<le> x div total_size ss" using assms(2) v(2) by (simp add: pos_imp_zdiv_nonneg_iff)
  then show "uint32 (x sdiv total_size ss) = x div total_size ss"
    "uint32 (x div total_size ss + 1) = x div total_size ss + 1"
    using assms(2,3) v(2,4) by (simp_all add: sdiv_nonneg vs_lin_def)
  show "x - x div total_size ss * total_size ss = x mod total_size ss" by (simp add: minus_div_mult_eq_mod)
qed

lemma vs_p2l_in_eq:
  assumes "vs_valid (ss, nr)" "0 \<le> p" "vs_pin (ss, nr) p"
  shows "vs_p2l_in ss nr p = Some (vs_place (ss, nr) p)"
proof -
  note v = vs_validD [OF assms(1)]
  have "0 \<le> p div my_size nr ss" using assms(2) v(3) by (simp add: pos_imp_zdiv_nonneg_iff)
  then have "uint32 (p sdiv my_size nr ss) = p div my_size nr ss"
    using assms(2,3) v(3) by (simp add: sdiv_nonneg vs_pin_def)
  then show ?thesis using v(3,4) by (simp add: vs_p2l_in_def vs_place_def Let_def minus_div_mult_eq_mod)
qed

lemma vs_search_mine_split:
  assumes "\<forall>t \<in> set pre. q * T + s_offset t + s_size t \<le> x"
    "s_server_nr s = nr" "q * T + s_offset s \<le> x" "x < q * T + s_offset s + s_size s"
  shows "vs_search_mine strips nr q T x ii (pre @ s # post) =
    q * my_size nr strips + my_size nr (take (ii + length pre) strips) + (x - q * T - s_offset s)"
  using assms(1)
proof (induction pre arbitrary: ii)
  case Nil
  show ?case using assms(2-4) by simp
next
  case (Cons a pre)
  then show ?case using Cons.IH [of "ii + 1"] by simp
qed

lemma vs_l2p_in_eq:
  assumes "vs_valid (ss, nr)" "0 \<le> x" "vs_lin (ss, nr) x" "vs_mine (ss, nr) x"
  shows "vs_l2p_in ss nr x = vs_rank (ss, nr) x"
proof -
  note v = vs_validD [OF assms(1)] and nr = vs_stripe_nr [OF assms(1-3)]
  let ?T = "total_size ss"
  let ?q = "x div ?T" and ?y = "x mod ?T"
  have y: "0 \<le> ?y" "?y < 0 + ?T" using v(2) by simp_all
  obtain pre s post where s: "ss = pre @ s # post" "s_offset s \<le> ?y" "?y < s_offset s + s_size s"
    by (rule laid_out_split [OF v(1) y])
  have mine: "s_server_nr s = nr"
    using assms(4) in_mine_split [of 0 pre s post ?y nr] s v(1) by (simp add: vs_mine_def)
  have x: "x = ?q * ?T + ?y" by (simp add: div_mult_mod_eq)
  have "\<forall>t \<in> set pre. ?q * ?T + s_offset t + s_size t \<le> x"
    using laid_out_before [of 0 pre s post] s(1,2) v(1) x by force
  moreover have "?q * ?T + s_offset s \<le> x" "x < ?q * ?T + s_offset s + s_size s" using s(2,3) x by linarith+
  ultimately have "vs_search_mine ss nr ?q ?T x 0 (pre @ s # post) =
      ?q * my_size nr ss + my_size nr (take (0 + length pre) ss) + (x - ?q * ?T - s_offset s)"
    using mine by (intro vs_search_mine_split)
  then have "vs_search_mine ss nr ?q ?T x 0 ss = ?q * my_size nr ss + my_size nr pre + (?y - s_offset s)"
    using s(1) nr(3) by simp
  moreover have "vs_l2p_in ss nr x = vs_search_mine ss nr ?q ?T x 0 ss"
    unfolding vs_l2p_in_def Let_def nr(1) v(4) ..
  moreover have "count_mine nr ss ?y = my_size nr pre + (?y - s_offset s)"
    using count_mine_split [of 0 pre s post ?y nr] s v(1) mine by simp
  ultimately show ?thesis by (simp add: vs_rank_def)
qed

lemma vs_strip_of_split:
  assumes "\<forall>t \<in> set pre. s_offset t + s_size t \<le> y" "s_offset s \<le> y" "y < s_offset s + s_size s"
  shows "vs_strip_of y ii (pre @ s # post) = ii + length pre"
    "vs_run_length y (pre @ s # post) = s_offset s + s_size s - y"
  using assms by (induction pre arbitrary: ii) auto

lemma vs_next_in_eq:
  assumes "vs_valid (ss, nr)" "0 \<le> x" "vs_lin (ss, nr) x"
  shows "vs_next_in ss nr x = Some (vs_place (ss, nr) (vs_rank (ss, nr) x))"
proof -
  note v = vs_validD [OF assms(1)] and nr = vs_stripe_nr [OF assms]
  let ?T = "total_size ss" and ?M = "my_size nr ss"
  let ?q = "x div ?T" and ?y = "x mod ?T"
  have y: "0 \<le> ?y" "?y < 0 + ?T" using v(2) by simp_all
  obtain pre s post where s: "ss = pre @ s # post" "s_offset s \<le> ?y" "?y < s_offset s + s_size s"
    by (rule laid_out_split [OF v(1) y])
  have pre: "\<forall>t \<in> set pre. s_offset t + s_size t \<le> ?y"
    using laid_out_before [of 0 pre s post] s(1,2) v(1) by force
  have ii: "vs_strip_of ?y 0 ss = length pre" using vs_strip_of_split(1) [OF pre s(2,3), of 0 post] s(1) by simp
  have parts: "laid_out 0 (pre @ [s] @ post)" "0 \<le> my_size nr pre" "0 \<le> my_size nr post" "laid_out (total_size pre + s_size s) post"
    using v(1) s(1) laid_out_nonneg by (auto simp: laid_out_append)
  have op: "vs_next_in ss nr x =
      (if s_server_nr s = nr then Some x
       else (case vs_first_mine nr post of
               Some off \<Rightarrow> Some (?q * ?T + off)
             | None \<Rightarrow> (case vs_first_mine nr ss of Some off \<Rightarrow> Some ((?q + 1) * ?T + off) | None \<Rightarrow> Some (- 1))))"
    unfolding vs_next_in_def Let_def nr(1) v(4) nr(2,3) ii by (simp add: s(1))
  show ?thesis
  proof (cases "s_server_nr s = nr")
    case True
    then have "vs_mine (ss, nr) x" using in_mine_split [of 0 pre s post ?y nr] s v(1) by (simp add: vs_mine_def)
    then show ?thesis using op True vsc.image_mine [OF assms(1,2)] by simp
  next
    case False
    have rank: "vs_rank (ss, nr) x = ?q * ?M + my_size nr pre"
      using count_mine_split [of 0 pre s post ?y nr] s v(1) False by (simp add: vs_rank_def)
    show ?thesis
    proof (cases "vs_first_mine nr post")
      case None
      then have M: "my_size nr pre = ?M" using vs_first_mine_None s(1) False by simp
      have all: "vs_first_mine nr ss \<noteq> None" using vs_first_mine_None [of nr ss] v(3) by auto
      then obtain off where off: "vs_first_mine nr ss = Some off" by auto
      have "vs_rank (ss, nr) x = (?q + 1) * ?M" using rank M by (simp add: distrib_right)
      then have "vs_place (ss, nr) (vs_rank (ss, nr) x) = (?q + 1) * ?T + off"
        using vs_find_physical_first [OF v(1) off, of "(?q + 1) * ?T" 0] v(3) by (simp add: vs_place_def)
      then show ?thesis using op False None off by simp
    next
      case (Some off)
      have "0 < my_size nr post" by (rule vs_first_mine_Some [OF parts(4) Some])
      then have lt: "my_size nr pre < ?M" using parts s(1) False by simp
      have "(?q * ?M + my_size nr pre) div ?M = ?q" "(?q * ?M + my_size nr pre) mod ?M = my_size nr pre"
        using quot_rem [OF parts(2) lt, of ?q] by blast+
      moreover have "vs_find_physical nr (?q * ?T) (my_size nr pre) 0 ss = ?q * ?T + off"
        using vs_find_physical_skip [of 0 nr "pre @ [s]" "my_size nr pre" 0 post "?q * ?T"] parts(1) False s(1)
          vs_find_physical_first [OF parts(4) Some, of "?q * ?T" "my_size nr pre"] by simp
      ultimately show ?thesis using op False Some rank by (simp add: vs_place_def)
    qed
  qed
qed

lemma vs_contig_in_run:
  assumes "vs_valid (ss, nr)" "0 \<le> p" "vs_pin (ss, nr) p"
  shows "0 < vs_contig_in ss (vs_place (ss, nr) p)"
    "0 \<le> i \<Longrightarrow> i < vs_contig_in ss (vs_place (ss, nr) p) \<Longrightarrow>
      vs_pin (ss, nr) (p + i) \<and> vs_place (ss, nr) (p + i) = vs_place (ss, nr) p + i"
proof -
  note v = vs_validD [OF assms(1)]
  let ?M = "my_size nr ss" and ?x = "vs_place (ss, nr) p"
  obtain pre s post where s: "ss = pre @ s # post" "s_server_nr s = nr"
    "my_size nr pre \<le> p mod ?M" "p mod ?M < my_size nr pre + s_size s"
    "?x = p div ?M * total_size ss + (s_offset s + (p mod ?M - my_size nr pre))"
    "?x div total_size ss = p div ?M" "?x mod total_size ss = s_offset s + (p mod ?M - my_size nr pre)"
    by (rule vs_place_strip [OF assms(1)])
  let ?y = "?x mod total_size ss"
  have lin: "0 \<le> ?x" "vs_lin (ss, nr) ?x"
    using vsc.p2l_mine [OF assms(1,2)] assms(3) s(6) by (simp_all add: vs_lin_def vs_pin_def)
  note sn = vs_stripe_nr [OF assms(1) lin]
  have y: "s_offset s \<le> ?y" "?y < s_offset s + s_size s" using s(3,4,7) by simp_all
  have pre: "\<forall>t \<in> set pre. s_offset t + s_size t \<le> ?y"
    using laid_out_before [of 0 pre s post] s(1) v(1) y(1) by force
  have len: "vs_contig_in ss ?x = s_offset s + s_size s - ?y"
    unfolding vs_contig_in_def Let_def v(4) sn(1,3) using vs_strip_of_split(2) [OF pre y, of post] s(1) by simp
  then show "0 < vs_contig_in ss ?x" using y by simp
  show "vs_pin (ss, nr) (p + i) \<and> vs_place (ss, nr) (p + i) = ?x + i" if i: "0 \<le> i" "i < vs_contig_in ss ?x"
  proof -
    have i': "p mod ?M + i < my_size nr pre + s_size s" using i(2) len s(7) by simp
    have "0 \<le> my_size nr post" using v(1) s(1) laid_out_nonneg [of "total_size pre + s_size s" post nr] by (simp add: laid_out_append)
    then have r: "0 \<le> p mod ?M + i" "p mod ?M + i < ?M" using i' i(1) v(3) s(1,2) by simp_all
    have "p + i = p div ?M * ?M + (p mod ?M + i)" using div_mult_mod_eq [of p ?M] by simp
    then have pi: "(p + i) div ?M = p div ?M" "(p + i) mod ?M = p mod ?M + i"
      using quot_rem [OF r, of "p div ?M"] by metis+
    have "laid_out 0 (pre @ s # post)" using v(1) s(1) by simp
    then have "vs_find_physical nr b (p mod ?M + i) 0 ss = b + s_offset s + (p mod ?M + i - my_size nr pre)" for b
      using vs_find_physical_skip [of 0 nr pre "p mod ?M + i" 0 "s # post" b] i' i(1) s(1-3) by simp
    then have "vs_place (ss, nr) (p + i) = ?x + i" using s(5) pi by (simp add: vs_place_def)
    then show ?thesis using assms(3) pi(1) by (simp add: vs_pin_def)
  qed
qed

lemma vs_rank_stripe:
  assumes "vs_valid (ss, nr)" "0 \<le> x" "vs_mine (ss, nr) x"
  shows "vs_rank (ss, nr) x div my_size nr ss = x div total_size ss"
proof -
  have "0 \<le> vs_rank (ss, nr) x" using vsc.l2p_bound [OF assms(1,2)] by simp
  obtain pre s post where "vs_place (ss, nr) (vs_rank (ss, nr) x) div total_size ss = vs_rank (ss, nr) x div my_size nr ss"
    by (rule vs_place_strip [OF assms(1)])
  then show ?thesis using vsc.image_mine [OF assms] by simp
qed

section \<open>The contract\<close>

interpretation vs: dist_bounded vs_valid
  "\<lambda>(ss, nr). vs_l2p_in ss nr" "\<lambda>(ss, nr) p. the (vs_p2l_in ss nr p)" "\<lambda>(ss, nr) x. the (vs_next_in ss nr x)"
  "\<lambda>(ss, nr) p. vs_contig_in ss (the (vs_p2l_in ss nr p))" vs_mine vs_lin vs_pin
proof (unfold_locales, goal_cases)
  case (1 c p)
  obtain ss nr where c: "c = (ss, nr)" by (cases c)
  obtain pre s post where "vs_place (ss, nr) p div total_size ss = p div my_size nr ss"
    by (rule vs_place_strip [OF 1(1) [unfolded c]])
  then show ?case using vsc.p2l_mine [OF 1(1,2)] 1 c by (simp add: vs_p2l_in_eq vs_lin_def vs_pin_def)
next
  case (2 c p)
  obtain ss nr where c: "c = (ss, nr)" by (cases c)
  obtain pre s post where "vs_place (ss, nr) p div total_size ss = p div my_size nr ss"
    by (rule vs_place_strip [OF 2(1) [unfolded c]])
  then have "vs_lin (ss, nr) (vs_place (ss, nr) p)" using 2(3) c by (simp add: vs_lin_def vs_pin_def)
  then show ?case using vsc.p2l_mine [OF 2(1,2)] vsc.l2p_p2l [OF 2(1,2)] 2 c by (simp add: vs_p2l_in_eq vs_l2p_in_eq)
next
  case (3 c x)
  obtain ss nr where c: "c = (ss, nr)" by (cases c)
  have p: "0 \<le> vs_rank c x" using vsc.l2p_bound [OF 3(1,2)] by simp
  have "vs_pin c (vs_rank c x)" using vs_rank_stripe [of ss nr x] 3 c by (simp add: vs_lin_def vs_pin_def)
  then show ?case using vsc.image_mine [OF 3(1,2,4)] p 3 c by (simp add: vs_p2l_in_eq vs_l2p_in_eq)
next
  case (4 c x)
  then show ?case using vsc.image_reach [OF 4(1,2)] vsc.p2l_mine [OF 4(1)] vsc.l2p_bound [OF 4(1,2)]
    by (cases c) (simp add: vs_next_in_eq)
next
  case (5 c x y)
  then show ?case using vsc.image_gap [OF 5(1,2,4)] by (cases c) (simp add: vs_next_in_eq)
next
  case (6 c p)
  then show ?case by (cases c) (simp add: vs_p2l_in_eq vs_contig_in_run(1))
next
  case (7 c p i)
  obtain ss nr where c: "c = (ss, nr)" by (cases c)
  note valid = 7(1,3) [unfolded c]
  have "i < vs_contig_in ss (vs_place (ss, nr) p)" using 7 c by (simp add: vs_p2l_in_eq)
  from vs_contig_in_run(2) [OF valid(1) 7(2) valid(2) 7(4) this] show ?case using 7 c by (simp add: vs_p2l_in_eq)
qed

lemma sint32_big:
  assumes "2 ^ 31 \<le> d" "d < 2 ^ 32"
  shows "sint (word_of_int d :: 32 word) = d - 2 ^ 32"
proof -
  have "(d + 2 ^ 31) mod 2 ^ 32 = (d + 2 ^ 31 - 2 ^ 32) mod 2 ^ 32" by (simp only: minus_mod_self2)
  also have "\<dots> = d + 2 ^ 31 - 2 ^ 32" using assms by (intro mod_pos_pos_trivial) auto
  finally show ?thesis by (simp add: int_word_sint)
qed

lemma vs_highest_spec:
  "0 \<le> a \<Longrightarrow> foldl (\<lambda>hi s. if s_server_nr s > hi then s_server_nr s else hi) a ss = Max (insert a (s_server_nr ` set ss))"
proof (induction ss arbitrary: a)
  case (Cons s ss)
  let ?b = "if s_server_nr s > a then s_server_nr s else a"
  have "Max (insert ?b (s_server_nr ` set ss)) = Max (insert a (insert (s_server_nr s) (s_server_nr ` set ss)))"
    by (cases "s_server_nr ` set ss = {}") (auto simp: max_def)
  then show ?case using Cons.IH [of ?b] Cons.prems by simp
qed simp

lemma vs_all_found_iff: "vs_all_found ss k \<longleftrightarrow> {0..<int k} \<subseteq> s_server_nr ` set ss"
proof (induction k)
  case (Suc k)
  have "{0..<int (Suc k)} = insert (int k) {0..<int k}" by auto
  moreover have "list_ex (\<lambda>s. s_server_nr s = int k) ss \<longleftrightarrow> int k \<in> s_server_nr ` set ss"
    by (auto simp: list_ex_iff intro: rev_image_eqI)
  ultimately show ?case by (simp only: vs_all_found.simps Suc.IH insert_subset conj_commute)
qed simp

section \<open>Properties\<close>

text \<open>
  C7. Under the variable strip distribution every byte of a file is stored exactly once: for an
  accepted parameter string and a logical offset in the first \<open>2 ^ 32 - 1\<close> stripes there is
  exactly one server of the string and one physical offset on it, in its part of these stripes,
  that \<open>physical_to_logical_offset\<close> maps to it, and \<open>logical_to_physical_offset\<close> finds it.
\<close>

theorem vs_stored_once:
  assumes "PINT_dist_strips_parse (Some params) = Some (Inr strips)" "0 \<le> x" "x < (2 ^ 32 - 1) * total_size strips"
  shows "\<exists>!(s, p). s \<in> s_server_nr ` set strips \<and> 0 \<le> p \<and> p < (2 ^ 32 - 1) * my_size s strips \<and>
    vs_physical_to_logical_offset params \<lparr>fsize = 0, server_nr = s, server_ct = n, extend_flag = False\<rparr> p = Some x \<and>
    vs_logical_to_physical_offset params \<lparr>fsize = 0, server_nr = s, server_ct = n, extend_flag = False\<rparr> x = Some p"
proof -
  have ss: "laid_out 0 strips" "strips \<noteq> []"
    using assms(1) strips_loop_laid_out [of _ _ "[]" strips]
    by (auto simp: PINT_dist_strips_parse_def split: option.splits if_splits)
  have valid: "vs_valid (strips, s)" if "s \<in> s_server_nr ` set strips" for s using ss that by (auto simp: vs_valid_def)
  have T: "0 < total_size strips" using vs_validD(2) [OF valid, of "s_server_nr (hd strips)"] ss(2) by simp
  let ?y = "x mod total_size strips"
  have y: "0 \<le> ?y" "?y < 0 + total_size strips" using T by simp_all
  obtain pre t post where t: "strips = pre @ t # post" "s_offset t \<le> ?y" "?y < s_offset t + s_size t"
    by (rule laid_out_split [OF ss(1) y])
  have mine: "vs_mine (strips, s) x \<longleftrightarrow> s_server_nr t = s" for s
    using in_mine_split [of 0 pre t post ?y s] t ss(1) by (simp add: vs_mine_def)
  have lin: "vs_lin (strips, s) x" for s using div_less_iff [OF T] assms(3) by (simp add: vs_lin_def)
  have pin: "vs_pin (strips, s) p \<longleftrightarrow> p < (2 ^ 32 - 1) * my_size s strips" if "s \<in> s_server_nr ` set strips" for s p
    using div_less_iff [OF vs_validD(3) [OF valid [OF that]]] by (simp add: vs_pin_def)
  let ?s = "s_server_nr t"
  let ?p = "vs_l2p_in strips ?s x"
  have s: "?s \<in> s_server_nr ` set strips" using t(1) by simp
  have p: "0 \<le> ?p" "vs_pin (strips, ?s) ?p" "the (vs_p2l_in strips ?s ?p) = x"
    using vs.p2l_l2p [OF valid [OF s] assms(2) lin] mine by simp_all
  have run: "vs_physical_to_logical_offset params \<lparr>fsize = 0, server_nr = s, server_ct = n, extend_flag = False\<rparr> q = vs_p2l_in strips s q"
    "vs_logical_to_physical_offset params \<lparr>fsize = 0, server_nr = s, server_ct = n, extend_flag = False\<rparr> x = Some (vs_l2p_in strips s x)" for s q
    using assms(1) by (simp_all add: vs_physical_to_logical_offset_def vs_logical_to_physical_offset_def vs_parsed_def)
  show ?thesis
  proof (intro ex1I [of _ "(?s, ?p)"], goal_cases)
    case 1
    show ?case using s p pin [OF s] run vs_p2l_in_eq [OF valid [OF s] p(1,2)] by simp
  next
    case (2 sp)
    obtain s' p' where sp: "sp = (s', p')" by (cases sp)
    have a: "s' \<in> s_server_nr ` set strips" "0 \<le> p'" "vs_pin (strips, s') p'" "vs_p2l_in strips s' p' = Some x"
        "vs_l2p_in strips s' x = p'"
      using 2 sp run pin by auto
    have "vs_mine (strips, s') x" using vs.p2l_mine [OF valid [OF a(1)] a(2,3)] a(4) by simp
    then have "s' = ?s" using mine by simp
    then show ?case using a(5) sp by simp
  qed
qed

theorem vs_stored_once_witness:
  "\<exists>!(s, p). s \<in> s_server_nr ` set ex_strips \<and> 0 \<le> p \<and> p < (2 ^ 32 - 1) * my_size s ex_strips \<and>
    vs_physical_to_logical_offset ''0:512;1:100;0:30;'' \<lparr>fsize = 0, server_nr = s, server_ct = 2, extend_flag = False\<rparr> p = Some 1300 \<and>
    vs_logical_to_physical_offset ''0:512;1:100;0:30;'' \<lparr>fsize = 0, server_nr = s, server_ct = 2, extend_flag = False\<rparr> 1300 = Some p"
proof (rule vs_stored_once)
  show "PINT_dist_strips_parse (Some ''0:512;1:100;0:30;'') = Some (Inr ex_strips)" by code_simp
qed (simp_all add: ex_strips_def)

text \<open>
  \<open>next_mapped_offset\<close> of the variable strip distribution reads behind the array of strips
  for every logical offset beyond \<open>2 ^ 32\<close> stripes: the number of the stripe is cut to 32 bits,
  and the search for a strip that holds the rest of the offset finds none.
\<close>

theorem vs_next_overrun:
  assumes "PINT_dist_strips_parse (Some params) = Some (Inr strips)" "2 ^ 32 * total_size strips \<le> x"
  shows "vs_next_mapped_offset params fd x = None"
proof -
  have ss: "laid_out 0 strips" "strips \<noteq> []"
    using assms(1) strips_loop_laid_out [of _ _ "[]" strips]
    by (auto simp: PINT_dist_strips_parse_def split: option.splits if_splits)
  have valid: "vs_valid (strips, s_server_nr (hd strips))" using ss by (auto simp: vs_valid_def)
  let ?T = "total_size strips"
  note v = vs_validD [OF valid]
  have "uint32 (x sdiv ?T) < 2 ^ 32" by simp
  then have "uint32 (x sdiv ?T) * ?T \<le> (2 ^ 32 - 1) * ?T" using v(2) by (intro mult_right_mono) auto
  then have y: "?T \<le> x - uint32 (x sdiv ?T) * ?T" using assms(2) by (simp add: algebra_simps)
  have "vs_strip_of (x - uint32 (x sdiv ?T) * ?T) ii ss = ii + length ss" if "\<forall>s \<in> set ss. s_offset s + s_size s \<le> ?T" for ii ss
    using that y by (induction ss arbitrary: ii) auto
  moreover have "\<forall>s \<in> set strips. s_offset s + s_size s \<le> ?T" using laid_out_bounds [OF ss(1)] by auto
  ultimately show ?thesis using assms(1) v(4) by (simp add: vs_next_mapped_offset_def vs_parsed_def vs_next_in_def Let_def)
qed

theorem vs_next_overrun_witness:
  "vs_next_mapped_offset ''0:512;1:100;0:30;'' \<lparr>fsize = 0, server_nr = 1, server_ct = 2, extend_flag = False\<rparr> (2 ^ 32 * 642) = None"
proof (rule vs_next_overrun)
  show "PINT_dist_strips_parse (Some ''0:512;1:100;0:30;'') = Some (Inr ex_strips)" by code_simp
qed (simp add: ex_strips_def)

text \<open>
  When \<open>get_num_dfiles\<close> of the variable strip distribution returns a positive number, the
  servers of the parameter string are exactly the numbers below it, and there are not more of
  them than requested.
\<close>

theorem vs_num_dfiles:
  assumes "PINT_dist_strips_parse (Some params) = Some (Inr strips)" "vs_get_num_dfiles params requested d = Some n" "0 < n"
  shows "s_server_nr ` set strips = {0..<n} \<and> n \<le> requested"
proof -
  let ?A = "s_server_nr ` set strips" and ?h = "vs_highest strips"
  have ss: "laid_out 0 strips" "strips \<noteq> []"
    using assms(1) strips_loop_laid_out [of _ _ "[]" strips]
    by (auto simp: PINT_dist_strips_parse_def split: option.splits if_splits)
  have range: "0 \<le> s_server_nr s \<and> s_server_nr s < 2 ^ 32" if "s \<in> set strips" for s
    using ss(1) that by (auto simp: laid_out_append dest!: split_list)
  have h: "?h = Max (insert 0 ?A)" unfolding vs_highest_def by (rule vs_highest_spec) simp
  have hin: "?h \<in> insert 0 ?A" unfolding h by (rule Max_in) auto
  have hmax: "a \<le> ?h" if "a \<in> ?A" for a unfolding h using that by (intro Max_ge) auto
  have h0: "0 \<le> ?h" "?h < 2 ^ 32" using hin range by auto
  have found: "vs_all_found strips (nat ?h)" and n: "n = sint (word_of_int (uint32 (?h + 1)) :: 32 word)" "uint32 (?h + 1) \<le> requested"
    using assms by (auto simp: vs_get_num_dfiles_def vs_parsed_def Let_def split: if_splits)
  have u: "0 \<le> uint32 (?h + 1)" "uint32 (?h + 1) < 2 ^ 32" by simp_all
  have small: "uint32 (?h + 1) < 2 ^ 31"
  proof (rule ccontr)
    assume "\<not> uint32 (?h + 1) < 2 ^ 31"
    then have "sint (word_of_int (uint32 (?h + 1)) :: 32 word) = uint32 (?h + 1) - 2 ^ 32"
      using u by (intro sint32_big) auto
    then show False using n(1) assms(3) u(2) by simp
  qed
  have eq: "n = uint32 (?h + 1)" using n(1) sint32_small [OF u(1) small] by simp
  then have nh: "n = ?h + 1" using assms(3) h0 by (cases "?h + 1 = 2 ^ 32") auto
  have "{0..<?h} \<subseteq> ?A" using found h0 vs_all_found_iff [of strips "nat ?h"] by simp
  moreover have "?h \<in> ?A"
  proof (cases "?h = 0")
    case True
    then show ?thesis using hmax range ss(2) by (metis antisym hd_in_set imageI)
  qed (use hin in auto)
  moreover have "{0..<n} = insert ?h {0..<?h}" using nh h0 by auto
  ultimately have "{0..<n} \<subseteq> ?A" by simp
  moreover have "?A \<subseteq> {0..<n}"
  proof
    fix a assume "a \<in> ?A"
    then show "a \<in> {0..<n}" using range hmax [of a] nh by auto
  qed
  ultimately show ?thesis using eq n(2) by simp
qed

theorem vs_num_dfiles_witness:
  "s_server_nr ` set ex_strips = {0..<2} \<and> (2 :: int) \<le> 4"
proof (rule vs_num_dfiles)
  show "PINT_dist_strips_parse (Some ''0:512;1:100;0:30;'') = Some (Inr ex_strips)" by code_simp
  show "vs_get_num_dfiles ''0:512;1:100;0:30;'' 4 0 = Some 2" by code_simp
qed simp

text \<open>
  A parameter string of \<open>PVFS_DIST_VARSTRIP_MAX_STRIPS_STRING_LENGTH\<close> characters passes the
  check of \<open>set_param\<close>, and its terminator is written behind the buffer.
\<close>

theorem vs_set_param_overrun:
  "length v = 1025 \<Longrightarrow> vs_set_param params ''strips'' v = None"
  by (simp add: vs_set_param_def PVFS_DIST_VARSTRIP_MAX_STRIPS_STRING_LENGTH_def)

end
