(* ===== verification/Request_Io.thy ===== *)
theory Request_Io
  imports Pint_Process Dist_Basic Dist_Twod_Contract Dist_Varstrip_Contract "HOL-Library.Multiset"
begin

text \<open>
  Requests on distributed files. The distributions provide what \<open>PINT_distribute\<close> relies on
  (\<open>dist_server\<close>); together with the walk over a request this tells which bytes of its local
  file a server reads or writes for a request, and that the servers of a file
  transfer each byte of the request exactly once.
\<close>

section \<open>Each byte once\<close>

lemma mset_owners:
  assumes "\<And>x. x \<in> set xs \<Longrightarrow> \<exists>!s. 0 \<le> s \<and> s < n \<and> Q s x"
  shows "(\<Sum>s\<in>{0..<n::int}. mset (filter (Q s) xs)) = mset xs"
  using assms
proof (induction xs)
  case (Cons x xs)
  have "\<exists>!s. 0 \<le> s \<and> s < n \<and> Q s x" by (rule Cons.prems) simp
  then obtain t where t: "0 \<le> t" "t < n" "Q t x" "\<And>s. 0 \<le> s \<Longrightarrow> s < n \<Longrightarrow> Q s x \<Longrightarrow> s = t"
    by (elim ex1E conjE) metis
  have IH: "(\<Sum>s\<in>{0..<n}. mset (filter (Q s) xs)) = mset xs" 
  proof (rule Cons.IH)
    fix y assume "y \<in> set xs"
    then have "y \<in> set (x # xs)" by (rule list.set_intros(2))
    then show "\<exists>!s. 0 \<le> s \<and> s < n \<and> Q s y" by (rule Cons.prems)
  qed
  have "mset (filter (Q s) (x # xs)) = (if s = t then {#x#} else {#}) + mset (filter (Q s) xs)" if "s \<in> {0..<n}" for s
  proof (cases "s = t")
    case True
    then show ?thesis using t(3) by simp
  next
    case False
    then have "\<not> Q s x" using t(4) [of s] that by (metis atLeastLessThan_iff)
    then show ?thesis using False by simp
  qed
  then have "(\<Sum>s\<in>{0..<n}. mset (filter (Q s) (x # xs))) = (\<Sum>s\<in>{0..<n}. (if s = t then {#x#} else {#}) + mset (filter (Q s) xs))"
    by (rule sum.cong [OF refl])
  also have "\<dots> = (\<Sum>s\<in>{0..<n}. (if s = t then {#x#} else {#})) + (\<Sum>s\<in>{0..<n}. mset (filter (Q s) xs))"
    by (rule sum.distrib)
  also have "\<dots> = {#x#} + mset xs" unfolding IH using t(1,2) by simp
  finally show ?case by simp
qed simp

lemma nth_slice:
  assumes "0 \<le> a" "a \<le> i" "i < b" "b \<le> int (length P)"
  shows "P ! nat i \<in> set (slice P a b)"
proof -
  have "slice P a b ! nat (i - a) = P ! nat i" "nat (i - a) < length (slice P a b)"
    using assms by (auto simp: slice_def nat_less_iff simp flip: nat_add_distrib)
  then show ?thesis by (metis nth_mem)
qed

text \<open>A result with no segment yet and with room for the segments of \<open>n\<close> bytes.\<close>

definition empty_result :: "int \<Rightarrow> PINT_Request_result \<Rightarrow> bool" where
  "empty_result n res \<longleftrightarrow> res_ok res \<and> segs res = 0 \<and> res_bytes res = 0 \<and> n < segmax res \<and> n < bytemax res"

text \<open>A request that is processed once, up to its size.\<close>

lemma stream_first:
  assumes "regular r"
  shows "slice (stream r (copies r (aggregate_size (deref r)))) 0 (aggregate_size (deref r)) = layout r 0"
    "set (stream r (copies r (aggregate_size (deref r)))) = set (layout r 0) \<union> (\<lambda>x. x + extent r) ` set (layout r 0)"
proof -
  let ?a = "aggregate_size (deref r)"
  have a: "0 < ?a" by (rule regularD(2) [OF assms])
  have "[0..1] = [0, 1::int]" by (simp add: upto.simps)
  then have s: "stream r (copies r ?a) = layout r 0 @ layout r (extent r)" using a by (simp add: copies_def stream_def sdiv_nonneg)
  have "length (layout r 0) = nat ?a" using regularD(3) [OF assms, of 0] by linarith
  then show "slice (stream r (copies r ?a)) 0 ?a = layout r 0" by (simp add: s slice_def)
  show "set (stream r (copies r ?a)) = set (layout r 0) \<union> (\<lambda>x. x + extent r) ` set (layout r 0)"
    using layout_shift [of r "extent r" 0] by (auto simp: s add.commute)
qed

section \<open>From a distribution to its methods\<close>

text \<open>
  The methods of a distribution, for parameters that have been fixed: \<open>cfg\<close> is the configuration
  for which the contract of the distribution holds, and \<open>near\<close> the offsets that it holds for.
\<close>

locale dist_methods = dist_bounded valid l2p p2l next_off contig mine lin pin
  for valid :: "'c \<Rightarrow> bool" and l2p p2l next_off contig :: "'c \<Rightarrow> int \<Rightarrow> int" and mine lin pin :: "'c \<Rightarrow> int \<Rightarrow> bool" +
  fixes methods :: PINT_dist_methods and ok :: "PINT_request_file_data \<Rightarrow> bool"
    and cfg :: "PINT_request_file_data \<Rightarrow> 'c" and near :: "PINT_request_file_data \<Rightarrow> PVFS_offset \<Rightarrow> bool"
  assumes cfg_ok: "ok fd \<Longrightarrow> valid (cfg fd)"
    and near_lin: "ok fd \<Longrightarrow> 0 \<le> x \<Longrightarrow> near fd x \<Longrightarrow> lin (cfg fd) x"
    and meth_next: "ok fd \<Longrightarrow> 0 \<le> x \<Longrightarrow> near fd x \<Longrightarrow> next_mapped_offset methods fd x = Some (next_off (cfg fd) x)"
    and meth_l2p: "ok fd \<Longrightarrow> 0 \<le> x \<Longrightarrow> near fd x \<Longrightarrow>
      logical_to_physical_offset methods fd (next_off (cfg fd) x) = Some (l2p (cfg fd) (next_off (cfg fd) x))"
    and meth_contig: "ok fd \<Longrightarrow> 0 \<le> p \<Longrightarrow> pin (cfg fd) p \<Longrightarrow> contiguous_length methods fd p = Some (contig (cfg fd) p)"
    and alone: "ok fd \<Longrightarrow> server_ct fd = 1 \<Longrightarrow> 0 \<le> x \<Longrightarrow> near fd x \<Longrightarrow> mine (cfg fd) x \<and> l2p (cfg fd) x = x"
    and size_free: "next_mapped_offset methods (fd\<lparr>fsize := s\<rparr>) = next_mapped_offset methods fd"
      "logical_to_physical_offset methods (fd\<lparr>fsize := s\<rparr>) = logical_to_physical_offset methods fd"
      "contiguous_length methods (fd\<lparr>fsize := s\<rparr>) = contiguous_length methods fd"
      "ok (fd\<lparr>fsize := s\<rparr>) = ok fd" "mine (cfg (fd\<lparr>fsize := s\<rparr>)) = mine (cfg fd)" "near (fd\<lparr>fsize := s\<rparr>) = near fd"
      "l2p (cfg (fd\<lparr>fsize := s\<rparr>)) = l2p (cfg fd)"

sublocale dist_methods \<subseteq> io: dist_server methods ok "\<lambda>fd. mine (cfg fd)" near "\<lambda>fd. l2p (cfg fd)"
proof (unfold_locales, goal_cases)
  case (1 fd x)
  note v = cfg_ok [OF 1(1)] and l = near_lin [OF 1]
  show ?case using meth_next [OF 1] next_mine [OF v 1(2) l] next_first [OF v 1(2) l] by auto
next
  case (2 fd x n)
  then show ?case using meth_next [OF 2(1-3)] meth_l2p [OF 2(1-3)] by simp
next
  case (3 fd x)
  note v = cfg_ok [OF 3(1)] and l = near_lin [OF 3(1-3)]
  note p = p2l_l2p [OF v 3(2) l 3(4)]
  show ?case
    using meth_contig [OF 3(1), of "l2p (cfg fd) x"] contig_pos [OF v, of "l2p (cfg fd) x"] p contig_mine [OF v 3(2) l 3(4)]
    by (intro exI [of _ "contig (cfg fd) (l2p (cfg fd) x)"]) auto
next
  case (4 fd x)
  then show ?case by (rule alone)
qed (simp_all add: size_free)

context dist_methods
begin

text \<open>
  A call with room for the whole request, on a file that may be extended or that holds all
  the bytes of the request, reaches the final offset.
\<close>

lemma transfer_all:
  assumes ok: "ok fd" and w: "walks r req" and target: "target_offset req \<le> final_offset req"
    and res: "res_ok res" "bytemax res \<noteq> 0"
    and room: "segs res + (final_offset req - max (type_offset req) (target_offset req)) < segmax res"
      "res_bytes res + (final_offset req - max (type_offset req) (target_offset req)) < bytemax res"
    and near: "\<forall>x \<in> set (stream r (copies r (final_offset req))). 0 \<le> x \<and> (\<forall>y. 0 \<le> y \<and> y \<le> x + 1 \<longrightarrow> near fd y)"
    and inside: "extend_flag fd \<or> (\<forall>i. max (type_offset req) (target_offset req) \<le> i \<and> i < final_offset req \<longrightarrow>
      mine (cfg fd) (stream r (copies r (final_offset req)) ! nat i) \<longrightarrow>
      l2p (cfg fd) (stream r (copies r (final_offset req)) ! nat i) < fsize fd)"
  obtains req' fd' res' where
    "PINT_process_request (Some methods) (Some req) mem fd (Some res) PINT_SERVER = Some (0, Some req', mem, fd', Some res')"
    "type_offset req' = final_offset req"
    "adds res res' (map (l2p (cfg fd)) (filter (mine (cfg fd))
       (slice (stream r (copies r (final_offset req))) (max (type_offset req) (target_offset req)) (final_offset req))))"
    "grown fd fd' (map (l2p (cfg fd)) (filter (mine (cfg fd))
       (slice (stream r (copies r (final_offset req))) (max (type_offset req) (target_offset req)) (final_offset req))))"
proof -
  let ?P = "stream r (copies r (final_offset req))" and ?s = "max (type_offset req) (target_offset req)"
  let ?G = "\<lambda>xs. map (l2p (cfg fd)) (filter (mine (cfg fd)) xs)"
  have st: "?s \<le> final_offset req" using w target by (auto simp: walks_def)
  have r: "segs res < segmax res" "res_bytes res < bytemax res" using room st by linarith+
  obtain req' fd' res' where
    run: "process_with (PINT_distribute (Some methods)) (Some req) mem fd (Some res) PINT_SERVER = Some (0, Some req', mem, fd', Some res')"
    and w': "walks r req'" "final_offset req' = final_offset req" "target_offset req' = target_offset req"
    and t: "?s \<le> type_offset req'"
    and a: "adds res res' (?G (slice ?P ?s (type_offset req')))"
    and g: "grown fd fd' (?G (slice ?P ?s (type_offset req')))"
    and stop: "type_offset req' = final_offset req \<or> segs res' = segmax res \<or> res_bytes res' = bytemax res \<or>
      eof_flag req' \<and> (\<exists>i. type_offset req' \<le> i \<and> i < final_offset req \<and>
        (\<not> extend_flag fd' \<and> mine (cfg fd') (?P ! nat i) \<and> fsize fd' \<le> l2p (cfg fd') (?P ! nat i)) \<and>
        map (l2p (cfg fd')) (filter (mine (cfg fd')) (slice ?P (type_offset req') i)) = [])"
    by (rule io.server.process_exact [OF _ _ w target res(1) r res(2) ok near]) (auto simp: mode_defs)
  have le: "type_offset req' \<le> final_offset req" using w'(1,2) by (simp add: walks_def)
  have "length (?G (slice ?P ?s (type_offset req'))) \<le> length (slice ?P ?s (type_offset req'))" by simp
  also have "\<dots> \<le> nat (type_offset req' - ?s)" by (simp add: slice_def)
  finally have "int (length (?G (slice ?P ?s (type_offset req')))) \<le> final_offset req - ?s" using le t by linarith
  then have "segs res' \<noteq> segmax res" "res_bytes res' \<noteq> bytemax res" using a room by (auto simp: adds_def)
  moreover obtain s' where fd': "fd' = fd\<lparr>fsize := s'\<rparr>" "\<not> extend_flag fd \<longrightarrow> s' = fsize fd" using g by (auto simp: grown_def)
  have False if "type_offset req' \<le> i" "i < final_offset req" "\<not> extend_flag fd'" "mine (cfg fd') (?P ! nat i)"
      "fsize fd' \<le> l2p (cfg fd') (?P ! nat i)" for i
  proof -
    have "?s \<le> i" using t that(1) by simp
    then show False using inside that(2-) fd' by (auto simp: size_free)
  qed
  ultimately have e: "type_offset req' = final_offset req" using stop by blast
  show thesis by (rule that [OF _ e]) (use run a g e in \<open>simp_all add: PINT_process_request_def\<close>)
qed

text \<open>The servers \<open>srv\<close> of a file, of which each byte has one owner.\<close>

lemma spread_once:
  fixes n :: int
  assumes "\<And>s. 0 \<le> s \<Longrightarrow> s < n \<Longrightarrow> valid (c s)"
    and "\<And>x. x \<in> set xs \<Longrightarrow> 0 \<le> x \<and> (\<forall>s. 0 \<le> s \<and> s < n \<longrightarrow> lin (c s) x) \<and> (\<exists>!s. 0 \<le> s \<and> s < n \<and> mine (c s) x)"
  shows "(\<Sum>s\<in>{0..<n}. mset (map (p2l (c s)) (map (l2p (c s)) (filter (mine (c s)) xs)))) = mset xs"
proof -
  have "map (p2l (c s)) (map (l2p (c s)) (filter (mine (c s)) xs)) = filter (mine (c s)) xs" if "s \<in> {0..<n}" for s
  proof -
    have "p2l (c s) (l2p (c s) x) = x" if "x \<in> set (filter (mine (c s)) xs)" for x
      using p2l_l2p [of "c s" x] assms(1) [of s] assms(2) [of x] that \<open>s \<in> {0..<n}\<close> by auto
    then show ?thesis by (auto intro: map_idI)
  qed
  then have "(\<Sum>s\<in>{0..<n}. mset (map (p2l (c s)) (map (l2p (c s)) (filter (mine (c s)) xs)))) = (\<Sum>s\<in>{0..<n}. mset (filter (mine (c s)) xs))"
    by (intro sum.cong) auto
  also have "\<dots> = mset xs" by (rule mset_owners) (use assms(2) in blast)
  finally show ?thesis .
qed

text \<open>Together: new calls on all servers, on a file of which the bytes of the request are there or may be added.\<close>

lemma transfer_once:
  fixes n :: int
  assumes r: "regular r" and t: "0 \<le> t" "t \<le> f"
    and ok: "\<And>s. 0 \<le> s \<Longrightarrow> s < n \<Longrightarrow> ok (srv s)"
    and near: "\<And>s x y. 0 \<le> s \<Longrightarrow> s < n \<Longrightarrow> x \<in> set (stream r (copies r f)) \<Longrightarrow> 0 \<le> y \<Longrightarrow> y \<le> x + 1 \<Longrightarrow> near (srv s) y"
    and pos: "\<forall>x \<in> set (stream r (copies r f)). 0 \<le> x"
    and owner: "\<And>x. x \<in> set (stream r (copies r f)) \<Longrightarrow> \<exists>!s. 0 \<le> s \<and> s < n \<and> mine (cfg (srv s)) x"
    and inside: "\<And>s x. 0 \<le> s \<Longrightarrow> s < n \<Longrightarrow> x \<in> set (slice (stream r (copies r f)) t f) \<Longrightarrow> mine (cfg (srv s)) x \<Longrightarrow>
      extend_flag (srv s) \<or> l2p (cfg (srv s)) x < fsize (srv s)"
    and res: "\<And>s. 0 \<le> s \<Longrightarrow> s < n \<Longrightarrow> empty_result (f - t) (res s)"
  shows "\<exists>res'. (\<forall>s \<in> {0..<n}. \<exists>req' fd'.
      PINT_process_request (Some methods) (Some (new_state r\<lparr>target_offset := t, final_offset := f\<rparr>)) None (srv s) (Some (res s)) PINT_SERVER =
        Some (0, Some req', None, fd', Some (res' s)) \<and> type_offset req' = f) \<and>
    (\<Sum>s\<in>{0..<n}. mset (map (p2l (cfg (srv s))) (out (res' s)))) = mset (slice (stream r (copies r f)) t f)"
proof -
  let ?req = "new_state r\<lparr>target_offset := t, final_offset := f\<rparr>" and ?P = "stream r (copies r f)"
  let ?G = "\<lambda>s. map (l2p (cfg (srv s))) (filter (mine (cfg (srv s))) (slice ?P t f))"
  have f: "0 \<le> f" using t by simp
  have len: "f < int (length ?P)" by (rule copies_enough [OF r f])
  have w: "walks r ?req" by (rule walks_new_state [OF r f])
  have st: "max (type_offset ?req) (target_offset ?req) = t" "final_offset ?req = f" using t by (simp_all add: new_state_def)
  have sub: "set (slice ?P t f) \<subseteq> set ?P" unfolding slice_def using set_take_subset set_drop_subset by (meson order_trans)
  have "\<exists>res' req' fd'. PINT_process_request (Some methods) (Some ?req) None (srv s) (Some (res s)) PINT_SERVER =
      Some (0, Some req', None, fd', Some res') \<and> type_offset req' = f \<and> out res' = ?G s" if s: "0 \<le> s" "s < n" for s
  proof -
    note e = res [OF s, unfolded empty_result_def]
    have in1: "extend_flag (srv s) \<or> (\<forall>i. t \<le> i \<and> i < f \<longrightarrow> mine (cfg (srv s)) (?P ! nat i) \<longrightarrow> l2p (cfg (srv s)) (?P ! nat i) < fsize (srv s))"
      using inside [OF s] nth_slice [of t _ f ?P] t(1) len by (metis less_imp_le)
    obtain req' fd' res' where "PINT_process_request (Some methods) (Some ?req) None (srv s) (Some (res s)) PINT_SERVER =
      Some (0, Some req', None, fd', Some res')" "type_offset req' = f" "adds (res s) res' (?G s)"
      by (rule transfer_all [OF ok [OF s] w, of "res s" None, unfolded st]) (use e t in1 near [OF s] pos in auto)
    moreover have "out (res s) = []" using e by (simp add: out_def seg_list_def)
    ultimately show ?thesis by (auto simp: adds_def)
  qed
  then obtain res' where res': "\<And>s. 0 \<le> s \<Longrightarrow> s < n \<Longrightarrow> \<exists>req' fd'. PINT_process_request (Some methods) (Some ?req) None (srv s) (Some (res s)) PINT_SERVER =
      Some (0, Some req', None, fd', Some (res' s)) \<and> type_offset req' = f \<and> out (res' s) = ?G s"
    by metis
  have "(\<Sum>s\<in>{0..<n}. mset (map (p2l (cfg (srv s))) (out (res' s)))) = (\<Sum>s\<in>{0..<n}. mset (map (p2l (cfg (srv s))) (?G s)))"
  proof (rule sum.cong [OF refl])
    fix s assume "s \<in> {0..<n}"
    then have "out (res' s) = ?G s" using res' [of s] by (auto simp only: atLeastLessThan_iff)
    then show "mset (map (p2l (cfg (srv s))) (out (res' s))) = mset (map (p2l (cfg (srv s))) (?G s))" by (simp only:)
  qed
  also have "\<dots> = mset (slice ?P t f)"
  proof (rule spread_once [of n "\<lambda>s. cfg (srv s)"], goal_cases)
    case (1 s)
    then show ?case using cfg_ok ok by blast
  next
    case (2 x)
    have "lin (cfg (srv s)) x" if "0 \<le> s" "s < n" for s
      by (rule near_lin [OF ok [OF that]]) (use near [OF that, of x x] pos 2 sub in auto)
    then show ?case using owner [of x] pos 2 sub by blast
  qed
  finally have total: "(\<Sum>s\<in>{0..<n}. mset (map (p2l (cfg (srv s))) (out (res' s)))) = mset (slice ?P t f)" .
  show ?thesis
  proof (intro exI [of _ res'] conjI ballI total)
    fix s assume "s \<in> {0..<n}"
    then have "0 \<le> s" "s < n" by simp_all
    from res' [OF this] show "\<exists>req' fd'. PINT_process_request (Some methods) (Some ?req) None (srv s) (Some (res s)) PINT_SERVER =
        Some (0, Some req', None, fd', Some (res' s)) \<and> type_offset req' = f" by blast
  qed
qed

end

section \<open>The methods of the distributions\<close>

definition simple_stripe_methods :: "PVFS_simple_stripe_params \<Rightarrow> PINT_dist_methods" where
  "simple_stripe_methods dparam =
     \<lparr>logical_to_physical_offset = \<lambda>fd x. Some (ss_logical_to_physical_offset dparam fd x),
      next_mapped_offset = \<lambda>fd x. Some (ss_next_mapped_offset dparam fd x),
      contiguous_length = \<lambda>fd p. Some (ss_contiguous_length dparam fd p)\<rparr>"

definition basic_methods :: PINT_dist_methods where
  "basic_methods =
     \<lparr>logical_to_physical_offset = \<lambda>fd x. Some (bd_logical_to_physical_offset fd x),
      next_mapped_offset = \<lambda>fd x. Some (bd_next_mapped_offset fd x),
      contiguous_length = \<lambda>fd p. Some (bd_contiguous_length fd p)\<rparr>"

definition twod_stripe_methods :: "PVFS_twod_stripe_params \<Rightarrow> PINT_dist_methods" where
  "twod_stripe_methods dparam =
     \<lparr>logical_to_physical_offset = \<lambda>fd x. Some (tw_logical_to_physical_offset dparam fd x),
      next_mapped_offset = \<lambda>fd x. Some (tw_next_mapped_offset dparam fd x),
      contiguous_length = \<lambda>fd p. Some (tw_contiguous_length dparam fd p)\<rparr>"

definition varstrip_methods :: "vs_params \<Rightarrow> PINT_dist_methods" where
  "varstrip_methods params =
     \<lparr>logical_to_physical_offset = vs_logical_to_physical_offset params,
      next_mapped_offset = vs_next_mapped_offset params,
      contiguous_length = vs_contiguous_length params\<rparr>"

text \<open>They depend on the number of the server and the number of servers only.\<close>

lemma ss_server_cong:
  assumes "server_nr fd = server_nr fd'" "server_ct fd = server_ct fd'"
  shows "ss_logical_to_physical_offset dparam fd = ss_logical_to_physical_offset dparam fd'"
    "ss_physical_to_logical_offset dparam fd = ss_physical_to_logical_offset dparam fd'"
    "ss_next_mapped_offset dparam fd = ss_next_mapped_offset dparam fd'"
    "ss_contiguous_length dparam fd = ss_contiguous_length dparam fd'"
    "ss_mine (dparam, fd) = ss_mine (dparam, fd')" "ss_valid (dparam, fd) = ss_valid (dparam, fd')"
  unfolding fun_eq_iff ss_logical_to_physical_offset_def ss_physical_to_logical_offset_def ss_next_mapped_offset_def
    ss_contiguous_length_def ss_mine_def ss_valid_def prod.case assms
  by simp_all

lemmas ss_size_free [simp] = ss_server_cong [of "fd\<lparr>fsize := s\<rparr>" fd for fd s, simplified]

lemma tw_server_cong:
  assumes "server_nr fd = server_nr fd'" "server_ct fd = server_ct fd'"
  shows "tw_logical_to_physical_offset dparam fd = tw_logical_to_physical_offset dparam fd'"
    "tw_physical_to_logical_offset dparam fd = tw_physical_to_logical_offset dparam fd'"
    "tw_next_mapped_offset dparam fd = tw_next_mapped_offset dparam fd'"
    "tw_contiguous_length dparam fd = tw_contiguous_length dparam fd'"
    "tw_mine (dparam, fd) = tw_mine (dparam, fd')" "tw_valid (dparam, fd) = tw_valid (dparam, fd')"
    "tw_lin (dparam, fd) = tw_lin (dparam, fd')"
proof -
  have g: "tw_group k n fd = tw_group k n fd'" for k n unfolding tw_group_def assms by simp
  have i: "server_nr (tw_inner dparam fd) = server_nr (tw_inner dparam fd')" "server_ct (tw_inner dparam fd) = server_ct (tw_inner dparam fd')"
    "tw_first dparam fd = tw_first dparam fd'" "tw_global dparam fd = tw_global dparam fd'"
    using assms by (simp_all add: tw_inner_def tw_first_def tw_global_def g split: prod.split)
  note s = ss_server_cong(5) [OF i(1,2)]
  show p: "tw_physical_to_logical_offset dparam fd = tw_physical_to_logical_offset dparam fd'"
    unfolding fun_eq_iff tw_physical_to_logical_offset_def g assms by simp
  show "tw_next_mapped_offset dparam fd = tw_next_mapped_offset dparam fd'"
    unfolding fun_eq_iff tw_next_mapped_offset_def g assms p by simp
  show "tw_logical_to_physical_offset dparam fd = tw_logical_to_physical_offset dparam fd'"
    unfolding fun_eq_iff tw_logical_to_physical_offset_def g assms by simp
  show "tw_contiguous_length dparam fd = tw_contiguous_length dparam fd'" "tw_valid (dparam, fd) = tw_valid (dparam, fd')"
    unfolding fun_eq_iff tw_contiguous_length_def tw_valid_def prod.case assms by simp_all
  show "tw_mine (dparam, fd) = tw_mine (dparam, fd')" "tw_lin (dparam, fd) = tw_lin (dparam, fd')"
    unfolding fun_eq_iff tw_mine_def tw_lin_def prod.case i s by simp_all
qed

lemmas tw_size_free [simp] = tw_server_cong [of "fd\<lparr>fsize := s\<rparr>" fd for fd s, simplified]

text \<open>A file with one server.\<close>

lemma count_all:
  assumes "\<And>y. Q y" "0 \<le> x"
  shows "int (card {y. 0 \<le> y \<and> y < x \<and> Q y}) = (x::int)"
proof -
  have "{y. 0 \<le> y \<and> y < x \<and> Q y} = {0..<x}" using assms(1) by auto
  then show ?thesis using assms(2) by simp
qed

interpretation ssio: dist_methods ss_valid
  "\<lambda>(dparam, fd). ss_logical_to_physical_offset dparam fd"
  "\<lambda>(dparam, fd). ss_physical_to_logical_offset dparam fd"
  "\<lambda>(dparam, fd). ss_next_mapped_offset dparam fd"
  "\<lambda>(dparam, fd). ss_contiguous_length dparam fd"
  ss_mine "\<lambda>_ _. True" "\<lambda>_ _. True"
  "simple_stripe_methods p" "\<lambda>fd. ss_valid (p, fd)" "\<lambda>fd. (p, fd)" "\<lambda>_ _. True" for p
proof (unfold_locales, goal_cases)
  case (6 fd x)
  have m: "ss_mine (p, fd) y" for y using 6(1,2) by (auto simp: ss_valid_def ss_mine_def)
  show ?case using ss.rank [OF 6(1,3)] m count_all [of "ss_mine (p, fd)" x] 6(3) by simp
qed (simp_all add: simple_stripe_methods_def)

interpretation bdio: dist_methods "\<lambda>_. True" bd_logical_to_physical_offset bd_physical_to_logical_offset
  bd_next_mapped_offset bd_contiguous_length "\<lambda>_ _. True" "\<lambda>_ _. True" "\<lambda>_ _. True"
  basic_methods "\<lambda>_. True" "\<lambda>fd. fd" "\<lambda>_ _. True"
  by unfold_locales (simp_all add: basic_methods_def bd_defs fun_eq_iff)

lemma tw_single_mine:
  assumes "tw_valid (dparam, fd)" "server_ct fd = 1"
  shows "tw_mine (dparam, fd) x"
proof -
  let ?srv = "\<lambda>s. \<lparr>fsize = 0, server_nr = s, server_ct = 1, extend_flag = False\<rparr>"
  have v: "0 < twod_strip_size dparam" "0 < group_strip_factor dparam" "0 < num_groups dparam" "num_groups dparam \<le> 1"
    "1 * group_strip_factor dparam < 2 ^ 32" "server_nr fd = 0"
    using assms by (auto simp: tw_valid_def)
  obtain s where "0 \<le> s" "s < 1" "tw_mine (dparam, ?srv s) x" using ex1_implies_ex [OF tw_owner [OF v(1-5)], of x] by blast
  moreover have "s = 0" using calculation by simp
  ultimately have "tw_mine (dparam, ?srv 0) x" by simp
  then show ?thesis using tw_server_cong(5) [of fd "?srv 0" dparam] assms(2) v(6) by simp
qed

interpretation twio: dist_methods tw_valid
  "\<lambda>(dparam, fd). tw_logical_to_physical_offset dparam fd"
  "\<lambda>(dparam, fd). tw_physical_to_logical_offset dparam fd"
  "\<lambda>(dparam, fd). tw_next_mapped_offset dparam fd"
  "\<lambda>(dparam, fd). tw_contiguous_length dparam fd"
  tw_mine tw_lin tw_pin
  "twod_stripe_methods p" "\<lambda>fd. tw_valid (p, fd)" "\<lambda>fd. (p, fd)" "\<lambda>fd. tw_lin (p, fd)" for p
proof (unfold_locales, goal_cases)
  case (6 fd x)
  have m: "tw_mine (p, fd) y" for y using tw_single_mine 6(1,2) by simp
  show ?case using twc.rank [OF 6(1,3)] m count_all [of "tw_mine (p, fd)" x] 6(3) by simp
qed (simp_all add: twod_stripe_methods_def)

text \<open>
  The servers of a variable strip file are those that the parameter string names.
\<close>

definition vs_strips :: "vs_params \<Rightarrow> PINT_dist_strips list" where
  "vs_strips params = (case PINT_dist_strips_parse (Some params) of Some (Inr strips) \<Rightarrow> strips | _ \<Rightarrow> [])"

definition vs_ok :: "vs_params \<Rightarrow> PINT_request_file_data \<Rightarrow> bool" where
  "vs_ok params fd \<longleftrightarrow> (\<forall>s \<in> set (vs_strips params). 0 \<le> s_server_nr s \<and> s_server_nr s < server_ct fd) \<and>
     server_nr fd \<in> s_server_nr ` set (vs_strips params)"

lemma vs_strips_parse:
  assumes "vs_strips params \<noteq> []"
  shows "PINT_dist_strips_parse (Some params) = Some (Inr (vs_strips params))"
  using assms by (simp add: vs_strips_def split: option.splits sum.splits)

lemma vs_strips_laid_out:
  assumes "vs_strips params \<noteq> []"
  shows "laid_out 0 (vs_strips params)"
  using vs_strips_parse [OF assms] strips_loop_laid_out [of _ _ "[]" "vs_strips params"]
  by (auto simp: PINT_dist_strips_parse_def split: option.splits if_splits)

lemma vs_ok_valid:
  assumes "vs_ok params fd"
  shows "vs_valid (vs_strips params, server_nr fd)" "vs_strips params \<noteq> []"
proof -
  show n: "vs_strips params \<noteq> []" using assms by (auto simp: vs_ok_def)
  then show "vs_valid (vs_strips params, server_nr fd)" using vs_strips_laid_out assms by (auto simp: vs_valid_def vs_ok_def)
qed

lemma vs_owner:
  assumes "vs_strips params \<noteq> []" "0 \<le> x"
  obtains t where "t \<in> set (vs_strips params)" "\<And>s. vs_mine (vs_strips params, s) x \<longleftrightarrow> s_server_nr t = s"
proof -
  let ?ss = "vs_strips params"
  note ss = vs_strips_laid_out [OF assms(1)]
  have "vs_valid (?ss, s_server_nr (hd ?ss))" using assms(1) ss by (auto simp: vs_valid_def)
  then have T: "0 < total_size ?ss" by (rule vs_validD(2))
  let ?y = "x mod total_size ?ss"
  have y: "0 \<le> ?y" "?y < 0 + total_size ?ss" using T by simp_all
  obtain pre t post where t: "?ss = pre @ t # post" "s_offset t \<le> ?y" "?y < s_offset t + s_size t"
    by (rule laid_out_split [OF ss y])
  have "vs_mine (?ss, s) x \<longleftrightarrow> s_server_nr t = s" for s
    using in_mine_split [of 0 pre t post ?y s] t ss by (simp add: vs_mine_def)
  then show thesis using that [of t] t(1) by simp
qed

interpretation vsio: dist_methods vs_valid
  "\<lambda>(ss, nr). vs_l2p_in ss nr" "\<lambda>(ss, nr) p. the (vs_p2l_in ss nr p)" "\<lambda>(ss, nr) x. the (vs_next_in ss nr x)"
  "\<lambda>(ss, nr) p. vs_contig_in ss (the (vs_p2l_in ss nr p))" vs_mine vs_lin vs_pin
  "varstrip_methods p" "vs_ok p" "\<lambda>fd. (vs_strips p, server_nr fd)" "\<lambda>fd. vs_lin (vs_strips p, server_nr fd)" for p
proof (unfold_locales, goal_cases)
  case (1 fd)
  then show ?case by (rule vs_ok_valid)
next
  case (2 fd x)
  then show ?case by simp
next
  case (3 fd x)
  note v = vs_ok_valid [OF 3(1)]
  show ?case
    using vs_strips_parse [OF v(2)] vs_next_in_eq [OF v(1) 3(2,3)]
    by (simp add: varstrip_methods_def vs_next_mapped_offset_def vs_parsed_def)
next
  case (4 fd x)
  note v = vs_ok_valid [OF 4(1)]
  show ?case
    using vs_strips_parse [OF v(2)] by (simp add: varstrip_methods_def vs_logical_to_physical_offset_def vs_parsed_def)
next
  case (5 fd x)
  note v = vs_ok_valid [OF 5(1)]
  show ?case
    using vs_strips_parse [OF v(2)] vs_p2l_in_eq [OF v(1) 5(2,3)]
    by (simp add: varstrip_methods_def vs_contiguous_length_def vs_physical_to_logical_offset_def vs_parsed_def)
next
  case (6 fd x)
  note v = vs_ok_valid [OF 6(1)]
  have zero: "s_server_nr t = 0" if "t \<in> set (vs_strips p)" for t
    using 6(1,2) that zero_less_one_class.zero_le_one by (auto simp: vs_ok_def dest!: bspec [of _ _ t])
  then have one: "s_server_nr t = server_nr fd" if "t \<in> set (vs_strips p)" for t
    using 6(1) that by (auto simp: vs_ok_def)
  have m: "0 \<le> y \<Longrightarrow> vs_mine (vs_strips p, server_nr fd) y" for y
    by (rule vs_owner [OF v(2), of y]) (use one in auto)
  have "{y. 0 \<le> y \<and> y < x \<and> vs_mine (vs_strips p, server_nr fd) y} = {0..<x}" using m by auto
  then have "vs_rank (vs_strips p, server_nr fd) x = x" using vsc.rank [OF v(1) 6(3)] 6(3) by simp
  then show ?case using m [OF 6(3)] vs_l2p_in_eq [OF v(1) 6(3,4)] by simp
qed (simp_all add: varstrip_methods_def vs_ok_def fun_eq_iff vs_next_mapped_offset_def vs_logical_to_physical_offset_def
  vs_contiguous_length_def vs_physical_to_logical_offset_def)

section \<open>Properties\<close>

text \<open>Two blocks of two elements of four bytes, 16 bytes apart, and a result for up to 64 segments.\<close>

definition ex_request :: request where
  "ex_request = At (PINT_Request 0 2 2 16 24 0 16 2 2 1 0 0 (Some (At (PINT_Request 0 1 0 1 4 0 4 1 1 0 0 (- 1) None None))) None)"

definition ex_result :: PINT_Request_result where
  "ex_result = \<lparr>offset_array = Some (replicate 64 0), size_array = Some (replicate 64 0), segmax = 64, segs = 0, bytemax = 64, res_bytes = 0\<rparr>"

lemma ex_request_regular: "regular ex_request"
  by code_simp

lemma ex_request_stream:
  "stream ex_request (copies ex_request 16) = [0..7] @ [16..23] @ [24..31] @ [40..47]"
  "slice ([0..7] @ [16..23] @ [24..31] @ [40..47]) 0 16 = [0..7] @ [16..23 :: int]"
  by code_simp+

lemma ex_result_empty: "n < 64 \<Longrightarrow> empty_result n ex_result"
  by (simp add: empty_result_def ex_result_def res_ok_def seg_list_def)

lemma ex_walks: "walks ex_request (new_state ex_request\<lparr>target_offset := t, final_offset := 16\<rparr>)"
  by (rule walks_new_state [OF ex_request_regular]) simp

text \<open>
  C11. A server of a simple stripe file, asked to process a part of a regular request, returns exactly
  the physical offsets of the bytes that it stores of the request, in the order of the request,
  from the target offset (or from where the state stands) on. It stops only at the final
  offset, when the result is full, or at the end of a file that may not be extended: the
  next byte of the request that the server stores is then behind the end of the file, so no
  byte inside the file is left out. It extends the file as far as needed otherwise; and the
  call can be repeated on the state that it leaves. A regular request is one for which the
  shortcuts of the walk for contiguous data are right, as they are for the requests that the
  constructors build from blocks in ascending order.
\<close>

theorem ss_process_request:
  assumes "ss_valid (dparam, fd)" "walks r req" "target_offset req \<le> final_offset req"
    and "res_ok res" "segs res < segmax res" "res_bytes res < bytemax res" "bytemax res \<noteq> 0"
    and "\<forall>x \<in> set (stream r (copies r (final_offset req))). 0 \<le> x"
  defines "start \<equiv> max (type_offset req) (target_offset req)" and "P \<equiv> stream r (copies r (final_offset req))"
    and "stored \<equiv> \<lambda>xs. map (ss_logical_to_physical_offset dparam fd) (filter (ss_mine (dparam, fd)) xs)"
  shows "\<exists>req' fd' res'. PINT_process_request (Some (simple_stripe_methods dparam)) (Some req) mem fd (Some res) PINT_SERVER =
      Some (0, Some req', mem, fd', Some res') \<and> walks r req' \<and>
    final_offset req' = final_offset req \<and> start \<le> type_offset req' \<and> type_offset req' \<le> final_offset req \<and>
    adds res res' (stored (slice P start (type_offset req'))) \<and> grown fd fd' (stored (slice P start (type_offset req'))) \<and>
    (type_offset req' = final_offset req \<or> segs res' = segmax res \<or> res_bytes res' = bytemax res \<or>
     \<not> extend_flag fd \<and> (\<exists>i. type_offset req' \<le> i \<and> i < final_offset req \<and> ss_mine (dparam, fd) (P ! nat i) \<and>
       fsize fd \<le> ss_logical_to_physical_offset dparam fd (P ! nat i) \<and> stored (slice P (type_offset req') i) = []))"
proof -
  obtain req' fd' res' where
    run: "process_with (PINT_distribute (Some (simple_stripe_methods dparam))) (Some req) mem fd (Some res) PINT_SERVER = Some (0, Some req', mem, fd', Some res')"
    and w': "walks r req'" "final_offset req' = final_offset req" "target_offset req' = target_offset req"
    and t: "start \<le> type_offset req'"
    and a: "adds res res' (stored (slice P start (type_offset req')))"
    and g: "grown fd fd' (stored (slice P start (type_offset req')))"
    and stop: "type_offset req' = final_offset req \<or> segs res' = segmax res \<or> res_bytes res' = bytemax res \<or>
      eof_flag req' \<and> (\<exists>i. type_offset req' \<le> i \<and> i < final_offset req \<and>
        (\<not> extend_flag fd' \<and> ss_mine (dparam, fd') (P ! nat i) \<and> fsize fd' \<le> ss_logical_to_physical_offset dparam fd' (P ! nat i)) \<and>
        map (ss_logical_to_physical_offset dparam fd') (filter (ss_mine (dparam, fd')) (slice P (type_offset req') i)) = [])"
    by (rule ssio.io.server.process_exact [OF _ _ assms(2-7), where p = dparam and fd = fd and mem = mem, unfolded prod.case, folded P_def start_def])
      (use assms(1) assms(8) [folded P_def] in \<open>auto simp: mode_defs stored_def\<close>)
  obtain s' where "fd' = fd\<lparr>fsize := s'\<rparr>" "\<not> extend_flag fd \<longrightarrow> s' = fsize fd" using g by (auto simp: grown_def)
  then have stop': "type_offset req' = final_offset req \<or> segs res' = segmax res \<or> res_bytes res' = bytemax res \<or>
     \<not> extend_flag fd \<and> (\<exists>i. type_offset req' \<le> i \<and> i < final_offset req \<and> ss_mine (dparam, fd) (P ! nat i) \<and>
       fsize fd \<le> ss_logical_to_physical_offset dparam fd (P ! nat i) \<and> stored (slice P (type_offset req') i) = [])"
    using stop by (auto simp: stored_def)
  have le: "type_offset req' \<le> final_offset req" using w' by (simp add: walks_def)
  show ?thesis
    by (intro exI [of _ req'] exI [of _ fd'] exI [of _ res'] conjI) (use run w' t le a g stop' in \<open>auto simp: PINT_process_request_def\<close>)
qed

theorem ss_process_request_witness:
  "\<exists>req' fd' res'. PINT_process_request (Some (simple_stripe_methods \<lparr>strip_size = 8\<rparr>)) (Some (new_state ex_request\<lparr>target_offset := 2, final_offset := 16\<rparr>)) None
      \<lparr>fsize = 4, server_nr = 1, server_ct = 2, extend_flag = True\<rparr> (Some ex_result) PINT_SERVER =
      Some (0, Some req', None, fd', Some res') \<and> walks ex_request req'"
proof -
  let ?fd = "\<lparr>fsize = 4, server_nr = 1, server_ct = 2, extend_flag = True\<rparr>" and ?req = "new_state ex_request\<lparr>target_offset := 2, final_offset := 16\<rparr>"
  have "ss_valid (\<lparr>strip_size = 8\<rparr>, ?fd)" by (simp add: ss_valid_def)
  moreover have "target_offset ?req \<le> final_offset ?req" "\<forall>x \<in> set (stream ex_request (copies ex_request (final_offset ?req))). 0 \<le> x"
    by (simp_all add: ex_request_stream)
  moreover have "res_ok ex_result" "segs ex_result < segmax ex_result" "res_bytes ex_result < bytemax ex_result" "bytemax ex_result \<noteq> 0"
    using ex_result_empty [of 0] by (simp_all add: empty_result_def ex_result_def)
  ultimately show ?thesis using ss_process_request [OF _ ex_walks [of 2]] by blast
qed

text \<open>
  C4. Reading or writing a regular request on a simple stripe file transfers each byte of the request exactly
  once: when all servers process the request on a file of \<open>L\<close> bytes that contains it or may be
  extended, with room for the result, each of them reaches the final offset, and the logical
  offsets of all segments that they return are those of the request, with the same multiplicity.
  A regular request is one for which the shortcuts of the walk for contiguous data are right, as they
  are for the requests that the constructors build from blocks in ascending order; its offsets are not negative.
\<close>

theorem ss_transfer_once:
  assumes "0 < strip_size dparam" "0 < n" "n < 2 ^ 32" "regular r" "0 \<le> t" "t \<le> f" "0 \<le> L"
    and "\<forall>x \<in> set (stream r (copies r f)). 0 \<le> x"
    and "ext \<or> (\<forall>x \<in> set (slice (stream r (copies r f)) t f). x < L)"
    and "\<forall>s \<in> {0..<n}. empty_result (f - t) (res s)"
  defines "srv \<equiv> \<lambda>s. \<lparr>fsize = ss_logical_to_physical_offset dparam \<lparr>fsize = 0, server_nr = s, server_ct = n, extend_flag = False\<rparr> L,
    server_nr = s, server_ct = n, extend_flag = ext\<rparr>"
  shows "\<exists>res'. (\<forall>s \<in> {0..<n}. \<exists>req' fd'.
      PINT_process_request (Some (simple_stripe_methods dparam)) (Some (new_state r\<lparr>target_offset := t, final_offset := f\<rparr>)) None
        (srv s) (Some (res s)) PINT_SERVER = Some (0, Some req', None, fd', Some (res' s)) \<and> type_offset req' = f) \<and>
    (\<Sum>s\<in>{0..<n}. mset (map (ss_physical_to_logical_offset dparam (srv s)) (out (res' s)))) = mset (slice (stream r (copies r f)) t f)"
proof -
  have valid: "ss_valid (dparam, srv s)" if "0 \<le> s" "s < n" for s using assms(1-3) that by (simp add: ss_valid_def srv_def)
  have srv: "ss_logical_to_physical_offset dparam (srv s) L = fsize (srv s)" for s
    using ss_server_cong(1) [of "srv s" "\<lparr>fsize = 0, server_nr = s, server_ct = n, extend_flag = False\<rparr>" dparam] by (simp add: srv_def)
  show ?thesis
  proof (rule ssio.transfer_once [where p = dparam and srv = srv and res = res, unfolded prod.case])
    fix x assume "x \<in> set (stream r (copies r f))"
    have "0 \<le> x div strip_size dparam mod n" "x div strip_size dparam mod n < n" using assms(2) by simp_all
    then show "\<exists>!s. 0 \<le> s \<and> s < n \<and> ss_mine (dparam, srv s) x"
      by (intro ex1I [of _ "x div strip_size dparam mod n"]) (auto simp: ss_mine_def srv_def)
  next
    fix s x assume s: "0 \<le> s" "s < n" "x \<in> set (slice (stream r (copies r f)) t f)" "ss_mine (dparam, srv s) x"
    have "x \<in> set (stream r (copies r f))" using s(3) by (auto simp: slice_def dest: in_set_takeD in_set_dropD)
    then have "0 \<le> x" using assms(8) by blast
    with assms(9) s(3) have "ext \<or> ss_logical_to_physical_offset dparam (srv s) x < ss_logical_to_physical_offset dparam (srv s) L"
      using ss.cnt.l2p_less [OF valid [OF s(1,2)] _ s(4), of L] by auto
    then show "extend_flag (srv s) \<or> ss_logical_to_physical_offset dparam (srv s) x < fsize (srv s)"
      unfolding srv by (simp add: srv_def)
  qed (use assms(4-6,8,10) valid in auto)
qed

theorem ss_transfer_once_witness:
  "\<exists>res'. (\<forall>s \<in> {0..<3}. \<exists>req' fd'.
      PINT_process_request (Some (simple_stripe_methods \<lparr>strip_size = 8\<rparr>)) (Some (new_state ex_request\<lparr>target_offset := 0, final_offset := 16\<rparr>)) None
        \<lparr>fsize = ss_logical_to_physical_offset \<lparr>strip_size = 8\<rparr> \<lparr>fsize = 0, server_nr = s, server_ct = 3, extend_flag = False\<rparr> 24,
          server_nr = s, server_ct = 3, extend_flag = False\<rparr> (Some ex_result) PINT_SERVER = Some (0, Some req', None, fd', Some (res' s)) \<and> type_offset req' = 16) \<and>
    (\<Sum>s\<in>{0..<3}. mset (map (ss_physical_to_logical_offset \<lparr>strip_size = 8\<rparr> \<lparr>fsize = ss_logical_to_physical_offset \<lparr>strip_size = 8\<rparr>
        \<lparr>fsize = 0, server_nr = s, server_ct = 3, extend_flag = False\<rparr> 24, server_nr = s, server_ct = 3, extend_flag = False\<rparr>) (out (res' s)))) =
      mset ([0..7] @ [16..23])"
  by (rule ss_transfer_once [of "\<lparr>strip_size = 8\<rparr>" 3 ex_request 0 16 24 False "\<lambda>_. ex_result", unfolded ex_request_stream])
    (simp_all add: ex_request_regular ex_result_empty)

text \<open>
  The same on a two-dimensional stripe file, below the offset where the 32-bit strip count of
  \<open>next_mapped_offset\<close> wraps.
\<close>

theorem tw_transfer_once:
  assumes "0 < twod_strip_size dparam" "0 < group_strip_factor dparam" "0 < num_groups dparam" "num_groups dparam \<le> n"
    "n * group_strip_factor dparam < 2 ^ 32" "regular r" "0 \<le> t" "t \<le> f" "0 \<le> L"
    and "\<forall>x \<in> set (stream r (copies r f)). 0 \<le> x \<and>
      x + 1 < (2 ^ 32 div group_strip_factor dparam - 1) * (n * (group_strip_factor dparam * twod_strip_size dparam))"
    and "ext \<or> (\<forall>x \<in> set (slice (stream r (copies r f)) t f). x < L)"
    and "\<forall>s \<in> {0..<n}. empty_result (f - t) (res s)"
  defines "srv \<equiv> \<lambda>s. \<lparr>fsize = tw_logical_to_physical_offset dparam \<lparr>fsize = 0, server_nr = s, server_ct = n, extend_flag = False\<rparr> L,
    server_nr = s, server_ct = n, extend_flag = ext\<rparr>"
  shows "\<exists>res'. (\<forall>s \<in> {0..<n}. \<exists>req' fd'.
      PINT_process_request (Some (twod_stripe_methods dparam)) (Some (new_state r\<lparr>target_offset := t, final_offset := f\<rparr>)) None
        (srv s) (Some (res s)) PINT_SERVER = Some (0, Some req', None, fd', Some (res' s)) \<and> type_offset req' = f) \<and>
    (\<Sum>s\<in>{0..<n}. mset (map (tw_physical_to_logical_offset dparam (srv s)) (out (res' s)))) = mset (slice (stream r (copies r f)) t f)"
proof -
  have valid: "tw_valid (dparam, srv s)" if "0 \<le> s" "s < n" for s using assms(1-5) that by (simp add: tw_valid_def srv_def)
  let ?srv = "\<lambda>s. \<lparr>fsize = 0, server_nr = s, server_ct = n, extend_flag = False\<rparr>"
  note cong = tw_server_cong [of "srv s" "?srv s" for s]
  have mine: "tw_mine (dparam, srv s) = tw_mine (dparam, ?srv s)" for s using cong(5) by (simp add: srv_def)
  have srv: "tw_logical_to_physical_offset dparam (srv s) L = fsize (srv s)" for s using cong(1) by (simp add: srv_def)
  have lin: "tw_lin (dparam, srv s) y" if "x \<in> set (stream r (copies r f))" "y \<le> x + 1" for s x y
    using assms(10) that by (force simp: tw_lin_def tw_stripes_def tw_global_def tw_rows_def srv_def)
  show ?thesis
  proof (rule twio.transfer_once [where p = dparam and srv = srv and res = res, unfolded prod.case])
    fix x show "\<exists>!s. 0 \<le> s \<and> s < n \<and> tw_mine (dparam, srv s) x" unfolding mine by (rule tw_owner [OF assms(1-5)])
  next
    fix s x assume s: "0 \<le> s" "s < n" "x \<in> set (slice (stream r (copies r f)) t f)" "tw_mine (dparam, srv s) x"
    have "x \<in> set (stream r (copies r f))" using s(3) by (auto simp: slice_def dest: in_set_takeD in_set_dropD)
    then have "0 \<le> x" using assms(10) by blast
    with assms(11) s(3) have "ext \<or> tw_logical_to_physical_offset dparam (srv s) x < tw_logical_to_physical_offset dparam (srv s) L"
      using twc.l2p_less [OF valid [OF s(1,2)] _ s(4), of L] by auto
    then show "extend_flag (srv s) \<or> tw_logical_to_physical_offset dparam (srv s) x < fsize (srv s)"
      unfolding srv by (simp add: srv_def)
  qed (use assms(6-8,10,12) valid lin in auto)
qed

theorem tw_transfer_once_witness:
  "\<exists>res'. (\<forall>s \<in> {0..<3}. \<exists>req' fd'.
      PINT_process_request (Some (twod_stripe_methods \<lparr>num_groups = 2, twod_strip_size = 4, group_strip_factor = 3\<rparr>)) (Some (new_state ex_request\<lparr>target_offset := 0, final_offset := 16\<rparr>)) None
        \<lparr>fsize = tw_logical_to_physical_offset \<lparr>num_groups = 2, twod_strip_size = 4, group_strip_factor = 3\<rparr> \<lparr>fsize = 0, server_nr = s, server_ct = 3, extend_flag = False\<rparr> 24,
          server_nr = s, server_ct = 3, extend_flag = False\<rparr> (Some ex_result) PINT_SERVER = Some (0, Some req', None, fd', Some (res' s)) \<and> type_offset req' = 16) \<and>
    (\<Sum>s\<in>{0..<3}. mset (map (tw_physical_to_logical_offset \<lparr>num_groups = 2, twod_strip_size = 4, group_strip_factor = 3\<rparr> \<lparr>fsize = tw_logical_to_physical_offset \<lparr>num_groups = 2, twod_strip_size = 4, group_strip_factor = 3\<rparr>
        \<lparr>fsize = 0, server_nr = s, server_ct = 3, extend_flag = False\<rparr> 24, server_nr = s, server_ct = 3, extend_flag = False\<rparr>) (out (res' s)))) =
      mset ([0..7] @ [16..23])"
  by (rule tw_transfer_once [of "\<lparr>num_groups = 2, twod_strip_size = 4, group_strip_factor = 3\<rparr>" 3 ex_request 0 16 24 False "\<lambda>_. ex_result", unfolded ex_request_stream])
    (simp_all add: ex_request_regular ex_result_empty)

text \<open>
  C13. Reading or writing a regular request on a variable strip file, whose servers are those that the parameter
  string names, transfers each byte of the request exactly once: when all servers process the request, its offsets
  being below the offset where the 32-bit count of stripes wraps, on local files of the sizes \<open>sz\<close> that contain its
  bytes or may be extended, with room for the result, each of them reaches the final offset, and the
  logical offsets of all segments that they return are those of the request, with the same multiplicity.
\<close>

theorem vs_transfer_once:
  assumes "PINT_dist_strips_parse (Some params) = Some (Inr ss)" "s_server_nr ` set ss = {0..<n}" "0 < n"
    "regular r" "0 \<le> t" "t \<le> f"
    and "\<forall>x \<in> set (stream r (copies r f)). 0 \<le> x \<and> (x + 1) div total_size ss < 2 ^ 32 - 1"
    and "ext \<or> (\<forall>x \<in> set (slice (stream r (copies r f)) t f). \<forall>s \<in> {0..<n}. vs_mine (ss, s) x \<longrightarrow> vs_l2p_in ss s x < sz s)"
    and "\<forall>s \<in> {0..<n}. empty_result (f - t) (res s)"
  defines "srv \<equiv> \<lambda>s. \<lparr>fsize = sz s, server_nr = s, server_ct = n, extend_flag = ext\<rparr>"
  shows "\<exists>res'. (\<forall>s \<in> {0..<n}. \<exists>req' fd'.
      PINT_process_request (Some (varstrip_methods params)) (Some (new_state r\<lparr>target_offset := t, final_offset := f\<rparr>)) None
        (srv s) (Some (res s)) PINT_SERVER = Some (0, Some req', None, fd', Some (res' s)) \<and> type_offset req' = f) \<and>
    (\<Sum>s\<in>{0..<n}. mset (map (\<lambda>p. the (vs_p2l_in ss s p)) (out (res' s)))) = mset (slice (stream r (copies r f)) t f)"
proof -
  have ss: "vs_strips params = ss" using assms(1) by (simp add: vs_strips_def)
  have "ss \<noteq> []" using assms(2,3) by (metis atLeastLessThan_iff empty_iff image_empty list.set(1) order_refl)
  then have ne: "vs_strips params \<noteq> []" using ss by simp
  have ok: "vs_ok params (srv s)" if "0 \<le> s" "s < n" for s
    unfolding vs_ok_def ss using assms(2) that by (auto simp: srv_def)
  have nr: "server_nr (srv s) = s" for s by (simp add: srv_def)
  have "vs_valid (ss, 0)" using vs_ok_valid(1) [OF ok, of 0] assms(3) ss nr by simp
  then have T: "0 < total_size ss" by (rule vs_validD(2))
  have lin: "vs_lin (ss, s) y" if "x \<in> set (stream r (copies r f))" "y \<le> x + 1" for s x y
    using assms(7) that zdiv_mono1 [OF that(2) T] by (force simp: vs_lin_def)
  show ?thesis
  proof (rule vsio.transfer_once [where p = params and srv = srv and res = res, unfolded prod.case ss nr])
    fix x assume "x \<in> set (stream r (copies r f))"
    then have "0 \<le> x" using assms(7) by blast
    then obtain u where u: "u \<in> set ss" "\<And>s. vs_mine (ss, s) x \<longleftrightarrow> s_server_nr u = s"
      using vs_owner [OF ne] unfolding ss by blast
    then have "0 \<le> s_server_nr u" "s_server_nr u < n" using assms(2) by auto
    then show "\<exists>!s. 0 \<le> s \<and> s < n \<and> vs_mine (ss, s) x" using u(2) by (intro ex1I [of _ "s_server_nr u"]) auto
  next
    fix s x assume "0 \<le> s" "s < n" "x \<in> set (slice (stream r (copies r f)) t f)" "vs_mine (ss, s) x"
    then show "extend_flag (srv s) \<or> vs_l2p_in ss s x < fsize (srv s)" using assms(8) by (auto simp: srv_def)
  qed (use assms(4-7,9) ok lin in auto)
qed

theorem vs_transfer_once_witness:
  "\<exists>res'. (\<forall>s \<in> {0..<2}. \<exists>req' fd'.
      PINT_process_request (Some (varstrip_methods ''0:512;1:100;0:30;'')) (Some (new_state ex_request\<lparr>target_offset := 0, final_offset := 16\<rparr>)) None
        \<lparr>fsize = 0, server_nr = s, server_ct = 2, extend_flag = True\<rparr> (Some ex_result) PINT_SERVER = Some (0, Some req', None, fd', Some (res' s)) \<and> type_offset req' = 16) \<and>
    (\<Sum>s\<in>{0..<2}. mset (map (\<lambda>p. the (vs_p2l_in ex_strips s p)) (out (res' s)))) = mset ([0..7] @ [16..23])"
proof (rule vs_transfer_once [of "''0:512;1:100;0:30;''" ex_strips 2 ex_request 0 16 True "\<lambda>_. 0" "\<lambda>_. ex_result", unfolded ex_request_stream])
  show "PINT_dist_strips_parse (Some ''0:512;1:100;0:30;'') = Some (Inr ex_strips)" by code_simp
  show "s_server_nr ` set ex_strips = {0..<2}" by (auto simp: ex_strips_def)
qed (auto simp: ex_request_regular ex_result_empty ex_strips_def)

end
