(* ===== verification/Pvfs_Request.thy ===== *)
theory Pvfs_Request
  imports Pint_Walk "HOL-Library.Monad_Syntax"
begin

text \<open>
  Building and releasing requests, \<open>src/io/description/pvfs-request.c\<close>. The functions allocate the
  structures of a request, link them and count the references to them, so here a request is a
  pointer into a heap. The addresses that \<open>malloc\<close> returns are an input; allocation succeeds.
  \<open>None\<close> as a result means that the code dereferences a pointer that is NULL or not allocated, or
  reads outside of an array. As for the engine, the integers are unbounded.
\<close>

section \<open>The heap\<close>

type_synonym req_heap = "nat \<Rightarrow> nat PINT_Request option"

type_synonym PVFS_Request = "nat option"

definition PVFS_SUCCESS :: int where "PVFS_SUCCESS = 0"
definition PVFS_ERR_REQ :: int where "PVFS_ERR_REQ = - 1"

text \<open>Assignments to single members of a structure.\<close>

fun set_refcount :: "int \<Rightarrow> 'p PINT_Request \<Rightarrow> 'p PINT_Request" where
  "set_refcount v (PINT_Request off ne nb st u l ag ch d nn co rc e s) = PINT_Request off ne nb st u l ag ch d nn co v e s"

fun set_committed :: "int \<Rightarrow> 'p PINT_Request \<Rightarrow> 'p PINT_Request" where
  "set_committed v (PINT_Request off ne nb st u l ag ch d nn co rc e s) = PINT_Request off ne nb st u l ag ch d nn v rc e s"

fun set_ereq :: "'q option \<Rightarrow> 'q PINT_Request \<Rightarrow> 'q PINT_Request" where
  "set_ereq v (PINT_Request off ne nb st u l ag ch d nn co rc e s) = PINT_Request off ne nb st u l ag ch d nn co rc v s"

fun set_sreq :: "'q option \<Rightarrow> 'q PINT_Request \<Rightarrow> 'q PINT_Request" where
  "set_sreq v (PINT_Request off ne nb st u l ag ch d nn co rc e s) = PINT_Request off ne nb st u l ag ch d nn co rc e v"

fun set_bounds :: "PVFS_offset \<Rightarrow> PVFS_offset \<Rightarrow> 'p PINT_Request \<Rightarrow> 'p PINT_Request" where
  "set_bounds l' u' (PINT_Request off ne nb st u l ag ch d nn co rc e s) = PINT_Request off ne nb st u' l' ag ch d nn co rc e s"

definition modify :: "req_heap \<Rightarrow> nat \<Rightarrow> (nat PINT_Request \<Rightarrow> nat PINT_Request) \<Rightarrow> req_heap option" where
  "modify h p f = map_option (\<lambda>n. h(p \<mapsto> f n)) (h p)"

text \<open>Memory from \<open>malloc\<close>. Only \<open>sreq\<close> is set before the other members are.\<close>

definition blank :: "PVFS_Request \<Rightarrow> nat PINT_Request" where
  "blank s = PINT_Request 0 0 0 0 0 0 0 0 0 0 0 0 None s"

text \<open>The reference counts of special requests are negative and never change.\<close>

definition PINT_REQUEST_REFSET :: "req_heap \<Rightarrow> nat \<Rightarrow> req_heap option" where
  "PINT_REQUEST_REFSET h p = modify h p (\<lambda>n. if refcount n \<ge> 0 then set_refcount 1 n else n)"

definition PINT_REQUEST_REFINC :: "req_heap \<Rightarrow> nat \<Rightarrow> req_heap option" where
  "PINT_REQUEST_REFINC h p = modify h p (\<lambda>n. if refcount n \<ge> 0 then set_refcount (refcount n + 1) n else n)"

definition PINT_REQUEST_REFDEC :: "req_heap \<Rightarrow> nat \<Rightarrow> req_heap option" where
  "PINT_REQUEST_REFDEC h p = modify h p (\<lambda>n. if refcount n > 0 then set_refcount (refcount n - 1) n else n)"

definition PINT_REQUEST_IS_PACKED :: "'p PINT_Request \<Rightarrow> bool" where
  "PINT_REQUEST_IS_PACKED n \<longleftrightarrow> committed n < 0"

section \<open>Elementary requests\<close>

definition PINT_CHAR :: "'p PINT_Request" where "PINT_CHAR = PINT_Request 0 1 0 1 1 0 1 1 1 0 0 (- 1) None None"
definition PINT_SHORT :: "'p PINT_Request" where "PINT_SHORT = PINT_Request 0 1 0 1 2 0 2 1 1 0 0 (- 1) None None"
definition PINT_INT :: "'p PINT_Request" where "PINT_INT = PINT_Request 0 1 0 1 4 0 4 1 1 0 0 (- 1) None None"
definition PINT_LONG :: "'p PINT_Request" where "PINT_LONG = PINT_Request 0 1 0 1 4 0 4 1 1 0 0 (- 1) None None"
definition PINT_UNSIGNED_CHAR :: "'p PINT_Request" where "PINT_UNSIGNED_CHAR = PINT_Request 0 1 0 1 1 0 1 1 1 0 0 (- 1) None None"
definition PINT_UNSIGNED_SHORT :: "'p PINT_Request" where "PINT_UNSIGNED_SHORT = PINT_Request 0 1 0 1 2 0 2 1 1 0 0 (- 1) None None"
definition PINT_UNSIGNED :: "'p PINT_Request" where "PINT_UNSIGNED = PINT_Request 0 1 0 1 4 0 4 1 1 0 0 (- 1) None None"
definition PINT_UNSIGNED_LONG :: "'p PINT_Request" where "PINT_UNSIGNED_LONG = PINT_Request 0 1 0 1 4 0 4 1 1 0 0 (- 1) None None"
definition PINT_FLOAT :: "'p PINT_Request" where "PINT_FLOAT = PINT_Request 0 1 0 1 4 0 4 1 1 0 0 (- 1) None None"
definition PINT_DOUBLE :: "'p PINT_Request" where "PINT_DOUBLE = PINT_Request 0 1 0 1 8 0 8 1 1 0 0 (- 1) None None"
definition PINT_LONG_DOUBLE :: "'p PINT_Request" where "PINT_LONG_DOUBLE = PINT_Request 0 1 0 1 8 0 8 1 1 0 0 (- 1) None None"
definition PINT_BYTE :: "'p PINT_Request" where "PINT_BYTE = PINT_Request 0 1 0 1 1 0 1 1 1 0 0 (- 1) None None"
definition PINT_PACKED :: "'p PINT_Request" where "PINT_PACKED = PINT_Request 0 1 0 1 1 0 1 1 1 0 0 (- 1) None None"
definition PINT_NULL :: "'p PINT_Request" where "PINT_NULL = PINT_Request 0 0 0 0 0 0 0 0 1 0 0 (- 1) None None"

lemmas elementary_defs = PINT_CHAR_def PINT_SHORT_def PINT_INT_def PINT_LONG_def PINT_UNSIGNED_CHAR_def PINT_UNSIGNED_SHORT_def
  PINT_UNSIGNED_def PINT_UNSIGNED_LONG_def PINT_FLOAT_def PINT_DOUBLE_def PINT_LONG_DOUBLE_def PINT_BYTE_def PINT_PACKED_def
  PINT_NULL_def

section \<open>Queries\<close>

text \<open>The return value, and what is stored through the second argument.\<close>

definition query :: "(nat PINT_Request \<Rightarrow> int) \<Rightarrow> req_heap \<Rightarrow> PVFS_Request \<Rightarrow> (int \<times> int option) option" where
  "query f h request =
     (case request of
        None \<Rightarrow> Some (PVFS_ERR_REQ, None)
      | Some p \<Rightarrow> map_option (\<lambda>n. (PVFS_SUCCESS, Some (f n))) (h p))"

definition PVFS_Request_extent :: "req_heap \<Rightarrow> PVFS_Request \<Rightarrow> (int \<times> PVFS_size option) option" where
  "PVFS_Request_extent = query (\<lambda>n. ub n - lb n)"

definition PVFS_Request_size :: "req_heap \<Rightarrow> PVFS_Request \<Rightarrow> (int \<times> PVFS_size option) option" where
  "PVFS_Request_size = query aggregate_size"

definition PVFS_Request_lb :: "req_heap \<Rightarrow> PVFS_Request \<Rightarrow> (int \<times> PVFS_size option) option" where
  "PVFS_Request_lb = query lb"

definition PVFS_Request_ub :: "req_heap \<Rightarrow> PVFS_Request \<Rightarrow> (int \<times> PVFS_size option) option" where
  "PVFS_Request_ub = query ub"

text \<open>The extent of a request that is not NULL.\<close>

definition oldext_of :: "req_heap \<Rightarrow> nat \<Rightarrow> PVFS_size option" where
  "oldext_of h p = do { (_, e) \<leftarrow> PVFS_Request_extent h (Some p); e }"

section \<open>Constructors\<close>

text \<open>
  \<open>PINT_subreq\<close> fills the structure at \<open>new\<close>: \<open>count\<close> blocks of \<open>bsize\<close> elements. The number of
  contiguous chunks is one if the blocks are adjacent in either direction.
\<close>

definition subreq_chunks :: "int \<Rightarrow> PVFS_size \<Rightarrow> int \<Rightarrow> nat PINT_Request \<Rightarrow> PVFS_size \<Rightarrow> int" where
  "subreq_chunks bsize strd count old oldext =
     (if aggregate_size old = oldext \<and> num_contig_chunks old = 1 then
        if count = 1 \<or> strd = bsize * oldext \<or> - strd = bsize * oldext then 1 else count
      else num_contig_chunks old * bsize * count)"

definition PINT_subreq :: "req_heap \<Rightarrow> PVFS_offset \<Rightarrow> int \<Rightarrow> PVFS_size \<Rightarrow> int \<Rightarrow> PVFS_Request \<Rightarrow> PVFS_size \<Rightarrow> nat
    \<Rightarrow> (int \<times> req_heap) option" where
  "PINT_subreq h off bsize strd count oldreq oldext new =
     (case oldreq of
        None \<Rightarrow> Some (PVFS_ERR_REQ, h)
      | Some o1 \<Rightarrow> do {
          n \<leftarrow> h new;
          old \<leftarrow> h o1;
          h1 \<leftarrow> PINT_REQUEST_REFINC (h(new \<mapsto>
            PINT_Request off bsize count strd (off + (count - 1) * strd + bsize * oldext) off
              (aggregate_size old * count * bsize) (subreq_chunks bsize strd count old oldext)
              (depth old + 1) (num_nested_req old + 1) 0 0 (Some o1) (sreq n))) o1;
          Some (PVFS_SUCCESS, h1) })"

definition PVFS_Request_hvector :: "req_heap \<Rightarrow> int \<Rightarrow> int \<Rightarrow> PVFS_size \<Rightarrow> PVFS_Request \<Rightarrow> nat \<Rightarrow> PVFS_Request
    \<Rightarrow> (int \<times> req_heap \<times> PVFS_Request) option" where
  "PVFS_Request_hvector h count blocklength strd oldreq a newreq =
     (case oldreq of
        None \<Rightarrow> Some (PVFS_ERR_REQ, h, newreq)
      | Some o1 \<Rightarrow> do {
          oldext \<leftarrow> oldext_of h o1;
          (_, h1) \<leftarrow> PINT_subreq (h(a \<mapsto> blank None)) 0 blocklength strd count oldreq oldext a;
          h2 \<leftarrow> (if strd < 0 then modify h1 a (\<lambda>n. set_bounds ((count - 1) * strd) (ub n) n) else Some h1);
          h3 \<leftarrow> PINT_REQUEST_REFSET h2 a;
          Some (PVFS_SUCCESS, h3, Some a) })"

definition PVFS_Request_contiguous :: "req_heap \<Rightarrow> int \<Rightarrow> PVFS_Request \<Rightarrow> nat \<Rightarrow> PVFS_Request
    \<Rightarrow> (int \<times> req_heap \<times> PVFS_Request) option" where
  "PVFS_Request_contiguous h count oldreq a newreq = PVFS_Request_hvector h 1 count 0 oldreq a newreq"

definition PVFS_Request_vector :: "req_heap \<Rightarrow> int \<Rightarrow> int \<Rightarrow> PVFS_size \<Rightarrow> PVFS_Request \<Rightarrow> nat \<Rightarrow> PVFS_Request
    \<Rightarrow> (int \<times> req_heap \<times> PVFS_Request) option" where
  "PVFS_Request_vector h count blocklength strd oldreq a newreq =
     (case oldreq of
        None \<Rightarrow> Some (PVFS_ERR_REQ, h, newreq)
      | Some o1 \<Rightarrow> do {
          ext \<leftarrow> oldext_of h o1;
          PVFS_Request_hvector h count blocklength (strd * ext) oldreq a newreq })"

text \<open>
  \<open>PINT_reqstats\<close> adds what the rest of a sequence contributes. The number of nested requests is
  corrected when the element type is that of the next structure of the sequence.
\<close>

definition PINT_reqstats :: "req_heap \<Rightarrow> nat \<Rightarrow> req_heap option" where
  "PINT_reqstats h new = do {
     n \<leftarrow> h new;
     case sreq n of
       None \<Rightarrow> Some h
     | Some s1 \<Rightarrow> do {
         s \<leftarrow> h s1;
         shared \<leftarrow> (if ereq n = ereq s then do { e \<leftarrow> ereq n; e' \<leftarrow> h e; Some (num_nested_req e' + 1) } else Some 0);
         Some (h(new \<mapsto> PINT_Request (offset n) (num_ereqs n) (num_blocks n) (stride n)
           (if ub n < ub s then ub s else ub n) (if lb n > lb s then lb s else lb n)
           (aggregate_size n + aggregate_size s) (num_contig_chunks n + num_contig_chunks s)
           (if depth n < depth s then depth s else depth n) (num_nested_req n + (num_nested_req s + 1) - shared)
           (committed n) (refcount n) (ereq n) (sreq n))) } }"

text \<open>
  The loop of the functions below runs over the blocks from the last to the first. \<open>block_of\<close> gives the
  displacement of a block in bytes, its length, its type and the extent of the type, or an error
  that ends the function.
\<close>

fun sequence_loop :: "(req_heap \<Rightarrow> nat \<Rightarrow> (int + PVFS_offset \<times> int \<times> nat \<times> PVFS_size) option) \<Rightarrow> nat \<Rightarrow> nat list \<Rightarrow> req_heap
    \<Rightarrow> PVFS_Request \<Rightarrow> (int \<times> req_heap \<times> PVFS_Request) option" where
  "sequence_loop block_of 0 as h newreq =
     (case newreq of
        None \<Rightarrow> None
      | Some p \<Rightarrow> do { h' \<leftarrow> PINT_REQUEST_REFSET h p; Some (PVFS_SUCCESS, h', newreq) })"
| "sequence_loop block_of (Suc count) as h newreq =
     (case block_of h count of
        None \<Rightarrow> None
      | Some (Inl err) \<Rightarrow> Some (err, h, newreq)
      | Some (Inr (disp, len, o1, oldext)) \<Rightarrow>
          (case as of
             [] \<Rightarrow> None
           | a # as' \<Rightarrow> do {
               (_, h1) \<leftarrow> PINT_subreq (h(a \<mapsto> blank newreq)) disp len 0 1 (Some o1) oldext a;
               h2 \<leftarrow> PINT_reqstats h1 a;
               sequence_loop block_of count as' h2 (Some a) }))"

text \<open>A negative number of blocks reads before the arrays.\<close>

definition PVFS_Request_indexed :: "req_heap \<Rightarrow> int \<Rightarrow> int list \<Rightarrow> PVFS_size list \<Rightarrow> PVFS_Request \<Rightarrow> nat list
    \<Rightarrow> (int \<times> req_heap \<times> PVFS_Request) option" where
  "PVFS_Request_indexed h count blocklengths displacements oldreq as =
     (case oldreq of
        None \<Rightarrow> Some (PVFS_ERR_REQ, h, None)
      | Some o1 \<Rightarrow> do {
          oldext \<leftarrow> oldext_of h o1;
          if count < 0 then None
          else sequence_loop (\<lambda>_ i. do {
              d \<leftarrow> array_get displacements (int i);
              b \<leftarrow> array_get blocklengths (int i);
              Some (Inr (d * oldext, b, o1, oldext)) }) (nat count) as h None })"

definition PVFS_Request_indexed_block :: "req_heap \<Rightarrow> int \<Rightarrow> int \<Rightarrow> PVFS_size list \<Rightarrow> PVFS_Request \<Rightarrow> nat list
    \<Rightarrow> (int \<times> req_heap \<times> PVFS_Request) option" where
  "PVFS_Request_indexed_block h count blocklength displacements oldreq as =
     PVFS_Request_indexed h count (replicate (nat count) blocklength) displacements oldreq as"

definition PVFS_Request_hindexed :: "req_heap \<Rightarrow> int \<Rightarrow> int list \<Rightarrow> PVFS_size list \<Rightarrow> PVFS_Request \<Rightarrow> nat list
    \<Rightarrow> (int \<times> req_heap \<times> PVFS_Request) option" where
  "PVFS_Request_hindexed h count blocklengths displacements oldreq as =
     (case oldreq of
        None \<Rightarrow> Some (PVFS_ERR_REQ, h, None)
      | Some o1 \<Rightarrow> do {
          oldext \<leftarrow> oldext_of h o1;
          if count < 0 then None
          else sequence_loop (\<lambda>_ i. do {
              d \<leftarrow> array_get displacements (int i);
              b \<leftarrow> array_get blocklengths (int i);
              Some (Inr (d, b, o1, oldext)) }) (nat count) as h None })"

definition PVFS_Request_struct :: "req_heap \<Rightarrow> int \<Rightarrow> int list \<Rightarrow> PVFS_size list \<Rightarrow> PVFS_Request list option \<Rightarrow> nat list
    \<Rightarrow> (int \<times> req_heap \<times> PVFS_Request) option" where
  "PVFS_Request_struct h count blocklengths displacements oldreqs as =
     (case oldreqs of
        None \<Rightarrow> Some (PVFS_ERR_REQ, h, None)
      | Some os \<Rightarrow>
          if count < 0 then None
          else sequence_loop (\<lambda>h i. do {
              o0 \<leftarrow> array_get os (int i);
              case o0 of
                None \<Rightarrow> Some (Inl PVFS_ERR_REQ)
              | Some o1 \<Rightarrow> do {
                  oldext \<leftarrow> oldext_of h o1;
                  d \<leftarrow> array_get displacements (int i);
                  b \<leftarrow> array_get blocklengths (int i);
                  Some (Inr (d, b, o1, oldext)) } }) (nat count) as h None)"

definition PVFS_Request_resized :: "req_heap \<Rightarrow> PVFS_Request \<Rightarrow> PVFS_offset \<Rightarrow> PVFS_size \<Rightarrow> nat \<Rightarrow> PVFS_Request
    \<Rightarrow> (int \<times> req_heap \<times> PVFS_Request) option" where
  "PVFS_Request_resized h oldreq l ext a newreq =
     (case oldreq of
        None \<Rightarrow> Some (PVFS_ERR_REQ, h, newreq)
      | Some o1 \<Rightarrow> do {
          old \<leftarrow> h o1;
          (retval, h1, new) \<leftarrow> PVFS_Request_hvector h 1 1 0
            (if ereq old \<noteq> None \<and> sreq old = None \<and> offset old = 0 \<and> num_ereqs old = 1 \<and> num_blocks old = 1 \<and> stride old = 0
             then ereq old else oldreq) a newreq;
          p \<leftarrow> new;
          h2 \<leftarrow> modify h1 p (set_bounds l (l + ext));
          Some (retval, h2, new) })"

section \<open>Release\<close>

text \<open>
  \<open>PVFS_Request_free\<close> returns the new value of the pointer. The second case of the argument is its loop
  over the structures of a sequence, which calls it for their element types.
\<close>

partial_function (option) free_from :: "req_heap \<Rightarrow> nat option + nat option \<Rightarrow> (req_heap \<times> PVFS_Request) option" where
  "free_from h w =
     (case w of
        Inl None \<Rightarrow> Some (h, None)
      | Inl (Some p) \<Rightarrow> do {
          n \<leftarrow> h p;
          if refcount n \<le> 0 then Some (h, Some p)
          else do {
            h1 \<leftarrow> PINT_REQUEST_REFDEC h p;
            n1 \<leftarrow> h1 p;
            if refcount n1 > 0 then Some (h1, None)
            else if PINT_REQUEST_IS_PACKED n1 then Some (h1(p := None), None)
            else do {
              (h2, _) \<leftarrow> free_from h1 (Inr (sreq n1));
              n2 \<leftarrow> h2 p;
              (h3, e) \<leftarrow> free_from h2 (Inl (ereq n2));
              h4 \<leftarrow> modify h3 p (set_ereq e);
              Some (h4(p := None), None) } } }
      | Inr None \<Rightarrow> Some (h, None)
      | Inr (Some q) \<Rightarrow> do {
          n \<leftarrow> h q;
          (h1, e) \<leftarrow> free_from h (Inl (ereq n));
          h2 \<leftarrow> modify h1 q (set_ereq e);
          n2 \<leftarrow> h2 q;
          free_from (h2(q := None)) (Inr (sreq n2)) })"

declare free_from.simps [code]

text \<open>The argument points to the pointer, or is NULL.\<close>

definition PVFS_Request_free :: "req_heap \<Rightarrow> PVFS_Request option \<Rightarrow> (int \<times> req_heap \<times> PVFS_Request option) option" where
  "PVFS_Request_free h req =
     (case req of
        None \<Rightarrow> Some (PVFS_ERR_REQ, h, None)
      | Some None \<Rightarrow> Some (PVFS_ERR_REQ, h, Some None)
      | Some (Some p) \<Rightarrow> do { (h1, r) \<leftarrow> free_from h (Inl (Some p)); Some (PVFS_SUCCESS, h1, Some r) })"

end
