(* ===== verification/Request_Build.thy ===== *)
theory Request_Build
  imports Pvfs_Request
begin

text \<open>
  What the constructors of requests build. \<open>shape\<close> relates a pointer to the request as the engine
  sees it. A request is \<open>proper\<close> if it is regular and does not describe more bytes than its extent; the
  constructors keep this when the blocks are given in increasing order and do not overlap. Releasing a
  request that has just been built restores the heap.
\<close>

section \<open>Requests in the heap\<close>

lemma set_fields [simp]:
  "offset (set_refcount v n) = offset n" "num_ereqs (set_refcount v n) = num_ereqs n" "num_blocks (set_refcount v n) = num_blocks n"
  "stride (set_refcount v n) = stride n" "ub (set_refcount v n) = ub n" "lb (set_refcount v n) = lb n"
  "aggregate_size (set_refcount v n) = aggregate_size n" "num_contig_chunks (set_refcount v n) = num_contig_chunks n"
  "depth (set_refcount v n) = depth n" "num_nested_req (set_refcount v n) = num_nested_req n"
  "committed (set_refcount v n) = committed n" "refcount (set_refcount v n) = v" "ereq (set_refcount v n) = ereq n"
  "sreq (set_refcount v n) = sreq n"
  by (cases n; simp)+

lemma set_refcount_same [simp]: "set_refcount (refcount n) n = n" "set_refcount v (set_refcount w n) = set_refcount v n"
  by (cases n; simp)+

text \<open>The structure without the members that only the bookkeeping uses.\<close>

definition core :: "'p PINT_Request \<Rightarrow> 'p PINT_Request" where
  "core n = set_refcount 0 (set_committed 0 n)"

lemma core_refcount [simp]: "core (set_refcount v n) = core n"
  by (cases n) (simp add: core_def)

lemma core_committed [simp]: "core (set_committed v n) = core n"
  by (cases n) (simp add: core_def)

lemma core_eqD:
  assumes "core n = core m"
  shows "offset n = offset m" "num_ereqs n = num_ereqs m" "num_blocks n = num_blocks m" "stride n = stride m" "ub n = ub m"
    "lb n = lb m" "aggregate_size n = aggregate_size m" "num_contig_chunks n = num_contig_chunks m" "depth n = depth m"
    "num_nested_req n = num_nested_req m" "ereq n = ereq m" "sreq n = sreq m"
  using assms by (cases n; cases m; simp add: core_def)+

definition tree_node :: "'p PINT_Request \<Rightarrow> request option \<Rightarrow> request option \<Rightarrow> request" where
  "tree_node n e s = At (PINT_Request (offset n) (num_ereqs n) (num_blocks n) (stride n) (ub n) (lb n) (aggregate_size n)
     (num_contig_chunks n) (depth n) (num_nested_req n) 0 0 e s)"

inductive shape :: "req_heap \<Rightarrow> nat \<Rightarrow> request \<Rightarrow> bool" for h where
  shape_node: "h p = Some n \<Longrightarrow> rel_option (shape h) (ereq n) e \<Longrightarrow> rel_option (shape h) (sreq n) s \<Longrightarrow> shape h p (tree_node n e s)"
monos option.rel_mono_strong

inductive_cases shapeE: "shape h p r"

text \<open>The structures of one heap are in the other, up to the bookkeeping.\<close>

definition keeps :: "req_heap \<Rightarrow> req_heap \<Rightarrow> bool" where
  "keeps h h' \<longleftrightarrow> (\<forall>p n. h p = Some n \<longrightarrow> (\<exists>n'. h' p = Some n' \<and> core n' = core n))"

lemma keeps_refl [simp]: "keeps h h"
  by (simp add: keeps_def)

lemma keeps_trans: "keeps h h1 \<Longrightarrow> keeps h1 h2 \<Longrightarrow> keeps h h2"
  unfolding keeps_def by metis

lemma tree_node_cong: "core n' = core n \<Longrightarrow> tree_node n' e s = tree_node n e s"
  using core_eqD [of n' n] by (simp add: tree_node_def)

lemma shape_keeps:
  assumes "shape h p r" "keeps h h'"
  shows "shape h' p r"
  using assms(1)
proof (induction rule: shape.induct)
  case (shape_node p n e s)
  then obtain n' where n': "h' p = Some n'" "core n' = core n" using assms(2) unfolding keeps_def by blast
  have "rel_option (shape h') (ereq n') e" "rel_option (shape h') (sreq n') s"
    using shape_node(2,3) core_eqD(11,12) [OF n'(2)] by (auto elim: option.rel_mono_strong)
  from shape.shape_node [OF n'(1) this] show ?case using tree_node_cong [OF n'(2)] by simp
qed

lemma shape_deref:
  assumes "shape h p r"
  obtains n where "h p = Some n" "offset (deref r) = offset n" "num_ereqs (deref r) = num_ereqs n" "num_blocks (deref r) = num_blocks n"
    "stride (deref r) = stride n" "ub (deref r) = ub n" "lb (deref r) = lb n" "aggregate_size (deref r) = aggregate_size n"
    "num_contig_chunks (deref r) = num_contig_chunks n" "depth (deref r) = depth n" "num_nested_req (deref r) = num_nested_req n"
    "rel_option (shape h) (ereq n) (ereq (deref r))" "rel_option (shape h) (sreq n) (sreq (deref r))"
  using assms by (auto elim!: shapeE simp: tree_node_def)

section \<open>Proper requests\<close>

definition proper :: "request \<Rightarrow> bool" where
  "proper r \<longleftrightarrow> regular r \<and> aggregate_size (deref r) \<le> extent r \<and> 1 \<le> num_contig_chunks (deref r)"

text \<open>Blocks of a contiguous type that are adjacent are one region.\<close>

lemma blocks_length:
  assumes "ereq (deref r) = Some e" "regular e" "0 \<le> num_ereqs (deref r)" "0 \<le> m"
  shows "int (length (concat (map (block r e b) [0..m - 1]))) = m * num_ereqs (deref r) * aggregate_size (deref e)"
  using assms(4)
proof (induction m rule: int_ge_induct)
  case (step m)
  have one: "int (length (concat (map (\<lambda>j. layout e (c + j * extent e)) [0..k - 1]))) = k * aggregate_size (deref e)" if "0 \<le> k" for c k
    using that
  proof (induction k rule: int_ge_induct)
    case (step k)
    have "[0..k + 1 - 1] = [0..k - 1] @ [k]" using step.hyps upto_rec2 [of 0 k] by simp
    then show ?case using step.IH regularD(3) [OF assms(2)] by (simp add: algebra_simps)
  qed simp
  have "[0..m + 1 - 1] = [0..m - 1] @ [m]" using step.hyps upto_rec2 [of 0 m] by simp
  moreover have "int (length (block r e b m)) = num_ereqs (deref r) * aggregate_size (deref e)"
    unfolding block_def by (rule one [OF assms(3)])
  ultimately show ?case using step.IH by (simp add: algebra_simps)
qed simp

lemma blocks_tiles:
  assumes e: "ereq (deref r) = Some e" "contiguous e" "aggregate_size (deref e) = extent e" "0 < aggregate_size (deref e)"
    and n: "1 \<le> num_ereqs (deref r)" "1 \<le> num_blocks (deref r)"
    and s: "num_blocks (deref r) = 1 \<or> stride (deref r) = num_ereqs (deref r) * extent e"
  shows "concat (map (block r e b) [0..num_blocks (deref r) - 1]) =
    [b + (offset (deref r) + PINT_request_disp r)..
     b + (offset (deref r) + PINT_request_disp r) + num_blocks (deref r) * (num_ereqs (deref r) * aggregate_size (deref e)) - 1]"
proof -
  let ?a = "aggregate_size (deref e)" and ?n = "num_ereqs (deref r)"
  let ?x = "b + (offset (deref r) + PINT_request_disp r)"
  have disp: "PINT_request_disp r = offset (deref e) + PINT_request_disp e" using e(1) by (simp add: PINT_request_disp.simps [of r])
  have blk: "block r e b k = [?x + stride (deref r) * k..?x + stride (deref r) * k + ?n * ?a - 1]" for k
    unfolding block_def
    by (rule concat_tiles) (use n e(4) contiguous_layout [OF e(2)] disp in \<open>simp_all add: e(3) [symmetric] algebra_simps\<close>)
  show ?thesis
  proof (cases "num_blocks (deref r) = 1")
    case True
    then show ?thesis by (simp add: blk)
  next
    case False
    then have "stride (deref r) = ?n * ?a" using s e(3) by simp
    then show ?thesis using concat_tiles [of "num_blocks (deref r)" "?n * ?a" "block r e b" ?x] n e(4) blk
      by (simp add: mult.commute)
  qed
qed

text \<open>The request that \<open>PVFS_Request_hvector\<close> describes.\<close>

definition vector_of :: "int \<Rightarrow> int \<Rightarrow> PVFS_size \<Rightarrow> request \<Rightarrow> request" where
  "vector_of count bsize strd r =
     At (PINT_Request 0 bsize count strd ((count - 1) * strd + bsize * extent r) 0 (aggregate_size (deref r) * count * bsize)
       (if aggregate_size (deref r) = extent r \<and> num_contig_chunks (deref r) = 1 then
          if count = 1 \<or> strd = bsize * extent r \<or> - strd = bsize * extent r then 1 else count
        else num_contig_chunks (deref r) * bsize * count)
       (depth (deref r) + 1) (num_nested_req (deref r) + 1) 0 0 (Some r) None)"

lemma vector_of_proper:
  assumes p: "proper r" and n: "1 \<le> count" "1 \<le> bsize" and s: "count = 1 \<or> bsize * extent r \<le> strd"
  shows "proper (vector_of count bsize strd r)"
proof -
  let ?v = "vector_of count bsize strd r" and ?a = "aggregate_size (deref r)" and ?e = "extent r"
  have r: "regular r" "?a \<le> ?e" "1 \<le> num_contig_chunks (deref r)" "0 < ?a" "1 \<le> depth (deref r)"
    using p regularD(1,2) [of r] by (auto simp: proper_def)
  have f: "ereq (deref ?v) = Some r" "sreq (deref ?v) = None" "num_ereqs (deref ?v) = bsize" "num_blocks (deref ?v) = count"
    "stride (deref ?v) = strd" "offset (deref ?v) = 0" "aggregate_size (deref ?v) = ?a * count * bsize"
    "extent ?v = (count - 1) * strd + bsize * ?e" "depth (deref ?v) = depth (deref r) + 1"
    by (simp_all add: vector_of_def extent_def)
  have lay: "layout ?v b = concat (map (block ?v r b) [0..count - 1])" for b
    using layout_blocks [OF f(1)] f by (simp add: tail_layout_def)
  have len: "int (length (layout ?v 0)) = ?a * count * bsize"
    using blocks_length [OF f(1) r(1), of count 0] f n by (simp add: lay algebra_simps)
  have gap: "(count - 1) * (bsize * ?e) \<le> (count - 1) * strd" using s n by (cases "count = 1") (auto intro: mult_left_mono)
  have split: "count * (bsize * ?e) = (count - 1) * (bsize * ?e) + bsize * ?e" by (simp add: algebra_simps)
  have cb: "1 \<le> count * bsize" using mult_mono [of 1 count 1 bsize] n by simp
  have ae: "count * (bsize * ?a) \<le> count * (bsize * ?e)" using r(2) n by (intro mult_left_mono) auto
  have size: "?a * count * bsize \<le> (count - 1) * strd + bsize * ?e"
    using ae gap split by (simp add: algebra_simps)
  have tight: "?a = ?e \<and> (count = 1 \<or> strd = bsize * ?e)" if eq: "?a * count * bsize = (count - 1) * strd + bsize * ?e"
  proof -
    have eq': "count * (bsize * ?a) = (count - 1) * strd + bsize * ?e" using eq by (simp add: algebra_simps)
    have "count * (bsize * ?a) = count * (bsize * ?e)" "(count - 1) * strd = (count - 1) * (bsize * ?e)"
      using ae gap split eq' by linarith+
    then show ?thesis using n by auto
  qed
  have short: "contiguous ?v" if "num_contig_chunks (deref r) = 1" "?a = ?e" "count = 1 \<or> strd = bsize * ?e"
  proof -
    have "contiguous r" using regularD(4) [OF r(1)] that by (simp add: elem_shortcut_def)
    from blocks_tiles [OF f(1) this that(2) r(4), of 0] show ?thesis
      unfolding contiguous_def [of ?v] lay using f n that(3)
      by (simp add: algebra_simps)
  qed
  have whole: "contiguous ?v \<and> aggregate_size (deref ?v) = extent ?v" if "whole_shortcut ?v"
    using that f tight short by (simp add: whole_shortcut_def)
  have elem: "contiguous ?v \<and> aggregate_size (deref ?v) = extent ?v" if "elem_shortcut ?v"
  proof -
    have eq: "?a * count * bsize = (count - 1) * strd + bsize * ?e" "num_contig_chunks (deref ?v) = 1"
      using that f by (simp_all add: elem_shortcut_def)
    note t = tight [OF eq(1)]
    have "num_contig_chunks (deref r) = 1"
    proof (rule ccontr)
      assume c: "num_contig_chunks (deref r) \<noteq> 1"
      then have "num_contig_chunks (deref r) * (bsize * count) = 1" using eq(2) by (simp add: vector_of_def algebra_simps)
      then show False using c r(3) by (simp add: zmult_eq_1_iff)
    qed
    then show ?thesis using short t eq(1) f by simp
  qed
  have reg: "regular ?v"
    unfolding regular.simps [of ?v] using r f n len whole elem cb
    by (simp add: chain_regular.simps [of _ ?v])
  have "1 \<le> num_contig_chunks (deref r) * bsize * count"
    using mult_mono [of 1 "num_contig_chunks (deref r)" 1 "count * bsize"] r(3) cb by (simp add: algebra_simps)
  then have "1 \<le> num_contig_chunks (deref ?v)" using n by (simp add: vector_of_def)
  then show ?thesis using reg size f by (simp add: proper_def)
qed

text \<open>The request that \<open>PVFS_Request_hindexed\<close> describes: blocks with their displacements and lengths.\<close>

definition seq_node :: "PVFS_offset \<Rightarrow> int \<Rightarrow> request \<Rightarrow> request option \<Rightarrow> request" where
  "seq_node d l r s =
     (let chunks = (if aggregate_size (deref r) = extent r \<and> num_contig_chunks (deref r) = 1 then 1
                    else num_contig_chunks (deref r) * l)
      in At (case s of
           None \<Rightarrow> PINT_Request d l 1 0 (d + l * extent r) d (aggregate_size (deref r) * l) chunks
             (depth (deref r) + 1) (num_nested_req (deref r) + 1) 0 0 (Some r) None
         | Some q \<Rightarrow> PINT_Request d l 1 0 (max (d + l * extent r) (ub (deref q))) (min d (lb (deref q)))
             (aggregate_size (deref r) * l + aggregate_size (deref q)) (chunks + num_contig_chunks (deref q))
             (max (depth (deref r) + 1) (depth (deref q))) (num_nested_req (deref q) + 1) 0 0 (Some r) (Some q)))"

fun seq_of :: "request \<Rightarrow> (PVFS_offset \<times> int) list \<Rightarrow> request option" where
  "seq_of r [] = None"
| "seq_of r ((d, l) # bs) = Some (seq_node d l r (seq_of r bs))"

text \<open>The blocks do not overlap and come in order.\<close>

fun ascending :: "PVFS_size \<Rightarrow> (PVFS_offset \<times> int) list \<Rightarrow> bool" where
  "ascending ext [] = True"
| "ascending ext [(d, l)] = (1 \<le> l)"
| "ascending ext ((d, l) # (d', l') # bs) = (1 \<le> l \<and> d + l * ext \<le> d' \<and> ascending ext ((d', l') # bs))"

definition seq_inv :: "request \<Rightarrow> PVFS_offset \<Rightarrow> int \<Rightarrow> bool \<Rightarrow> request \<Rightarrow> bool" where
  "seq_inv r d l one q \<longleftrightarrow>
     ereq (deref q) = Some r \<and> num_ereqs (deref q) = l \<and> num_blocks (deref q) = 1 \<and> stride (deref q) = 0 \<and> offset (deref q) = d \<and>
     lb (deref q) = d \<and> 0 < aggregate_size (deref q) \<and> aggregate_size (deref q) \<le> extent q \<and> depth (deref q) = depth (deref r) + 1 \<and>
     chain_regular (depth (deref r) + 1) q \<and> int (length (layout q 0)) = aggregate_size (deref q) \<and>
     1 \<le> num_contig_chunks (deref q) \<and> (one \<longrightarrow> sreq (deref q) = None) \<and> (\<not> one \<longrightarrow> 2 \<le> num_contig_chunks (deref q)) \<and>
     (aggregate_size (deref q) = extent q \<longrightarrow> aggregate_size (deref r) = extent r \<and> (num_contig_chunks (deref r) = 1 \<longrightarrow> contiguous q))"

lemma seq_inv_node:
  assumes p: "proper r" and l: "1 \<le> l"
    and s: "case s of None \<Rightarrow> True | Some q \<Rightarrow> \<exists>d' l' one. seq_inv r d' l' one q \<and> d + l * extent r \<le> d'"
  shows "seq_inv r d l (s = None) (seq_node d l r s)"
proof -
  let ?q = "seq_node d l r s" and ?a = "aggregate_size (deref r)" and ?e = "extent r"
  let ?c = "offset (deref r) + PINT_request_disp r"
  have r: "regular r" "?a \<le> ?e" "1 \<le> num_contig_chunks (deref r)" "0 < ?a" "1 \<le> depth (deref r)"
    using p regularD(1,2) [of r] by (auto simp: proper_def)
  have f: "ereq (deref ?q) = Some r" "num_ereqs (deref ?q) = l" "num_blocks (deref ?q) = 1" "stride (deref ?q) = 0" "offset (deref ?q) = d"
    "sreq (deref ?q) = s"
    by (simp_all add: seq_node_def Let_def split: option.split)
  have la: "0 < ?a * l" "l * ?a \<le> l * ?e" using r(2,4) l by simp_all
  have ch: "1 \<le> num_contig_chunks (deref r) * l" using mult_mono [of 1 "num_contig_chunks (deref r)" 1 l] r(3) l by simp
  have lay: "layout ?q b = concat (map (block ?q r b) [0..1 - 1]) @ tail_layout ?q b" for b
    using layout_blocks [OF f(1), of b] f(3) by simp
  have one: "int (length (concat (map (block ?q r 0) [0..1 - 1]))) = ?a * l"
    using blocks_length [OF f(1) r(1), of 1 0] f(2) l by (simp add: algebra_simps)
  have tile: "concat (map (block ?q r b) [0..1 - 1]) = [b + (d + ?c)..b + (d + ?c) + ?a * l - 1]"
    if "num_contig_chunks (deref r) = 1" "?a = ?e" for b
  proof -
    have "contiguous r" using regularD(4) [OF r(1)] that by (simp add: elem_shortcut_def)
    from blocks_tiles [OF f(1) this that(2) r(4)] show ?thesis
      using f l by (simp add: PINT_request_disp.simps [of ?q] algebra_simps)
  qed
  have disp: "PINT_request_disp ?q = ?c" using f(1) by (simp add: PINT_request_disp.simps [of ?q])
  show ?thesis
  proof (cases s)
    case None
    have g: "lb (deref ?q) = d" "aggregate_size (deref ?q) = ?a * l" "extent ?q = l * ?e" "depth (deref ?q) = depth (deref r) + 1"
      "num_contig_chunks (deref ?q) = (if ?a = ?e \<and> num_contig_chunks (deref r) = 1 then 1 else num_contig_chunks (deref r) * l)"
      "tail_layout ?q b = []" for b
      using None by (simp_all add: seq_node_def extent_def tail_layout_def)
    have "chain_regular (depth (deref r) + 1) ?q" unfolding chain_regular.simps [of _ ?q] using f None r l by simp
    moreover have "?a = ?e" if "?a * l = l * ?e" using that l by (simp add: mult.commute)
    moreover have "contiguous ?q" if "num_contig_chunks (deref r) = 1" "?a = ?e"
      using tile [OF that, of 0] lay [of 0] g(2,6) f(5) disp by (simp add: contiguous_def)
    ultimately show ?thesis
      using None f g r la ch one lay [of 0] l by (auto simp: seq_inv_def mult.commute)
  next
    case (Some q)
    obtain d' l' on where q: "seq_inv r d' l' on q" "d + l * ?e \<le> d'" using s Some by auto
    note q' = q(1) [unfolded seq_inv_def]
    have ub: "d' + aggregate_size (deref q) \<le> ub (deref q)" using q' by (simp add: extent_def)
    have le: "0 \<le> l * ?e" using r(2,4) l by (intro mult_nonneg_nonneg) auto
    have mx: "max (d + l * ?e) (ub (deref q)) = ub (deref q)" "min d (lb (deref q)) = d" using q(2) ub q' le by (auto simp: max_def min_def)
    have g: "lb (deref ?q) = d" "aggregate_size (deref ?q) = ?a * l + aggregate_size (deref q)" "extent ?q = ub (deref q) - d"
      "depth (deref ?q) = depth (deref r) + 1"
      "num_contig_chunks (deref ?q) = (if ?a = ?e \<and> num_contig_chunks (deref r) = 1 then 1 else num_contig_chunks (deref r) * l) + num_contig_chunks (deref q)"
      "tail_layout ?q b = layout q b" for b
      using Some mx q' by (simp_all add: seq_node_def extent_def tail_layout_def)
    have size: "?a * l + aggregate_size (deref q) \<le> ub (deref q) - d" using la(2) q(2) ub by (simp add: mult.commute)
    have "chain_regular (depth (deref r) + 1) ?q" unfolding chain_regular.simps [of _ ?q] using f Some r l q' by simp
    moreover have "int (length (layout ?q 0)) = ?a * l + aggregate_size (deref q)"
      using lay [of 0] one g(6) [of 0] q' by simp
    moreover have "?a = ?e \<and> (num_contig_chunks (deref r) = 1 \<longrightarrow> contiguous ?q)" if eq: "?a * l + aggregate_size (deref q) = ub (deref q) - d"
    proof -
      have t: "l * ?a = l * ?e" "d' = d + l * ?e" "aggregate_size (deref q) = ub (deref q) - d'"
        using eq [unfolded mult.commute [of ?a l]] la(2) q(2) ub by linarith+
      have ae: "?a = ?e" using t(1) l by simp
      have "contiguous ?q" if c: "num_contig_chunks (deref r) = 1"
      proof -
        have "contiguous q" using q' t(3) c by (simp add: extent_def)
        then have "layout q 0 = [d' + ?c..d' + ?c + aggregate_size (deref q) - 1]"
          using q' by (simp add: contiguous_def PINT_request_disp.simps [of q])
        then have "layout ?q 0 = [d + ?c..d + ?c + ?a * l - 1] @ [d + ?c + ?a * l..d + ?c + ?a * l + aggregate_size (deref q) - 1]"
          using lay [of 0] tile [OF c ae, of 0] g(6) [of 0] t(2) ae by (simp add: algebra_simps)
        also have "\<dots> = [d + ?c..d + ?c + (?a * l + aggregate_size (deref q)) - 1]"
          using upto_append [of "d + ?c" "d + ?c + ?a * l" "d + ?c + ?a * l + aggregate_size (deref q)"] la q' by (simp add: algebra_simps)
        finally show ?thesis using f(5) disp g(2) by (simp add: contiguous_def)
      qed
      then show ?thesis using ae by simp
    qed
    ultimately show ?thesis
      using Some f g la ch q' size by (auto simp: seq_inv_def)
  qed
qed

lemma seq_of_inv:
  assumes "proper r" "ascending (extent r) ((d, l) # bs)"
  shows "\<exists>q. seq_of r ((d, l) # bs) = Some q \<and> seq_inv r d l (bs = []) q"
  using assms(2)
proof (induction bs arbitrary: d l)
  case Nil
  then show ?case using seq_inv_node [OF assms(1), where l = l and s = None and d = d] by simp
next
  case (Cons b bs)
  obtain d' l' where b: "b = (d', l')" by (cases b)
  obtain q where "seq_of r ((d', l') # bs) = Some q" "seq_inv r d' l' (bs = []) q" using Cons b by auto
  then show ?case using seq_inv_node [OF assms(1), where l = l and s = "Some q" and d = d] Cons.prems b by auto
qed

lemma seq_of_proper:
  assumes "proper r" "ascending (extent r) ((d, l) # bs)" "seq_of r ((d, l) # bs) = Some q"
  shows "proper q"
proof -
  have q: "seq_inv r d l (bs = []) q" using seq_of_inv [OF assms(1,2)] assms(3) by auto
  note q' = q [unfolded seq_inv_def]
  have r: "1 \<le> depth (deref r)" "1 \<le> num_contig_chunks (deref r)" using assms(1) regularD(1) [of r] by (auto simp: proper_def)
  have whole: "contiguous q \<and> aggregate_size (deref q) = extent q" if "whole_shortcut q"
    using that q' by (simp add: whole_shortcut_def)
  have elem: "contiguous q \<and> aggregate_size (deref q) = extent q" if "elem_shortcut q"
  proof -
    have e: "aggregate_size (deref q) = extent q" "num_contig_chunks (deref q) = 1" using that by (simp_all add: elem_shortcut_def)
    then have "bs = []" using q' by auto
    then have "q = seq_node d l r None" using assms(3) by simp
    then have "num_contig_chunks (deref q) = (if aggregate_size (deref r) = extent r \<and> num_contig_chunks (deref r) = 1 then 1
        else num_contig_chunks (deref r) * l)"
      by (simp add: seq_node_def)
    then have "num_contig_chunks (deref r) = 1"
      using e(2) r(2) by (auto simp: zmult_eq_1_iff split: if_splits)
    then show ?thesis using q' e by simp
  qed
  have "regular q" unfolding regular.simps [of q] using q' r whole elem by simp
  then show ?thesis using q' by (simp add: proper_def)
qed

section \<open>The constructors\<close>

text \<open>The references to the structure at \<open>o1\<close> after \<open>k\<close> increments.\<close>

definition referred :: "req_heap \<Rightarrow> nat \<Rightarrow> nat \<Rightarrow> req_heap" where
  "referred h o1 k = h(o1 := map_option (\<lambda>n. if refcount n \<ge> 0 then set_refcount (refcount n + int k) n else n) (h o1))"

lemma referred_0 [simp]: "referred h o1 0 = h"
  by (cases "h o1") (auto simp: referred_def)

lemma referred_keeps: "keeps h (referred h o1 k)"
  by (auto simp: keeps_def referred_def)

lemma keeps_fresh: "h a = None \<Longrightarrow> keeps h h' \<Longrightarrow> keeps h (h'(a \<mapsto> n))"
  by (auto simp: keeps_def)

lemma oldext_shape: "shape h o1 r \<Longrightarrow> oldext_of h o1 = Some (extent r)"
  by (elim shape_deref) (simp add: oldext_of_def PVFS_Request_extent_def query_def extent_def)

lemma hvector_run:
  assumes "shape h o1 r" "h a = None" "0 \<le> strd"
  obtains n where "PVFS_Request_hvector h count bsize strd (Some o1) a newreq = Some (PVFS_SUCCESS, (referred h o1 1)(a \<mapsto> n), Some a)"
    "shape ((referred h o1 1)(a \<mapsto> n)) a (vector_of count bsize strd r)" "refcount n = 1" "ereq n = Some o1" "sreq n = None" "committed n = 0"
proof -
  obtain old where old: "h o1 = Some old" "aggregate_size (deref r) = aggregate_size old" "num_contig_chunks (deref r) = num_contig_chunks old"
    "depth (deref r) = depth old" "num_nested_req (deref r) = num_nested_req old"
    by (rule shape_deref [OF assms(1)])
  have ne: "o1 \<noteq> a" using assms(2) old(1) by auto
  let ?n = "PINT_Request 0 bsize count strd ((count - 1) * strd + bsize * extent r) 0
    (aggregate_size old * count * bsize) (subreq_chunks bsize strd count old (extent r))
    (depth old + 1) (num_nested_req old + 1) 0 1 (Some o1) None"
  let ?h = "(referred h o1 1)(a \<mapsto> ?n)"
  have run: "PVFS_Request_hvector h count bsize strd (Some o1) a newreq = Some (PVFS_SUCCESS, ?h, Some a)"
    using old(1) ne assms(3) oldext_shape [OF assms(1)]
    by (simp add: PVFS_Request_hvector_def PINT_subreq_def blank_def PINT_REQUEST_REFINC_def PINT_REQUEST_REFSET_def modify_def referred_def
      fun_upd_twist)
  have "keeps h ?h" by (rule keeps_fresh) (rule assms(2), rule referred_keeps)
  then have "shape ?h o1 r" by (rule shape_keeps [OF assms(1)])
  then have "shape ?h a (tree_node ?n (Some r) None)" by (intro shape_node) simp_all
  moreover have "tree_node ?n (Some r) None = vector_of count bsize strd r"
    using old by (simp add: tree_node_def vector_of_def subreq_chunks_def)
  ultimately show thesis by (intro that [OF run]) simp_all
qed

text \<open>The structures of a sequence, all with the element type at \<open>o1\<close>.\<close>

fun chain_at :: "req_heap \<Rightarrow> nat \<Rightarrow> PVFS_Request \<Rightarrow> nat list \<Rightarrow> bool" where
  "chain_at h o1 p [] \<longleftrightarrow> p = None"
| "chain_at h o1 p (a # as) \<longleftrightarrow> p = Some a \<and> (\<exists>n. h a = Some n \<and> ereq n = Some o1 \<and> refcount n = 0 \<and> committed n = 0 \<and> chain_at h o1 (sreq n) as)"

lemma chain_at_cong: "(\<And>a. a \<in> set as \<Longrightarrow> h' a = h a) \<Longrightarrow> chain_at h' o1 p as = chain_at h o1 p as"
  by (induction as arbitrary: p) auto

text \<open>The loop has built the blocks \<open>bs\<close> at the addresses \<open>used\<close>.\<close>

definition built :: "req_heap \<Rightarrow> nat \<Rightarrow> request \<Rightarrow> (PVFS_offset \<times> int) list \<Rightarrow> nat list \<Rightarrow> req_heap \<Rightarrow> PVFS_Request \<Rightarrow> bool" where
  "built h0 o1 r bs used h newreq \<longleftrightarrow> length used = length bs \<and> (\<forall>p. p \<notin> set used \<longrightarrow> h p = referred h0 o1 (length bs) p) \<and>
     distinct used \<and> (\<forall>a \<in> set used. h0 a = None) \<and> chain_at h o1 newreq used \<and> rel_option (shape h) newreq (seq_of r bs)"

lemma built_keeps: "built h0 o1 r bs used h newreq \<Longrightarrow> keeps h0 h"
  using referred_keeps [of h0 o1 "length bs"] unfolding built_def keeps_def by (metis option.distinct(1))

lemma built_step:
  assumes b: "built h0 o1 r bs used h newreq" and o1: "shape h0 o1 r" and a: "h0 a = None" "a \<notin> set used"
  obtains h1 h2 where "PINT_subreq (h(a \<mapsto> blank newreq)) d l 0 1 (Some o1) (extent r) a = Some (PVFS_SUCCESS, h1)"
    "PINT_reqstats h1 a = Some h2" "built h0 o1 r ((d, l) # bs) (a # used) h2 (Some a)"
proof -
  note goal = that
  obtain old where old: "h0 o1 = Some old" "aggregate_size (deref r) = aggregate_size old" "num_contig_chunks (deref r) = num_contig_chunks old"
    "depth (deref r) = depth old" "num_nested_req (deref r) = num_nested_req old"
    by (rule shape_deref [OF o1])
  note b' = b [unfolded built_def]
  have ne: "o1 \<noteq> a" "o1 \<notin> set used" using a(1) old(1) b' by auto
  let ?k = "length bs"
  obtain old' where old': "h o1 = Some old'" "core old' = core old" "referred h0 o1 ?k o1 = Some old'"
    using b' ne(2) old(1) referred_keeps [of h0 o1 ?k] unfolding keeps_def by metis
  note c = core_eqD [OF old'(2)]
  let ?chunks = "subreq_chunks l 0 1 old (extent r)"
  let ?n = "PINT_Request d l 1 0 (d + l * extent r) d (aggregate_size old * l) ?chunks (depth old + 1) (num_nested_req old + 1) 0 0 (Some o1) newreq"
  let ?h1 = "(h(o1 := referred h0 o1 (Suc ?k) o1))(a \<mapsto> ?n)"
  have sub: "subreq_chunks l 0 1 old' (extent r) = ?chunks" using c by (simp add: subreq_chunks_def)
  have "referred h0 o1 (Suc ?k) o1 = Some (if refcount old' \<ge> 0 then set_refcount (refcount old' + 1) old' else old')"
    using old'(3) old(1) by (auto simp: referred_def add_ac)
  then have inc: "PINT_REQUEST_REFINC (h(a \<mapsto> ?n)) o1 = Some ?h1"
    using old'(1) ne(1) by (simp add: PINT_REQUEST_REFINC_def modify_def fun_upd_twist)
  have run1: "PINT_subreq (h(a \<mapsto> blank newreq)) d l 0 1 (Some o1) (extent r) a = Some (PVFS_SUCCESS, ?h1)"
    using old' ne(1) c inc sub by (simp add: PINT_subreq_def blank_def fun_upd_upd)
  have out1: "?h1 p = referred h0 o1 (Suc ?k) p" if "p \<notin> set (a # used)" for p
    using that b' by (auto simp: referred_def)
  have ha: "h a = None" using b' a ne(1) by (auto simp: referred_def)
  have "keeps h (h(o1 := referred h0 o1 (Suc ?k) o1))" using old' old(1) by (auto simp: keeps_def referred_def)
  then have keep: "keeps h ((h(o1 := referred h0 o1 (Suc ?k) o1))(a \<mapsto> m))" for m using ha by (rule keeps_fresh [rotated])
  have fin: thesis if run2: "PINT_reqstats ?h1 a = Some (?h1(a \<mapsto> m))" and m: "ereq m = Some o1" "sreq m = newreq" "refcount m = 0" "committed m = 0"
      "tree_node m (Some r) (seq_of r bs) = seq_node d l r (seq_of r bs)" for m
  proof -
    let ?h2 = "?h1(a \<mapsto> m)"
    have keep2: "keeps h ?h2" using keep [of m] by simp
    have o2: "shape ?h2 o1 r" by (rule shape_keeps [OF o1 keeps_trans [OF built_keeps [OF b] keep2]])
    have "rel_option (shape ?h2) newreq (seq_of r bs)"
      using b' shape_keeps [OF _ keep2] by (auto elim: option.rel_mono_strong)
    then have "shape ?h2 a (tree_node m (Some r) (seq_of r bs))" using m o2 by (intro shape_node) simp_all
    moreover have "chain_at ?h2 o1 newreq used"
      using b' a(2) ne(2) chain_at_cong [of used ?h2 h o1 newreq] by fastforce
    ultimately have "built h0 o1 r ((d, l) # bs) (a # used) ?h2 (Some a)"
      using m a b' out1 by (auto simp: built_def)
    then show thesis by (rule goal [OF run1 run2])
  qed
  show thesis
  proof (cases bs)
    case Nil
    then have nr: "newreq = None" using b' by simp
    have "?h1(a \<mapsto> ?n) = ?h1" by simp
    then show thesis
      using Nil nr old by (intro fin [of ?n]) (simp_all add: PINT_reqstats_def tree_node_def seq_node_def subreq_chunks_def)
  next
    case (Cons x bs')
    then obtain q where q: "seq_of r bs = Some q" by (cases x) simp
    then obtain p where p: "newreq = Some p" "shape h p q" using b' by (cases newreq) auto
    obtain used' where u: "used = p # used'" using b' p(1) Cons by (cases used) auto
    then obtain sn where sn: "h p = Some sn" "ereq sn = Some o1" using b' by auto
    obtain sn' where sn': "h p = Some sn'" "ub (deref q) = ub sn'" "lb (deref q) = lb sn'" "aggregate_size (deref q) = aggregate_size sn'"
      "num_contig_chunks (deref q) = num_contig_chunks sn'" "depth (deref q) = depth sn'" "num_nested_req (deref q) = num_nested_req sn'"
      by (rule shape_deref [OF p(2)])
    have pa: "p \<noteq> a" "p \<noteq> o1" using a(2) ne u by auto
    have o1n: "map_option num_nested_req (?h1 o1) = Some (num_nested_req old)" using old(1) ne(1) by (auto simp: referred_def)
    then obtain on where on: "?h1 o1 = Some on" "num_nested_req on = num_nested_req old" by (cases "?h1 o1") auto
    let ?m = "PINT_Request d l 1 0 (if d + l * extent r < ub sn then ub sn else d + l * extent r) (if d > lb sn then lb sn else d)
      (aggregate_size old * l + aggregate_size sn) (?chunks + num_contig_chunks sn)
      (if depth old + 1 < depth sn then depth sn else depth old + 1) (num_nested_req old + 1 + (num_nested_req sn + 1) - (num_nested_req old + 1)) 0 0 (Some o1) newreq"
    have "PINT_reqstats ?h1 a = Some (?h1(a \<mapsto> ?m))"
      using p(1) sn pa on by (simp add: PINT_reqstats_def)
    then show thesis
      by (rule fin) (use q sn sn' old in \<open>auto simp: tree_node_def seq_node_def subreq_chunks_def\<close>)
  qed
qed

lemma sequence_loop_run:
  assumes o1: "shape h0 o1 r" and bs: "\<And>h i. i < length bs \<Longrightarrow> block_of h i = Some (Inr (fst (bs ! i), snd (bs ! i), o1, extent r))"
    and ne: "bs \<noteq> []" and as: "length bs \<le> length as + length used" "distinct as" "\<forall>a \<in> set as. h0 a = None \<and> a \<notin> set used"
    and b: "built h0 o1 r (drop m bs) used h newreq" "m \<le> length bs"
  obtains h' used' p where "sequence_loop block_of m as h newreq = Some (PVFS_SUCCESS, h'(p \<mapsto> set_refcount 1 (the (h' p))), Some p)"
    "built h0 o1 r bs used' h' (Some p)" "set used' \<subseteq> set used \<union> set as"
  using as b
proof (induction m arbitrary: as used h newreq thesis)
  case 0
  obtain p us where u: "used = p # us" "newreq = Some p" using 0(5) ne by (cases used) (auto simp: built_def)
  then obtain n where n: "h p = Some n" "refcount n = 0" using 0(5) by (auto simp: built_def)
  have "sequence_loop block_of 0 as h newreq = Some (PVFS_SUCCESS, h(p \<mapsto> set_refcount 1 (the (h p))), Some p)"
    using u(2) n by (simp add: PINT_REQUEST_REFSET_def modify_def)
  then show ?case by (rule 0(1)) (use 0(5) u in auto)
next
  case (Suc m)
  have "length used = length bs - Suc m" using Suc.prems(5) by (simp add: built_def)
  then obtain a as' where as: "as = a # as'" using Suc.prems(2,6) by (cases as) auto
  obtain h1 h2 where s: "PINT_subreq (h(a \<mapsto> blank newreq)) (fst (bs ! m)) (snd (bs ! m)) 0 1 (Some o1) (extent r) a = Some (PVFS_SUCCESS, h1)"
    "PINT_reqstats h1 a = Some h2" "built h0 o1 r ((fst (bs ! m), snd (bs ! m)) # drop (Suc m) bs) (a # used) h2 (Some a)"
    by (rule built_step [OF Suc.prems(5) o1, where a = a and d = "fst (bs ! m)" and l = "snd (bs ! m)"]) (use Suc.prems(4) as in auto)
  have "(fst (bs ! m), snd (bs ! m)) # drop (Suc m) bs = drop m bs" using Suc.prems(6) by (simp add: Cons_nth_drop_Suc)
  then have b: "built h0 o1 r (drop m bs) (a # used) h2 (Some a)" using s(3) by simp
  have pr: "length bs \<le> length as' + length (a # used)" "distinct as'" "\<forall>x \<in> set as'. h0 x = None \<and> x \<notin> set (a # used)" "m \<le> length bs"
    using Suc.prems(2-4,6) as by auto
  obtain h' used' p where "sequence_loop block_of m as' h2 (Some a) = Some (PVFS_SUCCESS, h'(p \<mapsto> set_refcount 1 (the (h' p))), Some p)"
    "built h0 o1 r bs used' h' (Some p)" "set used' \<subseteq> set (a # used) \<union> set as'"
    by (rule Suc.IH [OF _ pr(1-3) b pr(4)])
  then show ?case
    by (intro Suc.prems(1) [of h' p used']) (use s(1,2) as bs [of m] Suc.prems(6) in auto)
qed

lemma hindexed_run:
  assumes "shape h o1 r" "length displacements = length blocklengths" "blocklengths \<noteq> []" "length blocklengths \<le> length as"
    "distinct as" "\<forall>a \<in> set as. h a = None"
  obtains h' used p where "PVFS_Request_hindexed h (int (length blocklengths)) blocklengths displacements (Some o1) as =
      Some (PVFS_SUCCESS, h'(p \<mapsto> set_refcount 1 (the (h' p))), Some p)"
    "built h o1 r (zip displacements blocklengths) used h' (Some p)" "set used \<subseteq> set as"
proof -
  let ?bs = "zip displacements blocklengths"
  let ?f = "\<lambda>(_ :: req_heap) i. do {
              d \<leftarrow> array_get displacements (int i);
              b \<leftarrow> array_get blocklengths (int i);
              Some (Inr (d, b, o1, extent r) :: int + PVFS_offset \<times> int \<times> nat \<times> PVFS_size) }"
  have b: "built h o1 r (drop (length ?bs) ?bs) [] h None" by (simp add: built_def)
  have f: "?f h i = Some (Inr (fst (?bs ! i), snd (?bs ! i), o1, extent r))" if "i < length ?bs" for h i
    using that by (simp add: array_get_def)
  have as: "?bs \<noteq> []" "length ?bs \<le> length as + length []" "\<forall>a \<in> set as. h a = None \<and> a \<notin> set []" "length ?bs \<le> length ?bs"
    using assms by (auto simp: zip_eq_Nil_iff)
  obtain h' used p where l: "sequence_loop ?f (length ?bs) as h None = Some (PVFS_SUCCESS, h'(p \<mapsto> set_refcount 1 (the (h' p))), Some p)"
    "built h o1 r ?bs used h' (Some p)" "set used \<subseteq> set [] \<union> set as"
    by (rule sequence_loop_run [where block_of = ?f, OF assms(1) f as(1,2) assms(5) as(3) b as(4)])
  have "PVFS_Request_hindexed h (int (length blocklengths)) blocklengths displacements (Some o1) as = sequence_loop ?f (length ?bs) as h None"
    using assms(2) oldext_shape [OF assms(1)] by (simp add: PVFS_Request_hindexed_def)
  then show thesis using l by (intro that [of h' p used]) simp_all
qed

lemma indexed_hindexed:
  assumes "oldext_of h o1 = Some ext"
  shows "PVFS_Request_indexed h count blocklengths displacements (Some o1) as =
    PVFS_Request_hindexed h count blocklengths (map (\<lambda>d. d * ext) displacements) (Some o1) as"
proof -
  have "array_get (map (\<lambda>d. d * ext) displacements) i = map_option (\<lambda>d. d * ext) (array_get displacements i)" for i
    by (auto simp: array_get_def)
  then show ?thesis using assms by (simp add: PVFS_Request_indexed_def PVFS_Request_hindexed_def map_option_bind comp_def bind_map_option)
qed

section \<open>Release\<close>

text \<open>The element type has lost one of its references, but is still referred to or never released.\<close>

lemma free_shared:
  assumes "h0 o1 = Some n" "refcount n \<noteq> 0" "h o1 = referred h0 o1 (Suc k) o1"
  obtains e where "free_from h (Inl (Some o1)) = Some (h(o1 := referred h0 o1 k o1), e)"
proof (cases "refcount n < 0")
  case True
  then have "h o1 = Some n" "referred h0 o1 k o1 = Some n" using assms by (simp_all add: referred_def)
  then show thesis using True by (intro that [of "Some o1"]) (auto simp: free_from.simps fun_eq_iff)
next
  case False
  let ?n = "\<lambda>j. set_refcount (refcount n + int j) n"
  have eq: "h o1 = Some (?n (Suc k))" "referred h0 o1 k o1 = Some (?n k)" using False assms by (simp_all add: referred_def)
  have dec: "PINT_REQUEST_REFDEC h o1 = Some (h(o1 \<mapsto> ?n k))" using False eq by (simp add: PINT_REQUEST_REFDEC_def modify_def)
  have pos: "0 < refcount n" using False assms(2) by simp
  show thesis
    by (rule that [of None]) (use eq dec pos in \<open>simp add: free_from.simps\<close>)
qed

lemma free_chain:
  assumes "h0 o1 = Some n" "refcount n \<noteq> 0" "chain_at h o1 p as" "distinct as" "o1 \<notin> set as"
    "h o1 = referred h0 o1 (k + length as) o1"
  shows "free_from h (Inr p) = Some (\<lambda>q. if q \<in> set as then None else if q = o1 then referred h0 o1 k o1 else h q, None)"
  using assms(3-)
proof (induction as arbitrary: h p)
  case Nil
  then show ?case by (auto simp: free_from.simps fun_eq_iff)
next
  case (Cons a as)
  obtain m where m: "p = Some a" "h a = Some m" "ereq m = Some o1" "chain_at h o1 (sreq m) as" using Cons.prems(1) by auto
  have ne: "a \<noteq> o1" "a \<notin> set as" using Cons.prems by auto
  have "h o1 = referred h0 o1 (Suc (k + length as)) o1" using Cons.prems(4) by simp
  from free_shared [where ?h0.0 = h0 and ?o1.0 = o1 and n = n and h = h, OF assms(1,2) this] obtain e where
    e: "free_from h (Inl (Some o1)) = Some (h(o1 := referred h0 o1 (k + length as) o1), e)" .
  let ?h1 = "h(o1 := referred h0 o1 (k + length as) o1)"
  let ?h2 = "?h1(a \<mapsto> set_ereq e m)"
  have s: "sreq (set_ereq e m) = sreq m" by (cases m) simp
  have c: "chain_at (?h2(a := None)) o1 (sreq m) as"
    using m(4) chain_at_cong [of as "?h2(a := None)" h o1 "sreq m"] ne Cons.prems(3) by fastforce
  have "free_from h (Inr p) = free_from (?h2(a := None)) (Inr (sreq m))"
    using m e ne s by (simp add: free_from.simps [of h "Inr (Some a)"] modify_def)
  also have "\<dots> = Some (\<lambda>q. if q \<in> set as then None else if q = o1 then referred h0 o1 k o1 else (?h2(a := None)) q, None)"
    by (rule Cons.IH [OF c]) (use Cons.prems ne in auto)
  finally show ?case using ne by (auto simp: fun_eq_iff)
qed

lemma free_all:
  assumes p: "h p = Some m" "ereq m = Some o1" "committed m = 0" "refcount m = 1" "chain_at h o1 (sreq m) us" "distinct (p # us)"
    and fresh: "\<forall>a \<in> set (p # us). h0 a = None" and rest: "\<And>q. q \<notin> set (p # us) \<Longrightarrow> h q = referred h0 o1 (Suc (length us)) q"
    and o1: "h0 o1 = Some n" "refcount n \<noteq> 0"
  shows "PVFS_Request_free h (Some (Some p)) = Some (PVFS_SUCCESS, h0, Some None)"
proof -
  have ne: "p \<noteq> o1" "p \<notin> set us" "o1 \<notin> set us" "distinct us" using p(6) fresh o1 by auto
  let ?h1 = "h(p \<mapsto> set_refcount 0 m)"
  have dec: "PINT_REQUEST_REFDEC h p = Some ?h1" using p(1,4) by (simp add: PINT_REQUEST_REFDEC_def modify_def)
  have c: "chain_at ?h1 o1 (sreq m) us" using p(5) chain_at_cong [of us ?h1 h o1 "sreq m"] ne by fastforce
  have ho1: "h o1 = referred h0 o1 (1 + length us) o1" using rest [of o1] ne by auto
  let ?h2 = "\<lambda>q. if q \<in> set us then None else if q = o1 then referred h0 o1 1 o1 else ?h1 q"
  have f1: "free_from ?h1 (Inr (sreq m)) = Some (?h2, None)"
    by (rule free_chain [where ?h0.0 = h0 and ?o1.0 = o1 and n = n and h = ?h1, OF o1 c]) (use ne ho1 in auto)
  have h2: "?h2 o1 = referred h0 o1 (Suc 0) o1" using ne by simp
  from free_shared [where ?h0.0 = h0 and ?o1.0 = o1 and n = n and h = ?h2, OF o1 this]
  obtain e where f2: "free_from ?h2 (Inl (Some o1)) = Some (?h2(o1 := referred h0 o1 0 o1), e)" .
  let ?h3 = "?h2(o1 := referred h0 o1 0 o1)"
  have fin: "(?h3(p \<mapsto> set_ereq e (set_refcount 0 m)))(p := None) = h0"
    using rest fresh ne o1(1) by (auto simp: fun_eq_iff referred_def)
  have p2: "?h2 p = Some (set_refcount 0 m)" using ne by simp
  have p3: "modify ?h3 p (set_ereq e) = Some (?h3(p \<mapsto> set_ereq e (set_refcount 0 m)))" using ne by (simp add: modify_def)
  have "free_from h (Inl (Some p)) = Some (h0, None)"
    unfolding free_from.simps [of _ "Inl (Some p)"] using p(1-4) dec f1 f2 p2 p3 fin
    by (simp add: PINT_REQUEST_IS_PACKED_def)
  then show ?thesis by (simp add: PVFS_Request_free_def)
qed

lemma built_head:
  assumes "built h0 o1 r bs used h (Some p)"
  obtains m us where "h p = Some m" "ereq m = Some o1" "committed m = 0" "refcount m = 0" "chain_at h o1 (sreq m) us" "used = p # us"
    "length bs = Suc (length us)"
proof -
  note b = assms [unfolded built_def]
  have c: "chain_at h o1 (Some p) used" using b by blast
  obtain us where u: "used = p # us" using c by (cases used) auto
  obtain m where "h p = Some m" "ereq m = Some o1" "committed m = 0" "refcount m = 0" "chain_at h o1 (sreq m) us" using c u by auto
  then show thesis using that u b by simp
qed

section \<open>Properties\<close>

text \<open>The layout of a sequence.\<close>

lemma seq_of_layout:
  "seq_of r bs = Some q \<Longrightarrow>
   layout q b = concat (map (\<lambda>(d, l). concat (map (\<lambda>j. layout r (b + d + j * extent r)) [0..l - 1])) bs)"
proof (induction bs arbitrary: q)
  case (Cons x bs)
  obtain d l where x: "x = (d, l)" by (cases x)
  have q: "q = seq_node d l r (seq_of r bs)" using Cons.prems x by simp
  have f: "ereq (deref q) = Some r" "num_ereqs (deref q) = l" "num_blocks (deref q) = 1" "stride (deref q) = 0" "offset (deref q) = d"
    "sreq (deref q) = seq_of r bs"
    by (simp_all add: q seq_node_def Let_def split: option.split)
  have "tail_layout q b = concat (map (\<lambda>(d, l). concat (map (\<lambda>j. layout r (b + d + j * extent r)) [0..l - 1])) bs)"
    using Cons.IH f(6) by (cases "seq_of r bs"; cases bs) (auto simp: tail_layout_def)
  then show ?case using layout_blocks [OF f(1), of b] f x by (simp add: block_def)
qed simp

text \<open>The layout of a vector.\<close>

lemma vector_of_layout:
  "layout (vector_of count bsize strd r) b =
   concat (map (\<lambda>k. concat (map (\<lambda>j. layout r (b + strd * k + j * extent r)) [0..bsize - 1])) [0..count - 1])"
proof -
  have "ereq (deref (vector_of count bsize strd r)) = Some r" by (simp add: vector_of_def)
  from layout_blocks [OF this, of b] show ?thesis by (simp add: vector_of_def block_def [abs_def] tail_layout_def)
qed

text \<open>The smallest heap with an elementary request.\<close>

lemma shape_INT: "shape [0 \<mapsto> PINT_INT] 0 (tree_node (PINT_INT :: nat PINT_Request) None None)"
  by (rule shape_node) (simp_all add: PINT_INT_def)

text \<open>
  C12. Releasing a request that \<open>PVFS_Request_hindexed\<close> has built restores the heap: all its structures are
  freed, and the element type has the number of references it had before.
\<close>

theorem hindexed_free:
  assumes "shape h o1 r" "h o1 = Some n" "refcount n \<noteq> 0" "length displacements = length blocklengths" "blocklengths \<noteq> []"
    "length blocklengths \<le> length as" "distinct as" "\<forall>a \<in> set as. h a = None"
  shows "\<exists>h' p. PVFS_Request_hindexed h (int (length blocklengths)) blocklengths displacements (Some o1) as = Some (PVFS_SUCCESS, h', Some p) \<and>
    PVFS_Request_free h' (Some (Some p)) = Some (PVFS_SUCCESS, h, Some None)"
proof -
  obtain h' used p where run: "PVFS_Request_hindexed h (int (length blocklengths)) blocklengths displacements (Some o1) as =
      Some (PVFS_SUCCESS, h'(p \<mapsto> set_refcount 1 (the (h' p))), Some p)"
    and b: "built h o1 r (zip displacements blocklengths) used h' (Some p)"
    by (rule hindexed_run [OF assms(1,4-8)])
  obtain m us where m: "h' p = Some m" "ereq m = Some o1" "committed m = 0" "refcount m = 0" "chain_at h' o1 (sreq m) us" "used = p # us"
      "length (zip displacements blocklengths) = Suc (length us)"
    by (rule built_head [OF b])
  note b' = b [unfolded built_def]
  let ?h = "h'(p \<mapsto> set_refcount 1 m)"
  have c: "chain_at ?h o1 (sreq m) us" using m(5,6) b' chain_at_cong [of us ?h h' o1 "sreq m"] by fastforce
  have "PVFS_Request_free ?h (Some (Some p)) = Some (PVFS_SUCCESS, h, Some None)"
    by (rule free_all [where m = "set_refcount 1 m" and us = us and ?h0.0 = h and ?o1.0 = o1 and n = n])
      (use m b' c assms(2,3) in auto)
  then show ?thesis using run m(1) by simp
qed

theorem hindexed_free_witness:
  "\<exists>h' p. PVFS_Request_hindexed [0 \<mapsto> PINT_INT] 2 [2, 1] [0, 16] (Some 0) [1, 2] = Some (PVFS_SUCCESS, h', Some p) \<and>
    PVFS_Request_free h' (Some (Some p)) = Some (PVFS_SUCCESS, [0 \<mapsto> PINT_INT], Some None)"
  using hindexed_free [OF shape_INT, of PINT_INT "[0, 16]" "[2, 1]" "[1, 2]"] by (simp add: PINT_INT_def)

end
