(* ===== verification/Request_Pack.thy ===== *)
theory Request_Pack
  imports Request_Build
begin

text \<open>
  Packing a request into an array, \<open>PINT_request_commit\<close> to \<open>PINT_request_decode\<close> of
  \<open>src/io/description/pint-request.c\<close>. The pointers inside of the array are modelled by the
  indexes of the structures that they point to. While a request is packed, the member \<open>committed\<close> of a
  structure holds its index in the array.
\<close>

section \<open>Operations\<close>

type_synonym packed_region = "int PINT_Request list"

partial_function (option) PINT_do_clear_commit :: "req_heap \<Rightarrow> PVFS_Request \<Rightarrow> int \<Rightarrow> req_heap option" where
  "PINT_do_clear_commit h node dpth =
     (case node of
        None \<Rightarrow> Some h
      | Some p \<Rightarrow> do {
          n \<leftarrow> h p;
          if committed n = 0 \<and> dpth > 0 then Some h
          else do {
            h1 \<leftarrow> PINT_do_clear_commit (h(p \<mapsto> set_committed 0 n)) (ereq n) (dpth + 1);
            PINT_do_clear_commit h1 (sreq n) (dpth + 1) } })"

declare PINT_do_clear_commit.simps [code]

text \<open>Assignments to the members of the structure with an index.\<close>

definition region_modify :: "packed_region \<Rightarrow> int \<Rightarrow> (int PINT_Request \<Rightarrow> int PINT_Request) \<Rightarrow> packed_region option" where
  "region_modify reg i f = do { m \<leftarrow> array_get reg i; array_set reg i (f m) }"

text \<open>What the packing has changed: the heap, the array and the next index.\<close>

type_synonym packing = "req_heap \<times> packed_region \<times> int"

text \<open>The end of the outermost call: the marks are removed, and the array is marked as packed.\<close>

definition commit_finish :: "bool \<Rightarrow> nat \<Rightarrow> packing \<Rightarrow> packing option" where
  "commit_finish node_was_committed p w =
     (case w of (h, reg, idx) \<Rightarrow> do {
        h1 \<leftarrow> PINT_do_clear_commit h (Some p) 0;
        reg1 \<leftarrow> region_modify reg 0 (set_committed (- 1));
        h2 \<leftarrow> (if node_was_committed then modify h1 p (set_committed (- 1)) else Some h1);
        Some (h2, reg1, idx) })"

partial_function (option) PINT_do_request_commit :: "packing \<Rightarrow> PVFS_Request \<Rightarrow> int \<Rightarrow> (int option \<times> packing) option" where
  "PINT_do_request_commit w node dpth =
     (case node of
        None \<Rightarrow> Some (None, w)
      | Some p \<Rightarrow>
          (case w of (h, reg, idx) \<Rightarrow> do {
             n0 \<leftarrow> h p;
             let node_was_committed = (committed n0 = - 1);
             let n = (if node_was_committed then set_committed 0 n0 else n0);
             if committed n \<noteq> 0 then Some (Some (committed n), (h(p \<mapsto> n), reg, idx))
             else do {
               reg1 \<leftarrow> array_set reg idx (map_PINT_Request int n);
               (e, (h3, reg3, idx3)) \<leftarrow> PINT_do_request_commit (h(p \<mapsto> set_committed idx n), reg1, idx + 1) (ereq n) (dpth + 1);
               n3 \<leftarrow> h3 p;
               reg4 \<leftarrow> region_modify reg3 (committed n3) (set_ereq e);
               (s, (h5, reg5, idx5)) \<leftarrow> PINT_do_request_commit (h3, reg4, idx3) (sreq n3) (dpth + 1);
               n5 \<leftarrow> h5 p;
               reg6 \<leftarrow> region_modify reg5 (committed n5) (set_sreq s);
               (h7, reg7, idx7) \<leftarrow> (if dpth = 0 then commit_finish node_was_committed p (h5, reg6, idx5) else Some (h5, reg6, idx5));
               n7 \<leftarrow> h7 p;
               Some (Some (committed n7), (h7, reg7, idx7)) } }))"

declare PINT_do_request_commit.simps [code]

text \<open>The array has \<open>size\<close> structures, the contents of which do not matter.\<close>

definition PINT_request_commit :: "req_heap \<Rightarrow> nat \<Rightarrow> nat \<Rightarrow> (int \<times> req_heap \<times> packed_region) option" where
  "PINT_request_commit h sz node = do {
     (_, (h1, reg, _)) \<leftarrow> PINT_do_request_commit (h, replicate sz (map_PINT_Request int (blank None)), 0) (Some node) 0;
     Some (0, h1, reg) }"

text \<open>
  \<open>PVFS_Request_commit\<close> gives the array in place of the request, but NULL for a request that has no other
  nested in it. The return value, the heap and the new value of the pointer, which points to the
  array.
\<close>

definition PVFS_Request_commit :: "req_heap \<Rightarrow> PVFS_Request option \<Rightarrow> (int \<times> req_heap \<times> (PVFS_Request + packed_region option)) option" where
  "PVFS_Request_commit h reqp =
     (case reqp of
        None \<Rightarrow> Some (PVFS_ERR_REQ, h, Inl None)
      | Some None \<Rightarrow> Some (PVFS_ERR_REQ, h, Inl None)
      | Some (Some p) \<Rightarrow> do {
          n \<leftarrow> h p;
          if PINT_REQUEST_IS_PACKED n then Some (PVFS_ERR_REQ, h, Inl (Some p))
          else if num_nested_req n > 0 then do {
            (_, h1, reg) \<leftarrow> PINT_request_commit h (nat (num_nested_req n + 1)) p;
            Some (PVFS_SUCCESS, h1, Inr (Some reg)) }
          else Some (PVFS_SUCCESS, h, Inr None) })"

text \<open>
  For the transport the pointers become indexes; NULL becomes -1. The result has the value of each pointer
  as an integer. \<open>decode\<close> compares 32 bits of it with -1; the integer value of NULL is 0.
\<close>

definition encode_pointer :: "int option \<Rightarrow> int option" where
  "encode_pointer q = (case q of None \<Rightarrow> Some (- 1) | Some i \<Rightarrow> Some i)"

definition decode_pointer :: "int option \<Rightarrow> int option" where
  "decode_pointer q = (case q of None \<Rightarrow> Some 0 | Some v \<Rightarrow> if uint32 v = uint32 (- 1) then None else Some v)"

fun on_pointers :: "('p option \<Rightarrow> 'q option) \<Rightarrow> 'p PINT_Request \<Rightarrow> 'q PINT_Request" where
  "on_pointers f (PINT_Request off ne nb st u l ag ch d nn co rc e s) = PINT_Request off ne nb st u l ag ch d nn co rc (f e) (f s)"

text \<open>The loops run over \<open>num_nested_req + 1\<close> structures; the array may hold more.\<close>

definition convert :: "(int option \<Rightarrow> int option) \<Rightarrow> packed_region \<Rightarrow> (int \<times> packed_region) option" where
  "convert f reg = do {
     r0 \<leftarrow> array_get reg 0;
     if \<not> PINT_REQUEST_IS_PACKED r0 then Some (- 1, reg)
     else let k = nat (num_nested_req r0 + 1)
          in if k \<le> length reg then Some (0, map (on_pointers f) (take k reg) @ drop k reg) else None }"

definition PINT_request_encode :: "packed_region \<Rightarrow> (int \<times> packed_region) option" where
  "PINT_request_encode = convert encode_pointer"

definition PINT_request_decode :: "packed_region \<Rightarrow> (int \<times> packed_region) option" where
  "PINT_request_decode = convert decode_pointer"

section \<open>The structures of a request\<close>

lemma rel_option_fun:
  assumes "rel_option (\<lambda>x y. R x y \<and> (\<forall>z. R x z \<longrightarrow> z = y)) a b" "rel_option R a c"
  shows "c = b"
proof (cases a)
  case None
  then show ?thesis using assms by (cases b; cases c) simp_all
next
  case (Some x)
  obtain y where "b = Some y" "\<forall>z. R x z \<longrightarrow> z = y" using assms(1) unfolding Some option_rel_Some1 by blast
  moreover obtain z where "c = Some z" "R x z" using assms(2) unfolding Some option_rel_Some1 by blast
  ultimately show ?thesis by blast
qed

lemma shape_fun:
  assumes "shape h p r" "shape h p r'"
  shows "r' = r"
  using assms
proof (induction arbitrary: r' rule: shape.induct)
  case (shape_node p n e s)
  from shape_node.prems obtain e' s' where r': "r' = tree_node n e' s'" "rel_option (shape h) (ereq n) e'" "rel_option (shape h) (sreq n) s'"
    by (rule shapeE) (use shape_node.hyps(1) in simp)
  have "e' = e" by (rule rel_option_fun [OF _ r'(2)]) (use shape_node.IH(1) in \<open>auto elim!: option.rel_mono_strong\<close>)
  moreover have "s' = s" by (rule rel_option_fun [OF _ r'(3)]) (use shape_node.IH(2) in \<open>auto elim!: option.rel_mono_strong\<close>)
  ultimately show ?case using r'(1) by simp
qed

inductive reach :: "req_heap \<Rightarrow> nat \<Rightarrow> nat \<Rightarrow> bool" for h p where
  reach_refl: "reach h p p"
| reach_ereq: "reach h p q \<Longrightarrow> h q = Some n \<Longrightarrow> ereq n = Some e \<Longrightarrow> reach h p e"
| reach_sreq: "reach h p q \<Longrightarrow> h q = Some n \<Longrightarrow> sreq n = Some s \<Longrightarrow> reach h p s"

definition nodes :: "req_heap \<Rightarrow> PVFS_Request \<Rightarrow> nat set" where
  "nodes h node = (case node of None \<Rightarrow> {} | Some p \<Rightarrow> {q. reach h p q})"

lemma nodes_None [simp]: "nodes h None = {}"
  by (simp add: nodes_def)

lemma reach_child:
  assumes "reach h e q" "h p = Some n" "ereq n = Some e \<or> sreq n = Some e"
  shows "reach h p q"
  using assms(1)
proof (induction rule: reach.induct)
  case reach_refl
  show ?case using assms(2,3) reach.intros by metis
qed (use reach.intros in metis)+

lemma reach_trans:
  assumes "reach h q q'" "reach h p q"
  shows "reach h p q'"
  using assms
proof (induction rule: reach.induct)
  case (reach_ereq q' n e)
  then show ?case by (blast intro: reach.reach_ereq)
next
  case (reach_sreq q' n e)
  then show ?case by (blast intro: reach.reach_sreq)
qed simp

lemma nodes_trans: "q \<in> nodes h node \<Longrightarrow> q' \<in> nodes h (Some q) \<Longrightarrow> q' \<in> nodes h node"
  unfolding nodes_def by (cases node) (auto elim: reach_trans)

lemma nodes_Some:
  assumes "h p = Some n"
  shows "nodes h (Some p) = insert p (nodes h (ereq n) \<union> nodes h (sreq n))"
proof
  have "q \<in> insert p (nodes h (ereq n) \<union> nodes h (sreq n))" if "reach h p q" for q
    using that
  proof (induction rule: reach.induct)
    case (reach_ereq q m e)
    then show ?case using assms by (auto simp: nodes_def split: option.splits intro: reach.intros)
  next
    case (reach_sreq q m e)
    then show ?case using assms by (auto simp: nodes_def split: option.splits intro: reach.intros)
  qed simp
  then show "nodes h (Some p) \<subseteq> insert p (nodes h (ereq n) \<union> nodes h (sreq n))" by (auto simp: nodes_def)
  show "insert p (nodes h (ereq n) \<union> nodes h (sreq n)) \<subseteq> nodes h (Some p)"
    using reach_child [of h _ _ p n] assms by (auto simp: nodes_def reach_refl split: option.splits)
qed

text \<open>The structures below a structure are smaller requests, so it is not one of them, and they are finitely many.\<close>

lemma reach_shape:
  assumes "reach h p q" "shape h p r"
  shows "\<exists>r'. shape h q r' \<and> (r' = r \<and> q = p \<or> size r' < size r)"
  using assms(1)
proof (induction rule: reach.induct)
  case (reach_ereq q n e)
  then obtain r' where r': "shape h q r'" "size r' \<le> size r" by force
  obtain n' where "h q = Some n'" "rel_option (shape h) (ereq n') (ereq (deref r'))" by (rule shape_deref [OF r'(1)])
  then obtain r'' where "ereq (deref r') = Some r''" "shape h e r''" using reach_ereq(2,3) by (cases "ereq (deref r')") auto
  then show ?case using ereq_size [of r' r''] r'(2) by (intro exI [of _ r'']) simp
next
  case (reach_sreq q n e)
  then obtain r' where r': "shape h q r'" "size r' \<le> size r" by force
  obtain n' where "h q = Some n'" "rel_option (shape h) (sreq n') (sreq (deref r'))" by (rule shape_deref [OF r'(1)])
  then obtain r'' where "sreq (deref r') = Some r''" "shape h e r''" using reach_sreq(2,3) by (cases "sreq (deref r')") auto
  then show ?case using sreq_size [of r' r''] r'(2) by (intro exI [of _ r'']) simp
qed (use assms(2) in blast)

lemma shape_acyclic:
  assumes "shape h p r" "h p = Some n" "ereq n = Some e \<or> sreq n = Some e"
  shows "p \<notin> nodes h (Some e)"
proof
  assume "p \<in> nodes h (Some e)"
  then have pe: "reach h e p" by (simp add: nodes_def)
  obtain n' where n': "h p = Some n'" "rel_option (shape h) (ereq n') (ereq (deref r))" "rel_option (shape h) (sreq n') (sreq (deref r))"
    by (rule shape_deref [OF assms(1)])
  obtain re where re: "shape h e re" "size re < size r"
  proof (cases "ereq n = Some e")
    case True
    then obtain re where "ereq (deref r) = Some re" "shape h e re" using n' assms(2) by (cases "ereq (deref r)") auto
    then show thesis using that ereq_size by blast
  next
    case False
    then obtain re where "sreq (deref r) = Some re" "shape h e re" using n' assms(2,3) by (cases "sreq (deref r)") auto
    then show thesis using that sreq_size by blast
  qed
  obtain r' where "shape h p r'" "size r' \<le> size re" using reach_shape [OF pe re(1)] by force
  then show False using shape_fun [OF assms(1)] re(2) by force
qed

lemma shape_children:
  assumes "shape h p r" "h p = Some n"
  shows "p \<notin> nodes h (ereq n)" "p \<notin> nodes h (sreq n)"
proof -
  show "p \<notin> nodes h (ereq n)"
  proof (cases "ereq n")
    case (Some e)
    then show ?thesis using shape_acyclic [of h p r n e] assms by simp
  qed simp
  show "p \<notin> nodes h (sreq n)"
  proof (cases "sreq n")
    case (Some e)
    then show ?thesis using shape_acyclic [of h p r n e] assms by simp
  qed simp
qed

lemma finite_nodes:
  assumes "shape h p r"
  shows "finite (nodes h (Some p))"
  using assms
proof (induction rule: shape.induct)
  case (shape_node p n e s)
  have "finite (nodes h (ereq n))" using shape_node.IH(1) by (cases "ereq n"; cases e) auto
  moreover have "finite (nodes h (sreq n))" using shape_node.IH(2) by (cases "sreq n"; cases s) auto
  ultimately show ?case using nodes_Some [of h p n] shape_node.hyps(1) by simp
qed

text \<open>Two heaps that differ in the member \<open>committed\<close> only.\<close>

definition same_shape :: "req_heap \<Rightarrow> req_heap \<Rightarrow> bool" where
  "same_shape h h' \<longleftrightarrow> (\<forall>p. map_option (set_committed 0) (h' p) = map_option (set_committed 0) (h p))"

lemma committed_set [simp]: "committed (set_committed v n) = v"
  by (cases n) simp

lemma set_committed_twice [simp]: "set_committed v (set_committed w n) = set_committed v n"
  by (cases n) simp

lemma set_committed_same [simp]: "set_committed (committed n) n = n"
  by (cases n) simp

lemma same_shape_refl [simp]: "same_shape h h"
  by (simp add: same_shape_def)

lemma same_shape_trans: "same_shape h h1 \<Longrightarrow> same_shape h1 h2 \<Longrightarrow> same_shape h h2"
  by (simp add: same_shape_def)

lemma same_shape_sym: "same_shape h h1 \<Longrightarrow> same_shape h1 h"
  by (simp add: same_shape_def)

lemma same_shape_node:
  assumes "same_shape h h'" "h p = Some n"
  obtains n' where "h' p = Some n'" "set_committed 0 n' = set_committed 0 n" "core n' = core n"
proof -
  have "map_option (set_committed 0) (h' p) = Some (set_committed 0 n)" using assms by (simp add: same_shape_def)
  then obtain n' where n': "h' p = Some n'" "set_committed 0 n' = set_committed 0 n" by (auto simp: map_option_eq_Some)
  have "core n' = core n" using arg_cong [OF n'(2), of core] by simp
  then show thesis by (rule that [OF n'])
qed

lemma same_shape_keeps: "same_shape h h' \<Longrightarrow> keeps h h'"
  unfolding keeps_def by (metis same_shape_node)

lemma reach_same:
  assumes "reach h p q" "same_shape h h'"
  shows "reach h' p q"
  using assms(1)
proof (induction rule: reach.induct)
  case (reach_ereq q n e)
  obtain n' where "h' q = Some n'" "core n' = core n" by (rule same_shape_node [OF assms(2) reach_ereq(2)])
  then show ?case using reach_ereq core_eqD(11) [of n' n] reach.reach_ereq by metis
next
  case (reach_sreq q n e)
  obtain n' where "h' q = Some n'" "core n' = core n" by (rule same_shape_node [OF assms(2) reach_sreq(2)])
  then show ?case using reach_sreq core_eqD(12) [of n' n] reach.reach_sreq by metis
qed (rule reach_refl)

lemma nodes_same: "same_shape h h' \<Longrightarrow> nodes h' p = nodes h p"
  using reach_same [of h _ _ h'] reach_same [of h' _ _ h] same_shape_sym [of h h']
  by (auto simp: nodes_def split: option.split)

section \<open>Packing\<close>

text \<open>The index of a structure while it is packed.\<close>

definition mark :: "req_heap \<Rightarrow> nat \<Rightarrow> int" where
  "mark h q = (case h q of None \<Rightarrow> 0 | Some n \<Rightarrow> committed n)"

definition marked :: "req_heap \<Rightarrow> nat set" where
  "marked h = {q. 0 < mark h q}"

definition bare :: "'p PINT_Request \<Rightarrow> unit PINT_Request" where
  "bare n = core (on_pointers (\<lambda>_. None) n)"

text \<open>A structure of the array that stands for one of the heap, and a structure that has been packed.\<close>

definition linked :: "req_heap \<Rightarrow> nat PINT_Request \<Rightarrow> int PINT_Request \<Rightarrow> bool" where
  "linked h n m \<longleftrightarrow> bare m = bare n \<and> rel_option (\<lambda>q i. mark h q = i \<and> 0 < i) (ereq n) (ereq m) \<and>
     rel_option (\<lambda>q i. mark h q = i \<and> 0 < i) (sreq n) (sreq m)"

definition packed :: "req_heap \<Rightarrow> packed_region \<Rightarrow> nat \<Rightarrow> bool" where
  "packed h reg q \<longleftrightarrow> (\<exists>n. h q = Some n \<and> 0 < committed n \<and> committed n < int (length reg) \<and> linked h n (reg ! nat (committed n)))"

lemma linked_mono:
  assumes "linked h n m" "\<And>q. 0 < mark h q \<Longrightarrow> mark h' q = mark h q"
  shows "linked h' n m"
  using assms(1) unfolding linked_def by (auto elim!: option.rel_mono_strong simp: assms(2))

lemma packed_mono:
  assumes "packed h reg q" "\<And>q. 0 < mark h q \<Longrightarrow> h' q = h q" "reg' ! nat (mark h q) = reg ! nat (mark h q)" "length reg' = length reg"
  shows "packed h' reg' q"
proof -
  obtain n where n: "h q = Some n" "0 < committed n" "committed n < int (length reg)" "linked h n (reg ! nat (committed n))"
    using assms(1) by (auto simp: packed_def)
  have m: "mark h q = committed n" using n(1) by (simp add: mark_def)
  have "h' q = Some n" using assms(2) [of q] n m by simp
  moreover have "linked h' n (reg ! nat (committed n))" by (rule linked_mono [OF n(4)]) (simp add: mark_def assms(2))
  ultimately show ?thesis using n(2,3) assms(3,4) m by (auto simp: packed_def)
qed

lemma packed_mark: "packed h reg q \<Longrightarrow> 0 < mark h q"
  by (auto simp: packed_def mark_def)

text \<open>What the packing of a request, or of NULL, relies on and what it does.\<close>

definition commit_pre :: "req_heap \<Rightarrow> packed_region \<Rightarrow> int \<Rightarrow> PVFS_Request \<Rightarrow> bool" where
  "commit_pre h reg idx node \<longleftrightarrow> idx + int (card (nodes h node - marked h)) \<le> int (length reg) \<and>
     (\<forall>q \<in> nodes h node. mark h q = - 1 \<or> mark h q = 0 \<or> packed h reg q \<and> mark h q < idx)"

definition pointers_in :: "int PINT_Request \<Rightarrow> int \<Rightarrow> bool" where
  "pointers_in m k \<longleftrightarrow> (\<forall>i. ereq m = Some i \<or> sreq m = Some i \<longrightarrow> 0 < i \<and> i < k)"

definition commit_post :: "req_heap \<Rightarrow> packed_region \<Rightarrow> int \<Rightarrow> PVFS_Request \<Rightarrow> req_heap \<Rightarrow> packed_region \<Rightarrow> int \<Rightarrow> bool" where
  "commit_post h reg idx node h' reg' idx' \<longleftrightarrow> same_shape h h' \<and> length reg' = length reg \<and>
     (\<forall>i. 0 \<le> i \<and> i < idx \<or> idx' \<le> i \<longrightarrow> reg' ! nat i = reg ! nat i) \<and>
     (\<forall>i. idx \<le> i \<and> i < idx' \<longrightarrow> pointers_in (reg' ! nat i) (int (length reg))) \<and>
     (\<forall>q. q \<notin> nodes h node \<or> 0 < mark h q \<longrightarrow> h' q = h q) \<and>
     (\<forall>q \<in> nodes h node. packed h' reg' q \<and> (0 < mark h q \<or> idx \<le> mark h' q) \<and> mark h' q < idx') \<and>
     idx' = idx + int (card (nodes h node - marked h))"

definition commit_ok :: "request \<Rightarrow> bool" where
  "commit_ok r \<longleftrightarrow> (\<forall>h p reg idx dpth. shape h p r \<longrightarrow> 0 < idx \<longrightarrow> 0 < dpth \<longrightarrow> commit_pre h reg idx (Some p) \<longrightarrow>
     (\<exists>h' reg' idx'. PINT_do_request_commit (h, reg, idx) (Some p) dpth = Some (Some (mark h' p), (h', reg', idx')) \<and>
        commit_post h reg idx (Some p) h' reg' idx'))"

lemma commit_child:
  assumes "rel_option (shape h) node c" "\<And>x. c = Some x \<Longrightarrow> commit_ok x" "0 < idx" "0 < dpth" "commit_pre h reg idx node"
  obtains h' reg' idx' where "PINT_do_request_commit (h, reg, idx) node dpth = Some (map_option (mark h') node, (h', reg', idx'))"
    "commit_post h reg idx node h' reg' idx'"
proof (cases node)
  case None
  show thesis
    by (rule that [of h reg idx]) (use None in \<open>auto simp: PINT_do_request_commit.simps commit_post_def\<close>)
next
  case (Some p)
  then obtain x where "c = Some x" "shape h p x" using assms(1) by (cases c) auto
  then show thesis using assms(2-5) that Some unfolding commit_ok_def by (metis option.simps(9))
qed

text \<open>A request whose first structure has been packed has been packed as a whole.\<close>

lemma all_packed:
  assumes "commit_pre h reg idx (Some p)" "0 < mark h p"
  shows "\<forall>q \<in> nodes h (Some p). packed h reg q \<and> mark h q < idx"
proof
  have pre: "packed h reg q \<and> mark h q < idx" if "reach h p q" "0 < mark h q" for q
    using assms(1) that by (auto simp: commit_pre_def nodes_def dest: spec [of _ q])
  fix q assume "q \<in> nodes h (Some p)"
  then have "reach h p q" by (simp add: nodes_def)
  then show "packed h reg q \<and> mark h q < idx"
  proof (induction rule: reach.induct)
    case reach_refl
    show ?case by (rule pre [OF reach.reach_refl assms(2)])
  next
    case (reach_ereq q n e)
    have "0 < mark h e" using reach_ereq(2-4) by (auto simp: packed_def linked_def rel_option_iff split: option.splits)
    then show ?case by (rule pre [OF reach.reach_ereq [OF reach_ereq(1-3)]])
  next
    case (reach_sreq q n e)
    have "0 < mark h e" using reach_sreq(2-4) by (auto simp: packed_def linked_def rel_option_iff split: option.splits)
    then show ?case by (rule pre [OF reach.reach_sreq [OF reach_sreq(1-3)]])
  qed
qed

text \<open>The part of the function between the copy of a structure and its return.\<close>

lemma mark_upd [simp]: "mark (h(p \<mapsto> n)) q = (if q = p then committed n else mark h q)"
  by (simp add: mark_def)

lemma marks_after:
  assumes "commit_post h reg idx node h' reg' idx'" "0 < mark h q"
  shows "h' q = h q" "mark h' q = mark h q"
  using assms by (simp_all add: commit_post_def mark_def)

lemma commit_body:
  assumes sh: "shape h p r" and ok: "\<And>x. size x < size r \<Longrightarrow> commit_ok x" and idx: "0 \<le> idx" "0 \<le> dpth"
    and hp: "h p = Some n0" and n: "set_committed 0 n = set_committed 0 n0" "committed n = 0" "mark h p \<le> 0"
    and pre: "commit_pre h reg idx (Some p)"
  obtains reg1 h3 reg3 idx3 n3 reg4 h5 reg5 idx5 n5 reg6 where
    "array_set reg idx (map_PINT_Request int n) = Some reg1"
    "PINT_do_request_commit (h(p \<mapsto> set_committed idx n), reg1, idx + 1) (ereq n) (dpth + 1) = Some (map_option (mark h3) (ereq n), (h3, reg3, idx3))"
    "h3 p = Some n3" "region_modify reg3 (committed n3) (set_ereq (map_option (mark h3) (ereq n))) = Some reg4"
    "PINT_do_request_commit (h3, reg4, idx3) (sreq n3) (dpth + 1) = Some (map_option (mark h5) (sreq n), (h5, reg5, idx5))"
    "h5 p = Some n5" "region_modify reg5 (committed n5) (set_sreq (map_option (mark h5) (sreq n))) = Some reg6"
    "committed n5 = idx" "same_shape h h5" "length reg6 = length reg"
    "\<And>i. 0 \<le> i \<and> i < idx \<or> idx5 \<le> i \<Longrightarrow> reg6 ! nat i = reg ! nat i"
    "\<And>i. idx \<le> i \<Longrightarrow> i < idx5 \<Longrightarrow> pointers_in (reg6 ! nat i) (int (length reg))"
    "\<And>q. q \<notin> nodes h (Some p) \<or> 0 < mark h q \<Longrightarrow> h5 q = h q"
    "\<And>q. q \<in> nodes h (Some p) \<Longrightarrow> q \<noteq> p \<Longrightarrow> packed h5 reg6 q \<and> (0 < mark h q \<or> idx < mark h5 q) \<and> mark h5 q < idx5"
    "idx5 = idx + int (card (nodes h (Some p) - marked h))" "linked h5 n5 (reg6 ! nat idx)" "idx < idx5"
proof -
  let ?n = "set_committed idx n" and ?h1 = "h(p \<mapsto> set_committed idx n)" and ?N = "nodes h (Some p)"
  have cn0: "core n = core n0" using arg_cong [OF n(1), of core] by simp
  note c = core_eqD [OF cn0]
  have N: "?N = insert p (nodes h (ereq n) \<union> nodes h (sreq n))" using nodes_Some [of h p n0] hp c by simp
  have acyc: "p \<notin> nodes h (ereq n)" "p \<notin> nodes h (sreq n)"
    using shape_children [OF sh hp] c(11,12) by simp_all
  have fin: "finite ?N" by (rule finite_nodes [OF sh])
  have pm: "p \<notin> marked h" using n(3) by (simp add: marked_def)
  obtain nn where kids: "h p = Some nn" "rel_option (shape h) (ereq nn) (ereq (deref r))" "rel_option (shape h) (sreq nn) (sreq (deref r))"
    by (rule shape_deref [OF sh])
  have ke: "rel_option (shape h) (ereq n) (ereq (deref r))" "rel_option (shape h) (sreq n) (sreq (deref r))"
    using kids hp c(11,12) by simp_all
  have s1: "same_shape h ?h1" using hp n(1) by (auto simp: same_shape_def)
  note keep1 = same_shape_keeps [OF s1]
  have e1: "rel_option (shape ?h1) (ereq n) (ereq (deref r))" using ke(1) shape_keeps [OF _ keep1] by (auto elim: option.rel_mono_strong)
  have oke: "commit_ok x" if "ereq (deref r) = Some x" for x using ok ereq_size that by blast
  have oks: "commit_ok x" if "sreq (deref r) = Some x" for x using ok sreq_size that by blast
  have "card (?N - marked h) > 0" using N pm fin by (auto simp: card_gt_0_iff)
  then have room: "idx < int (length reg)" using pre by (simp add: commit_pre_def)
  define reg1 where "reg1 = reg[nat idx := map_PINT_Request int n]"
  have r1: "array_set reg idx (map_PINT_Request int n) = Some reg1" using room idx by (simp add: array_set_def reg1_def)
  have len1: "length reg1 = length reg" and at1: "reg1 ! nat idx = map_PINT_Request int n"
    and low1: "\<And>i. 0 \<le> i \<Longrightarrow> i \<noteq> idx \<Longrightarrow> reg1 ! nat i = reg ! nat i"
    using room idx by (auto simp: reg1_def nth_list_update eq_nat_nat_iff)
  have n1: "nodes ?h1 q = nodes h q" for q by (rule nodes_same [OF s1])
  have old: "packed h reg q \<and> mark h q < idx" if "q \<in> ?N" "0 < mark h q" for q
    using pre that by (auto simp: commit_pre_def)
  have low: "mark h q = - 1 \<or> mark h q = 0 \<or> 0 < mark h q" if "q \<in> ?N" for q
    using pre that packed_mark by (auto simp: commit_pre_def)
  have m1: "?h1 q = h q" if "0 < mark h q" for q using that n(3) by auto
  let ?A = "nodes h (ereq n) - marked ?h1"
  have A: "?A = nodes h (ereq n) - marked h" using acyc by (auto simp: marked_def)
  have cardA: "idx + 1 + int (card ?A) \<le> int (length reg)"
  proof -
    have "insert p ?A \<subseteq> ?N - marked h" using N A pm by auto
    then have "card (insert p ?A) \<le> card (?N - marked h)" using fin by (intro card_mono) auto
    moreover have "card (insert p ?A) = Suc (card ?A)" using acyc fin N A by (intro card_insert_disjoint) auto
    ultimately show ?thesis using pre by (simp add: commit_pre_def)
  qed
  have pre1: "commit_pre ?h1 reg1 (idx + 1) (ereq n)"
    unfolding commit_pre_def n1
  proof (intro conjI ballI)
    show "idx + 1 + int (card (nodes h (ereq n) - marked ?h1)) \<le> int (length reg1)" using cardA len1 by simp
    fix q assume q: "q \<in> nodes h (ereq n)"
    then have qN: "q \<in> ?N" "q \<noteq> p" using N acyc by auto
    show "mark ?h1 q = - 1 \<or> mark ?h1 q = 0 \<or> packed ?h1 reg1 q \<and> mark ?h1 q < idx + 1"
    proof (cases "0 < mark h q")
      case True
      have "packed ?h1 reg1 q"
        by (rule packed_mono [of h reg q]) (use old [OF qN(1) True] m1 low1 len1 True in auto)
      then show ?thesis using old [OF qN(1) True] qN(2) by simp
    qed (use low [OF qN(1)] qN(2) in auto)
  qed
  obtain h3 reg3 idx3 where c3: "PINT_do_request_commit (?h1, reg1, idx + 1) (ereq n) (dpth + 1) = Some (map_option (mark h3) (ereq n), (h3, reg3, idx3))"
    "commit_post ?h1 reg1 (idx + 1) (ereq n) h3 reg3 idx3"
    by (rule commit_child [OF e1 oke _ _ pre1, of "dpth + 1"]) (use idx in auto)
  note p3 = c3(2) [unfolded commit_post_def n1]
  have h3p: "h3 p = Some ?n" using p3 acyc by simp
  have i3: "idx3 = idx + 1 + int (card ?A)" using p3 by simp
  have len3: "length reg3 = length reg" using p3 len1 by simp
  have at3: "reg3 ! nat idx = map_PINT_Request int n" using p3 at1 idx by simp
  define reg4 where "reg4 = reg3[nat idx := set_ereq (map_option (mark h3) (ereq n)) (map_PINT_Request int n)]"
  have cn: "committed ?n = idx" by (cases n) simp
  have r4: "region_modify reg3 idx (set_ereq (map_option (mark h3) (ereq n))) = Some reg4"
    using room idx len3 at3 by (simp add: region_modify_def array_get_def array_set_def reg4_def)
  have len4: "length reg4 = length reg" and low4: "\<And>i. 0 \<le> i \<Longrightarrow> i \<noteq> idx \<Longrightarrow> reg4 ! nat i = reg3 ! nat i"
    using idx len3 by (auto simp: reg4_def nth_list_update eq_nat_nat_iff)
  have s3: "same_shape h h3" using p3 same_shape_trans [OF s1] by blast
  have n3: "nodes h3 q = nodes h q" for q by (rule nodes_same [OF s3])
  have m3: "h3 q = ?h1 q" if "0 < mark ?h1 q" for q using marks_after(1) [OF c3(2) that] .
  have m13: "h3 q = h q" if "0 < mark h q" for q using m1 [OF that] m3 [of q] that by (simp add: mark_def)
  have out3: "h3 q = h q" if "q \<notin> nodes h (ereq n)" "q \<noteq> p" for q using p3 that by auto
  have e3: "packed h3 reg3 q \<and> (0 < mark h q \<or> idx < mark h3 q) \<and> mark h3 q < idx3" if "q \<in> nodes h (ereq n)" for q
  proof -
    have "q \<noteq> p" using that acyc by auto
    then show ?thesis using p3 that by auto
  qed
  have pk4: "packed h3 reg4 q" if "packed h3 reg3 q" "mark h3 q \<noteq> idx" for q
    by (rule packed_mono [OF that(1)]) (use that packed_mark [OF that(1)] low4 len4 len3 in auto)
  have low3: "reg3 ! nat i = reg ! nat i" if "0 \<le> i" "i < idx" for i using p3 that low1 by auto
  have old4: "packed h3 reg4 q \<and> mark h3 q < idx" if "q \<in> ?N" "0 < mark h q" for q
  proof -
    have m: "mark h3 q = mark h q" using m13 [OF that(2)] by (simp add: mark_def)
    have "packed h3 reg4 q"
      by (rule packed_mono [of h reg q]) (use old [OF that] m13 low3 low4 len4 that(2) in auto)
    then show ?thesis using m old [OF that] by simp
  qed
  have e4: "packed h3 reg4 q \<and> (0 < mark h q \<or> idx < mark h3 q) \<and> mark h3 q < idx3" if "q \<in> nodes h (ereq n)" for q
  proof (cases "0 < mark h q")
    case True
    then show ?thesis using old4 [of q] N that i3 by auto
  next
    case False
    then show ?thesis using e3 [OF that] pk4 [of q] by auto
  qed
  let ?B = "nodes h (sreq n) - marked h3"
  have split: "?N - marked h = insert p (?A \<union> ?B)"
  proof (intro equalityI subsetI)
    fix q assume q: "q \<in> ?N - marked h"
    show "q \<in> insert p (?A \<union> ?B)"
    proof (cases "q = p \<or> q \<in> nodes h (ereq n)")
      case True
      then show ?thesis using q A by auto
    next
      case False
      then have "q \<in> nodes h (sreq n)" "h3 q = h q" using q N out3 by auto
      then show ?thesis using q by (simp add: marked_def mark_def)
    qed
  next
    fix q assume q: "q \<in> insert p (?A \<union> ?B)"
    then consider "q = p" | "q \<in> nodes h (ereq n) - marked h" | "q \<in> nodes h (sreq n)" "q \<notin> marked h3" unfolding A by blast
    then show "q \<in> ?N - marked h"
    proof cases
      case 3
      then have "\<not> 0 < mark h q" using m13 [of q] by (auto simp: marked_def mark_def)
      then show ?thesis using 3(1) N by (simp add: marked_def)
    qed (use pm N in auto)
  qed
  have dis: "p \<notin> ?A \<union> ?B" "?A \<inter> ?B = {}" using acyc e3 packed_mark by (auto simp: marked_def)
  have fAB: "finite ?A" "finite ?B" using fin N by auto
  have card: "card (?N - marked h) = Suc (card ?A + card ?B)"
    unfolding split using dis fAB by (simp add: card_Un_disjoint)
  have s3': "rel_option (shape h3) (sreq n) (sreq (deref r))"
    using ke(2) shape_keeps [OF _ same_shape_keeps [OF s3]] by (auto elim: option.rel_mono_strong)
  have pre3: "commit_pre h3 reg4 idx3 (sreq n)"
    unfolding commit_pre_def n3
  proof (intro conjI ballI)
    show "idx3 + int (card ?B) \<le> int (length reg4)" using pre i3 card len4 by (simp add: commit_pre_def)
    fix q assume q: "q \<in> nodes h (sreq n)"
    then have qN: "q \<in> ?N" "q \<noteq> p" using N acyc by auto
    show "mark h3 q = - 1 \<or> mark h3 q = 0 \<or> packed h3 reg4 q \<and> mark h3 q < idx3"
    proof (cases "q \<in> nodes h (ereq n)")
      case True
      then show ?thesis using e4 by blast
    next
      case False
      then have "mark h3 q = mark h q" using out3 qN(2) by (simp add: mark_def)
      then show ?thesis using old4 [OF qN(1)] low [OF qN(1)] i3 by auto
    qed
  qed
  have i3pos: "0 < idx3" using i3 idx by simp
  obtain h5 reg5 idx5 where c5: "PINT_do_request_commit (h3, reg4, idx3) (sreq n) (dpth + 1) = Some (map_option (mark h5) (sreq n), (h5, reg5, idx5))"
    "commit_post h3 reg4 idx3 (sreq n) h5 reg5 idx5"
    by (rule commit_child [OF s3' oks i3pos _ pre3, of "dpth + 1"]) (use idx in auto)
  note p5 = c5(2) [unfolded commit_post_def n3]
  have h5p: "h5 p = Some ?n" using p5 acyc h3p by simp
  have i5: "idx5 = idx3 + int (card ?B)" using p5 by simp
  have len5: "length reg5 = length reg" using p5 len4 by simp
  have at5: "reg5 ! nat idx = set_ereq (map_option (mark h3) (ereq n)) (map_PINT_Request int n)"
    using p5 idx i3 room len3 by (simp add: reg4_def)
  define m6 where "m6 = set_sreq (map_option (mark h5) (sreq n)) (set_ereq (map_option (mark h3) (ereq n)) (map_PINT_Request int n))"
  define reg6 where "reg6 = reg5[nat idx := m6]"
  have r6: "region_modify reg5 idx (set_sreq (map_option (mark h5) (sreq n))) = Some reg6"
    using room idx len5 at5 by (simp add: region_modify_def array_get_def array_set_def reg6_def m6_def)
  have len6: "length reg6 = length reg" and low6: "\<And>i. 0 \<le> i \<Longrightarrow> i \<noteq> idx \<Longrightarrow> reg6 ! nat i = reg5 ! nat i" and at6: "reg6 ! nat idx = m6"
    using idx len5 room by (auto simp: reg6_def nth_list_update eq_nat_nat_iff)
  have m5: "h5 q = h3 q" if "0 < mark h3 q" for q using marks_after(1) [OF c5(2) that] .
  have pk6: "packed h5 reg6 q" if "packed h5 reg5 q" "mark h5 q \<noteq> idx" for q
    by (rule packed_mono [OF that(1)]) (use that packed_mark [OF that(1)] low6 len6 len5 in auto)
  have desc: "packed h5 reg6 q \<and> (0 < mark h q \<or> idx < mark h5 q) \<and> mark h5 q < idx5" if q: "q \<in> ?N" "q \<noteq> p" for q
  proof (cases "q \<in> nodes h (sreq n)")
    case True
    have a: "packed h5 reg5 q" "0 < mark h3 q \<or> idx3 \<le> mark h5 q" "mark h5 q < idx5" using p5 True by auto
    have b: "(0 < mark h q \<and> mark h5 q < idx) \<or> idx < mark h5 q"
    proof (cases "0 < mark h3 q")
      case m: True
      then have eq: "mark h5 q = mark h3 q" using m5 by (simp add: mark_def)
      show ?thesis
      proof (cases "0 < mark h q")
        case False
        have "q \<in> nodes h (ereq n)"
        proof (rule ccontr)
          assume "q \<notin> nodes h (ereq n)"
          then have "mark h3 q = mark h q" using out3 q(2) by (simp add: mark_def)
          then show False using m False by simp
        qed
        then show ?thesis using e4 False eq by auto
      qed (use old4 [OF q(1)] eq in auto)
    qed (use a i3 idx in auto)
    then show ?thesis using a pk6 [of q] by auto
  next
    case False
    then have qe: "q \<in> nodes h (ereq n)" using q N by auto
    note e = e4 [OF qe]
    have eq: "h5 q = h3 q" "mark h5 q = mark h3 q" using m5 [of q] packed_mark e by (auto simp: mark_def)
    have ne: "mark h3 q \<noteq> idx" using e old4 [OF q(1)] by auto
    have "packed h5 reg6 q"
    proof (rule packed_mono [of h3 reg4 q])
      have "mark h3 q < idx3" "0 \<le> mark h3 q" using e packed_mark [of h3 reg4 q] by auto
      then show "reg6 ! nat (mark h3 q) = reg4 ! nat (mark h3 q)" using p5 low6 ne by auto
    qed (use e m5 len6 len4 in auto)
    then show ?thesis using e eq i5 by auto
  qed
  have out5: "h5 q = h q" if "q \<notin> ?N \<or> 0 < mark h q" for q
  proof (cases "0 < mark h q")
    case True
    then show ?thesis using m13 [OF True] m5 [of q] by (simp add: mark_def)
  next
    case False
    then have "q \<notin> nodes h (sreq n)" "q \<notin> nodes h (ereq n)" "q \<noteq> p" using that N by auto
    then show ?thesis using p5 out3 by auto
  qed
  have s5: "same_shape h h5" using p5 same_shape_trans [OF s3] by blast
  have lowreg: "reg6 ! nat i = reg ! nat i" if i: "0 \<le> i \<and> i < idx \<or> idx5 \<le> i" for i
  proof -
    have ne: "0 \<le> i" "i \<noteq> idx" "i < idx3 \<or> idx5 \<le> i" "i < idx + 1 \<or> idx3 \<le> i" using i i3 i5 idx by auto
    have "reg5 ! nat i = reg4 ! nat i" "reg3 ! nat i = reg1 ! nat i" using p5 p3 ne i by auto
    then show ?thesis using low6 [OF ne(1,2)] low4 [OF ne(1,2)] low1 [OF ne(1,2)] by simp
  qed
  have link: "linked h5 ?n (reg6 ! nat idx)"
  proof -
    have f: "ereq ?n = ereq n" "sreq ?n = sreq n" "bare m6 = bare ?n" "ereq m6 = map_option (mark h3) (ereq n)" "sreq m6 = map_option (mark h5) (sreq n)"
      by (cases n; simp add: m6_def bare_def core_def)+
    have "rel_option (\<lambda>q i. mark h5 q = i \<and> 0 < i) (ereq n) (map_option (mark h3) (ereq n))"
    proof (cases "ereq n")
      case (Some q)
      then have "q \<in> nodes h (ereq n)" by (simp add: nodes_def reach_refl)
      then have "0 < mark h3 q" using e4 packed_mark by blast
      then show ?thesis using Some m5 [of q] by (simp add: mark_def)
    qed simp
    moreover have "rel_option (\<lambda>q i. mark h5 q = i \<and> 0 < i) (sreq n) (map_option (mark h5) (sreq n))"
    proof (cases "sreq n")
      case (Some q)
      then have "q \<in> nodes h (sreq n)" by (simp add: nodes_def reach_refl)
      then have "0 < mark h5 q" using p5 packed_mark by blast
      then show ?thesis using Some by simp
    qed simp
    ultimately show ?thesis unfolding linked_def at6 f by simp
  qed
  have ptr: "pointers_in (reg6 ! nat i) (int (length reg))" if i: "idx \<le> i" "i < idx5" for i
  proof -
    consider "i = idx" | "idx < i" "i < idx3" | "idx3 \<le> i" using i by linarith
    then show ?thesis
    proof cases
      case 1
      have "0 < mark h3 q \<and> mark h3 q < int (length reg)" if "ereq n = Some q" for q
      proof -
        have "packed h3 reg4 q" using e4 [of q] that by (simp add: nodes_def reach_refl)
        then show ?thesis using len4 by (auto simp: packed_def mark_def)
      qed
      moreover have "0 < mark h5 q \<and> mark h5 q < int (length reg)" if "sreq n = Some q" for q
      proof -
        have "packed h5 reg5 q" using p5 that by (simp add: nodes_def reach_refl)
        then show ?thesis using len5 by (auto simp: packed_def mark_def)
      qed
      ultimately show ?thesis unfolding 1 at6 by (cases n) (auto simp: m6_def pointers_in_def)
    next
      case 2
      then have "reg6 ! nat i = reg3 ! nat i" using low6 [of i] low4 [of i] p5 idx by auto
      then show ?thesis using 2 p3 len1 by auto
    next
      case 3
      then have "reg6 ! nat i = reg5 ! nat i" using low6 [of i] idx i3 by auto
      then show ?thesis using 3 p5 i len4 by auto
    qed
  qed
  have sn1: "sreq ?n = sreq n" by (cases n) simp
  have sn2: "core ?n = core n" by simp
  have tot: "idx5 = idx + int (card (?N - marked h))" using i5 i3 card by simp
  have lt: "idx < idx5" using i5 i3 by simp
  show thesis
    by (rule that [of reg1 h3 reg3 idx3 ?n reg4 h5 reg5 idx5 ?n reg6], unfold cn sn1)
      (fact r1 c3(1) h3p r4 r6 h5p s5 len6 lowreg ptr out5 desc tot link lt sn2 c5(1) | rule refl)+
qed

text \<open>A structure below the outermost one is packed, or has been already.\<close>

lemma commit_sub: "commit_ok r"
proof (induction r rule: measure_induct_rule [of size])
  case (less r)
  show ?case
    unfolding commit_ok_def
  proof (intro allI impI)
    fix h p reg idx dpth
    assume sh: "shape h p r" and idx: "0 < idx" and dpth: "0 < (dpth :: int)" and pre: "commit_pre h reg idx (Some p)"
    obtain n0 where hp: "h p = Some n0" using sh by (auto elim: shapeE)
    have pN: "p \<in> nodes h (Some p)" by (simp add: nodes_def reach_refl)
    show "\<exists>h' reg' idx'. PINT_do_request_commit (h, reg, idx) (Some p) dpth = Some (Some (mark h' p), (h', reg', idx')) \<and>
        commit_post h reg idx (Some p) h' reg' idx'"
    proof (cases "0 < mark h p")
      case True
      note all = all_packed [OF pre True]
      have "nodes h (Some p) \<subseteq> marked h" using all packed_mark by (auto simp: marked_def)
      then have "card (nodes h (Some p) - marked h) = 0" by (metis Diff_eq_empty_iff card.empty)
      then have "commit_post h reg idx (Some p) h reg idx"
        using all packed_mark by (auto simp: commit_post_def)
      moreover have "PINT_do_request_commit (h, reg, idx) (Some p) dpth = Some (Some (mark h p), (h, reg, idx))"
        using True hp unfolding PINT_do_request_commit.simps [of _ "Some p"] by (simp add: mark_def Let_def fun_upd_idem)
      ultimately show ?thesis by blast
    next
      case False
      define n where "n = (if committed n0 = - 1 then set_committed 0 n0 else n0)"
      have "mark h p = - 1 \<or> mark h p = 0" using pre pN False packed_mark by (auto simp: commit_pre_def)
      then have n: "set_committed 0 n = set_committed 0 n0" "committed n = 0" "mark h p \<le> 0"
        using hp by (auto simp: n_def mark_def)
      obtain reg1 h3 reg3 idx3 n3 reg4 h5 reg5 idx5 n5 reg6 where b:
        "array_set reg idx (map_PINT_Request int n) = Some reg1"
        "PINT_do_request_commit (h(p \<mapsto> set_committed idx n), reg1, idx + 1) (ereq n) (dpth + 1) = Some (map_option (mark h3) (ereq n), (h3, reg3, idx3))"
        "h3 p = Some n3" "region_modify reg3 (committed n3) (set_ereq (map_option (mark h3) (ereq n))) = Some reg4"
        "PINT_do_request_commit (h3, reg4, idx3) (sreq n3) (dpth + 1) = Some (map_option (mark h5) (sreq n), (h5, reg5, idx5))"
        "h5 p = Some n5" "region_modify reg5 (committed n5) (set_sreq (map_option (mark h5) (sreq n))) = Some reg6"
        and b5: "committed n5 = idx" "same_shape h h5" "length reg6 = length reg"
        and low: "\<And>i. 0 \<le> i \<and> i < idx \<or> idx5 \<le> i \<Longrightarrow> reg6 ! nat i = reg ! nat i"
        and ptr: "\<And>i. idx \<le> i \<Longrightarrow> i < idx5 \<Longrightarrow> pointers_in (reg6 ! nat i) (int (length reg))"
        and out: "\<And>q. q \<notin> nodes h (Some p) \<or> 0 < mark h q \<Longrightarrow> h5 q = h q"
        and desc: "\<And>q. q \<in> nodes h (Some p) \<Longrightarrow> q \<noteq> p \<Longrightarrow> packed h5 reg6 q \<and> (0 < mark h q \<or> idx < mark h5 q) \<and> mark h5 q < idx5"
        and tot: "idx5 = idx + int (card (nodes h (Some p) - marked h))" and link: "linked h5 n5 (reg6 ! nat idx)" and lt: "idx < idx5"
        by (rule commit_body [OF sh less.IH _ _ hp n pre, of dpth]) (use idx dpth in auto)
      have run: "PINT_do_request_commit (h, reg, idx) (Some p) dpth = Some (Some (mark h5 p), (h5, reg6, idx5))"
        using b dpth n(2) unfolding PINT_do_request_commit.simps [of _ "Some p"]
        by (simp add: hp Let_def n_def [symmetric] mark_def)
      have "0 < card (nodes h (Some p) - marked h)" using tot lt by simp
      then have "idx < int (length reg6)" using pre b5(3) tot lt by (simp add: commit_pre_def)
      then have pp: "packed h5 reg6 p" using b(6) b5(1) idx link by (simp add: packed_def)
      have mp: "mark h5 p = idx" using b(6) b5(1) by (simp add: mark_def)
      have "commit_post h reg idx (Some p) h5 reg6 idx5"
        unfolding commit_post_def
      proof (intro conjI allI impI ballI)
        fix q assume q: "q \<in> nodes h (Some p)"
        show "packed h5 reg6 q" using desc [OF q] pp by (cases "q = p") auto
        show "0 < mark h q \<or> idx \<le> mark h5 q" using desc [OF q] mp by (cases "q = p") auto
        show "mark h5 q < idx5" using desc [OF q] mp lt by (cases "q = p") auto
      qed (use b5 low ptr out tot in auto)
      then show ?thesis using run by blast
    qed
  qed
qed

section \<open>Removal of the marks\<close>

definition unmark :: "req_heap \<Rightarrow> nat set \<Rightarrow> req_heap" where
  "unmark h N = (\<lambda>q. if q \<in> N then map_option (set_committed 0) (h q) else h q)"

lemma same_shape_unmark [simp]: "same_shape h (unmark h N)"
  by (simp add: same_shape_def unmark_def option.map_comp comp_def)

lemma mark_unmark [simp]: "mark (unmark h N) q = (if q \<in> N then 0 else mark h q)"
  by (simp add: mark_def unmark_def split: option.split)

lemma unmark_0:
  assumes "\<And>q. q \<in> N \<Longrightarrow> mark h q = 0"
  shows "unmark h N = h"
proof
  fix q
  show "unmark h N q = h q"
  proof (cases "h q")
    case (Some n)
    then show ?thesis using assms [of q] by (cases n) (auto simp: unmark_def mark_def)
  qed (simp add: unmark_def)
qed

lemma unmark_unmark: "unmark (unmark h N) M = unmark h (N \<union> M)"
  by (rule ext) (simp add: unmark_def option.map_comp comp_def)

text \<open>Where a structure that is not marked is found, nothing below it is marked.\<close>

definition clearing :: "req_heap \<Rightarrow> PVFS_Request \<Rightarrow> bool" where
  "clearing h node \<longleftrightarrow> (\<forall>q \<in> nodes h node. mark h q = 0 \<longrightarrow> (\<forall>q' \<in> nodes h (Some q). mark h q' = 0))"

lemma clear_commit:
  assumes "shape h p r" "h p = Some n" "0 \<le> dpth" "dpth = 0 \<or> clearing h (Some p)" "clearing h (ereq n)" "clearing h (sreq n)"
  shows "PINT_do_clear_commit h (Some p) dpth = Some (unmark h (nodes h (Some p)))"
  using assms
proof (induction r arbitrary: h p n dpth rule: measure_induct_rule [of size])
  case (less r)
  note hp = less.prems(2)
  have pN: "p \<in> nodes h (Some p)" by (simp add: nodes_def reach_refl)
  show ?case
  proof (cases "committed n = 0 \<and> 0 < dpth")
    case True
    then have "mark h q = 0" if "q \<in> nodes h (Some p)" for q
      using less.prems(4) that pN hp by (auto simp: clearing_def mark_def)
    then show ?thesis using True hp unmark_0 [of "nodes h (Some p)" h] by (simp add: PINT_do_clear_commit.simps [of _ "Some p"])
  next
    case False
    have child: "PINT_do_clear_commit g c (dpth + 1) = Some (unmark g (nodes g c))"
      if g: "rel_option (shape g) c x" "\<And>y. x = Some y \<Longrightarrow> size y < size r" "clearing g c" for g c x
    proof (cases c)
      case (Some q)
      then obtain y where y: "x = Some y" "shape g q y" using g(1) by (cases x) auto
      obtain m where m: "g q = Some m" using y(2) by (auto elim: shapeE)
      have "clearing g (ereq m)" "clearing g (sreq m)" using g(3) nodes_Some [of g q m] m Some by (auto simp: clearing_def)
      then show ?thesis using less.IH [OF g(2) [OF y(1)] y(2) m, of "dpth + 1"] g(3) less.prems(3) Some by simp
    qed (simp add: PINT_do_clear_commit.simps unmark_def)
    obtain n' where d: "h p = Some n'" "rel_option (shape h) (ereq n') (ereq (deref r))" "rel_option (shape h) (sreq n') (sreq (deref r))"
      by (rule shape_deref [OF less.prems(1)])
    then have d: "rel_option (shape h) (ereq n) (ereq (deref r))" "rel_option (shape h) (sreq n) (sreq (deref r))" using hp by simp_all
    note acyc = shape_children [OF less.prems(1) hp]
    define h1 where "h1 = unmark h {p}"
    define h2 where "h2 = unmark h1 (nodes h (ereq n))"
    have h1: "h1 = h(p \<mapsto> set_committed 0 n)" using hp by (auto simp: h1_def unmark_def)
    have s: "same_shape h h1" "same_shape h h2" by (simp_all add: h1_def h2_def unmark_unmark)
    note N = nodes_same [OF s(1)] nodes_same [OF s(2)]
    have c1: "clearing h1 (ereq n)" unfolding clearing_def N using less.prems(5) acyc(1) by (auto simp: clearing_def h1_def split: if_splits)
    have c2: "clearing h2 (sreq n)"
      unfolding clearing_def N
    proof (intro ballI impI)
      fix q q' assume q: "q \<in> nodes h (sreq n)" "mark h2 q = 0" "q' \<in> nodes h (Some q)"
      have "q \<noteq> p" using q(1) acyc by auto
      then consider "q \<in> nodes h (ereq n)" | "mark h q = 0" using q(2) by (auto simp: h2_def h1_def split: if_splits)
      then show "mark h2 q' = 0"
      proof cases
        case 1
        have "q' \<in> nodes h (ereq n)" using 1 q(3) nodes_trans by blast
        then show ?thesis by (simp add: h2_def)
      next
        case 2
        then have "mark h q' = 0" using less.prems(6) q by (auto simp: clearing_def)
        then show ?thesis by (simp add: h2_def h1_def)
      qed
    qed
    have sh: "rel_option (shape h1) (ereq n) (ereq (deref r))" "rel_option (shape h2) (sreq n) (sreq (deref r))"
      using d shape_keeps [OF _ same_shape_keeps [OF s(1)]] shape_keeps [OF _ same_shape_keeps [OF s(2)]] by (auto elim: option.rel_mono_strong)
    have r1: "PINT_do_clear_commit h1 (ereq n) (dpth + 1) = Some h2"
      using child [OF sh(1) _ c1] ereq_size unfolding N h2_def by blast
    have r2: "PINT_do_clear_commit h2 (sreq n) (dpth + 1) = Some (unmark h2 (nodes h (sreq n)))"
      using child [OF sh(2) _ c2] sreq_size unfolding N by blast
    have "unmark h2 (nodes h (sreq n)) = unmark h (nodes h (Some p))"
      unfolding h2_def h1_def unmark_unmark nodes_Some [of h p n, OF hp] by simp
    then show ?thesis
      using r1 r2 False hp h1 by (auto simp: PINT_do_clear_commit.simps [of _ "Some p"])
  qed
qed

section \<open>The packed request\<close>

text \<open>The array as a heap, in which the address of a structure is its index.\<close>

definition region_heap :: "packed_region \<Rightarrow> req_heap" where
  "region_heap reg = (\<lambda>i. if i < length reg then Some (map_PINT_Request nat (reg ! i)) else None)"

lemma tree_node_bare: "bare m = bare n \<Longrightarrow> tree_node (map_PINT_Request nat m) e s = tree_node n e s"
  by (cases m; cases n) (simp add: bare_def core_def tree_node_def)

lemma packed_shape:
  assumes "shape h q r" "\<And>x. reach h p x \<Longrightarrow> \<exists>n. h x = Some n \<and> 0 \<le> mark g x \<and> mark g x < int (length reg) \<and> linked g n (reg ! nat (mark g x))"
    "reach h p q"
  shows "shape (region_heap reg) (nat (mark g q)) r"
  using assms(1,3)
proof (induction rule: shape.induct)
  case (shape_node q n e s)
  let ?i = "nat (mark g q)"
  let ?m = "reg ! ?i"
  have m: "0 \<le> mark g q" "mark g q < int (length reg)" "linked g n ?m"
    using assms(2) [OF shape_node.prems] shape_node.hyps(1) by auto
  have i: "region_heap reg ?i = Some (map_PINT_Request nat ?m)" using m(1,2) by (simp add: region_heap_def)
  have "rel_option (shape (region_heap reg)) (ereq (map_PINT_Request nat ?m)) e"
    using m(3) shape_node.IH(1) reach.reach_ereq [OF shape_node.prems shape_node.hyps(1)]
    by (cases "ereq n"; cases "ereq ?m"; cases e) (auto simp: linked_def PINT_Request.map_sel)
  moreover have "rel_option (shape (region_heap reg)) (sreq (map_PINT_Request nat ?m)) s"
    using m(3) shape_node.IH(2) reach.reach_sreq [OF shape_node.prems shape_node.hyps(1)]
    by (cases "sreq n"; cases "sreq ?m"; cases s) (auto simp: linked_def PINT_Request.map_sel)
  ultimately have "shape (region_heap reg) ?i (tree_node (map_PINT_Request nat ?m) e s)" using i shape.shape_node [of "region_heap reg" ?i] by blast
  then show ?case using tree_node_bare [of ?m n e s] m(3) by (simp add: linked_def)
qed

text \<open>No structure of a request is being packed.\<close>

definition unpacked :: "req_heap \<Rightarrow> nat \<Rightarrow> bool" where
  "unpacked h p \<longleftrightarrow> (\<forall>q \<in> nodes h (Some p). mark h q = 0 \<or> mark h q = - 1)"

lemma request_commit:
  assumes sh: "shape h p r" and un: "unpacked h p" and sz: "card (nodes h (Some p)) \<le> sz"
  shows "\<exists>reg. PINT_request_commit h sz p = Some (0, unmark h (nodes h (Some p) - {p}), reg) \<and>
    length reg = sz \<and> shape (region_heap reg) 0 r \<and> PINT_REQUEST_IS_PACKED (reg ! 0) \<and> (\<forall>m \<in> set reg. pointers_in m (int sz))"
proof -
  let ?N = "nodes h (Some p)" and ?reg = "replicate sz (map_PINT_Request int (blank None))"
  obtain n0 where hp: "h p = Some n0" using sh by (auto elim: shapeE)
  have pN: "p \<in> ?N" by (simp add: nodes_def reach_refl)
  have c0: "committed n0 = 0 \<or> committed n0 = - 1" using un pN hp by (auto simp: unpacked_def mark_def)
  have nm: "?N - marked h = ?N" using un by (auto simp: unpacked_def marked_def)
  have pre: "commit_pre h ?reg 0 (Some p)" unfolding commit_pre_def nm using un sz by (auto simp: unpacked_def)
  define n where "n = (if committed n0 = - 1 then set_committed 0 n0 else n0)"
  have n: "set_committed 0 n = set_committed 0 n0" "committed n = 0" "mark h p \<le> 0"
    using hp c0 by (auto simp: n_def mark_def)
  obtain reg1 h3 reg3 idx3 n3 reg4 h5 reg5 idx5 n5 reg6 where b:
    "array_set ?reg 0 (map_PINT_Request int n) = Some reg1"
    "PINT_do_request_commit (h(p \<mapsto> set_committed 0 n), reg1, 0 + 1) (ereq n) (0 + 1) = Some (map_option (mark h3) (ereq n), (h3, reg3, idx3))"
    "h3 p = Some n3" "region_modify reg3 (committed n3) (set_ereq (map_option (mark h3) (ereq n))) = Some reg4"
    "PINT_do_request_commit (h3, reg4, idx3) (sreq n3) (0 + 1) = Some (map_option (mark h5) (sreq n), (h5, reg5, idx5))"
    "h5 p = Some n5" "region_modify reg5 (committed n5) (set_sreq (map_option (mark h5) (sreq n))) = Some reg6"
    and b5: "committed n5 = 0" "same_shape h h5" "length reg6 = length ?reg"
    and low: "\<And>i. 0 \<le> i \<and> i < 0 \<or> idx5 \<le> i \<Longrightarrow> reg6 ! nat i = ?reg ! nat i"
    and ptr: "\<And>i. 0 \<le> i \<Longrightarrow> i < idx5 \<Longrightarrow> pointers_in (reg6 ! nat i) (int (length ?reg))"
    and out: "\<And>q. q \<notin> ?N \<or> 0 < mark h q \<Longrightarrow> h5 q = h q"
    and desc: "\<And>q. q \<in> ?N \<Longrightarrow> q \<noteq> p \<Longrightarrow> packed h5 reg6 q \<and> (0 < mark h q \<or> 0 < mark h5 q) \<and> mark h5 q < idx5"
    and link: "linked h5 n5 (reg6 ! nat 0)"
    by (rule commit_body [OF sh commit_sub _ _ hp n pre, of 0]) auto
  note acyc = shape_children [OF shape_keeps [OF sh same_shape_keeps [OF b5(2)]] b(6)]
  have N5: "nodes h5 q = nodes h q" for q by (rule nodes_same [OF b5(2)])
  have kids: "nodes h (ereq n5) \<subseteq> ?N - {p}" "nodes h (sreq n5) \<subseteq> ?N - {p}"
    using nodes_Some [of h5 p n5] b(6) acyc unfolding N5 by auto
  have "clearing h5 (ereq n5)" "clearing h5 (sreq n5)"
    unfolding clearing_def N5 using kids desc packed_mark by (metis (no_types, lifting) DiffD1 DiffD2 less_irrefl singletonI subsetD)+
  then have clear: "PINT_do_clear_commit h5 (Some p) 0 = Some (unmark h5 ?N)"
    using clear_commit [OF shape_keeps [OF sh same_shape_keeps [OF b5(2)]] b(6), of 0] by (simp add: N5)
  have un5: "unmark h5 ?N = unmark h ?N"
  proof
    fix q
    show "unmark h5 ?N q = unmark h ?N q"
      using b5(2) out [of q] by (simp add: unmark_def same_shape_def)
  qed
  have sz0: "0 < sz" using sz pN finite_nodes [OF sh] card_gt_0_iff [of ?N] by auto
  define reg7 where "reg7 = reg6[0 := set_committed (- 1) (reg6 ! 0)]"
  have r7: "region_modify reg6 0 (set_committed (- 1)) = Some reg7"
    using sz0 b5(3) by (simp add: region_modify_def array_get_def array_set_def reg7_def)
  define h7 where "h7 = unmark h (?N - {p})"
  have fin: "commit_finish (committed n0 = - 1) p (h5, reg6, idx5) = Some (h7, reg7, idx5)"
  proof -
    have up: "unmark h ?N p = Some (set_committed 0 n0)" using hp pN by (simp add: unmark_def)
    show ?thesis
    proof (cases "committed n0 = - 1")
      case True
      have "(unmark h ?N)(p \<mapsto> set_committed (- 1) n0) = h7"
        using True hp pN set_committed_same [of n0] unfolding h7_def by (intro ext) (simp add: unmark_def)
      then show ?thesis using True clear r7 un5 up by (simp add: commit_finish_def modify_def)
    next
      case False
      then have "unmark h ?N = h7" using c0 hp pN set_committed_same [of n0] unfolding h7_def by (intro ext) (simp add: unmark_def)
      then show ?thesis using False clear r7 un5 by (simp add: commit_finish_def)
    qed
  qed
  have h7p: "h7 p = Some n0" using hp by (simp add: h7_def unmark_def)
  have "PINT_do_request_commit (h, ?reg, 0) (Some p) 0 = Some (Some (committed n0), (h7, reg7, idx5))"
    using b n(2) fin h7p unfolding PINT_do_request_commit.simps [of _ "Some p"]
    by (simp add: hp Let_def n_def [symmetric])
  then have run: "PINT_request_commit h sz p = Some (0, h7, reg7)" by (simp add: PINT_request_commit_def)
  have "shape (region_heap reg7) (nat (mark h5 p)) r"
  proof (rule packed_shape [OF sh, of p])
    fix q assume q: "reach h p q"
    then have qN: "q \<in> ?N" by (simp add: nodes_def)
    have len7: "length reg7 = length reg6" by (simp add: reg7_def)
    obtain m where m: "h q = Some m" using q reach_shape [OF q sh] by (auto elim: shapeE)
    obtain m5 where m5: "h5 q = Some m5" "core m5 = core m" by (rule same_shape_node [OF b5(2) m])
    have lk: "linked h5 m k = linked h5 m5 k" for k using core_eqD [OF m5(2)] by (cases m; cases m5) (simp add: linked_def bare_def core_def)
    show "\<exists>n. h q = Some n \<and> 0 \<le> mark h5 q \<and> mark h5 q < int (length reg7) \<and> linked h5 n (reg7 ! nat (mark h5 q))"
    proof (cases "q = p")
      case True
      have "bare (set_committed (- 1) (reg6 ! 0)) = bare (reg6 ! 0)" "ereq (set_committed (- 1) (reg6 ! 0)) = ereq (reg6 ! 0)"
        "sreq (set_committed (- 1) (reg6 ! 0)) = sreq (reg6 ! 0)" by (cases "reg6 ! 0"; simp add: bare_def core_def)+
      then have "linked h5 m5 (reg7 ! 0)" using link True m5(1) b(6) sz0 b5(3) by (simp add: reg7_def linked_def)
      then show ?thesis using m lk True m5(1) b(6) b5(1,3) sz0 len7 by (simp add: mark_def)
    next
      case False
      then obtain "packed h5 reg6 q" using desc [OF qN] by blast
      then show ?thesis using m lk m5(1) len7 by (auto simp: packed_def mark_def reg7_def nth_list_update)
    qed
  qed (simp add: reach_refl)
  then have "shape (region_heap reg7) 0 r" using b(6) b5(1) by (simp add: mark_def)
  moreover have "PINT_REQUEST_IS_PACKED (reg7 ! 0)" using sz0 b5(3) by (simp add: reg7_def PINT_REQUEST_IS_PACKED_def)
  moreover have "length reg7 = sz" using b5(3) by (simp add: reg7_def)
  moreover have "\<forall>m \<in> set reg7. pointers_in m (int sz)"
  proof
    fix m assume "m \<in> set reg7"
    then obtain i where i: "i < sz" "m = reg7 ! i" using b5(3) by (auto simp: in_set_conv_nth reg7_def)
    have "pointers_in (reg6 ! i) (int sz)"
      using ptr [of "int i"] low [of "int i"] i(1) by (cases "int i < idx5") (auto simp: pointers_in_def blank_def)
    then show "pointers_in m (int sz)" using i b5(3) by (cases "reg6 ! 0") (auto simp: reg7_def nth_list_update pointers_in_def)
  qed
  ultimately show ?thesis using run unfolding h7_def by blast
qed

section \<open>Requests that can be packed\<close>

text \<open>\<open>num_nested_req\<close> counts all structures of the request but the first, so that the array is large enough.\<close>

definition packable :: "req_heap \<Rightarrow> nat \<Rightarrow> bool" where
  "packable h p \<longleftrightarrow> unpacked h p \<and> (\<exists>n. h p = Some n \<and> int (card (nodes h (Some p))) \<le> num_nested_req n + 1)"

lemma nodes_keeps:
  assumes "shape h p r" "keeps h h'"
  shows "nodes h' (Some p) = nodes h (Some p)"
  using assms(1)
proof (induction rule: shape.induct)
  case (shape_node p n e s)
  obtain n' where n': "h' p = Some n'" "core n' = core n" using assms(2) shape_node.hyps(1) by (auto simp: keeps_def)
  have "nodes h' (ereq n) = nodes h (ereq n)" using shape_node.IH(1) by (cases "ereq n"; cases e) auto
  moreover have "nodes h' (sreq n) = nodes h (sreq n)" using shape_node.IH(2) by (cases "sreq n"; cases s) auto
  ultimately show ?case using nodes_Some [of h p n] nodes_Some [of h' p n'] n'(1) shape_node.hyps(1) core_eqD(11,12) [OF n'(2)] by simp
qed

lemma chain_nodes: "chain_at h o1 p used \<Longrightarrow> nodes h p \<subseteq> set used \<union> nodes h (Some o1)"
proof (induction used arbitrary: p)
  case (Cons a used)
  then obtain n where n: "p = Some a" "h a = Some n" "ereq n = Some o1" "chain_at h o1 (sreq n) used" by auto
  then show ?case using Cons.IH [OF n(4)] nodes_Some [of h a n] by auto
qed simp

lemma chain_marks: "chain_at h o1 p used \<Longrightarrow> q \<in> set used \<Longrightarrow> mark h q = 0"
  by (induction used arbitrary: p) (auto simp: mark_def)

lemma seq_of_nested: "seq_of r bs = Some q \<Longrightarrow> num_nested_req (deref q) = num_nested_req (deref r) + int (length bs)"
proof (induction bs arbitrary: q)
  case (Cons b bs)
  obtain d l where b: "b = (d, l)" by (cases b)
  show ?case
  proof (cases "seq_of r bs")
    case None
    then have "bs = []" by (cases bs) auto
    then show ?thesis using Cons.prems b by (auto simp: seq_node_def Let_def)
  next
    case (Some q')
    then show ?thesis using Cons.IH [OF Some] Cons.prems b by (auto simp: seq_node_def Let_def)
  qed
qed simp

lemma referred_mark: "mark (referred h o1 k) q = mark h q"
  by (auto simp: mark_def referred_def split: option.split)

lemma built_packable:
  assumes b: "built h o1 r bs used h' (Some p)" and o1: "shape h o1 r" "packable h o1" and ne: "bs \<noteq> []"
  shows "packable (h'(p \<mapsto> set_refcount 1 (the (h' p)))) p"
proof -
  let ?h = "h'(p \<mapsto> set_refcount 1 (the (h' p)))"
  note b' = b [unfolded built_def]
  obtain m where m: "h' p = Some m" by (rule built_head [OF b])
  have k: "keeps h' ?h" using m by (auto simp: keeps_def)
  obtain q where q: "seq_of r bs = Some q" "shape h' p q" using b' ne by (cases bs) auto
  have N: "nodes ?h (Some p) \<subseteq> set used \<union> nodes h (Some o1)"
    using chain_nodes [of h' o1 "Some p" used] b' nodes_keeps [OF q(2) k] nodes_keeps [OF o1(1) built_keeps [OF b]] by auto
  have marks: "mark ?h x = mark h' x" for x using m by (simp add: mark_def set_refcount_same)
  have "unpacked ?h p"
    unfolding unpacked_def
  proof
    fix x assume "x \<in> nodes ?h (Some p)"
    then consider "x \<in> set used" | "x \<notin> set used" "x \<in> nodes h (Some o1)" using N by auto
    then show "mark ?h x = 0 \<or> mark ?h x = - 1"
    proof cases
      case 1
      then show ?thesis using chain_marks [of h' o1 "Some p" used x] b' marks by auto
    next
      case 2
      then have "mark h' x = mark h x" using b' referred_mark [of h o1 "length bs" x] by (auto simp: mark_def)
      then show ?thesis using 2 o1(2) marks by (auto simp: packable_def unpacked_def)
    qed
  qed
  moreover have "int (card (nodes ?h (Some p))) \<le> num_nested_req m + 1"
  proof -
    obtain n where n: "h o1 = Some n" "int (card (nodes h (Some o1))) \<le> num_nested_req n + 1" using o1(2) by (auto simp: packable_def)
    have "card (nodes ?h (Some p)) \<le> card (set used \<union> nodes h (Some o1))"
      using N finite_nodes [OF o1(1)] by (intro card_mono) auto
    also have "\<dots> \<le> length used + card (nodes h (Some o1))" by (rule order_trans [OF card_Un_le]) (simp add: card_length)
    finally have "int (card (nodes ?h (Some p))) \<le> int (length bs) + num_nested_req n + 1" using n(2) b' by simp
    moreover have "num_nested_req m = num_nested_req n + int (length bs)"
      using seq_of_nested [OF q(1)] shape_deref [OF q(2)] shape_deref [OF o1(1)] m n(1) by (metis option.inject)
    ultimately show ?thesis by simp
  qed
  ultimately show ?thesis using m by (cases m) (simp add: packable_def)
qed

section \<open>Transport\<close>

lemma pointer_roundtrip: "\<forall>i. q = Some i \<longrightarrow> 0 < i \<and> i < 2 ^ 32 - 1 \<Longrightarrow> decode_pointer (encode_pointer q) = q"
  by (cases q) (auto simp: encode_pointer_def decode_pointer_def)

lemma encode_decode:
  assumes "reg \<noteq> []" "PINT_REQUEST_IS_PACKED (reg ! 0)" "length reg = nat (num_nested_req (reg ! 0) + 1)"
    "\<forall>m \<in> set reg. pointers_in m (int (length reg))" "length reg < 2 ^ 32"
  shows "\<exists>enc. PINT_request_encode reg = Some (0, enc) \<and> PINT_request_decode enc = Some (0, reg)"
proof -
  let ?enc = "map (on_pointers encode_pointer) reg"
  have keep: "PINT_REQUEST_IS_PACKED (on_pointers f m) = PINT_REQUEST_IS_PACKED m" "num_nested_req (on_pointers f m) = num_nested_req m"
    for f :: "int option \<Rightarrow> int option" and m by (cases m; simp add: PINT_REQUEST_IS_PACKED_def)+
  have "on_pointers decode_pointer (on_pointers encode_pointer m) = m" if "m \<in> set reg" for m
  proof -
    have "decode_pointer (encode_pointer (ereq m)) = ereq m" "decode_pointer (encode_pointer (sreq m)) = sreq m"
      by (rule pointer_roundtrip; use assms(4,5) that in \<open>force simp: pointers_in_def\<close>)+
    then show ?thesis by (cases m) simp
  qed
  then have restored: "map (on_pointers decode_pointer) ?enc = reg" by (simp add: map_idI)
  have nn: "0 \<le> num_nested_req (reg ! 0)" using assms(1,3) by (cases "0 \<le> num_nested_req (reg ! 0)") auto
  have enc: "PINT_request_encode reg = Some (0, ?enc)"
    using assms(1-3) nn by (simp add: PINT_request_encode_def convert_def array_get_def Let_def)
  have "?enc \<noteq> []" "?enc ! 0 = on_pointers encode_pointer (reg ! 0)" using assms(1) by (simp_all add: nth_map)
  then have dec: "PINT_request_decode ?enc = Some (0, reg)"
    using assms(2,3) keep restored nn by (simp add: PINT_request_decode_def convert_def array_get_def Let_def)
  show ?thesis using enc dec by blast
qed

text \<open>A request that can be packed is packed and gets over the network.\<close>

lemma request_packs:
  assumes "shape h p r" "packable h p" "h p = Some n" "\<not> PINT_REQUEST_IS_PACKED n" "0 < num_nested_req n" "num_nested_req n < 2 ^ 31"
  shows "\<exists>reg enc. PVFS_Request_commit h (Some (Some p)) = Some (PVFS_SUCCESS, unmark h (nodes h (Some p) - {p}), Inr (Some reg)) \<and>
    shape (region_heap reg) 0 r \<and> PINT_request_encode reg = Some (0, enc) \<and> PINT_request_decode enc = Some (0, reg)"
proof -
  let ?sz = "nat (num_nested_req n + 1)"
  have "unpacked h p" "card (nodes h (Some p)) \<le> ?sz" using assms(2,3) by (auto simp: packable_def)
  then obtain reg where reg: "PINT_request_commit h ?sz p = Some (0, unmark h (nodes h (Some p) - {p}), reg)" "length reg = ?sz"
    "shape (region_heap reg) 0 r" "PINT_REQUEST_IS_PACKED (reg ! 0)" "\<forall>m \<in> set reg. pointers_in m (int ?sz)"
    using request_commit [OF assms(1)] by blast
  obtain m where m: "region_heap reg 0 = Some m" "num_nested_req (deref r) = num_nested_req m" by (rule shape_deref [OF reg(3)])
  obtain n' where n': "h p = Some n'" "num_nested_req (deref r) = num_nested_req n'" by (rule shape_deref [OF assms(1)])
  have ne: "reg \<noteq> []" using reg(2) assms(5) by auto
  then have "num_nested_req (reg ! 0) = num_nested_req n"
    using m n' assms(3) by (cases "reg ! 0") (auto simp: region_heap_def)
  moreover have "length reg < 2 ^ 32" using reg(2) assms(6) by (simp add: nat_less_iff)
  ultimately obtain enc where "PINT_request_encode reg = Some (0, enc)" "PINT_request_decode enc = Some (0, reg)"
    using encode_decode [OF ne reg(4)] reg(2,5) by auto
  then show ?thesis using reg(1,3) assms(3-5) by (auto simp: PVFS_Request_commit_def)
qed

lemma vector_packable:
  assumes "shape h o1 r" "packable h o1" "h a = None" "ereq n = Some o1" "sreq n = None" "committed n = 0"
    "num_nested_req n = num_nested_req (deref r) + 1"
  shows "packable ((referred h o1 1)(a \<mapsto> n)) a"
proof -
  let ?h = "(referred h o1 1)(a \<mapsto> n)"
  have k: "keeps h ?h" by (rule keeps_fresh) (rule assms(3), rule referred_keeps)
  have N: "nodes ?h (Some a) = insert a (nodes h (Some o1))"
    using nodes_Some [of ?h a n] nodes_keeps [OF assms(1) k] assms(4,5) by simp
  have "mark ?h q = mark h q" if "q \<noteq> a" for q using referred_mark [of h o1 1 q] that by (simp add: mark_def)
  then have "unpacked ?h a" unfolding unpacked_def N using assms(2,6) by (auto simp: packable_def unpacked_def)
  moreover obtain old where old: "h o1 = Some old" "int (card (nodes h (Some o1))) \<le> num_nested_req old + 1"
    using assms(2) by (auto simp: packable_def)
  have "num_nested_req (deref r) = num_nested_req old" using shape_deref [OF assms(1)] old(1) by (metis option.inject)
  then have "int (card (nodes ?h (Some a))) \<le> num_nested_req n + 1"
    unfolding N using old(2) assms(7) card_insert_le_m1 finite_nodes [OF assms(1)] by (simp add: card_insert_if)
  ultimately show ?thesis by (simp add: packable_def)
qed

text \<open>
  Indexed requests: \<open>PVFS_Request_hindexed\<close> over a valid element type with ascending blocks succeeds, and
  the new request describes the bytes of the blocks in their order. It can be packed, sent and unpacked as
  a strided request can.
\<close>

lemma hindexed_ships:
  assumes "shape h o1 r" "proper r" "packable h o1" "length displacements = length blocklengths" "blocklengths \<noteq> []"
    "ascending (extent r) (zip displacements blocklengths)" "length blocklengths \<le> length as" "distinct as" "\<forall>a \<in> set as. h a = None"
    "0 \<le> num_nested_req (deref r)" "num_nested_req (deref r) + int (length blocklengths) < 2 ^ 31"
  shows "\<exists>h' p h'' reg enc q. PVFS_Request_hindexed h (int (length blocklengths)) blocklengths displacements (Some o1) as = Some (PVFS_SUCCESS, h', Some p) \<and>
    PVFS_Request_commit h' (Some (Some p)) = Some (PVFS_SUCCESS, h'', Inr (Some reg)) \<and> p \<in> set as \<and> keeps h h'' \<and>
    PINT_request_encode reg = Some (0, enc) \<and> PINT_request_decode enc = Some (0, reg) \<and>
    shape h'' p q \<and> shape (region_heap reg) 0 q \<and> proper q \<and>
    (\<forall>b. layout q b = concat (map (\<lambda>(d, l). concat (map (\<lambda>j. layout r (b + d + j * extent r)) [0..l - 1])) (zip displacements blocklengths)))"
proof -
  let ?bs = "zip displacements blocklengths"
  obtain h' used p where run: "PVFS_Request_hindexed h (int (length blocklengths)) blocklengths displacements (Some o1) as =
      Some (PVFS_SUCCESS, h'(p \<mapsto> set_refcount 1 (the (h' p))), Some p)"
    and b: "built h o1 r ?bs used h' (Some p)" "set used \<subseteq> set as"
    by (rule hindexed_run [OF assms(1,4,5,7-9)])
  let ?h = "h'(p \<mapsto> set_refcount 1 (the (h' p)))"
  have ne: "?bs \<noteq> []" using assms(4,5) by (auto simp: zip_eq_Nil_iff)
  obtain m us where m: "h' p = Some m" "committed m = 0" "used = p # us" by (rule built_head [OF b(1)])
  obtain q where q: "seq_of r ?bs = Some q" "shape h' p q" using b(1) ne by (cases ?bs) (auto simp: built_def)
  have k: "keeps h' ?h" using m(1) by (auto simp: keeps_def)
  note sq = shape_keeps [OF q(2) k]
  have "num_nested_req m = num_nested_req (deref q)" using shape_deref [OF q(2)] m(1) by (metis option.inject)
  then have nn: "num_nested_req m = num_nested_req (deref r) + int (length blocklengths)" using seq_of_nested [OF q(1)] assms(4) by simp
  have pos: "0 < num_nested_req (deref r) + int (length blocklengths)" using assms(5,10) by (cases blocklengths) auto
  obtain reg enc where reg: "PVFS_Request_commit ?h (Some (Some p)) = Some (PVFS_SUCCESS, unmark ?h (nodes ?h (Some p) - {p}), Inr (Some reg))"
    "shape (region_heap reg) 0 q" "PINT_request_encode reg = Some (0, enc)" "PINT_request_decode enc = Some (0, reg)"
    using request_packs [OF sq built_packable [OF b(1) assms(1,3) ne], of "set_refcount 1 m"] m nn pos assms(11)
    by (auto simp: PINT_REQUEST_IS_PACKED_def)
  have k'': "keeps ?h (unmark ?h (nodes ?h (Some p) - {p}))" by (rule same_shape_keeps) simp
  have k': "keeps h (unmark ?h (nodes ?h (Some p) - {p}))" by (rule keeps_trans [OF keeps_trans [OF built_keeps [OF b(1)] k] k''])
  obtain d l bs where "?bs = (d, l) # bs" using ne by (cases ?bs) auto
  then have "proper q" using seq_of_proper [OF assms(2), of d l bs q] assms(6) q(1) by simp
  then show ?thesis
    using run reg k' shape_keeps [OF sq k''] seq_of_layout [OF q(1)] b(2) m(3) by auto
qed

text \<open>An elementary request.\<close>

lemma packable_INT: "packable [0 \<mapsto> PINT_INT] 0"
proof -
  have "nodes [0 \<mapsto> PINT_INT] (Some 0) = {0}" using nodes_Some [of "[0 \<mapsto> PINT_INT]" 0 PINT_INT] by (simp add: PINT_INT_def)
  then show ?thesis by (simp add: packable_def unpacked_def mark_def PINT_INT_def)
qed

lemma proper_INT: "proper (tree_node PINT_INT None None)"
  by (simp add: proper_def PINT_INT_def tree_node_def) code_simp

lemma facts_INT:
  "extent (tree_node PINT_INT None None) = 4" "num_nested_req (deref (tree_node PINT_INT None None)) = 0"
  "layout (tree_node PINT_INT None None) b = [b..b + 3]"
  by (simp_all add: PINT_INT_def tree_node_def extent_def layout.simps add.commute)

section \<open>Properties\<close>

text \<open>
  C10. Strided requests: \<open>PVFS_Request_hvector\<close> over a valid element type, with a stride not below the size of a block or with one
  block, succeeds, and the new request describes
  the bytes of \<open>count\<close> blocks of \<open>bsize\<close> elements, \<open>stride\<close> bytes apart, in the order of the blocks. Packing it
  for the network with \<open>PVFS_Request_commit\<close> succeeds: the array is large enough, and the packed
  request describes the same bytes. Turning its pointers to indexes and, on the other side, the
  indexes to pointers gives the packed request again.
\<close>

theorem hvector_ships:
  assumes "shape h o1 r" "proper r" "packable h o1" "h a = None" "1 \<le> count" "1 \<le> bsize" "0 \<le> strd" "count = 1 \<or> bsize * extent r \<le> strd"
    "0 \<le> num_nested_req (deref r)" "num_nested_req (deref r) < 2 ^ 31 - 1"
  shows "\<exists>h' h'' reg enc q. PVFS_Request_hvector h count bsize strd (Some o1) a newreq = Some (PVFS_SUCCESS, h', Some a) \<and>
    PVFS_Request_commit h' (Some (Some a)) = Some (PVFS_SUCCESS, h'', Inr (Some reg)) \<and> keeps h h'' \<and>
    PINT_request_encode reg = Some (0, enc) \<and> PINT_request_decode enc = Some (0, reg) \<and>
    shape h'' a q \<and> shape (region_heap reg) 0 q \<and> proper q \<and>
    (\<forall>b. layout q b = concat (map (\<lambda>k. concat (map (\<lambda>j. layout r (b + strd * k + j * extent r)) [0..bsize - 1])) [0..count - 1]))"
proof -
  obtain n where n: "PVFS_Request_hvector h count bsize strd (Some o1) a newreq = Some (PVFS_SUCCESS, (referred h o1 1)(a \<mapsto> n), Some a)"
    "shape ((referred h o1 1)(a \<mapsto> n)) a (vector_of count bsize strd r)" "ereq n = Some o1" "sreq n = None" "committed n = 0"
    by (rule hvector_run [OF assms(1,4,7)])
  let ?h = "(referred h o1 1)(a \<mapsto> n)" and ?q = "vector_of count bsize strd r"
  have nn: "num_nested_req n = num_nested_req (deref r) + 1" using shape_deref [OF n(2)] by (simp add: vector_of_def) metis
  obtain reg enc where reg: "PVFS_Request_commit ?h (Some (Some a)) = Some (PVFS_SUCCESS, unmark ?h (nodes ?h (Some a) - {a}), Inr (Some reg))"
    "shape (region_heap reg) 0 ?q" "PINT_request_encode reg = Some (0, enc)" "PINT_request_decode enc = Some (0, reg)"
    using request_packs [OF n(2) vector_packable [OF assms(1,3,4) n(3-5) nn], of n] n(5) nn assms(9,10)
    by (auto simp: PINT_REQUEST_IS_PACKED_def)
  have k: "keeps ?h (unmark ?h (nodes ?h (Some a) - {a}))" by (rule same_shape_keeps) simp
  have "keeps h ?h" by (rule keeps_fresh) (rule assms(4), rule referred_keeps)
  then have k': "keeps h (unmark ?h (nodes ?h (Some a) - {a}))" by (rule keeps_trans [OF _ k])
  show ?thesis
    using n(1) reg k' shape_keeps [OF n(2) k] vector_of_proper [OF assms(2,5,6,8)] vector_of_layout by blast
qed

theorem hvector_ships_witness:
  "\<exists>h' h'' reg enc q. PVFS_Request_hvector [0 \<mapsto> PINT_INT] 3 2 16 (Some 0) 7 None = Some (PVFS_SUCCESS, h', Some 7) \<and>
    PVFS_Request_commit h' (Some (Some 7)) = Some (PVFS_SUCCESS, h'', Inr (Some reg)) \<and> keeps [0 \<mapsto> PINT_INT] h'' \<and>
    PINT_request_encode reg = Some (0, enc) \<and> PINT_request_decode enc = Some (0, reg) \<and> shape h'' 7 q \<and> shape (region_heap reg) 0 q \<and>
    proper q \<and> layout q 0 = [0..7] @ [16..23] @ [32..39]"
proof -
  have l: "concat (map (\<lambda>k. concat (map (\<lambda>j. layout (tree_node (PINT_INT :: nat PINT_Request) None None)
      (0 + 16 * k + j * extent (tree_node (PINT_INT :: nat PINT_Request) None None))) [0..2 - 1])) [0..3 - 1]) = [0..7] @ [16..23] @ [32..39]"
    unfolding facts_INT by code_simp
  have "\<exists>h' h'' reg enc q. PVFS_Request_hvector [0 \<mapsto> PINT_INT] 3 2 16 (Some 0) 7 None = Some (PVFS_SUCCESS, h', Some 7) \<and>
    PVFS_Request_commit h' (Some (Some 7)) = Some (PVFS_SUCCESS, h'', Inr (Some reg)) \<and> keeps [0 \<mapsto> PINT_INT] h'' \<and>
    PINT_request_encode reg = Some (0, enc) \<and> PINT_request_decode enc = Some (0, reg) \<and> shape h'' 7 q \<and> shape (region_heap reg) 0 q \<and>
    proper q \<and> (\<forall>b. layout q b = concat (map (\<lambda>k. concat (map (\<lambda>j. layout (tree_node (PINT_INT :: nat PINT_Request) None None)
      (b + 16 * k + j * extent (tree_node (PINT_INT :: nat PINT_Request) None None))) [0..2 - 1])) [0..3 - 1]))"
    by (rule hvector_ships [OF shape_INT proper_INT packable_INT]) (simp_all add: facts_INT)
  then show ?thesis unfolding l [symmetric] by blast
qed

end
