(* ===== verification/Req_Sched.thy ===== *)
theory Req_Sched
  imports Quick_Hash
begin

text \<open>
  The request scheduler of the server, \<open>src/server/request-scheduler/request-scheduler.c\<close>.
  Requests for a handle are queued; the first of a queue runs, and others run with it when they
  do not conflict. Two further queues hold timers and changes of the server mode, and one holds
  the requests that may run but have not been fetched yet.

  The elements of the queues are heap objects: \<open>elems\<close> maps the identifier of an element, which
  the code derives from its address, to its contents, and the queues are lists of identifiers.
  The identifier of a new element, the address that \<open>malloc\<close> returns, and the time of day are
  arguments of the operations. \<open>None\<close> is the result of an operation that uses a freed element,
  unlinks an element that is not linked, links one that is linked already, writes behind an
  output array, or fails an assertion. Allocation succeeds.
\<close>

section \<open>Data\<close>

type_synonym req_sched_id = int
type_synonym PVFS_server_op = int

definition PVFS_SERV_IO :: PVFS_server_op where "PVFS_SERV_IO = 3"
definition PVFS_SERV_CRDIRENT :: PVFS_server_op where "PVFS_SERV_CRDIRENT = 7"
definition PVFS_SERV_RMDIRENT :: PVFS_server_op where "PVFS_SERV_RMDIRENT = 8"
definition PVFS_SERV_MGMT_SETPARAM :: PVFS_server_op where "PVFS_SERV_MGMT_SETPARAM = 16"
definition PVFS_SERV_MGMT_REMOVE_OBJECT :: PVFS_server_op where "PVFS_SERV_MGMT_REMOVE_OBJECT = 24"
definition PVFS_SERV_MGMT_REMOVE_DIRENT :: PVFS_server_op where "PVFS_SERV_MGMT_REMOVE_DIRENT = 25"

definition PVFS_SERV_IS_MGMT_OP :: "PVFS_server_op \<Rightarrow> bool" where
  "PVFS_SERV_IS_MGMT_OP x \<longleftrightarrow> x = PVFS_SERV_MGMT_SETPARAM \<or> x = PVFS_SERV_MGMT_REMOVE_OBJECT \<or>
     x = PVFS_SERV_MGMT_REMOVE_DIRENT"

lemmas server_op_defs = PVFS_SERV_IO_def PVFS_SERV_CRDIRENT_def PVFS_SERV_RMDIRENT_def
  PVFS_SERV_MGMT_SETPARAM_def PVFS_SERV_MGMT_REMOVE_OBJECT_def PVFS_SERV_MGMT_REMOVE_DIRENT_def
  PVFS_SERV_IS_MGMT_OP_def

text \<open>Values of \<open>errno.h\<close>.\<close>

abbreviation EINVAL :: int where "EINVAL \<equiv> 22"
abbreviation EALREADY :: int where "EALREADY \<equiv> 114"

datatype req_sched_states = REQ_QUEUED | REQ_SCHEDULED | REQ_READY_TO_SCHEDULE | REQ_TIMING

datatype PINT_server_req_access_type = PINT_SERVER_REQ_READONLY | PINT_SERVER_REQ_MODIFY

datatype PINT_server_sched_policy = PINT_SERVER_REQ_BYPASS | PINT_SERVER_REQ_SCHEDULE

datatype PVFS_server_mode = PVFS_SERVER_NORMAL_MODE | PVFS_SERVER_ADMIN_MODE

text \<open>There is at most one list for a handle, so a pointer to the list is its handle.\<close>

record req_sched_list =
  lhandle :: TROVE_handle
  req_list :: "req_sched_id list"

record req_sched_element =
  op :: PVFS_server_op
  user_ptr :: nat
  list_head :: "TROVE_handle option"
  state :: req_sched_states
  handle :: TROVE_handle
  tv :: timeval
  access_type :: PINT_server_req_access_type
  mode_change :: bool
  mode :: PVFS_server_mode

text \<open>The static variables. The table is not there before initialisation and after finalisation.\<close>

record req_sched =
  elems :: "req_sched_id \<Rightarrow> req_sched_element option"
  req_sched_table :: "(TROVE_handle, req_sched_list) qhash_table option"
  ready_queue :: "req_sched_id list"
  timer_queue :: "req_sched_id list"
  mode_queue :: "req_sched_id list"
  sched_count :: int
  current_mode :: PVFS_server_mode

text \<open>An element cleared by \<open>memset\<close>; the mode 0 has no name and is not read.\<close>

definition new_element :: req_sched_element where
  "new_element = \<lparr>op = 0, user_ptr = 0, list_head = None, state = REQ_QUEUED, handle = 0,
     tv = \<lparr>tv_sec = 0, tv_usec = 0\<rparr>, access_type = PINT_SERVER_REQ_READONLY, mode_change = False,
     mode = PVFS_SERVER_NORMAL_MODE\<rparr>"

definition initial_sched :: req_sched where
  "initial_sched = \<lparr>elems = Map.empty, req_sched_table = None, ready_queue = [], timer_queue = [],
     mode_queue = [], sched_count = 0, current_mode = PVFS_SERVER_NORMAL_MODE\<rparr>"

section \<open>Lists and elements\<close>

definition hash_handle :: "TROVE_handle \<Rightarrow> int \<Rightarrow> int" where
  "hash_handle h tsize = sint (word_of_int (uint h mod tsize) :: 32 word)"

definition hash_handle_compare :: "TROVE_handle \<Rightarrow> req_sched_list \<Rightarrow> bool" where
  "hash_handle_compare key link \<longleftrightarrow> lhandle link = key"

definition qlist_del :: "req_sched_id \<Rightarrow> req_sched_id list \<Rightarrow> req_sched_id list option" where
  "qlist_del x xs = (if x \<in> set xs then Some (remove1 x xs) else None)"

definition set_elem :: "req_sched \<Rightarrow> req_sched_id \<Rightarrow> req_sched_element \<Rightarrow> req_sched" where
  "set_elem st i e = st\<lparr>elems := (elems st)(i \<mapsto> e)\<rparr>"

definition free_elem :: "req_sched \<Rightarrow> req_sched_id \<Rightarrow> req_sched" where
  "free_elem st i = st\<lparr>elems := (elems st)(i := None)\<rparr>"

text \<open>The element becomes ready and is linked to the ready queue.\<close>

definition make_ready :: "req_sched \<Rightarrow> req_sched_id \<Rightarrow> req_sched_element \<Rightarrow> req_sched option" where
  "make_ready st i e =
     (if i \<in> set (ready_queue st) then None
      else Some ((set_elem st i (e\<lparr>state := REQ_READY_TO_SCHEDULE\<rparr>))\<lparr>ready_queue := ready_queue st @ [i]\<rparr>))"

definition list_of :: "req_sched \<Rightarrow> TROVE_handle \<Rightarrow> req_sched_list option option" where
  "list_of st h = (case req_sched_table st of None \<Rightarrow> None | Some t \<Rightarrow> qhash_search t h)"

definition store_list :: "req_sched \<Rightarrow> req_sched_list \<Rightarrow> req_sched option" where
  "store_list st l = (case req_sched_table st of None \<Rightarrow> None
     | Some t \<Rightarrow> map_option (\<lambda>t'. st\<lparr>req_sched_table := Some t'\<rparr>) (qhash_store t (lhandle l) l))"

definition drop_list :: "req_sched \<Rightarrow> TROVE_handle \<Rightarrow> req_sched option" where
  "drop_list st h = (case req_sched_table st of None \<Rightarrow> None
     | Some t \<Rightarrow> map_option (\<lambda>(t', _). st\<lparr>req_sched_table := Some t'\<rparr>) (qhash_search_and_remove t h))"

section \<open>Setup\<close>

definition PINT_req_sched_get_mode :: "req_sched \<Rightarrow> PVFS_server_mode" where
  "PINT_req_sched_get_mode st = current_mode st"

definition PINT_req_sched_initialize :: "req_sched \<Rightarrow> req_sched \<times> int" where
  "PINT_req_sched_initialize st =
     (st\<lparr>req_sched_table := Some (qhash_init hash_handle_compare hash_handle 1021)\<rparr>, 0)"

text \<open>The elements of the timer queue are freed one by one, with what the user pointers point to.\<close>

fun timer_free_loop :: "req_sched \<Rightarrow> req_sched_id list \<Rightarrow> req_sched option" where
  "timer_free_loop st [] = Some st"
| "timer_free_loop st (i # is) =
     (case elems st i of None \<Rightarrow> None
      | Some e \<Rightarrow> (case qlist_del i (timer_queue st) of None \<Rightarrow> None
                   | Some q \<Rightarrow> timer_free_loop ((free_elem st i)\<lparr>timer_queue := q\<rparr>) is))"

definition PINT_timer_queue_finalize :: "req_sched \<Rightarrow> (req_sched \<times> int) option" where
  "PINT_timer_queue_finalize st = map_option (\<lambda>st'. (st', 0)) (timer_free_loop st (timer_queue st))"

definition PINT_req_sched_finalize :: "req_sched \<Rightarrow> (req_sched \<times> int) option" where
  "PINT_req_sched_finalize st =
     (case req_sched_table st of
        None \<Rightarrow> None
      | Some t \<Rightarrow>
          let ids = concat (map req_list (qhash_entries t))
          in if list_all (\<lambda>i. elems st i \<noteq> None) ids then
               Some (st\<lparr>elems := (\<lambda>i. if i \<in> set ids then None else elems st i), sched_count := 0,
                        req_sched_table := None\<rparr>, 0)
             else None)"

section \<open>Modes\<close>

definition PINT_req_sched_change_mode :: "req_sched \<Rightarrow> req_sched_id \<Rightarrow> PVFS_server_mode \<Rightarrow> nat
    \<Rightarrow> (req_sched \<times> int) option" where
  "PINT_req_sched_change_mode st new md uptr =
     (let e = new_element\<lparr>user_ptr := uptr, state := REQ_QUEUED, mode_change := True, mode := md\<rparr>;
          mode_change_ready = (mode_queue st = []);
          st' = (set_elem st new e)\<lparr>mode_queue := mode_queue st @ [new]\<rparr>
      in if mode_change_ready then
           (case md of
              PVFS_SERVER_NORMAL_MODE \<Rightarrow>
                Some ((set_elem st' new (e\<lparr>state := REQ_SCHEDULED\<rparr>))\<lparr>current_mode := md\<rparr>, 1)
            | PVFS_SERVER_ADMIN_MODE \<Rightarrow>
                if \<not> sched_count st > - 1 then None
                else if sched_count st = 0 then
                  Some ((set_elem st' new (e\<lparr>state := REQ_SCHEDULED\<rparr>))\<lparr>current_mode := md\<rparr>, 1)
                else Some (st', 0))
         else Some (st', 0))"

definition PINT_req_sched_in_admin_mode :: "req_sched \<Rightarrow> bool option" where
  "PINT_req_sched_in_admin_mode st =
     (case mode_queue st of
        [] \<Rightarrow> Some (current_mode st = PVFS_SERVER_ADMIN_MODE)
      | i # _ \<Rightarrow>
          if current_mode st = PVFS_SERVER_ADMIN_MODE then Some True
          else map_option (\<lambda>e. mode e = PVFS_SERVER_ADMIN_MODE) (elems st i))"

definition PINT_req_sched_schedule_mode_change :: "req_sched \<Rightarrow> req_sched option" where
  "PINT_req_sched_schedule_mode_change st =
     (case mode_queue st of
        [] \<Rightarrow> Some st
      | i # _ \<Rightarrow>
          if sched_count st = 0 then (case elems st i of None \<Rightarrow> None | Some e \<Rightarrow> make_ready st i e)
          else Some st)"

definition PINT_req_sched_do_change_mode :: "req_sched \<Rightarrow> req_sched_element \<Rightarrow> req_sched" where
  "PINT_req_sched_do_change_mode st e = (if mode_change e then st\<lparr>current_mode := mode e\<rparr> else st)"

section \<open>Posting\<close>

definition first_last_scheduled :: "req_sched \<Rightarrow> req_sched_id list \<Rightarrow> bool option" where
  "first_last_scheduled st ids =
     (case (elems st (hd ids), elems st (last ids)) of
        (Some next_element, Some last_element) \<Rightarrow>
          Some (state next_element = REQ_SCHEDULED \<and> state last_element = REQ_SCHEDULED)
      | _ \<Rightarrow> None)"

text \<open>Whether an element of the queue satisfies the test; the walk stops at the first that does.\<close>

fun some_elem :: "req_sched \<Rightarrow> (req_sched_element \<Rightarrow> bool) \<Rightarrow> req_sched_id list \<Rightarrow> bool option" where
  "some_elem st P [] = Some False"
| "some_elem st P (i # is) =
     (case elems st i of None \<Rightarrow> None | Some e \<Rightarrow> if P e then Some True else some_elem st P is)"

text \<open>The state and the access type of a new element behind the elements of a queue that is not empty.\<close>

definition sched_behind :: "req_sched \<Rightarrow> req_sched_id list \<Rightarrow> req_sched_element \<Rightarrow> (req_sched_element \<times> int) option" where
  "sched_behind st ids e =
     (case first_last_scheduled st ids of
        None \<Rightarrow> None
      | Some both \<Rightarrow>
          if op e = PVFS_SERV_IO \<and> both then
            map_option (\<lambda>flag. if \<not> flag then (e\<lparr>state := REQ_SCHEDULED\<rparr>, 1) else (e\<lparr>state := REQ_QUEUED\<rparr>, 0))
              (some_elem st (\<lambda>e2. op e2 \<noteq> PVFS_SERV_IO) ids)
          else if access_type e = PINT_SERVER_REQ_READONLY \<and> both then
            map_option (\<lambda>flag. if \<not> flag then (e\<lparr>state := REQ_SCHEDULED\<rparr>, 1) else (e\<lparr>state := REQ_QUEUED\<rparr>, 0))
              (some_elem st (\<lambda>e2. access_type e2 = PINT_SERVER_REQ_MODIFY) ids)
          else if (op e = PVFS_SERV_CRDIRENT \<or> op e = PVFS_SERV_RMDIRENT) \<and> both then
            Some (e\<lparr>state := REQ_SCHEDULED, access_type := PINT_SERVER_REQ_READONLY\<rparr>, 1)
          else Some (e\<lparr>state := REQ_QUEUED\<rparr>, 0))"

text \<open>The list of the handle, added to the table when it is not there.\<close>

definition find_or_add_list :: "req_sched \<Rightarrow> TROVE_handle \<Rightarrow> (req_sched \<times> req_sched_list) option" where
  "find_or_add_list st h =
     (case req_sched_table st of
        None \<Rightarrow> None
      | Some t \<Rightarrow>
          (case qhash_search t h of
             None \<Rightarrow> None
           | Some (Some l) \<Rightarrow> Some (st, l)
           | Some None \<Rightarrow>
               let l = \<lparr>lhandle = h, req_list = []\<rparr>
               in map_option (\<lambda>t'. (st\<lparr>req_sched_table := Some t'\<rparr>, l)) (qhash_add t h l)))"

text \<open>The result is the new state, the return value and \<open>out_id\<close> if it is set.\<close>

definition PINT_req_sched_post :: "req_sched \<Rightarrow> req_sched_id \<Rightarrow> PVFS_server_op \<Rightarrow> TROVE_handle
    \<Rightarrow> PINT_server_req_access_type \<Rightarrow> PINT_server_sched_policy \<Rightarrow> nat \<Rightarrow> (req_sched \<times> int \<times> req_sched_id option) option" where
  "PINT_req_sched_post st new o1 h acc policy uptr =
     (let modifies = (acc = PINT_SERVER_REQ_MODIFY \<and> \<not> PVFS_SERV_IS_MGMT_OP o1)
      in case (if modifies then PINT_req_sched_in_admin_mode st else Some False) of
           None \<Rightarrow> None
         | Some refused \<Rightarrow>
             if policy = PINT_SERVER_REQ_BYPASS then
               if refused then Some (st, - PVFS_EAGAIN, None) else Some (st, 1, Some 0)
             else if refused then Some (st, - PVFS_EAGAIN, Some new)
             else
               let e = new_element\<lparr>op := o1, user_ptr := uptr, state := REQ_QUEUED, handle := h,
                         list_head := None, access_type := acc, mode_change := False\<rparr>
               in (case find_or_add_list st h of
                     None \<Rightarrow> None
                   | Some (st1, l) \<Rightarrow>
                       (case (if req_list l = [] then Some (e\<lparr>state := REQ_SCHEDULED\<rparr>, 1)
                              else sched_behind st1 (req_list l) e) of
                          None \<Rightarrow> None
                        | Some (e', ret) \<Rightarrow>
                            (case store_list st1 (l\<lparr>req_list := req_list l @ [new]\<rparr>) of
                               None \<Rightarrow> None
                             | Some st2 \<Rightarrow>
                                 Some ((set_elem st2 new (e'\<lparr>list_head := Some h\<rparr>))
                                         \<lparr>sched_count := sched_count st2 + 1\<rparr>, ret, Some new)))))"

text \<open>Timers are kept in the order of their times.\<close>

definition later :: "timeval \<Rightarrow> timeval \<Rightarrow> bool" where
  "later a b \<longleftrightarrow> tv_sec a > tv_sec b \<or> (tv_sec a = tv_sec b \<and> tv_usec a > tv_usec b)"

fun insert_timer :: "req_sched \<Rightarrow> req_sched_id \<Rightarrow> timeval \<Rightarrow> req_sched_id list \<Rightarrow> req_sched_id list option" where
  "insert_timer st new t [] = Some [new]"
| "insert_timer st new t (i # is) =
     (case elems st i of
        None \<Rightarrow> None
      | Some e \<Rightarrow> if later (tv e) t then Some (new # i # is) else map_option (\<lambda>q. i # q) (insert_timer st new t is))"

definition timer_time :: "timeval \<Rightarrow> int \<Rightarrow> timeval" where
  "timer_time now msecs =
     (let t = now\<lparr>tv_sec := tv_sec now + msecs div 1000, tv_usec := tv_usec now + (msecs mod 1000) * 1000\<rparr>
      in if tv_usec t > 1000000
         then t\<lparr>tv_sec := tv_sec t + tv_usec t div 1000000, tv_usec := tv_usec t mod 1000000\<rparr>
         else t)"

text \<open>The return value, and \<open>out_id\<close> if it is set.\<close>

definition PINT_req_sched_post_timer :: "req_sched \<Rightarrow> req_sched_id \<Rightarrow> timeval \<Rightarrow> int \<Rightarrow> nat
    \<Rightarrow> (req_sched \<times> int \<times> req_sched_id option) option" where
  "PINT_req_sched_post_timer st new now msecs uptr =
     (if msecs < 1 then Some (st, 1, None)
      else
        let e = new_element\<lparr>user_ptr := uptr, state := REQ_TIMING, handle := 0, tv := timer_time now msecs,
                  list_head := None, mode_change := False\<rparr>
        in map_option (\<lambda>q. ((set_elem st new e)\<lparr>timer_queue := q\<rparr>, 0, Some new))
             (insert_timer st new (tv e) (timer_queue st)))"

section \<open>Removing\<close>

text \<open>\<open>qlist_del\<close> of the link that ties the element to its queue.\<close>

definition unlink_elem :: "req_sched \<Rightarrow> req_sched_id \<Rightarrow> req_sched_element \<Rightarrow> req_sched option" where
  "unlink_elem st i e =
     (case list_head e of
        Some h \<Rightarrow>
          (case list_of st h of
             Some (Some l) \<Rightarrow>
               (case qlist_del i (req_list l) of None \<Rightarrow> None | Some q \<Rightarrow> store_list st (l\<lparr>req_list := q\<rparr>))
           | _ \<Rightarrow> None)
      | None \<Rightarrow>
          if mode_change e then map_option (\<lambda>q. st\<lparr>mode_queue := q\<rparr>) (qlist_del i (mode_queue st))
          else map_option (\<lambda>q. st\<lparr>timer_queue := q\<rparr>) (qlist_del i (timer_queue st)))"

text \<open>The elements behind the first of a queue become ready as long as they satisfy the test.\<close>

fun ready_while :: "(req_sched_element \<Rightarrow> bool) \<Rightarrow> bool \<Rightarrow> req_sched \<Rightarrow> req_sched_id list \<Rightarrow> req_sched option" where
  "ready_while P asserted st [] = Some st"
| "ready_while P asserted st (i # is) =
     (case elems st i of
        None \<Rightarrow> None
      | Some e \<Rightarrow>
          if P e then
            if asserted \<and> state e \<noteq> REQ_QUEUED then None
            else (case make_ready st i e of None \<Rightarrow> None | Some st' \<Rightarrow> ready_while P asserted st' is)
          else Some st)"

abbreviation is_io :: "req_sched_element \<Rightarrow> bool" where
  "is_io e \<equiv> op e = PVFS_SERV_IO"

abbreviation is_readonly :: "req_sched_element \<Rightarrow> bool" where
  "is_readonly e \<equiv> access_type e = PINT_SERVER_REQ_READONLY"

text \<open>The first element of the queue that is left becomes ready, and others with it.\<close>

definition unpost_next :: "req_sched \<Rightarrow> req_sched_id list \<Rightarrow> req_sched option" where
  "unpost_next st ids =
     (case elems st (hd ids) of
        None \<Rightarrow> None
      | Some e \<Rightarrow>
          if state e \<noteq> REQ_READY_TO_SCHEDULE \<and> state e \<noteq> REQ_SCHEDULED then
            (case make_ready st (hd ids) e of
               None \<Rightarrow> None
             | Some st' \<Rightarrow> if is_io e then ready_while is_io False st' (tl ids) else Some st')
          else Some st)"

definition PINT_req_sched_unpost :: "req_sched \<Rightarrow> req_sched_id \<Rightarrow> (req_sched \<times> int \<times> nat option) option" where
  "PINT_req_sched_unpost st i =
     (case elems st i of
        None \<Rightarrow> None
      | Some e \<Rightarrow>
          if state e = REQ_SCHEDULED then Some (st, - EALREADY, None)
          else
            let next_ready_flag = (state e = REQ_READY_TO_SCHEDULE)
            in case (if next_ready_flag
                     then map_option (\<lambda>q. st\<lparr>ready_queue := q\<rparr>) (qlist_del i (ready_queue st)) else Some st) of
                 None \<Rightarrow> None
               | Some st1 \<Rightarrow>
                   (case unlink_elem st1 i e of
                      None \<Rightarrow> None
                    | Some st2 \<Rightarrow>
                        (case (case list_head e of
                                 None \<Rightarrow> Some st2
                               | Some h \<Rightarrow>
                                   (case list_of st2 h of
                                      Some (Some l) \<Rightarrow>
                                        map_option (\<lambda>st'. st'\<lparr>sched_count := sched_count st' - 1\<rparr>)
                                          (if req_list l = [] then drop_list st2 h
                                           else if next_ready_flag then unpost_next st2 (req_list l) else Some st2)
                                    | _ \<Rightarrow> None)) of
                           None \<Rightarrow> None
                         | Some st3 \<Rightarrow>
                             map_option (\<lambda>st'. (st', 0, Some (user_ptr e)))
                               (PINT_req_sched_schedule_mode_change (free_elem st3 i)))))"

definition release_next :: "req_sched \<Rightarrow> req_sched_id list \<Rightarrow> req_sched option" where
  "release_next st ids =
     (case elems st (hd ids) of
        None \<Rightarrow> None
      | Some e \<Rightarrow>
          if state e \<noteq> REQ_READY_TO_SCHEDULE \<and> state e \<noteq> REQ_SCHEDULED then
            (case make_ready st (hd ids) e of
               None \<Rightarrow> None
             | Some st' \<Rightarrow>
                 if is_io e then ready_while is_io True st' (tl ids)
                 else if is_readonly e then ready_while is_readonly True st' (tl ids)
                 else Some st')
          else Some st)"

text \<open>The new state and the return value; \<open>out_id\<close> is always 0.\<close>

definition PINT_req_sched_release :: "req_sched \<Rightarrow> req_sched_id \<Rightarrow> (req_sched \<times> int) option" where
  "PINT_req_sched_release st i =
     (if i = 0 then Some (st, 1)
      else
        (case elems st i of
           None \<Rightarrow> None
         | Some e \<Rightarrow>
             (case unlink_elem st i e of
                None \<Rightarrow> None
              | Some st2 \<Rightarrow>
                  (case (case list_head e of
                           None \<Rightarrow> Some st2
                         | Some h \<Rightarrow>
                             (case list_of st2 h of
                                Some (Some l) \<Rightarrow>
                                  map_option (\<lambda>st'. st'\<lparr>sched_count := sched_count st' - 1\<rparr>)
                                    (if req_list l = [] then drop_list st2 h else release_next st2 (req_list l))
                              | _ \<Rightarrow> None)) of
                     None \<Rightarrow> None
                   | Some st3 \<Rightarrow>
                       map_option (\<lambda>st'. (st', 1)) (PINT_req_sched_schedule_mode_change (free_elem st3 i))))))"

section \<open>Testing\<close>

definition expired :: "timeval \<Rightarrow> timeval \<Rightarrow> bool" where
  "expired t now \<longleftrightarrow> tv_sec t < tv_sec now \<or> (tv_sec t = tv_sec now \<and> tv_usec t < tv_usec now)"

text \<open>A ready element is fetched: it leaves the ready queue and is scheduled.\<close>

definition fetch_ready :: "req_sched \<Rightarrow> req_sched_id \<Rightarrow> req_sched_element \<Rightarrow> req_sched option" where
  "fetch_ready st i e =
     map_option
       (\<lambda>q. PINT_req_sched_do_change_mode ((set_elem st i (e\<lparr>state := REQ_SCHEDULED\<rparr>))\<lparr>ready_queue := q\<rparr>) e)
       (qlist_del i (ready_queue st))"

definition fetch_timer :: "req_sched \<Rightarrow> req_sched_id \<Rightarrow> req_sched option" where
  "fetch_timer st i = map_option (\<lambda>q. (free_elem st i)\<lparr>timer_queue := q\<rparr>) (qlist_del i (timer_queue st))"

text \<open>The new state, the return value, and the user pointer if the operation completed.\<close>

definition PINT_req_sched_test :: "req_sched \<Rightarrow> timeval \<Rightarrow> req_sched_id \<Rightarrow> (req_sched \<times> int \<times> nat option) option" where
  "PINT_req_sched_test st now i =
     (case elems st i of
        None \<Rightarrow> None
      | Some e \<Rightarrow>
          (case state e of
             REQ_SCHEDULED \<Rightarrow> Some (st, - EINVAL, None)
           | REQ_QUEUED \<Rightarrow> Some (st, 0, None)
           | REQ_READY_TO_SCHEDULE \<Rightarrow> map_option (\<lambda>st'. (st', 1, Some (user_ptr e))) (fetch_ready st i e)
           | REQ_TIMING \<Rightarrow>
               if expired (tv e) now then map_option (\<lambda>st'. (st', 1, Some (user_ptr e))) (fetch_timer st i)
               else Some (st, 0, None)))"

text \<open>
  The completed operations as pairs of the index and the user pointer. Every timer is compared
  with the time of day at its turn; \<open>clock\<close> gives the time at each index.
\<close>

fun testsome_loop :: "req_sched \<Rightarrow> (nat \<Rightarrow> timeval) \<Rightarrow> nat \<Rightarrow> req_sched_id list \<Rightarrow> (nat \<times> nat) list
    \<Rightarrow> (req_sched \<times> int \<times> (nat \<times> nat) list) option" where
  "testsome_loop st clock k [] outs = Some (st, if outs \<noteq> [] then 1 else 0, outs)"
| "testsome_loop st clock k (i # is) outs =
     (case elems st i of
        None \<Rightarrow> None
      | Some e \<Rightarrow>
          (case state e of
             REQ_SCHEDULED \<Rightarrow> Some (st, - EINVAL, outs)
           | REQ_QUEUED \<Rightarrow> testsome_loop st clock (k + 1) is outs
           | REQ_READY_TO_SCHEDULE \<Rightarrow>
               (case fetch_ready st i e of
                  None \<Rightarrow> None
                | Some st' \<Rightarrow> testsome_loop st' clock (k + 1) is (outs @ [(k, user_ptr e)]))
           | REQ_TIMING \<Rightarrow>
               if expired (tv e) (clock k) then
                 (case fetch_timer st i of
                    None \<Rightarrow> None
                  | Some st' \<Rightarrow> testsome_loop st' clock (k + 1) is (outs @ [(k, user_ptr e)]))
               else testsome_loop st clock (k + 1) is outs))"

definition PINT_req_sched_testsome :: "req_sched \<Rightarrow> (nat \<Rightarrow> timeval) \<Rightarrow> req_sched_id list
    \<Rightarrow> (req_sched \<times> int \<times> (nat \<times> nat) list) option" where
  "PINT_req_sched_testsome st clock ids = testsome_loop st clock 0 ids []"

text \<open>
  The completed operations as pairs of the identifier and the user pointer. The output arrays
  have \<open>incount\<close> elements.
\<close>

fun testworld_timers :: "req_sched \<Rightarrow> timeval \<Rightarrow> nat \<Rightarrow> req_sched_id list \<Rightarrow> (req_sched_id \<times> nat) list
    \<Rightarrow> (req_sched \<times> (req_sched_id \<times> nat) list) option" where
  "testworld_timers st now incount [] outs = Some (st, outs)"
| "testworld_timers st now incount (i # is) outs =
     (case elems st i of
        None \<Rightarrow> None
      | Some e \<Rightarrow>
          if later (tv e) now then Some (st, outs)
          else if incount \<le> length outs then None
          else
            (case fetch_timer st i of
               None \<Rightarrow> None
             | Some st' \<Rightarrow>
                 let outs' = outs @ [(i, user_ptr e)]
                 in if length outs' = incount then Some (st', outs')
                    else testworld_timers st' now incount is outs'))"

fun testworld_ready :: "req_sched \<Rightarrow> nat \<Rightarrow> req_sched_id list \<Rightarrow> (req_sched_id \<times> nat) list
    \<Rightarrow> (req_sched \<times> (req_sched_id \<times> nat) list) option" where
  "testworld_ready st incount [] outs = Some (st, outs)"
| "testworld_ready st incount (i # is) outs =
     (if length outs < incount then
        (case elems st i of
           None \<Rightarrow> None
         | Some e \<Rightarrow>
             (case fetch_ready st i e of
                None \<Rightarrow> None
              | Some st' \<Rightarrow> testworld_ready st' incount is (outs @ [(i, user_ptr e)])))
      else Some (st, outs))"

definition PINT_req_sched_testworld :: "req_sched \<Rightarrow> timeval \<Rightarrow> nat
    \<Rightarrow> (req_sched \<times> int \<times> (req_sched_id \<times> nat) list) option" where
  "PINT_req_sched_testworld st now incount =
     (case testworld_timers st now incount (timer_queue st) [] of
        None \<Rightarrow> None
      | Some (st1, outs) \<Rightarrow>
          map_option (\<lambda>(st2, outs'). (st2, if outs' \<noteq> [] then 1 else 0, outs'))
            (testworld_ready st1 incount (ready_queue st1) outs))"

end
