(* ===== verification/Req_Sched_Inv.thy ===== *)
theory Req_Sched_Inv
  imports Req_Sched
begin

text \<open>
  The invariant of the request scheduler and its preservation. Every allocated element is in
  exactly one queue, its own; the ready queue holds the ready elements; a queue of a handle is a
  run of active elements, which are compatible with each other, followed by waiting ones.
\<close>

section \<open>The table of queues\<close>

lemma hash_handle_range: "0 \<le> hash_handle h 1021" "hash_handle h 1021 < 1021"
proof -
  have "0 \<le> uint h mod 1021" "uint h mod 1021 < 1021" by simp_all
  moreover from this have "hash_handle h 1021 = uint h mod 1021"
    unfolding hash_handle_def by (intro sint32_small) auto
  ultimately show "0 \<le> hash_handle h 1021" "hash_handle h 1021 < 1021" by simp_all
qed

interpretation hl: qhash_user hash_handle_compare hash_handle lhandle 1021
  by unfold_locales (simp_all add: hash_handle_compare_def hash_handle_range)

definition lists :: "req_sched \<Rightarrow> TROVE_handle \<Rightarrow> req_sched_list option" where
  "lists st h = (case req_sched_table st of None \<Rightarrow> None | Some t \<Rightarrow> qhash_map lhandle t h)"

definition lists_ok :: "req_sched \<Rightarrow> bool" where
  "lists_ok st \<longleftrightarrow> (\<exists>t. req_sched_table st = Some t \<and> hl.managed t)"

lemma lists_key: "lists st h = Some l \<Longrightarrow> lhandle l = h"
  by (auto simp: lists_def qhash_map_def find_Some_iff split: option.splits)

lemma list_of_lists: "lists_ok st \<Longrightarrow> list_of st h = Some (lists st h)"
  by (auto simp: lists_ok_def list_of_def lists_def hl.search_map)

lemma store_list_ok:
  assumes "lists_ok st" "lists st (lhandle l) \<noteq> None"
  obtains t where "store_list st l = Some (st\<lparr>req_sched_table := Some t\<rparr>)"
    "lists_ok (st\<lparr>req_sched_table := Some t\<rparr>)"
    "lists (st\<lparr>req_sched_table := Some t\<rparr>) = (lists st)(lhandle l \<mapsto> l)"
proof -
  obtain t v where t: "req_sched_table st = Some t" "hl.managed t" "qhash_map lhandle t (lhandle l) = Some v"
    using assms by (auto simp: lists_ok_def lists_def)
  obtain t' where t': "qhash_store t (lhandle l) l = Some t'" "hl.managed t'"
    "qhash_map lhandle t' = (qhash_map lhandle t)(lhandle l \<mapsto> l)"
    by (rule hl.store_map [OF t(2,3)])
  show thesis
    by (rule that [of t']) (use t t' in \<open>auto simp: store_list_def lists_ok_def lists_def fun_eq_iff\<close>)
qed

lemma drop_list_ok:
  assumes "lists_ok st"
  obtains t where "drop_list st h = Some (st\<lparr>req_sched_table := Some t\<rparr>)"
    "lists_ok (st\<lparr>req_sched_table := Some t\<rparr>)" "lists (st\<lparr>req_sched_table := Some t\<rparr>) = (lists st)(h := None)"
proof -
  obtain t where t: "req_sched_table st = Some t" "hl.managed t" using assms by (auto simp: lists_ok_def)
  obtain t' where t': "qhash_search_and_remove t h = Some (t', qhash_map lhandle t h)" "hl.managed t'"
    "qhash_map lhandle t' = (qhash_map lhandle t)(h := None)"
    by (rule hl.remove_map [OF t(2)])
  show thesis
    by (rule that [of t']) (use t t' in \<open>auto simp: drop_list_def lists_ok_def lists_def fun_eq_iff\<close>)
qed

lemma find_or_add_list_ok:
  assumes "lists_ok st"
  obtains t l where "find_or_add_list st h = Some (st\<lparr>req_sched_table := Some t\<rparr>, l)"
    "lists_ok (st\<lparr>req_sched_table := Some t\<rparr>)" "lists (st\<lparr>req_sched_table := Some t\<rparr>) = (lists st)(h \<mapsto> l)"
    "l = (case lists st h of Some l \<Rightarrow> l | None \<Rightarrow> \<lparr>lhandle = h, req_list = []\<rparr>)" "lhandle l = h"
proof -
  obtain t where t: "req_sched_table st = Some t" "hl.managed t" using assms by (auto simp: lists_ok_def)
  show thesis
  proof (cases "lists st h")
    case (Some l)
    have "st\<lparr>req_sched_table := Some t\<rparr> = st" using t(1) by simp
    then show thesis using Some t assms lists_key [OF Some]
      by (intro that [of t l]) (auto simp: find_or_add_list_def hl.search_map lists_def lists_ok_def fun_upd_idem)
  next
    case None
    let ?l = "\<lparr>lhandle = h, req_list = []\<rparr>"
    have "qhash_map lhandle t (lhandle ?l) = None" using None t(1) by (simp add: lists_def)
    then obtain t' where t': "qhash_add t (lhandle ?l) ?l = Some t'" "hl.managed t'"
        "qhash_map lhandle t' = (qhash_map lhandle t)(lhandle ?l \<mapsto> ?l)"
      by (rule hl.add_map [OF t(2)])
    show thesis
      by (rule that [of t' ?l])
        (use None t t' in \<open>auto simp: find_or_add_list_def hl.search_map lists_def lists_ok_def fun_eq_iff\<close>)
  qed
qed

section \<open>The invariant\<close>

datatype place = Handle_Queue TROVE_handle | Mode_Queue | Timer_Queue

definition place_of :: "req_sched_element \<Rightarrow> place" where
  "place_of e = (case list_head e of Some h \<Rightarrow> Handle_Queue h | None \<Rightarrow> if mode_change e then Mode_Queue else Timer_Queue)"

fun queue :: "req_sched \<Rightarrow> place \<Rightarrow> req_sched_id list" where
  "queue st (Handle_Queue h) = (case lists st h of None \<Rightarrow> [] | Some l \<Rightarrow> req_list l)"
| "queue st Mode_Queue = mode_queue st"
| "queue st Timer_Queue = timer_queue st"

declare queue.simps(1) [simp del]
lemmas queue_handle = queue.simps(1)

definition active :: "req_sched_element \<Rightarrow> bool" where
  "active e \<longleftrightarrow> state e = REQ_SCHEDULED \<or> state e = REQ_READY_TO_SCHEDULE"

definition is_dirent :: "req_sched_element \<Rightarrow> bool" where
  "is_dirent e \<longleftrightarrow> op e = PVFS_SERV_CRDIRENT \<or> op e = PVFS_SERV_RMDIRENT"

definition compatible :: "req_sched_element \<Rightarrow> req_sched_element \<Rightarrow> bool" where
  "compatible a b \<longleftrightarrow> (is_io a \<and> is_io b) \<or> (is_readonly a \<and> is_readonly b) \<or> is_dirent a \<or> is_dirent b"

abbreviation el :: "req_sched \<Rightarrow> req_sched_id \<Rightarrow> req_sched_element" where
  "el st i \<equiv> the (elems st i)"

text \<open>A queue of a handle: active elements that are compatible, then waiting ones.\<close>

definition run_split :: "req_sched \<Rightarrow> req_sched_id list \<Rightarrow> req_sched_id list \<Rightarrow> bool" where
  "run_split st as ws \<longleftrightarrow> (\<forall>i \<in> set as. active (el st i)) \<and> (\<forall>i \<in> set ws. state (el st i) = REQ_QUEUED) \<and>
     sorted_wrt (\<lambda>i j. compatible (el st i) (el st j)) as"

definition run_ok :: "req_sched \<Rightarrow> req_sched_id list \<Rightarrow> bool" where
  "run_ok st ids \<longleftrightarrow> (\<exists>as ws. ids = as @ ws \<and> (ids \<noteq> [] \<longrightarrow> as \<noteq> []) \<and> run_split st as ws)"

definition places :: "req_sched \<Rightarrow> req_sched_id \<Rightarrow> place option" where
  "places st i = map_option place_of (elems st i)"

text \<open>Every element is in the queue of its place, and \<open>sched_count\<close> counts those of the handles.\<close>

definition placed :: "req_sched \<Rightarrow> bool" where
  "placed st \<longleftrightarrow> finite (dom (places st)) \<and> places st 0 = None \<and>
     (\<forall>p. distinct (queue st p) \<and> set (queue st p) = {i. places st i = Some p}) \<and>
     sched_count st = int (card {i. \<exists>h. places st i = Some (Handle_Queue h)})"

definition ready_ok :: "req_sched \<Rightarrow> bool" where
  "ready_ok st \<longleftrightarrow> distinct (ready_queue st) \<and>
     set (ready_queue st) = {i. \<exists>e. elems st i = Some e \<and> state e = REQ_READY_TO_SCHEDULE}"

definition timers_ok :: "req_sched \<Rightarrow> bool" where
  "timers_ok st \<longleftrightarrow> sorted_wrt (\<lambda>i j. \<not> later (tv (el st i)) (tv (el st j))) (timer_queue st) \<and>
     (\<forall>i e. elems st i = Some e \<longrightarrow> (state e = REQ_TIMING \<longleftrightarrow> place_of e = Timer_Queue))"

definition sched_ok :: "req_sched \<Rightarrow> bool" where
  "sched_ok st \<longleftrightarrow> lists_ok st \<and> (\<forall>h l. lists st h = Some l \<longrightarrow> req_list l \<noteq> []) \<and> placed st \<and> ready_ok st \<and>
     timers_ok st \<and> (\<forall>h. run_ok st (queue st (Handle_Queue h)))"

section \<open>Changes that the invariant allows\<close>

lemma sched_okD:
  assumes "sched_ok st"
  shows "lists_ok st" "placed st" "ready_ok st" "timers_ok st" "run_ok st (queue st (Handle_Queue h))"
  using assms by (simp_all add: sched_ok_def)

lemma placed_queue: "placed st \<Longrightarrow> i \<in> set (queue st p) \<longleftrightarrow> places st i = Some p"
  by (auto simp: placed_def)

lemma places_Some: "places st i = Some p \<longleftrightarrow> (\<exists>e. elems st i = Some e \<and> place_of e = p)"
  by (auto simp: places_def)

lemma placed_alloc:
  assumes "placed st" "i \<in> set (queue st p)"
  obtains e where "elems st i = Some e" "place_of e = p" "el st i = e"
  using assms by (auto simp: placed_queue places_Some)

lemma place_of_iff:
  "place_of e = Handle_Queue h \<longleftrightarrow> list_head e = Some h"
  "place_of e = Mode_Queue \<longleftrightarrow> list_head e = None \<and> mode_change e"
  "place_of e = Timer_Queue \<longleftrightarrow> list_head e = None \<and> \<not> mode_change e"
  by (auto simp: place_of_def split: option.splits)

lemma place_of_state [simp]: "place_of (e\<lparr>state := s\<rparr>) = place_of e"
  by (simp add: place_of_def)

lemma placed_add:
  assumes "placed st" "places st new = None" "new \<noteq> 0"
    "places st' = (places st)(new \<mapsto> p)" "\<And>q. q \<noteq> p \<Longrightarrow> queue st' q = queue st q"
    "distinct (queue st' p)" "set (queue st' p) = insert new (set (queue st p))"
    "sched_count st' = sched_count st + (case p of Handle_Queue h \<Rightarrow> 1 | _ \<Rightarrow> 0)"
  shows "placed st'"
proof -
  let ?H = "\<lambda>st. {i. \<exists>h. places st i = Some (Handle_Queue h)}"
  have fin: "finite (?H st)" using assms(1) by (auto simp: placed_def intro: finite_subset [of _ "dom (places st)"])
  have "new \<notin> ?H st" using assms(2) by simp
  moreover have "?H st' = (case p of Handle_Queue h \<Rightarrow> insert new (?H st) | _ \<Rightarrow> ?H st)"
    using assms(2) unfolding assms(4) by (cases p) auto
  ultimately have "sched_count st' = int (card (?H st'))"
    using assms(1,8) fin by (cases p) (simp_all add: placed_def)
  moreover have "distinct (queue st' q) \<and> set (queue st' q) = {i. places st' i = Some q}" for q
    using assms(1,2,5-7) unfolding assms(4) by (cases "q = p") (auto simp: placed_def)
  ultimately show ?thesis using assms(1-4) by (simp add: placed_def)
qed

lemma placed_remove:
  assumes "placed st" "places st i = Some p"
    "places st' = (places st)(i := None)" "\<And>q. queue st' q = remove1 i (queue st q)"
    "sched_count st' = sched_count st - (case p of Handle_Queue h \<Rightarrow> 1 | _ \<Rightarrow> 0)"
  shows "placed st'"
proof -
  let ?H = "\<lambda>st. {i. \<exists>h. places st i = Some (Handle_Queue h)}"
  have fin: "finite (?H st)" using assms(1) by (auto simp: placed_def intro: finite_subset [of _ "dom (places st)"])
  have H: "?H st' = ?H st - {i}" unfolding assms(3) by auto
  have "int (card (?H st')) = int (card (?H st)) - (case p of Handle_Queue h \<Rightarrow> 1 | _ \<Rightarrow> 0)"
  proof (cases p)
    case (Handle_Queue h)
    then have "i \<in> ?H st" using assms(2) by auto
    then show ?thesis unfolding H using fin Handle_Queue card_Suc_Diff1 [of "?H st" i] by simp
  next
    case Mode_Queue
    then have "i \<notin> ?H st" using assms(2) by auto
    then show ?thesis unfolding H using Mode_Queue by (simp del: mem_Collect_eq)
  next
    case Timer_Queue
    then have "i \<notin> ?H st" using assms(2) by auto
    then show ?thesis unfolding H using Timer_Queue by (simp del: mem_Collect_eq)
  qed
  moreover have "distinct (queue st' q) \<and> set (queue st' q) = {i. places st' i = Some q}" for q
    using assms(1) unfolding assms(3,4) by (auto simp: placed_def)
  ultimately show ?thesis using assms(1,3,5) by (simp add: placed_def)
qed

lemma placed_cong:
  assumes "placed st" "places st' = places st" "queue st' = queue st" "sched_count st' = sched_count st"
  shows "placed st'"
  using assms by (simp add: placed_def)

lemma run_split_cong:
  assumes "run_split st as ws" "\<And>i. i \<in> set (as @ ws) \<Longrightarrow> elems st' i = elems st i"
  shows "run_split st' as ws"
proof -
  have "sorted_wrt (\<lambda>i j. compatible (el st i) (el st j)) as" using assms(1) by (simp add: run_split_def)
  then have "sorted_wrt (\<lambda>i j. compatible (el st' i) (el st' j)) as"
    using assms(2) by (elim sorted_wrt_mono_rel [rotated]) auto
  then show ?thesis using assms by (auto simp: run_split_def)
qed

lemma run_ok_cong:
  assumes "run_ok st ids" "\<And>i. i \<in> set ids \<Longrightarrow> elems st' i = elems st i"
  shows "run_ok st' ids"
  using assms run_split_cong [of st _ _ st'] unfolding run_ok_def by metis

text \<open>Elements of a queue become ready.\<close>

definition wake :: "req_sched \<Rightarrow> req_sched_id list \<Rightarrow> req_sched" where
  "wake st ks = st\<lparr>elems := (\<lambda>i. if i \<in> set ks then map_option (\<lambda>e. e\<lparr>state := REQ_READY_TO_SCHEDULE\<rparr>) (elems st i)
     else elems st i), ready_queue := ready_queue st @ ks\<rparr>"

lemma wake_simps [simp]:
  "req_sched_table (wake st ks) = req_sched_table st" "timer_queue (wake st ks) = timer_queue st"
  "mode_queue (wake st ks) = mode_queue st" "sched_count (wake st ks) = sched_count st"
  "ready_queue (wake st ks) = ready_queue st @ ks" "current_mode (wake st ks) = current_mode st"
  "elems (wake st ks) i = (if i \<in> set ks then map_option (\<lambda>e. e\<lparr>state := REQ_READY_TO_SCHEDULE\<rparr>) (elems st i) else elems st i)"
  by (simp_all add: wake_def)

lemma wake_Nil [simp]: "wake st [] = st"
  by (simp add: wake_def)

lemma wake_Cons: "i \<notin> set ks \<Longrightarrow> wake (wake st [i]) ks = wake st (i # ks)"
  by (simp add: wake_def fun_eq_iff)

lemma lists_cong: "req_sched_table st' = req_sched_table st \<Longrightarrow> lists st' = lists st"
  by (simp add: lists_def fun_eq_iff)

lemma lists_ok_cong: "req_sched_table st' = req_sched_table st \<Longrightarrow> lists_ok st' = lists_ok st"
  by (simp add: lists_ok_def)

lemma queue_cong:
  assumes "req_sched_table st' = req_sched_table st" "timer_queue st' = timer_queue st" "mode_queue st' = mode_queue st"
  shows "queue st' = queue st"
proof
  fix p show "queue st' p = queue st p" using assms lists_cong [OF assms(1)] by (cases p) (simp_all add: queue_handle)
qed

lemma places_wake [simp]: "places (wake st ks) = places st"
  by (auto simp: places_def fun_eq_iff option.map_comp comp_def)

lemma make_ready_wake:
  "elems st i = Some e \<Longrightarrow> i \<notin> set (ready_queue st) \<Longrightarrow> make_ready st i e = Some (wake st [i])"
  by (simp add: make_ready_def set_elem_def wake_def fun_eq_iff)

lemma ready_while_wake:
  assumes "distinct ids" "\<And>i. i \<in> set ids \<Longrightarrow> \<exists>e. elems st i = Some e \<and> state e = REQ_QUEUED"
    "set ids \<inter> set (ready_queue st) = {}"
  shows "ready_while P b st ids = Some (wake st (takeWhile (\<lambda>i. P (el st i)) ids))"
  using assms
proof (induction ids arbitrary: st)
  case (Cons i ids)
  obtain e where e: "elems st i = Some e" "state e = REQ_QUEUED" using Cons.prems(2) [of i] by auto
  show ?case
  proof (cases "P e")
    case True
    have "make_ready st i e = Some (wake st [i])" using e Cons.prems(3) by (intro make_ready_wake) auto
    moreover have "ready_while P b (wake st [i]) ids = Some (wake (wake st [i]) (takeWhile (\<lambda>j. P (el (wake st [i]) j)) ids))"
      using Cons.prems by (intro Cons.IH) auto
    moreover have "takeWhile (\<lambda>j. P (el (wake st [i]) j)) ids = takeWhile (\<lambda>j. P (el st j)) ids"
      using Cons.prems(1) by (intro takeWhile_cong) auto
    moreover have "i \<notin> set (takeWhile (\<lambda>j. P (el st j)) ids)" using Cons.prems(1) by (auto dest: set_takeWhileD)
    ultimately show ?thesis using e True by (simp add: wake_Cons)
  qed (use e in simp)
qed simp

text \<open>A new element in one of the queues.\<close>

lemma sched_ok_add:
  assumes ok: "sched_ok st" and fresh: "elems st new = None" "new \<noteq> 0"
    and new: "elems st' = (elems st)(new \<mapsto> e)" "place_of e = p" "state e \<noteq> REQ_READY_TO_SCHEDULE"
      "state e = REQ_TIMING \<longleftrightarrow> p = Timer_Queue"
    and table: "lists_ok st'" "\<And>h l. lists st' h = Some l \<Longrightarrow> req_list l \<noteq> []"
    and queues: "\<And>q. q \<noteq> p \<Longrightarrow> queue st' q = queue st q" "distinct (queue st' p)"
      "set (queue st' p) = insert new (set (queue st p))" "ready_queue st' = ready_queue st"
    and count: "sched_count st' = sched_count st + (case p of Handle_Queue h \<Rightarrow> 1 | _ \<Rightarrow> 0)"
    and run: "\<And>h. p = Handle_Queue h \<Longrightarrow> run_ok st' (queue st' p)"
    and timer: "p = Timer_Queue \<Longrightarrow> sorted_wrt (\<lambda>i j. \<not> later (tv (el st' i)) (tv (el st' j))) (timer_queue st')"
  shows "sched_ok st'"
  unfolding sched_ok_def
proof (intro conjI allI impI)
  note pl = sched_okD(2) [OF ok]
  have fresh': "places st new = None" using fresh(1) by (simp add: places_def)
  show "lists_ok st'" by (rule table(1))
  show "req_list l \<noteq> []" if "lists st' h = Some l" for h l using table(2) that by blast
  show "placed st'"
    by (rule placed_add [OF pl fresh' fresh(2) _ queues(1-3) count]) (simp_all add: new places_def fun_eq_iff)
  show "ready_ok st'" using sched_okD(3) [OF ok] fresh(1) new queues(4) by (auto simp: ready_ok_def)
  have same: "elems st' i = elems st i" if m: "i \<in> set (queue st q)" for i q
  proof -
    obtain e' where "elems st i = Some e'" by (rule placed_alloc [OF pl m])
    then show ?thesis using fresh(1) new(1) by auto
  qed
  show "timers_ok st'"
  proof (cases "p = Timer_Queue")
    case True
    then show ?thesis using timer sched_okD(4) [OF ok] new by (auto simp: timers_ok_def)
  next
    case False
    then have tq: "timer_queue st' = timer_queue st" using queues(1) [of Timer_Queue] by simp
    have "sorted_wrt (\<lambda>i j. \<not> later (tv (el st' i)) (tv (el st' j))) (timer_queue st)"
      by (rule sorted_wrt_mono_rel [of _ "\<lambda>i j. \<not> later (tv (el st i)) (tv (el st j))"])
        (use same [of _ Timer_Queue] sched_okD(4) [OF ok] in \<open>auto simp: timers_ok_def\<close>)
    then show ?thesis using sched_okD(4) [OF ok] new False tq by (auto simp: timers_ok_def)
  qed
  show "run_ok st' (queue st' (Handle_Queue h))" for h
  proof (cases "p = Handle_Queue h")
    case False
    then have "queue st' (Handle_Queue h) = queue st (Handle_Queue h)" using queues(1) by metis
    then show ?thesis using run_ok_cong [OF sched_okD(5) [OF ok], of h st'] same by metis
  qed (use run in auto)
qed

section \<open>Posting\<close>

lemma some_elem_ex:
  assumes "\<forall>i \<in> set ids. elems st i \<noteq> None"
  shows "some_elem st P ids = Some (\<exists>i \<in> set ids. P (el st i))"
  using assms by (induction ids) (force split: option.splits)+

lemma sched_behind_spec:
  assumes "ids \<noteq> []" "\<forall>i \<in> set ids. elems st i \<noteq> None" "list_head e = None"
  obtains e' ret where "sched_behind st ids e = Some (e', ret)" "op e' = op e" "list_head e' = None" "mode_change e' = mode_change e"
    "ret = 1 \<and> state e' = REQ_SCHEDULED \<and> state (el st (last ids)) = REQ_SCHEDULED \<and> (\<forall>i \<in> set ids. compatible (el st i) e') \<or>
     ret = 0 \<and> state e' = REQ_QUEUED"
proof -
  obtain a where a: "elems st (hd ids) = Some a" using assms(1,2) hd_in_set by blast
  obtain b where b: "elems st (last ids) = Some b" using assms(1,2) last_in_set by blast
  let ?both = "state a = REQ_SCHEDULED \<and> state b = REQ_SCHEDULED"
  have both: "first_last_scheduled st ids = Some ?both" using a b by (simp add: first_last_scheduled_def)
  let ?nio = "\<exists>i \<in> set ids. op (el st i) \<noteq> PVFS_SERV_IO" and ?nro = "\<exists>i \<in> set ids. access_type (el st i) = PINT_SERVER_REQ_MODIFY"
  consider (io) "is_io e" ?both | (ro) "\<not> is_io e" "is_readonly e" ?both
    | (dirent) "\<not> is_io e" "\<not> is_readonly e" "is_dirent e" ?both
    | (wait) "\<not> (is_io e \<and> ?both)" "\<not> (is_readonly e \<and> ?both)" "\<not> (is_dirent e \<and> ?both)" by blast
  then show thesis
  proof cases
    case io
    then have "sched_behind st ids e = Some (if \<not> ?nio then (e\<lparr>state := REQ_SCHEDULED\<rparr>, 1) else (e\<lparr>state := REQ_QUEUED\<rparr>, 0))"
      using both by (simp add: sched_behind_def some_elem_ex [OF assms(2)])
    then show thesis using that io b assms(3) by (cases ?nio) (auto simp: compatible_def)
  next
    case ro
    then have run: "sched_behind st ids e = Some (if \<not> ?nro then (e\<lparr>state := REQ_SCHEDULED\<rparr>, 1) else (e\<lparr>state := REQ_QUEUED\<rparr>, 0))"
      using both by (simp add: sched_behind_def some_elem_ex [OF assms(2)])
    have "is_readonly x" if "access_type x \<noteq> PINT_SERVER_REQ_MODIFY" for x using that by (cases "access_type x") auto
    then show thesis using that run ro b assms(3) by (cases ?nro) (auto simp: compatible_def)
  next
    case dirent
    then have "sched_behind st ids e = Some (e\<lparr>state := REQ_SCHEDULED, access_type := PINT_SERVER_REQ_READONLY\<rparr>, 1)"
      using both by (auto simp: sched_behind_def is_dirent_def)
    then show thesis using that dirent b assms(3) by (auto simp: compatible_def is_dirent_def)
  next
    case wait
    then have "sched_behind st ids e = Some (e\<lparr>state := REQ_QUEUED\<rparr>, 0)"
      using both by (auto simp: sched_behind_def is_dirent_def)
    then show thesis using that assms(3) by auto
  qed
qed

lemma in_admin_mode_total:
  assumes "sched_ok st"
  obtains b where "PINT_req_sched_in_admin_mode st = Some b"
proof (cases "mode_queue st")
  case (Cons i js)
  then have "i \<in> set (queue st Mode_Queue)" by simp
  then obtain e where "elems st i = Some e" by (rule placed_alloc [OF sched_okD(2) [OF assms]])
  then show thesis using that Cons by (cases "current_mode st = PVFS_SERVER_ADMIN_MODE") (auto simp: PINT_req_sched_in_admin_mode_def)
qed (use that in \<open>auto simp: PINT_req_sched_in_admin_mode_def\<close>)

lemma run_ok_snoc:
  assumes "run_ok st ids" "new \<notin> set ids" "elems st' = (elems st)(new \<mapsto> e)"
    "state e = REQ_SCHEDULED \<and> (ids \<noteq> [] \<longrightarrow> state (el st (last ids)) = REQ_SCHEDULED) \<and> (\<forall>i \<in> set ids. compatible (el st i) e) \<or>
     state e = REQ_QUEUED \<and> ids \<noteq> []"
  shows "run_ok st' (ids @ [new])"
proof -
  obtain as ws where ids: "ids = as @ ws" "ids \<noteq> [] \<longrightarrow> as \<noteq> []" "run_split st as ws" using assms(1) by (auto simp: run_ok_def)
  have split: "run_split st' as ws" by (rule run_split_cong [OF ids(3)]) (use assms(2,3) ids(1) in auto)
  have new: "el st' new = e" using assms(3) by simp
  have same: "el st' i = el st i" if "i \<in> set ids" for i using assms(2,3) that by auto
  from assms(4) show ?thesis
  proof
    assume a: "state e = REQ_SCHEDULED \<and> (ids \<noteq> [] \<longrightarrow> state (el st (last ids)) = REQ_SCHEDULED) \<and> (\<forall>i \<in> set ids. compatible (el st i) e)"
    have "ws = []"
    proof (rule ccontr)
      assume "ws \<noteq> []"
      then show False using a ids by (auto simp: run_split_def)
    qed
    then have "run_split st' (as @ [new]) []"
      using split a new same ids(1) by (auto simp: run_split_def sorted_wrt_append active_def)
    then show ?thesis using ids(1) \<open>ws = []\<close> unfolding run_ok_def by (intro exI [of _ "as @ [new]"] exI [of _ "[]"]) simp
  next
    assume a: "state e = REQ_QUEUED \<and> ids \<noteq> []"
    then have "run_split st' as (ws @ [new])" using split new by (auto simp: run_split_def)
    then show ?thesis using ids a unfolding run_ok_def by (intro exI [of _ as] exI [of _ "ws @ [new]"]) simp
  qed
qed

text \<open>A request is refused when it modifies the file system and the server is in administration mode.\<close>

definition refused :: "req_sched \<Rightarrow> PVFS_server_op \<Rightarrow> PINT_server_req_access_type \<Rightarrow> bool" where
  "refused st o1 acc \<longleftrightarrow> acc = PINT_SERVER_REQ_MODIFY \<and> \<not> PVFS_SERV_IS_MGMT_OP o1 \<and>
     PINT_req_sched_in_admin_mode st = Some True"

lemma post_unqueued:
  assumes "sched_ok st"
  shows "refused st o1 acc \<Longrightarrow> PINT_req_sched_post st new o1 h acc policy uptr =
      Some (st, - PVFS_EAGAIN, if policy = PINT_SERVER_REQ_BYPASS then None else Some new)"
    "\<not> refused st o1 acc \<Longrightarrow> policy = PINT_SERVER_REQ_BYPASS \<Longrightarrow>
      PINT_req_sched_post st new o1 h acc policy uptr = Some (st, 1, Some 0)"
proof -
  obtain b where "PINT_req_sched_in_admin_mode st = Some b" by (rule in_admin_mode_total [OF assms])
  then show "refused st o1 acc \<Longrightarrow> PINT_req_sched_post st new o1 h acc policy uptr =
      Some (st, - PVFS_EAGAIN, if policy = PINT_SERVER_REQ_BYPASS then None else Some new)"
    "\<not> refused st o1 acc \<Longrightarrow> policy = PINT_SERVER_REQ_BYPASS \<Longrightarrow>
      PINT_req_sched_post st new o1 h acc policy uptr = Some (st, 1, Some 0)"
    by (auto simp: PINT_req_sched_post_def refused_def)
qed

lemma post_queued:
  assumes "sched_ok st" "elems st new = None" "new \<noteq> 0" "\<not> refused st o1 acc" "policy = PINT_SERVER_REQ_SCHEDULE"
  obtains st' ret e where "PINT_req_sched_post st new o1 h acc policy uptr = Some (st', ret, Some new)" "sched_ok st'"
    "elems st' = (elems st)(new \<mapsto> e)" "place_of e = Handle_Queue h" "op e = o1"
    "ret = 1 \<and> state e = REQ_SCHEDULED \<or> ret = 0 \<and> state e = REQ_QUEUED"
    "queue st' = (queue st)(Handle_Queue h := queue st (Handle_Queue h) @ [new])"
    "ready_queue st' = ready_queue st" "current_mode st' = current_mode st"
proof -
  note ok = assms(1)
  let ?ids = "queue st (Handle_Queue h)"
  let ?e = "new_element\<lparr>op := o1, user_ptr := uptr, state := REQ_QUEUED, handle := h, list_head := None,
      access_type := acc, mode_change := False\<rparr>"
  obtain b where b: "PINT_req_sched_in_admin_mode st = Some b" by (rule in_admin_mode_total [OF ok])
  obtain t l where l: "find_or_add_list st h = Some (st\<lparr>req_sched_table := Some t\<rparr>, l)"
    "lists_ok (st\<lparr>req_sched_table := Some t\<rparr>)" "lists (st\<lparr>req_sched_table := Some t\<rparr>) = (lists st)(h \<mapsto> l)"
    "l = (case lists st h of Some l \<Rightarrow> l | None \<Rightarrow> \<lparr>lhandle = h, req_list = []\<rparr>)" "lhandle l = h"
    by (rule find_or_add_list_ok [OF sched_okD(1) [OF ok]])
  let ?st1 = "st\<lparr>req_sched_table := Some t\<rparr>"
  have ids: "req_list l = ?ids" using l(4) by (simp add: queue_handle split: option.splits)
  have alloc: "\<forall>i \<in> set ?ids. elems ?st1 i \<noteq> None"
  proof
    fix i assume m: "i \<in> set ?ids"
    obtain e where "elems st i = Some e" by (rule placed_alloc [OF sched_okD(2) [OF ok] m])
    then show "elems ?st1 i \<noteq> None" by simp
  qed
  obtain e' ret where e': "(if req_list l = [] then Some (?e\<lparr>state := REQ_SCHEDULED\<rparr>, 1) else sched_behind ?st1 (req_list l) ?e) = Some (e', ret)"
    "op e' = o1" "list_head e' = None" "mode_change e' = False"
    "ret = 1 \<and> state e' = REQ_SCHEDULED \<and> (?ids \<noteq> [] \<longrightarrow> state (el st (last ?ids)) = REQ_SCHEDULED) \<and> (\<forall>i \<in> set ?ids. compatible (el st i) e') \<or>
     ret = 0 \<and> state e' = REQ_QUEUED \<and> ?ids \<noteq> []"
  proof (cases "?ids = []")
    case False
    have nl: "list_head ?e = None" by simp
    obtain e' ret where "sched_behind ?st1 ?ids ?e = Some (e', ret)" "op e' = op ?e" "list_head e' = None" "mode_change e' = mode_change ?e"
      "ret = 1 \<and> state e' = REQ_SCHEDULED \<and> state (el ?st1 (last ?ids)) = REQ_SCHEDULED \<and> (\<forall>i \<in> set ?ids. compatible (el ?st1 i) e') \<or>
       ret = 0 \<and> state e' = REQ_QUEUED"
      by (rule sched_behind_spec [OF False alloc nl])
    then show thesis using False ids by (intro that [of e' ret]) auto
  qed (use ids that in \<open>auto simp: new_element_def\<close>)
  let ?l' = "l\<lparr>req_list := req_list l @ [new]\<rparr>"
  have "lists ?st1 (lhandle ?l') \<noteq> None" using l(3,5) by simp
  then obtain t' where t': "store_list ?st1 ?l' = Some (?st1\<lparr>req_sched_table := Some t'\<rparr>)"
      "lists_ok (?st1\<lparr>req_sched_table := Some t'\<rparr>)"
      "lists (?st1\<lparr>req_sched_table := Some t'\<rparr>) = (lists ?st1)(lhandle ?l' \<mapsto> ?l')"
    by (rule store_list_ok [OF l(2)])
  let ?n = "e'\<lparr>list_head := Some h\<rparr>"
  define st' where "st' = (set_elem (?st1\<lparr>req_sched_table := Some t'\<rparr>) new ?n)\<lparr>sched_count := sched_count st + 1\<rparr>"
  have run: "PINT_req_sched_post st new o1 h acc policy uptr = Some (st', ret, Some new)"
    using assms(4,5) b l(1) e'(1) t'(1)
    by (auto simp: PINT_req_sched_post_def refused_def st'_def)
  have lists': "lists st' = (lists st)(h \<mapsto> ?l')"
    using t'(3) l(3,5) lists_cong [of st' "?st1\<lparr>req_sched_table := Some t'\<rparr>"] by (simp add: st'_def set_elem_def)
  have elems': "elems st' = (elems st)(new \<mapsto> ?n)" by (simp add: st'_def set_elem_def)
  have queue': "queue st' = (queue st)(Handle_Queue h := ?ids @ [new])"
  proof
    fix p show "queue st' p = ((queue st)(Handle_Queue h := ?ids @ [new])) p"
      using lists' ids by (cases p) (simp_all add: queue_handle st'_def set_elem_def)
  qed
  have fresh: "new \<notin> set ?ids" using placed_queue [OF sched_okD(2) [OF ok]] assms(2) by (simp add: places_def)
  have "sched_ok st'"
  proof (rule sched_ok_add [OF ok assms(2,3) elems'])
    show "lists_ok st'" using t'(2) lists_ok_cong [of st' "?st1\<lparr>req_sched_table := Some t'\<rparr>"] by (simp add: st'_def set_elem_def)
    show "req_list l2 \<noteq> []" if "lists st' h2 = Some l2" for h2 l2
      using that lists' ok by (auto simp: sched_ok_def split: if_splits)
    show "distinct (queue st' (Handle_Queue h))" using queue' fresh sched_okD(2) [OF ok] by (simp add: placed_def)
    have "run_ok st' (?ids @ [new])"
      by (rule run_ok_snoc [OF sched_okD(5) [OF ok] fresh elems']) (use e'(5) in \<open>auto simp: compatible_def is_dirent_def\<close>)
    then show "run_ok st' (queue st' (Handle_Queue h))" using queue' by simp
  qed (use e'(5) queue' in \<open>auto simp: st'_def set_elem_def place_of_def\<close>)
  then show thesis
    using that [OF run _ elems' _ _ _ queue'] e'(2,5) by (auto simp: place_of_def st'_def set_elem_def)
qed

lemma change_mode_ok:
  assumes "sched_ok st" "elems st new = None" "new \<noteq> 0"
  obtains st' ret e where "PINT_req_sched_change_mode st new md uptr = Some (st', ret)" "sched_ok st'"
    "elems st' = (elems st)(new \<mapsto> e)" "place_of e = Mode_Queue" "mode e = md"
    "ret = 1 \<and> state e = REQ_SCHEDULED \<and> current_mode st' = md \<or> ret = 0 \<and> state e = REQ_QUEUED \<and> current_mode st' = current_mode st"
    "queue st' = (queue st)(Mode_Queue := mode_queue st @ [new])" "ready_queue st' = ready_queue st"
    "ret = 1 \<longleftrightarrow> mode_queue st = [] \<and> (md = PVFS_SERVER_NORMAL_MODE \<or> sched_count st = 0)"
proof -
  note ok = assms(1)
  let ?go = "mode_queue st = [] \<and> (md = PVFS_SERVER_NORMAL_MODE \<or> sched_count st = 0)"
  define e where "e = new_element\<lparr>user_ptr := uptr, state := if ?go then REQ_SCHEDULED else REQ_QUEUED, mode_change := True, mode := md\<rparr>"
  define st' where "st' = (set_elem st new e)\<lparr>mode_queue := mode_queue st @ [new], current_mode := if ?go then md else current_mode st\<rparr>"
  have "sched_count st \<ge> 0" using sched_okD(2) [OF ok] by (simp add: placed_def)
  then have run: "PINT_req_sched_change_mode st new md uptr = Some (st', if ?go then 1 else 0)"
    by (cases st; cases md) (auto simp: PINT_req_sched_change_mode_def st'_def e_def set_elem_def Let_def)
  have elems': "elems st' = (elems st)(new \<mapsto> e)" by (simp add: st'_def set_elem_def)
  have pl: "place_of e = Mode_Queue" by (simp add: e_def place_of_def new_element_def)
  have tab: "req_sched_table st' = req_sched_table st" by (simp add: st'_def set_elem_def)
  have queue': "queue st' = (queue st)(Mode_Queue := mode_queue st @ [new])"
  proof
    fix p show "queue st' p = ((queue st)(Mode_Queue := mode_queue st @ [new])) p"
      using lists_cong [OF tab] by (cases p) (simp_all add: queue_handle st'_def set_elem_def)
  qed
  have fresh: "new \<notin> set (queue st Mode_Queue)"
    using placed_queue [OF sched_okD(2) [OF ok], of new Mode_Queue] assms(2) by (simp add: places_def)
  have dq: "distinct (queue st Mode_Queue)" using sched_okD(2) [OF ok] unfolding placed_def by blast
  have "sched_ok st'"
    by (rule sched_ok_add [OF ok assms(2,3) elems' pl])
      (use ok queue' fresh dq lists_ok_cong [OF tab] lists_cong [OF tab] in \<open>auto simp: sched_ok_def e_def st'_def set_elem_def\<close>)
  then show thesis
    by (rule that [OF run _ elems' pl _ _ queue']) (auto simp: e_def st'_def set_elem_def)
qed

lemma later_order: "\<not> later a b \<Longrightarrow> \<not> later b c \<Longrightarrow> \<not> later a c" "later a b \<Longrightarrow> \<not> later b a"
  by (auto simp: later_def)

lemma insert_timer_spec:
  assumes "\<forall>i \<in> set q. elems st i \<noteq> None" "sorted_wrt (\<lambda>i j. \<not> later (tv (el st i)) (tv (el st j))) q"
  obtains as bs where "insert_timer st new t q = Some (as @ new # bs)" "q = as @ bs"
    "\<forall>i \<in> set as. \<not> later (tv (el st i)) t" "\<forall>i \<in> set bs. later (tv (el st i)) t"
  using assms
proof (induction q arbitrary: thesis)
  case (Cons i q)
  obtain e where e: "elems st i = Some e" using Cons.prems(2) by auto
  show ?case
  proof (cases "later (tv e) t")
    case True
    have "later (tv (el st j)) t" if "j \<in> set q" for j
      using Cons.prems(3) that True e later_order(1) [of "tv e" "tv (el st j)" t] by auto
    then show ?thesis using True e by (intro Cons.prems(1) [of "[]" "i # q"]) auto
  next
    case False
    obtain as bs where "insert_timer st new t q = Some (as @ new # bs)" "q = as @ bs"
      "\<forall>i \<in> set as. \<not> later (tv (el st i)) t" "\<forall>i \<in> set bs. later (tv (el st i)) t"
      using Cons.IH Cons.prems(2,3) by auto
    then show ?thesis using False e by (intro Cons.prems(1) [of "i # as" bs]) auto
  qed
qed simp

lemma post_timer_ok:
  assumes "sched_ok st" "elems st new = None" "new \<noteq> 0" "1 \<le> msecs"
  obtains st' e as bs where "PINT_req_sched_post_timer st new now msecs uptr = Some (st', 0, Some new)" "sched_ok st'"
    "elems st' = (elems st)(new \<mapsto> e)" "place_of e = Timer_Queue" "tv e = timer_time now msecs" "user_ptr e = uptr"
    "timer_queue st = as @ bs" "timer_queue st' = as @ new # bs" "ready_queue st' = ready_queue st"
    "\<forall>i \<in> set as. \<not> later (tv (el st i)) (tv e)" "\<forall>i \<in> set bs. later (tv (el st i)) (tv e)"
proof -
  note ok = assms(1)
  define e where "e = new_element\<lparr>user_ptr := uptr, state := REQ_TIMING, handle := 0, tv := timer_time now msecs,
      list_head := None, mode_change := False\<rparr>"
  have alloc: "\<forall>i \<in> set (timer_queue st). elems st i \<noteq> None"
    using placed_queue [OF sched_okD(2) [OF ok], of _ Timer_Queue] by (auto simp: places_Some)
  have sorted: "sorted_wrt (\<lambda>i j. \<not> later (tv (el st i)) (tv (el st j))) (timer_queue st)"
    using sched_okD(4) [OF ok] by (simp add: timers_ok_def)
  obtain as bs where q: "insert_timer st new (tv e) (timer_queue st) = Some (as @ new # bs)" "timer_queue st = as @ bs"
      "\<forall>i \<in> set as. \<not> later (tv (el st i)) (tv e)" "\<forall>i \<in> set bs. later (tv (el st i)) (tv e)"
    by (rule insert_timer_spec [OF alloc sorted])
  define st' where "st' = (set_elem st new e)\<lparr>timer_queue := as @ new # bs\<rparr>"
  have "PINT_req_sched_post_timer st new now msecs uptr =
      map_option (\<lambda>q. ((set_elem st new e)\<lparr>timer_queue := q\<rparr>, 0, Some new)) (insert_timer st new (tv e) (timer_queue st))"
    using assms(4) unfolding PINT_req_sched_post_timer_def Let_def e_def by simp
  then have run: "PINT_req_sched_post_timer st new now msecs uptr = Some (st', 0, Some new)"
    by (simp add: q(1) st'_def)
  have elems': "elems st' = (elems st)(new \<mapsto> e)" by (simp add: st'_def set_elem_def)
  have pl: "place_of e = Timer_Queue" by (simp add: e_def place_of_def)
  have tab: "req_sched_table st' = req_sched_table st" by (simp add: st'_def set_elem_def)
  have queue': "queue st' = (queue st)(Timer_Queue := as @ new # bs)"
  proof
    fix p show "queue st' p = ((queue st)(Timer_Queue := as @ new # bs)) p"
      using lists_cong [OF tab] by (cases p) (simp_all add: queue_handle st'_def set_elem_def)
  qed
  have fresh: "new \<notin> set (queue st Timer_Queue)"
    using placed_queue [OF sched_okD(2) [OF ok], of new Timer_Queue] assms(2) by (simp add: places_def)
  have dq: "distinct (queue st Timer_Queue)" using sched_okD(2) [OF ok] unfolding placed_def by blast
  have "sched_ok st'"
  proof (rule sched_ok_add [OF ok assms(2,3) elems' pl])
    have same: "el st' i = el st i" if "i \<in> set (as @ bs)" for i using fresh q(2) that elems' by auto
    have "sorted_wrt (\<lambda>i j. \<not> later (tv (el st' i)) (tv (el st' j))) (as @ bs)"
      using sorted unfolding q(2) by (rule sorted_wrt_mono_rel [rotated]) (simp add: same)
    moreover have "el st' new = e" using elems' by simp
    ultimately show "sorted_wrt (\<lambda>i j. \<not> later (tv (el st' i)) (tv (el st' j))) (timer_queue st')"
      using q(3,4) same later_order(2) by (auto simp: st'_def sorted_wrt_append)
  qed (use ok queue' fresh dq q(2) lists_ok_cong [OF tab] lists_cong [OF tab] in \<open>auto simp: sched_ok_def e_def st'_def set_elem_def\<close>)
  then show thesis
    by (rule that [OF run _ elems' pl _ _ q(2) _ _ q(3,4)]) (simp_all add: st'_def set_elem_def e_def)
qed

end
