(* ===== verification/Req_Sched_Remove.thy ===== *)
theory Req_Sched_Remove
  imports Req_Sched_Inv
begin

text \<open>
  What the operations do that remove or fetch elements of the request scheduler: releasing and
  unposting, with the requests they make ready, and the three ways of testing for completion. Each
  keeps the invariant.
\<close>

section \<open>Removing\<close>

text \<open>An element leaves its queue, and elements behind it become ready.\<close>

lemma sched_ok_remove:
  assumes ok: "sched_ok st" and i: "elems st i = Some e"
    and elems': "elems st' = (elems (wake st ks))(i := None)"
    and queues: "\<And>q. queue st' q = remove1 i (queue st q)" "ready_queue st' = remove1 i (ready_queue st) @ ks"
    and table: "lists_ok st'" "\<And>h l. lists st' h = Some l \<Longrightarrow> req_list l \<noteq> []"
    and count: "sched_count st' = sched_count st - (case place_of e of Handle_Queue h \<Rightarrow> 1 | _ \<Rightarrow> 0)"
    and ks: "distinct ks" "\<forall>k \<in> set ks. k \<in> set (queue st' (place_of e)) \<and> state (el st k) = REQ_QUEUED"
      "ks \<noteq> [] \<Longrightarrow> list_head e \<noteq> None"
    and run: "\<And>h. place_of e = Handle_Queue h \<Longrightarrow> run_ok st' (queue st' (Handle_Queue h))"
  shows "sched_ok st'"
  unfolding sched_ok_def
proof (intro conjI allI impI)
  note pl = sched_okD(2) [OF ok]
  have dq: "distinct (queue st q)" for q using pl by (simp add: placed_def)
  have places': "places st' = (places st)(i := None)"
    using places_wake [of st ks] unfolding places_def elems' fun_eq_iff by auto
  have inq: "k \<in> set (queue st (place_of e))" "k \<noteq> i" "places st k = Some (place_of e)" if "k \<in> set ks" for k
    using ks(2) that dq [of "place_of e"] placed_queue [OF pl, of k "place_of e"] unfolding queues(1) by auto
  show "lists_ok st'" by (rule table(1))
  show "req_list l \<noteq> []" if "lists st' h = Some l" for h l using table(2) that by blast
  show "placed st'"
    by (rule placed_remove [OF pl _ places' queues(1) count]) (simp add: places_def i)
  note rdy = sched_okD(3) [OF ok]
  have nr: "k \<notin> set (ready_queue st)" if "k \<in> set ks" for k
    using ks(2) that rdy by (auto simp: ready_ok_def)
  have "j \<in> set (ready_queue st') \<longleftrightarrow> (\<exists>e. elems st' j = Some e \<and> state e = REQ_READY_TO_SCHEDULE)" for j
  proof (cases "j \<in> set ks")
    case True
    then have "\<exists>e'. elems st' j = Some e' \<and> state e' = REQ_READY_TO_SCHEDULE"
      using inq(2,3) [OF True] by (auto simp: places_Some elems')
    then show ?thesis using True by (simp add: queues(2))
  next
    case False
    then show ?thesis using rdy by (auto simp: queues(2) elems' ready_ok_def)
  qed
  moreover have "distinct (ready_queue st')"
    using rdy ks(1) nr set_remove1_subset [of i "ready_queue st"] by (auto simp: ready_ok_def queues(2))
  ultimately show "ready_ok st'" by (auto simp: ready_ok_def)
  have same: "elems st' j = elems st j" if "j \<noteq> i" "j \<notin> set ks" for j using that by (simp add: elems')
  have timing: "state e' \<noteq> REQ_TIMING" if "elems st k = Some e'" "k \<in> set ks" for k e' using that ks(2) by auto
  have notimer: "j \<notin> set ks" if "places st j = Some Timer_Queue" for j
    using inq(3) [of j] ks(3) that place_of_iff(3) [of e] by fastforce
  show "timers_ok st'"
    unfolding timers_ok_def
  proof (intro conjI allI impI)
    have "sorted_wrt (\<lambda>i j. \<not> later (tv (el st i)) (tv (el st j))) (remove1 i (timer_queue st))"
      using sched_okD(4) [OF ok] dq [of Timer_Queue]
      by (auto simp: timers_ok_def distinct_remove1_removeAll removeAll_filter_not_eq sorted_wrt_filter)
    moreover have "el st' j = el st j" if "j \<in> set (remove1 i (timer_queue st))" for j
    proof -
      have "j \<noteq> i" "places st j = Some Timer_Queue"
        using that dq [of Timer_Queue] placed_queue [OF pl, of j Timer_Queue] by auto
      then show ?thesis using same notimer by simp
    qed
    ultimately show "sorted_wrt (\<lambda>i j. \<not> later (tv (el st' i)) (tv (el st' j))) (timer_queue st')"
      using queues(1) [of Timer_Queue] by (auto elim!: sorted_wrt_mono_rel [rotated])
    fix j e' assume "elems st' j = Some e'"
    then show "state e' = REQ_TIMING \<longleftrightarrow> place_of e' = Timer_Queue"
      using sched_okD(4) [OF ok] notimer [of j]
      by (auto simp: elems' timers_ok_def places_def split: if_splits)
  qed
  show "run_ok st' (queue st' (Handle_Queue h))" for h
  proof (cases "place_of e = Handle_Queue h")
    case False
    then have "i \<notin> set (queue st (Handle_Queue h))" using placed_queue [OF pl] i by (auto simp: places_def)
    then have "queue st' (Handle_Queue h) = queue st (Handle_Queue h)" by (simp add: queues(1) remove1_idem)
    moreover have "elems st' j = elems st j" if "j \<in> set (queue st (Handle_Queue h))" for j
    proof -
      have "places st j = Some (Handle_Queue h)" using that placed_queue [OF pl] by blast
      then have "j \<noteq> i" "j \<notin> set ks" using False inq(3) [of j] i by (auto simp: places_def)
      then show ?thesis by (rule same)
    qed
    ultimately show ?thesis using run_ok_cong [OF sched_okD(5) [OF ok]] by simp
  qed (rule run)
qed

lemma unlink_ok:
  assumes tab: "lists_ok st" and i: "i \<in> set (queue st (place_of e))" "\<And>q. q \<noteq> place_of e \<Longrightarrow> i \<notin> set (queue st q)"
  obtains st' where "unlink_elem st i e = Some st'" "lists_ok st'" "\<And>q. queue st' q = remove1 i (queue st q)"
    "elems st' = elems st" "ready_queue st' = ready_queue st" "sched_count st' = sched_count st"
    "current_mode st' = current_mode st"
    "\<And>h. place_of e = Handle_Queue h \<Longrightarrow> lists st' h \<noteq> None"
    "\<And>h. place_of e \<noteq> Handle_Queue h \<Longrightarrow> lists st' h = lists st h"
proof -
  have other: "remove1 i (queue st q) = queue st q" if "q \<noteq> place_of e" for q
    using i(2) [OF that] by (simp add: remove1_idem)
  show thesis
  proof (cases "list_head e")
    case (Some h)
    then have p: "place_of e = Handle_Queue h" by (simp add: place_of_iff)
    obtain l where l: "lists st h = Some l" using i(1) p by (cases "lists st h") (auto simp: queue_handle)
    let ?l = "l\<lparr>req_list := remove1 i (req_list l)\<rparr>"
    have h: "lhandle ?l = h" using lists_key [OF l] by simp
    then have "lists st (lhandle ?l) \<noteq> None" using l by simp
    then obtain t where t: "store_list st ?l = Some (st\<lparr>req_sched_table := Some t\<rparr>)"
        "lists_ok (st\<lparr>req_sched_table := Some t\<rparr>)" "lists (st\<lparr>req_sched_table := Some t\<rparr>) = (lists st)(lhandle ?l \<mapsto> ?l)"
      by (rule store_list_ok [OF tab])
    have "unlink_elem st i e = Some (st\<lparr>req_sched_table := Some t\<rparr>)"
      using Some l i(1) p t(1) list_of_lists [OF tab, of h] by (simp add: unlink_elem_def qlist_del_def queue_handle)
    moreover have "queue (st\<lparr>req_sched_table := Some t\<rparr>) q = remove1 i (queue st q)" for q
      using other [of q] l h p by (cases q) (auto simp: queue_handle t(3))
    ultimately show thesis using t(2,3) h p by (intro that [of "st\<lparr>req_sched_table := Some t\<rparr>"]) auto
  next
    case None
    show thesis
    proof (cases "mode_change e")
      case True
      then have p: "place_of e = Mode_Queue" using None by (simp add: place_of_iff)
      let ?s = "st\<lparr>mode_queue := remove1 i (mode_queue st)\<rparr>"
      have "queue ?s q = remove1 i (queue st q)" for q
        using other [of q] p lists_cong [of ?s st] by (cases q) (simp_all add: queue_handle)
      then show thesis
        using None True i(1) p tab lists_ok_cong [of ?s st] lists_cong [of ?s st]
        by (intro that [of ?s]) (simp_all add: unlink_elem_def qlist_del_def)
    next
      case False
      then have p: "place_of e = Timer_Queue" using None by (simp add: place_of_iff)
      let ?s = "st\<lparr>timer_queue := remove1 i (timer_queue st)\<rparr>"
      have "queue ?s q = remove1 i (queue st q)" for q
        using other [of q] p lists_cong [of ?s st] by (cases q) (simp_all add: queue_handle)
      then show thesis
        using None False i(1) p tab lists_ok_cong [of ?s st] lists_cong [of ?s st]
        by (intro that [of ?s]) (simp_all add: unlink_elem_def qlist_del_def)
    qed
  qed
qed

text \<open>The elements that become ready when the queue is \<open>ids\<close>.\<close>

definition woken :: "bool \<Rightarrow> req_sched \<Rightarrow> req_sched_id list \<Rightarrow> req_sched_id list" where
  "woken ro st ids =
     (case ids of
        [] \<Rightarrow> []
      | i # js \<Rightarrow>
          if active (el st i) then []
          else if is_io (el st i) then i # takeWhile (\<lambda>j. is_io (el st j)) js
          else if ro \<and> is_readonly (el st i) then i # takeWhile (\<lambda>j. is_readonly (el st j)) js
          else [i])"

definition waiting_run :: "req_sched \<Rightarrow> req_sched_id list \<Rightarrow> bool" where
  "waiting_run st ids \<longleftrightarrow> run_ok st ids \<or> (\<forall>j \<in> set ids. state (el st j) = REQ_QUEUED)"

lemma run_ok_hd: "run_ok st (i # ids) \<Longrightarrow> active (el st i)"
  by (auto simp: run_ok_def run_split_def Cons_eq_append_conv)

lemma run_ok_Nil: "run_ok st []"
  by (simp add: run_ok_def run_split_def)

lemma waiting_run_remove:
  assumes "run_ok st ids" "distinct ids"
  shows "waiting_run st (remove1 i ids)"
proof -
  obtain as ws where s: "ids = as @ ws" "run_split st as ws" using assms(1) by (auto simp: run_ok_def)
  have "distinct as" "i \<in> set as \<Longrightarrow> i \<notin> set ws" using assms(2) s(1) by auto
  then have r: "remove1 i ids = filter (\<lambda>j. j \<noteq> i) as @ filter (\<lambda>j. j \<noteq> i) ws"
    using assms(2) unfolding s(1) by (simp add: distinct_remove1_removeAll removeAll_filter_not_eq conj_commute eq_commute)
  have split: "run_split st (filter (\<lambda>j. j \<noteq> i) as) (filter (\<lambda>j. j \<noteq> i) ws)"
    using s(2) by (auto simp: run_split_def sorted_wrt_filter)
  show ?thesis
  proof (cases "filter (\<lambda>j. j \<noteq> i) as = []")
    case True
    then show ?thesis using split unfolding waiting_run_def r True by (simp add: run_split_def)
  next
    case False
    then show ?thesis using split unfolding waiting_run_def r run_ok_def by blast
  qed
qed

lemma woken_subset:
  assumes "distinct ids" "waiting_run st ids"
  shows "distinct (woken ro st ids)" "\<forall>k \<in> set (woken ro st ids). k \<in> set ids \<and> state (el st k) = REQ_QUEUED"
proof -
  show "distinct (woken ro st ids)"
    using assms(1) by (cases ids) (auto simp: woken_def distinct_takeWhile dest: set_takeWhileD)
  show "\<forall>k \<in> set (woken ro st ids). k \<in> set ids \<and> state (el st k) = REQ_QUEUED"
  proof (cases ids)
    case (Cons j js)
    then show ?thesis using assms(2) run_ok_hd [of st j js]
      by (auto simp: woken_def waiting_run_def dest: set_takeWhileD)
  qed (simp add: woken_def)
qed

lemma sorted_wrt_all: "distinct xs \<Longrightarrow> (\<forall>a \<in> set xs. \<forall>b \<in> set xs. a \<noteq> b \<longrightarrow> P a b) \<Longrightarrow> sorted_wrt P xs"
  by (induction xs) auto

lemma takeWhile_drop: "takeWhile P xs @ drop (length (takeWhile P xs)) xs = xs"
  by (metis dropWhile_eq_drop takeWhile_dropWhile_id)

lemma woken_run:
  assumes "distinct ids" "waiting_run st ids" "\<forall>j \<in> set ids. elems st j \<noteq> None"
  shows "run_ok (wake st (woken ro st ids)) ids"
proof (cases "run_ok st ids")
  case True
  then have "woken ro st ids = []" using run_ok_hd by (cases ids) (auto simp: woken_def)
  then show ?thesis using True by simp
next
  case False
  then obtain i js where ids: "ids = i # js" using run_ok_Nil by (cases ids) auto
  have q: "state (el st j) = REQ_QUEUED" if "j \<in> set ids" for j using assms(2) False that by (auto simp: waiting_run_def)
  then have na: "\<not> active (el st i)" using ids by (simp add: active_def)
  let ?as = "woken ro st ids" and ?ws = "drop (length (woken ro st ids)) ids"
  have app: "ids = ?as @ ?ws" "?as \<noteq> []"
    using na unfolding ids by (auto simp: woken_def takeWhile_drop)
  have dist: "distinct ?as" "set ?as \<inter> set ?ws = {}" using assms(1) app(1) by (metis distinct_append)+
  have sub: "set ?as \<subseteq> set ids" "set ?ws \<subseteq> set ids" using app(1) by (metis set_append Un_upper1 Un_upper2)+
  have woken: "el (wake st ?as) a = (el st a)\<lparr>state := REQ_READY_TO_SCHEDULE\<rparr>" if "a \<in> set ?as" for a
  proof -
    have "elems st a \<noteq> None" using assms(3) sub(1) that by blast
    then show ?thesis using that by auto
  qed
  have "compatible (el st a) (el st b)" if "a \<in> set ?as" "b \<in> set ?as" "a \<noteq> b" for a b
    using that na unfolding ids by (auto simp: woken_def compatible_def split: if_splits dest!: set_takeWhileD)
  then have "compatible (el (wake st ?as) a) (el (wake st ?as) b)" if "a \<in> set ?as" "b \<in> set ?as" "a \<noteq> b" for a b
    using that unfolding woken [OF that(1)] woken [OF that(2)] by (simp add: compatible_def is_dirent_def)
  then have "sorted_wrt (\<lambda>a b. compatible (el (wake st ?as) a) (el (wake st ?as) b)) ?as"
    by (intro sorted_wrt_all [OF dist(1)]) blast
  moreover have "active (el (wake st ?as) a)" if "a \<in> set ?as" for a
    unfolding woken [OF that] by (simp add: active_def)
  moreover have "state (el (wake st ?as) a) = REQ_QUEUED" if "a \<in> set ?ws" for a
    using that dist(2) sub(2) q by auto
  ultimately have "run_split (wake st ?as) ?as ?ws"
    unfolding run_split_def by blast
  then show ?thesis using app unfolding run_ok_def by metis
qed

lemma next_wake:
  assumes "distinct ids" "ids \<noteq> []" "waiting_run st ids" "\<forall>j \<in> set ids. elems st j \<noteq> None"
    "\<forall>j \<in> set (ready_queue st). state (el st j) = REQ_READY_TO_SCHEDULE"
  shows "release_next st ids = Some (wake st (woken True st ids))"
    and "unpost_next st ids = Some (wake st (woken False st ids))"
proof -
  obtain i js e where ids: "ids = i # js" "elems st i = Some e" using assms(2,4) by (cases ids) auto
  have "release_next st ids = Some (wake st (woken True st ids)) \<and> unpost_next st ids = Some (wake st (woken False st ids))"
  proof (cases "run_ok st ids")
    case True
    then have "active e" using run_ok_hd ids by fastforce
    then show ?thesis unfolding ids(1) by (auto simp: release_next_def unpost_next_def woken_def active_def ids(2))
  next
    case False
    have q: "state (el st j) = REQ_QUEUED" "j \<notin> set (ready_queue st)" if "j \<in> set ids" for j
      using assms(3,5) False that by (auto simp: waiting_run_def)
    have na: "\<not> active e" "state e \<noteq> REQ_READY_TO_SCHEDULE" "state e \<noteq> REQ_SCHEDULED"
      using q(1) [of i] ids by (simp_all add: active_def)
    have mk: "make_ready st i e = Some (wake st [i])" using q(2) [of i] ids by (intro make_ready_wake) simp_all
    have "ready_while P b (wake st [i]) js = Some (wake (wake st [i]) (takeWhile (\<lambda>j. P (el (wake st [i]) j)) js))" for P b
    proof (rule ready_while_wake)
      show "distinct js" using assms(1) ids(1) by simp
      show "\<exists>e. elems (wake st [i]) j = Some e \<and> state e = REQ_QUEUED" if "j \<in> set js" for j
        using that q(1) [of j] assms(1,4) ids(1) by auto
      show "set js \<inter> set (ready_queue (wake st [i])) = {}" using q(2) assms(1) ids(1) by auto
    qed
    moreover have "takeWhile (\<lambda>j. P (el (wake st [i]) j)) js = takeWhile (\<lambda>j. P (el st j)) js" for P
      using assms(1) ids(1) by (intro takeWhile_cong) auto
    moreover have "i \<notin> set (takeWhile P js)" for P using assms(1) ids(1) by (auto dest: set_takeWhileD)
    ultimately have rw: "ready_while P b (wake st [i]) js = Some (wake st (i # takeWhile (\<lambda>j. P (el st j)) js))" for P b
      by (simp add: wake_Cons)
    show ?thesis
      unfolding ids(1) by (simp add: release_next_def unpost_next_def woken_def ids(2) na mk rw)
  qed
  then show "release_next st ids = Some (wake st (woken True st ids))"
    and "unpost_next st ids = Some (wake st (woken False st ids))" by simp_all
qed

text \<open>The list of the handle after an element has left it: the table forgets it when it is empty.\<close>

lemma settle_ok:
  assumes "lists_ok st" "lists st h = Some l" "\<And>k l. k \<noteq> h \<Longrightarrow> lists st k = Some l \<Longrightarrow> req_list l \<noteq> []"
    "req_list l \<noteq> [] \<Longrightarrow> r = Some (wake st ks)" "req_list l = [] \<Longrightarrow> ks = []"
  obtains st' where "(if req_list l = [] then drop_list st h else r) = Some st'" "lists_ok st'"
    "\<And>k l. lists st' k = Some l \<Longrightarrow> req_list l \<noteq> []" "queue st' = queue st" "elems st' = elems (wake st ks)"
    "ready_queue st' = ready_queue st @ ks" "sched_count st' = sched_count st" "current_mode st' = current_mode st"
proof (cases "req_list l = []")
  case True
  obtain t where t: "drop_list st h = Some (st\<lparr>req_sched_table := Some t\<rparr>)"
    "lists_ok (st\<lparr>req_sched_table := Some t\<rparr>)" "lists (st\<lparr>req_sched_table := Some t\<rparr>) = (lists st)(h := None)"
    by (rule drop_list_ok [OF assms(1)])
  have "queue (st\<lparr>req_sched_table := Some t\<rparr>) p = queue st p" for p
    using assms(2) True by (cases p) (simp_all add: queue_handle t(3))
  then show thesis
    using t True assms(3,5) by (intro that [of "st\<lparr>req_sched_table := Some t\<rparr>"]) (auto split: if_splits)
next
  case False
  have "req_list l' \<noteq> []" if "lists st k = Some l'" for k l' using assms(2,3) False that by (cases "k = h") auto
  then show thesis
    using False assms(1,4) lists_cong [of "wake st ks" st] lists_ok_cong [of "wake st ks" st] queue_cong [of "wake st ks" st]
    by (intro that [of "wake st ks"]) simp_all
qed

text \<open>What becomes ready when the element leaves its queue.\<close>

definition followers :: "bool \<Rightarrow> req_sched \<Rightarrow> req_sched_id \<Rightarrow> req_sched_id list" where
  "followers ro st i = (case list_head (el st i) of None \<Rightarrow> [] | Some h \<Rightarrow> woken ro st (remove1 i (queue st (Handle_Queue h))))"

lemma woken_cong: "elems st' = elems st \<Longrightarrow> woken ro st' = woken ro st"
  unfolding woken_def by (erule ssubst) (rule refl)

lemma remove_core:
  assumes ok: "sched_ok st" and i: "elems st i = Some e"
    and st1: "st1 = st\<lparr>ready_queue := remove1 i (ready_queue st)\<rparr>"
    and nxt: "\<And>s ids. elems s = elems st \<Longrightarrow> ready_queue s = ready_queue st1 \<Longrightarrow> ids = remove1 i (queue st (place_of e))
      \<Longrightarrow> ids \<noteq> [] \<Longrightarrow> list_head e \<noteq> None \<Longrightarrow> nxt s ids = Some (wake s (woken ro s ids))"
  obtains st2 st3 where "unlink_elem st1 i e = Some st2"
    "(case list_head e of None \<Rightarrow> Some st2
      | Some h \<Rightarrow> (case list_of st2 h of
          Some (Some l) \<Rightarrow> map_option (\<lambda>st'. st'\<lparr>sched_count := sched_count st' - 1\<rparr>)
            (if req_list l = [] then drop_list st2 h else nxt st2 (req_list l))
        | _ \<Rightarrow> None)) = Some st3"
    "sched_ok (free_elem st3 i)" "elems (free_elem st3 i) = (elems (wake st (followers ro st i)))(i := None)"
    "\<And>q. queue (free_elem st3 i) q = remove1 i (queue st q)"
    "ready_queue (free_elem st3 i) = remove1 i (ready_queue st) @ followers ro st i"
    "sched_count (free_elem st3 i) = sched_count st - (case place_of e of Handle_Queue h \<Rightarrow> 1 | _ \<Rightarrow> 0)"
    "current_mode (free_elem st3 i) = current_mode st"
proof -
  note pl = sched_okD(2) [OF ok]
  have q1: "queue st1 = queue st" and tab1: "lists_ok st1" and l1: "lists st1 = lists st"
    using queue_cong [of st1 st] lists_ok_cong [of st1 st] lists_cong [of st1 st] sched_okD(1) [OF ok] by (simp_all add: st1)
  have "i \<in> set (queue st1 (place_of e))" "q \<noteq> place_of e \<Longrightarrow> i \<notin> set (queue st1 q)" for q
    using placed_queue [OF pl] i by (auto simp: q1 places_def)
  then obtain st2 where st2: "unlink_elem st1 i e = Some st2" "lists_ok st2" "\<And>q. queue st2 q = remove1 i (queue st1 q)"
    "elems st2 = elems st1" "ready_queue st2 = ready_queue st1" "sched_count st2 = sched_count st1"
    "current_mode st2 = current_mode st1" "\<And>h. place_of e = Handle_Queue h \<Longrightarrow> lists st2 h \<noteq> None"
    "\<And>h. place_of e \<noteq> Handle_Queue h \<Longrightarrow> lists st2 h = lists st1 h"
    by (rule unlink_ok [OF tab1]) blast+
  have el2: "elems st2 = elems st" and same2: "ready_queue st2 = remove1 i (ready_queue st)"
    "sched_count st2 = sched_count st" "current_mode st2 = current_mode st" "\<And>q. queue st2 q = remove1 i (queue st q)"
    using st2(3-7) unfolding q1 by (simp_all add: st1)
  have ne: "req_list l \<noteq> []" if "lists st2 h = Some l" "place_of e \<noteq> Handle_Queue h" for h l
    using ok that st2(9) by (auto simp: sched_ok_def l1)
  show thesis
  proof (cases "list_head e")
    case None
    then have p: "place_of e \<noteq> Handle_Queue h" for h by (simp add: place_of_iff)
    have fr: "queue (free_elem st2 i) = queue st2" "lists_ok (free_elem st2 i)" "lists (free_elem st2 i) = lists st2"
      using queue_cong [of "free_elem st2 i" st2] lists_ok_cong [of "free_elem st2 i" st2] lists_cong [of "free_elem st2 i" st2] st2(2)
      by (simp_all add: free_elem_def)
    have f: "followers ro st i = []" using None i by (simp add: followers_def)
    have c: "(case place_of e of Handle_Queue h \<Rightarrow> 1 | _ \<Rightarrow> 0) = (0::int)" using p by (cases "place_of e") auto
    have "sched_ok (free_elem st2 i)"
      by (rule sched_ok_remove [OF ok i, where ks = "[]"])
        (use fr st2(2) el2 same2 ne p c in \<open>auto simp: free_elem_def\<close>)
    then show thesis
      using None fr f c st2(1) el2 same2 by (intro that [of st2 st2]) (auto simp: free_elem_def)
  next
    case (Some h)
    then have p: "place_of e = Handle_Queue h" by (simp add: place_of_iff)
    obtain l where l: "lists st2 h = Some l" using st2(8) [OF p] by blast
    let ?ids = "remove1 i (queue st (Handle_Queue h))"
    have ids: "req_list l = ?ids" using st2(3) [of "Handle_Queue h"] l by (simp add: queue_handle q1)
    have f: "followers ro st i = woken ro st ?ids" using Some i by (simp add: followers_def)
    have wk: "woken ro st2 = woken ro st" using el2 by (rule woken_cong)
    obtain st' where st': "(if req_list l = [] then drop_list st2 h else nxt st2 (req_list l)) = Some st'" "lists_ok st'"
      "\<And>k l. lists st' k = Some l \<Longrightarrow> req_list l \<noteq> []" "queue st' = queue st2" "elems st' = elems (wake st2 (followers ro st i))"
      "ready_queue st' = ready_queue st2 @ followers ro st i" "sched_count st' = sched_count st2" "current_mode st' = current_mode st2"
    proof (rule settle_ok [OF st2(2) l])
      show "nxt st2 (req_list l) = Some (wake st2 (followers ro st i))" if "req_list l \<noteq> []"
        using nxt [OF el2 st2(5), of ?ids] that Some p unfolding ids f by (simp add: wk)
      show "followers ro st i = []" if "req_list l = []" using that unfolding f ids by (simp add: woken_def)
      show "req_list l' \<noteq> []" if "k \<noteq> h" "lists st2 k = Some l'" for k l' using ne that p by auto
    qed blast
    let ?st3 = "st'\<lparr>sched_count := sched_count st' - 1\<rparr>"
    have fr: "queue (free_elem ?st3 i) = queue st'" "lists_ok (free_elem ?st3 i)" "lists (free_elem ?st3 i) = lists st'"
      using queue_cong [of "free_elem ?st3 i" st'] lists_ok_cong [of "free_elem ?st3 i" st']
        lists_cong [of "free_elem ?st3 i" st'] st'(2)
      by (simp_all add: free_elem_def)
    have el3: "elems (free_elem ?st3 i) = (elems (wake st (followers ro st i)))(i := None)"
      by (simp add: free_elem_def st'(5) fun_eq_iff el2)
    have dq: "distinct (queue st (Handle_Queue h))" using pl by (simp add: placed_def)
    have wr: "waiting_run st ?ids" by (rule waiting_run_remove [OF sched_okD(5) [OF ok] dq])
    have alloc: "\<forall>j \<in> set ?ids. elems st j \<noteq> None"
      using placed_queue [OF pl, of _ "Handle_Queue h"] notin_set_remove1 by (fastforce simp: places_Some)
    have "run_ok (wake st (followers ro st i)) ?ids"
      unfolding f by (rule woken_run [OF distinct_remove1 [OF dq] wr alloc])
    then have run: "run_ok (free_elem ?st3 i) ?ids"
      by (rule run_ok_cong) (use dq in \<open>auto simp: el3\<close>)
    have "sched_ok (free_elem ?st3 i)"
      by (rule sched_ok_remove [OF ok i el3])
        (use fr same2 st' p run woken_subset [OF distinct_remove1 [OF dq] wr, of ro] Some f
          in \<open>auto simp: free_elem_def\<close>)
    then show thesis
      using that [OF st2(1), of ?st3] Some p l st' fr el3 list_of_lists [OF st2(2), of h] same2
      by (auto simp: free_elem_def)
  qed
qed

lemma timing_iff: "sched_ok st \<Longrightarrow> elems st i = Some e \<Longrightarrow> state e = REQ_TIMING \<longleftrightarrow> place_of e = Timer_Queue"
  using sched_okD(4) by (auto simp: timers_ok_def)

text \<open>An element that is active, or changes the mode, becomes ready or scheduled.\<close>

lemma sched_ok_set_state:
  assumes ok: "sched_ok st" and i: "elems st i = Some e" "active e \<or> place_of e = Mode_Queue"
    and s: "s = REQ_SCHEDULED \<or> s = REQ_READY_TO_SCHEDULE"
    and st': "elems st' = (elems st)(i \<mapsto> e\<lparr>state := s\<rparr>)" "queue st' = queue st" "lists_ok st'" "lists st' = lists st"
      "sched_count st' = sched_count st"
    and ready: "ready_queue st' = remove1 i (ready_queue st) @ (if s = REQ_READY_TO_SCHEDULE then [i] else [])"
  shows "sched_ok st'"
  unfolding sched_ok_def
proof (intro conjI allI impI)
  note pl = sched_okD(2) [OF ok] and rdy = sched_okD(3) [OF ok] and tim = sched_okD(4) [OF ok]
  have places': "places st' = places st" using i(1) by (simp add: places_def st'(1) fun_eq_iff)
  show "lists_ok st'" by (rule st'(3))
  show "req_list l \<noteq> []" if "lists st' h = Some l" for h l using ok that by (auto simp: sched_ok_def st'(4))
  show "placed st'" by (rule placed_cong [OF pl places' st'(2,5)])
  show "ready_ok st'" using rdy s by (auto simp: ready_ok_def ready st'(1))
  have nt: "place_of e \<noteq> Timer_Queue" using timing_iff [OF ok i(1)] i(2) by (auto simp: active_def)
  have tq: "timer_queue st' = timer_queue st" using fun_cong [OF st'(2), of Timer_Queue] by simp
  have "el st' j = el st j" if "j \<in> set (timer_queue st)" for j
    using placed_queue [OF pl, of j Timer_Queue] that nt i(1) by (auto simp: st'(1) places_def)
  moreover have "sorted_wrt (\<lambda>i j. \<not> later (tv (el st i)) (tv (el st j))) (timer_queue st)" using tim by (simp add: timers_ok_def)
  ultimately have "sorted_wrt (\<lambda>i j. \<not> later (tv (el st' i)) (tv (el st' j))) (timer_queue st')"
    unfolding tq by (auto elim!: sorted_wrt_mono_rel [rotated])
  then show "timers_ok st'" using tim nt i(1) s by (auto simp: timers_ok_def st'(1))
  show "run_ok st' (queue st' (Handle_Queue h))" for h
  proof (cases "place_of e = Handle_Queue h")
    case True
    then have act: "active e" using i(2) by simp
    obtain as ws where r: "queue st (Handle_Queue h) = as @ ws" "queue st (Handle_Queue h) \<noteq> [] \<longrightarrow> as \<noteq> []" "run_split st as ws"
      using sched_okD(5) [OF ok, of h] by (auto simp: run_ok_def)
    have "i \<notin> set ws" using r(3) act i(1) by (auto simp: run_split_def active_def)
    moreover have "compatible (el st' a) (el st' b) = compatible (el st a) (el st b)" for a b
      using i(1) by (auto simp: st'(1) compatible_def is_dirent_def)
    moreover have "active (el st' a)" if "active (el st a)" for a using that s by (auto simp: st'(1) active_def)
    ultimately have "run_split st' as ws" using r(3) by (auto simp: run_split_def st'(1))
    then show ?thesis using r(1,2) unfolding run_ok_def st'(2) by blast
  next
    case False
    have "elems st' j = elems st j" if "j \<in> set (queue st (Handle_Queue h))" for j
      using placed_queue [OF pl, of j "Handle_Queue h"] that False i(1) by (auto simp: st'(1) places_def)
    then show ?thesis using run_ok_cong [OF sched_okD(5) [OF ok]] unfolding st'(2) by blast
  qed
qed

text \<open>The change of the mode that becomes ready when no request is left.\<close>

definition next_mode :: "req_sched \<Rightarrow> req_sched_id list" where
  "next_mode st = (if sched_count st = 0 then take 1 (mode_queue st) else [])"

lemma schedule_mode_change_ok:
  assumes "sched_ok st"
  shows "PINT_req_sched_schedule_mode_change st =
      (if set (next_mode st) \<inter> set (ready_queue st) = {} then Some (wake st (next_mode st)) else None)"
    and "set (next_mode st) \<inter> set (ready_queue st) = {} \<Longrightarrow> sched_ok (wake st (next_mode st))"
proof -
  have m: "\<exists>e. elems st k = Some e \<and> place_of e = Mode_Queue" if "mode_queue st = k # q" for k q
    using placed_queue [OF sched_okD(2) [OF assms], of k Mode_Queue] that by (simp add: places_Some)
  show "PINT_req_sched_schedule_mode_change st =
      (if set (next_mode st) \<inter> set (ready_queue st) = {} then Some (wake st (next_mode st)) else None)"
  proof (cases "mode_queue st")
    case (Cons k q)
    obtain e where "elems st k = Some e" using m Cons by blast
    then show ?thesis
      using Cons make_ready_wake [of st k e] by (auto simp: PINT_req_sched_schedule_mode_change_def next_mode_def make_ready_def)
  qed (simp add: PINT_req_sched_schedule_mode_change_def next_mode_def)
  show "sched_ok (wake st (next_mode st))" if "set (next_mode st) \<inter> set (ready_queue st) = {}"
  proof (cases "next_mode st")
    case (Cons k q)
    then have k: "next_mode st = [k]" "mode_queue st = k # tl (mode_queue st)"
      by (cases "mode_queue st"; simp add: next_mode_def split: if_splits)+
    then obtain e where e: "elems st k = Some e" "place_of e = Mode_Queue" using m by blast
    have "k \<notin> set (ready_queue st)" using that k(1) by simp
    then show ?thesis
      using e k(1) queue_cong [of "wake st [k]" st] lists_ok_cong [of "wake st [k]" st] lists_cong [of "wake st [k]" st] sched_okD(1) [OF assms]
      by (intro sched_ok_set_state [OF assms e(1), of REQ_READY_TO_SCHEDULE]) (auto simp: fun_eq_iff remove1_idem)
  qed (use assms in simp)
qed

lemma sched_ok_zero: "sched_ok st \<Longrightarrow> elems st 0 = None"
  using sched_okD(2) by (simp add: placed_def places_def)

text \<open>The state before the change of the mode is looked at.\<close>

definition taken_out :: "bool \<Rightarrow> req_sched \<Rightarrow> req_sched_id \<Rightarrow> req_sched \<Rightarrow> bool" where
  "taken_out ro st i st' \<longleftrightarrow> elems st' = (elems (wake st (followers ro st i)))(i := None) \<and>
     queue st' = (\<lambda>q. remove1 i (queue st q)) \<and>
     ready_queue st' = remove1 i (ready_queue st) @ followers ro st i \<and>
     sched_count st' = sched_count st - (if list_head (el st i) \<noteq> None then 1 else 0) \<and> current_mode st' = current_mode st"

lemma queued_followers:
  assumes "sched_ok st" "elems st i = Some e" "state e = REQ_QUEUED" "list_head e = Some h"
  shows "woken ro st (remove1 i (queue st (Handle_Queue h))) = []"
proof -
  note pl = sched_okD(2) [OF assms(1)]
  obtain as ws where r: "queue st (Handle_Queue h) = as @ ws" "queue st (Handle_Queue h) \<noteq> [] \<longrightarrow> as \<noteq> []" "run_split st as ws"
    using sched_okD(5) [OF assms(1), of h] by (auto simp: run_ok_def)
  have "i \<in> set (queue st (Handle_Queue h))" using placed_queue [OF pl] assms by (simp add: places_def place_of_iff)
  then obtain a as' where a: "as = a # as'" using r(1,2) by (cases as) auto
  then have "active (el st a)" using r(3) by (simp add: run_split_def)
  moreover from this have "a \<noteq> i" using assms by (auto simp: active_def)
  ultimately show ?thesis using r(1) a by (simp add: woken_def)
qed

lemma ready_states: "sched_ok st \<Longrightarrow> j \<in> set (ready_queue st) \<Longrightarrow> state (el st j) = REQ_READY_TO_SCHEDULE"
  using sched_okD(3) by (fastforce simp: ready_ok_def)

lemma remaining_queue:
  assumes "sched_ok st" "ids = remove1 i (queue st (Handle_Queue h))"
  shows "distinct ids" "waiting_run st ids" "\<forall>j \<in> set ids. elems st j \<noteq> None"
proof -
  note pl = sched_okD(2) [OF assms(1)]
  have dq: "distinct (queue st (Handle_Queue h))" using pl by (simp add: placed_def)
  show "distinct ids" using dq assms(2) by simp
  show "waiting_run st ids" unfolding assms(2) by (rule waiting_run_remove [OF sched_okD(5) [OF assms(1)] dq])
  show "\<forall>j \<in> set ids. elems st j \<noteq> None"
    using placed_queue [OF pl, of _ "Handle_Queue h"] notin_set_remove1 unfolding assms(2) by (fastforce simp: places_Some)
qed

lemma waiting_run_cong: "elems st' = elems st \<Longrightarrow> waiting_run st' = waiting_run st"
  by (simp add: waiting_run_def run_ok_def run_split_def fun_eq_iff)

lemma place_count: "(case place_of e of Handle_Queue h \<Rightarrow> 1 | _ \<Rightarrow> 0) = (if list_head e \<noteq> None then 1 else 0 :: int)"
  by (simp add: place_of_def split: option.split)

lemma release_ok:
  assumes ok: "sched_ok st" and i: "elems st i = Some e" "state e = REQ_SCHEDULED"
  obtains st4 where "PINT_req_sched_release st i = map_option (\<lambda>st'. (st', 1)) (PINT_req_sched_schedule_mode_change st4)"
    "sched_ok st4" "taken_out True st i st4"
proof -
  have ni: "i \<notin> set (ready_queue st)" using ready_states [OF ok] i by fastforce
  then have st1: "st = st\<lparr>ready_queue := remove1 i (ready_queue st)\<rparr>" by (simp add: remove1_idem)
  have nxt: "release_next s ids = Some (wake s (woken True s ids))"
    if "elems s = elems st" "ready_queue s = ready_queue st" "ids = remove1 i (queue st (place_of e))" "ids \<noteq> []" "list_head e \<noteq> None" for s ids
  proof -
    obtain h where h: "place_of e = Handle_Queue h" using \<open>list_head e \<noteq> None\<close> by (auto simp: place_of_iff)
    note r = remaining_queue [OF ok, of ids i h]
    show ?thesis
      using r that h waiting_run_cong [of s st] ready_states [OF ok] by (intro next_wake(1)) auto
  qed
  obtain st2 st3 where r: "unlink_elem st i e = Some st2"
    "(case list_head e of None \<Rightarrow> Some st2
      | Some h \<Rightarrow> (case list_of st2 h of
          Some (Some l) \<Rightarrow> map_option (\<lambda>st'. st'\<lparr>sched_count := sched_count st' - 1\<rparr>)
            (if req_list l = [] then drop_list st2 h else release_next st2 (req_list l))
        | _ \<Rightarrow> None)) = Some st3"
    "sched_ok (free_elem st3 i)" "elems (free_elem st3 i) = (elems (wake st (followers True st i)))(i := None)"
    "\<And>q. queue (free_elem st3 i) q = remove1 i (queue st q)"
    "ready_queue (free_elem st3 i) = remove1 i (ready_queue st) @ followers True st i"
    "sched_count (free_elem st3 i) = sched_count st - (case place_of e of Handle_Queue h \<Rightarrow> 1 | _ \<Rightarrow> 0)"
    "current_mode (free_elem st3 i) = current_mode st"
    by (rule remove_core [OF ok i(1) st1, of release_next True]) (use nxt in blast)+
  have "i \<noteq> 0" using sched_ok_zero [OF ok] i(1) by auto
  then have "PINT_req_sched_release st i = map_option (\<lambda>st'. (st', 1)) (PINT_req_sched_schedule_mode_change (free_elem st3 i))"
    using i(1) r(1,2) by (simp add: PINT_req_sched_release_def)
  moreover have "taken_out True st i (free_elem st3 i)"
    using r(4-8) i(1) by (simp add: taken_out_def fun_eq_iff place_count)
  ultimately show thesis using that r(3) by blast
qed

lemma unpost_ok:
  assumes ok: "sched_ok st" and i: "elems st i = Some e" "state e \<noteq> REQ_SCHEDULED"
  obtains st4 where "PINT_req_sched_unpost st i =
      map_option (\<lambda>st'. (st', 0, Some (user_ptr e))) (PINT_req_sched_schedule_mode_change st4)"
    "sched_ok st4" "taken_out False st i st4"
proof -
  let ?flag = "state e = REQ_READY_TO_SCHEDULE"
  let ?st1 = "st\<lparr>ready_queue := remove1 i (ready_queue st)\<rparr>"
  have ri: "i \<in> set (ready_queue st) \<longleftrightarrow> ?flag" using sched_okD(3) [OF ok] i(1) by (auto simp: ready_ok_def)
  have st1: "(if ?flag then map_option (\<lambda>q. st\<lparr>ready_queue := q\<rparr>) (qlist_del i (ready_queue st)) else Some st) = Some ?st1"
    using ri by (simp add: qlist_del_def remove1_idem)
  have nxt: "(if ?flag then unpost_next s ids else Some s) = Some (wake s (woken False s ids))"
    if "elems s = elems st" "ready_queue s = ready_queue ?st1" "ids = remove1 i (queue st (place_of e))" "ids \<noteq> []" "list_head e \<noteq> None" for s ids
  proof -
    obtain h where h: "place_of e = Handle_Queue h" using \<open>list_head e \<noteq> None\<close> by (auto simp: place_of_iff)
    show ?thesis
    proof (cases ?flag)
      case True
      note r = remaining_queue [OF ok, of ids i h]
      show ?thesis
        using True r that h waiting_run_cong [of s st] ready_states [OF ok] set_remove1_subset [of i "ready_queue st"]
        by (auto intro!: next_wake(2))
    next
      case False
      then have "state e = REQ_QUEUED" using i(2) timing_iff [OF ok i(1)] h by (cases "state e") auto
      then show ?thesis
        using queued_followers [OF ok i(1), of h False] h that False woken_cong [of s st False] place_of_iff(1) [of e h] by simp
    qed
  qed
  obtain st2 st3 where r: "unlink_elem ?st1 i e = Some st2"
    "(case list_head e of None \<Rightarrow> Some st2
      | Some h \<Rightarrow> (case list_of st2 h of
          Some (Some l) \<Rightarrow> map_option (\<lambda>st'. st'\<lparr>sched_count := sched_count st' - 1\<rparr>)
            (if req_list l = [] then drop_list st2 h else (if ?flag then unpost_next st2 (req_list l) else Some st2))
        | _ \<Rightarrow> None)) = Some st3"
    "sched_ok (free_elem st3 i)" "elems (free_elem st3 i) = (elems (wake st (followers False st i)))(i := None)"
    "\<And>q. queue (free_elem st3 i) q = remove1 i (queue st q)"
    "ready_queue (free_elem st3 i) = remove1 i (ready_queue st) @ followers False st i"
    "sched_count (free_elem st3 i) = sched_count st - (case place_of e of Handle_Queue h \<Rightarrow> 1 | _ \<Rightarrow> 0)"
    "current_mode (free_elem st3 i) = current_mode st"
    by (rule remove_core [OF ok i(1) refl, of "\<lambda>s ids. if ?flag then unpost_next s ids else Some s" False]) (use nxt in blast)+
  have "PINT_req_sched_unpost st i = map_option (\<lambda>st'. (st', 0, Some (user_ptr e))) (PINT_req_sched_schedule_mode_change (free_elem st3 i))"
    using i r(2) unfolding PINT_req_sched_unpost_def by (simp add: st1 r(1))
  moreover have "taken_out False st i (free_elem st3 i)"
    using r(4-8) i(1) by (simp add: taken_out_def fun_eq_iff place_count)
  ultimately show thesis using that r(3) by blast
qed

section \<open>Testing\<close>

lemma fetch_ready_ok:
  assumes ok: "sched_ok st" and i: "elems st i = Some e" "state e = REQ_READY_TO_SCHEDULE"
  obtains st' where "fetch_ready st i e = Some st'" "sched_ok st'" "elems st' = (elems st)(i \<mapsto> e\<lparr>state := REQ_SCHEDULED\<rparr>)"
    "queue st' = queue st" "ready_queue st' = remove1 i (ready_queue st)" "sched_count st' = sched_count st"
    "current_mode st' = (if mode_change e then mode e else current_mode st)"
proof -
  have "i \<in> set (ready_queue st)" using sched_okD(3) [OF ok] i by (auto simp: ready_ok_def)
  then have run: "fetch_ready st i e = Some (PINT_req_sched_do_change_mode
      ((set_elem st i (e\<lparr>state := REQ_SCHEDULED\<rparr>))\<lparr>ready_queue := remove1 i (ready_queue st)\<rparr>) e)" (is "_ = Some ?s")
    by (simp add: fetch_ready_def qlist_del_def)
  have s: "elems ?s = (elems st)(i \<mapsto> e\<lparr>state := REQ_SCHEDULED\<rparr>)" "ready_queue ?s = remove1 i (ready_queue st)"
      "sched_count ?s = sched_count st" "current_mode ?s = (if mode_change e then mode e else current_mode st)"
      "req_sched_table ?s = req_sched_table st" "timer_queue ?s = timer_queue st" "mode_queue ?s = mode_queue st"
    by (simp_all add: PINT_req_sched_do_change_mode_def set_elem_def)
  note q = queue_cong [OF s(5-7)]
  have "sched_ok ?s"
    by (rule sched_ok_set_state [OF ok i(1), of REQ_SCHEDULED])
      (use s q i(2) lists_ok_cong [OF s(5)] lists_cong [OF s(5)] sched_okD(1) [OF ok] in \<open>simp_all add: active_def\<close>)
  then show thesis by (rule that [OF run _ s(1) q s(2-4)])
qed

lemma fetch_timer_ok:
  assumes ok: "sched_ok st" and i: "elems st i = Some e" "state e = REQ_TIMING"
  obtains st' where "fetch_timer st i = Some st'" "sched_ok st'" "elems st' = (elems st)(i := None)"
    "queue st' = (queue st)(Timer_Queue := remove1 i (timer_queue st))" "ready_queue st' = ready_queue st"
    "sched_count st' = sched_count st" "current_mode st' = current_mode st"
proof -
  note pl = sched_okD(2) [OF ok]
  have p: "place_of e = Timer_Queue" using timing_iff [OF ok i(1)] i(2) by simp
  then have "i \<in> set (timer_queue st)" using placed_queue [OF pl, of i Timer_Queue] i(1) by (simp add: places_def)
  then have run: "fetch_timer st i = Some ((free_elem st i)\<lparr>timer_queue := remove1 i (timer_queue st)\<rparr>)" (is "_ = Some ?s")
    by (simp add: fetch_timer_def qlist_del_def)
  have t: "req_sched_table ?s = req_sched_table st" by (simp add: free_elem_def)
  have q: "queue ?s = (queue st)(Timer_Queue := remove1 i (timer_queue st))"
  proof
    fix k show "queue ?s k = ((queue st)(Timer_Queue := remove1 i (timer_queue st))) k"
      using lists_cong [OF t] by (cases k) (simp_all add: queue_handle free_elem_def)
  qed
  have "i \<notin> set (ready_queue st)" using ready_states [OF ok, of i] i by auto
  moreover have "i \<notin> set (queue st k)" if "k \<noteq> Timer_Queue" for k
    using placed_queue [OF pl, of i k] i(1) p that by (simp add: places_def)
  ultimately have "sched_ok ?s"
    by (intro sched_ok_remove [OF ok i(1), where ks = "[]"])
      (use p ok q lists_ok_cong [OF t] lists_cong [OF t] in \<open>auto simp: free_elem_def remove1_idem sched_ok_def fun_upd_def\<close>)
  then show thesis by (rule that [OF run]) (use q in \<open>simp_all add: free_elem_def\<close>)
qed

lemma test_ok:
  assumes ok: "sched_ok st" and i: "elems st i = Some e"
  obtains st' r u where "PINT_req_sched_test st now i = Some (st', r, u)" "sched_ok st'"
proof (cases "state e")
  case REQ_READY_TO_SCHEDULE
  obtain st' where "fetch_ready st i e = Some st'" "sched_ok st'" by (rule fetch_ready_ok [OF ok i REQ_READY_TO_SCHEDULE])
  then show thesis using that i REQ_READY_TO_SCHEDULE by (simp add: PINT_req_sched_test_def)
next
  case REQ_TIMING
  obtain st' where "fetch_timer st i = Some st'" "sched_ok st'" by (rule fetch_timer_ok [OF ok i REQ_TIMING])
  then show thesis using that i REQ_TIMING ok by (cases "expired (tv e) now") (simp_all add: PINT_req_sched_test_def)
qed (use that i ok in \<open>simp_all add: PINT_req_sched_test_def\<close>)

lemma testsome_loop_ok:
  assumes "sched_ok st" "distinct ids" "\<forall>i \<in> set ids. elems st i \<noteq> None"
  obtains st' r outs' where "testsome_loop st clock k ids outs = Some (st', r, outs')" "sched_ok st'"
  using assms
proof (induction ids arbitrary: st k outs thesis)
  case (Cons i ids)
  obtain e where e: "elems st i = Some e" using Cons.prems(4) by auto
  show ?case
  proof (cases "state e")
    case REQ_READY_TO_SCHEDULE
    obtain st' where st': "fetch_ready st i e = Some st'" "sched_ok st'" "elems st' = (elems st)(i \<mapsto> e\<lparr>state := REQ_SCHEDULED\<rparr>)"
      by (rule fetch_ready_ok [OF Cons.prems(2) e REQ_READY_TO_SCHEDULE])
    show thesis
      by (rule Cons.IH [OF _ st'(2), of "k + 1" "outs @ [(k, user_ptr e)]"])
        (use Cons.prems e st' REQ_READY_TO_SCHEDULE in auto)
  next
    case REQ_TIMING
    obtain st' where st': "fetch_timer st i = Some st'" "sched_ok st'" "elems st' = (elems st)(i := None)"
      by (rule fetch_timer_ok [OF Cons.prems(2) e REQ_TIMING])
    show thesis
    proof (cases "expired (tv e) (clock k)")
      case True
      show thesis
        by (rule Cons.IH [OF _ st'(2), of "k + 1" "outs @ [(k, user_ptr e)]"])
          (use Cons.prems e st' REQ_TIMING True in auto)
    next
      case False
      show thesis
        by (rule Cons.IH [OF _ Cons.prems(2), of "k + 1" outs]) (use Cons.prems e REQ_TIMING False in auto)
    qed
  next
    case REQ_QUEUED
    show thesis by (rule Cons.IH [OF _ Cons.prems(2), of "k + 1" outs]) (use Cons.prems e REQ_QUEUED in auto)
  qed (use Cons.prems e in simp)
qed simp

lemma testworld_timers_ok:
  assumes "sched_ok st" "length outs < incount"
    and "xs = take (incount - length outs) (takeWhile (\<lambda>i. \<not> later (tv (el st i)) now) (timer_queue st))"
  obtains st' where "testworld_timers st now incount (timer_queue st) outs = Some (st', outs @ map (\<lambda>i. (i, user_ptr (el st i))) xs)"
    "sched_ok st'" "elems st' = (\<lambda>i. if i \<in> set xs then None else elems st i)"
    "queue st' = (queue st)(Timer_Queue := drop (length xs) (timer_queue st))" "ready_queue st' = ready_queue st"
    "sched_count st' = sched_count st" "current_mode st' = current_mode st"
  using assms
proof (induction "timer_queue st" arbitrary: st outs xs thesis)
  case Nil
  have "xs = []" using Nil.hyps [symmetric] Nil.prems(4) by simp
  then show ?case
    using Nil.hyps [symmetric] Nil.prems(2) by (intro Nil.prems(1) [of st]) (simp_all add: fun_upd_idem)
next
  case (Cons i ids)
  note tq = Cons.hyps(2) [symmetric] and ok = Cons.prems(2)
  have dq: "distinct (timer_queue st)" using sched_okD(2) [OF ok] by (auto simp: placed_def dest: spec [of _ Timer_Queue])
  obtain e where e: "elems st i = Some e" "place_of e = Timer_Queue"
    using placed_queue [OF sched_okD(2) [OF ok], of i Timer_Queue] tq by (auto simp: places_Some)
  show ?case
  proof (cases "later (tv e) now")
    case True
    then have "xs = []" using Cons.prems(4) e tq by simp
    then show ?thesis using True e tq ok by (intro Cons.prems(1) [of st]) (simp_all add: fun_upd_idem)
  next
    case False
    have "state e = REQ_TIMING" using timing_iff [OF ok e(1)] e(2) by simp
    then obtain st1 where st1: "fetch_timer st i = Some st1" "sched_ok st1" "elems st1 = (elems st)(i := None)"
        "queue st1 = (queue st)(Timer_Queue := remove1 i (timer_queue st))" "ready_queue st1 = ready_queue st"
        "sched_count st1 = sched_count st" "current_mode st1 = current_mode st"
      by (rule fetch_timer_ok [OF ok e(1)])
    have tq1: "timer_queue st1 = ids" using fun_cong [OF st1(4), of Timer_Queue] tq by simp
    have same: "el st1 j = el st j" if "j \<in> set ids" for j using that dq tq st1(3) by auto
    let ?outs = "outs @ [(i, user_ptr e)]"
    define ys where "ys = take (incount - length ?outs) (takeWhile (\<lambda>i. \<not> later (tv (el st1 i)) now) (timer_queue st1))"
    have tw: "takeWhile (\<lambda>i. \<not> later (tv (el st1 i)) now) (timer_queue st1) = takeWhile (\<lambda>i. \<not> later (tv (el st i)) now) ids"
      unfolding tq1 by (rule takeWhile_cong) (simp_all add: same)
    have n: "incount - length outs = Suc (incount - length ?outs)" using Cons.prems(3) by simp
    have xs: "xs = i # ys"
      using Cons.prems(4) False e(1) unfolding ys_def tw tq n by (simp only: takeWhile.simps option.sel) simp
    have outs: "map (\<lambda>i. (i, user_ptr (el st1 i))) ys = map (\<lambda>i. (i, user_ptr (el st i))) ys"
      using same by (auto simp: ys_def tw dest!: in_set_takeD set_takeWhileD)
    show ?thesis
    proof (cases "length ?outs = incount")
      case True
      then have "ys = []" by (simp add: ys_def)
      then show ?thesis
        using True False e(1) tq st1 xs Cons.prems(3) by (intro Cons.prems(1) [of st1]) (simp_all add: fun_eq_iff)
    next
      case neq: False
      have lt: "length ?outs < incount" using neq Cons.prems(3) by simp
      obtain st' where st': "testworld_timers st1 now incount (timer_queue st1) ?outs = Some (st', ?outs @ map (\<lambda>i. (i, user_ptr (el st1 i))) ys)"
        "sched_ok st'" "elems st' = (\<lambda>i. if i \<in> set ys then None else elems st1 i)"
        "queue st' = (queue st1)(Timer_Queue := drop (length ys) (timer_queue st1))" "ready_queue st' = ready_queue st1"
        "sched_count st' = sched_count st1" "current_mode st' = current_mode st1"
        by (rule Cons.hyps(1) [OF tq1 [symmetric] _ st1(2) lt ys_def]) blast
      show ?thesis
        using False neq e(1) tq st1(1,3-7) tq1 xs Cons.prems(3) st' outs
        by (intro Cons.prems(1) [of st']) (simp_all add: Let_def fun_eq_iff)
    qed
  qed
qed

lemma testworld_ready_ok:
  assumes "sched_ok st" "xs = take (incount - length outs) (ready_queue st)"
  obtains st' where "testworld_ready st incount (ready_queue st) outs = Some (st', outs @ map (\<lambda>i. (i, user_ptr (el st i))) xs)"
    "sched_ok st'" "elems st' = (\<lambda>i. if i \<in> set xs then map_option (\<lambda>e. e\<lparr>state := REQ_SCHEDULED\<rparr>) (elems st i) else elems st i)"
    "queue st' = queue st" "ready_queue st' = drop (length xs) (ready_queue st)" "sched_count st' = sched_count st"
    "current_mode st' = fold (\<lambda>i m. if mode_change (el st i) then mode (el st i) else m) xs (current_mode st)"
  using assms
proof (induction "ready_queue st" arbitrary: st outs xs thesis)
  case Nil
  have "xs = []" using Nil.hyps [symmetric] Nil.prems(3) by simp
  then show ?case using Nil.hyps [symmetric] Nil.prems(2) by (intro Nil.prems(1) [of st]) simp_all
next
  case (Cons i ids)
  note rq = Cons.hyps(2) [symmetric] and ok = Cons.prems(2)
  have dq: "distinct (ready_queue st)" using sched_okD(3) [OF ok] by (simp add: ready_ok_def)
  show ?case
  proof (cases "length outs < incount")
    case False
    then have "xs = []" using Cons.prems(3) by simp
    then show ?thesis using False rq ok by (intro Cons.prems(1) [of st]) simp_all
  next
    case True
    obtain e where e: "elems st i = Some e" "state e = REQ_READY_TO_SCHEDULE"
      using sched_okD(3) [OF ok] rq by (auto simp: ready_ok_def)
    obtain st1 where st1: "fetch_ready st i e = Some st1" "sched_ok st1" "elems st1 = (elems st)(i \<mapsto> e\<lparr>state := REQ_SCHEDULED\<rparr>)"
      "queue st1 = queue st" "ready_queue st1 = remove1 i (ready_queue st)" "sched_count st1 = sched_count st"
      "current_mode st1 = (if mode_change e then mode e else current_mode st)"
      by (rule fetch_ready_ok [OF ok e])
    have rq1: "ready_queue st1 = ids" using st1(5) rq by simp
    let ?outs = "outs @ [(i, user_ptr e)]"
    define ys where "ys = take (incount - length ?outs) (ready_queue st1)"
    have n: "incount - length outs = Suc (incount - length ?outs)" using True by simp
    have xs: "xs = i # ys" using Cons.prems(3) unfolding n rq ys_def rq1 by simp
    have same: "el st1 j = el st j" if "j \<in> set ys" for j
      using that dq st1(3) unfolding rq ys_def rq1 by (auto dest: in_set_takeD)
    have nys: "i \<notin> set ys" using dq unfolding rq ys_def rq1 by (auto dest: in_set_takeD)
    obtain st' where st': "testworld_ready st1 incount (ready_queue st1) ?outs = Some (st', ?outs @ map (\<lambda>i. (i, user_ptr (el st1 i))) ys)"
      "sched_ok st'" "elems st' = (\<lambda>i. if i \<in> set ys then map_option (\<lambda>e. e\<lparr>state := REQ_SCHEDULED\<rparr>) (elems st1 i) else elems st1 i)"
      "queue st' = queue st1" "ready_queue st' = drop (length ys) (ready_queue st1)" "sched_count st' = sched_count st1"
      "current_mode st' = fold (\<lambda>i m. if mode_change (el st1 i) then mode (el st1 i) else m) ys (current_mode st1)"
      by (rule Cons.hyps(1) [OF rq1 [symmetric] _ st1(2) ys_def]) blast
    have "map (\<lambda>i. (i, user_ptr (el st1 i))) ys = map (\<lambda>i. (i, user_ptr (el st i))) ys" using same by simp
    moreover have "fold (\<lambda>i m. if mode_change (el st1 i) then mode (el st1 i) else m) ys m =
        fold (\<lambda>i m. if mode_change (el st i) then mode (el st i) else m) ys m" for m
      using same by (intro fold_cong) (simp_all add: fun_eq_iff)
    ultimately show ?thesis
      using True e(1) rq st1(1,3-7) rq1 xs st' nys
      by (intro Cons.prems(1) [of st']) (simp_all add: fun_eq_iff)
  qed
qed

text \<open>The timers that have expired come first, then the ready elements, as many as there is room for.\<close>

definition due :: "req_sched \<Rightarrow> timeval \<Rightarrow> nat \<Rightarrow> req_sched_id list" where
  "due st now incount = take incount (takeWhile (\<lambda>i. \<not> later (tv (el st i)) now) (timer_queue st))"

lemma testworld_ok:
  assumes ok: "sched_ok st" and pos: "0 < incount" and ts: "ts = due st now incount"
    and rs: "rs = take (incount - length ts) (ready_queue st)"
  obtains st' where "PINT_req_sched_testworld st now incount =
      Some (st', if ts @ rs \<noteq> [] then 1 else 0, map (\<lambda>i. (i, user_ptr (el st i))) (ts @ rs))" "sched_ok st'"
    "elems st' = (\<lambda>i. if i \<in> set ts then None
       else if i \<in> set rs then map_option (\<lambda>e. e\<lparr>state := REQ_SCHEDULED\<rparr>) (elems st i) else elems st i)"
    "queue st' = (queue st)(Timer_Queue := drop (length ts) (timer_queue st))"
    "ready_queue st' = drop (length rs) (ready_queue st)" "sched_count st' = sched_count st"
    "current_mode st' = fold (\<lambda>i m. if mode_change (el st i) then mode (el st i) else m) rs (current_mode st)"
proof -
  have pos': "length ([] :: (req_sched_id \<times> nat) list) < incount" using pos by simp
  have ts': "ts = take (incount - length ([] :: (req_sched_id \<times> nat) list)) (takeWhile (\<lambda>i. \<not> later (tv (el st i)) now) (timer_queue st))"
    using ts by (simp add: due_def)
  obtain st1 where st1: "testworld_timers st now incount (timer_queue st) [] = Some (st1, [] @ map (\<lambda>i. (i, user_ptr (el st i))) ts)"
    "sched_ok st1" "elems st1 = (\<lambda>i. if i \<in> set ts then None else elems st i)"
    "queue st1 = (queue st)(Timer_Queue := drop (length ts) (timer_queue st))" "ready_queue st1 = ready_queue st"
    "sched_count st1 = sched_count st" "current_mode st1 = current_mode st"
    by (rule testworld_timers_ok [OF ok pos' ts'])
  let ?outs = "map (\<lambda>i. (i, user_ptr (el st i))) ts"
  have rs': "rs = take (incount - length ?outs) (ready_queue st1)" using rs st1(5) by simp
  have same: "elems st1 i = elems st i" if "i \<in> set rs" for i
  proof -
    have "i \<in> set (ready_queue st1)" using that rs' by (auto dest: in_set_takeD)
    then show ?thesis using sched_okD(3) [OF st1(2)] by (auto simp: ready_ok_def st1(3) split: if_splits)
  qed
  have outs: "map (\<lambda>i. (i, user_ptr (el st1 i))) rs = map (\<lambda>i. (i, user_ptr (el st i))) rs" using same by simp
  have modes: "fold (\<lambda>i m. if mode_change (el st1 i) then mode (el st1 i) else m) rs m =
      fold (\<lambda>i m. if mode_change (el st i) then mode (el st i) else m) rs m" for m
    using same by (intro fold_cong) (simp_all add: fun_eq_iff)
  obtain st' where st': "testworld_ready st1 incount (ready_queue st1) ?outs = Some (st', ?outs @ map (\<lambda>i. (i, user_ptr (el st1 i))) rs)"
    "sched_ok st'" "elems st' = (\<lambda>i. if i \<in> set rs then map_option (\<lambda>e. e\<lparr>state := REQ_SCHEDULED\<rparr>) (elems st1 i) else elems st1 i)"
    "queue st' = queue st1" "ready_queue st' = drop (length rs) (ready_queue st1)" "sched_count st' = sched_count st1"
    "current_mode st' = fold (\<lambda>i m. if mode_change (el st1 i) then mode (el st1 i) else m) rs (current_mode st1)"
    by (rule testworld_ready_ok [OF st1(2) rs'])
  have "PINT_req_sched_testworld st now incount =
      Some (st', if ts @ rs \<noteq> [] then 1 else 0, map (\<lambda>i. (i, user_ptr (el st i))) (ts @ rs))"
    using st1(1) st'(1) outs by (simp add: PINT_req_sched_testworld_def)
  moreover have "elems st' = (\<lambda>i. if i \<in> set ts then None
       else if i \<in> set rs then map_option (\<lambda>e. e\<lparr>state := REQ_SCHEDULED\<rparr>) (elems st i) else elems st i)"
    by (simp add: fun_eq_iff st'(3) st1(3))
  moreover note cm = st'(7) [unfolded modes st1(7)]
  ultimately show thesis by (intro that [of st']) (use st1(4-6) st'(2,4-6) cm in simp_all)
qed

end
