(* ===== verification/Req_Sched_Run.thy ===== *)
theory Req_Sched_Run
  imports Req_Sched_Remove
begin

text \<open>
  The runs of the request scheduler. A step is a call of one of the operations by a client that
  keeps the rules of the interface: it tests and releases what it has posted, and releases only what
  has been scheduled. The invariant holds in every state that such steps reach.
\<close>

section \<open>Steps\<close>

inductive sched_step :: "req_sched \<Rightarrow> req_sched \<Rightarrow> bool" where
  step_post: "\<lbrakk>elems st new = None; new \<noteq> 0; PINT_req_sched_post st new o1 h acc policy uptr = Some (st', ret, out)\<rbrakk>
    \<Longrightarrow> sched_step st st'"
| step_post_timer: "\<lbrakk>elems st new = None; new \<noteq> 0; PINT_req_sched_post_timer st new now msecs uptr = Some (st', ret, out)\<rbrakk>
    \<Longrightarrow> sched_step st st'"
| step_change_mode: "\<lbrakk>elems st new = None; new \<noteq> 0; PINT_req_sched_change_mode st new md uptr = Some (st', ret)\<rbrakk>
    \<Longrightarrow> sched_step st st'"
| step_release: "\<lbrakk>elems st i = Some e; state e = REQ_SCHEDULED; PINT_req_sched_release st i = Some (st', ret)\<rbrakk>
    \<Longrightarrow> sched_step st st'"
| step_unpost: "\<lbrakk>elems st i = Some e; PINT_req_sched_unpost st i = Some (st', r, u)\<rbrakk> \<Longrightarrow> sched_step st st'"
| step_test: "\<lbrakk>elems st i = Some e; PINT_req_sched_test st now i = Some (st', r, u)\<rbrakk> \<Longrightarrow> sched_step st st'"
| step_testsome: "\<lbrakk>distinct ids; \<forall>i \<in> set ids. elems st i \<noteq> None; PINT_req_sched_testsome st clock ids = Some (st', r, outs)\<rbrakk>
    \<Longrightarrow> sched_step st st'"
| step_testworld: "PINT_req_sched_testworld st now incount = Some (st', r, outs) \<Longrightarrow> sched_step st st'"

inductive reachable :: "req_sched \<Rightarrow> bool" where
  reachable_init: "reachable (fst (PINT_req_sched_initialize initial_sched))"
| reachable_step: "reachable st \<Longrightarrow> sched_step st st' \<Longrightarrow> reachable st'"

lemma sched_initialize_ok: "sched_ok (fst (PINT_req_sched_initialize initial_sched))"
proof -
  let ?st = "fst (PINT_req_sched_initialize initial_sched)"
  have t: "req_sched_table ?st = Some (qhash_init hash_handle_compare hash_handle 1021)"
    by (simp add: PINT_req_sched_initialize_def)
  have e: "elems ?st = Map.empty" "ready_queue ?st = []" "timer_queue ?st = []" "mode_queue ?st = []" "sched_count ?st = 0"
    by (simp_all add: PINT_req_sched_initialize_def initial_sched_def)
  have l: "lists ?st h = None" for h using t hl.init_managed(2) by (simp add: lists_def)
  then have "queue ?st p = []" for p using e by (cases p) (simp_all add: queue_handle)
  moreover have "places ?st = Map.empty" using e by (simp add: places_def fun_eq_iff)
  moreover have "lists_ok ?st" using t hl.init_managed(1) by (simp add: lists_ok_def)
  ultimately show ?thesis
    using l e by (simp add: sched_ok_def placed_def ready_ok_def timers_ok_def run_ok_Nil)
qed

lemma mode_change_keeps:
  assumes "sched_ok st4" "PINT_req_sched_schedule_mode_change st4 = Some st'"
  shows "sched_ok st'"
  using schedule_mode_change_ok [OF assms(1)] assms(2) by (auto split: if_splits)

lemma testworld_none: "PINT_req_sched_testworld st now 0 = Some (st', r, outs) \<Longrightarrow> st' = st"
  by (cases "timer_queue st"; cases "ready_queue st")
    (auto simp: PINT_req_sched_testworld_def split: option.splits if_splits)

lemma step_ok:
  assumes "sched_step st st'" "sched_ok st"
  shows "sched_ok st'"
  using assms
proof cases
  case (step_post new o1 h acc policy uptr ret out)
  show ?thesis
  proof (cases "\<not> refused st o1 acc \<and> policy = PINT_SERVER_REQ_SCHEDULE")
    case True
    obtain s r e where "PINT_req_sched_post st new o1 h acc policy uptr = Some (s, r, Some new)" "sched_ok s"
      by (rule post_queued [OF assms(2) step_post(1,2)]) (use True in blast)+
    then show ?thesis using step_post(3) by simp
  next
    case False
    then have "refused st o1 acc \<or> policy = PINT_SERVER_REQ_BYPASS" by (cases policy) auto
    then show ?thesis using post_unqueued [OF assms(2), of o1 acc] step_post(3) assms(2) by (cases "refused st o1 acc") auto
  qed
next
  case (step_post_timer new now msecs uptr ret out)
  show ?thesis
  proof (cases "1 \<le> msecs")
    case True
    obtain s where "PINT_req_sched_post_timer st new now msecs uptr = Some (s, 0, Some new)" "sched_ok s"
      by (rule post_timer_ok [OF assms(2) step_post_timer(1,2) True])
    then show ?thesis using step_post_timer(3) by simp
  qed (use step_post_timer(3) assms(2) in \<open>simp add: PINT_req_sched_post_timer_def\<close>)
next
  case (step_change_mode new md uptr ret)
  obtain s r where "PINT_req_sched_change_mode st new md uptr = Some (s, r)" "sched_ok s"
    by (rule change_mode_ok [OF assms(2) step_change_mode(1,2)])
  then show ?thesis using step_change_mode(3) by simp
next
  case (step_release i e ret)
  obtain st4 where "PINT_req_sched_release st i = map_option (\<lambda>st'. (st', 1)) (PINT_req_sched_schedule_mode_change st4)" "sched_ok st4"
    by (rule release_ok [OF assms(2) step_release(1,2)])
  then show ?thesis using step_release(3) mode_change_keeps [of st4 st'] by (cases "PINT_req_sched_schedule_mode_change st4") auto
next
  case (step_unpost i e r u)
  show ?thesis
  proof (cases "state e = REQ_SCHEDULED")
    case True
    then show ?thesis using step_unpost assms(2) by (simp add: PINT_req_sched_unpost_def)
  next
    case False
    obtain st4 where "PINT_req_sched_unpost st i = map_option (\<lambda>st'. (st', 0, Some (user_ptr e))) (PINT_req_sched_schedule_mode_change st4)" "sched_ok st4"
      by (rule unpost_ok [OF assms(2) step_unpost(1) False])
    then show ?thesis using step_unpost(2) mode_change_keeps [of st4 st'] by (cases "PINT_req_sched_schedule_mode_change st4") auto
  qed
next
  case (step_test i e now r u)
  obtain s r' u' where "PINT_req_sched_test st now i = Some (s, r', u')" "sched_ok s" by (rule test_ok [OF assms(2) step_test(1)])
  then show ?thesis using step_test(2) by simp
next
  case (step_testsome ids clock r outs)
  obtain s r' o' where "testsome_loop st clock 0 ids [] = Some (s, r', o')" "sched_ok s"
    by (rule testsome_loop_ok [OF assms(2) step_testsome(1,2)])
  then show ?thesis using step_testsome(3) by (simp add: PINT_req_sched_testsome_def)
next
  case (step_testworld now incount r outs)
  show ?thesis
  proof (cases "incount = 0")
    case True
    then show ?thesis using step_testworld testworld_none assms(2) by blast
  next
    case False
    then have pos: "0 < incount" by simp
    obtain s where "PINT_req_sched_testworld st now incount = Some (s, if due st now incount @ take (incount - length (due st now incount)) (ready_queue st) \<noteq> [] then 1 else 0,
        map (\<lambda>i. (i, user_ptr (el st i))) (due st now incount @ take (incount - length (due st now incount)) (ready_queue st)))" "sched_ok s"
      by (rule testworld_ok [OF assms(2) pos refl refl])
    then show ?thesis using step_testworld by simp
  qed
qed

lemma reachable_ok: "reachable st \<Longrightarrow> sched_ok st"
  by (induction rule: reachable.induct) (auto intro: sched_initialize_ok step_ok)

section \<open>Faults\<close>

text \<open>
  The case in which an element of the ready queue would be linked to it again: once element \<open>i\<close> is taken
  out, no request is counted any more, and the first change of the mode that remains is ready and has
  not been fetched. The element need not be a request: it may be a timer or a later change of the mode
  that is unposted while no request is counted.
\<close>

definition mode_relinked :: "req_sched \<Rightarrow> req_sched_id \<Rightarrow> bool" where
  "mode_relinked st i \<longleftrightarrow> sched_count st = (if list_head (el st i) \<noteq> None then 1 else 0) \<and>
     (case remove1 i (mode_queue st) of [] \<Rightarrow> False | k # _ \<Rightarrow> state (el st k) = REQ_READY_TO_SCHEDULE)"

lemma taken_out_fault:
  assumes ok: "sched_ok st" and i: "elems st i = Some e" and st4: "sched_ok st4" "taken_out ro st i st4"
  shows "PINT_req_sched_schedule_mode_change st4 = None \<longleftrightarrow> mode_relinked st i"
proof -
  note pl = sched_okD(2) [OF ok]
  have q4: "queue st4 = (\<lambda>q. remove1 i (queue st q))" using st4(2) by (simp add: taken_out_def)
  have mq: "mode_queue st4 = remove1 i (mode_queue st)" using fun_cong [OF q4, of Mode_Queue] by simp
  have c: "sched_count st4 = sched_count st - (if list_head e \<noteq> None then 1 else 0)" and
    rq: "ready_queue st4 = remove1 i (ready_queue st) @ followers ro st i"
    using st4(2) i by (simp_all add: taken_out_def)
  show ?thesis
  proof (cases "remove1 i (mode_queue st)")
    case Nil
    then show ?thesis using schedule_mode_change_ok(1) [OF st4(1)] mq by (simp add: mode_relinked_def next_mode_def)
  next
    case (Cons k q)
    have dq: "distinct (mode_queue st)" using pl by (auto simp: placed_def dest: spec [of _ Mode_Queue])
    then have k: "k \<in> set (mode_queue st)" "k \<noteq> i" using Cons set_remove1_eq [OF dq, of i] by auto
    then obtain a where a: "elems st k = Some a" "place_of a = Mode_Queue"
      using placed_queue [OF pl, of k Mode_Queue] by (auto simp: places_Some)
    have "k \<notin> set (followers ro st i)"
    proof
      assume m: "k \<in> set (followers ro st i)"
      then obtain h where h: "list_head e = Some h" "k \<in> set (woken ro st (remove1 i (queue st (Handle_Queue h))))"
        using i by (cases "list_head e") (simp_all add: followers_def)
      then have "k \<in> set (remove1 i (queue st (Handle_Queue h)))"
        using woken_subset(2) [OF remaining_queue(1,2) [OF ok refl]] by blast
      then have "places st k = Some (Handle_Queue h)"
        using placed_queue [OF pl, of k "Handle_Queue h"] set_remove1_subset by fastforce
      then show False using a by (simp add: places_def)
    qed
    then have "k \<in> set (ready_queue st4) \<longleftrightarrow> state a = REQ_READY_TO_SCHEDULE"
      using rq k(2) a(1) sched_okD(3) [OF ok] by (auto simp: ready_ok_def)
    then show ?thesis
      using schedule_mode_change_ok(1) [OF st4(1)] mq Cons c i a(1) by (auto simp: mode_relinked_def next_mode_def)
  qed
qed

lemma post_total:
  assumes "sched_ok st" "elems st new = None" "new \<noteq> 0"
  obtains st' ret out where "PINT_req_sched_post st new o1 h acc policy uptr = Some (st', ret, out)"
proof (cases "\<not> refused st o1 acc \<and> policy = PINT_SERVER_REQ_SCHEDULE")
  case True
  show thesis by (rule post_queued [OF assms]) (use True that in blast)+
next
  case False
  then have "refused st o1 acc \<or> policy = PINT_SERVER_REQ_BYPASS" by (cases policy) auto
  then show thesis using post_unqueued [OF assms(1), of o1 acc] that by (cases "refused st o1 acc") auto
qed

text \<open>
  C23. In every state that calls of the operations reach, no call frees or follows a dangling
  element, unlinks an element twice or fails an assertion: posting a request, a timer or a change of
  the mode, testing an element, testing several (distinct) elements, and testing all with
  room for at least one return. Releasing
  a scheduled element or unposting another one (a request, a timer or a change of the mode) fails exactly
  when, with the element taken out, no request is counted any more and the first remaining change of the
  mode is already ready.
\<close>

theorem sched_no_fault:
  assumes "reachable st" "elems st new = None" "new \<noteq> 0" "elems st i = Some e" "0 < incount"
    "distinct ids" "\<forall>j \<in> set ids. elems st j \<noteq> None"
  shows "PINT_req_sched_post st new o1 h acc policy uptr \<noteq> None \<and>
    PINT_req_sched_post_timer st new now msecs uptr \<noteq> None \<and>
    PINT_req_sched_change_mode st new md uptr \<noteq> None \<and>
    PINT_req_sched_test st now i \<noteq> None \<and>
    PINT_req_sched_testsome st clock ids \<noteq> None \<and>
    PINT_req_sched_testworld st now incount \<noteq> None \<and>
    (state e = REQ_SCHEDULED \<longrightarrow> (PINT_req_sched_release st i = None \<longleftrightarrow> mode_relinked st i)) \<and>
    (state e \<noteq> REQ_SCHEDULED \<longrightarrow> (PINT_req_sched_unpost st i = None \<longleftrightarrow> mode_relinked st i))"
proof (intro conjI impI)
  note ok = reachable_ok [OF assms(1)]
  obtain r1 where "PINT_req_sched_post st new o1 h acc policy uptr = Some r1" by (rule post_total [OF ok assms(2,3)]) blast
  then show "PINT_req_sched_post st new o1 h acc policy uptr \<noteq> None" by simp
  show "PINT_req_sched_post_timer st new now msecs uptr \<noteq> None"
  proof (cases "1 \<le> msecs")
    case True
    obtain s where "PINT_req_sched_post_timer st new now msecs uptr = Some (s, 0, Some new)"
      by (rule post_timer_ok [OF ok assms(2,3) True])
    then show ?thesis by simp
  qed (simp add: PINT_req_sched_post_timer_def)
  obtain s r where "PINT_req_sched_change_mode st new md uptr = Some (s, r)" by (rule change_mode_ok [OF ok assms(2,3)])
  then show "PINT_req_sched_change_mode st new md uptr \<noteq> None" by simp
  obtain s' r' u' where "PINT_req_sched_test st now i = Some (s', r', u')" by (rule test_ok [OF ok assms(4)])
  then show "PINT_req_sched_test st now i \<noteq> None" by simp
  obtain s3 r3 outs where "testsome_loop st clock 0 ids [] = Some (s3, r3, outs)" by (rule testsome_loop_ok [OF ok assms(6,7)])
  then show "PINT_req_sched_testsome st clock ids \<noteq> None" by (simp add: PINT_req_sched_testsome_def)
  obtain s2 r2 where "PINT_req_sched_testworld st now incount = Some (s2, r2)" by (rule testworld_ok [OF ok assms(5) refl refl]) blast
  then show "PINT_req_sched_testworld st now incount \<noteq> None" by simp
next
  note ok = reachable_ok [OF assms(1)]
  assume s: "state e = REQ_SCHEDULED"
  obtain st4 where "PINT_req_sched_release st i = map_option (\<lambda>st'. (st', 1)) (PINT_req_sched_schedule_mode_change st4)"
    "sched_ok st4" "taken_out True st i st4"
    by (rule release_ok [OF ok assms(4) s])
  then show "PINT_req_sched_release st i = None \<longleftrightarrow> mode_relinked st i"
    using taken_out_fault [OF ok assms(4)] by simp
next
  note ok = reachable_ok [OF assms(1)]
  assume s: "state e \<noteq> REQ_SCHEDULED"
  obtain st4 where "PINT_req_sched_unpost st i =
      map_option (\<lambda>st'. (st', 0, Some (user_ptr e))) (PINT_req_sched_schedule_mode_change st4)" "sched_ok st4" "taken_out False st i st4"
    by (rule unpost_ok [OF ok assms(4) s])
  then show "PINT_req_sched_unpost st i = None \<longleftrightarrow> mode_relinked st i"
    using taken_out_fault [OF ok assms(4)] by simp
qed

section \<open>Exclusion\<close>

lemma active_compatible:
  assumes ok: "sched_ok st" and a: "elems st i = Some a" "list_head a = Some h" "active a"
    and b: "elems st j = Some b" "list_head b = Some h" "active b" and ne: "i \<noteq> j"
  shows "compatible a b"
proof -
  obtain as ws where r: "queue st (Handle_Queue h) = as @ ws" "run_split st as ws"
    using sched_okD(5) [OF ok, of h] by (auto simp: run_ok_def)
  have "i \<in> set (as @ ws)" "j \<in> set (as @ ws)"
    using placed_queue [OF sched_okD(2) [OF ok], of _ "Handle_Queue h"] a b by (auto simp: r(1) [symmetric] places_def place_of_iff)
  then have "i \<in> set as" "j \<in> set as" using r(2) a b by (auto simp: run_split_def active_def)
  then obtain x y where x: "x < length as" "as ! x = i" and y: "y < length as" "as ! y = j" by (auto simp: in_set_conv_nth)
  have sw: "sorted_wrt (\<lambda>i j. compatible (el st i) (el st j)) as" using r(2) by (simp add: run_split_def)
  consider "x < y" | "y < x" using x y ne by (metis nat_neq_iff)
  then show ?thesis
  proof cases
    case 1
    then show ?thesis using sorted_wrt_nth_less [OF sw] x y a(1) b(1) by fastforce
  next
    case 2
    then have "compatible b a" using sorted_wrt_nth_less [OF sw] x y a(1) b(1) by fastforce
    then show ?thesis by (auto simp: compatible_def)
  qed
qed

text \<open>
  C3. At no time do two requests for a handle run together, or become ready to, unless both are I/O
  requests, both are read only, or one of them creates or removes a directory entry.
\<close>

theorem sched_exclusion:
  assumes "reachable st" "elems st i = Some a" "elems st j = Some b" "i \<noteq> j"
    "list_head a = Some h" "list_head b = Some h"
    "state a \<in> {REQ_SCHEDULED, REQ_READY_TO_SCHEDULE}" "state b \<in> {REQ_SCHEDULED, REQ_READY_TO_SCHEDULE}"
  shows "(op a = PVFS_SERV_IO \<and> op b = PVFS_SERV_IO) \<or>
    (access_type a = PINT_SERVER_REQ_READONLY \<and> access_type b = PINT_SERVER_REQ_READONLY) \<or>
    op a \<in> {PVFS_SERV_CRDIRENT, PVFS_SERV_RMDIRENT} \<or> op b \<in> {PVFS_SERV_CRDIRENT, PVFS_SERV_RMDIRENT}"
  using active_compatible [OF reachable_ok [OF assms(1)] assms(2) assms(5) _ assms(3,6) _ assms(4)] assms(7,8)
  by (auto simp: active_def compatible_def is_dirent_def)

section \<open>Service\<close>

text \<open>Room for everything that a test may return.\<close>

definition room :: "req_sched \<Rightarrow> nat" where
  "room st = Suc (length (timer_queue st) + length (ready_queue st))"

text \<open>
  A server that repeats two calls: it fetches what is ready and releases the first request of the
  handle, if it is scheduled. The result has the requests in the order of their release.
\<close>

fun serve :: "nat \<Rightarrow> timeval \<Rightarrow> TROVE_handle \<Rightarrow> req_sched \<Rightarrow> (req_sched \<times> req_sched_id list) option" where
  "serve 0 now h st = Some (st, [])"
| "serve (Suc n) now h st =
     (case PINT_req_sched_testworld st now (room st) of
        None \<Rightarrow> None
      | Some (st1, _, _) \<Rightarrow>
          (case list_of st1 h of
             Some (Some l) \<Rightarrow>
               (case elems st1 (hd (req_list l)) of
                  None \<Rightarrow> None
                | Some e \<Rightarrow>
                    if state e \<noteq> REQ_SCHEDULED then None
                    else (case PINT_req_sched_release st1 (hd (req_list l)) of
                            None \<Rightarrow> None
                          | Some (st2, _) \<Rightarrow>
                              map_option (\<lambda>(st3, js). (st3, hd (req_list l) # js)) (serve n now h st2)))
           | _ \<Rightarrow> None))"

lemma testworld_all:
  assumes "sched_ok st"
  obtains st' r outs where "PINT_req_sched_testworld st now (room st) = Some (st', r, outs)" "sched_ok st'"
    "ready_queue st' = []" "\<And>h. queue st' (Handle_Queue h) = queue st (Handle_Queue h)"
proof -
  let ?ts = "due st now (room st)" and ?rs = "take (room st - length (due st now (room st))) (ready_queue st)"
  have "length ?ts \<le> length (timer_queue st)" by (simp add: due_def min.coboundedI1 length_takeWhile_le)
  then have rs: "?rs = ready_queue st" by (simp add: room_def)
  have pos: "0 < room st" by (simp add: room_def)
  obtain st' where st': "PINT_req_sched_testworld st now (room st) =
      Some (st', if ?ts @ ?rs \<noteq> [] then 1 else 0, map (\<lambda>i. (i, user_ptr (el st i))) (?ts @ ?rs))" "sched_ok st'"
    "queue st' = (queue st)(Timer_Queue := drop (length ?ts) (timer_queue st))"
    "ready_queue st' = drop (length ?rs) (ready_queue st)"
    by (rule testworld_ok [OF assms pos refl refl])
  show thesis using rs by (intro that [OF st'(1,2)]) (simp_all add: st'(3,4))
qed

lemma serve_ok:
  assumes "sched_ok st" "queue st (Handle_Queue h) = ids"
  shows "\<exists>st'. serve (length ids) now h st = Some (st', ids) \<and> sched_ok st' \<and> queue st' (Handle_Queue h) = []"
  using assms
proof (induction ids arbitrary: st)
  case (Cons i js)
  obtain st1 r outs where st1: "PINT_req_sched_testworld st now (room st) = Some (st1, r, outs)" "sched_ok st1"
    "ready_queue st1 = []" "\<And>h. queue st1 (Handle_Queue h) = queue st (Handle_Queue h)"
    by (rule testworld_all [OF Cons.prems(1), of now]) blast
  have q1: "queue st1 (Handle_Queue h) = i # js" using st1(4) Cons.prems(2) by simp
  then obtain l where l: "lists st1 h = Some l" "req_list l = i # js" by (cases "lists st1 h") (auto simp: queue_handle)
  have not_ready: "\<not> (elems st1 k = Some x \<and> state x = REQ_READY_TO_SCHEDULE)" for k x
    using sched_okD(3) [OF st1(2)] st1(3) by (auto simp: ready_ok_def)
  obtain e where e: "elems st1 i = Some e"
    using placed_queue [OF sched_okD(2) [OF st1(2)], of i "Handle_Queue h"] q1 by (auto simp: places_Some)
  have "active e" using sched_okD(5) [OF st1(2), of h] q1 run_ok_hd e by fastforce
  then have s: "state e = REQ_SCHEDULED" using not_ready [of i e] e by (auto simp: active_def)
  obtain st4 where st4: "PINT_req_sched_release st1 i = map_option (\<lambda>st'. (st', 1)) (PINT_req_sched_schedule_mode_change st4)"
    "sched_ok st4" "taken_out True st1 i st4"
    by (rule release_ok [OF st1(2) e s])
  have "\<not> mode_relinked st1 i"
  proof
    assume "mode_relinked st1 i"
    then obtain k q where k: "remove1 i (mode_queue st1) = k # q" "state (el st1 k) = REQ_READY_TO_SCHEDULE"
      by (auto simp: mode_relinked_def split: list.splits)
    then have "k \<in> set (queue st1 Mode_Queue)" using set_remove1_subset [of i "mode_queue st1"] by auto
    then obtain x where "elems st1 k = Some x"
      using placed_queue [OF sched_okD(2) [OF st1(2)], of k Mode_Queue] by (auto simp: places_Some)
    then show False using not_ready [of k x] k(2) by simp
  qed
  then obtain st2 where st2: "PINT_req_sched_schedule_mode_change st4 = Some st2"
    using taken_out_fault [OF st1(2) e st4(2,3)] by (cases "PINT_req_sched_schedule_mode_change st4") auto
  have ok2: "sched_ok st2" by (rule mode_change_keeps [OF st4(2) st2])
  have "st2 = wake st4 (next_mode st4)" using schedule_mode_change_ok(1) [OF st4(2)] st2 by (simp split: if_splits)
  then have "queue st2 = queue st4" by (intro queue_cong) simp_all
  moreover have "queue st4 = (\<lambda>q. remove1 i (queue st1 q))" using st4(3) by (simp add: taken_out_def)
  ultimately have "queue st2 (Handle_Queue h) = js" using q1 by simp
  from Cons.IH [OF ok2 this] obtain st' where "serve (length js) now h st2 = Some (st', js)" "sched_ok st'"
      "queue st' (Handle_Queue h) = []" by blast
  then show ?case
    using st1(1) l e s st4(1) st2 list_of_lists [OF sched_okD(1) [OF st1(2)], of h] by simp
qed simp

text \<open>
  C6. Every request for a handle is served, in the order in which it was posted: from every state
  that calls of the operations reach, a server that repeats fetching what is ready and releasing
  the first request of the handle meets no request that has not been scheduled and no fault, and
  after as many rounds as there are requests all of them have been released, first come first
  served.
\<close>

theorem sched_serves_in_order:
  assumes "reachable st" "list_of st h = Some (Some l)"
  shows "\<exists>st'. serve (length (req_list l)) now h st = Some (st', req_list l) \<and> list_of st' h = Some None"
proof -
  note ok = reachable_ok [OF assms(1)]
  have "lists st h = Some l" using assms(2) list_of_lists [OF sched_okD(1) [OF ok], of h] by simp
  then have "queue st (Handle_Queue h) = req_list l" by (simp add: queue_handle)
  from serve_ok [OF ok this] obtain st' where st': "serve (length (req_list l)) now h st = Some (st', req_list l)" "sched_ok st'"
      "queue st' (Handle_Queue h) = []" by blast
  have "lists st' h = None" using st'(2,3) by (auto simp: sched_ok_def queue_handle split: option.splits)
  then show ?thesis using st' list_of_lists [OF sched_okD(1) [OF st'(2)], of h] by simp
qed

section \<open>Admission\<close>

text \<open>When a request may run at once, given the requests of its handle.\<close>

definition admitted :: "req_sched \<Rightarrow> req_sched_id list \<Rightarrow> PVFS_server_op \<Rightarrow> PINT_server_req_access_type \<Rightarrow> bool" where
  "admitted st ids o1 acc \<longleftrightarrow> ids = [] \<or>
     state (el st (hd ids)) = REQ_SCHEDULED \<and> state (el st (last ids)) = REQ_SCHEDULED \<and>
     (if o1 = PVFS_SERV_IO then \<forall>i \<in> set ids. op (el st i) = PVFS_SERV_IO
      else if acc = PINT_SERVER_REQ_READONLY then \<forall>i \<in> set ids. access_type (el st i) = PINT_SERVER_REQ_READONLY
      else o1 = PVFS_SERV_CRDIRENT \<or> o1 = PVFS_SERV_RMDIRENT)"

lemma sched_behind_admitted:
  assumes "ids \<noteq> []" "\<forall>i \<in> set ids. elems st i \<noteq> None" "sched_behind st ids e = Some (e', ret)"
  shows "ret = (if admitted st ids (op e) (access_type e) then 1 else 0)"
proof -
  obtain a where a: "elems st (hd ids) = Some a" using assms(1,2) hd_in_set by blast
  obtain b where b: "elems st (last ids) = Some b" using assms(1,2) last_in_set by blast
  have m: "x \<noteq> PINT_SERVER_REQ_MODIFY \<longleftrightarrow> x = PINT_SERVER_REQ_READONLY" for x by (cases x) auto
  show ?thesis
    using assms(1,3) a b
    by (auto simp: sched_behind_def first_last_scheduled_def some_elem_ex [OF assms(2)] admitted_def m split: if_splits)
qed

text \<open>
  A request that is not refused is put at the end of the queue of its handle. It may run at once
  (the call returns 1) if the queue was empty, or if the first and the last request are running
  and either it and all the others are I/O requests, or it is no I/O request but it and all the
  others are read only, or it creates or removes a directory entry; otherwise it waits (the
  call returns 0). The other queues do not change.
\<close>

theorem post_admission:
  assumes "reachable st" "elems st new = None" "new \<noteq> 0"
    "acc = PINT_SERVER_REQ_MODIFY \<and> \<not> PVFS_SERV_IS_MGMT_OP o1 \<longrightarrow> PINT_req_sched_in_admin_mode st = Some False"
  shows "\<exists>st' e. PINT_req_sched_post st new o1 h acc PINT_SERVER_REQ_SCHEDULE uptr =
      Some (st', if admitted st (queue st (Handle_Queue h)) o1 acc then 1 else 0, Some new) \<and>
    elems st' = (elems st)(new \<mapsto> e) \<and> op e = o1 \<and> list_head e = Some h \<and>
    state e = (if admitted st (queue st (Handle_Queue h)) o1 acc then REQ_SCHEDULED else REQ_QUEUED) \<and>
    queue st' = (queue st)(Handle_Queue h := queue st (Handle_Queue h) @ [new]) \<and> ready_queue st' = ready_queue st"
proof -
  note ok = reachable_ok [OF assms(1)]
  let ?ids = "queue st (Handle_Queue h)"
  let ?e = "new_element\<lparr>op := o1, user_ptr := uptr, state := REQ_QUEUED, handle := h, list_head := None,
      access_type := acc, mode_change := False\<rparr>"
  have nr: "\<not> refused st o1 acc" using assms(4) by (auto simp: refused_def)
  obtain st' ret e where st': "PINT_req_sched_post st new o1 h acc PINT_SERVER_REQ_SCHEDULE uptr = Some (st', ret, Some new)"
      "elems st' = (elems st)(new \<mapsto> e)" "place_of e = Handle_Queue h" "op e = o1"
      "ret = 1 \<and> state e = REQ_SCHEDULED \<or> ret = 0 \<and> state e = REQ_QUEUED"
      "queue st' = (queue st)(Handle_Queue h := ?ids @ [new])" "ready_queue st' = ready_queue st"
    by (rule post_queued [OF ok assms(2,3) nr refl])
  obtain t l where l: "find_or_add_list st h = Some (st\<lparr>req_sched_table := Some t\<rparr>, l)"
    "l = (case lists st h of Some l \<Rightarrow> l | None \<Rightarrow> \<lparr>lhandle = h, req_list = []\<rparr>)"
    by (rule find_or_add_list_ok [OF sched_okD(1) [OF ok]])
  let ?st1 = "st\<lparr>req_sched_table := Some t\<rparr>"
  have ids: "req_list l = ?ids" using l(2) by (simp add: queue_handle split: option.splits)
  have "\<exists>e'. (if req_list l = [] then Some (?e\<lparr>state := REQ_SCHEDULED\<rparr>, 1) else sched_behind ?st1 (req_list l) ?e) = Some (e', ret)"
    using st'(1) l(1) assms(4)
    by (auto simp: PINT_req_sched_post_def Let_def split: option.splits if_splits)
  then have "ret = (if admitted st ?ids o1 acc then 1 else 0)"
  proof (cases "?ids = []")
    case False
    have "\<forall>i \<in> set ?ids. elems ?st1 i \<noteq> None"
      using placed_queue [OF sched_okD(2) [OF ok], of _ "Handle_Queue h"] by (auto simp: places_Some)
    moreover obtain e' where "sched_behind ?st1 ?ids ?e = Some (e', ret)"
      using \<open>\<exists>e'. _\<close> False ids by auto
    ultimately have "ret = (if admitted ?st1 ?ids (op ?e) (access_type ?e) then 1 else 0)"
      by (rule sched_behind_admitted [OF False])
    then show ?thesis by (simp add: admitted_def)
  qed (auto simp: ids admitted_def)
  then show ?thesis using st' by (auto simp: place_of_iff)
qed

section \<open>Completion\<close>

text \<open>
  C27. Testing all completes the expired timers first, the earliest first, and then the ready elements,
  first come first served, as many as the output arrays hold: the identifiers and the user pointers
  of exactly these are returned, the timers are gone and the ready elements are scheduled, and
  the timers and ready elements that did not fit stay for the next call.
\<close>

theorem testworld_completes:
  assumes "reachable st" "0 < incount"
  shows "\<exists>st' ts rs. PINT_req_sched_testworld st now incount =
      Some (st', if ts @ rs \<noteq> [] then 1 else 0, map (\<lambda>i. (i, user_ptr (el st i))) (ts @ rs)) \<and>
    ts = take incount (takeWhile (\<lambda>i. \<not> later (tv (el st i)) now) (timer_queue st)) \<and>
    set (takeWhile (\<lambda>i. \<not> later (tv (el st i)) now) (timer_queue st)) = {i \<in> set (timer_queue st). \<not> later (tv (el st i)) now} \<and>
    rs = take (incount - length ts) (ready_queue st) \<and>
    timer_queue st' = drop (length ts) (timer_queue st) \<and> ready_queue st' = drop (length rs) (ready_queue st) \<and>
    (\<forall>i. elems st' i = (if i \<in> set ts then None
       else if i \<in> set rs then map_option (\<lambda>e. e\<lparr>state := REQ_SCHEDULED\<rparr>) (elems st i) else elems st i))"
proof -
  note ok = reachable_ok [OF assms(1)]
  define ts where "ts = due st now incount"
  define rs where "rs = take (incount - length ts) (ready_queue st)"
  obtain st' where st': "PINT_req_sched_testworld st now incount =
      Some (st', if ts @ rs \<noteq> [] then 1 else 0, map (\<lambda>i. (i, user_ptr (el st i))) (ts @ rs))"
    "elems st' = (\<lambda>i. if i \<in> set ts then None
       else if i \<in> set rs then map_option (\<lambda>e. e\<lparr>state := REQ_SCHEDULED\<rparr>) (elems st i) else elems st i)"
    "queue st' = (queue st)(Timer_Queue := drop (length ts) (timer_queue st))"
    "ready_queue st' = drop (length rs) (ready_queue st)"
    by (rule testworld_ok [OF ok assms(2) ts_def rs_def])
  have "timer_queue st' = drop (length ts) (timer_queue st)" using fun_cong [OF st'(3), of Timer_Queue] by simp
  moreover have "set (takeWhile (\<lambda>i. \<not> later (tv (el st i)) now) q) = {i \<in> set q. \<not> later (tv (el st i)) now}"
    if "sorted_wrt (\<lambda>i j. \<not> later (tv (el st i)) (tv (el st j))) q" for q
    using that by (induction q) (auto dest: later_order(1))
  then have "set (takeWhile (\<lambda>i. \<not> later (tv (el st i)) now) (timer_queue st)) = {i \<in> set (timer_queue st). \<not> later (tv (el st i)) now}"
    using sched_okD(4) [OF ok] by (simp add: timers_ok_def)
  ultimately show ?thesis using st' ts_def rs_def unfolding due_def by auto
qed

section \<open>Example runs\<close>

definition posted :: "req_sched \<Rightarrow> req_sched_id \<Rightarrow> PVFS_server_op \<Rightarrow> TROVE_handle \<Rightarrow> PINT_server_req_access_type \<Rightarrow> req_sched" where
  "posted st new o1 h acc = fst (the (PINT_req_sched_post st new o1 h acc PINT_SERVER_REQ_SCHEDULE 0))"

definition timed :: "req_sched \<Rightarrow> req_sched_id \<Rightarrow> int \<Rightarrow> req_sched" where
  "timed st new msecs = fst (the (PINT_req_sched_post_timer st new \<lparr>tv_sec = 10, tv_usec = 0\<rparr> msecs 7))"

definition mode_changed :: "req_sched \<Rightarrow> req_sched_id \<Rightarrow> PVFS_server_mode \<Rightarrow> req_sched" where
  "mode_changed st new md = fst (the (PINT_req_sched_change_mode st new md 0))"

definition released :: "req_sched \<Rightarrow> req_sched_id \<Rightarrow> req_sched" where
  "released st i = fst (the (PINT_req_sched_release st i))"

abbreviation is_scheduled :: "req_sched \<Rightarrow> req_sched_id \<Rightarrow> bool" where
  "is_scheduled st i \<equiv> map_option state (elems st i) = Some REQ_SCHEDULED"

lemma reachable_posted:
  assumes "reachable st" "elems st new = None" "new \<noteq> 0"
  shows "reachable (posted st new o1 h acc)"
proof -
  obtain st' ret out where "PINT_req_sched_post st new o1 h acc PINT_SERVER_REQ_SCHEDULE 0 = Some (st', ret, out)"
    by (rule post_total [OF reachable_ok [OF assms(1)] assms(2,3)])
  then show ?thesis using reachable_step [OF assms(1) step_post [OF assms(2,3)]] by (auto simp: posted_def)
qed

lemma reachable_timed:
  assumes "reachable st" "elems st new = None" "new \<noteq> 0" "1 \<le> msecs"
  shows "reachable (timed st new msecs)"
proof -
  let ?now = "\<lparr>tv_sec = 10, tv_usec = 0\<rparr>"
  obtain st' where "PINT_req_sched_post_timer st new ?now msecs 7 = Some (st', 0, Some new)"
    by (rule post_timer_ok [OF reachable_ok [OF assms(1)] assms(2-4)])
  then show ?thesis using reachable_step [OF assms(1) step_post_timer [OF assms(2,3)]] by (auto simp: timed_def)
qed

lemma reachable_mode_changed:
  assumes "reachable st" "elems st new = None" "new \<noteq> 0"
  shows "reachable (mode_changed st new md)"
proof -
  obtain st' ret where "PINT_req_sched_change_mode st new md 0 = Some (st', ret)"
    by (rule change_mode_ok [OF reachable_ok [OF assms(1)] assms(2,3)])
  then show ?thesis using reachable_step [OF assms(1) step_change_mode [OF assms(2,3)]] by (auto simp: mode_changed_def)
qed

lemma reachable_released:
  assumes "reachable st" "is_scheduled st i" "PINT_req_sched_release st i \<noteq> None"
  shows "reachable (released st i)"
proof -
  obtain e where "elems st i = Some e" "state e = REQ_SCHEDULED" using assms(2) by auto
  moreover obtain st' ret where "PINT_req_sched_release st i = Some (st', ret)" using assms(3) by auto
  ultimately show ?thesis using reachable_step [OF assms(1) step_release] by (auto simp: released_def)
qed

text \<open>A scheduler with two writes to handle 5, a read of handle 6 and two timers.\<close>

abbreviation started :: req_sched where
  "started \<equiv> fst (PINT_req_sched_initialize initial_sched)"

definition writes :: req_sched where
  "writes = posted (posted started 1 5 5 PINT_SERVER_REQ_MODIFY) 2 5 5 PINT_SERVER_REQ_MODIFY"

definition busy :: req_sched where
  "busy = timed (timed (posted writes 3 4 6 PINT_SERVER_REQ_READONLY) 4 2000) 5 1000"

lemma reachable_writes: "reachable writes"
  unfolding writes_def by (intro reachable_posted reachable_init) code_simp+

lemma reachable_busy: "reachable busy"
  unfolding busy_def by (intro reachable_timed reachable_posted reachable_writes) code_simp+

theorem sched_no_fault_witness:
  "PINT_req_sched_post busy 6 3 5 PINT_SERVER_REQ_MODIFY PINT_SERVER_REQ_SCHEDULE 0 \<noteq> None \<and>
   PINT_req_sched_release busy 1 \<noteq> None \<and> PINT_req_sched_testsome busy (\<lambda>_. \<lparr>tv_sec = 11, tv_usec = 0\<rparr>) [2, 1] \<noteq> None"
proof -
  have e: "elems busy 1 = Some (el busy 1)" "state (el busy 1) = REQ_SCHEDULED" "elems busy 6 = None" "\<not> mode_relinked busy 1"
    "distinct [2, 1 :: req_sched_id]" "\<forall>j \<in> set [2, 1]. elems busy j \<noteq> None"
    by code_simp+
  show ?thesis using sched_no_fault [OF reachable_busy e(3) _ e(1), of 1 "[2, 1]"] e(2,4-) by auto
qed

text \<open>Two reads of handle 5.\<close>

definition reads :: req_sched where
  "reads = posted (posted started 1 4 5 PINT_SERVER_REQ_READONLY) 2 4 5 PINT_SERVER_REQ_READONLY"

lemma reachable_reads: "reachable reads"
  unfolding reads_def by (intro reachable_posted reachable_init) code_simp+

theorem sched_exclusion_witness:
  "is_scheduled reads 1 \<and> is_scheduled reads 2 \<and>
   access_type (el reads 1) = PINT_SERVER_REQ_READONLY \<and> access_type (el reads 2) = PINT_SERVER_REQ_READONLY"
proof -
  have e: "elems reads 1 = Some (el reads 1)" "elems reads 2 = Some (el reads 2)" "(1::int) \<noteq> 2"
    "list_head (el reads 1) = Some 5" "list_head (el reads 2) = Some 5"
    "state (el reads 1) \<in> {REQ_SCHEDULED, REQ_READY_TO_SCHEDULE}" "state (el reads 2) \<in> {REQ_SCHEDULED, REQ_READY_TO_SCHEDULE}"
    by code_simp+
  have "is_scheduled reads 1" "is_scheduled reads 2" "op (el reads 1) = 4" "op (el reads 2) = 4" by code_simp+
  then show ?thesis using sched_exclusion [OF reachable_reads e] by (simp add: server_op_defs)
qed

theorem sched_serves_in_order_witness:
  "\<exists>st'. serve 2 \<lparr>tv_sec = 11, tv_usec = 0\<rparr> 5 busy = Some (st', [1, 2])"
proof -
  have l: "list_of busy 5 = Some (Some \<lparr>lhandle = 5, req_list = [1, 2]\<rparr>)" by code_simp
  show ?thesis
    using sched_serves_in_order [OF reachable_busy l, of "\<lparr>tv_sec = 11, tv_usec = 0\<rparr>"] by (auto simp: numeral_2_eq_2)
qed

theorem post_admission_witness:
  "\<exists>st'. PINT_req_sched_post busy 6 3 5 PINT_SERVER_REQ_READONLY PINT_SERVER_REQ_SCHEDULE 0 = Some (st', 0, Some 6)"
proof -
  have e: "elems busy 6 = None" "\<not> admitted busy (queue busy (Handle_Queue 5)) 3 PINT_SERVER_REQ_READONLY" by code_simp+
  show ?thesis
    using post_admission [OF reachable_busy e(1), of PINT_SERVER_REQ_READONLY 3 5 0] e(2) by auto
qed

theorem testworld_completes_witness:
  "\<exists>st'. PINT_req_sched_testworld busy \<lparr>tv_sec = 11, tv_usec = 0\<rparr> 3 = Some (st', 1, [(5, 7)])"
proof -
  have e: "takeWhile (\<lambda>i. \<not> later (tv (el busy i)) \<lparr>tv_sec = 11, tv_usec = 0\<rparr>) (timer_queue busy) = [5]" "ready_queue busy = []"
    "user_ptr (el busy 5) = 7"
    by code_simp+
  show ?thesis
    using testworld_completes [OF reachable_busy, of 3 "\<lparr>tv_sec = 11, tv_usec = 0\<rparr>"] unfolding e by (auto simp: e(3))
qed

section \<open>Two runs the code does not mean to allow\<close>

text \<open>
  A write is running when the mode is to change, so that the change waits and becomes ready on
  the release of the write. Before it is fetched, a read comes and goes.
\<close>

definition admin_run :: req_sched where
  "admin_run = posted (released (mode_changed (posted started 1 5 5 PINT_SERVER_REQ_MODIFY) 2 PVFS_SERVER_ADMIN_MODE) 1)
     3 4 5 PINT_SERVER_REQ_READONLY"

text \<open>
  C36. Releasing the last request adds the first change of the mode to the ready queue even when it is
  there already: after the run above, the call that releases the read links the element a second
  time, which destroys the queue.
\<close>

theorem mode_change_linked_twice:
  "reachable admin_run \<and> is_scheduled admin_run 3 \<and> mode_queue admin_run = [2] \<and> ready_queue admin_run = [2] \<and>
   PINT_req_sched_release admin_run 3 = None"
proof (intro conjI)
  show "reachable admin_run"
    unfolding admin_run_def by (intro reachable_posted reachable_released reachable_mode_changed reachable_init) code_simp+
qed code_simp+

text \<open>A request that sets attributes of handle 5, and one that creates a directory entry in it.\<close>

definition dirent_run :: req_sched where
  "dirent_run = posted (posted started 1 5 5 PINT_SERVER_REQ_MODIFY) 2 PVFS_SERV_CRDIRENT 5 PINT_SERVER_REQ_MODIFY"

text \<open>
  A request that creates a directory entry runs concurrently with any running request, not
  only with others that create or remove entries: here a request that modifies the directory
  runs, and the new request is scheduled and recorded as read only.
\<close>

theorem dirent_runs_with_any:
  "reachable dirent_run \<and> is_scheduled dirent_run 1 \<and> is_scheduled dirent_run 2 \<and>
   access_type (el dirent_run 1) = PINT_SERVER_REQ_MODIFY \<and> op (el dirent_run 1) = 5 \<and>
   access_type (el dirent_run 2) = PINT_SERVER_REQ_READONLY \<and> op (el dirent_run 2) = PVFS_SERV_CRDIRENT"
proof (intro conjI)
  show "reachable dirent_run"
    unfolding dirent_run_def by (intro reachable_posted reachable_init) code_simp+
qed code_simp+

end
