(* ===== verification/Dist_Dir.thy ===== *)
theory Dist_Dir
  imports Ofs_Prelude "HOL-Library.Monad_Syntax"
begin

text \<open>
  Distributed directories, \<open>src/common/misc/dist-dir-utils.c\<close>. The entries of a directory are spread over
  buckets on several servers by the low bits of a hash of their names. A bitmap tells which buckets are
  active; a bucket that has grown too large is split, and one more bit of the hash decides about its
  entries. Every client and server has its own copy of the bitmap.

  A bitmap is the list of its 32-bit words. \<open>None\<close> as a result means that the code would read or write outside
  of the bitmap or fail an assertion. Allocation succeeds. \<open>ceil(log(n) / log(2))\<close> is computed with
  floating point numbers in the code; the model has its exact value, which the rounded one agrees with for up to \<open>2 ^ 28\<close>
  servers.
\<close>

unbundle bit_operations_syntax

section \<open>Bitmaps\<close>

type_synonym PVFS_dist_dir_bitmap = "32 word list"

definition TST_BIT :: "PVFS_dist_dir_bitmap \<Rightarrow> int \<Rightarrow> bool option" where
  "TST_BIT i_bitfield bitnum = do {
     w \<leftarrow> array_get i_bitfield (bitnum div 32);
     Some (w AND push_bit (nat (bitnum mod 32)) 1 \<noteq> 0) }"

definition SET_BIT :: "PVFS_dist_dir_bitmap \<Rightarrow> int \<Rightarrow> PVFS_dist_dir_bitmap option" where
  "SET_BIT i_bitfield bitnum = do {
     w \<leftarrow> array_get i_bitfield (bitnum div 32);
     array_set i_bitfield (bitnum div 32) (w OR push_bit (nat (bitnum mod 32)) 1) }"

section \<open>Operations\<close>

record PVFS_dist_dir_attr =
  tree_height :: int
  num_servers :: int
  bitmap_size :: int
  split_size :: int
  server_no :: int
  branch_level :: int

text \<open>The two loops of \<open>dist_dir_calc_branch_level\<close>.\<close>

function skip_levels :: "nat \<Rightarrow> nat \<Rightarrow> nat" where
  "skip_levels n level = (if drop_bit level n \<noteq> 0 then skip_levels n (Suc level) else level)"
  by pat_completeness auto
termination
proof (relation "measure (\<lambda>(n, level). n - level)")
  fix n level :: nat
  assume "drop_bit level n \<noteq> 0"
  then have "2 ^ level \<le> n" by (simp add: drop_bit_eq_div div_eq_0_iff)
  moreover have "level < 2 ^ level" by (rule less_exp)
  ultimately have "level < n" by linarith
  then show "((n, Suc level), n, level) \<in> measure (\<lambda>(n, level). n - level)" by simp
qed simp

declare skip_levels.simps [simp del]

function branch_loop :: "PVFS_dist_dir_bitmap \<Rightarrow> nat \<Rightarrow> nat \<Rightarrow> nat option" where
  "branch_loop bitmap n level =
     (case TST_BIT bitmap (int n + 2 ^ level) of
        None \<Rightarrow> None
      | Some True \<Rightarrow> branch_loop bitmap n (Suc level)
      | Some False \<Rightarrow> Some level)"
  by pat_completeness auto
termination
proof (relation "measure (\<lambda>(bitmap, n, level). 32 * length bitmap - level)")
  fix bitmap :: PVFS_dist_dir_bitmap and n level b
  assume "TST_BIT bitmap (int n + 2 ^ level) = Some b" "b = True"
  then have "(int n + 2 ^ level) div 32 < int (length bitmap)"
    by (auto simp: TST_BIT_def array_get_def bind_eq_Some_conv split: if_splits)
  then have "int n + 2 ^ level < 32 * int (length bitmap)" by linarith
  moreover have "int level < 2 ^ level" using less_exp [of level] by (metis of_nat_less_iff of_nat_numeral of_nat_power)
  ultimately have "level < 32 * length bitmap" by linarith
  then show "((bitmap, n, Suc level), bitmap, n, level) \<in> measure (\<lambda>(bitmap, n, level). 32 * length bitmap - level)" by simp
qed simp

declare branch_loop.simps [simp del]

definition dist_dir_calc_branch_level :: "PVFS_dist_dir_attr \<Rightarrow> PVFS_dist_dir_bitmap \<Rightarrow> int option" where
  "dist_dir_calc_branch_level dist_dir_attr bitmap =
     (if \<not> (0 \<le> server_no dist_dir_attr \<and> server_no dist_dir_attr < num_servers dist_dir_attr) then None
      else do {
        b \<leftarrow> TST_BIT bitmap (server_no dist_dir_attr);
        if \<not> b then Some (- 1)
        else do {
          let n = nat (server_no dist_dir_attr);
          level \<leftarrow> branch_loop bitmap n (skip_levels n 0);
          Some (int level) } })"

text \<open>The rounded-up logarithm to base two.\<close>

fun ceil_log2 :: "nat \<Rightarrow> nat" where
  "ceil_log2 n = (if n \<le> 1 then 0 else Suc (ceil_log2 ((n + 1) div 2)))"

declare ceil_log2.simps [simp del]

fun set_bits_below :: "nat \<Rightarrow> PVFS_dist_dir_bitmap \<Rightarrow> PVFS_dist_dir_bitmap option" where
  "set_bits_below 0 bitmap = Some bitmap"
| "set_bits_below (Suc i) bitmap = do { bitmap' \<leftarrow> SET_BIT bitmap (int i); set_bits_below i bitmap' }"

definition PINT_init_dist_dir_state :: "int \<Rightarrow> int \<Rightarrow> int \<Rightarrow> int \<Rightarrow> (int \<times> PVFS_dist_dir_attr \<times> PVFS_dist_dir_bitmap) option" where
  "PINT_init_dist_dir_state num server pre_dsg_num_server split =
     (if \<not> (num > 0 \<and> server \<ge> - 1 \<and> server < num) then None
      else do {
        let pre = (if pre_dsg_num_server \<le> 0 \<or> pre_dsg_num_server > num then num else pre_dsg_num_server);
        let height = ceil_log2 (nat num);
        let size = (if 2 ^ height > (32 :: int) then 2 ^ height div 32 else 1);
        bitmap \<leftarrow> set_bits_below (nat pre) (replicate (nat size) 0);
        let attr = \<lparr>tree_height = int height, num_servers = num, bitmap_size = size, split_size = split,
                    server_no = server, branch_level = - 1\<rparr>;
        level \<leftarrow> (if server > - 1 then dist_dir_calc_branch_level attr bitmap else Some (- 1));
        Some (0, attr\<lparr>branch_level := level\<rparr>, bitmap) })"

definition PINT_is_dist_dir_bucket_active :: "PVFS_dist_dir_attr \<Rightarrow> PVFS_dist_dir_bitmap \<Rightarrow> int \<Rightarrow> bool option" where
  "PINT_is_dist_dir_bucket_active dist_dir_attr_p bitmap server =
     (if server < 0 \<or> server \<ge> num_servers dist_dir_attr_p then Some False else TST_BIT bitmap server)"

text \<open>The loop drops one bit of the hash after the other. A shift by a negative number is undefined.\<close>

fun find_loop :: "PVFS_dist_dir_bitmap \<Rightarrow> nat \<Rightarrow> 64 word \<Rightarrow> 64 word option" where
  "find_loop bitmap level node_val =
     (case TST_BIT bitmap (uint node_val) of
        None \<Rightarrow> None
      | Some True \<Rightarrow> Some node_val
      | Some False \<Rightarrow> (case level of 0 \<Rightarrow> None | Suc l \<Rightarrow> find_loop bitmap l (node_val AND (push_bit l 1 - 1))))"

declare find_loop.simps [simp del]

definition PINT_find_dist_dir_bucket :: "64 word \<Rightarrow> PVFS_dist_dir_attr \<Rightarrow> PVFS_dist_dir_bitmap \<Rightarrow> int option" where
  "PINT_find_dist_dir_bucket hash dist_dir_attr bitmap =
     (if tree_height dist_dir_attr < 0 then Some (- 1)
      else do {
        let level = nat (tree_height dist_dir_attr);
        node_val \<leftarrow> find_loop bitmap level (hash AND (push_bit level 1 - 1));
        Some (uint node_val) })"

definition PINT_find_dist_dir_split_node :: "PVFS_dist_dir_attr \<Rightarrow> PVFS_dist_dir_bitmap
    \<Rightarrow> (int \<times> PVFS_dist_dir_attr \<times> PVFS_dist_dir_bitmap) option" where
  "PINT_find_dist_dir_split_node attr bitmap =
     (if \<not> (server_no attr > - 1 \<and> branch_level attr > - 1) then None
      else if branch_level attr \<ge> tree_height attr then Some (- 1, attr, bitmap)
      else let new_node_val = server_no attr + 2 ^ nat (branch_level attr)
           in if new_node_val \<ge> num_servers attr then Some (- 1, attr, bitmap)
              else do {
                b \<leftarrow> TST_BIT bitmap new_node_val;
                if b then None
                else do {
                  bitmap' \<leftarrow> SET_BIT bitmap new_node_val;
                  level \<leftarrow> dist_dir_calc_branch_level attr bitmap';
                  Some (new_node_val, attr\<lparr>branch_level := level\<rparr>, bitmap') } })"

fun or_words :: "nat \<Rightarrow> PVFS_dist_dir_bitmap \<Rightarrow> PVFS_dist_dir_bitmap \<Rightarrow> PVFS_dist_dir_bitmap option" where
  "or_words 0 to_bitmap from_bitmap = Some to_bitmap"
| "or_words (Suc i) to_bitmap from_bitmap = do {
     a \<leftarrow> array_get to_bitmap (int i);
     b \<leftarrow> array_get from_bitmap (int i);
     to_bitmap' \<leftarrow> array_set to_bitmap (int i) (a OR b);
     or_words i to_bitmap' from_bitmap }"

definition PINT_update_dist_dir_bitmap_from_bitmap :: "PVFS_dist_dir_attr \<Rightarrow> PVFS_dist_dir_bitmap \<Rightarrow> PVFS_dist_dir_bitmap
    \<Rightarrow> (int \<times> PVFS_dist_dir_attr \<times> PVFS_dist_dir_bitmap) option" where
  "PINT_update_dist_dir_bitmap_from_bitmap to_attr to_bitmap from_bitmap = do {
     bitmap \<leftarrow> or_words (nat (bitmap_size to_attr)) to_bitmap from_bitmap;
     level \<leftarrow> (if server_no to_attr > - 1 then dist_dir_calc_branch_level to_attr bitmap else Some (branch_level to_attr));
     Some (0, to_attr\<lparr>branch_level := level\<rparr>, bitmap) }"

definition PINT_dist_dir_set_serverno :: "int \<Rightarrow> PVFS_dist_dir_attr \<Rightarrow> PVFS_dist_dir_bitmap \<Rightarrow> (int \<times> PVFS_dist_dir_attr) option" where
  "PINT_dist_dir_set_serverno server ddattr ddbitmap =
     (if \<not> (server \<ge> - 1 \<and> server < num_servers ddattr) then None
      else do {
        level \<leftarrow> dist_dir_calc_branch_level (ddattr\<lparr>server_no := server\<rparr>) ddbitmap;
        Some (0, ddattr\<lparr>server_no := server, branch_level := level\<rparr>) })"

section \<open>The active buckets\<close>

definition active :: "PVFS_dist_dir_bitmap \<Rightarrow> nat set" where
  "active bitmap = {n. n < 32 * length bitmap \<and> bit (bitmap ! (n div 32)) (n mod 32)}"

lemma word_index: "int n div 32 < int (length bitmap) \<longleftrightarrow> n < 32 * length bitmap" for bitmap :: PVFS_dist_dir_bitmap
  by linarith

lemma TST_BIT_active: "TST_BIT bitmap (int n) = (if n < 32 * length bitmap then Some (n \<in> active bitmap) else None)"
  by (auto simp: TST_BIT_def array_get_def word_index active_def nat_div_distrib nat_mod_distrib and_exp_eq_0_iff_not_bit)

lemma TST_BIT_True: "n \<in> active bitmap \<Longrightarrow> TST_BIT bitmap (int n) = Some True"
  by (simp add: TST_BIT_active) (simp add: active_def)

lemma SET_BIT_active:
  assumes "n < 32 * length bitmap"
  obtains bitmap' where "SET_BIT bitmap (int n) = Some bitmap'" "length bitmap' = length bitmap" "active bitmap' = insert n (active bitmap)"
proof -
  let ?w = "bitmap ! (n div 32)"
  let ?b = "bitmap[n div 32 := ?w OR push_bit (n mod 32) 1]"
  have k: "n div 32 < length bitmap" using assms by linarith
  have "SET_BIT bitmap (int n) = Some ?b"
    using k by (simp add: SET_BIT_def array_get_def array_set_def word_index assms nat_div_distrib nat_mod_distrib)
  moreover have "m \<in> active ?b \<longleftrightarrow> m = n \<or> m \<in> active bitmap" for m
  proof (cases "m div 32 = n div 32")
    case True
    then have "m = n \<longleftrightarrow> m mod 32 = n mod 32" by (metis div_mult_mod_eq)
    moreover have "bit (?w OR push_bit (n mod 32) 1) (m mod 32) \<longleftrightarrow> bit ?w (m mod 32) \<or> m mod 32 = n mod 32"
      by (auto simp: bit_or_iff bit_exp_iff)
    moreover have "m < 32 * length bitmap" using True k by linarith
    ultimately show ?thesis using True k by (auto simp: active_def)
  next
    case False
    then show ?thesis by (auto simp: active_def)
  qed
  then have "active ?b = insert n (active bitmap)" by blast
  ultimately show thesis by (intro that [of ?b]) simp_all
qed

lemma set_bits_below_active:
  assumes "n \<le> 32 * length bitmap"
  obtains bitmap' where "set_bits_below n bitmap = Some bitmap'" "length bitmap' = length bitmap" "active bitmap' = active bitmap \<union> {..<n}"
  using assms
proof (induction n arbitrary: bitmap thesis)
  case (Suc n)
  obtain b1 where b1: "SET_BIT bitmap (int n) = Some b1" "length b1 = length bitmap" "active b1 = insert n (active bitmap)"
    by (rule SET_BIT_active [of n bitmap]) (use Suc.prems(2) in auto)
  have "n \<le> 32 * length b1" using Suc.prems(2) b1(2) by simp
  then obtain b2 where b2: "set_bits_below n b1 = Some b2" "length b2 = length b1" "active b2 = active b1 \<union> {..<n}"
    by (rule Suc.IH [rotated])
  show ?case
  proof (rule Suc.prems(1))
    show "set_bits_below (Suc n) bitmap = Some b2" using b1(1) b2(1) by simp
    show "length b2 = length bitmap" using b1(2) b2(2) by simp
    show "active b2 = active bitmap \<union> {..<Suc n}" unfolding b2(3) b1(3) lessThan_Suc by simp
  qed
qed simp

lemma or_words_active:
  assumes "n \<le> length to_bitmap" "n \<le> length from_bitmap"
  obtains bitmap where "or_words n to_bitmap from_bitmap = Some bitmap" "length bitmap = length to_bitmap"
    "active bitmap = active to_bitmap \<union> {m \<in> active from_bitmap. m < 32 * n}"
  using assms
proof (induction n arbitrary: to_bitmap thesis)
  case 0
  show ?case by (rule 0(1) [of to_bitmap]) simp_all
next
  case (Suc n)
  let ?t = "to_bitmap[n := to_bitmap ! n OR from_bitmap ! n]"
  have n: "n \<le> length ?t" "n \<le> length from_bitmap" using Suc.prems(2,3) by simp_all
  obtain b where b: "or_words n ?t from_bitmap = Some b" "length b = length ?t" "active b = active ?t \<union> {m \<in> active from_bitmap. m < 32 * n}"
    by (rule Suc.IH [OF _ n])
  have "m \<in> active ?t \<longleftrightarrow> m \<in> active to_bitmap \<or> (m \<in> active from_bitmap \<and> m div 32 = n)" for m
    using Suc.prems(2,3) by (cases "m div 32 = n") (auto simp: active_def bit_or_iff)
  moreover have "m div 32 = n \<or> m < 32 * n \<longleftrightarrow> m < 32 * Suc n" for m by auto
  ultimately have "active b = active to_bitmap \<union> {m \<in> active from_bitmap. m < 32 * Suc n}" unfolding b(3) by blast
  moreover have "or_words (Suc n) to_bitmap from_bitmap = Some b"
    using b(1) Suc.prems(2,3) by (simp add: array_get_def array_set_def)
  ultimately show ?case using b(2) by (intro Suc.prems(1) [of b]) simp_all
qed

section \<open>Trees of buckets\<close>

lemma skip_levels_spec:
  assumes "\<And>j. j < k \<Longrightarrow> 2 ^ j \<le> n"
  shows "n < 2 ^ skip_levels n k" "j < skip_levels n k \<Longrightarrow> 2 ^ j \<le> n"
  using assms
proof (induction n k arbitrary: j rule: skip_levels.induct)
  case (1 n k)
  have step: "2 ^ k \<le> n \<longleftrightarrow> drop_bit k n \<noteq> 0" by (auto simp: drop_bit_eq_div div_eq_0_iff)
  { case 1 then show ?case using "1.IH"(1) step by (subst skip_levels.simps) (auto simp: less_Suc_eq) }
  { case 2 then show ?case using "1.IH"(2) step by (subst (asm) skip_levels.simps) (auto simp: less_Suc_eq split: if_splits) }
qed

lemma skip_levels_iff: "skip_levels n 0 \<le> l \<longleftrightarrow> n < 2 ^ l"
proof
  assume "skip_levels n 0 \<le> l"
  then have "2 ^ skip_levels n 0 \<le> (2 :: nat) ^ l" by (rule power_increasing) simp
  moreover have "n < 2 ^ skip_levels n 0" by (rule skip_levels_spec) simp
  ultimately show "n < 2 ^ l" by linarith
next
  assume "n < 2 ^ l"
  then show "skip_levels n 0 \<le> l" using skip_levels_spec(2) [of 0 n l] by (auto simp: not_le [symmetric])
qed

lemma ceil_log2_iff: "0 < n \<Longrightarrow> ceil_log2 n \<le> k \<longleftrightarrow> n \<le> 2 ^ k"
proof (induction n arbitrary: k rule: ceil_log2.induct)
  case (1 n)
  show ?case
  proof (cases "n \<le> 1")
    case True
    then have "n \<le> 2 ^ k" by (rule order_trans) simp
    then show ?thesis using True by (simp add: ceil_log2.simps [of n])
  next
    case False
    show ?thesis
    proof (cases k)
      case 0
      then show ?thesis using False by (simp add: ceil_log2.simps [of n])
    next
      case (Suc k')
      have "(n + 1) div 2 \<le> 2 ^ k' \<longleftrightarrow> n \<le> 2 ^ k" unfolding Suc by auto
      then show ?thesis using 1(1) [of k'] False Suc by (simp add: ceil_log2.simps [of n])
    qed
  qed
qed

text \<open>
  The buckets that can be active together: with a bucket also its parent, which lacks the highest bit, and the
  children of the parent at lower levels.
\<close>

definition dir_tree :: "nat \<Rightarrow> nat set \<Rightarrow> bool" where
  "dir_tree N T \<longleftrightarrow> 0 \<in> T \<and> T \<subseteq> {..<N} \<and>
     (\<forall>s l. s < 2 ^ l \<and> s + 2 ^ l \<in> T \<longrightarrow> s \<in> T \<and> (\<forall>k < l. s < 2 ^ k \<longrightarrow> s + 2 ^ k \<in> T))"

definition branch :: "nat set \<Rightarrow> nat \<Rightarrow> nat" where
  "branch T s = (LEAST l. s < 2 ^ l \<and> s + 2 ^ l \<notin> T)"

lemma dir_treeD:
  assumes "dir_tree N T"
  shows "0 \<in> T" "n \<in> T \<Longrightarrow> n < N" "s < 2 ^ l \<Longrightarrow> s + 2 ^ l \<in> T \<Longrightarrow> s \<in> T"
    "s < 2 ^ l \<Longrightarrow> s + 2 ^ l \<in> T \<Longrightarrow> k < l \<Longrightarrow> s < 2 ^ k \<Longrightarrow> s + 2 ^ k \<in> T"
  using assms unfolding dir_tree_def by blast+

lemma branch_spec:
  assumes "dir_tree N T" "N \<le> 2 ^ h" "s \<in> T"
  shows "branch T s \<le> h" "s < 2 ^ branch T s" "s < 2 ^ l \<Longrightarrow> s + 2 ^ l \<in> T \<longleftrightarrow> l < branch T s"
proof -
  note t = dir_treeD [OF assms(1)]
  let ?P = "\<lambda>l. s < 2 ^ l \<and> s + 2 ^ l \<notin> T"
  have "s + 2 ^ h \<notin> T" using t(2) [of "s + 2 ^ h"] assms(2) by auto
  then have h: "?P h" using t(2) [OF assms(3)] assms(2) by simp
  show "branch T s \<le> h" unfolding branch_def by (rule Least_le) (rule h)
  have P: "?P (branch T s)" unfolding branch_def by (rule LeastI [of ?P]) (rule h)
  then show "s < 2 ^ branch T s" by simp
  show "s + 2 ^ l \<in> T \<longleftrightarrow> l < branch T s" if "s < 2 ^ l"
  proof
    assume "s + 2 ^ l \<in> T"
    then show "l < branch T s" using t(4) [OF that, of "branch T s"] P by (metis linorder_neqE_nat)
  next
    assume "l < branch T s"
    then show "s + 2 ^ l \<in> T" using not_less_Least [of l ?P] that unfolding branch_def by blast
  qed
qed

text \<open>A bucket has a highest bit and a parent.\<close>

lemma parent_bit:
  assumes "0 < (n :: nat)"
  obtains s l where "s < 2 ^ l" "n = s + 2 ^ l"
proof -
  obtain l where l: "skip_levels n 0 = Suc l" using assms skip_levels_iff [of n 0] by (cases "skip_levels n 0") auto
  have "2 ^ l \<le> n" using skip_levels_spec(2) [of 0 n l] l by simp
  moreover have "n < 2 * 2 ^ l" using skip_levels_spec(1) [of 0 n] l by simp
  ultimately show thesis by (intro that [of "n - 2 ^ l" l]) auto
qed

section \<open>The state of a directory\<close>

definition height :: "PVFS_dist_dir_attr \<Rightarrow> nat" where
  "height attr = ceil_log2 (nat (num_servers attr))"

definition dir_ok :: "PVFS_dist_dir_attr \<Rightarrow> PVFS_dist_dir_bitmap \<Rightarrow> bool" where
  "dir_ok attr bitmap \<longleftrightarrow> 0 < num_servers attr \<and> num_servers attr < 2 ^ 31 \<and> tree_height attr = int (height attr) \<and>
     int (length bitmap) = bitmap_size attr \<and> bitmap_size attr = (if 2 ^ height attr > (32 :: int) then 2 ^ height attr div 32 else 1) \<and>
     dir_tree (nat (num_servers attr)) (active bitmap)"

lemma height_bounds:
  assumes "0 < num_servers attr"
  shows "nat (num_servers attr) \<le> 2 ^ height attr" "height attr \<le> k \<longleftrightarrow> nat (num_servers attr) \<le> 2 ^ k"
  unfolding height_def using ceil_log2_iff [of "nat (num_servers attr)"] assms by (metis order_refl zero_less_nat_eq)+

lemma words_bits: "(if 2 ^ h > (32 :: int) then 2 ^ h div 32 else 1) = int m \<Longrightarrow> 32 * m = max 32 (2 ^ h)"
proof (cases "5 < h")
  case True
  assume m: "(if 2 ^ h > (32 :: int) then 2 ^ h div 32 else 1) = int m"
  obtain k where h: "h = 5 + k" "0 < k" using True less_imp_add_positive by blast
  have "(2 :: int) ^ h = 32 * 2 ^ k" using h by (simp add: power_add)
  moreover have "(1 :: int) < 2 ^ k" using h by simp
  ultimately have "2 ^ k = int m" using m by simp
  then have "m = 2 ^ k" by (metis of_nat_eq_iff of_nat_numeral of_nat_power)
  then show ?thesis using h by (simp add: power_add max_def)
next
  case False
  assume m: "(if 2 ^ h > (32 :: int) then 2 ^ h div 32 else 1) = int m"
  have "(2 :: nat) ^ h \<le> 2 ^ 5" using False by (intro power_increasing) auto
  moreover have "(2 :: int) ^ h \<le> 2 ^ 5" using False by (intro power_increasing) auto
  ultimately show ?thesis using m by (simp add: max_def)
qed

lemma dir_okD:
  assumes "dir_ok attr bitmap"
  shows "0 < num_servers attr" "tree_height attr = int (height attr)" "32 * length bitmap = max 32 (2 ^ height attr)"
    "dir_tree (nat (num_servers attr)) (active bitmap)" "nat (num_servers attr) \<le> 2 ^ height attr" "height attr < 32"
proof -
  note d = assms [unfolded dir_ok_def]
  show "0 < num_servers attr" "tree_height attr = int (height attr)" "dir_tree (nat (num_servers attr)) (active bitmap)" using d by simp_all
  show "32 * length bitmap = max 32 (2 ^ height attr)" by (rule words_bits) (use d in simp)
  show "nat (num_servers attr) \<le> 2 ^ height attr" using height_bounds d by blast
  have "nat (num_servers attr) \<le> 2 ^ 31" using d by (simp add: nat_le_iff)
  then have "height attr \<le> 31" using height_bounds d by blast
  then show "height attr < 32" by simp
qed

lemma branch_loop_branch:
  assumes "dir_tree N (active bitmap)" "N \<le> 2 ^ h" "n \<in> active bitmap" "n < 2 ^ level" "level \<le> branch (active bitmap) n"
  shows "branch_loop bitmap n level =
    (if n + 2 ^ branch (active bitmap) n < 32 * length bitmap then Some (branch (active bitmap) n) else None)"
  using assms(4,5)
proof (induction "branch (active bitmap) n - level" arbitrary: level)
  case 0
  then have l: "level = branch (active bitmap) n" by simp
  have "n + 2 ^ level \<notin> active bitmap" using branch_spec(3) [OF assms(1-3) 0(2)] l by simp
  then have "branch_loop bitmap n level = (if n + 2 ^ level < 32 * length bitmap then Some level else None)"
    using TST_BIT_active [of bitmap "n + 2 ^ level"] by (simp add: branch_loop.simps [of _ _ level])
  then show ?case unfolding l .
next
  case (Suc k)
  then have "n + 2 ^ level \<in> active bitmap" using branch_spec(3) [OF assms(1-3) Suc(3)] by simp
  then have "TST_BIT bitmap (int (n + 2 ^ level)) = Some True" by (rule TST_BIT_True)
  moreover have "branch_loop bitmap n (Suc level) =
    (if n + 2 ^ branch (active bitmap) n < 32 * length bitmap then Some (branch (active bitmap) n) else None)"
    by (rule Suc(1)) (use Suc(2-4) in auto)
  ultimately show ?case by (simp add: branch_loop.simps [of _ _ level])
qed

text \<open>
  The branch level is right unless it has reached the height of a tree that fills its bitmap: then the loop
  tests the bit behind the last word.
\<close>

lemma calc_branch_level:
  assumes "dir_ok attr bitmap" "0 \<le> server_no attr" "nat (server_no attr) \<in> active bitmap"
  shows "dist_dir_calc_branch_level attr bitmap =
    (if 5 \<le> height attr \<and> branch (active bitmap) (nat (server_no attr)) = height attr then None
     else Some (int (branch (active bitmap) (nat (server_no attr)))))"
proof -
  note d = dir_okD [OF assms(1)]
  define n where "n = nat (server_no attr)"
  let ?b = "branch (active bitmap) n" and ?h = "height attr"
  have n: "n \<in> active bitmap" "server_no attr = int n" using assms by (simp_all add: n_def)
  note b = branch_spec [OF d(4,5) n(1)]
  have "n < nat (num_servers attr)" by (rule dir_treeD(2) [OF d(4) n(1)])
  then have lt: "int n < num_servers attr" by simp
  have "TST_BIT bitmap (int n) = Some True" by (rule TST_BIT_True [OF n(1)])
  moreover have "branch_loop bitmap n (skip_levels n 0) = (if n + 2 ^ ?b < 32 * length bitmap then Some ?b else None)"
  proof (rule branch_loop_branch [OF d(4,5) n(1)])
    show "n < 2 ^ skip_levels n 0" using skip_levels_iff by blast
    show "skip_levels n 0 \<le> ?b" using skip_levels_iff b(2) by blast
  qed
  moreover have "n + 2 ^ ?b < 32 * length bitmap \<longleftrightarrow> \<not> (5 \<le> ?h \<and> ?b = ?h)"
  proof (cases "?b = ?h")
    case True
    show ?thesis
    proof (cases "5 \<le> ?h")
      case h: True
      then have "(2 :: nat) ^ 5 \<le> 2 ^ ?h" by (rule power_increasing) simp
      then show ?thesis using d(3) True h by (simp add: max_def)
    next
      case h: False
      then have "(2 :: nat) ^ Suc ?h \<le> 2 ^ 5" by (intro power_increasing) simp_all
      then show ?thesis using d(3) b(2) True h by (simp add: max_def)
    qed
  next
    case False
    then have "(2 :: nat) ^ Suc ?b \<le> 2 ^ ?h" using b(1) by (intro power_increasing) simp_all
    then show ?thesis using d(3) b(2) False by simp
  qed
  ultimately show ?thesis using n(2) lt by (simp add: dist_dir_calc_branch_level_def n_def [symmetric] Let_def)
qed

section \<open>Finding a bucket\<close>

text \<open>The longest suffix of the hash that is an active bucket.\<close>

fun bucket :: "nat set \<Rightarrow> nat \<Rightarrow> nat \<Rightarrow> nat" where
  "bucket T 0 x = 0"
| "bucket T (Suc j) x = (if x mod 2 ^ Suc j \<in> T then x mod 2 ^ Suc j else bucket T j x)"

lemma low_bits: "w AND (push_bit j 1 - 1) = take_bit j w" for w :: "64 word"
  by (simp add: take_bit_eq_mask mask_eq_exp_minus_1)

lemma find_loop_bucket:
  assumes "0 \<in> active bitmap" "2 ^ j \<le> 32 * length bitmap" "j < 64"
  shows "\<exists>b. find_loop bitmap j (take_bit j hash) = Some b \<and> unat b = bucket (active bitmap) j (unat hash)"
  using assms(2,3)
proof (induction j)
  case 0
  have "TST_BIT bitmap (uint (0 :: 64 word)) = Some True" using TST_BIT_True [OF assms(1)] by simp
  then show ?case by (simp add: find_loop.simps)
next
  case (Suc j)
  let ?x = "take_bit (Suc j) hash"
  have u: "unat ?x = unat hash mod 2 ^ Suc j" unfolding unsigned_take_bit_eq by (rule take_bit_eq_mod)
  have "unat hash mod 2 ^ Suc j < 2 ^ Suc j" by simp
  then have "unat ?x < 32 * length bitmap" using u Suc.prems(1) by linarith
  then have t: "TST_BIT bitmap (uint ?x) = Some (unat hash mod 2 ^ Suc j \<in> active bitmap)"
    using TST_BIT_active [of bitmap "unat ?x"] u by (simp add: uint_nat)
  show ?case
  proof (cases "unat hash mod 2 ^ Suc j \<in> active bitmap")
    case True
    then show ?thesis using t u by (simp add: find_loop.simps [of _ "Suc j"])
  next
    case False
    have "?x AND (push_bit j 1 - 1) = take_bit j hash"
      by (simp add: low_bits del: push_bit_of_1)
    then show ?thesis using t False Suc by (simp add: find_loop.simps [of _ "Suc j"])
  qed
qed

lemma find_bucket:
  assumes "dir_ok attr bitmap"
  shows "PINT_find_dist_dir_bucket hash attr bitmap = Some (int (bucket (active bitmap) (height attr) (unat hash)))"
proof -
  note d = dir_okD [OF assms]
  have bits: "2 ^ height attr \<le> 32 * length bitmap" unfolding d(3) by simp
  have "height attr < 64" using d(6) by simp
  then obtain b where b: "find_loop bitmap (height attr) (take_bit (height attr) hash) = Some b" "unat b = bucket (active bitmap) (height attr) (unat hash)"
    using find_loop_bucket [OF dir_treeD(1) [OF d(4)] bits, of hash] by blast
  have "uint b = int (bucket (active bitmap) (height attr) (unat hash))" unfolding b(2) [symmetric] by (rule uint_nat)
  then show ?thesis using d(2) b(1) by (simp add: PINT_find_dist_dir_bucket_def Let_def low_bits del: push_bit_of_1)
qed

lemma bucket_deepest:
  assumes "0 \<in> T"
  obtains j where "j \<le> h" "bucket T h x = x mod 2 ^ j" "x mod 2 ^ j \<in> T" "\<And>i. j < i \<Longrightarrow> i \<le> h \<Longrightarrow> x mod 2 ^ i \<notin> T"
proof (induction h arbitrary: thesis)
  case 0
  show ?case by (rule 0 [of 0]) (use assms in auto)
next
  case (Suc h)
  show ?case
  proof (cases "x mod 2 ^ Suc h \<in> T")
    case True
    then show ?thesis by (intro Suc.prems [of "Suc h"]) auto
  next
    case False
    obtain j where j: "j \<le> h" "bucket T h x = x mod 2 ^ j" "x mod 2 ^ j \<in> T" "\<And>i. j < i \<Longrightarrow> i \<le> h \<Longrightarrow> x mod 2 ^ i \<notin> T"
      by (rule Suc.IH) blast
    show ?thesis
      by (rule Suc.prems [of j]) (use j False in \<open>auto simp: le_Suc_eq simp del: power_Suc\<close>)
  qed
qed

lemma bucket_eqI:
  assumes "j \<le> h" "x mod 2 ^ j \<in> T" "\<And>i. j < i \<Longrightarrow> i \<le> h \<Longrightarrow> x mod 2 ^ i \<notin> T" "0 \<in> T"
  shows "bucket T h x = x mod 2 ^ j"
proof -
  obtain k where k: "k \<le> h" "bucket T h x = x mod 2 ^ k" "x mod 2 ^ k \<in> T" "\<And>i. k < i \<Longrightarrow> i \<le> h \<Longrightarrow> x mod 2 ^ i \<notin> T"
    using bucket_deepest [OF assms(4), of h x] by blast
  have "k = j" using assms(1-3) k by (metis linorder_neqE_nat)
  then show ?thesis using k(2) by simp
qed

lemma suffix_step: "x mod 2 ^ Suc i = x mod 2 ^ i + (if bit x i then 2 ^ i else 0)" for x :: nat
  using take_bit_Suc_from_most [of i x] by (simp add: take_bit_eq_mod add.commute)

lemma suffix_closed:
  assumes "dir_tree N T" "x mod 2 ^ i \<in> T" "j \<le> i"
  shows "x mod 2 ^ j \<in> T"
  using assms(2,3)
proof (induction i)
  case (Suc i)
  have "x mod 2 ^ i \<in> T"
    using Suc.prems(1) dir_treeD(3) [OF assms(1), of "x mod 2 ^ i" i] by (auto simp: suffix_step split: if_splits simp del: power_Suc)
  then show ?case using Suc by (cases "j = Suc i") auto
qed simp

lemma top_bit_unique:
  assumes "s < 2 ^ l" "s' < 2 ^ l'" "s + 2 ^ l = s' + (2 :: nat) ^ l'"
  shows "l' = l" "s' = s"
proof -
  have "\<not> l < l'"
  proof
    assume "l < l'"
    then have "(2 :: nat) ^ Suc l \<le> 2 ^ l'" by (intro power_increasing) auto
    then show False using assms by simp
  qed
  moreover have "\<not> l' < l"
  proof
    assume "l' < l"
    then have "(2 :: nat) ^ Suc l' \<le> 2 ^ l" by (intro power_increasing) auto
    then show False using assms by simp
  qed
  ultimately show "l' = l" by simp
  then show "s' = s" using assms(3) by simp
qed

lemma split_tree:
  assumes "dir_tree N T" "N \<le> 2 ^ h" "s \<in> T" "s + 2 ^ branch T s < N"
  shows "dir_tree N (insert (s + 2 ^ branch T s) T)"
proof -
  note t = dir_treeD [OF assms(1)] and b = branch_spec [OF assms(1-3)]
  have "s' \<in> T \<and> (\<forall>k < l. s' < 2 ^ k \<longrightarrow> s' + 2 ^ k \<in> insert (s + 2 ^ branch T s) T)"
    if "s' < 2 ^ l" "s' + 2 ^ l \<in> insert (s + 2 ^ branch T s) T" for s' l
  proof (cases "s' + 2 ^ l \<in> T")
    case True
    then show ?thesis using t(3,4) [OF that(1) True] by blast
  next
    case False
    then have "s' + 2 ^ l = s + 2 ^ branch T s" using that(2) by blast
    then have "l = branch T s" "s' = s" using top_bit_unique [OF b(2) that(1)] by auto
    then show ?thesis using assms(3) b(3) by auto
  qed
  then show ?thesis using t(1,2) assms(4) unfolding dir_tree_def by blast
qed

text \<open>The hash values in the bucket of a server agree with its number up to the branch level.\<close>

lemma bucket_suffix:
  assumes "dir_tree N T" "N \<le> 2 ^ h" "s \<in> T" "branch T s < h" "bucket T h x = s"
  shows "x mod 2 ^ branch T s = s"
proof -
  note t = dir_treeD [OF assms(1)] and b = branch_spec [OF assms(1-3)]
  obtain j where j: "j \<le> h" "bucket T h x = x mod 2 ^ j" "x mod 2 ^ j \<in> T" "\<And>i. j < i \<Longrightarrow> i \<le> h \<Longrightarrow> x mod 2 ^ i \<notin> T"
    using bucket_deepest [OF t(1), of h x] by blast
  have xs: "x mod 2 ^ j = s" using assms(5) j(2) by simp
  show ?thesis
  proof (cases "branch T s \<le> j")
    case True
    then have "x mod 2 ^ branch T s = s mod 2 ^ branch T s" unfolding xs [symmetric] by (metis le_imp_power_dvd mod_mod_cancel)
    then show ?thesis using b(2) by simp
  next
    case False
    have "x mod 2 ^ i = s" if "j \<le> i" "i \<le> branch T s" for i
      using that
    proof (induction i rule: dec_induct)
      case (step i)
      have "x mod 2 ^ i < 2 ^ i" by simp
      moreover have xi: "x mod 2 ^ i = s" using step by simp
      ultimately have "s < 2 ^ i" by simp
      then have "s + 2 ^ i \<in> T" using b(3) step by simp
      then show ?case using j(4) [of "Suc i"] xi step assms(4) by (auto simp: suffix_step simp del: power_Suc)
    qed (rule xs)
    then show ?thesis using False by simp
  qed
qed

lemma new_bucket:
  assumes "dir_tree N T" "N \<le> 2 ^ h" "s \<in> T" "branch T s < h" "x mod 2 ^ Suc (branch T s) = s + 2 ^ branch T s"
  shows "bucket T h x = s" "bit x (branch T s)" "bucket (insert (s + 2 ^ branch T s) T) h x = s + 2 ^ branch T s"
proof -
  let ?L = "branch T s" and ?m = "s + 2 ^ branch T s"
  note t = dir_treeD [OF assms(1)] and b = branch_spec [OF assms(1-3)]
  have m: "?m \<notin> T" using b(2,3) by blast
  have "x mod 2 ^ ?L < 2 ^ ?L" by simp
  then have "x mod 2 ^ ?L \<noteq> ?m" by linarith
  then show bit: "bit x ?L" using assms(5) by (auto simp: suffix_step split: if_splits simp del: power_Suc)
  then have xs: "x mod 2 ^ ?L = s" using assms(5) by (simp add: suffix_step del: power_Suc)
  have deep: "x mod 2 ^ i \<notin> T" if "?L < i" for i
    using suffix_closed [OF assms(1), of x i "Suc ?L"] assms(5) m that by auto
  show "bucket T h x = s" using bucket_eqI [of ?L h x T] xs deep assms(3,4) t(1) by simp
  obtain j where j: "j \<le> h" "bucket (insert ?m T) h x = x mod 2 ^ j" "x mod 2 ^ j \<in> insert ?m T"
    "\<And>i. j < i \<Longrightarrow> i \<le> h \<Longrightarrow> x mod 2 ^ i \<notin> insert ?m T"
    using bucket_deepest [of "insert ?m T" h x] t(1) by blast
  have "Suc ?L \<le> j" using j(4) [of "Suc ?L"] assms(4,5) by (metis Suc_leI insertI1 not_le)
  then show "bucket (insert ?m T) h x = ?m" using deep j(2,3) by auto
qed

lemma old_bucket:
  assumes "s < 2 ^ L" "x mod 2 ^ Suc L \<noteq> s + 2 ^ L"
  shows "bucket (insert (s + 2 ^ L) T) k x = bucket T k x"
proof -
  have never: "x mod 2 ^ i \<noteq> s + 2 ^ L" for i
  proof
    assume i: "x mod 2 ^ i = s + 2 ^ L"
    have "x mod 2 ^ i < 2 ^ i" by simp
    then have "(2 :: nat) ^ L < 2 ^ i" unfolding i by linarith
    then have "Suc L \<le> i" by simp
    then have "x mod 2 ^ i mod 2 ^ Suc L = x mod 2 ^ Suc L" by (metis le_imp_power_dvd mod_mod_cancel)
    moreover have "(s + 2 ^ L) mod 2 ^ Suc L = s + 2 ^ L" using assms(1) by simp
    ultimately show False using i assms(2) by simp
  qed
  show ?thesis by (induction k) (use never in \<open>auto simp del: power_Suc\<close>)
qed

lemma split_bucket:
  assumes "dir_tree N T" "N \<le> 2 ^ h" "s \<in> T" "branch T s < h"
  shows "bucket (insert (s + 2 ^ branch T s) T) h x = (if bucket T h x = s \<and> bit x (branch T s) then s + 2 ^ branch T s else bucket T h x)"
proof (cases "x mod 2 ^ Suc (branch T s) = s + 2 ^ branch T s")
  case True
  then show ?thesis using new_bucket [OF assms True] by simp
next
  case False
  then have "\<not> (bucket T h x = s \<and> bit x (branch T s))"
    using bucket_suffix [OF assms] by (auto simp: suffix_step simp del: power_Suc)
  then show ?thesis using old_bucket [OF branch_spec(2) [OF assms(1-3)] False] by simp
qed

section \<open>Properties\<close>

lemma bucket_active: "0 \<in> T \<Longrightarrow> bucket T h x \<in> T"
  using bucket_deepest [of T h x] by metis

lemma is_bucket_active:
  assumes "dir_ok attr bitmap"
  shows "PINT_is_dist_dir_bucket_active attr bitmap (int n) = Some (n \<in> active bitmap)"
proof (cases "int n < num_servers attr")
  case True
  then have "n < nat (num_servers attr)" by simp
  then have "n < 2 ^ height attr" using dir_okD(5) [OF assms] by (rule less_le_trans)
  then have "n < 32 * length bitmap" unfolding dir_okD(3) [OF assms] by (simp add: less_max_iff_disj)
  then show ?thesis using True by (simp add: PINT_is_dist_dir_bucket_active_def TST_BIT_active)
next
  case False
  then have "n \<notin> active bitmap" using dir_treeD(2) [OF dir_okD(4) [OF assms], of n] by auto
  then show ?thesis using False by (simp add: PINT_is_dist_dir_bucket_active_def)
qed

definition ex_dir :: "PVFS_dist_dir_attr \<times> PVFS_dist_dir_bitmap" where
  "ex_dir = (\<lparr>tree_height = 2, num_servers = 4, bitmap_size = 1, split_size = 3, server_no = 1, branch_level = 1\<rparr>, [3])"

lemma active_zero: "active (replicate n 0) = {}"
proof -
  have "k div 32 < n" if "k < 32 * n" for k using that by linarith
  then show ?thesis by (auto simp: active_def)
qed

lemma init_state:
  assumes "0 < num" "num < 2 ^ 31" "0 < pre" "pre \<le> num"
  obtains bitmap where "set_bits_below (nat pre) (replicate (nat (if 2 ^ ceil_log2 (nat num) > (32 :: int) then 2 ^ ceil_log2 (nat num) div 32 else 1)) 0) = Some bitmap"
    "\<And>attr. tree_height attr = int (ceil_log2 (nat num)) \<Longrightarrow> num_servers attr = num \<Longrightarrow>
       bitmap_size attr = (if 2 ^ ceil_log2 (nat num) > (32 :: int) then 2 ^ ceil_log2 (nat num) div 32 else 1) \<Longrightarrow> dir_ok attr bitmap"
    "active bitmap = {..<nat pre}"
proof -
  let ?h = "ceil_log2 (nat num)"
  let ?size = "if 2 ^ ?h > (32 :: int) then 2 ^ ?h div 32 else 1"
  let ?z = "replicate (nat ?size) (0 :: 32 word)"
  have size: "?size = int (nat ?size)" by (simp add: pos_imp_zdiv_nonneg_iff)
  have bits: "32 * length ?z = max 32 (2 ^ ?h)" using words_bits [OF size] by simp
  have h: "nat num \<le> 2 ^ ?h" using ceil_log2_iff [of "nat num" ?h] assms(1) by simp
  have "nat pre \<le> nat num" using assms(4) by simp
  then have "nat pre \<le> 32 * length ?z" unfolding bits using h by (intro max.coboundedI2) (rule order_trans)
  then obtain bitmap where b: "set_bits_below (nat pre) ?z = Some bitmap" "length bitmap = length ?z" "active bitmap = active ?z \<union> {..<nat pre}"
    by (rule set_bits_below_active)
  have a: "active bitmap = {..<nat pre}" using b(3) by (simp only: active_zero) simp
  have "s + 2 ^ k < nat pre" if "s + 2 ^ l < nat pre" "k < l" for s k l :: nat
    using that power_strict_increasing [of k l "2 :: nat"] by linarith
  then have tree: "dir_tree (nat num) {..<nat pre}"
    using assms by (auto simp: dir_tree_def)
  show thesis
  proof (rule that [OF b(1) _ a])
    fix attr :: PVFS_dist_dir_attr
    assume "tree_height attr = int ?h" "num_servers attr = num" "bitmap_size attr = ?size"
    then show "dir_ok attr bitmap" using assms b(2) tree size unfolding dir_ok_def height_def a by simp
  qed
qed

lemma small_height: "dir_ok attr bitmap \<Longrightarrow> 5 \<le> height attr \<longleftrightarrow> 16 < num_servers attr"
  using height_bounds(2) [of attr 4] dir_okD(1) [of attr bitmap] by auto

lemma branch_insert:
  assumes "dir_tree N T" "N \<le> 2 ^ h" "s \<in> T" "s + 2 ^ branch T s < N"
  shows "branch (insert (s + 2 ^ branch T s) T) s = Suc (branch T s)"
proof -
  let ?T = "insert (s + 2 ^ branch T s) T"
  note b = branch_spec [OF assms(1-3)] and b' = branch_spec [OF split_tree [OF assms] assms(2), of s]
  have s: "s < 2 ^ Suc (branch T s)" using b(2) by simp
  have "s + 2 ^ Suc (branch T s) \<notin> ?T" using b(3) [OF s] by simp
  then show ?thesis using b'(3) [OF _ s] b'(3) [OF _ b(2)] assms(3) by auto
qed

lemma ex_dir_ok: "dir_ok (fst ex_dir) (snd ex_dir)"
proof -
  have h: "ceil_log2 (nat 4) = 2" by code_simp
  have s: "set_bits_below (nat 2) [0] = Some [3]" by code_simp
  show ?thesis by (rule init_state [of 4 2]) (use h s in \<open>simp_all add: ex_dir_def\<close>)
qed

lemma calc_branch_level_total:
  assumes "dir_ok attr bitmap" "0 \<le> server_no attr" "server_no attr < num_servers attr" "\<not> 5 \<le> height attr"
  shows "\<exists>l. dist_dir_calc_branch_level attr bitmap = Some l"
proof (cases "nat (server_no attr) \<in> active bitmap")
  case True
  then show ?thesis using calc_branch_level [OF assms(1,2)] assms(4) by simp
next
  case False
  then have "TST_BIT bitmap (server_no attr) = Some False"
    using is_bucket_active [OF assms(1), of "nat (server_no attr)"] assms(2,3) by (simp add: PINT_is_dist_dir_bucket_active_def)
  then show ?thesis using assms(2,3) by (simp add: dist_dir_calc_branch_level_def)
qed

text \<open>C19. The search for a bucket ends for every hash value with an active bucket: the longest suffix of
  the hash, of at most \<open>tree_height\<close> bits, whose bucket is active.\<close>

theorem find_bucket_longest:
  assumes "dir_ok attr bitmap"
  shows "\<exists>j \<le> nat (tree_height attr). PINT_find_dist_dir_bucket hash attr bitmap = Some (int (unat hash mod 2 ^ j)) \<and>
    PINT_is_dist_dir_bucket_active attr bitmap (int (unat hash mod 2 ^ j)) = Some True \<and>
    (\<forall>i. j < i \<and> i \<le> nat (tree_height attr) \<longrightarrow> PINT_is_dist_dir_bucket_active attr bitmap (int (unat hash mod 2 ^ i)) = Some False)"
proof -
  note d = dir_okD [OF assms]
  obtain j where j: "j \<le> height attr" "bucket (active bitmap) (height attr) (unat hash) = unat hash mod 2 ^ j" "unat hash mod 2 ^ j \<in> active bitmap"
    "\<And>i. j < i \<Longrightarrow> i \<le> height attr \<Longrightarrow> unat hash mod 2 ^ i \<notin> active bitmap"
    using bucket_deepest [OF dir_treeD(1) [OF d(4)], of "height attr" "unat hash"] by blast
  show ?thesis
    unfolding d(2) nat_int is_bucket_active [OF assms] find_bucket [OF assms] j(2) using j(1,3,4) by (intro exI [of _ j]) blast
qed

theorem find_bucket_longest_witness:
  "\<exists>j \<le> 2. PINT_find_dist_dir_bucket 7 (fst ex_dir) (snd ex_dir) = Some (int (7 mod 2 ^ j))"
  using find_bucket_longest [OF ex_dir_ok, of 7] by (auto simp: ex_dir_def)

text \<open>What a split does; the properties rest on it.\<close>

lemma split_node:
  assumes "dir_ok attr bitmap" "0 \<le> server_no attr" "PINT_is_dist_dir_bucket_active attr bitmap (server_no attr) = Some True"
    "dist_dir_calc_branch_level attr bitmap = Some (branch_level attr)"
  shows "case PINT_find_dist_dir_split_node attr bitmap of
      None \<Rightarrow> 16 < num_servers attr \<and> branch_level attr + 1 = tree_height attr
    | Some (new, attr', bitmap') \<Rightarrow>
        if branch_level attr \<ge> tree_height attr \<or> server_no attr + 2 ^ nat (branch_level attr) \<ge> num_servers attr
        then new = - 1 \<and> attr' = attr \<and> bitmap' = bitmap
        else new = server_no attr + 2 ^ nat (branch_level attr) \<and> attr' = attr\<lparr>branch_level := branch_level attr + 1\<rparr> \<and>
          dir_ok attr' bitmap' \<and> dist_dir_calc_branch_level attr' bitmap' = Some (branch_level attr') \<and>
          (\<forall>hash. PINT_find_dist_dir_bucket hash attr' bitmap' =
             (if PINT_find_dist_dir_bucket hash attr bitmap = Some (server_no attr) \<and> bit hash (nat (branch_level attr)) then Some new
              else PINT_find_dist_dir_bucket hash attr bitmap)) \<and>
          (\<forall>hash. PINT_find_dist_dir_bucket hash attr bitmap \<noteq> Some new)"
proof -
  note d = dir_okD [OF assms(1)]
  define s where "s = nat (server_no attr)"
  let ?T = "active bitmap" and ?h = "height attr"
  let ?L = "branch ?T s"
  have sn: "server_no attr = int s" using assms(2) by (simp add: s_def)
  have s: "s \<in> ?T" using assms(3) unfolding sn is_bucket_active [OF assms(1)] by simp
  note b = branch_spec [OF d(4,5) s]
  have L: "branch_level attr = int ?L"
    using calc_branch_level [OF assms(1,2)] s assms(4) unfolding s_def [symmetric] by (simp split: if_splits)
  let ?m = "s + 2 ^ ?L"
  have m: "server_no attr + 2 ^ nat (branch_level attr) = int ?m" by (simp add: sn L)
  show ?thesis
  proof (cases "?L \<ge> ?h \<or> int ?m \<ge> num_servers attr")
    case True
    then have "PINT_find_dist_dir_split_node attr bitmap = Some (- 1, attr, bitmap)"
      by (auto simp: PINT_find_dist_dir_split_node_def Let_def sn L d(2))
    then show ?thesis using True by (simp add: sn L d(2))
  next
    case False
    then have lt: "?L < ?h" "?m < nat (num_servers attr)" by (simp_all only: zless_nat_eq_int_zless not_le de_Morgan_disj)
    have "?m < 2 ^ ?h" by (rule less_le_trans [OF lt(2) d(5)])
    then have bit: "?m < 32 * length bitmap" unfolding d(3) by (simp add: less_max_iff_disj)
    obtain bm where bm: "SET_BIT bitmap (int ?m) = Some bm" "length bm = length bitmap" "active bm = insert ?m ?T"
      by (rule SET_BIT_active [OF bit])
    have "?m \<notin> ?T" using b(2,3) by blast
    then have tst: "TST_BIT bitmap (int ?m) = Some False" using bit by (simp only: TST_BIT_active) simp
    have tree: "dir_tree (nat (num_servers attr)) (active bm)" unfolding bm(3) by (rule split_tree [OF d(4,5) s lt(2)])
    have ok: "dir_ok (attr\<lparr>branch_level := l\<rparr>) bm" for l
      using assms(1) tree bm(2) unfolding dir_ok_def height_def by simp
    have hl: "height (attr\<lparr>branch_level := l\<rparr>) = ?h" for l by (simp add: height_def)
    have calc: "dist_dir_calc_branch_level (attr\<lparr>branch_level := l\<rparr>) bm = (if 5 \<le> ?h \<and> Suc ?L = ?h then None else Some (int (Suc ?L)))" for l
      using calc_branch_level [OF ok [of l]] assms(2) s branch_insert [OF d(4,5) s lt(2)] by (simp add: bm(3) hl s_def [symmetric])
    have "attr\<lparr>branch_level := branch_level attr\<rparr> = attr" by simp
    then have calc0: "dist_dir_calc_branch_level attr bm = (if 5 \<le> ?h \<and> Suc ?L = ?h then None else Some (int (Suc ?L)))"
      using calc [of "branch_level attr"] by simp
    have run: "PINT_find_dist_dir_split_node attr bitmap =
      (if 5 \<le> ?h \<and> Suc ?L = ?h then None else Some (int ?m, attr\<lparr>branch_level := int (Suc ?L)\<rparr>, bm))"
      using lt sn L tst bm(1) calc0 d(2) False by (simp add: PINT_find_dist_dir_split_node_def Let_def)
    show ?thesis
    proof (cases "5 \<le> ?h \<and> Suc ?L = ?h")
      case True
      then show ?thesis using run small_height [OF assms(1)] by (simp add: L d(2))
    next
      case nf: False
      have "PINT_find_dist_dir_bucket hash (attr\<lparr>branch_level := l\<rparr>) bm =
        (if PINT_find_dist_dir_bucket hash attr bitmap = Some (int s) \<and> bit hash ?L then Some (int ?m) else PINT_find_dist_dir_bucket hash attr bitmap)" for l hash
        unfolding find_bucket [OF ok] find_bucket [OF assms(1)] hl bm(3) split_bucket [OF d(4,5) s lt(1)] by (simp add: bit_unsigned_iff)
      moreover have "PINT_find_dist_dir_bucket hash attr bitmap \<noteq> Some (int ?m)" for hash
        unfolding find_bucket [OF assms(1)] using bucket_active [OF dir_treeD(1) [OF d(4)], of ?h "unat hash"] \<open>?m \<notin> ?T\<close> by (metis of_nat_eq_iff option.inject)
      ultimately show ?thesis using run nf ok calc False by (simp add: sn L d(2) add.commute)
    qed
  qed
qed

text \<open>C14. A split activates one more bucket: the one whose number is that of the server with the bit at
  the branch level set. It takes from the server exactly the hash values in which this bit is set, and leaves every
  other hash value in its bucket; the tree stays well-formed and the branch level grows by one. No split happens
  exactly if the branch level has reached the height of the tree or there is no server for the new bucket. The code
  overruns the bitmap only with more than 16 servers.\<close>

theorem split_moves:
  assumes "dir_ok attr bitmap" "0 \<le> server_no attr" "PINT_is_dist_dir_bucket_active attr bitmap (server_no attr) = Some True"
    "dist_dir_calc_branch_level attr bitmap = Some (branch_level attr)"
  shows "case PINT_find_dist_dir_split_node attr bitmap of
      None \<Rightarrow> 16 < num_servers attr \<and> branch_level attr + 1 = tree_height attr
    | Some (new, attr', bitmap') \<Rightarrow>
        if branch_level attr \<ge> tree_height attr \<or> server_no attr + 2 ^ nat (branch_level attr) \<ge> num_servers attr
        then new = - 1 \<and> attr' = attr \<and> bitmap' = bitmap
        else new = server_no attr + 2 ^ nat (branch_level attr) \<and> attr' = attr\<lparr>branch_level := branch_level attr + 1\<rparr> \<and>
          dir_ok attr' bitmap' \<and> dist_dir_calc_branch_level attr' bitmap' = Some (branch_level attr') \<and>
          (\<forall>hash. PINT_find_dist_dir_bucket hash attr' bitmap' =
             (if PINT_find_dist_dir_bucket hash attr bitmap = Some (server_no attr) \<and> bit hash (nat (branch_level attr)) then Some new
              else PINT_find_dist_dir_bucket hash attr bitmap))"
  using split_node [OF assms] by (auto split: option.splits prod.splits if_splits)

theorem split_moves_witness:
  "case PINT_find_dist_dir_split_node (fst ex_dir) (snd ex_dir) of
     None \<Rightarrow> False
   | Some (new, attr', bitmap') \<Rightarrow> new = 3 \<and> PINT_find_dist_dir_bucket 7 attr' bitmap' = Some 3 \<and> PINT_find_dist_dir_bucket 5 attr' bitmap' = Some 1"
proof -
  have a: "0 \<le> server_no (fst ex_dir)" "branch_level (fst ex_dir) = 1" "tree_height (fst ex_dir) = 2" "num_servers (fst ex_dir) = 4" "server_no (fst ex_dir) = 1"
    by (simp_all add: ex_dir_def)
  have b: "PINT_is_dist_dir_bucket_active (fst ex_dir) (snd ex_dir) (server_no (fst ex_dir)) = Some True"
    "dist_dir_calc_branch_level (fst ex_dir) (snd ex_dir) = Some (branch_level (fst ex_dir))"
    "PINT_find_dist_dir_bucket 7 (fst ex_dir) (snd ex_dir) = Some 1" "PINT_find_dist_dir_bucket 5 (fst ex_dir) (snd ex_dir) = Some 1"
    by code_simp+
  have c: "bit (7 :: 64 word) (nat 1)" "\<not> bit (5 :: 64 word) (nat 1)" by code_simp+
  show ?thesis using split_moves [OF ex_dir_ok a(1) b(1,2)] a(2-5) b(3,4) c
    by (simp split: option.splits prod.splits)
qed

text \<open>C31. A new directory over at most 16 servers, or over any number of servers when no server is given (\<open>server = -1\<close>, as for
  the metadata object), has a well-formed tree with exactly the buckets below the requested number active, and the
  branch level of the given server (-1 if none is given).\<close>

theorem init_dir_state:
  assumes "0 < num" "num < 2 ^ 31" "- 1 \<le> server" "server < num" "num \<le> 16 \<or> server = - 1"
  shows "\<exists>attr bitmap. PINT_init_dist_dir_state num server pre split = Some (0, attr, bitmap) \<and> dir_ok attr bitmap \<and>
    num_servers attr = num \<and> split_size attr = split \<and> server_no attr = server \<and>
    (\<forall>i. PINT_is_dist_dir_bucket_active attr bitmap i = Some (0 \<le> i \<and> i < (if pre \<le> 0 \<or> pre > num then num else pre))) \<and>
    (if server = - 1 then branch_level attr = - 1 else dist_dir_calc_branch_level attr bitmap = Some (branch_level attr))"
proof -
  define pre' where "pre' = (if pre \<le> 0 \<or> pre > num then num else pre)"
  define sz :: int where "sz = (if 2 ^ ceil_log2 (nat num) > (32 :: int) then 2 ^ ceil_log2 (nat num) div 32 else 1)"
  define base where "base l = \<lparr>tree_height = int (ceil_log2 (nat num)), num_servers = num, bitmap_size = sz, split_size = split,
    server_no = server, branch_level = l\<rparr>" for l
  have p: "0 < pre'" "pre' \<le> num" using assms(1) by (auto simp: pre'_def)
  obtain bm where bm: "set_bits_below (nat pre') (replicate (nat sz) 0) = Some bm"
    "\<And>attr. tree_height attr = int (ceil_log2 (nat num)) \<Longrightarrow> num_servers attr = num \<Longrightarrow> bitmap_size attr = sz \<Longrightarrow> dir_ok attr bm"
    "active bm = {..<nat pre'}"
    using init_state [OF assms(1,2) p, folded sz_def] by blast
  have ok: "dir_ok (base l) bm" for l by (rule bm(2)) (simp_all add: base_def)
  have act: "PINT_is_dist_dir_bucket_active (base l) bm i = Some (0 \<le> i \<and> i < pre')" for l i
  proof (cases "0 \<le> i")
    case True
    then show ?thesis using is_bucket_active [OF ok [of l], of "nat i"] p by (simp add: bm(3))
  qed (simp add: PINT_is_dist_dir_bucket_active_def)
  obtain l where l: "(if server > - 1 then dist_dir_calc_branch_level (base (- 1)) bm else Some (- 1)) = Some l"
    and lv: "if server = - 1 then l = - 1 else dist_dir_calc_branch_level (base l) bm = Some l"
  proof (cases "server = - 1")
    case False
    then have small: "\<not> 5 \<le> height (base (- 1))" using assms(5) small_height [OF ok] by (simp add: base_def)
    have "\<exists>l. dist_dir_calc_branch_level (base (- 1)) bm = Some l"
      using calc_branch_level_total [OF ok _ _ small] assms(3,4) False by (simp add: base_def)
    moreover have "dist_dir_calc_branch_level (base l) bm = dist_dir_calc_branch_level (base (- 1)) bm" for l
      unfolding dist_dir_calc_branch_level_def base_def PVFS_dist_dir_attr.select_convs ..
    ultimately show thesis using that assms(3) False by auto
  qed (use that in simp)
  have "PINT_init_dist_dir_state num server pre split = Some (0, base l, bm)"
    using assms(1,3,4) l bm(1) unfolding PINT_init_dist_dir_state_def
    by (simp add: Let_def pre'_def [symmetric] sz_def [symmetric]) (auto simp: base_def split: if_splits)
  then show ?thesis using ok act lv unfolding pre'_def [symmetric]
    by (intro exI [of _ "base l"] exI [of _ bm]) (auto simp: base_def)
qed

theorem init_dir_state_witness:
  "PINT_init_dist_dir_state 4 1 2 3 = Some (0, ex_dir) \<and> dir_ok (fst ex_dir) (snd ex_dir)"
proof -
  have "PINT_init_dist_dir_state 4 1 2 3 = Some (0, ex_dir)" by code_simp
  moreover obtain attr bitmap where "PINT_init_dist_dir_state 4 1 2 3 = Some (0, attr, bitmap)" "dir_ok attr bitmap"
    using init_dir_state [of 4 1 2 3] by auto
  ultimately show ?thesis by (metis fst_conv option.inject snd_conv)
qed

text \<open>C37. In a directory on more than 16 servers that are all active, the computation of the branch level for server 0 tests
  a bit behind the bitmap: the initialization leaves the allocated memory.\<close>

theorem init_overruns_bitmap:
  assumes "16 < num" "num < 2 ^ 31"
  shows "PINT_init_dist_dir_state num 0 num split = None"
proof -
  define sz :: int where "sz = (if 2 ^ ceil_log2 (nat num) > (32 :: int) then 2 ^ ceil_log2 (nat num) div 32 else 1)"
  define base where "base = \<lparr>tree_height = int (ceil_log2 (nat num)), num_servers = num, bitmap_size = sz, split_size = split,
    server_no = 0, branch_level = - 1\<rparr>"
  obtain bm where bm: "set_bits_below (nat num) (replicate (nat sz) 0) = Some bm"
    "\<And>attr. tree_height attr = int (ceil_log2 (nat num)) \<Longrightarrow> num_servers attr = num \<Longrightarrow> bitmap_size attr = sz \<Longrightarrow> dir_ok attr bm"
    "active bm = {..<nat num}"
    using init_state [of num num, folded sz_def] assms by auto
  have ok: "dir_ok base bm" by (rule bm(2)) (simp_all add: base_def)
  note d = dir_okD [OF ok]
  let ?b = "branch (active bm) 0"
  have z: "0 \<in> active bm" using bm(3) assms(1) by simp
  note b = branch_spec [OF d(4,5) z]
  have h: "5 \<le> height base" using small_height [OF ok] assms(1) by (simp add: base_def)
  have "\<not> height base \<le> height base - 1" using h by linarith
  then have "2 ^ (height base - 1) < nat num" using height_bounds(2) [OF d(1)] by (simp add: base_def)
  then have "height base - 1 < ?b" using b(3) [of "height base - 1"] bm(3) by simp
  then have "?b = height base" using b(1) by linarith
  then have "dist_dir_calc_branch_level base bm = None" using calc_branch_level [OF ok] z h by (simp add: base_def)
  then show ?thesis using assms(1) bm(1) unfolding PINT_init_dist_dir_state_def
    by (simp add: Let_def sz_def [symmetric] base_def)
qed

theorem init_overruns_bitmap_witness: "PINT_init_dist_dir_state 17 0 17 100 = None"
  by (rule init_overruns_bitmap) simp_all

end
