(* ===== verification/Md5.thy ===== *)
theory Md5
  imports Ofs_Prelude
begin

text \<open>
  The MD5 digest, \<open>src/common/misc/md5.c\<close> and \<open>md5.h\<close>, with which the names of directory entries are
  hashed. The four rounds are written out as in the code; the reference they are compared with is the loop of
  RFC 1321 with its index formulas and its table of constants, folded over the blocks of the padded message.
\<close>

unbundle bit_operations_syntax

type_synonym md5_byte_t = "8 word"
type_synonym md5_word_t = "32 word"

section \<open>Processing a block\<close>

definition T_MASK :: md5_word_t where
  "T_MASK = NOT 0"

definition md5_T :: "md5_word_t list" where
  "md5_T = [
     T_MASK XOR 0x28955b87, T_MASK XOR 0x173848a9, 0x242070db, T_MASK XOR 0x3e423111,
     T_MASK XOR 0x0a83f050, 0x4787c62a, T_MASK XOR 0x57cfb9ec, T_MASK XOR 0x02b96afe,
     0x698098d8, T_MASK XOR 0x74bb0850, T_MASK XOR 0x0000a44e, T_MASK XOR 0x76a32841,
     0x6b901122, T_MASK XOR 0x02678e6c, T_MASK XOR 0x5986bc71, 0x49b40821,
     T_MASK XOR 0x09e1da9d, T_MASK XOR 0x3fbf4cbf, 0x265e5a51, T_MASK XOR 0x16493855,
     T_MASK XOR 0x29d0efa2, 0x02441453, T_MASK XOR 0x275e197e, T_MASK XOR 0x182c0437,
     0x21e1cde6, T_MASK XOR 0x3cc8f829, T_MASK XOR 0x0b2af278, 0x455a14ed,
     T_MASK XOR 0x561c16fa, T_MASK XOR 0x03105c07, 0x676f02d9, T_MASK XOR 0x72d5b375,
     T_MASK XOR 0x0005c6bd, T_MASK XOR 0x788e097e, 0x6d9d6122, T_MASK XOR 0x021ac7f3,
     T_MASK XOR 0x5b4115bb, 0x4bdecfa9, T_MASK XOR 0x0944b49f, T_MASK XOR 0x4140438f,
     0x289b7ec6, T_MASK XOR 0x155ed805, T_MASK XOR 0x2b10cf7a, 0x04881d05,
     T_MASK XOR 0x262b2fc6, T_MASK XOR 0x1924661a, 0x1fa27cf8, T_MASK XOR 0x3b53a99a,
     T_MASK XOR 0x0bd6ddbb, 0x432aff97, T_MASK XOR 0x546bdc58, T_MASK XOR 0x036c5fc6,
     0x655b59c3, T_MASK XOR 0x70f3336d, T_MASK XOR 0x00100b82, T_MASK XOR 0x7a7ba22e,
     0x6fa87e4f, T_MASK XOR 0x01d3191f, T_MASK XOR 0x5cfebceb, 0x4e0811a1,
     T_MASK XOR 0x08ac817d, T_MASK XOR 0x42c50dca, 0x2ad7d2bb, T_MASK XOR 0x14792c6e]"

definition ROTATE_LEFT :: "md5_word_t \<Rightarrow> nat \<Rightarrow> md5_word_t" where
  "ROTATE_LEFT x n = push_bit n x OR drop_bit (32 - n) x"

definition md5_F :: "md5_word_t \<Rightarrow> md5_word_t \<Rightarrow> md5_word_t \<Rightarrow> md5_word_t" where
  "md5_F x y z = (x AND y) OR (NOT x AND z)"

definition md5_G :: "md5_word_t \<Rightarrow> md5_word_t \<Rightarrow> md5_word_t \<Rightarrow> md5_word_t" where
  "md5_G x y z = (x AND z) OR (y AND NOT z)"

definition md5_H :: "md5_word_t \<Rightarrow> md5_word_t \<Rightarrow> md5_word_t \<Rightarrow> md5_word_t" where
  "md5_H x y z = x XOR y XOR z"

definition md5_I :: "md5_word_t \<Rightarrow> md5_word_t \<Rightarrow> md5_word_t \<Rightarrow> md5_word_t" where
  "md5_I x y z = y XOR (x OR NOT z)"

text \<open>The macro \<open>SET\<close> with the function of the round: the new value of its first register.\<close>

definition SET :: "(md5_word_t \<Rightarrow> md5_word_t \<Rightarrow> md5_word_t \<Rightarrow> md5_word_t) \<Rightarrow> md5_word_t list \<Rightarrow>
    md5_word_t \<Rightarrow> md5_word_t \<Rightarrow> md5_word_t \<Rightarrow> md5_word_t \<Rightarrow> nat \<Rightarrow> nat \<Rightarrow> md5_word_t \<Rightarrow> md5_word_t" where
  "SET f X a b c d k s Ti = (let t = a + f b c d + X ! k + Ti in ROTATE_LEFT t s + b)"

type_synonym md5_regs = "md5_word_t \<times> md5_word_t \<times> md5_word_t \<times> md5_word_t"

definition md5_round1 :: "md5_word_t list \<Rightarrow> md5_regs \<Rightarrow> md5_regs" where
  "md5_round1 X abcd = (case abcd of (a, b, c, d) \<Rightarrow>
     let a = SET md5_F X a b c d 0 7 (md5_T ! 0);
         d = SET md5_F X d a b c 1 12 (md5_T ! 1);
         c = SET md5_F X c d a b 2 17 (md5_T ! 2);
         b = SET md5_F X b c d a 3 22 (md5_T ! 3);
         a = SET md5_F X a b c d 4 7 (md5_T ! 4);
         d = SET md5_F X d a b c 5 12 (md5_T ! 5);
         c = SET md5_F X c d a b 6 17 (md5_T ! 6);
         b = SET md5_F X b c d a 7 22 (md5_T ! 7);
         a = SET md5_F X a b c d 8 7 (md5_T ! 8);
         d = SET md5_F X d a b c 9 12 (md5_T ! 9);
         c = SET md5_F X c d a b 10 17 (md5_T ! 10);
         b = SET md5_F X b c d a 11 22 (md5_T ! 11);
         a = SET md5_F X a b c d 12 7 (md5_T ! 12);
         d = SET md5_F X d a b c 13 12 (md5_T ! 13);
         c = SET md5_F X c d a b 14 17 (md5_T ! 14);
         b = SET md5_F X b c d a 15 22 (md5_T ! 15)
     in (a, b, c, d))"

definition md5_round2 :: "md5_word_t list \<Rightarrow> md5_regs \<Rightarrow> md5_regs" where
  "md5_round2 X abcd = (case abcd of (a, b, c, d) \<Rightarrow>
     let a = SET md5_G X a b c d 1 5 (md5_T ! 16);
         d = SET md5_G X d a b c 6 9 (md5_T ! 17);
         c = SET md5_G X c d a b 11 14 (md5_T ! 18);
         b = SET md5_G X b c d a 0 20 (md5_T ! 19);
         a = SET md5_G X a b c d 5 5 (md5_T ! 20);
         d = SET md5_G X d a b c 10 9 (md5_T ! 21);
         c = SET md5_G X c d a b 15 14 (md5_T ! 22);
         b = SET md5_G X b c d a 4 20 (md5_T ! 23);
         a = SET md5_G X a b c d 9 5 (md5_T ! 24);
         d = SET md5_G X d a b c 14 9 (md5_T ! 25);
         c = SET md5_G X c d a b 3 14 (md5_T ! 26);
         b = SET md5_G X b c d a 8 20 (md5_T ! 27);
         a = SET md5_G X a b c d 13 5 (md5_T ! 28);
         d = SET md5_G X d a b c 2 9 (md5_T ! 29);
         c = SET md5_G X c d a b 7 14 (md5_T ! 30);
         b = SET md5_G X b c d a 12 20 (md5_T ! 31)
     in (a, b, c, d))"

definition md5_round3 :: "md5_word_t list \<Rightarrow> md5_regs \<Rightarrow> md5_regs" where
  "md5_round3 X abcd = (case abcd of (a, b, c, d) \<Rightarrow>
     let a = SET md5_H X a b c d 5 4 (md5_T ! 32);
         d = SET md5_H X d a b c 8 11 (md5_T ! 33);
         c = SET md5_H X c d a b 11 16 (md5_T ! 34);
         b = SET md5_H X b c d a 14 23 (md5_T ! 35);
         a = SET md5_H X a b c d 1 4 (md5_T ! 36);
         d = SET md5_H X d a b c 4 11 (md5_T ! 37);
         c = SET md5_H X c d a b 7 16 (md5_T ! 38);
         b = SET md5_H X b c d a 10 23 (md5_T ! 39);
         a = SET md5_H X a b c d 13 4 (md5_T ! 40);
         d = SET md5_H X d a b c 0 11 (md5_T ! 41);
         c = SET md5_H X c d a b 3 16 (md5_T ! 42);
         b = SET md5_H X b c d a 6 23 (md5_T ! 43);
         a = SET md5_H X a b c d 9 4 (md5_T ! 44);
         d = SET md5_H X d a b c 12 11 (md5_T ! 45);
         c = SET md5_H X c d a b 15 16 (md5_T ! 46);
         b = SET md5_H X b c d a 2 23 (md5_T ! 47)
     in (a, b, c, d))"

definition md5_round4 :: "md5_word_t list \<Rightarrow> md5_regs \<Rightarrow> md5_regs" where
  "md5_round4 X abcd = (case abcd of (a, b, c, d) \<Rightarrow>
     let a = SET md5_I X a b c d 0 6 (md5_T ! 48);
         d = SET md5_I X d a b c 7 10 (md5_T ! 49);
         c = SET md5_I X c d a b 14 15 (md5_T ! 50);
         b = SET md5_I X b c d a 5 21 (md5_T ! 51);
         a = SET md5_I X a b c d 12 6 (md5_T ! 52);
         d = SET md5_I X d a b c 3 10 (md5_T ! 53);
         c = SET md5_I X c d a b 10 15 (md5_T ! 54);
         b = SET md5_I X b c d a 1 21 (md5_T ! 55);
         a = SET md5_I X a b c d 8 6 (md5_T ! 56);
         d = SET md5_I X d a b c 15 10 (md5_T ! 57);
         c = SET md5_I X c d a b 6 15 (md5_T ! 58);
         b = SET md5_I X b c d a 13 21 (md5_T ! 59);
         a = SET md5_I X a b c d 4 6 (md5_T ! 60);
         d = SET md5_I X d a b c 11 10 (md5_T ! 61);
         c = SET md5_I X c d a b 2 15 (md5_T ! 62);
         b = SET md5_I X b c d a 9 21 (md5_T ! 63)
     in (a, b, c, d))"

text \<open>The words of a block in little-endian order, on every machine.\<close>

definition md5_word :: "md5_byte_t list \<Rightarrow> nat \<Rightarrow> md5_word_t" where
  "md5_word data i = ucast (data ! (4 * i)) + push_bit 8 (ucast (data ! (4 * i + 1)))
     + push_bit 16 (ucast (data ! (4 * i + 2))) + push_bit 24 (ucast (data ! (4 * i + 3)))"

definition md5_words :: "md5_byte_t list \<Rightarrow> md5_word_t list" where
  "md5_words data = map (md5_word data) [0..<16]"

definition md5_process_regs :: "md5_regs \<Rightarrow> md5_byte_t list \<Rightarrow> md5_regs" where
  "md5_process_regs abcd data = (let X = md5_words data in
     case (abcd, md5_round4 X (md5_round3 X (md5_round2 X (md5_round1 X abcd)))) of
       ((a0, b0, c0, d0), (a, b, c, d)) \<Rightarrow> (a0 + a, b0 + b, c0 + c, d0 + d))"

section \<open>The state\<close>

record md5_state_t =
  count :: "md5_word_t \<times> md5_word_t"
  abcd :: md5_regs
  buf :: "md5_byte_t list"

definition md5_process :: "md5_state_t \<Rightarrow> md5_byte_t list \<Rightarrow> md5_state_t" where
  "md5_process pms data = pms\<lparr>abcd := md5_process_regs (abcd pms) data\<rparr>"

text \<open>The block buffer is not initialized.\<close>

definition md5_init :: "md5_state_t \<Rightarrow> md5_state_t" where
  "md5_init pms = pms\<lparr>count := (0, 0), abcd := (0x67452301, T_MASK XOR 0x10325476, T_MASK XOR 0x67452301, 0x10325476)\<rparr>"

definition memcpy_at :: "'a list \<Rightarrow> nat \<Rightarrow> 'a list \<Rightarrow> 'a list" where
  "memcpy_at dst off src = take off dst @ src @ drop (off + length src) dst"

function md5_full_blocks :: "md5_state_t \<Rightarrow> md5_byte_t list \<Rightarrow> md5_state_t" where
  "md5_full_blocks pms p =
     (if length p \<ge> 64 then md5_full_blocks (md5_process pms p) (drop 64 p)
      else if length p \<noteq> 0 then pms\<lparr>buf := memcpy_at (buf pms) 0 p\<rparr> else pms)"
  by pat_completeness auto
termination by (relation "measure (\<lambda>(pms, p). length p)") auto

declare md5_full_blocks.simps [simp del]

text \<open>The data is the list of the \<open>nbytes\<close> bytes that are appended.\<close>

definition md5_append :: "md5_state_t \<Rightarrow> md5_byte_t list \<Rightarrow> md5_state_t" where
  "md5_append pms data =
     (let nbytes = int (length data);
          offset = unat (drop_bit 3 (fst (count pms)) AND 63);
          nbits = word_of_int (8 * nbytes)
      in if nbytes \<le> 0 then pms
         else let count1 = snd (count pms) + word_of_int (nbytes div 2 ^ 29);
                  count0 = fst (count pms) + nbits;
                  count1 = (if count0 < nbits then count1 + 1 else count1);
                  pms = pms\<lparr>count := (count0, count1)\<rparr>
              in if offset \<noteq> 0
                 then let copy = (if offset + length data > 64 then 64 - offset else length data);
                          pms = pms\<lparr>buf := memcpy_at (buf pms) offset (take copy data)\<rparr>
                      in if offset + copy < 64 then pms
                         else md5_full_blocks (md5_process pms (buf pms)) (drop copy data)
                 else md5_full_blocks pms data)"

definition md5_le_byte :: "md5_word_t \<Rightarrow> nat \<Rightarrow> md5_byte_t" where
  "md5_le_byte w i = ucast (drop_bit (8 * i) w)"

definition md5_pad :: "md5_byte_t list" where
  "md5_pad = 0x80 # replicate 63 0"

definition md5_finish :: "md5_state_t \<Rightarrow> md5_byte_t list" where
  "md5_finish pms =
     (let data = map (md5_le_byte (fst (count pms))) [0..<4] @ map (md5_le_byte (snd (count pms))) [0..<4];
          pms = md5_append pms (take (unat ((55 - drop_bit 3 (fst (count pms))) AND 63) + 1) md5_pad);
          pms = md5_append pms data
      in case abcd pms of (a, b, c, d) \<Rightarrow>
           map (md5_le_byte a) [0..<4] @ map (md5_le_byte b) [0..<4] @ map (md5_le_byte c) [0..<4] @ map (md5_le_byte d) [0..<4])"

section \<open>The algorithm of RFC 1321\<close>

definition rfc_T :: "md5_word_t list" where
  "rfc_T = [
     0xd76aa478, 0xe8c7b756, 0x242070db, 0xc1bdceee, 0xf57c0faf, 0x4787c62a, 0xa8304613, 0xfd469501,
     0x698098d8, 0x8b44f7af, 0xffff5bb1, 0x895cd7be, 0x6b901122, 0xfd987193, 0xa679438e, 0x49b40821,
     0xf61e2562, 0xc040b340, 0x265e5a51, 0xe9b6c7aa, 0xd62f105d, 0x02441453, 0xd8a1e681, 0xe7d3fbc8,
     0x21e1cde6, 0xc33707d6, 0xf4d50d87, 0x455a14ed, 0xa9e3e905, 0xfcefa3f8, 0x676f02d9, 0x8d2a4c8a,
     0xfffa3942, 0x8771f681, 0x6d9d6122, 0xfde5380c, 0xa4beea44, 0x4bdecfa9, 0xf6bb4b60, 0xbebfbc70,
     0x289b7ec6, 0xeaa127fa, 0xd4ef3085, 0x04881d05, 0xd9d4d039, 0xe6db99e5, 0x1fa27cf8, 0xc4ac5665,
     0xf4292244, 0x432aff97, 0xab9423a7, 0xfc93a039, 0x655b59c3, 0x8f0ccc92, 0xffeff47d, 0x85845dd1,
     0x6fa87e4f, 0xfe2ce6e0, 0xa3014314, 0x4e0811a1, 0xf7537e82, 0xbd3af235, 0x2ad7d2bb, 0xeb86d391]"

definition rfc_shift :: "nat \<Rightarrow> nat" where
  "rfc_shift i = [7, 12, 17, 22, 5, 9, 14, 20, 4, 11, 16, 23, 6, 10, 15, 21] ! (4 * (i div 16) + i mod 4)"

definition rfc_index :: "nat \<Rightarrow> nat" where
  "rfc_index i = (if i < 16 then i else if i < 32 then (5 * i + 1) mod 16 else if i < 48 then (3 * i + 5) mod 16 else 7 * i mod 16)"

definition rfc_fun :: "nat \<Rightarrow> md5_word_t \<Rightarrow> md5_word_t \<Rightarrow> md5_word_t \<Rightarrow> md5_word_t" where
  "rfc_fun i = (if i < 16 then (\<lambda>x y z. (x AND y) OR (NOT x AND z)) else if i < 32 then (\<lambda>x y z. (x AND z) OR (y AND NOT z))
     else if i < 48 then (\<lambda>x y z. x XOR y XOR z) else (\<lambda>x y z. y XOR (x OR NOT z)))"

definition rfc_step :: "md5_word_t list \<Rightarrow> md5_regs \<Rightarrow> nat \<Rightarrow> md5_regs" where
  "rfc_step X regs i = (case regs of (a, b, c, d) \<Rightarrow>
     (d, b + word_rotl (rfc_shift i) (a + rfc_fun i b c d + X ! rfc_index i + rfc_T ! i), b, c))"

definition rfc_block :: "md5_regs \<Rightarrow> md5_byte_t list \<Rightarrow> md5_regs" where
  "rfc_block regs block = (case (regs, foldl (rfc_step (md5_words block)) regs [0..<64]) of
     ((a0, b0, c0, d0), (a, b, c, d)) \<Rightarrow> (a0 + a, b0 + b, c0 + c, d0 + d))"

section \<open>Rounds\<close>

lemma md5_T_rfc: "md5_T = rfc_T"
  by code_simp

lemma ROTATE_LEFT_rotl:
  assumes "0 < n" "n < 32"
  shows "ROTATE_LEFT x n = word_rotl n x"
proof (rule bit_word_eqI)
  fix i assume "i < LENGTH(32)"
  moreover have "32 + i - n = i + 32 - n" by simp
  ultimately show "bit (ROTATE_LEFT x n) i = bit (word_rotl n x) i"
    using assms by (cases "n \<le> i") (auto simp: ROTATE_LEFT_def bit_or_iff bit_push_bit_iff bit_drop_bit_eq bit_word_rotl_iff mod_if dest: bit_imp_le_length)
qed

lemma rfc_fun_md5: "i < 16 \<Longrightarrow> rfc_fun i = md5_F" "16 \<le> i \<Longrightarrow> i < 32 \<Longrightarrow> rfc_fun i = md5_G"
  "32 \<le> i \<Longrightarrow> i < 48 \<Longrightarrow> rfc_fun i = md5_H" "48 \<le> i \<Longrightarrow> rfc_fun i = md5_I"
  by (auto simp: rfc_fun_def fun_eq_iff md5_F_def md5_G_def md5_H_def md5_I_def)

lemma rfc_shift_range: "i < 64 \<Longrightarrow> 0 < rfc_shift i \<and> rfc_shift i < 32"
proof -
  have "\<forall>i \<in> set [0..<64]. 0 < rfc_shift i \<and> rfc_shift i < 32" by code_simp
  then show "i < 64 \<Longrightarrow> 0 < rfc_shift i \<and> rfc_shift i < 32" by simp
qed

text \<open>One operation of a round as a function of the registers, which are renamed by a rotation.\<close>

definition md5_op :: "(md5_word_t \<Rightarrow> md5_word_t \<Rightarrow> md5_word_t \<Rightarrow> md5_word_t) \<Rightarrow> md5_word_t list \<Rightarrow> nat \<Rightarrow> nat \<Rightarrow> md5_word_t \<Rightarrow> md5_regs \<Rightarrow> md5_regs" where
  "md5_op f X k s Ti r = (case r of (a, b, c, d) \<Rightarrow> (d, SET f X a b c d k s Ti, b, c))"

lemma md5_op_Let:
  "md5_op f X k s Ti (a, b, c, d) = (let t = SET f X a b c d k s Ti in (d, t, b, c))"
  "md5_op f X k s Ti (Let e g) = (let t = e in md5_op f X k s Ti (g t))"
  by (simp_all add: md5_op_def Let_def)

lemma rfc_step_op: "i < 64 \<Longrightarrow> rfc_step X r i = md5_op (rfc_fun i) X (rfc_index i) (rfc_shift i) (md5_T ! i) r"
  using rfc_shift_range [of i] by (cases r) (simp add: rfc_step_def md5_op_def SET_def Let_def ROTATE_LEFT_rotl md5_T_rfc add.commute)

lemmas rfc_ops = rfc_step_op rfc_fun_md5 rfc_index_def rfc_shift_def

lemma round1: "md5_round1 X r = foldl (rfc_step X) r [0..<16]"
proof -
  obtain a b c d where r: "r = (a, b, c, d)" by (cases r)
  have u: "[0..<16] = [0, 1, 2, 3, 4, 5, 6, 7, 8, 9, 10, 11, 12, 13, 14, 15]" by code_simp
  show ?thesis unfolding r u by (simp add: rfc_ops) (simp only: md5_op_Let md5_round1_def prod.case One_nat_def)
qed

lemma round2: "md5_round2 X r = foldl (rfc_step X) r [16..<32]"
proof -
  obtain a b c d where r: "r = (a, b, c, d)" by (cases r)
  have u: "[16..<32] = [16, 17, 18, 19, 20, 21, 22, 23, 24, 25, 26, 27, 28, 29, 30, 31]" by code_simp
  show ?thesis unfolding r u by (simp add: rfc_ops) (simp only: md5_op_Let md5_round2_def prod.case One_nat_def)
qed

lemma round3: "md5_round3 X r = foldl (rfc_step X) r [32..<48]"
proof -
  obtain a b c d where r: "r = (a, b, c, d)" by (cases r)
  have u: "[32..<48] = [32, 33, 34, 35, 36, 37, 38, 39, 40, 41, 42, 43, 44, 45, 46, 47]" by code_simp
  show ?thesis unfolding r u by (simp add: rfc_ops) (simp only: md5_op_Let md5_round3_def prod.case One_nat_def)
qed

lemma round4: "md5_round4 X r = foldl (rfc_step X) r [48..<64]"
proof -
  obtain a b c d where r: "r = (a, b, c, d)" by (cases r)
  have u: "[48..<64] = [48, 49, 50, 51, 52, 53, 54, 55, 56, 57, 58, 59, 60, 61, 62, 63]" by code_simp
  show ?thesis unfolding r u by (simp add: rfc_ops) (simp only: md5_op_Let md5_round4_def prod.case One_nat_def)
qed

lemma md5_process_rfc: "md5_process_regs regs data = rfc_block regs data"
proof -
  have "[0..<64] = [0..<16] @ [16..<32] @ [32..<48] @ [48..<64]"
    using upt_add_eq_append [of 0 16 48] upt_add_eq_append [of 16 32 32] upt_add_eq_append [of 32 48 16] by simp
  then show ?thesis by (simp only: md5_process_regs_def rfc_block_def round1 round2 round3 round4 foldl_append Let_def)
qed

section \<open>Messages in pieces\<close>

function md5_blocks :: "md5_byte_t list \<Rightarrow> md5_byte_t list list" where
  "md5_blocks m = (if length m \<ge> 64 then take 64 m # md5_blocks (drop 64 m) else [])"
  by pat_completeness auto
termination by (relation "measure length") auto

function md5_tail :: "md5_byte_t list \<Rightarrow> md5_byte_t list" where
  "md5_tail m = (if length m \<ge> 64 then md5_tail (drop 64 m) else m)"
  by pat_completeness auto
termination by (relation "measure length") auto

declare md5_blocks.simps [simp del] md5_tail.simps [simp del]

text \<open>The digest of a message in RFC 1321: a bit 1, zeros up to 56 bytes modulo 64, and the length in bits modulo \<open>2 ^ 64\<close>.\<close>

definition rfc_padding :: "nat \<Rightarrow> md5_byte_t list" where
  "rfc_padding n = 0x80 # replicate (nat ((55 - int n) mod 64)) 0"

definition rfc_length :: "nat \<Rightarrow> md5_byte_t list" where
  "rfc_length n = map (\<lambda>i. ucast (drop_bit (8 * i) (of_nat (8 * n) :: 64 word))) [0..<8]"

definition rfc_init :: md5_regs where
  "rfc_init = (0x67452301, 0xefcdab89, 0x98badcfe, 0x10325476)"

definition rfc_digest :: "md5_regs \<Rightarrow> md5_byte_t list" where
  "rfc_digest regs = (case regs of (a, b, c, d) \<Rightarrow> concat (map (\<lambda>w. map (md5_le_byte w) [0..<4]) [a, b, c, d]))"

definition rfc_md5 :: "md5_byte_t list \<Rightarrow> md5_byte_t list" where
  "rfc_md5 m = rfc_digest (foldl rfc_block rfc_init (md5_blocks (m @ rfc_padding (length m) @ rfc_length (length m))))"

lemma blocks_append: "md5_blocks (m @ x) = md5_blocks m @ md5_blocks (md5_tail m @ x)"
proof (induction m rule: md5_tail.induct)
  case (1 m)
  then show ?case
    by (cases "64 \<le> length m") (simp_all add: md5_blocks.simps [of "m @ x"] md5_blocks.simps [of m] md5_tail.simps [of m])
qed

lemma tail_append: "md5_tail (m @ x) = md5_tail (md5_tail m @ x)"
proof (induction m rule: md5_tail.induct)
  case (1 m)
  then show ?case by (cases "64 \<le> length m") (simp_all add: md5_tail.simps [of "m @ x"] md5_tail.simps [of m])
qed

lemma length_tail: "length (md5_tail m) = length m mod 64"
proof (induction m rule: md5_tail.induct)
  case (1 m)
  then show ?case by (cases "64 \<le> length m") (simp_all add: md5_tail.simps [of m] le_mod_geq)
qed

lemma small_blocks: "length m < 64 \<Longrightarrow> md5_blocks m = []" "length m < 64 \<Longrightarrow> md5_tail m = m"
  by (simp_all add: md5_blocks.simps [of m] md5_tail.simps [of m])

lemma one_block:
  assumes "length b = 64"
  shows "md5_blocks (b @ x) = b # md5_blocks x" "md5_tail (b @ x) = md5_tail x"
  using assms by (simp_all add: md5_blocks.simps [of "b @ x"] md5_tail.simps [of "b @ x"])

lemma rfc_block_take: "64 \<le> length p \<Longrightarrow> rfc_block regs (take 64 p) = rfc_block regs p"
proof -
  assume "64 \<le> length p"
  then have "md5_words (take 64 p) = md5_words p" by (simp add: md5_words_def md5_word_def)
  then show ?thesis by (simp add: rfc_block_def)
qed

lemma full_blocks:
  assumes "length (buf pms) = 64"
  shows "count (md5_full_blocks pms p) = count pms \<and> abcd (md5_full_blocks pms p) = foldl rfc_block (abcd pms) (md5_blocks p) \<and>
    length (buf (md5_full_blocks pms p)) = 64 \<and> take (length p mod 64) (buf (md5_full_blocks pms p)) = md5_tail p"
  using assms
proof (induction pms p rule: md5_full_blocks.induct)
  case (1 pms p)
  note simps = md5_full_blocks.simps [of pms p] md5_blocks.simps [of p] md5_tail.simps [of p]
  have step: "length (buf (md5_process pms p)) = 64" using "1.prems" by (simp add: md5_process_def)
  show ?case
  proof (cases "64 \<le> length p")
    case True
    then show ?thesis using "1.IH" [OF True step] by (simp add: simps md5_process_def md5_process_rfc rfc_block_take le_mod_geq)
  next
    case False
    then show ?thesis using "1.prems" by (simp add: simps memcpy_at_def)
  qed
qed

text \<open>The state after a message.\<close>

definition md5_after :: "md5_byte_t list \<Rightarrow> md5_state_t \<Rightarrow> bool" where
  "md5_after m pms \<longleftrightarrow> uint (fst (count pms)) + 2 ^ 32 * uint (snd (count pms)) = 8 * int (length m) mod 2 ^ 64 \<and>
     abcd pms = foldl rfc_block rfc_init (md5_blocks m) \<and> length (buf pms) = 64 \<and> take (length m mod 64) (buf pms) = md5_tail m"

lemma init_after: "length (buf pms) = 64 \<Longrightarrow> md5_after [] (md5_init pms)"
proof -
  have "(0x67452301, T_MASK XOR 0x10325476, T_MASK XOR 0x67452301, 0x10325476) = rfc_init" by code_simp
  then show "length (buf pms) = 64 \<Longrightarrow> md5_after [] (md5_init pms)"
    by (simp add: md5_after_def md5_init_def small_blocks)
qed

lemma count_offset:
  assumes "uint c0 + 2 ^ 32 * uint (c1 :: 32 word) = 8 * int n mod 2 ^ 64"
  shows "uint (c0 :: 32 word) = 8 * int n mod 2 ^ 32" "unat (drop_bit 3 c0 AND 63) = n mod 64"
proof -
  have lt: "uint c0 < 2 ^ 32" using uint_lt2p [of c0] by simp
  then have "uint c0 = (uint c0 + 2 ^ 32 * uint c1) mod 2 ^ 32" by simp
  also have "\<dots> = 8 * int n mod 2 ^ 32" unfolding assms by (simp add: mod_mod_cancel)
  finally show c: "uint c0 = 8 * int n mod 2 ^ 32" .
  have "uint (drop_bit 3 c0) = 8 * int n mod 2 ^ 32 div 8" 
    unfolding unsigned_drop_bit_eq c [symmetric] using lt by (simp add: drop_bit_eq_div take_bit_int_eq_self)
  also have "\<dots> = int n mod 2 ^ 29" using mult_mod_right [of 8 "int n" "2 ^ 29"] by simp
  finally have "uint (take_bit 6 (drop_bit 3 c0)) = int n mod 2 ^ 29 mod 64"
    unfolding unsigned_take_bit_eq by (simp add: take_bit_eq_mod)
  moreover have "int n mod 2 ^ 29 mod 64 = int n mod 64" by (simp add: mod_mod_cancel)
  moreover have "drop_bit 3 c0 AND 63 = take_bit 6 (drop_bit 3 c0)" by (simp add: take_bit_eq_mask mask_numeral)
  ultimately have "uint (drop_bit 3 c0 AND 63) = int n mod 64" by simp
  then show "unat (drop_bit 3 c0 AND 63) = n mod 64" by (metis nat_int of_nat_mod of_nat_numeral unat_eq_nat_uint)
qed

lemma carry_int:
  fixes x y k :: int
  assumes "0 \<le> x" "x < 2 ^ 32" "0 \<le> y" "y < 2 ^ 32" "0 \<le> k" "k < 2 ^ 32"
  shows "(x + k) mod 2 ^ 32 < k \<longleftrightarrow> 2 ^ 32 \<le> x + k"
    "(x + k) mod 2 ^ 32 + 2 ^ 32 * (if 2 ^ 32 \<le> x + k then (y + 1) mod 2 ^ 32 else y) = (x + 2 ^ 32 * y + k) mod 2 ^ 64"
proof -
  have "(x + k - 2 ^ 32) mod 2 ^ 32 = x + k - 2 ^ 32" if "2 ^ 32 \<le> x + k" using assms that by (intro mod_pos_pos_trivial) auto
  then have split: "(x + k) mod 2 ^ 32 = (if 2 ^ 32 \<le> x + k then x + k - 2 ^ 32 else x + k)"
    using assms mod_pos_geq [of "2 ^ 32" "x + k"] mod_pos_pos_trivial [of "x + k" "2 ^ 32"] by auto
  then show "(x + k) mod 2 ^ 32 < k \<longleftrightarrow> 2 ^ 32 \<le> x + k" using assms by auto
  have "(x + k + y * 2 ^ 32) mod (2 ^ 32 * 2 ^ 32) = 2 ^ 32 * ((x + k + y * 2 ^ 32) div 2 ^ 32 mod 2 ^ 32) + (x + k + y * 2 ^ 32) mod 2 ^ 32"
    by (rule zmod_zmult2_eq) simp
  moreover have "(x + k + y * 2 ^ 32) div 2 ^ 32 = y + (x + k) div 2 ^ 32" by (rule div_mult_self1) simp
  moreover have "(x + k + y * 2 ^ 32) mod 2 ^ 32 = (x + k) mod 2 ^ 32" by (rule mod_mult_self1)
  moreover have "x + 2 ^ 32 * y + k = x + k + y * 2 ^ 32" "(2 :: int) ^ 64 = 2 ^ 32 * 2 ^ 32" by simp_all
  ultimately have "(x + 2 ^ 32 * y + k) mod 2 ^ 64 = 2 ^ 32 * ((y + (x + k) div 2 ^ 32) mod 2 ^ 32) + (x + k) mod 2 ^ 32" by (simp only:)
  moreover have "(x + k) div 2 ^ 32 = (if 2 ^ 32 \<le> x + k then 1 else 0)"
    using assms div_pos_geq [of "2 ^ 32" "x + k"] by (auto simp: div_pos_pos_trivial)
  ultimately show "(x + k) mod 2 ^ 32 + 2 ^ 32 * (if 2 ^ 32 \<le> x + k then (y + 1) mod 2 ^ 32 else y) = (x + 2 ^ 32 * y + k) mod 2 ^ 64"
    using assms(3,4) by auto
qed

lemma count_carry:
  assumes "uint c0 + 2 ^ 32 * uint (c1 :: 32 word) = n mod 2 ^ 64" "0 \<le> k" "k < 2 ^ 32"
  shows "uint (c0 + word_of_int k) + 2 ^ 32 * uint (if c0 + word_of_int k < (word_of_int k :: 32 word) then c1 + 1 else c1) = (n + k) mod 2 ^ 64"
proof -
  let ?k = "word_of_int k :: 32 word"
  have k: "uint ?k = k" using assms(2,3) by (simp add: uint_word_of_int)
  have b: "0 \<le> uint c0" "uint c0 < 2 ^ 32" "0 \<le> uint c1" "uint c1 < 2 ^ 32" using uint_lt2p [of c0] uint_lt2p [of c1] by simp_all
  have s: "uint (c0 + ?k) = (uint c0 + k) mod 2 ^ 32" "uint (c1 + 1) = (uint c1 + 1) mod 2 ^ 32" by (simp_all add: uint_word_ariths k)
  have "c0 + ?k < ?k \<longleftrightarrow> 2 ^ 32 \<le> uint c0 + k" unfolding word_less_def s(1) k by (rule carry_int(1) [OF b assms(2,3)])
  then have "uint (c0 + ?k) + 2 ^ 32 * uint (if c0 + ?k < ?k then c1 + 1 else c1) = (uint c0 + 2 ^ 32 * uint c1 + k) mod 2 ^ 64"
    using carry_int(2) [OF b assms(2,3)] by (simp only: if_distrib [of uint] s)
  also have "\<dots> = (n + k) mod 2 ^ 64" unfolding assms(1) by (rule mod_add_left_eq)
  finally show ?thesis .
qed

lemma append_after:
  assumes "md5_after m pms" "length data < 2 ^ 28"
  shows "md5_after (m @ data) (md5_append pms data)"
proof (cases "data = []")
  case True
  then show ?thesis using assms(1) by (simp add: md5_append_def Let_def)
next
  case False
  define off where "off = length m mod 64"
  define cnt where "cnt = (let nbits = word_of_int (8 * int (length data)); c0 = fst (count pms) + nbits
    in (c0, if c0 < nbits then snd (count pms) + 1 else snd (count pms)))"
  note a = assms(1) [unfolded md5_after_def]
  have cnt: "uint (fst cnt) + 2 ^ 32 * uint (snd cnt) = 8 * int (length (m @ data)) mod 2 ^ 64"
    using count_carry [of "fst (count pms)" "snd (count pms)" "8 * int (length m)" "8 * int (length data)"] a assms(2)
    by (simp add: cnt_def Let_def algebra_simps)
  have off: "unat (drop_bit 3 (fst (count pms)) AND 63) = off" unfolding off_def by (rule count_offset(2) [OF conjunct1 [OF a]])
  have "int (length data) div 2 ^ 29 = 0" using assms(2) by simp
  then have run: "md5_append pms data = (let pms = pms\<lparr>count := cnt\<rparr> in
    if off \<noteq> 0 then
      let copy = (if off + length data > 64 then 64 - off else length data); pms = pms\<lparr>buf := memcpy_at (buf pms) off (take copy data)\<rparr>
      in if off + copy < 64 then pms else md5_full_blocks (md5_process pms (buf pms)) (drop copy data)
    else md5_full_blocks pms data)"
    using False by (simp add: md5_append_def off cnt_def Let_def)
  have tail: "length (md5_tail m) = off" "take off (buf pms) = md5_tail m" "off < 64" using a by (simp_all add: length_tail off_def)
  consider "off = 0" | "off \<noteq> 0" "off + length data < 64" | "off \<noteq> 0" "64 \<le> off + length data" by linarith
  then show ?thesis
  proof cases
    case 1
    then have r: "md5_append pms data = md5_full_blocks (pms\<lparr>count := cnt\<rparr>) data" by (simp add: run)
    have t: "md5_tail m = []" using tail 1 by simp
    have len: "length (m @ data) mod 64 = length data mod 64" using 1 mod_add_left_eq [of "length m" 64 "length data"] by (simp add: off_def)
    show ?thesis unfolding md5_after_def len blocks_append [of m data] tail_append [of m data] t append_Nil
      using full_blocks [of "pms\<lparr>count := cnt\<rparr>" data] a cnt by (simp add: r)
  next
    case 2
    then have r: "md5_append pms data = pms\<lparr>count := cnt, buf := memcpy_at (buf pms) off data\<rparr>" by (simp add: run Let_def)
    have l: "length (md5_tail m @ data) < 64" using 2 tail by simp
    have len: "length (m @ data) mod 64 = off + length data" using 2 mod_add_left_eq [of "length m" 64 "length data"] by (simp add: off_def)
    show ?thesis unfolding md5_after_def len blocks_append [of m data] tail_append [of m data] small_blocks [OF l]
      using a cnt tail 2 by (simp add: r memcpy_at_def)
  next
    case 3
    let ?c = "64 - off"
    have len: "?c \<le> length data" using 3 by simp
    have copy: "(if off + length data > 64 then 64 - off else length data) = ?c" using 3 by auto
    have buf: "memcpy_at (buf pms) off (take ?c data) = md5_tail m @ take ?c data" using a tail len by (simp add: memcpy_at_def)
    have full: "length (md5_tail m @ take ?c data) = 64" using tail len by simp
    have split: "md5_tail m @ data = (md5_tail m @ take ?c data) @ drop ?c data" by simp
    let ?p = "md5_process (pms\<lparr>count := cnt, buf := md5_tail m @ take ?c data\<rparr>) (md5_tail m @ take ?c data)"
    have r: "md5_append pms data = md5_full_blocks ?p (drop ?c data)"
      unfolding run copy Let_def using 3 tail(3) by (simp add: buf)
    have "length (buf ?p) = 64" using full by (simp add: md5_process_def)
    note fb = full_blocks [OF this, of "drop ?c data"]
    have mod: "length (m @ data) mod 64 = length (drop ?c data) mod 64"
    proof -
      have "length (m @ data) mod 64 = (off + length data) mod 64" by (simp add: off_def mod_add_left_eq)
      also have "off + length data = 64 + length (drop ?c data)" using 3 tail(3) by simp
      finally show ?thesis by simp
    qed
    show ?thesis unfolding md5_after_def mod blocks_append [of m data] tail_append [of m data] split one_block [OF full]
      using fb cnt a by (simp add: r md5_process_def md5_process_rfc)
  qed
qed

lemma chunks_after:
  assumes "md5_after m pms" "\<forall>c \<in> set chunks. length c < 2 ^ 28"
  shows "md5_after (m @ concat chunks) (foldl md5_append pms chunks)"
  using assms
proof (induction chunks arbitrary: m pms)
  case (Cons c chunks)
  then show ?case using Cons.IH [OF append_after [OF Cons.prems(1), of c]] by simp
qed simp

lemma finish_padding:
  assumes "unat (w AND 63 :: 32 word) = n mod 64"
  shows "take (unat ((55 - w) AND 63) + 1) md5_pad = rfc_padding n"
proof -
  have and63: "x AND 63 = take_bit 6 x" for x :: "32 word" by (simp add: take_bit_eq_mask mask_numeral)
  have u: "uint (x AND 63) = uint x mod 64" for x :: "32 word" unfolding and63 unsigned_take_bit_eq by (simp add: take_bit_eq_mod)
  have w: "uint w mod 64 = int n mod 64" using assms u [of w] by (metis of_nat_mod of_nat_numeral uint_nat)
  have "uint ((55 - w) AND 63) = (55 - uint w) mod 2 ^ 32 mod 64" unfolding u by (simp add: uint_word_ariths)
  also have "\<dots> = (55 - uint w) mod 64" by (simp add: mod_mod_cancel)
  also have "\<dots> = (55 - int n) mod 64" using w by (metis mod_diff_right_eq)
  finally have k: "unat ((55 - w) AND 63) = nat ((55 - int n) mod 64)" by (simp add: unat_eq_nat_uint)
  have "nat ((55 - int n) mod 64) \<le> 63" by simp
  then show ?thesis unfolding k md5_pad_def rfc_padding_def by (simp add: min_def)
qed

lemma byte_of_half:
  assumes "uint (W :: 64 word) = uint (c0 :: 32 word) + 2 ^ 32 * uint (c1 :: 32 word)" "i < 4"
  shows "md5_le_byte c0 i = ucast (drop_bit (8 * i) W)" "md5_le_byte c1 i = ucast (drop_bit (8 * (i + 4)) W)"
proof -
  have b: "uint c0 < 2 ^ 32" "uint c1 < 2 ^ 32" using uint_lt2p [of c0] uint_lt2p [of c1] by simp_all
  have "uint (ucast W :: 32 word) = uint c0" unfolding unsigned_ucast_eq using assms(1) b by (simp add: take_bit_eq_mod)
  then have c0: "c0 = ucast W" by (simp add: word_uint_eq_iff)
  have "take_bit 64 (uint c0 + 2 ^ 32 * uint c1) = uint c0 + 2 ^ 32 * uint c1" using b by (intro take_bit_int_eq_self) auto
  then have "uint (drop_bit 32 W) = uint c1" unfolding unsigned_drop_bit_eq using assms(1) b by (simp add: drop_bit_eq_div)
  then have "uint (ucast (drop_bit 32 W) :: 32 word) = uint c1" unfolding unsigned_ucast_eq using b by (simp add: take_bit_int_eq_self)
  then have c1: "c1 = ucast (drop_bit 32 W)" by (simp add: word_uint_eq_iff)
  show "md5_le_byte c0 i = ucast (drop_bit (8 * i) W)" "md5_le_byte c1 i = ucast (drop_bit (8 * (i + 4)) W)"
    unfolding md5_le_byte_def c0 c1 using assms(2) by (auto intro!: bit_word_eqI simp: bit_ucast_iff bit_drop_bit_eq ac_simps)
qed

lemma finish_length:
  assumes "uint c0 + 2 ^ 32 * uint c1 = 8 * int n mod 2 ^ 64"
  shows "map (md5_le_byte c0) [0..<4] @ map (md5_le_byte c1) [0..<4] = rfc_length n"
proof -
  let ?W = "of_nat (8 * n) :: 64 word"
  have "uint ?W = uint c0 + 2 ^ 32 * uint c1" unfolding assms unsigned_of_nat by (simp add: take_bit_eq_mod of_nat_mod)
  note b = byte_of_half [OF this]
  have "[0..<8] = [0..<4] @ map (\<lambda>i. i + 4) [0..<4]" by code_simp
  then have "rfc_length n = map (\<lambda>i. ucast (drop_bit (8 * i) ?W)) [0..<4] @ map (\<lambda>i. ucast (drop_bit (8 * (i + 4)) ?W)) [0..<4]"
    by (simp only: rfc_length_def map_append map_map comp_def)
  then show ?thesis using b by simp
qed

lemma finish_after:
  assumes "md5_after m pms"
  shows "md5_finish pms = rfc_md5 m"
proof -
  note a = assms [unfolded md5_after_def]
  let ?n = "length m"
  obtain c0 c1 where c: "count pms = (c0, c1)" by (cases "count pms")
  have cnt: "uint c0 + 2 ^ 32 * uint c1 = 8 * int ?n mod 2 ^ 64" using a c by simp
  have pad: "take (unat ((55 - drop_bit 3 c0) AND 63) + 1) md5_pad = rfc_padding ?n" by (rule finish_padding [OF count_offset(2) [OF cnt]])
  have len: "map (md5_le_byte c0) [0..<4] @ map (md5_le_byte c1) [0..<4] = rfc_length ?n" by (rule finish_length [OF cnt])
  have "(55 - int ?n) mod 64 < 64" by simp
  then have "length (rfc_padding ?n) < 2 ^ 28" unfolding rfc_padding_def by simp
  then have s1: "md5_after (m @ rfc_padding ?n) (md5_append pms (rfc_padding ?n))" by (rule append_after [OF assms])
  have "length (rfc_length ?n) < 2 ^ 28" by (simp add: rfc_length_def)
  then have "md5_after ((m @ rfc_padding ?n) @ rfc_length ?n) (md5_append (md5_append pms (rfc_padding ?n)) (rfc_length ?n))"
    by (rule append_after [OF s1])
  then have "abcd (md5_append (md5_append pms (rfc_padding ?n)) (rfc_length ?n)) = foldl rfc_block rfc_init (md5_blocks (m @ rfc_padding ?n @ rfc_length ?n))"
    by (simp add: md5_after_def)
  then show ?thesis unfolding rfc_md5_def
    by (simp only: md5_finish_def Let_def c fst_conv snd_conv pad len) (simp add: rfc_digest_def split: prod.splits)
qed

section \<open>Properties\<close>

text \<open>C18. The digest of a message that is appended in pieces of any sizes is the one that RFC 1321 defines: the unrolled rounds, the
  buffering of partial blocks, the two-word bit count and the padding agree with the loop over the blocks of the padded
  message. The block buffer may hold anything when the state is initialized.\<close>

theorem md5_streams:
  assumes "length (buf pms) = 64" "\<forall>c \<in> set chunks. length c < 2 ^ 28"
  shows "md5_finish (foldl md5_append (md5_init pms) chunks) = rfc_md5 (concat chunks)"
  using finish_after [OF chunks_after [OF init_after [OF assms(1)] assms(2)]] by simp

definition md5_state0 :: md5_state_t where
  "md5_state0 = \<lparr>count = (0, 0), abcd = (0, 0, 0, 0), buf = replicate 64 0\<rparr>"

theorem md5_streams_witness:
  "md5_finish (foldl md5_append (md5_init md5_state0) [[0x61], [], [0x62, 0x63]]) = rfc_md5 [0x61, 0x62, 0x63]"
  using md5_streams [of md5_state0 "[[0x61], [], [0x62, 0x63]]"] by (simp add: md5_state0_def)

text \<open>The digests of the test suite in section A.5 of the RFC, for the empty message, \<open>a\<close> and \<open>abc\<close>.\<close>

theorem md5_test_suite:
  "map (\<lambda>m. md5_finish (md5_append (md5_init md5_state0) m)) [[], [0x61], [0x61, 0x62, 0x63]] =
    [[0xd4, 0x1d, 0x8c, 0xd9, 0x8f, 0x00, 0xb2, 0x04, 0xe9, 0x80, 0x09, 0x98, 0xec, 0xf8, 0x42, 0x7e],
     [0x0c, 0xc1, 0x75, 0xb9, 0xc0, 0xf1, 0xb6, 0xa8, 0x31, 0xc3, 0x99, 0xe2, 0x69, 0x77, 0x26, 0x61],
     [0x90, 0x01, 0x50, 0x98, 0x3c, 0xd2, 0x4f, 0xb0, 0xd6, 0x96, 0x3f, 0x7d, 0x28, 0xe1, 0x7f, 0x72]]"
proof -
  have "md5_finish (md5_append (md5_init md5_state0) m) = rfc_md5 m" if "length m < 2 ^ 28" for m
    using finish_after [OF append_after [OF init_after that]] by (simp add: md5_state0_def)
  moreover have "rfc_md5 [] = [0xd4, 0x1d, 0x8c, 0xd9, 0x8f, 0x00, 0xb2, 0x04, 0xe9, 0x80, 0x09, 0x98, 0xec, 0xf8, 0x42, 0x7e]" by code_simp
  moreover have "rfc_md5 [0x61] = [0x0c, 0xc1, 0x75, 0xb9, 0xc0, 0xf1, 0xb6, 0xa8, 0x31, 0xc3, 0x99, 0xe2, 0x69, 0x77, 0x26, 0x61]" by code_simp
  moreover have "rfc_md5 [0x61, 0x62, 0x63] = [0x90, 0x01, 0x50, 0x98, 0x3c, 0xd2, 0x4f, 0xb0, 0xd6, 0x96, 0x3f, 0x7d, 0x28, 0xe1, 0x7f, 0x72]" by code_simp
  ultimately show ?thesis by simp
qed

end
