(* ===== verification/Dbpf_Keyval.thy ===== *)
theory Dbpf_Keyval
  imports Ofs_Prelude "HOL-Library.Monad_Syntax"
begin

text \<open>
  The keyval spaces of Trove, \<open>src/io/trove/trove-dbpf/dbpf-keyval.c\<close> on the Berkeley DB back end
  \<open>dbpf-db-bdb.c\<close>: one ordered database holds for every handle its attributes, its directory entries and the
  number of its entries, under keys made of the handle, a type character and a name.

  Berkeley DB itself is a parameter, the record \<open>db_lib\<close> of its operations on a database; \<open>db_laws\<close> is what its
  documentation promises for a B-tree with a comparison function. The service functions of the operations are
  modelled; they run when their operation leaves the queue of Trove. Errors of the disk, the attribute cache and the
  performance counters are left out. \<open>None\<close> means that an assertion fails or a key does not fit into its structure.
\<close>

section \<open>Keys\<close>

definition PVFS_NAME_MAX :: nat where "PVFS_NAME_MAX = 256"
definition DBPF_MAX_KEY_LENGTH :: nat where "DBPF_MAX_KEY_LENGTH = PVFS_NAME_MAX"
definition TROVE_ENOENT :: int where "TROVE_ENOENT = PVFS_ENOENT + PVFS_ERROR_TROVE"
definition TROVE_EEXIST :: int where "TROVE_EEXIST = 11 + PVFS_ERROR_BIT + PVFS_ERROR_TROVE"
definition DBPF_OP_COMPLETE :: int where "DBPF_OP_COMPLETE = 1"

lemmas keyval_code_defs = TROVE_ENOENT_def TROVE_EEXIST_def DBPF_OP_COMPLETE_def error_code_defs

lemma codes_nonzero [simp]: "TROVE_ENOENT \<noteq> 0" "TROVE_EEXIST \<noteq> 0" "DBPF_OP_COMPLETE = 1"
  by (simp_all add: keyval_code_defs)

type_synonym bytes = "8 word list"

datatype dbpf_key_type = DBPF_DIRECTORY_ENTRY_TYPE | DBPF_ATTRIBUTE_TYPE | DBPF_COUNT_TYPE

fun type_char :: "dbpf_key_type \<Rightarrow> char" where
  "type_char DBPF_DIRECTORY_ENTRY_TYPE = CHR ''d''"
| "type_char DBPF_ATTRIBUTE_TYPE = CHR ''a''"
| "type_char DBPF_COUNT_TYPE = CHR ''c''"

datatype dbpf_keyval_db_entry = Db_entry (handle: TROVE_handle) (type: dbpf_key_type) (key: bytes)

fun memcmp :: "bytes \<Rightarrow> bytes \<Rightarrow> int" where
  "memcmp (x # xs) (y # ys) = (if x < y then - 1 else if y < x then 1 else memcmp xs ys)"
| "memcmp _ _ = 0"

definition keyval_compare :: "dbpf_keyval_db_entry \<Rightarrow> dbpf_keyval_db_entry \<Rightarrow> int" where
  "keyval_compare a b =
     (if handle a \<noteq> handle b then (if handle a < handle b then - 1 else 1)
      else if type a \<noteq> type b then (if of_char (type_char (type a)) < (of_char (type_char (type b)) :: int) then - 1 else 1)
      else if length (key a) > length (key b) then 1
      else if length (key a) < length (key b) then - 1
      else memcmp (key a) (key b))"

text \<open>The comparison is a linear order.\<close>

lemma memcmp_swap: "memcmp ys xs = - memcmp xs ys"
  by (induction xs ys rule: memcmp.induct) auto

lemma memcmp_eq: "length xs = length ys \<Longrightarrow> memcmp xs ys = 0 \<longleftrightarrow> xs = ys"
  by (induction xs ys rule: memcmp.induct) auto

lemma memcmp_trans:
  assumes "length xs = length ys" "length ys = length zs" "memcmp xs ys < 0" "memcmp ys zs < 0"
  shows "memcmp xs zs < 0"
  using assms by (induction xs ys zs rule: list_induct3) (auto split: if_splits)

abbreviation type_code :: "dbpf_key_type \<Rightarrow> int" where
  "type_code t \<equiv> of_char (type_char t)"

lemma type_char_eq [simp]: "type_char s = type_char t \<longleftrightarrow> s = t"
  by (cases s; cases t) simp_all

lemma keyval_compare_swap: "keyval_compare b a = - keyval_compare a b"
proof -
  consider "handle a \<noteq> handle b" | "handle a = handle b" "type a \<noteq> type b" | "handle a = handle b" "type a = type b" by blast
  then show ?thesis
  proof cases
    case 2
    then have "type_code (type a) \<noteq> type_code (type b)" by simp
    then show ?thesis using 2 by (auto simp: keyval_compare_def)
  next
    case 3
    then show ?thesis using memcmp_swap [of "key b" "key a"] by (simp add: keyval_compare_def)
  qed (auto simp: keyval_compare_def)
qed

lemma keyval_compare_eq: "keyval_compare a b = 0 \<longleftrightarrow> a = b"
  by (cases a; cases b) (auto simp: keyval_compare_def memcmp_eq)

lemma keyval_compare_less:
  "keyval_compare a b < 0 \<longleftrightarrow> handle a < handle b \<or> handle a = handle b \<and> (type_code (type a) < type_code (type b) \<or>
     type a = type b \<and> (length (key a) < length (key b) \<or> length (key a) = length (key b) \<and> memcmp (key a) (key b) < 0))"
  by (auto simp: keyval_compare_def)

lemma keyval_compare_trans:
  assumes "keyval_compare a b < 0" "keyval_compare b c < 0"
  shows "keyval_compare a c < 0"
proof -
  have "length (key a) = length (key b) \<Longrightarrow> length (key b) = length (key c) \<Longrightarrow> memcmp (key a) (key b) < 0 \<Longrightarrow> memcmp (key b) (key c) < 0 \<Longrightarrow>
    memcmp (key a) (key c) < 0" by (rule memcmp_trans)
  then show ?thesis using assms unfolding keyval_compare_less by (elim disjE conjE) auto
qed

instantiation dbpf_keyval_db_entry :: linorder
begin

definition less_eq_dbpf_keyval_db_entry :: "dbpf_keyval_db_entry \<Rightarrow> dbpf_keyval_db_entry \<Rightarrow> bool" where
  "less_eq_dbpf_keyval_db_entry a b \<longleftrightarrow> keyval_compare a b \<le> 0"

definition less_dbpf_keyval_db_entry :: "dbpf_keyval_db_entry \<Rightarrow> dbpf_keyval_db_entry \<Rightarrow> bool" where
  "less_dbpf_keyval_db_entry a b \<longleftrightarrow> keyval_compare a b < 0"

instance
proof
  fix a b c :: dbpf_keyval_db_entry
  note defs = less_eq_dbpf_keyval_db_entry_def less_dbpf_keyval_db_entry_def
  show "a < b \<longleftrightarrow> a \<le> b \<and> \<not> b \<le> a" unfolding defs using keyval_compare_swap [of b a] by auto
  show "a \<le> a" unfolding defs using keyval_compare_eq [of a a] by simp
  show "a \<le> b \<Longrightarrow> b \<le> c \<Longrightarrow> a \<le> c" unfolding defs
    using keyval_compare_trans [of a b c] keyval_compare_eq [of a b] keyval_compare_eq [of b c] by (auto simp: order_le_less)
  show "a \<le> b \<Longrightarrow> b \<le> a \<Longrightarrow> a = b" unfolding defs using keyval_compare_swap [of b a] keyval_compare_eq [of a b] by simp
  show "a \<le> b \<or> b \<le> a" unfolding defs using keyval_compare_swap [of b a] by linarith
qed

end

section \<open>The database\<close>

text \<open>The value of a key: the bytes of a keyval, or \<open>TROVE_keyval_handle_info\<close> with its count.\<close>

datatype db_data = Keyval bytes | Handle_info int

record 'db db_lib =
  lib_get :: "'db \<Rightarrow> dbpf_keyval_db_entry \<Rightarrow> db_data option"
  lib_put :: "'db \<Rightarrow> dbpf_keyval_db_entry \<Rightarrow> db_data \<Rightarrow> 'db"
  lib_del :: "'db \<Rightarrow> dbpf_keyval_db_entry \<Rightarrow> 'db"
  lib_keys :: "'db \<Rightarrow> dbpf_keyval_db_entry list"

definition db_laws :: "'db db_lib \<Rightarrow> bool" where
  "db_laws L \<longleftrightarrow>
     (\<forall>db k v k'. lib_get L (lib_put L db k v) k' = (if k' = k then Some v else lib_get L db k')) \<and>
     (\<forall>db k k'. lib_get L (lib_del L db k) k' = (if k' = k then None else lib_get L db k')) \<and>
     (\<forall>db. sorted_wrt (\<lambda>a b. keyval_compare a b < 0) (lib_keys L db)) \<and>
     (\<forall>db k. k \<in> set (lib_keys L db) \<longleftrightarrow> lib_get L db k \<noteq> None)"

text \<open>The wrappers of \<open>dbpf-db-bdb.c\<close>. A value that is longer than the buffer is cut, and its full length reported.\<close>

definition dbpf_db_get :: "'db db_lib \<Rightarrow> 'db \<Rightarrow> dbpf_keyval_db_entry \<Rightarrow> int \<times> db_data option" where
  "dbpf_db_get L db k = (case lib_get L db k of None \<Rightarrow> (TROVE_ENOENT, None) | Some d \<Rightarrow> (0, Some d))"

definition dbpf_db_put :: "'db db_lib \<Rightarrow> 'db \<Rightarrow> dbpf_keyval_db_entry \<Rightarrow> db_data \<Rightarrow> int \<times> 'db" where
  "dbpf_db_put L db k d = (0, lib_put L db k d)"

definition dbpf_db_putonce :: "'db db_lib \<Rightarrow> 'db \<Rightarrow> dbpf_keyval_db_entry \<Rightarrow> db_data \<Rightarrow> int \<times> 'db" where
  "dbpf_db_putonce L db k d = (if lib_get L db k \<noteq> None then (TROVE_EEXIST, db) else (0, lib_put L db k d))"

definition dbpf_db_del :: "'db db_lib \<Rightarrow> 'db \<Rightarrow> dbpf_keyval_db_entry \<Rightarrow> int \<times> 'db" where
  "dbpf_db_del L db k = (if lib_get L db k = None then (TROVE_ENOENT, db) else (0, lib_del L db k))"

section \<open>Operations\<close>

datatype trove_flag = TROVE_SYNC | TROVE_NOOVERWRITE | TROVE_ONLYOVERWRITE | TROVE_KEYVAL_HANDLE_COUNT | TROVE_BINARY_KEY
  | TROVE_KEYVAL_ITERATE_REMOVE | TROVE_KEYVAL_DIRECTORY_ENTRY

type_synonym TROVE_ds_flags = "trove_flag list"

abbreviation has_flag :: "TROVE_ds_flags \<Rightarrow> trove_flag \<Rightarrow> bool" where
  "has_flag flags f \<equiv> f \<in> set flags"

definition key_type :: "TROVE_ds_flags \<Rightarrow> dbpf_key_type" where
  "key_type flags = (if has_flag flags TROVE_KEYVAL_DIRECTORY_ENTRY then DBPF_DIRECTORY_ENTRY_TYPE else DBPF_ATTRIBUTE_TYPE)"

text \<open>The key of an operation, which is copied into a structure with room for \<open>DBPF_MAX_KEY_LENGTH\<close> bytes.\<close>

definition key_entry :: "TROVE_handle \<Rightarrow> dbpf_key_type \<Rightarrow> bytes \<Rightarrow> dbpf_keyval_db_entry option" where
  "key_entry h t buffer = (if length buffer \<le> DBPF_MAX_KEY_LENGTH then Some (Db_entry h t buffer) else None)"

datatype dbpf_handle_info_action = DBPF_KEYVAL_HANDLE_COUNT_INCREMENT | DBPF_KEYVAL_HANDLE_COUNT_DECREMENT

text \<open>Only keys of type \<open>DBPF_COUNT_TYPE\<close> hold a handle info, and they hold nothing else.\<close>

definition data_bytes :: "db_data \<Rightarrow> bytes" where
  "data_bytes d = (case d of Keyval b \<Rightarrow> b | Handle_info n \<Rightarrow> map (\<lambda>i. word_of_int (n div 2 ^ (8 * i))) [0..<4])"

definition info_count :: "db_data option \<Rightarrow> int" where
  "info_count d = (case d of Some (Handle_info n) \<Rightarrow> n | _ \<Rightarrow> 0)"

definition dbpf_keyval_handle_info_ops :: "'db db_lib \<Rightarrow> 'db \<Rightarrow> TROVE_ds_flags \<Rightarrow> TROVE_handle \<Rightarrow> dbpf_handle_info_action
    \<Rightarrow> (int \<times> 'db) option" where
  "dbpf_keyval_handle_info_ops L db flags h action =
     (if has_flag flags TROVE_KEYVAL_HANDLE_COUNT then
        let k = Db_entry h DBPF_COUNT_TYPE [];
            (ret, d) = dbpf_db_get L db k;
            count = (if ret = TROVE_ENOENT then 0 else info_count d)
        in case action of
             DBPF_KEYVAL_HANDLE_COUNT_INCREMENT \<Rightarrow>
               (let (ret, db) = dbpf_db_put L db k (Handle_info (count + 1)) in Some (- ret, db))
           | DBPF_KEYVAL_HANDLE_COUNT_DECREMENT \<Rightarrow>
               if \<not> count > 0 then None
               else if count - 1 = 0 then (let (ret, db) = dbpf_db_del L db k in Some (- ret, db))
               else (let (ret, db) = dbpf_db_put L db k (Handle_info (count - 1)) in Some (- ret, db))
      else Some (0, db))"

text \<open>A read gives the part of the value that fits into the buffer and the length of the value.\<close>

definition dbpf_keyval_read_op_svc :: "'db db_lib \<Rightarrow> 'db \<Rightarrow> TROVE_ds_flags \<Rightarrow> TROVE_handle \<Rightarrow> bytes \<Rightarrow> nat
    \<Rightarrow> (int \<times> (bytes \<times> nat) option) option" where
  "dbpf_keyval_read_op_svc L db flags h buffer val_sz = do {
     k \<leftarrow> key_entry h (key_type flags) buffer;
     case dbpf_db_get L db k of
       (ret, None) \<Rightarrow> Some (- ret, None)
     | (ret, Some d) \<Rightarrow> Some (1, Some (take val_sz (data_bytes d), length (data_bytes d))) }"

definition dbpf_keyval_write_op_svc :: "'db db_lib \<Rightarrow> 'db \<Rightarrow> TROVE_ds_flags \<Rightarrow> TROVE_handle \<Rightarrow> bytes \<Rightarrow> bytes \<Rightarrow> (int \<times> 'db) option" where
  "dbpf_keyval_write_op_svc L db flags h buffer val = do {
     k \<leftarrow> key_entry h (key_type flags) buffer;
     let ret = (if has_flag flags TROVE_ONLYOVERWRITE then - fst (dbpf_db_get L db k) else 0);
     if ret \<noteq> 0 then Some (ret, db)
     else
       let (ret, db) = (if has_flag flags TROVE_NOOVERWRITE then dbpf_db_putonce L db k (Keyval val) else dbpf_db_put L db k (Keyval val))
       in if ret \<noteq> 0 then Some (- ret, db)
          else do {
            (ret, db) \<leftarrow> (if has_flag flags TROVE_NOOVERWRITE
              then dbpf_keyval_handle_info_ops L db flags h DBPF_KEYVAL_HANDLE_COUNT_INCREMENT else Some (0, db));
            if ret \<noteq> 0 then Some (ret, db) else Some (DBPF_OP_COMPLETE, db) } }"

text \<open>A removal first reads the value, when the caller gives a buffer for it.\<close>

definition dbpf_keyval_do_remove :: "'db db_lib \<Rightarrow> 'db \<Rightarrow> TROVE_handle \<Rightarrow> dbpf_key_type \<Rightarrow> bytes \<Rightarrow> nat option \<Rightarrow> (int \<times> bytes option \<times> 'db) option" where
  "dbpf_keyval_do_remove L db h t buffer val_sz = do {
     k \<leftarrow> key_entry h t buffer;
     let val = (case val_sz of None \<Rightarrow> None | Some n \<Rightarrow> map_option (\<lambda>d. take n (data_bytes d)) (snd (dbpf_db_get L db k)));
     let (ret, db) = dbpf_db_del L db k;
     Some (- ret, val, db) }"

definition dbpf_keyval_remove_op_svc :: "'db db_lib \<Rightarrow> 'db \<Rightarrow> TROVE_ds_flags \<Rightarrow> TROVE_handle \<Rightarrow> bytes \<Rightarrow> nat option
    \<Rightarrow> (int \<times> bytes option \<times> 'db) option" where
  "dbpf_keyval_remove_op_svc L db flags h buffer val_sz = do {
     (ret, val, db) \<leftarrow> dbpf_keyval_do_remove L db h (key_type flags) buffer val_sz;
     if ret \<noteq> 0 then Some (ret, val, db)
     else do {
       (ret, db) \<leftarrow> dbpf_keyval_handle_info_ops L db flags h DBPF_KEYVAL_HANDLE_COUNT_DECREMENT;
       if ret \<noteq> 0 then Some (ret, val, db) else Some (DBPF_OP_COMPLETE, val, db) } }"

text \<open>The loop of the removal of a list, with the number of keys it has removed and the errors and values of all.\<close>

fun remove_loop :: "'db db_lib \<Rightarrow> 'db \<Rightarrow> TROVE_handle \<Rightarrow> dbpf_key_type \<Rightarrow> (bytes \<times> nat option) list
    \<Rightarrow> (int \<times> (int \<times> bytes option) list \<times> 'db) option" where
  "remove_loop L db h t [] = Some (0, [], db)"
| "remove_loop L db h t ((k, val_sz) # ks) = do {
     (ret, val, db) \<leftarrow> dbpf_keyval_do_remove L db h t k val_sz;
     (n, es, db) \<leftarrow> remove_loop L db h t ks;
     Some (if ret \<noteq> 0 then n else n + 1, (ret, val) # es, db) }"

definition dbpf_keyval_remove_list_op_svc :: "'db db_lib \<Rightarrow> 'db \<Rightarrow> TROVE_ds_flags \<Rightarrow> TROVE_handle \<Rightarrow> (bytes \<times> nat option) list
    \<Rightarrow> (int \<times> (int \<times> bytes option) list \<times> 'db) option" where
  "dbpf_keyval_remove_list_op_svc L db flags h key_array = do {
     (remove_count, error_array, db) \<leftarrow> remove_loop L db h (key_type flags) key_array;
     if has_flag flags TROVE_KEYVAL_HANDLE_COUNT then
       let k = Db_entry h DBPF_COUNT_TYPE [];
           (ret, d) = dbpf_db_get L db k;
           count = (if ret = TROVE_ENOENT then 0 else info_count d);
           (ret, db) = dbpf_db_put L db k (Handle_info (count - remove_count))
       in Some (if ret \<noteq> 0 then - ret else DBPF_OP_COMPLETE, error_array, db)
     else Some (DBPF_OP_COMPLETE, error_array, db) }"

fun read_list_loop :: "'db db_lib \<Rightarrow> 'db \<Rightarrow> TROVE_ds_flags \<Rightarrow> TROVE_handle \<Rightarrow> (bytes \<times> nat) list \<Rightarrow> (int \<times> (int \<times> bytes \<times> nat) list) option" where
  "read_list_loop L db flags h [] = Some (0, [])"
| "read_list_loop L db flags h ((buffer, val_sz) # ks) = do {
     k \<leftarrow> key_entry h (key_type flags) buffer;
     (n, rs) \<leftarrow> read_list_loop L db flags h ks;
     case dbpf_db_get L db k of
       (ret, None) \<Rightarrow> Some (n, (- ret, [], 0) # rs)
     | (ret, Some d) \<Rightarrow> Some (n + 1, (0, take val_sz (data_bytes d), length (data_bytes d)) # rs) }"

definition dbpf_keyval_read_list_op_svc :: "'db db_lib \<Rightarrow> 'db \<Rightarrow> TROVE_ds_flags \<Rightarrow> TROVE_handle \<Rightarrow> (bytes \<times> nat) list
    \<Rightarrow> (int \<times> (int \<times> bytes \<times> nat) list) option" where
  "dbpf_keyval_read_list_op_svc L db flags h ks = do {
     (success_count, rs) \<leftarrow> read_list_loop L db flags h ks;
     if success_count \<noteq> 0 then Some (1, rs) else do { r \<leftarrow> array_get rs 0; Some (fst r, rs) } }"

text \<open>The first loop of the writing of a list looks up every key, the second writes.\<close>

fun write_list_check :: "'db db_lib \<Rightarrow> 'db \<Rightarrow> TROVE_ds_flags \<Rightarrow> TROVE_handle \<Rightarrow> bytes list \<Rightarrow> int option" where
  "write_list_check L db flags h [] = Some 0"
| "write_list_check L db flags h (buffer # ks) = do {
     k \<leftarrow> key_entry h (key_type flags) buffer;
     let (ret, d) = dbpf_db_get L db k;
     if ret \<noteq> 0 \<and> \<not> (ret = TROVE_ENOENT \<and> (has_flag flags TROVE_NOOVERWRITE \<or> \<not> has_flag flags TROVE_ONLYOVERWRITE)) then Some (- ret)
     else write_list_check L db flags h ks }"

fun write_list_loop :: "'db db_lib \<Rightarrow> 'db \<Rightarrow> TROVE_ds_flags \<Rightarrow> TROVE_handle \<Rightarrow> (bytes \<times> bytes) list \<Rightarrow> (int \<times> 'db) option" where
  "write_list_loop L db flags h [] = Some (DBPF_OP_COMPLETE, db)"
| "write_list_loop L db flags h ((buffer, val) # kvs) = do {
     k \<leftarrow> key_entry h (key_type flags) buffer;
     let (ret, db) = dbpf_db_put L db k (Keyval val);
     if ret \<noteq> 0 then Some (- ret, db)
     else do {
       (ret, db) \<leftarrow> (if has_flag flags TROVE_NOOVERWRITE
         then dbpf_keyval_handle_info_ops L db flags h DBPF_KEYVAL_HANDLE_COUNT_INCREMENT else Some (0, db));
       if ret \<noteq> 0 then Some (ret, db) else write_list_loop L db flags h kvs } }"

definition dbpf_keyval_write_list_op_svc :: "'db db_lib \<Rightarrow> 'db \<Rightarrow> TROVE_ds_flags \<Rightarrow> TROVE_handle \<Rightarrow> (bytes \<times> bytes) list \<Rightarrow> (int \<times> 'db) option" where
  "dbpf_keyval_write_list_op_svc L db flags h kvs = do {
     ret \<leftarrow> write_list_check L db flags h (map fst kvs);
     if ret \<noteq> 0 then Some (ret, db) else write_list_loop L db flags h kvs }"

definition dbpf_keyval_get_handle_info_op_svc :: "'db db_lib \<Rightarrow> 'db \<Rightarrow> TROVE_handle \<Rightarrow> int \<times> int option" where
  "dbpf_keyval_get_handle_info_op_svc L db h =
     (let (ret, d) = dbpf_db_get L db (Db_entry h DBPF_COUNT_TYPE [])
      in if ret \<noteq> 0 then (- ret, None) else (1, Some (info_count d)))"

section \<open>The entries of a directory\<close>

text \<open>The flags with which the server writes and removes directory entries.\<close>

definition dirent_flags :: TROVE_ds_flags where
  "dirent_flags = [TROVE_SYNC, TROVE_NOOVERWRITE, TROVE_KEYVAL_HANDLE_COUNT, TROVE_KEYVAL_DIRECTORY_ENTRY]"

definition ents :: "'db db_lib \<Rightarrow> 'db \<Rightarrow> TROVE_handle \<Rightarrow> bytes \<Rightarrow> bytes option" where
  "ents L db h name = map_option data_bytes (lib_get L db (Db_entry h DBPF_DIRECTORY_ENTRY_TYPE name))"

definition ent_count :: "'db db_lib \<Rightarrow> 'db \<Rightarrow> TROVE_handle \<Rightarrow> int" where
  "ent_count L db h = info_count (lib_get L db (Db_entry h DBPF_COUNT_TYPE []))"

definition counted :: "'db db_lib \<Rightarrow> 'db \<Rightarrow> TROVE_handle \<Rightarrow> bool" where
  "counted L db h \<longleftrightarrow> ent_count L db h = int (card (dom (ents L db h)))"

text \<open>Two databases that differ at most in the directory entries of a handle and their count.\<close>

definition same_outside :: "'db db_lib \<Rightarrow> TROVE_handle \<Rightarrow> 'db \<Rightarrow> 'db \<Rightarrow> bool" where
  "same_outside L h db db' \<longleftrightarrow> (\<forall>k. handle k \<noteq> h \<or> type k = DBPF_ATTRIBUTE_TYPE \<longrightarrow> lib_get L db' k = lib_get L db k)"

lemma db_lawsD:
  assumes "db_laws L"
  shows "lib_get L (lib_put L db k v) k' = (if k' = k then Some v else lib_get L db k')"
    "lib_get L (lib_del L db k) k' = (if k' = k then None else lib_get L db k')"
    "sorted_wrt (\<lambda>a b. keyval_compare a b < 0) (lib_keys L db)" "k \<in> set (lib_keys L db) \<longleftrightarrow> lib_get L db k \<noteq> None"
  using assms unfolding db_laws_def by blast+

lemma finite_ents: "db_laws L \<Longrightarrow> finite (dom (ents L db h))"
proof -
  assume "db_laws L"
  then have "Db_entry h DBPF_DIRECTORY_ENTRY_TYPE ` dom (ents L db h) \<subseteq> set (lib_keys L db)"
    by (auto simp: ents_def db_lawsD(4))
  then have "finite (Db_entry h DBPF_DIRECTORY_ENTRY_TYPE ` dom (ents L db h))" by (rule finite_subset) simp
  then show ?thesis by (rule finite_imageD) (simp add: inj_on_def)
qed

lemma info_get: "(if fst (dbpf_db_get L db (Db_entry h DBPF_COUNT_TYPE [])) = TROVE_ENOENT then 0
    else info_count (snd (dbpf_db_get L db (Db_entry h DBPF_COUNT_TYPE [])))) = ent_count L db h"
  by (auto simp: dbpf_db_get_def ent_count_def info_count_def split: option.splits)

lemma count_put:
  assumes "db_laws L"
  shows "ents L (lib_put L db (Db_entry h DBPF_COUNT_TYPE []) d) = ents L db"
    "ent_count L (lib_put L db (Db_entry h DBPF_COUNT_TYPE []) (Handle_info n)) h = n"
    "same_outside L h db (lib_put L db (Db_entry h DBPF_COUNT_TYPE []) d)"
    "ents L (lib_del L db (Db_entry h DBPF_COUNT_TYPE [])) = ents L db"
    "ent_count L (lib_del L db (Db_entry h DBPF_COUNT_TYPE [])) h = 0"
    "same_outside L h db (lib_del L db (Db_entry h DBPF_COUNT_TYPE []))"
  by (auto simp: ents_def fun_eq_iff ent_count_def info_count_def same_outside_def db_lawsD [OF assms])

lemma entry_put:
  assumes "db_laws L"
  shows "ents L (lib_put L db (Db_entry h DBPF_DIRECTORY_ENTRY_TYPE name) (Keyval v)) h = (ents L db h)(name \<mapsto> v)"
    "ent_count L (lib_put L db (Db_entry h DBPF_DIRECTORY_ENTRY_TYPE name) d) h = ent_count L db h"
    "same_outside L h db (lib_put L db (Db_entry h DBPF_DIRECTORY_ENTRY_TYPE name) d)"
    "ents L (lib_del L db (Db_entry h DBPF_DIRECTORY_ENTRY_TYPE name)) h = (ents L db h)(name := None)"
    "ent_count L (lib_del L db (Db_entry h DBPF_DIRECTORY_ENTRY_TYPE name)) h = ent_count L db h"
    "same_outside L h db (lib_del L db (Db_entry h DBPF_DIRECTORY_ENTRY_TYPE name))"
  by (auto simp: ents_def fun_eq_iff ent_count_def info_count_def same_outside_def db_lawsD [OF assms] data_bytes_def)

lemma same_outside_trans [trans]: "same_outside L h a b \<Longrightarrow> same_outside L h b c \<Longrightarrow> same_outside L h a c"
  by (simp add: same_outside_def)

lemma info_increment:
  assumes "db_laws L" "has_flag flags TROVE_KEYVAL_HANDLE_COUNT"
  obtains db' where "dbpf_keyval_handle_info_ops L db flags h DBPF_KEYVAL_HANDLE_COUNT_INCREMENT = Some (0, db')"
    "ents L db' = ents L db" "ent_count L db' h = ent_count L db h + 1" "same_outside L h db db'"
  using count_put [OF assms(1)] assms(2) info_get [of L db h]
  by (auto simp: dbpf_keyval_handle_info_ops_def Let_def case_prod_beta dbpf_db_put_def intro!: that)

lemma info_decrement:
  assumes "db_laws L" "has_flag flags TROVE_KEYVAL_HANDLE_COUNT" "0 < ent_count L db h"
  obtains db' where "dbpf_keyval_handle_info_ops L db flags h DBPF_KEYVAL_HANDLE_COUNT_DECREMENT = Some (0, db')"
    "ents L db' = ents L db" "ent_count L db' h = ent_count L db h - 1" "same_outside L h db db'"
proof -
  have "lib_get L db (Db_entry h DBPF_COUNT_TYPE []) \<noteq> None" using assms(3) by (auto simp: ent_count_def info_count_def split: option.splits)
  then show thesis
    using count_put [OF assms(1)] assms(2,3) info_get [of L db h]
    by (cases "ent_count L db h = 1")
      (auto simp: dbpf_keyval_handle_info_ops_def Let_def case_prod_beta dbpf_db_put_def dbpf_db_del_def intro!: that)
qed

lemma dirent_flag_simps [simp]: "has_flag dirent_flags TROVE_KEYVAL_HANDLE_COUNT" "has_flag dirent_flags TROVE_NOOVERWRITE"
  "\<not> has_flag dirent_flags TROVE_ONLYOVERWRITE" "key_type dirent_flags = DBPF_DIRECTORY_ENTRY_TYPE"
  by (simp_all add: dirent_flags_def key_type_def)

lemma in_ents: "name \<in> dom (ents L db h) \<longleftrightarrow> lib_get L db (Db_entry h DBPF_DIRECTORY_ENTRY_TYPE name) \<noteq> None"
  by (auto simp: ents_def)

lemma counted_insert:
  assumes "db_laws L" "counted L db h" "name \<notin> dom (ents L db h)" "ents L db' h = (ents L db h)(name \<mapsto> v)" "ent_count L db' h = ent_count L db h + 1"
  shows "counted L db' h"
  using assms finite_ents [OF assms(1), of db h] by (simp add: counted_def)

lemma counted_remove:
  assumes "db_laws L" "counted L db h" "name \<in> dom (ents L db h)" "ents L db' h = (ents L db h)(name := None)" "ent_count L db' h = ent_count L db h - 1"
  shows "counted L db' h"
proof -
  have f: "finite (dom (ents L db h))" by (rule finite_ents [OF assms(1)])
  then have "card (dom (ents L db h)) = Suc (card (dom (ents L db h) - {name}))" using assms(3) by (rule card.remove)
  then show ?thesis using assms(2,4,5) by (simp add: counted_def)
qed

text \<open>The functional behaviour of the operations on directory entries.\<close>

lemma write_entry:
  assumes "db_laws L" "counted L db h" "length name \<le> DBPF_MAX_KEY_LENGTH"
  obtains (exists) "name \<in> dom (ents L db h)" "dbpf_keyval_write_op_svc L db dirent_flags h name v = Some (- TROVE_EEXIST, db)"
  | (new) db' where "name \<notin> dom (ents L db h)" "dbpf_keyval_write_op_svc L db dirent_flags h name v = Some (DBPF_OP_COMPLETE, db')"
    "ents L db' h = (ents L db h)(name \<mapsto> v)" "counted L db' h" "same_outside L h db db'"
proof (cases "name \<in> dom (ents L db h)")
  case True
  then show thesis using exists assms(3)
    by (simp add: dbpf_keyval_write_op_svc_def key_entry_def dbpf_db_putonce_def in_ents Let_def)
next
  case False
  let ?db = "lib_put L db (Db_entry h DBPF_DIRECTORY_ENTRY_TYPE name) (Keyval v)"
  obtain db' where db': "dbpf_keyval_handle_info_ops L ?db dirent_flags h DBPF_KEYVAL_HANDLE_COUNT_INCREMENT = Some (0, db')"
    "ents L db' = ents L ?db" "ent_count L db' h = ent_count L ?db h + 1" "same_outside L h ?db db'"
    by (rule info_increment [OF assms(1), of dirent_flags ?db h]) simp_all
  note e = entry_put [OF assms(1), where db = db and h = h and name = name]
  show thesis
  proof (rule new [OF False])
    show "dbpf_keyval_write_op_svc L db dirent_flags h name v = Some (DBPF_OP_COMPLETE, db')"
      using False assms(3) db'(1) by (simp add: dbpf_keyval_write_op_svc_def key_entry_def dbpf_db_putonce_def in_ents Let_def)
    show ents: "ents L db' h = (ents L db h)(name \<mapsto> v)" using db'(2) e(1) by simp
    show "counted L db' h" by (rule counted_insert [OF assms(1,2) False ents]) (simp add: db'(3) e(2))
    show "same_outside L h db db'" by (rule same_outside_trans [OF e(3) db'(4)])
  qed
qed

lemma remove_entry:
  assumes "db_laws L" "counted L db h" "length name \<le> DBPF_MAX_KEY_LENGTH"
  obtains (none) "name \<notin> dom (ents L db h)" "dbpf_keyval_remove_op_svc L db dirent_flags h name n = Some (- TROVE_ENOENT, None, db)"
  | (removed) v db' where "ents L db h name = Some v"
    "dbpf_keyval_remove_op_svc L db dirent_flags h name n = Some (DBPF_OP_COMPLETE, map_option (\<lambda>n. take n v) n, db')"
    "ents L db' h = (ents L db h)(name := None)" "counted L db' h" "same_outside L h db db'"
proof (cases "ents L db h name")
  case None
  then show thesis using none assms(3)
    by (simp add: dbpf_keyval_remove_op_svc_def dbpf_keyval_do_remove_def key_entry_def dbpf_db_del_def dbpf_db_get_def in_ents ents_def
      Let_def domIff split: option.splits)
next
  case (Some v)
  let ?db = "lib_del L db (Db_entry h DBPF_DIRECTORY_ENTRY_TYPE name)"
  have dom: "name \<in> dom (ents L db h)" using Some by blast
  then have "0 < card (dom (ents L db h))" using finite_ents [OF assms(1)] card_gt_0_iff by blast
  then have pos: "0 < ent_count L ?db h" using assms(2) entry_put(5) [OF assms(1), where db = db and h = h and name = name] by (simp add: counted_def)
  obtain db' where db': "dbpf_keyval_handle_info_ops L ?db dirent_flags h DBPF_KEYVAL_HANDLE_COUNT_DECREMENT = Some (0, db')"
    "ents L db' = ents L ?db" "ent_count L db' h = ent_count L ?db h - 1" "same_outside L h ?db db'"
    by (rule info_decrement [OF assms(1) _ pos, of dirent_flags]) simp_all
  note e = entry_put [OF assms(1), where db = db and h = h and name = name]
  show thesis
  proof (rule removed [OF Some])
    show "dbpf_keyval_remove_op_svc L db dirent_flags h name n = Some (DBPF_OP_COMPLETE, map_option (\<lambda>n. take n v) n, db')"
      using Some assms(3) db'(1)
      by (auto simp: dbpf_keyval_remove_op_svc_def dbpf_keyval_do_remove_def key_entry_def dbpf_db_del_def dbpf_db_get_def ents_def Let_def split: option.splits)
    show ents: "ents L db' h = (ents L db h)(name := None)" using db'(2) e(4) by simp
    show "counted L db' h" by (rule counted_remove [OF assms(1,2) dom ents]) (simp add: db'(3) e(5))
    show "same_outside L h db db'" by (rule same_outside_trans [OF e(6) db'(4)])
  qed
qed

text \<open>The removal of a list of entries leaves exactly the others.\<close>

lemma remove_loop_entries:
  assumes "db_laws L" "\<forall>(k, n) \<in> set ks. length k \<le> DBPF_MAX_KEY_LENGTH"
  obtains es db' where "remove_loop L db h DBPF_DIRECTORY_ENTRY_TYPE ks = Some (int (card (dom (ents L db h))) - int (card (dom (ents L db' h))), es, db')"
    "ents L db' h = ents L db h |` (- fst ` set ks)" "ent_count L db' h = ent_count L db h" "same_outside L h db db'"
  using assms(2)
proof (induction ks arbitrary: db thesis)
  case Nil
  have "same_outside L h db db" by (simp add: same_outside_def)
  then show ?case by (intro Nil(1) [of db "[]"]) simp_all
next
  case (Cons kn ks)
  obtain k n where kn: "kn = (k, n)" by (cases kn)
  let ?k = "Db_entry h DBPF_DIRECTORY_ENTRY_TYPE k"
  have len: "length k \<le> DBPF_MAX_KEY_LENGTH" "\<forall>(k, n) \<in> set ks. length k \<le> DBPF_MAX_KEY_LENGTH" using Cons.prems(2) kn by auto
  note e = entry_put [OF assms(1), where db = db and h = h and name = k]
  define db1 where "db1 = (if k \<in> dom (ents L db h) then lib_del L db ?k else db)"
  have db1: "ents L db1 h = (ents L db h)(k := None)" "ent_count L db1 h = ent_count L db h" "same_outside L h db db1"
    using e by (auto simp: db1_def fun_eq_iff same_outside_def)
  obtain es db' where r: "remove_loop L db1 h DBPF_DIRECTORY_ENTRY_TYPE ks = Some (int (card (dom (ents L db1 h))) - int (card (dom (ents L db' h))), es, db')"
    "ents L db' h = ents L db1 h |` (- fst ` set ks)" "ent_count L db' h = ent_count L db1 h" "same_outside L h db1 db'"
    by (rule Cons.IH [OF _ len(2)])
  define v where "v = (case n of None \<Rightarrow> None | Some n \<Rightarrow> map_option (\<lambda>d. take n (data_bytes d)) (snd (dbpf_db_get L db ?k)))"
  define ret where "ret = (if k \<in> dom (ents L db h) then 0 else - TROVE_ENOENT)"
  have "dbpf_keyval_do_remove L db h DBPF_DIRECTORY_ENTRY_TYPE k n = Some (ret, v, db1)"
    using len(1) by (simp add: dbpf_keyval_do_remove_def key_entry_def v_def ret_def dbpf_db_del_def db1_def in_ents Let_def)
  then have run: "remove_loop L db h DBPF_DIRECTORY_ENTRY_TYPE (kn # ks) =
    Some (int (card (dom (ents L db1 h))) - int (card (dom (ents L db' h))) + (if k \<in> dom (ents L db h) then 1 else 0), (ret, v) # es, db')"
    using r(1) by (simp add: kn ret_def)
  have "int (card (dom (ents L db1 h))) + (if k \<in> dom (ents L db h) then 1 else 0) = int (card (dom (ents L db h)))"
    using card_Suc_Diff1 [OF finite_ents [OF assms(1)], of k db h] by (auto simp: db1(1) domIff intro!: arg_cong [where f = card])
  then show ?case
    using run r(2-4) db1 same_outside_trans [OF db1(3) r(4)] Cons.prems(1) [of db' "(ret, v) # es"]
    by (auto simp: kn restrict_map_def fun_eq_iff algebra_simps)
qed

lemma remove_list_entries:
  assumes "db_laws L" "counted L db h" "\<forall>(k, n) \<in> set ks. length k \<le> DBPF_MAX_KEY_LENGTH"
  obtains es db' where "dbpf_keyval_remove_list_op_svc L db dirent_flags h ks = Some (DBPF_OP_COMPLETE, es, db')"
    "ents L db' h = ents L db h |` (- fst ` set ks)" "counted L db' h" "same_outside L h db db'"
proof -
  obtain es db1 where r: "remove_loop L db h DBPF_DIRECTORY_ENTRY_TYPE ks = Some (int (card (dom (ents L db h))) - int (card (dom (ents L db1 h))), es, db1)"
    "ents L db1 h = ents L db h |` (- fst ` set ks)" "ent_count L db1 h = ent_count L db h" "same_outside L h db db1"
    by (rule remove_loop_entries [OF assms(1,3)])
  let ?db = "lib_put L db1 (Db_entry h DBPF_COUNT_TYPE []) (Handle_info (int (card (dom (ents L db1 h)))))"
  note p = count_put [OF assms(1), where db = db1 and h = h]
  show thesis
  proof (rule that)
    show "dbpf_keyval_remove_list_op_svc L db dirent_flags h ks = Some (DBPF_OP_COMPLETE, es, ?db)"
      using r(1,3) info_get [of L db1 h] assms(2)
      by (simp add: dbpf_keyval_remove_list_op_svc_def Let_def case_prod_beta dbpf_db_put_def counted_def)
    show "ents L ?db h = ents L db h |` (- fst ` set ks)" using p(1) r(2) by simp
    show "counted L ?db h" using p by (simp add: counted_def)
    show "same_outside L h db ?db" by (rule same_outside_trans [OF r(4) p(3)])
  qed
qed

text \<open>The writing of a list never fails for a key that exists, in spite of \<open>TROVE_NOOVERWRITE\<close>.\<close>

lemma write_list_check_passes:
  "\<forall>k \<in> set ks. length k \<le> DBPF_MAX_KEY_LENGTH \<Longrightarrow> write_list_check L db dirent_flags h ks = Some 0"
  by (induction ks) (auto simp: key_entry_def dbpf_db_get_def Let_def split: option.splits)

lemma write_list_loop_entries:
  assumes "db_laws L" "\<forall>k \<in> set (map fst kvs). length k \<le> DBPF_MAX_KEY_LENGTH"
  obtains db' where "write_list_loop L db dirent_flags h kvs = Some (DBPF_OP_COMPLETE, db')"
    "ents L db' h = ents L db h ++ map_of (rev kvs)" "ent_count L db' h = ent_count L db h + int (length kvs)" "same_outside L h db db'"
  using assms(2)
proof (induction kvs arbitrary: db thesis)
  case Nil
  have "same_outside L h db db" by (simp add: same_outside_def)
  then show ?case by (intro Nil(1) [of db]) simp_all
next
  case (Cons kv kvs)
  obtain k v where kv: "kv = (k, v)" by (cases kv)
  let ?db = "lib_put L db (Db_entry h DBPF_DIRECTORY_ENTRY_TYPE k) (Keyval v)"
  have len: "length k \<le> DBPF_MAX_KEY_LENGTH" "\<forall>k \<in> set (map fst kvs). length k \<le> DBPF_MAX_KEY_LENGTH" using Cons.prems(2) kv by auto
  note e = entry_put [OF assms(1), where db = db and h = h and name = k]
  obtain db1 where db1: "dbpf_keyval_handle_info_ops L ?db dirent_flags h DBPF_KEYVAL_HANDLE_COUNT_INCREMENT = Some (0, db1)"
    "ents L db1 = ents L ?db" "ent_count L db1 h = ent_count L ?db h + 1" "same_outside L h ?db db1"
    by (rule info_increment [OF assms(1), of dirent_flags ?db h]) simp_all
  obtain db' where r: "write_list_loop L db1 dirent_flags h kvs = Some (DBPF_OP_COMPLETE, db')"
    "ents L db' h = ents L db1 h ++ map_of (rev kvs)" "ent_count L db' h = ent_count L db1 h + int (length kvs)" "same_outside L h db1 db'"
    by (rule Cons.IH [OF _ len(2)])
  show ?case
  proof (rule Cons.prems(1))
    show "write_list_loop L db dirent_flags h (kv # kvs) = Some (DBPF_OP_COMPLETE, db')"
      using len(1) db1(1) r(1) by (simp add: kv key_entry_def dbpf_db_put_def Let_def)
    show "ents L db' h = ents L db h ++ map_of (rev (kv # kvs))"
      using r(2) db1(2) e(1) by (simp add: kv)
    show "ent_count L db' h = ent_count L db h + int (length (kv # kvs))" using r(3) db1(3) e(2) by simp
    show "same_outside L h db db'" by (rule same_outside_trans [OF same_outside_trans [OF e(3) db1(4)] r(4)])
  qed
qed

lemma write_list_entries:
  assumes "db_laws L" "\<forall>k \<in> set (map fst kvs). length k \<le> DBPF_MAX_KEY_LENGTH" "distinct (map fst kvs)"
  obtains db' where "dbpf_keyval_write_list_op_svc L db dirent_flags h kvs = Some (DBPF_OP_COMPLETE, db')"
    "ents L db' h = ents L db h ++ map_of kvs" "ent_count L db' h = ent_count L db h + int (length kvs)" "same_outside L h db db'"
proof -
  obtain db' where r: "write_list_loop L db dirent_flags h kvs = Some (DBPF_OP_COMPLETE, db')"
    "ents L db' h = ents L db h ++ map_of (rev kvs)" "ent_count L db' h = ent_count L db h + int (length kvs)" "same_outside L h db db'"
    by (rule write_list_loop_entries [OF assms(1,2)])
  have "map_of (rev kvs) = map_of kvs" using assms(3) by (metis map_of_eqI distinct_map_filter map_of_inject_set distinct_rev rev_map set_rev)
  moreover have "dbpf_keyval_write_list_op_svc L db dirent_flags h kvs = Some (DBPF_OP_COMPLETE, db')"
    using r(1) by (simp add: dbpf_keyval_write_list_op_svc_def write_list_check_passes [OF assms(2)])
  ultimately show thesis using that [of db'] r(2-4) by simp
qed

section \<open>Properties\<close>

text \<open>The operations of the server on the entries of a directory, and their meaning.\<close>

datatype dirent_op = Write_entry bytes bytes | Remove_entry bytes | Remove_entries "bytes list"

fun dirent_run :: "'db db_lib \<Rightarrow> 'db \<Rightarrow> TROVE_handle \<Rightarrow> dirent_op list \<Rightarrow> (int list \<times> 'db) option" where
  "dirent_run L db h [] = Some ([], db)"
| "dirent_run L db h (Write_entry name v # ops) = do {
     (ret, db) \<leftarrow> dbpf_keyval_write_op_svc L db dirent_flags h name v;
     (rets, db) \<leftarrow> dirent_run L db h ops;
     Some (ret # rets, db) }"
| "dirent_run L db h (Remove_entry name # ops) = do {
     (ret, v, db) \<leftarrow> dbpf_keyval_remove_op_svc L db dirent_flags h name None;
     (rets, db) \<leftarrow> dirent_run L db h ops;
     Some (ret # rets, db) }"
| "dirent_run L db h (Remove_entries names # ops) = do {
     (ret, es, db) \<leftarrow> dbpf_keyval_remove_list_op_svc L db dirent_flags h (map (\<lambda>n. (n, None)) names);
     (rets, db) \<leftarrow> dirent_run L db h ops;
     Some (ret # rets, db) }"

fun dirent_spec :: "(bytes \<rightharpoonup> bytes) \<Rightarrow> dirent_op list \<Rightarrow> int list \<times> (bytes \<rightharpoonup> bytes)" where
  "dirent_spec m [] = ([], m)"
| "dirent_spec m (Write_entry name v # ops) =
     (if name \<in> dom m then (let (rets, m') = dirent_spec m ops in (- TROVE_EEXIST # rets, m'))
      else (let (rets, m') = dirent_spec (m(name \<mapsto> v)) ops in (DBPF_OP_COMPLETE # rets, m')))"
| "dirent_spec m (Remove_entry name # ops) =
     (if name \<in> dom m then (let (rets, m') = dirent_spec (m(name := None)) ops in (DBPF_OP_COMPLETE # rets, m'))
      else (let (rets, m') = dirent_spec m ops in (- TROVE_ENOENT # rets, m')))"
| "dirent_spec m (Remove_entries names # ops) =
     (let (rets, m') = dirent_spec (m |` (- set names)) ops in (DBPF_OP_COMPLETE # rets, m'))"

fun op_names :: "dirent_op \<Rightarrow> bytes list" where
  "op_names (Write_entry name v) = [name]"
| "op_names (Remove_entry name) = [name]"
| "op_names (Remove_entries names) = names"

lemma dirent_run_spec:
  assumes "db_laws L" "counted L db h" "\<forall>op \<in> set ops. \<forall>n \<in> set (op_names op). length n \<le> DBPF_MAX_KEY_LENGTH"
  shows "\<exists>db'. dirent_run L db h ops = Some (fst (dirent_spec (ents L db h) ops), db') \<and>
    ents L db' h = snd (dirent_spec (ents L db h) ops) \<and> counted L db' h \<and> same_outside L h db db'"
  using assms(2,3)
proof (induction ops arbitrary: db)
  case Nil
  then show ?case by (simp add: same_outside_def)
next
  case (Cons op ops)
  have ops: "\<forall>op \<in> set ops. \<forall>n \<in> set (op_names op). length n \<le> DBPF_MAX_KEY_LENGTH" using Cons.prems(2) by simp
  show ?case
  proof (cases op)
    case (Write_entry name v)
    then have len: "length name \<le> DBPF_MAX_KEY_LENGTH" using Cons.prems(2) by simp
    show ?thesis
    proof (cases rule: write_entry [OF assms(1) Cons.prems(1) len, where v = v, case_names exists new])
      case exists
      obtain db' where d: "dirent_run L db h ops = Some (fst (dirent_spec (ents L db h) ops), db')" "ents L db' h = snd (dirent_spec (ents L db h) ops)"
        "counted L db' h" "same_outside L h db db'" using Cons.IH [OF Cons.prems(1) ops] by blast
      then show ?thesis using exists by (simp add: Write_entry case_prod_beta)
    next
      case (new db1)
      obtain db' where d: "dirent_run L db1 h ops = Some (fst (dirent_spec (ents L db1 h) ops), db')" "ents L db' h = snd (dirent_spec (ents L db1 h) ops)"
        "counted L db' h" "same_outside L h db1 db'" using Cons.IH [OF new(4) ops] by blast
      show ?thesis using new(1,2) d(1-3) same_outside_trans [OF new(5) d(4)] unfolding new(3) by (simp add: Write_entry case_prod_beta)
    qed
  next
    case (Remove_entry name)
    then have len: "length name \<le> DBPF_MAX_KEY_LENGTH" using Cons.prems(2) by simp
    show ?thesis
    proof (cases rule: remove_entry [OF assms(1) Cons.prems(1) len, where n = None, case_names none removed])
      case none
      obtain db' where d: "dirent_run L db h ops = Some (fst (dirent_spec (ents L db h) ops), db')" "ents L db' h = snd (dirent_spec (ents L db h) ops)"
        "counted L db' h" "same_outside L h db db'" using Cons.IH [OF Cons.prems(1) ops] by blast
      then show ?thesis using none by (simp add: Remove_entry case_prod_beta)
    next
      case (removed v db1)
      obtain db' where d: "dirent_run L db1 h ops = Some (fst (dirent_spec (ents L db1 h) ops), db')" "ents L db' h = snd (dirent_spec (ents L db1 h) ops)"
        "counted L db' h" "same_outside L h db1 db'" using Cons.IH [OF removed(4) ops] by blast
      have "name \<in> dom (ents L db h)" using removed(1) by blast
      then show ?thesis using removed(2) d(1-3) same_outside_trans [OF removed(5) d(4)] unfolding removed(3) by (simp add: Remove_entry case_prod_beta)
    qed
  next
    case (Remove_entries names)
    then have len: "\<forall>(k, n) \<in> set (map (\<lambda>n. (n, None :: nat option)) names). length k \<le> DBPF_MAX_KEY_LENGTH" using Cons.prems(2) by auto
    obtain es db1 where r: "dbpf_keyval_remove_list_op_svc L db dirent_flags h (map (\<lambda>n. (n, None :: nat option)) names) = Some (DBPF_OP_COMPLETE, es, db1)"
      "ents L db1 h = ents L db h |` (- fst ` set (map (\<lambda>n. (n, None :: nat option)) names))" "counted L db1 h" "same_outside L h db db1"
      by (rule remove_list_entries [OF assms(1) Cons.prems(1) len])
    have "fst ` set (map (\<lambda>n. (n, None :: nat option)) names) = set names" by force
    then have e: "ents L db1 h = ents L db h |` (- set names)" using r(2) by simp
    obtain db' where d: "dirent_run L db1 h ops = Some (fst (dirent_spec (ents L db1 h) ops), db')" "ents L db' h = snd (dirent_spec (ents L db1 h) ops)"
        "counted L db' h" "same_outside L h db1 db'" using Cons.IH [OF r(3) ops] by blast
    show ?thesis using r(1) d(1-3) same_outside_trans [OF r(4) d(4)] unfolding e by (simp add: Remove_entries case_prod_beta)
  qed
qed

lemma handle_info_counted:
  assumes "db_laws L" "counted L db h"
  shows "dbpf_keyval_get_handle_info_op_svc L db h =
    (if lib_get L db (Db_entry h DBPF_COUNT_TYPE []) = None then (- TROVE_ENOENT, None) else (1, Some (int (card (dom (ents L db h))))))"
    "lib_get L db (Db_entry h DBPF_COUNT_TYPE []) = None \<Longrightarrow> ents L db h = Map.empty"
proof -
  show "dbpf_keyval_get_handle_info_op_svc L db h =
    (if lib_get L db (Db_entry h DBPF_COUNT_TYPE []) = None then (- TROVE_ENOENT, None) else (1, Some (int (card (dom (ents L db h))))))"
    using assms(2) by (auto simp: dbpf_keyval_get_handle_info_op_svc_def dbpf_db_get_def counted_def ent_count_def)
  assume "lib_get L db (Db_entry h DBPF_COUNT_TYPE []) = None"
  then have "card (dom (ents L db h)) = 0" using assms(2) by (simp add: counted_def ent_count_def info_count_def)
  then show "ents L db h = Map.empty" using finite_ents [OF assms(1)] by simp
qed

text \<open>A database that is a list of pairs.\<close>

definition list_lib :: "(dbpf_keyval_db_entry \<times> db_data) list db_lib" where
  "list_lib = \<lparr>lib_get = map_of, lib_put = (\<lambda>db k v. (k, v) # db), lib_del = (\<lambda>db k. filter (\<lambda>(k', v). k' \<noteq> k) db),
     lib_keys = (\<lambda>db. sorted_list_of_set (fst ` set db))\<rparr>"

lemma list_lib_laws: "db_laws list_lib"
proof -
  have "map_of (filter (\<lambda>(k', v). k' \<noteq> k) db) k' = (if k' = k then None else map_of db k')" for db :: "(dbpf_keyval_db_entry \<times> db_data) list" and k k'
    by (induction db) auto
  moreover have "sorted_wrt (<) (sorted_list_of_set (fst ` set db))" for db :: "(dbpf_keyval_db_entry \<times> db_data) list"
    by (rule strict_sorted_list_of_set)
  ultimately show ?thesis
    by (auto simp: db_laws_def list_lib_def less_dbpf_keyval_db_entry_def [abs_def] map_of_eq_None_iff)
qed





end
