(* ===== verification/Dbpf_Iterate.thy ===== *)
theory Dbpf_Iterate
  imports Dbpf_Keyval
begin

text \<open>
  Iteration over the keyvals of a handle, \<open>dbpf-keyval.c\<close>: a client reads a directory in pages, and each page starts
  behind the last entry of the page before. The position of a page is the index of its last entry, with a session
  number above it, and a cache gives the key at a position. The cache is a map from handles and positions to keys;
  what it drops when it is full is an argument.
\<close>

unbundle bit_operations_syntax

section \<open>Cursors\<close>

datatype dbpf_cursor_op = DBPF_DB_CURSOR_NEXT | DBPF_DB_CURSOR_CURRENT | DBPF_DB_CURSOR_SET | DBPF_DB_CURSOR_SET_RANGE
  | DBPF_DB_CURSOR_FIRST

text \<open>A cursor stands on the key it has returned last.\<close>

definition dbpf_db_cursor_get :: "'db db_lib \<Rightarrow> 'db \<Rightarrow> dbpf_keyval_db_entry option \<Rightarrow> dbpf_keyval_db_entry \<Rightarrow> dbpf_cursor_op
    \<Rightarrow> int \<times> dbpf_keyval_db_entry option" where
  "dbpf_db_cursor_get L db cur k op =
     (case (case op of
              DBPF_DB_CURSOR_NEXT \<Rightarrow> find (\<lambda>e. case cur of None \<Rightarrow> True | Some c \<Rightarrow> c < e) (lib_keys L db)
            | DBPF_DB_CURSOR_CURRENT \<Rightarrow> (case cur of None \<Rightarrow> None | Some c \<Rightarrow> if lib_get L db c = None then None else Some c)
            | DBPF_DB_CURSOR_SET \<Rightarrow> (if lib_get L db k = None then None else Some k)
            | DBPF_DB_CURSOR_SET_RANGE \<Rightarrow> find (\<lambda>e. k \<le> e) (lib_keys L db)
            | DBPF_DB_CURSOR_FIRST \<Rightarrow> find (\<lambda>e. True) (lib_keys L db)) of
        None \<Rightarrow> (TROVE_ENOENT, None)
      | Some e \<Rightarrow> (0, Some e))"

definition dbpf_keyval_iterate_cursor_get :: "'db db_lib \<Rightarrow> 'db \<Rightarrow> dbpf_keyval_db_entry option \<Rightarrow> TROVE_handle \<Rightarrow> dbpf_key_type \<Rightarrow> bytes
    \<Rightarrow> dbpf_cursor_op \<Rightarrow> int \<times> dbpf_keyval_db_entry option \<times> (bytes \<times> bytes) option" where
  "dbpf_keyval_iterate_cursor_get L db cur h t name op =
     (case dbpf_db_cursor_get L db cur (Db_entry h t name) op of
        (ret, None) \<Rightarrow> (- ret, cur, None)
      | (ret, Some e) \<Rightarrow>
          if handle e \<noteq> h \<or> type e \<noteq> t then (- TROVE_ENOENT, Some e, None)
          else (0, Some e, Some (key e, case lib_get L db e of None \<Rightarrow> [] | Some d \<Rightarrow> data_bytes d)))"

definition DBPF_ITERATE_CURRENT_POSITION :: int where "DBPF_ITERATE_CURRENT_POSITION = 1"

text \<open>A key of length 0 in front of the entries is skipped; errors of this step are not returned.\<close>

definition dbpf_keyval_iterate_get_first_entry :: "'db db_lib \<Rightarrow> 'db \<Rightarrow> TROVE_handle \<Rightarrow> dbpf_key_type \<Rightarrow> int \<times> dbpf_keyval_db_entry option" where
  "dbpf_keyval_iterate_get_first_entry L db h t =
     (case dbpf_keyval_iterate_cursor_get L db None h t [] DBPF_DB_CURSOR_SET_RANGE of
        (ret, cur, None) \<Rightarrow> (ret, cur)
      | (ret, cur, Some (name, v)) \<Rightarrow>
          if length name = 0 then (0, fst (snd (dbpf_keyval_iterate_cursor_get L db cur h t [] DBPF_DB_CURSOR_NEXT)))
          else (0, cur))"

fun step_loop :: "'db db_lib \<Rightarrow> 'db \<Rightarrow> TROVE_handle \<Rightarrow> dbpf_key_type \<Rightarrow> nat \<Rightarrow> dbpf_keyval_db_entry option \<Rightarrow> int \<times> dbpf_keyval_db_entry option" where
  "step_loop L db h t 0 cur = (0, cur)"
| "step_loop L db h t (Suc n) cur =
     (case dbpf_keyval_iterate_cursor_get L db cur h t [] DBPF_DB_CURSOR_NEXT of
        (ret, cur, _) \<Rightarrow> if ret \<noteq> 0 then (ret, cur) else step_loop L db h t n cur)"

definition dbpf_keyval_iterate_step_to_position :: "'db db_lib \<Rightarrow> 'db \<Rightarrow> TROVE_handle \<Rightarrow> dbpf_key_type \<Rightarrow> nat
    \<Rightarrow> int \<times> dbpf_keyval_db_entry option" where
  "dbpf_keyval_iterate_step_to_position L db h t pos =
     (case dbpf_keyval_iterate_get_first_entry L db h t of
        (ret, cur) \<Rightarrow> if ret \<noteq> 0 then (ret, cur) else step_loop L db h t pos cur)"

section \<open>The position cache\<close>

type_synonym pcache = "TROVE_handle \<times> nat \<Rightarrow> bytes option"

definition PINT_dbpf_keyval_pcache_lookup :: "pcache \<Rightarrow> TROVE_handle \<Rightarrow> nat \<Rightarrow> bytes option" where
  "PINT_dbpf_keyval_pcache_lookup pc h pos = pc (h, pos)"

definition PINT_dbpf_keyval_pcache_insert :: "(pcache \<Rightarrow> pcache) \<Rightarrow> pcache \<Rightarrow> TROVE_handle \<Rightarrow> nat \<Rightarrow> bytes \<Rightarrow> pcache" where
  "PINT_dbpf_keyval_pcache_insert evict pc h pos name = (evict (pc((h, pos) := None)))((h, pos) \<mapsto> name)"

text \<open>The key of a position is read into the buffer of the cache itself: when the entry has been removed, the buffer
  receives the key of the next entry, cut to the length of the old one.\<close>

definition dbpf_keyval_iterate_skip_to_position :: "'db db_lib \<Rightarrow> 'db \<Rightarrow> TROVE_handle \<Rightarrow> dbpf_key_type \<Rightarrow> nat \<Rightarrow> pcache
    \<Rightarrow> int \<times> dbpf_keyval_db_entry option \<times> pcache" where
  "dbpf_keyval_iterate_skip_to_position L db h t pos pc =
     (case PINT_dbpf_keyval_pcache_lookup pc h pos of
        None \<Rightarrow> (case dbpf_keyval_iterate_step_to_position L db h t (pos mod 2 ^ 32) of (ret, cur) \<Rightarrow> (ret, cur, pc))
      | Some name \<Rightarrow>
          (case dbpf_keyval_iterate_cursor_get L db None h t name DBPF_DB_CURSOR_SET of
             (ret, cur, _) \<Rightarrow>
               if ret = - TROVE_ENOENT then
                 (case dbpf_keyval_iterate_cursor_get L db cur h t name DBPF_DB_CURSOR_SET_RANGE of
                    (ret, cur, None) \<Rightarrow> (ret, cur, pc)
                  | (ret, cur, Some (name', v)) \<Rightarrow>
                      (DBPF_ITERATE_CURRENT_POSITION, cur, pc((h, pos) \<mapsto> take (length name) name' @ drop (length name') name)))
               else (ret, cur, pc)))"

section \<open>Iteration\<close>

text \<open>The callback \<open>PINT_dbpf_dspace_remove_keyval\<close> deletes the entry under the cursor; \<open>remove\<close> says whether it is given.\<close>

definition PINT_dbpf_dspace_remove_keyval :: "'db db_lib \<Rightarrow> 'db \<Rightarrow> bool \<Rightarrow> dbpf_keyval_db_entry option \<Rightarrow> 'db" where
  "PINT_dbpf_dspace_remove_keyval L db remove cur = (case cur of None \<Rightarrow> db | Some e \<Rightarrow> if remove then lib_del L db e else db)"

text \<open>The loop reads entries until \<open>count\<close> of them are there, or with \<open>get_key_count\<close> until there are no more; it may not end.
  Keys and values are cut to the sizes of their buffers.\<close>

partial_function (option) iterate_loop :: "'db db_lib \<Rightarrow> TROVE_handle \<Rightarrow> dbpf_key_type \<Rightarrow> nat \<Rightarrow> nat \<Rightarrow> bool \<Rightarrow> nat \<Rightarrow> bool \<Rightarrow> nat
    \<Rightarrow> 'db \<Rightarrow> dbpf_keyval_db_entry option \<Rightarrow> (int \<times> (bytes \<times> bytes) list \<times> 'db) option" where
  "iterate_loop L h t key_sz val_sz remove count get_key_count i db cur =
     (if i < count \<or> get_key_count then
        case dbpf_keyval_iterate_cursor_get L db cur h t [] DBPF_DB_CURSOR_NEXT of
          (ret, cur, None) \<Rightarrow> Some (ret, [], db)
        | (ret, cur, Some (name, v)) \<Rightarrow> do {
            (ret, es, db) \<leftarrow> iterate_loop L h t key_sz val_sz remove count get_key_count (i + 1)
              (PINT_dbpf_dspace_remove_keyval L db remove cur) cur;
            Some (ret, (take key_sz name, take val_sz v) # es, db) }
      else Some (0, [], db))"

definition TROVE_ITERATE_START :: nat where "TROVE_ITERATE_START = 2 ^ 31 - 2"
definition TROVE_ITERATE_END :: nat where "TROVE_ITERATE_END = 2 ^ 31 - 3"

text \<open>The buffers for the keys are copied into a structure with room for \<open>DBPF_MAX_KEY_LENGTH\<close> bytes. The list has an element
  for every entry that is counted.\<close>

definition PINT_dbpf_keyval_iterate :: "'db db_lib \<Rightarrow> 'db \<Rightarrow> TROVE_handle \<Rightarrow> dbpf_key_type \<Rightarrow> pcache \<Rightarrow> nat \<Rightarrow> nat \<Rightarrow> nat \<Rightarrow> nat \<Rightarrow> bool
    \<Rightarrow> (int \<times> (bytes \<times> bytes) list \<times> 'db \<times> pcache) option" where
  "PINT_dbpf_keyval_iterate L db h t pc key_sz val_sz count pos remove =
     (if \<not> key_sz \<le> DBPF_MAX_KEY_LENGTH then None
      else case (if pos = TROVE_ITERATE_START then
              (case dbpf_keyval_iterate_get_first_entry L db h t of
                 (ret, cur) \<Rightarrow> (if ret \<noteq> 0 then ret else DBPF_ITERATE_CURRENT_POSITION, cur, pc))
            else dbpf_keyval_iterate_skip_to_position L db h t pos pc) of
        (ret, cur, pc) \<Rightarrow>
          if ret \<noteq> 0 \<and> ret \<noteq> DBPF_ITERATE_CURRENT_POSITION then Some (ret, [], db, pc)
          else if ret = DBPF_ITERATE_CURRENT_POSITION then
            (case dbpf_keyval_iterate_cursor_get L db cur h t [] DBPF_DB_CURSOR_CURRENT of
               (ret, cur, None) \<Rightarrow> Some (ret, [], db, pc)
             | (ret, cur, Some (name, v)) \<Rightarrow> do {
                 (ret, es, db) \<leftarrow> iterate_loop L h t key_sz val_sz remove count (count = 0) 1
                   (PINT_dbpf_dspace_remove_keyval L db remove cur) cur;
                 Some (ret, (take key_sz name, take val_sz v) # es, db, pc) })
          else do {
            (ret, es, db) \<leftarrow> iterate_loop L h t key_sz val_sz remove count (count = 0) 0 db cur;
            Some (ret, es, db, pc) })"

fun decrement_loop :: "'db db_lib \<Rightarrow> 'db \<Rightarrow> TROVE_ds_flags \<Rightarrow> TROVE_handle \<Rightarrow> nat \<Rightarrow> (int \<times> 'db) option" where
  "decrement_loop L db flags h 0 = Some (0, db)"
| "decrement_loop L db flags h (Suc n) = do {
     (ret, db) \<leftarrow> dbpf_keyval_handle_info_ops L db flags h DBPF_KEYVAL_HANDLE_COUNT_DECREMENT;
     if ret < 0 then Some (ret, db) else decrement_loop L db flags h n }"

text \<open>The database, the cache and the number of the next session.\<close>

record 'db keyval_state =
  keyval_db :: 'db
  pos_cache :: pcache
  readdir_session :: nat

definition dbpf_keyval_iterate_op_svc :: "'db db_lib \<Rightarrow> (pcache \<Rightarrow> pcache) \<Rightarrow> 'db keyval_state \<Rightarrow> TROVE_ds_flags \<Rightarrow> TROVE_handle
    \<Rightarrow> nat \<Rightarrow> nat \<Rightarrow> nat \<Rightarrow> nat \<Rightarrow> (int \<times> nat \<times> (bytes \<times> bytes) list \<times> 'db keyval_state) option" where
  "dbpf_keyval_iterate_op_svc L evict st flags h key_sz val_sz count pos =
     (if \<not> count > 0 then None
      else if pos = TROVE_ITERATE_END then Some (1, pos, [], st)
      else do {
        let remove = has_flag flags TROVE_KEYVAL_ITERATE_REMOVE;
        (ret, es, db, pc) \<leftarrow> PINT_dbpf_keyval_iterate L (keyval_db st) h (key_type flags) (pos_cache st) key_sz val_sz count pos remove;
        let st = st\<lparr>keyval_db := db, pos_cache := pc\<rparr>;
        if ret = - TROVE_ENOENT then Some (1, TROVE_ITERATE_END, es, st)
        else if ret \<noteq> 0 then Some (ret, pos, es, st)
        else do {
          let st' = (if pos = TROVE_ITERATE_START then st\<lparr>readdir_session := (readdir_session st + 1) mod 2 ^ 16\<rparr> else st);
          let pos' = (if pos = TROVE_ITERATE_START then length es - 1 + readdir_session st * 2 ^ 32 else (pos + length es) mod 2 ^ 64);
          let pc' = (if es \<noteq> [] then PINT_dbpf_keyval_pcache_insert evict pc h pos' (fst (last es)) else pc);
          (ret, db) \<leftarrow> (if remove then decrement_loop L db flags h (length es) else Some (0, db));
          Some (if ret < 0 then ret else 1, pos', es, st'\<lparr>keyval_db := db, pos_cache := pc'\<rparr>) } })"

text \<open>The variant for keys alone has no sessions, and without room for keys it counts them.\<close>

definition dbpf_keyval_iterate_keys_op_svc :: "'db db_lib \<Rightarrow> (pcache \<Rightarrow> pcache) \<Rightarrow> 'db keyval_state \<Rightarrow> TROVE_ds_flags \<Rightarrow> TROVE_handle
    \<Rightarrow> nat \<Rightarrow> nat \<Rightarrow> nat \<Rightarrow> (int \<times> nat \<times> bytes list \<times> nat \<times> 'db keyval_state) option" where
  "dbpf_keyval_iterate_keys_op_svc L evict st flags h key_sz count pos =
     (if pos = TROVE_ITERATE_END then Some (1, pos, [], 0, st)
      else do {
        let remove = has_flag flags TROVE_KEYVAL_ITERATE_REMOVE;
        (ret, es, db, pc) \<leftarrow> PINT_dbpf_keyval_iterate L (keyval_db st) h (key_type flags) (pos_cache st)
          (if count \<noteq> 0 then key_sz else PVFS_NAME_MAX) 0 count pos remove;
        let st = st\<lparr>keyval_db := db, pos_cache := pc\<rparr>;
        let ks = (if count \<noteq> 0 then map fst es else []);
        if ret = - TROVE_ENOENT then Some (1, TROVE_ITERATE_END, ks, length es, st)
        else if ret \<noteq> 0 then Some (ret, pos, ks, length es, st)
        else do {
          let pos' = (if pos = TROVE_ITERATE_START then length es - 1 else (pos + length es) mod 2 ^ 64);
          let pc' = (if es \<noteq> [] \<and> count \<noteq> 0 then PINT_dbpf_keyval_pcache_insert evict pc h pos' (last ks) else pc);
          (ret, db) \<leftarrow> (if remove then decrement_loop L db flags h (length es) else Some (0, db));
          Some (if ret < 0 then ret else 1, pos', ks, length es, st\<lparr>keyval_db := db, pos_cache := pc'\<rparr>) } })"

section \<open>What a page holds\<close>

abbreviation of_handle :: "TROVE_handle \<Rightarrow> dbpf_key_type \<Rightarrow> dbpf_keyval_db_entry \<Rightarrow> bool" where
  "of_handle h t e \<equiv> handle e = h \<and> type e = t"

text \<open>The keys of a handle in the order of the database, and those behind a key.\<close>

definition keyvals :: "'db db_lib \<Rightarrow> 'db \<Rightarrow> TROVE_handle \<Rightarrow> dbpf_key_type \<Rightarrow> dbpf_keyval_db_entry list" where
  "keyvals L db h t = filter (of_handle h t) (lib_keys L db)"

definition behind :: "dbpf_keyval_db_entry \<Rightarrow> dbpf_keyval_db_entry list \<Rightarrow> dbpf_keyval_db_entry list" where
  "behind c = filter (\<lambda>e. c < e)"

definition val_of :: "'db db_lib \<Rightarrow> 'db \<Rightarrow> dbpf_keyval_db_entry \<Rightarrow> bytes" where
  "val_of L db e = (case lib_get L db e of None \<Rightarrow> [] | Some d \<Rightarrow> data_bytes d)"

lemma keys_sorted: "db_laws L \<Longrightarrow> sorted_wrt (<) (lib_keys L db)"
  using db_lawsD(3) [of L db] by (simp add: less_dbpf_keyval_db_entry_def [abs_def])

lemma keyvals_sorted: "db_laws L \<Longrightarrow> sorted_wrt (<) (keyvals L db h t)"
  unfolding keyvals_def by (rule sorted_wrt_filter) (rule keys_sorted)

lemma in_keyvals: "db_laws L \<Longrightarrow> e \<in> set (keyvals L db h t) \<longleftrightarrow> of_handle h t e \<and> lib_get L db e \<noteq> None"
  using db_lawsD(4) [of L e db] by (auto simp: keyvals_def)

text \<open>The keys of a handle and a type have no others between them.\<close>

lemma of_handle_convex:
  fixes x :: dbpf_keyval_db_entry
  assumes "of_handle h t a" "of_handle h t b" "a \<le> x" "x \<le> b"
  shows "of_handle h t x"
proof -
  have "handle a \<le> handle x \<and> handle x \<le> handle b"
    using assms(3,4) unfolding less_eq_dbpf_keyval_db_entry_def order_le_less keyval_compare_less keyval_compare_eq by auto
  then have h: "handle x = h" using assms(1,2) by auto
  have "type_code (type a) \<le> type_code (type x) \<and> type_code (type x) \<le> type_code (type b)"
    using assms h unfolding less_eq_dbpf_keyval_db_entry_def order_le_less keyval_compare_less keyval_compare_eq by auto
  then have "type_code (type x) = type_code t" using assms(1,2) by auto
  then show ?thesis using h type_char_eq [of "type x" t] by simp
qed

lemma find_of_handle:
  fixes c :: dbpf_keyval_db_entry
  assumes "sorted_wrt (<) K" "of_handle h t c" "\<And>x. Q x \<Longrightarrow> c \<le> x"
  shows "filter Q (filter (of_handle h t) K) = e # es \<Longrightarrow> find Q K = Some e"
    "filter Q (filter (of_handle h t) K) = [] \<Longrightarrow> find Q K = Some e' \<Longrightarrow> \<not> of_handle h t e'"
proof -
  show "filter Q (filter (of_handle h t) K) = e # es \<Longrightarrow> find Q K = Some e" using assms(1)
  proof (induction K)
    case (Cons x K)
    have "e \<in> set (filter Q (filter (of_handle h t) (x # K)))" unfolding Cons.prems(1) by simp
    then have e: "e \<in> set (x # K)" "of_handle h t e" unfolding set_filter by simp_all
    then have le: "x \<le> e" using Cons.prems(2) by auto
    show ?case
    proof (cases "Q x")
      case True
      then have "of_handle h t x" using of_handle_convex [OF assms(2) e(2) _ le] assms(3) by blast
      then show ?thesis using True Cons.prems(1) by simp
    next
      case False
      then have "filter Q (filter (of_handle h t) K) = e # es" using Cons.prems(1) by (auto split: if_splits)
      then show ?thesis using Cons.IH Cons.prems(2) False by simp
    qed
  qed simp
  show "filter Q (filter (of_handle h t) K) = [] \<Longrightarrow> find Q K = Some e' \<Longrightarrow> \<not> of_handle h t e'"
    by (auto simp: find_Some_iff filter_empty_conv)
qed

lemma behind_tl:
  fixes c :: dbpf_keyval_db_entry
  assumes "sorted_wrt (<) S" "behind c S = e # es"
  shows "behind e S = es" "c < e"
proof -
  have "e \<in> set (behind c S)" using assms(2) by simp
  then show c: "c < e" by (simp add: behind_def)
  have "sorted_wrt (<) (e # es)" using sorted_wrt_filter [OF assms(1), of "\<lambda>x. c < x"] assms(2) by (simp add: behind_def)
  then have "behind e (e # es) = es" by (simp add: behind_def)
  moreover have "behind e (behind c S) = behind e S" using c by (auto simp: behind_def intro!: filter_cong)
  ultimately show "behind e S = es" using assms(2) by simp
qed

lemma behind_nth:
  fixes S :: "dbpf_keyval_db_entry list"
  assumes "sorted_wrt (<) S" "p < length S"
  shows "behind (S ! p) S = drop (Suc p) S"
proof -
  have s: "S = take p S @ S ! p # drop (Suc p) S" by (rule id_take_nth_drop [OF assms(2)])
  then have "sorted_wrt (<) (take p S @ S ! p # drop (Suc p) S)" using assms(1) by simp
  then have "behind (S ! p) (take p S @ S ! p # drop (Suc p) S) = drop (Suc p) S"
    by (auto simp: behind_def sorted_wrt_append filter_empty_conv dest: less_asym)
  then show ?thesis using s by simp
qed

text \<open>The cursor moves through the keys of a handle.\<close>

lemma get_next:
  assumes "db_laws L" "of_handle h t c"
  shows "behind c (keyvals L db h t) = e # es \<Longrightarrow>
      dbpf_keyval_iterate_cursor_get L db (Some c) h t name DBPF_DB_CURSOR_NEXT = (0, Some e, Some (key e, val_of L db e))"
    "behind c (keyvals L db h t) = [] \<Longrightarrow>
      \<exists>cur. dbpf_keyval_iterate_cursor_get L db (Some c) h t name DBPF_DB_CURSOR_NEXT = (- TROVE_ENOENT, cur, None)"
proof -
  note f = find_of_handle [OF keys_sorted [OF assms(1), of db] assms(2), where Q = "\<lambda>e. c < e", OF less_imp_le, folded keyvals_def behind_def]
  show "behind c (keyvals L db h t) = e # es \<Longrightarrow>
      dbpf_keyval_iterate_cursor_get L db (Some c) h t name DBPF_DB_CURSOR_NEXT = (0, Some e, Some (key e, val_of L db e))"
  proof -
    assume a: "behind c (keyvals L db h t) = e # es"
    then have "e \<in> set (behind c (keyvals L db h t))" by simp
    then have "of_handle h t e" by (simp add: behind_def keyvals_def)
    then show ?thesis using f(1) [OF _ a] by (simp add: dbpf_keyval_iterate_cursor_get_def dbpf_db_cursor_get_def val_of_def)
  qed
  show "behind c (keyvals L db h t) = [] \<Longrightarrow>
      \<exists>cur. dbpf_keyval_iterate_cursor_get L db (Some c) h t name DBPF_DB_CURSOR_NEXT = (- TROVE_ENOENT, cur, None)"
    using f(2) by (cases "find (\<lambda>e. c < e) (lib_keys L db)") (auto simp: dbpf_keyval_iterate_cursor_get_def dbpf_db_cursor_get_def)
qed

lemma get_set_range:
  assumes "db_laws L"
  shows "filter (\<lambda>e. Db_entry h t name \<le> e) (keyvals L db h t) = e # es \<Longrightarrow>
      dbpf_keyval_iterate_cursor_get L db cur h t name DBPF_DB_CURSOR_SET_RANGE = (0, Some e, Some (key e, val_of L db e))"
    "filter (\<lambda>e. Db_entry h t name \<le> e) (keyvals L db h t) = [] \<Longrightarrow>
      \<exists>cur'. dbpf_keyval_iterate_cursor_get L db cur h t name DBPF_DB_CURSOR_SET_RANGE = (- TROVE_ENOENT, cur', None)"
proof -
  let ?Q = "\<lambda>e. Db_entry h t name \<le> e"
  have c: "of_handle h t (Db_entry h t name)" by simp
  note f = find_of_handle [OF keys_sorted [OF assms(1), of db] c, where Q = ?Q, folded keyvals_def]
  show "filter ?Q (keyvals L db h t) = e # es \<Longrightarrow>
      dbpf_keyval_iterate_cursor_get L db cur h t name DBPF_DB_CURSOR_SET_RANGE = (0, Some e, Some (key e, val_of L db e))"
  proof -
    assume a: "filter ?Q (keyvals L db h t) = e # es"
    then have "e \<in> set (filter ?Q (keyvals L db h t))" by simp
    then have "of_handle h t e" by (simp add: keyvals_def)
    then show ?thesis using f(1) [OF _ a] by (simp add: dbpf_keyval_iterate_cursor_get_def dbpf_db_cursor_get_def val_of_def)
  qed
  show "filter ?Q (keyvals L db h t) = [] \<Longrightarrow>
      \<exists>cur'. dbpf_keyval_iterate_cursor_get L db cur h t name DBPF_DB_CURSOR_SET_RANGE = (- TROVE_ENOENT, cur', None)"
    using f(2) by (cases "find ?Q (lib_keys L db)") (auto simp: dbpf_keyval_iterate_cursor_get_def dbpf_db_cursor_get_def)
qed

lemma get_current:
  "of_handle h t e \<Longrightarrow> lib_get L db e \<noteq> None \<Longrightarrow>
    dbpf_keyval_iterate_cursor_get L db (Some e) h t name DBPF_DB_CURSOR_CURRENT = (0, Some e, Some (key e, val_of L db e))"
  by (simp add: dbpf_keyval_iterate_cursor_get_def dbpf_db_cursor_get_def val_of_def)

lemma get_set:
  "dbpf_keyval_iterate_cursor_get L db cur h t name DBPF_DB_CURSOR_SET =
    (if lib_get L db (Db_entry h t name) = None then (- TROVE_ENOENT, cur, None)
     else (0, Some (Db_entry h t name), Some (name, val_of L db (Db_entry h t name))))"
  by (simp add: dbpf_keyval_iterate_cursor_get_def dbpf_db_cursor_get_def val_of_def)

text \<open>Entries that are deleted do not change those behind them.\<close>

lemma keyvals_del:
  assumes "db_laws L"
  shows "keyvals L (lib_del L db e) h t = filter (\<lambda>x. x \<noteq> e) (keyvals L db h t)"
proof -
  have "lib_keys L (lib_del L db e) = filter (\<lambda>x. x \<noteq> e) (lib_keys L db)"
  proof (rule strict_sorted_equal)
    show "sorted_wrt (<) (lib_keys L (lib_del L db e))" by (rule keys_sorted [OF assms])
    show "sorted_wrt (<) (filter (\<lambda>x. x \<noteq> e) (lib_keys L db))" by (rule sorted_wrt_filter) (rule keys_sorted [OF assms])
    show "set (lib_keys L (lib_del L db e)) = set (filter (\<lambda>x. x \<noteq> e) (lib_keys L db))"
      using db_lawsD(2,4) [OF assms] by (auto split: if_splits)
  qed
  then show ?thesis by (simp add: keyvals_def conj_commute)
qed

definition del_list :: "'db db_lib \<Rightarrow> bool \<Rightarrow> dbpf_keyval_db_entry list \<Rightarrow> 'db \<Rightarrow> 'db" where
  "del_list L remove es db = foldl (\<lambda>db e. if remove then lib_del L db e else db) db es"

lemma del_list_simps [simp]: "del_list L remove [] db = db" "del_list L False es db = db"
  "del_list L remove (e # es) db = del_list L remove es (PINT_dbpf_dspace_remove_keyval L db remove (Some e))"
proof -
  show "del_list L False es db = db" by (induction es) (simp_all add: del_list_def)
qed (simp_all add: del_list_def PINT_dbpf_dspace_remove_keyval_def)

abbreviation cut :: "'db db_lib \<Rightarrow> 'db \<Rightarrow> nat \<Rightarrow> nat \<Rightarrow> dbpf_keyval_db_entry \<Rightarrow> bytes \<times> bytes" where
  "cut L db key_sz val_sz e \<equiv> (take key_sz (key e), take val_sz (val_of L db e))"

lemma cut_del:
  assumes "db_laws L" "e \<notin> set es"
  shows "map (cut L (PINT_dbpf_dspace_remove_keyval L db remove (Some e)) key_sz val_sz) es = map (cut L db key_sz val_sz) es"
  using assms by (auto simp: PINT_dbpf_dspace_remove_keyval_def val_of_def db_lawsD(2))

lemma behind_del:
  assumes "db_laws L"
  shows "behind e (keyvals L (PINT_dbpf_dspace_remove_keyval L db remove (Some e)) h t) = behind e (keyvals L db h t)"
  using keyvals_del [OF assms, of db e h t] by (auto simp: behind_def PINT_dbpf_dspace_remove_keyval_def intro!: filter_cong)

text \<open>The number of entries a page asks for.\<close>

definition page_size :: "nat \<Rightarrow> bool \<Rightarrow> nat \<Rightarrow> 'a list \<Rightarrow> nat" where
  "page_size count get_key_count i A = (if get_key_count then length A + 1 else count - i)"

lemma loop_page:
  assumes "db_laws L" "of_handle h t c" "behind c (keyvals L db h t) = A"
  shows "iterate_loop L h t key_sz val_sz remove count gkc i db (Some c) =
    (let n = page_size count gkc i A in Some (if n \<le> length A then 0 else - TROVE_ENOENT, map (cut L db key_sz val_sz) (take n A), del_list L remove (take n A) db))"
  using assms(2,3)
proof (induction A arbitrary: c db i)
  case Nil
  obtain cur where "dbpf_keyval_iterate_cursor_get L db (Some c) h t [] DBPF_DB_CURSOR_NEXT = (- TROVE_ENOENT, cur, None)"
    using get_next(2) [OF assms(1) Nil] by blast
  then show ?case by (subst iterate_loop.simps) (auto simp: page_size_def)
next
  case (Cons e A)
  let ?db = "PINT_dbpf_dspace_remove_keyval L db remove (Some e)"
  have s: "sorted_wrt (<) (keyvals L db h t)" by (rule keyvals_sorted [OF assms(1)])
  have "e \<in> set (behind c (keyvals L db h t))" using Cons.prems(2) by simp
  then have e: "of_handle h t e" by (simp add: behind_def keyvals_def)
  have b: "behind e (keyvals L ?db h t) = A" using behind_tl(1) [OF s Cons.prems(2)] behind_del [OF assms(1)] by simp
  have nin: "e \<notin> set A" using behind_tl(1) [OF s Cons.prems(2)] by (auto simp: behind_def)
  note g = get_next(1) [OF assms(1) Cons.prems]
  show ?case
  proof (cases "i < count \<or> gkc")
    case True
    have n: "page_size count gkc i (e # A) = Suc (page_size count gkc (i + 1) A)" using True by (auto simp: page_size_def)
    have "map (cut L ?db key_sz val_sz) (take m A) = map (cut L db key_sz val_sz) (take m A)" for m
      by (rule cut_del [OF assms(1)]) (use nin in_set_takeD in fastforce)
    then show ?thesis using True g Cons.IH [OF e b, of "i + 1"] n by (subst iterate_loop.simps) (simp add: Let_def)
  next
    case False
    then show ?thesis by (subst iterate_loop.simps) (simp add: page_size_def)
  qed
qed


abbreviation page :: "'db db_lib \<Rightarrow> 'db \<Rightarrow> nat \<Rightarrow> nat \<Rightarrow> nat \<Rightarrow> bool \<Rightarrow> dbpf_keyval_db_entry list \<Rightarrow> pcache \<Rightarrow> int \<times> (bytes \<times> bytes) list \<times> 'db \<times> pcache" where
  "page L db key_sz val_sz count remove A pc \<equiv>
     (let n = page_size count (count = 0) 0 A in (if n \<le> length A then 0 else - TROVE_ENOENT, map (cut L db key_sz val_sz) (take n A), del_list L remove (take n A) db, pc))"

lemma current_page:
  assumes "db_laws L" "of_handle h t e" "lib_get L db e \<noteq> None" "A = e # behind e (keyvals L db h t)"
  shows "(case dbpf_keyval_iterate_cursor_get L db (Some e) h t [] DBPF_DB_CURSOR_CURRENT of
               (ret, cur, None) \<Rightarrow> Some (ret, [], db, pc)
             | (ret, cur, Some (name, v)) \<Rightarrow> do {
                 (ret, es, db) \<leftarrow> iterate_loop L h t key_sz val_sz remove count (count = 0) 1
                   (PINT_dbpf_dspace_remove_keyval L db remove cur) cur;
                 Some (ret, (take key_sz name, take val_sz v) # es, db, pc) }) = Some (page L db key_sz val_sz count remove A pc)"
proof -
  let ?db = "PINT_dbpf_dspace_remove_keyval L db remove (Some e)"
  let ?A = "behind e (keyvals L db h t)"
  have n: "page_size count (count = 0) 0 A = Suc (page_size count (count = 0) 1 ?A)" by (auto simp: page_size_def assms(4))
  have "e \<notin> set ?A" by (simp add: behind_def)
  then have "map (cut L ?db key_sz val_sz) (take m ?A) = map (cut L db key_sz val_sz) (take m ?A)" for m
    by (intro cut_del [OF assms(1)]) (use in_set_takeD in fastforce)
  then show ?thesis
    using get_current [OF assms(2,3), where name = "[]"] loop_page [OF assms(1,2) behind_del [OF assms(1)], of key_sz val_sz remove count "count = 0" 1 db remove] n
    by (simp add: Let_def assms(4))
qed

lemma first_entry:
  assumes "db_laws L" "\<forall>e \<in> set (keyvals L db h t). key e \<noteq> []"
  shows "keyvals L db h t = e # es \<Longrightarrow> dbpf_keyval_iterate_get_first_entry L db h t = (0, Some e)"
    "keyvals L db h t = [] \<Longrightarrow> \<exists>cur. dbpf_keyval_iterate_get_first_entry L db h t = (- TROVE_ENOENT, cur)"
proof -
  have "Db_entry h t [] \<le> e" if "of_handle h t e" for e
    using that unfolding less_eq_dbpf_keyval_db_entry_def by (cases e) (auto simp: keyval_compare_def)
  then have f: "filter (\<lambda>e. Db_entry h t [] \<le> e) (keyvals L db h t) = keyvals L db h t" by (auto simp: keyvals_def intro!: filter_cong)
  note r = get_set_range [OF assms(1), where db = db and h = h and t = t and name = "[]", unfolded f]
  show "keyvals L db h t = e # es \<Longrightarrow> dbpf_keyval_iterate_get_first_entry L db h t = (0, Some e)"
    using r(1) assms(2) by (simp add: dbpf_keyval_iterate_get_first_entry_def)
  show "keyvals L db h t = [] \<Longrightarrow> \<exists>cur. dbpf_keyval_iterate_get_first_entry L db h t = (- TROVE_ENOENT, cur)"
    using r(2) [of None] by (auto simp: dbpf_keyval_iterate_get_first_entry_def)
qed

lemma enoent_simps [simp]: "TROVE_ENOENT \<noteq> -1" "- TROVE_ENOENT \<noteq> DBPF_ITERATE_CURRENT_POSITION" "DBPF_ITERATE_CURRENT_POSITION \<noteq> 0"
  "TROVE_ENOENT > 0"
  by (simp_all add: keyval_code_defs DBPF_ITERATE_CURRENT_POSITION_def)

lemma page_empty [simp]: "page L db key_sz val_sz count remove [] pc = (- TROVE_ENOENT, [], db, pc)"
  by (simp add: page_size_def)

lemma start_page:
  assumes "db_laws L" "\<forall>e \<in> set (keyvals L db h t). key e \<noteq> []" "key_sz \<le> DBPF_MAX_KEY_LENGTH"
  shows "PINT_dbpf_keyval_iterate L db h t pc key_sz val_sz count TROVE_ITERATE_START remove =
    Some (page L db key_sz val_sz count remove (keyvals L db h t) pc)"
proof (cases "keyvals L db h t")
  case Nil
  then show ?thesis using first_entry(2) [OF assms(1,2) Nil] assms(3) unfolding Nil page_empty by (auto simp: PINT_dbpf_keyval_iterate_def)
next
  case (Cons e es)
  have "e \<in> set (keyvals L db h t)" by (simp add: Cons)
  then have e: "of_handle h t e" "lib_get L db e \<noteq> None" using in_keyvals [OF assms(1)] by blast+
  have "behind e (keyvals L db h t) = es" using behind_nth [OF keyvals_sorted [OF assms(1)], of 0 db h t] by (simp add: Cons)
  then have A: "keyvals L db h t = e # behind e (keyvals L db h t)" by (simp add: Cons)
  show ?thesis using first_entry(1) [OF assms(1,2) Cons] assms(3) current_page [OF assms(1) e A]
    by (simp add: PINT_dbpf_keyval_iterate_def del: One_nat_def)
qed

lemma cached_page:
  assumes "db_laws L" "key_sz \<le> DBPF_MAX_KEY_LENGTH" "pos \<noteq> TROVE_ITERATE_START" "pc (h, pos) = Some name"
  obtains pc' where "PINT_dbpf_keyval_iterate L db h t pc key_sz val_sz count pos remove =
    Some (page L db key_sz val_sz count remove (behind (Db_entry h t name) (keyvals L db h t)) pc')"
proof (cases "lib_get L db (Db_entry h t name) = None")
  case False
  have c: "of_handle h t (Db_entry h t name)" by simp
  obtain d where d: "lib_get L db (Db_entry h t name) = Some d" using False by blast
  show thesis
    using d assms(2-4) loop_page [OF assms(1) c refl, where db = db and key_sz = key_sz and val_sz = val_sz and remove = remove and count = count and gkc = "count = 0" and i = 0]
    by (intro that [of pc]) (simp add: PINT_dbpf_keyval_iterate_def dbpf_keyval_iterate_skip_to_position_def PINT_dbpf_keyval_pcache_lookup_def get_set Let_def)
next
  case True
  let ?c = "Db_entry h t name"
  have "?c \<notin> set (keyvals L db h t)" using True in_keyvals [OF assms(1)] by blast
  then have f: "filter (\<lambda>e. ?c \<le> e) (keyvals L db h t) = behind ?c (keyvals L db h t)" by (auto simp: behind_def order_le_less intro!: filter_cong)
  note r = get_set_range [OF assms(1), where db = db and h = h and t = t and name = name, unfolded f]
  show thesis
  proof (cases "behind ?c (keyvals L db h t)")
    case Nil
    then show thesis using r(2) [of None] that [of pc] True assms(2-4) unfolding Nil page_empty
      by (auto simp: PINT_dbpf_keyval_iterate_def dbpf_keyval_iterate_skip_to_position_def PINT_dbpf_keyval_pcache_lookup_def get_set)
  next
    case (Cons e es)
    have "e \<in> set (behind ?c (keyvals L db h t))" by (simp add: Cons)
    then have e: "of_handle h t e" "lib_get L db e \<noteq> None" using in_keyvals [OF assms(1)] by (auto simp: behind_def)
    have A: "behind ?c (keyvals L db h t) = e # behind e (keyvals L db h t)" using behind_tl(1) [OF keyvals_sorted [OF assms(1)] Cons] Cons by simp
    show thesis using r(1) [OF Cons, of None] True assms(2-4) current_page [OF assms(1) e A] that
      by (simp add: PINT_dbpf_keyval_iterate_def dbpf_keyval_iterate_skip_to_position_def PINT_dbpf_keyval_pcache_lookup_def get_set del: One_nat_def)
  qed
qed

lemma step_loop_nth:
  assumes "db_laws L" "i < length (keyvals L db h t)"
  shows "i + n < length (keyvals L db h t) \<Longrightarrow> step_loop L db h t n (Some (keyvals L db h t ! i)) = (0, Some (keyvals L db h t ! (i + n)))"
    "length (keyvals L db h t) \<le> i + n \<Longrightarrow> \<exists>cur. step_loop L db h t n (Some (keyvals L db h t ! i)) = (- TROVE_ENOENT, cur)"
proof -
  let ?S = "keyvals L db h t"
  have "(i + n < length ?S \<longrightarrow> step_loop L db h t n (Some (?S ! i)) = (0, Some (?S ! (i + n)))) \<and>
      (length ?S \<le> i + n \<longrightarrow> (\<exists>cur. step_loop L db h t n (Some (?S ! i)) = (- TROVE_ENOENT, cur)))" using assms(2)
  proof (induction n arbitrary: i)
    case (Suc n)
    have "?S ! i \<in> set ?S" using Suc.prems by simp
    then have c: "of_handle h t (?S ! i)" using in_keyvals [OF assms(1)] by blast
    have b: "behind (?S ! i) ?S = drop (Suc i) ?S" by (rule behind_nth [OF keyvals_sorted [OF assms(1)] Suc.prems])
    show ?case
    proof (cases "Suc i < length ?S")
      case True
      then have "behind (?S ! i) ?S = ?S ! Suc i # drop (Suc (Suc i)) ?S" using b Cons_nth_drop_Suc by metis
      then show ?thesis using get_next(1) [OF assms(1) c, where name = "[]"] Suc.IH [OF True] by simp
    next
      case False
      then have "behind (?S ! i) ?S = []" using b by simp
      then obtain cur where "dbpf_keyval_iterate_cursor_get L db (Some (?S ! i)) h t [] DBPF_DB_CURSOR_NEXT = (- TROVE_ENOENT, cur, None)"
        using get_next(2) [OF assms(1) c] by blast
      then show ?thesis using False by simp
    qed
  qed simp
  then show "i + n < length ?S \<Longrightarrow> step_loop L db h t n (Some (?S ! i)) = (0, Some (?S ! (i + n)))"
    "length ?S \<le> i + n \<Longrightarrow> \<exists>cur. step_loop L db h t n (Some (?S ! i)) = (- TROVE_ENOENT, cur)" by blast+
qed

lemma stepped_page:
  assumes "db_laws L" "\<forall>e \<in> set (keyvals L db h t). key e \<noteq> []" "key_sz \<le> DBPF_MAX_KEY_LENGTH" "pos \<noteq> TROVE_ITERATE_START" "pc (h, pos) = None"
  shows "PINT_dbpf_keyval_iterate L db h t pc key_sz val_sz count pos remove =
    Some (page L db key_sz val_sz count remove (drop (Suc (pos mod 2 ^ 32)) (keyvals L db h t)) pc)"
proof -
  let ?S = "keyvals L db h t" and ?p = "pos mod 2 ^ 32"
  note step = dbpf_keyval_iterate_step_to_position_def
  note defs = PINT_dbpf_keyval_iterate_def dbpf_keyval_iterate_skip_to_position_def PINT_dbpf_keyval_pcache_lookup_def
  show ?thesis
  proof (cases "?p < length ?S")
    case True
    then obtain e es where S: "?S = e # es" by (cases ?S) auto
    have "0 < length ?S" using True by auto
    then have "dbpf_keyval_iterate_step_to_position L db h t ?p = (0, Some (?S ! ?p))"
      using step_loop_nth(1) [OF assms(1), of 0 db h t ?p] True first_entry(1) [OF assms(1,2) S] by (simp add: step S)
    moreover have "of_handle h t (?S ! ?p)" using True nth_mem [OF True] in_keyvals [OF assms(1)] by blast
    ultimately show ?thesis
      using assms(3-5) loop_page [OF assms(1) _ behind_nth [OF keyvals_sorted [OF assms(1)] True], of key_sz val_sz remove count "count = 0" 0]
      by (simp add: defs Let_def del: drop_Suc_Cons)
  next
    case False
    have "\<exists>cur. dbpf_keyval_iterate_step_to_position L db h t ?p = (- TROVE_ENOENT, cur)"
    proof (cases ?S)
      case Nil
      then show ?thesis using first_entry(2) [OF assms(1,2) Nil] by (auto simp: step)
    next
      case (Cons e es)
      then have "0 < length ?S" by simp
      then show ?thesis using step_loop_nth(2) [OF assms(1), of 0 db h t ?p] False first_entry(1) [OF assms(1,2) Cons] by (auto simp: step Cons)
    qed
    moreover have "drop (Suc ?p) ?S = []" using False by simp
    ultimately show ?thesis using assms(3-5) by (auto simp: defs page_size_def Let_def)
  qed
qed

section \<open>Reading a directory\<close>

text \<open>Directory entries have names that are not empty and fit into the buffers of the readers.\<close>

definition names_ok :: "'db db_lib \<Rightarrow> 'db \<Rightarrow> TROVE_handle \<Rightarrow> bool" where
  "names_ok L db h \<longleftrightarrow> (\<forall>e \<in> set (keyvals L db h DBPF_DIRECTORY_ENTRY_TYPE). key e \<noteq> [] \<and> length (key e) \<le> PVFS_NAME_MAX)"

definition readdir_flags :: TROVE_ds_flags where
  "readdir_flags = [TROVE_KEYVAL_DIRECTORY_ENTRY]"

abbreviation dirents :: "'db db_lib \<Rightarrow> 'db \<Rightarrow> TROVE_handle \<Rightarrow> dbpf_keyval_db_entry list" where
  "dirents L db h \<equiv> keyvals L db h DBPF_DIRECTORY_ENTRY_TYPE"

abbreviation entry_of :: "'db db_lib \<Rightarrow> 'db \<Rightarrow> nat \<Rightarrow> dbpf_keyval_db_entry \<Rightarrow> bytes \<times> bytes" where
  "entry_of L db val_sz e \<equiv> (key e, take val_sz (val_of L db e))"

text \<open>A client reads page after page with the position it got with the last one. Before every page, other operations may have
  changed the database and the cache.\<close>

fun readdir_pages :: "'db db_lib \<Rightarrow> (pcache \<Rightarrow> pcache) \<Rightarrow> TROVE_handle \<Rightarrow> nat \<Rightarrow> nat \<Rightarrow> ('db \<times> (pcache \<Rightarrow> pcache)) list \<Rightarrow> nat \<Rightarrow> 'db keyval_state
    \<Rightarrow> ((bytes \<times> bytes) list \<times> nat \<times> 'db keyval_state) option" where
  "readdir_pages L evict h val_sz count [] pos st = Some ([], pos, st)"
| "readdir_pages L evict h val_sz count ((db, f) # envs) pos st = do {
     (ret, pos, es, st) \<leftarrow> dbpf_keyval_iterate_op_svc L evict (st\<lparr>keyval_db := db, pos_cache := f (pos_cache st)\<rparr>) readdir_flags h PVFS_NAME_MAX val_sz count pos;
     (es', pos, st) \<leftarrow> readdir_pages L evict h val_sz count envs pos st;
     Some (es @ es', pos, st) }"

text \<open>The same, with the pages one by one.\<close>

fun readdir_page_list :: "'db db_lib \<Rightarrow> (pcache \<Rightarrow> pcache) \<Rightarrow> TROVE_handle \<Rightarrow> nat \<Rightarrow> nat \<Rightarrow> ('db \<times> (pcache \<Rightarrow> pcache)) list \<Rightarrow> nat \<Rightarrow> 'db keyval_state
    \<Rightarrow> ((bytes \<times> bytes) list list \<times> nat \<times> 'db keyval_state) option" where
  "readdir_page_list L evict h val_sz count [] pos st = Some ([], pos, st)"
| "readdir_page_list L evict h val_sz count ((db, f) # envs) pos st = do {
     (ret, pos, es, st) \<leftarrow> dbpf_keyval_iterate_op_svc L evict (st\<lparr>keyval_db := db, pos_cache := f (pos_cache st)\<rparr>) readdir_flags h PVFS_NAME_MAX val_sz count pos;
     (ps, pos, st) \<leftarrow> readdir_page_list L evict h val_sz count envs pos st;
     Some (es # ps, pos, st) }"

lemma readdir_pages_concat:
  "readdir_pages L evict h val_sz count envs pos st =
    map_option (\<lambda>(ps, pos, st). (concat ps, pos, st)) (readdir_page_list L evict h val_sz count envs pos st)"
  by (induction L evict h val_sz count envs pos st rule: readdir_page_list.induct) (auto split: Option.bind_splits)

definition next_pos :: "'db keyval_state \<Rightarrow> nat \<Rightarrow> nat \<Rightarrow> nat" where
  "next_pos st count pos = (if pos = TROVE_ITERATE_START then count - 1 + readdir_session st * 2 ^ 32 else (pos + count) mod 2 ^ 64)"

lemma readdir_flag_simps [simp]: "\<not> has_flag readdir_flags TROVE_KEYVAL_ITERATE_REMOVE" "key_type readdir_flags = DBPF_DIRECTORY_ENTRY_TYPE"
  by (simp_all add: readdir_flags_def key_type_def)

lemma cut_names:
  assumes "names_ok L db h" "set A \<subseteq> set (dirents L db h)"
  shows "map (cut L db PVFS_NAME_MAX val_sz) A = map (entry_of L db val_sz) A"
  using assms by (auto simp: names_ok_def)

lemma svc_page:
  assumes db: "keyval_db st = db" and "names_ok L db h" "set A \<subseteq> set (dirents L db h)" "0 < count" "pos \<noteq> TROVE_ITERATE_END"
    "PINT_dbpf_keyval_iterate L db h DBPF_DIRECTORY_ENTRY_TYPE (pos_cache st) PVFS_NAME_MAX val_sz count pos False =
      Some (page L db PVFS_NAME_MAX val_sz count False A pc)"
  shows "count \<le> length A \<Longrightarrow> \<exists>st'. dbpf_keyval_iterate_op_svc L evict st readdir_flags h PVFS_NAME_MAX val_sz count pos =
      Some (1, next_pos st count pos, map (entry_of L db val_sz) (take count A), st') \<and>
      pos_cache st' (h, next_pos st count pos) = Some (key (A ! (count - 1))) \<and> keyval_db st' = db \<and>
      (readdir_session st < 2 ^ 16 \<longrightarrow> readdir_session st' < 2 ^ 16)"
    "length A < count \<Longrightarrow> \<exists>st'. dbpf_keyval_iterate_op_svc L evict st readdir_flags h PVFS_NAME_MAX val_sz count pos =
      Some (1, TROVE_ITERATE_END, map (entry_of L db val_sz) A, st')"
proof -
  let ?svc = "dbpf_keyval_iterate_op_svc L evict st readdir_flags h PVFS_NAME_MAX val_sz count pos"
  have n: "page_size count (count = 0) 0 A = count" using assms(4) by (simp add: page_size_def)
  have sub: "set (take n A) \<subseteq> set (dirents L db h)" for n using assms(3) set_take_subset [of n A] by blast
  note cut = cut_names [OF assms(2) sub, of val_sz]
  show "\<exists>st'. ?svc = Some (1, next_pos st count pos, map (entry_of L db val_sz) (take count A), st') \<and>
      pos_cache st' (h, next_pos st count pos) = Some (key (A ! (count - 1))) \<and> keyval_db st' = db \<and>
      (readdir_session st < 2 ^ 16 \<longrightarrow> readdir_session st' < 2 ^ 16)" if le: "count \<le> length A"
  proof -
    have ne: "take count A \<noteq> []" using assms(4) le by auto
    have l: "last (take count A) = A ! (count - 1)" using ne le assms(4) by (simp add: last_conv_nth min_def)
    have len: "length (take count A) = count" using le by simp
    have "PINT_dbpf_keyval_iterate L db h DBPF_DIRECTORY_ENTRY_TYPE (pos_cache st) PVFS_NAME_MAX val_sz count pos False =
      Some (0, map (entry_of L db val_sz) (take count A), db, pc)"
      using assms(6) le unfolding n cut by (simp add: Let_def)
    then show ?thesis
      using assms(4,5) db ne l len
      by (simp add: dbpf_keyval_iterate_op_svc_def next_pos_def PINT_dbpf_keyval_pcache_insert_def last_map Let_def)
  qed
  show "\<exists>st'. ?svc = Some (1, TROVE_ITERATE_END, map (entry_of L db val_sz) A, st')" if lt: "length A < count"
  proof -
    have t: "take count A = A" using lt by simp
    have "PINT_dbpf_keyval_iterate L db h DBPF_DIRECTORY_ENTRY_TYPE (pos_cache st) PVFS_NAME_MAX val_sz count pos False =
      Some (- TROVE_ENOENT, map (entry_of L db val_sz) A, db, pc)"
      using assms(6) lt cut [of count] unfolding n t by (simp add: Let_def)
    then show ?thesis using assms(4,5) db by (simp add: dbpf_keyval_iterate_op_svc_def Let_def)
  qed
qed

lemma pos_ok:
  assumes "i < TROVE_ITERATE_END" "s < 2 ^ 16"
  shows "i + s * 2 ^ 32 \<noteq> TROVE_ITERATE_START" "i + s * 2 ^ 32 \<noteq> TROVE_ITERATE_END" "(i + s * 2 ^ 32) mod 2 ^ 32 = i" "i + s * 2 ^ 32 < 2 ^ 64"
proof -
  show "(i + s * 2 ^ 32) mod 2 ^ 32 = i" using assms(1) by (simp add: TROVE_ITERATE_END_def)
  have "i + s * 2 ^ 32 = i \<or> 2 ^ 32 \<le> i + s * 2 ^ 32" by (cases s) auto
  then show "i + s * 2 ^ 32 \<noteq> TROVE_ITERATE_START" "i + s * 2 ^ 32 \<noteq> TROVE_ITERATE_END"
    using assms(1) by (auto simp: TROVE_ITERATE_START_def TROVE_ITERATE_END_def)
  show "i + s * 2 ^ 32 < 2 ^ 64" using assms by (simp add: TROVE_ITERATE_END_def)
qed

lemma start_not_end [simp]: "TROVE_ITERATE_START \<noteq> TROVE_ITERATE_END"
  by (simp add: TROVE_ITERATE_START_def TROVE_ITERATE_END_def)

lemma pages_end: "0 < count \<Longrightarrow> \<exists>st'. readdir_pages L evict h val_sz count envs TROVE_ITERATE_END st = Some ([], TROVE_ITERATE_END, st')"
  by (induction envs arbitrary: st) (auto simp: dbpf_keyval_iterate_op_svc_def)

lemma concat_Nils [simp]: "concat (map (\<lambda>_. []) xs) = []"
  by (induction xs) simp_all

lemma page_list_end:
  "0 < count \<Longrightarrow> \<exists>st'. readdir_page_list L evict h val_sz count envs TROVE_ITERATE_END st = Some (map (\<lambda>_. []) envs, TROVE_ITERATE_END, st')"
proof (induction envs arbitrary: st)
  case (Cons env envs)
  obtain db f where env: "env = (db, f)" by (cases env)
  let ?st = "st\<lparr>keyval_db := db, pos_cache := f (pos_cache st)\<rparr>"
  obtain st' where "readdir_page_list L evict h val_sz count envs TROVE_ITERATE_END ?st = Some (map (\<lambda>_. []) envs, TROVE_ITERATE_END, st')"
    using Cons by blast
  then show ?case using Cons.prems by (simp add: env dbpf_keyval_iterate_op_svc_def)
qed simp

lemma entry_key: "of_handle h t e \<Longrightarrow> Db_entry h t (key e) = e"
  by (cases e) simp

lemma dirents_ofD:
  assumes "db_laws L" "i < length (dirents L db h)"
  shows "of_handle h DBPF_DIRECTORY_ENTRY_TYPE (dirents L db h ! i)"
  using nth_mem [OF assms(2)] in_keyvals [OF assms(1)] by blast

lemma name_max [simp]: "PVFS_NAME_MAX \<le> DBPF_MAX_KEY_LENGTH"
  by (simp add: DBPF_MAX_KEY_LENGTH_def)

lemma page_at_index:
  assumes "db_laws L" "names_ok L db h" "i < length (dirents L db h)" "i < TROVE_ITERATE_END" "s < 2 ^ 16" "pos = i + s * 2 ^ 32"
    "pc (h, pos) = None \<or> pc (h, pos) = Some (key (dirents L db h ! i))"
  obtains pc' where "PINT_dbpf_keyval_iterate L db h DBPF_DIRECTORY_ENTRY_TYPE pc PVFS_NAME_MAX val_sz count pos False =
    Some (page L db PVFS_NAME_MAX val_sz count False (drop (Suc i) (dirents L db h)) pc')"
proof (cases "pc (h, pos)")
  case None
  have "\<forall>e \<in> set (dirents L db h). key e \<noteq> []" using assms(2) by (simp add: names_ok_def)
  then show thesis using that stepped_page [where pc = pc and h = h and pos = pos, OF assms(1) _ name_max _ None] pos_ok [OF assms(4,5)] assms(6) by simp
next
  case (Some name)
  then have name: "Db_entry h DBPF_DIRECTORY_ENTRY_TYPE name = dirents L db h ! i"
    using assms(7) entry_key [OF dirents_ofD [OF assms(1,3)]] by simp
  obtain pc' where "PINT_dbpf_keyval_iterate L db h DBPF_DIRECTORY_ENTRY_TYPE pc PVFS_NAME_MAX val_sz count pos False =
    Some (page L db PVFS_NAME_MAX val_sz count False (behind (Db_entry h DBPF_DIRECTORY_ENTRY_TYPE name) (dirents L db h)) pc')"
    by (rule cached_page [where pc = pc and h = h and pos = pos, OF assms(1) name_max _ Some, where db = db and t = DBPF_DIRECTORY_ENTRY_TYPE and val_sz = val_sz and count = count and remove = False])
      (use pos_ok [OF assms(4,5)] assms(6) in simp)
  then show thesis using that unfolding name behind_nth [OF keyvals_sorted [OF assms(1)] assms(3)] by blast
qed

text \<open>While the directory does not change, the pages are its parts, also when keys are dropped from the cache.\<close>

definition cache_drops :: "(pcache \<Rightarrow> pcache) \<Rightarrow> bool" where
  "cache_drops f \<longleftrightarrow> (\<forall>pc k. pc k \<noteq> None \<longrightarrow> f pc k = None \<or> f pc k = pc k)"

definition cache_keeps :: "(pcache \<Rightarrow> pcache) \<Rightarrow> bool" where
  "cache_keeps f \<longleftrightarrow> (\<forall>pc. pc \<subseteq>\<^sub>m f pc)"

lemma later_pages:
  assumes "db_laws L" "names_ok L db h" "length (dirents L db h) < TROVE_ITERATE_END" "0 < count" "s < 2 ^ 16"
    "\<forall>(db', f) \<in> set envs. db' = db \<and> cache_drops f" "i < length (dirents L db h)"
    "pos_cache st (h, i + s * 2 ^ 32) = Some (key (dirents L db h ! i))" "length (drop (Suc i) (dirents L db h)) < length envs * count"
  shows "\<exists>st'. readdir_pages L evict h val_sz count envs (i + s * 2 ^ 32) st = Some (map (entry_of L db val_sz) (drop (Suc i) (dirents L db h)), TROVE_ITERATE_END, st')"
  using assms(6-9)
proof (induction envs arbitrary: i st)
  case (Cons env envs)
  obtain f where env: "env = (db, f)" "cache_drops f" using Cons.prems(1) by (cases env) auto
  let ?S = "dirents L db h" and ?pos = "i + s * 2 ^ 32" and ?st = "st\<lparr>keyval_db := db, pos_cache := f (pos_cache st)\<rparr>"
  let ?A = "drop (Suc i) ?S"
  have i: "i < TROVE_ITERATE_END" using Cons.prems(2) assms(3) by simp
  note pos = pos_ok [OF i assms(5)]
  have "pos_cache ?st (h, ?pos) = None \<or> pos_cache ?st (h, ?pos) = Some (key (?S ! i))"
    using env(2) Cons.prems(3) by (simp add: cache_drops_def) metis
  then obtain pc where page: "PINT_dbpf_keyval_iterate L db h DBPF_DIRECTORY_ENTRY_TYPE (pos_cache ?st) PVFS_NAME_MAX val_sz count ?pos False =
      Some (page L db PVFS_NAME_MAX val_sz count False ?A pc)"
    by (rule page_at_index [OF assms(1,2) Cons.prems(2) i assms(5) refl, where val_sz = val_sz and count = count])
  have sub: "set ?A \<subseteq> set ?S" by (rule set_drop_subset)
  note svc = svc_page [where st = ?st and evict = evict, OF _ assms(2) sub assms(4) pos(2) page]
  show ?case
  proof (cases "count \<le> length ?A")
    case True
    let ?i = "i + count"
    obtain st' where st': "dbpf_keyval_iterate_op_svc L evict ?st readdir_flags h PVFS_NAME_MAX val_sz count ?pos =
        Some (1, next_pos ?st count ?pos, map (entry_of L db val_sz) (take count ?A), st')"
      "pos_cache st' (h, next_pos ?st count ?pos) = Some (key (?A ! (count - 1)))"
      using svc(1) [OF _ True] by auto
    have i': "?i < length ?S" "?i < TROVE_ITERATE_END" using True assms(3) Cons.prems(2) by auto
    have np: "next_pos ?st count ?pos = ?i + s * 2 ^ 32" using pos(1) pos_ok(4) [OF i'(2) assms(5)] by (simp add: next_pos_def algebra_simps)
    have nth: "?A ! (count - 1) = ?S ! ?i" using True assms(4) by simp
    have rest: "length (drop (Suc ?i) ?S) < length envs * count" using Cons.prems(4) True by simp
    obtain st'' where "readdir_pages L evict h val_sz count envs (?i + s * 2 ^ 32) st' = Some (map (entry_of L db val_sz) (drop (Suc ?i) ?S), TROVE_ITERATE_END, st'')"
      using Cons.IH [of ?i st', OF _ i'(1) st'(2) [unfolded np nth] rest] Cons.prems(1) by auto
    moreover have "map (entry_of L db val_sz) (take count ?A) @ map (entry_of L db val_sz) (drop (Suc ?i) ?S) = map (entry_of L db val_sz) ?A"
      unfolding map_append [symmetric] by (rule arg_cong [where f = "map _"]) (metis append_take_drop_id drop_drop add_Suc_right add.commute)
    ultimately show ?thesis using st'(1) [unfolded np] by (simp add: env)
  next
    case False
    then obtain st' where "dbpf_keyval_iterate_op_svc L evict ?st readdir_flags h PVFS_NAME_MAX val_sz count ?pos =
        Some (1, TROVE_ITERATE_END, map (entry_of L db val_sz) ?A, st')" using svc(2) by auto
    then show ?thesis using pages_end [OF assms(4), of L evict h val_sz envs st'] by (auto simp: env)
  qed
qed simp

lemma start_at:
  assumes "db_laws L" "names_ok L db h"
  shows "PINT_dbpf_keyval_iterate L db h DBPF_DIRECTORY_ENTRY_TYPE pc PVFS_NAME_MAX val_sz count TROVE_ITERATE_START False =
    Some (page L db PVFS_NAME_MAX val_sz count False (dirents L db h) pc)"
  using assms(2) by (intro start_page [OF assms(1) _ name_max]) (simp add: names_ok_def)

lemma all_pages:
  assumes "db_laws L" "names_ok L db h" "length (dirents L db h) < TROVE_ITERATE_END" "0 < count" "readdir_session st < 2 ^ 16"
    "\<forall>(db', f) \<in> set envs. db' = db \<and> cache_drops f" "length (dirents L db h) < length envs * count"
  shows "\<exists>st'. readdir_pages L evict h val_sz count envs TROVE_ITERATE_START st = Some (map (entry_of L db val_sz) (dirents L db h), TROVE_ITERATE_END, st')"
proof -
  let ?S = "dirents L db h" and ?s = "readdir_session st"
  obtain f es where envs: "envs = (db, f) # es" "\<forall>(db', f) \<in> set es. db' = db \<and> cache_drops f" using assms(6,7) by (cases envs) auto
  let ?st = "st\<lparr>keyval_db := db, pos_cache := f (pos_cache st)\<rparr>" and ?i = "count - 1"
  have sub: "set ?S \<subseteq> set ?S" by simp
  have np: "next_pos ?st count TROVE_ITERATE_START = ?i + ?s * 2 ^ 32" by (simp add: next_pos_def)
  note svc = svc_page [where st = ?st and evict = evict, OF _ assms(2) sub assms(4) start_not_end start_at [OF assms(1,2)], where val_sz = val_sz, unfolded np]
  show ?thesis
  proof (cases "count \<le> length ?S")
    case True
    obtain st' where st': "dbpf_keyval_iterate_op_svc L evict ?st readdir_flags h PVFS_NAME_MAX val_sz count TROVE_ITERATE_START =
        Some (1, ?i + ?s * 2 ^ 32, map (entry_of L db val_sz) (take count ?S), st')"
      "pos_cache st' (h, ?i + ?s * 2 ^ 32) = Some (key (?S ! ?i))"
      using svc(1) [OF _ True] by auto
    have i: "?i < length ?S" "Suc ?i = count" using True assms(4) by auto
    have "length (drop (Suc ?i) ?S) < length es * count" using assms(7) True i(2) by (simp add: envs(1))
    then obtain st'' where "readdir_pages L evict h val_sz count es (?i + ?s * 2 ^ 32) st' = Some (map (entry_of L db val_sz) (drop count ?S), TROVE_ITERATE_END, st'')"
      using later_pages [OF assms(1-5) envs(2) i(1) st'(2)] i(2) by auto
    moreover have "map (entry_of L db val_sz) (take count ?S) @ map (entry_of L db val_sz) (drop count ?S) = map (entry_of L db val_sz) ?S"
      unfolding map_append [symmetric] append_take_drop_id ..
    ultimately show ?thesis using st'(1) by (simp add: envs(1))
  next
    case False
    then obtain st' where "dbpf_keyval_iterate_op_svc L evict ?st readdir_flags h PVFS_NAME_MAX val_sz count TROVE_ITERATE_START =
        Some (1, TROVE_ITERATE_END, map (entry_of L db val_sz) ?S, st')" using svc(2) by auto
    then show ?thesis using pages_end [OF assms(4), of L evict h val_sz es st'] by (auto simp: envs(1))
  qed
qed

text \<open>The keys of a directory are its names, each once.\<close>

lemma distinct_dirents:
  assumes "db_laws L"
  shows "distinct (map key (dirents L db h))"
proof -
  have "distinct (dirents L db h)" using keyvals_sorted [OF assms] strict_sorted_iff by blast
  moreover have "inj_on key (set (dirents L db h))"
    using in_keyvals [OF assms] by (auto intro!: inj_onI) (metis dbpf_keyval_db_entry.expand)
  ultimately show ?thesis by (simp add: distinct_map)
qed

lemma in_dirents: "db_laws L \<Longrightarrow> e \<in> set (dirents L db h) \<longleftrightarrow> of_handle h DBPF_DIRECTORY_ENTRY_TYPE e \<and> ents L db h (key e) = Some (val_of L db e)"
  using in_keyvals [of L e db h DBPF_DIRECTORY_ENTRY_TYPE] by (cases e) (auto simp: ents_def val_of_def)

lemma names_dirents: "db_laws L \<Longrightarrow> key ` set (dirents L db h) = dom (ents L db h)"
proof -
  assume a: "db_laws L"
  have "n \<in> key ` set (dirents L db h)" if "n \<in> dom (ents L db h)" for n
  proof (rule image_eqI)
    show "n = key (Db_entry h DBPF_DIRECTORY_ENTRY_TYPE n)" by simp
    show "Db_entry h DBPF_DIRECTORY_ENTRY_TYPE n \<in> set (dirents L db h)" using that in_keyvals [OF a] by (auto simp: ents_def)
  qed
  then show ?thesis using in_dirents [OF a] by auto
qed

lemma length_dirents: "db_laws L \<Longrightarrow> length (dirents L db h) = card (dom (ents L db h))"
  using distinct_card [OF distinct_dirents] names_dirents by fastforce

lemma map_of_dirents:
  assumes "db_laws L"
  shows "map_of (map (entry_of L db val_sz) (dirents L db h)) = (\<lambda>n. map_option (take val_sz) (ents L db h n))"
proof
  fix n
  let ?es = "map (entry_of L db val_sz) (dirents L db h)"
  have d: "distinct (map fst ?es)" using distinct_dirents [OF assms] by (simp add: comp_def)
  show "map_of ?es n = map_option (take val_sz) (ents L db h n)"
  proof (cases "ents L db h n")
    case None
    then have "n \<notin> key ` set (dirents L db h)" using names_dirents [OF assms] by (simp add: domIff)
    then have "map_of ?es n = None" by (auto simp: map_of_eq_None_iff image_image)
    then show ?thesis using None by simp
  next
    case (Some v)
    then have "n \<in> key ` set (dirents L db h)" using names_dirents [OF assms] by blast
    then obtain e where e: "n = key e" "e \<in> set (dirents L db h)" by blast
    then have "entry_of L db val_sz e \<in> set ?es" by simp
    moreover have "val_of L db e = v" using in_dirents [OF assms] e Some by auto
    ultimately show ?thesis using map_of_is_SomeI [OF d] Some e(1) by simp
  qed
qed

text \<open>While the directory changes, the pages follow the order of the keys.\<close>

fun rest :: "dbpf_keyval_db_entry option \<Rightarrow> dbpf_keyval_db_entry list \<Rightarrow> dbpf_keyval_db_entry list" where
  "rest None S = S"
| "rest (Some c) S = behind c S"

abbreviation beyond :: "dbpf_keyval_db_entry option \<Rightarrow> dbpf_keyval_db_entry \<Rightarrow> bool" where
  "beyond c e \<equiv> (case c of None \<Rightarrow> True | Some c \<Rightarrow> c < e)"

text \<open>The position of a client that has read up to \<open>c\<close>, at most \<open>i + 1\<close> entries.\<close>

definition reader_at :: "TROVE_handle \<Rightarrow> 'db keyval_state \<Rightarrow> dbpf_keyval_db_entry option \<Rightarrow> nat \<Rightarrow> nat \<Rightarrow> bool" where
  "reader_at h st c i pos \<longleftrightarrow>
     (case c of
        None \<Rightarrow> pos = TROVE_ITERATE_START \<and> readdir_session st < 2 ^ 16
      | Some c \<Rightarrow> of_handle h DBPF_DIRECTORY_ENTRY_TYPE c \<and> pos_cache st (h, pos) = Some (key c) \<and>
          (\<exists>s < 2 ^ 16. \<exists>j \<le> i. pos = j + s * 2 ^ 32))"

lemma set_rest: "set (rest c S) = {e \<in> set S. beyond c e}"
  by (cases c) (auto simp: behind_def)

lemma reader_page:
  assumes "db_laws L" "names_ok L db h" "cache_keeps f" "reader_at h st c i pos" "i < TROVE_ITERATE_END"
  obtains pc where "PINT_dbpf_keyval_iterate L db h DBPF_DIRECTORY_ENTRY_TYPE (f (pos_cache st)) PVFS_NAME_MAX val_sz count pos False =
    Some (page L db PVFS_NAME_MAX val_sz count False (rest c (dirents L db h)) pc)"
proof (cases c)
  case None
  then show thesis using that start_at [OF assms(1,2)] assms(4) by (simp add: reader_at_def)
next
  case (Some e)
  then obtain s j where e: "of_handle h DBPF_DIRECTORY_ENTRY_TYPE e" "pos_cache st (h, pos) = Some (key e)" "s < 2 ^ 16" "j \<le> i" "pos = j + s * 2 ^ 32"
    using assms(4) unfolding reader_at_def by auto
  have hit: "f (pos_cache st) (h, pos) = Some (key e)" using assms(3) e(2) unfolding cache_keeps_def by (metis domI map_le_def)
  have pos: "pos \<noteq> TROVE_ITERATE_START" using pos_ok(1) [OF _ e(3), of j] e(4,5) assms(5) by simp
  show thesis
    by (rule cached_page [where pc = "f (pos_cache st)" and h = h and pos = pos, OF assms(1) name_max pos hit,
        where db = db and t = DBPF_DIRECTORY_ENTRY_TYPE and val_sz = val_sz and count = count and remove = False])
      (use that Some entry_key [OF e(1)] in simp)
qed

lemma reader_next:
  assumes "reader_at h st c i pos" "0 < count" "i + count < TROVE_ITERATE_END" "readdir_session st' = readdir_session st"
    "of_handle h DBPF_DIRECTORY_ENTRY_TYPE e" "pos_cache st'' (h, next_pos st' count pos) = Some (key e)"
  shows "reader_at h st'' (Some e) (i + count) (next_pos st' count pos)" "next_pos st' count pos \<noteq> TROVE_ITERATE_END"
proof -
  obtain s j where sj: "s < 2 ^ 16" "j \<le> i + count" "next_pos st' count pos = j + s * 2 ^ 32"
  proof (cases c)
    case None
    then show thesis using that [of "readdir_session st" "count - 1"] assms(1,4) by (simp add: reader_at_def next_pos_def)
  next
    case (Some e)
    then obtain s j where e: "s < 2 ^ 16" "j \<le> i" "pos = j + s * 2 ^ 32" using assms(1) unfolding reader_at_def by auto
    have j: "j + count < TROVE_ITERATE_END" "j < TROVE_ITERATE_END" using e(2) assms(3) by simp_all
    have lt: "(j + count) + s * 2 ^ 32 < 2 ^ 64" by (rule pos_ok(4) [OF j(1) e(1)])
    have "next_pos st' count pos = ((j + count) + s * 2 ^ 32) mod 2 ^ 64" using e(3) pos_ok(1) [OF j(2) e(1)] by (simp add: next_pos_def ac_simps)
    also have "\<dots> = (j + count) + s * 2 ^ 32" by (rule mod_less [OF lt])
    finally have "next_pos st' count pos = (j + count) + s * 2 ^ 32" .
    then show thesis using that [of s "j + count"] e(1,2) by simp
  qed
  then show "reader_at h st'' (Some e) (i + count) (next_pos st' count pos)" using assms(5,6) unfolding reader_at_def by auto
  show "next_pos st' count pos \<noteq> TROVE_ITERATE_END" using pos_ok(2) [OF _ sj(1), of j] sj(2,3) assms(3) by simp
qed

lemma reader_not_end: "reader_at h st c i pos \<Longrightarrow> i < TROVE_ITERATE_END \<Longrightarrow> pos \<noteq> TROVE_ITERATE_END"
  using pos_ok(2) by (auto simp: reader_at_def split: option.splits)

abbreviation dirent_key :: "TROVE_handle \<Rightarrow> bytes \<times> bytes \<Rightarrow> dbpf_keyval_db_entry" where
  "dirent_key h x \<equiv> Db_entry h DBPF_DIRECTORY_ENTRY_TYPE (fst x)"

lemma sorted_rest: "db_laws L \<Longrightarrow> sorted_wrt (<) (rest c (dirents L db h))"
  using keyvals_sorted [of L db h DBPF_DIRECTORY_ENTRY_TYPE] by (cases c) (auto simp: behind_def intro: sorted_wrt_filter)

lemma keys_of_page:
  assumes "db_laws L" "set A \<subseteq> set (dirents L db h)"
  shows "map (dirent_key h) (map (entry_of L db val_sz) A) = A"
  using assms(2) in_keyvals [OF assms(1)] by (induction A) (auto simp: entry_key)

lemma take_drop_sorted:
  fixes A :: "dbpf_keyval_db_entry list"
  assumes "sorted_wrt (<) A" "0 < count" "count \<le> length A"
  shows "A ! (count - 1) \<in> set (take count A)" "x \<in> set (take count A) \<Longrightarrow> x \<le> A ! (count - 1)" "x \<in> set (drop count A) \<Longrightarrow> A ! (count - 1) < x"
proof -
  show e: "A ! (count - 1) \<in> set (take count A)" using assms(2,3) by (auto simp: in_set_conv_nth intro!: exI [of _ "count - 1"])
  show "x \<le> A ! (count - 1)" if "x \<in> set (take count A)"
  proof -
    obtain k where k: "k < length (take count A)" "x = take count A ! k" using \<open>x \<in> set (take count A)\<close> unfolding in_set_conv_nth by blast
    then have "x = A ! k" "k \<le> count - 1" by auto
    then show ?thesis using sorted_nth_mono [OF strict_sorted_imp_sorted [OF assms(1)], of k "count - 1"] assms(2,3) by simp
  qed
  have "\<forall>x \<in> set (take count A). \<forall>y \<in> set (drop count A). x < y"
    using assms(1) sorted_wrt_append [of "(<)" "take count A" "drop count A"] unfolding append_take_drop_id by blast
  then show "x \<in> set (drop count A) \<Longrightarrow> A ! (count - 1) < x" using e by blast
qed

text \<open>What a sequence of pages gives to a client that has read up to \<open>c\<close>. The entries of a page are in the directory
  that the page was read from.\<close>

abbreviation page_of :: "'db db_lib \<Rightarrow> TROVE_handle \<Rightarrow> nat \<Rightarrow> 'db \<times> (pcache \<Rightarrow> pcache) \<Rightarrow> (bytes \<times> bytes) list \<Rightarrow> bool" where
  "page_of L h val_sz env es \<equiv> \<forall>x \<in> set es. \<exists>e \<in> set (dirents L (fst env) h). x = entry_of L (fst env) val_sz e"

definition follows :: "'db db_lib \<Rightarrow> TROVE_handle \<Rightarrow> ('db \<times> (pcache \<Rightarrow> pcache)) list \<Rightarrow> dbpf_keyval_db_entry option \<Rightarrow> nat \<Rightarrow> (bytes \<times> bytes) list \<Rightarrow> bool" where
  "follows L h envs c pos es \<longleftrightarrow>
     sorted_wrt (<) (map (dirent_key h) es) \<and> (\<forall>x \<in> set es. beyond c (dirent_key h x)) \<and>
     (pos = TROVE_ITERATE_END \<longrightarrow> (\<forall>e. beyond c e \<and> (\<forall>(db, f) \<in> set envs. e \<in> set (dirents L db h)) \<longrightarrow> e \<in> dirent_key h ` set es))"

lemma follows_page:
  assumes "db_laws L" "0 < count" "count \<le> length (rest c (dirents L db h))"
    "follows L h envs (Some (rest c (dirents L db h) ! (count - 1))) pos es"
  shows "follows L h ((db, f) # envs) c pos (map (entry_of L db val_sz) (take count (rest c (dirents L db h))) @ es)"
proof -
  let ?A = "rest c (dirents L db h)"
  let ?T = "take count ?A" and ?e = "?A ! (count - 1)"
  let ?es = "map (entry_of L db val_sz) ?T @ es"
  have sub: "set ?A \<subseteq> set (dirents L db h)" by (auto simp: set_rest)
  have sorted: "sorted_wrt (<) ?A" by (rule sorted_rest [OF assms(1)])
  note td = take_drop_sorted [OF sorted assms(2,3)]
  have T: "set ?T \<subseteq> set ?A" by (rule set_take_subset)
  have keys: "map (dirent_key h) (map (entry_of L db val_sz) ?T) = ?T" by (rule keys_of_page [OF assms(1)]) (use T sub in blast)
  have kT: "dirent_key h ` set (map (entry_of L db val_sz) ?T) = set ?T" using arg_cong [OF keys, of set] unfolding set_map .
  have keys': "dirent_key h ` set ?es = set ?T \<union> dirent_key h ` set es" unfolding set_append image_Un kT ..
  have gt: "?e < dirent_key h x" if "x \<in> set es" for x using assms(4) that by (simp add: follows_def)
  have "?e \<in> set ?A" using td(1) T by blast
  then have c_lt: "beyond c x" if "?e < x" for x using that by (auto simp: set_rest split: option.splits)
  have "sorted_wrt (<) ?T" by (rule sorted_wrt_take [OF sorted])
  then have "sorted_wrt (<) (map (dirent_key h) ?es)"
    unfolding map_append keys sorted_wrt_append using assms(4) td(2) gt by (fastforce simp: follows_def intro: order_le_less_trans)
  moreover have "beyond c (dirent_key h x)" if "x \<in> set ?es" for x
  proof -
    have "dirent_key h x \<in> set ?T \<or> x \<in> set es" using that unfolding set_append using kT by blast
    then show ?thesis
    proof
      assume "dirent_key h x \<in> set ?T"
      then show ?thesis using T unfolding set_rest by blast
    qed (rule c_lt [OF gt])
  qed
  moreover have "x \<in> dirent_key h ` set ?es"
    if "pos = TROVE_ITERATE_END" "beyond c x \<and> (\<forall>(db, f) \<in> set ((db, f) # envs). x \<in> set (dirents L db h))" for x
  proof -
    have "x \<in> set (?T @ drop count ?A)" using that by (simp add: set_rest)
    then have "x \<in> set ?T \<or> x \<in> set (drop count ?A)" unfolding set_append by blast
    then show ?thesis unfolding keys' using assms(4) that td(3) [of x] by (auto simp: follows_def)
  qed
  ultimately show ?thesis unfolding follows_def by blast
qed

lemma follows_last_page:
  assumes "db_laws L"
  shows "follows L h ((db, f) # envs) c pos (map (entry_of L db val_sz) (rest c (dirents L db h)))"
proof -
  let ?A = "rest c (dirents L db h)"
  let ?es = "map (entry_of L db val_sz) ?A"
  have sub: "set ?A \<subseteq> set (dirents L db h)" by (auto simp: set_rest)
  have keys: "map (dirent_key h) ?es = ?A" by (rule keys_of_page [OF assms sub])
  have keys': "dirent_key h ` set ?es = set ?A" using arg_cong [OF keys, of set] unfolding set_map .
  have "beyond c (dirent_key h x)" if "x \<in> set ?es" for x
  proof -
    have "dirent_key h x \<in> set ?A" using keys' that by blast
    then show ?thesis by (simp add: set_rest)
  qed
  moreover have "\<forall>x. beyond c x \<and> (\<forall>(db, f) \<in> set ((db, f) # envs). x \<in> set (dirents L db h)) \<longrightarrow> x \<in> dirent_key h ` set ?es"
    unfolding keys' by (simp add: set_rest)
  ultimately show ?thesis unfolding follows_def keys using sorted_rest [OF assms] by blast
qed

lemma follow_pages:
  assumes "db_laws L" "0 < count" "\<forall>(db, f) \<in> set envs. names_ok L db h \<and> cache_keeps f" "reader_at h st c i pos" "i + length envs * count < TROVE_ITERATE_END"
  shows "\<exists>ps pos' st'. readdir_page_list L evict h val_sz count envs pos st = Some (ps, pos', st') \<and> follows L h envs c pos' (concat ps) \<and>
    list_all2 (page_of L h val_sz) envs ps"
  using assms(3-5)
proof (induction envs arbitrary: st c i pos)
  case Nil
  then show ?case using reader_not_end [of h st c i pos] by (simp add: follows_def)
next
  case (Cons env envs)
  obtain db f where env: "env = (db, f)" "names_ok L db h" "cache_keeps f" using Cons.prems(1) by (cases env) auto
  let ?A = "rest c (dirents L db h)" and ?st = "st\<lparr>keyval_db := db, pos_cache := f (pos_cache st)\<rparr>"
  have i: "i < TROVE_ITERATE_END" "i + count < TROVE_ITERATE_END" "i + count + length envs * count < TROVE_ITERATE_END" using Cons.prems(3) by auto
  obtain pc where "PINT_dbpf_keyval_iterate L db h DBPF_DIRECTORY_ENTRY_TYPE (f (pos_cache st)) PVFS_NAME_MAX val_sz count pos False =
      Some (page L db PVFS_NAME_MAX val_sz count False ?A pc)"
    by (rule reader_page [OF assms(1) env(2,3) Cons.prems(2) i(1)])
  then have page: "PINT_dbpf_keyval_iterate L db h DBPF_DIRECTORY_ENTRY_TYPE (pos_cache ?st) PVFS_NAME_MAX val_sz count pos False =
      Some (page L db PVFS_NAME_MAX val_sz count False ?A pc)" by simp
  have sub: "set ?A \<subseteq> set (dirents L db h)" by (auto simp: set_rest)
  note svc = svc_page [where st = ?st and evict = evict, OF _ env(2) sub assms(2) reader_not_end [OF Cons.prems(2) i(1)] page]
  show ?case
  proof (cases "count \<le> length ?A")
    case True
    let ?e = "?A ! (count - 1)"
    obtain st' where st': "dbpf_keyval_iterate_op_svc L evict ?st readdir_flags h PVFS_NAME_MAX val_sz count pos =
        Some (1, next_pos ?st count pos, map (entry_of L db val_sz) (take count ?A), st')"
      "pos_cache st' (h, next_pos ?st count pos) = Some (key ?e)"
      using svc(1) [OF _ True] by auto
    have "?e \<in> set ?A" using True assms(2) by simp
    then have "of_handle h DBPF_DIRECTORY_ENTRY_TYPE ?e" using sub in_keyvals [OF assms(1)] by blast
    note r = reader_next [OF Cons.prems(2) assms(2) i(2) _ this st'(2), simplified]
    obtain ps pos' st'' where IH: "readdir_page_list L evict h val_sz count envs (next_pos ?st count pos) st' = Some (ps, pos', st'')"
      "follows L h envs (Some ?e) pos' (concat ps)" "list_all2 (page_of L h val_sz) envs ps"
      using Cons.IH [OF _ r(1) i(3)] Cons.prems(1) by auto
    have "page_of L h val_sz env (map (entry_of L db val_sz) (take count ?A))" using sub set_take_subset [of count ?A] by (auto simp: env(1))
    then show ?thesis using st'(1) IH(1,3) follows_page [OF assms(1,2) True IH(2), of f val_sz] by (simp add: env(1))
  next
    case False
    then obtain st' where st': "dbpf_keyval_iterate_op_svc L evict ?st readdir_flags h PVFS_NAME_MAX val_sz count pos =
        Some (1, TROVE_ITERATE_END, map (entry_of L db val_sz) ?A, st')" using svc(2) by auto
    have "page_of L h val_sz env (map (entry_of L db val_sz) ?A)" using sub by (auto simp: env(1))
    moreover have "list_all2 (page_of L h val_sz) envs (map (\<lambda>_. []) envs)" by (simp add: list_all2_conv_all_nth)
    ultimately show ?thesis
      using st' page_list_end [OF assms(2), of L evict h val_sz envs st'] follows_last_page [OF assms(1), of h db f envs c TROVE_ITERATE_END val_sz]
      by (auto simp: env(1))
  qed
qed

section \<open>Properties\<close>

text \<open>
  C16. A directory that does not change is read completely: the pages hold every entry with its value exactly once, and after
  enough of them the position is \<open>TROVE_ITERATE_END\<close>. This also holds when keys are dropped from the position cache between the
  pages.
\<close>

theorem readdir_complete:
  assumes "db_laws L" "names_ok L db h" "card (dom (ents L db h)) < TROVE_ITERATE_END" "0 < count" "readdir_session st < 2 ^ 16"
    "\<forall>(db', f) \<in> set envs. db' = db \<and> cache_drops f" "card (dom (ents L db h)) < length envs * count"
  shows "\<exists>es st'. readdir_pages L evict h val_sz count envs TROVE_ITERATE_START st = Some (es, TROVE_ITERATE_END, st') \<and>
    distinct (map fst es) \<and> map_of es = (\<lambda>n. map_option (take val_sz) (ents L db h n))"
proof -
  let ?es = "map (entry_of L db val_sz) (dirents L db h)"
  note len = length_dirents [OF assms(1), of db h]
  have "\<exists>st'. readdir_pages L evict h val_sz count envs TROVE_ITERATE_START st = Some (?es, TROVE_ITERATE_END, st')"
    by (rule all_pages [OF assms(1,2) _ assms(4-6)]) (simp_all add: len assms)
  moreover have "distinct (map fst ?es)" using distinct_dirents [OF assms(1)] by (simp add: comp_def)
  ultimately show ?thesis using map_of_dirents [OF assms(1)] by blast
qed

definition ex_db :: "(dbpf_keyval_db_entry \<times> db_data) list" where
  "ex_db = [(Db_entry 7 DBPF_DIRECTORY_ENTRY_TYPE [97, 0], Keyval [1]), (Db_entry 7 DBPF_DIRECTORY_ENTRY_TYPE [98, 0], Keyval [2]),
     (Db_entry 7 DBPF_DIRECTORY_ENTRY_TYPE [99, 0], Keyval [3])]"

definition ex_state :: "(dbpf_keyval_db_entry \<times> db_data) list keyval_state" where
  "ex_state = \<lparr>keyval_db = ex_db, pos_cache = (\<lambda>_. None), readdir_session = 0\<rparr>"

lemma ex_db_facts: "ents list_lib ex_db 7 = [[97, 0] \<mapsto> [1], [98, 0] \<mapsto> [2], [99, 0] \<mapsto> [3]]" "names_ok list_lib ex_db 7"
    "names_ok list_lib (tl ex_db) 7" "card (dom (ents list_lib ex_db 7)) = 3" "readdir_session ex_state < 2 ^ 16"
proof -
  show e: "ents list_lib ex_db 7 = [[97, 0] \<mapsto> [1], [98, 0] \<mapsto> [2], [99, 0] \<mapsto> [3]]"
    by (simp add: fun_eq_iff ents_def list_lib_def ex_db_def data_bytes_def)
  show "card (dom (ents list_lib ex_db 7)) = 3" unfolding e by simp
  show "names_ok list_lib ex_db 7" "names_ok list_lib (tl ex_db) 7" unfolding names_ok_def in_keyvals [OF list_lib_laws]
    by (auto simp: list_lib_def ex_db_def PVFS_NAME_MAX_def Ball_def in_keyvals [OF list_lib_laws, unfolded list_lib_def, simplified] split: if_splits)
qed (simp add: ex_state_def)

theorem readdir_complete_witness:
  "\<exists>es st'. readdir_pages list_lib (\<lambda>pc. pc) 7 8 2 [(ex_db, \<lambda>_ _. None), (ex_db, \<lambda>_ _. None)] TROVE_ITERATE_START ex_state = Some (es, TROVE_ITERATE_END, st') \<and>
    distinct (map fst es) \<and> map_of es = [[97, 0] \<mapsto> [1], [98, 0] \<mapsto> [2], [99, 0] \<mapsto> [3]]"
proof -
  have s: "(\<lambda>n. map_option (take 8) (ents list_lib ex_db 7 n)) = [[97, 0] \<mapsto> [1], [98, 0] \<mapsto> [2], [99, 0] \<mapsto> [3]]"
    by (simp add: ex_db_facts fun_eq_iff)
  have "card (dom (ents list_lib ex_db 7)) < TROVE_ITERATE_END" "card (dom (ents list_lib ex_db 7)) < length [(ex_db, \<lambda>_ _. None), (ex_db, \<lambda>_ _. None)] * 2"
    unfolding ex_db_facts(4) by (simp_all add: TROVE_ITERATE_END_def)
  then show ?thesis
    using readdir_complete [OF list_lib_laws ex_db_facts(2), where envs = "[(ex_db, \<lambda>_ _. None), (ex_db, \<lambda>_ _. None)]" and count = 2 and st = ex_state
      and evict = "\<lambda>pc. pc" and val_sz = 8] ex_db_facts(5)
    unfolding s by (simp add: cache_drops_def)
qed

text \<open>
  C15. A directory that changes while it is read page by page, when no position is lost from the position cache between the
  pages: no name is returned twice, every entry of a page was in the directory, with that value, at the time when this page was
  read, and once the position is \<open>TROVE_ITERATE_END\<close>, every name that was there all the time has been returned.
\<close>

theorem readdir_concurrent:
  assumes "db_laws L" "0 < count" "readdir_session st < 2 ^ 16" "\<forall>(db, f) \<in> set envs. names_ok L db h \<and> cache_keeps f"
    "length envs * count < TROVE_ITERATE_END"
  shows "\<exists>ps pos st'. readdir_page_list L evict h val_sz count envs TROVE_ITERATE_START st = Some (ps, pos, st') \<and>
    readdir_pages L evict h val_sz count envs TROVE_ITERATE_START st = Some (concat ps, pos, st') \<and> distinct (map fst (concat ps)) \<and>
    list_all2 (\<lambda>(db, f) es. \<forall>(name, v) \<in> set es. map_option (take val_sz) (ents L db h name) = Some v) envs ps \<and>
    (pos = TROVE_ITERATE_END \<longrightarrow> (\<forall>name. (\<forall>(db, f) \<in> set envs. name \<in> dom (ents L db h)) \<longrightarrow> name \<in> fst ` set (concat ps)))"
proof -
  have r: "reader_at h st None 0 TROVE_ITERATE_START" "0 + length envs * count < TROVE_ITERATE_END" using assms(3,5) by (simp_all add: reader_at_def)
  obtain ps pos st' where run: "readdir_page_list L evict h val_sz count envs TROVE_ITERATE_START st = Some (ps, pos, st')"
    and f: "follows L h envs None pos (concat ps)" and pages: "list_all2 (page_of L h val_sz) envs ps"
    using follow_pages [OF assms(1,2,4) r] by blast
  let ?es = "concat ps"
  have "distinct (map (dirent_key h) ?es)" using f strict_sorted_iff unfolding follows_def by blast
  then have d: "distinct (map fst ?es)" by (simp add: distinct_map inj_on_def)
  have p: "list_all2 (\<lambda>(db, f) es. \<forall>(name, v) \<in> set es. map_option (take val_sz) (ents L db h name) = Some v) envs ps"
    using pages by (rule list_all2_mono) (use in_dirents [OF assms(1)] in fastforce)
  have "name \<in> fst ` set ?es" if "pos = TROVE_ITERATE_END" "\<forall>(db, f) \<in> set envs. name \<in> dom (ents L db h)" for name
  proof -
    let ?e = "Db_entry h DBPF_DIRECTORY_ENTRY_TYPE name"
    have "\<forall>(db, f) \<in> set envs. ?e \<in> set (dirents L db h)" using that(2) in_keyvals [OF assms(1)] in_ents by fastforce
    then have "?e \<in> dirent_key h ` set ?es" using f that(1) unfolding follows_def by simp
    then show ?thesis by force
  qed
  then show ?thesis using run d p by (intro exI [of _ ps] exI [of _ pos] exI [of _ st']) (simp add: readdir_pages_concat)
qed

theorem readdir_concurrent_witness:
  "\<exists>p1 p2 pos st'. readdir_page_list list_lib (\<lambda>pc. pc) 7 8 2 [(ex_db, \<lambda>pc. pc), (tl ex_db, \<lambda>pc. pc)] TROVE_ITERATE_START ex_state = Some ([p1, p2], pos, st') \<and>
    distinct (map fst (p1 @ p2)) \<and> (\<forall>(name, v) \<in> set p2. map_option (take 8) (ents list_lib (tl ex_db) 7 name) = Some v) \<and>
    (pos = TROVE_ITERATE_END \<longrightarrow> [98, 0] \<in> fst ` set (p1 @ p2) \<and> [99, 0] \<in> fst ` set (p1 @ p2))"
proof -
  let ?envs = "[(ex_db, \<lambda>pc :: pcache. pc), (tl ex_db, \<lambda>pc. pc)]"
  have envs: "\<forall>(db, f) \<in> set ?envs. names_ok list_lib db 7 \<and> cache_keeps f" using ex_db_facts(2,3) by (simp add: cache_keeps_def)
  have len: "length ?envs * 2 < TROVE_ITERATE_END" "(0 :: nat) < 2" by (simp_all add: TROVE_ITERATE_END_def)
  have stay: "\<forall>(db, f) \<in> set ?envs. [98, 0] \<in> dom (ents list_lib db 7)" "\<forall>(db, f) \<in> set ?envs. [99, 0] \<in> dom (ents list_lib db 7)"
    by (auto simp: ents_def list_lib_def ex_db_def)
  obtain ps pos st' where r: "readdir_page_list list_lib (\<lambda>pc. pc) 7 8 2 ?envs TROVE_ITERATE_START ex_state = Some (ps, pos, st')" "distinct (map fst (concat ps))"
    "list_all2 (\<lambda>(db, f) es. \<forall>(name, v) \<in> set es. map_option (take 8) (ents list_lib db 7 name) = Some v) ?envs ps"
    "pos = TROVE_ITERATE_END \<longrightarrow> (\<forall>name. (\<forall>(db, f) \<in> set ?envs. name \<in> dom (ents list_lib db 7)) \<longrightarrow> name \<in> fst ` set (concat ps))"
    using readdir_concurrent [OF list_lib_laws len(2) ex_db_facts(5) envs len(1), of "\<lambda>pc. pc" 8] by (elim exE conjE)
  obtain p1 p2 where ps: "ps = [p1, p2]" using r(3) by (auto simp: list_all2_Cons1)
  have "pos = TROVE_ITERATE_END \<longrightarrow> [98, 0] \<in> fst ` set (concat ps) \<and> [99, 0] \<in> fst ` set (concat ps)" using r(4) stay by (intro impI conjI) blast+
  moreover have "\<forall>(name, v) \<in> set p2. map_option (take 8) (ents list_lib (tl ex_db) 7 name) = Some v" using r(3) unfolding ps by simp
  ultimately show ?thesis using r(1,2) unfolding ps by (intro exI conjI) simp_all
qed

text \<open>The keys of a handle that are taken out while they are read.\<close>

definition pool_flags :: TROVE_ds_flags where
  "pool_flags = [TROVE_BINARY_KEY, TROVE_KEYVAL_HANDLE_COUNT, TROVE_KEYVAL_ITERATE_REMOVE]"

lemma pool_flag_simps [simp]: "has_flag pool_flags TROVE_KEYVAL_ITERATE_REMOVE" "has_flag pool_flags TROVE_KEYVAL_HANDLE_COUNT"
  "key_type pool_flags = DBPF_ATTRIBUTE_TYPE"
  by (simp_all add: pool_flags_def key_type_def)

lemma get_del_list: "db_laws L \<Longrightarrow> lib_get L (del_list L True es db) k = (if k \<in> set es then None else lib_get L db k)"
  by (induction es arbitrary: db) (simp_all add: PINT_dbpf_dspace_remove_keyval_def db_lawsD(2))

lemma keyvals_eqI:
  assumes "db_laws L" "sorted_wrt (<) S" "\<And>e. e \<in> set S \<longleftrightarrow> of_handle h t e \<and> lib_get L db e \<noteq> None"
  shows "keyvals L db h t = S"
  by (rule strict_sorted_equal) (use assms in_keyvals [OF assms(1)] keyvals_sorted [OF assms(1)] in auto)

lemma decrement_entries:
  assumes "db_laws L" "has_flag flags TROVE_KEYVAL_HANDLE_COUNT" "int n \<le> ent_count L db h"
  obtains db' where "decrement_loop L db flags h n = Some (0, db')" "ent_count L db' h = ent_count L db h - int n" "same_outside L h db db'"
  using assms(3)
proof (induction n arbitrary: db thesis)
  case 0
  show ?case by (rule 0(1) [of db]) (simp_all add: same_outside_def)
next
  case (Suc n)
  have "0 < ent_count L db h" using Suc.prems(2) by simp
  then obtain db1 where db1: "dbpf_keyval_handle_info_ops L db flags h DBPF_KEYVAL_HANDLE_COUNT_DECREMENT = Some (0, db1)"
    "ent_count L db1 h = ent_count L db h - 1" "same_outside L h db db1"
    by (rule info_decrement [OF assms(1,2)])
  obtain db' where db': "decrement_loop L db1 flags h n = Some (0, db')" "ent_count L db' h = ent_count L db1 h - int n" "same_outside L h db1 db'"
    by (rule Suc.IH [of db1]) (use Suc.prems(2) db1(2) in simp_all)
  show ?case by (rule Suc.prems(1) [of db']) (use db1 db' same_outside_trans [OF db1(3) db'(3)] in simp_all)
qed

abbreviation attrs :: "'db db_lib \<Rightarrow> 'db \<Rightarrow> TROVE_handle \<Rightarrow> dbpf_keyval_db_entry list" where
  "attrs L db h \<equiv> keyvals L db h DBPF_ATTRIBUTE_TYPE"

lemma attrs_same:
  assumes "db_laws L" "same_outside L h db db'"
  shows "attrs L db' h = attrs L db h"
  by (rule keyvals_eqI [OF assms(1) keyvals_sorted [OF assms(1)]])
    (use assms(2) in_keyvals [OF assms(1), of _ db h DBPF_ATTRIBUTE_TYPE] in \<open>auto simp: same_outside_def\<close>)

text \<open>
  C32. Taking keys out of a handle, as the pools of precreated handles do: when there are enough, the first \<open>count\<close> keys are
  returned and deleted, and the number kept with the handle is lowered by \<open>count\<close>. When there are fewer, all of them are returned
  and deleted, but the number stays as it was.
\<close>

theorem iterate_keys_remove:
  assumes "db_laws L" "0 < count" "key_sz \<le> DBPF_MAX_KEY_LENGTH" "\<forall>e \<in> set (attrs L (keyval_db st) h). key e \<noteq> []"
    "ent_count L (keyval_db st) h = int (length (attrs L (keyval_db st) h))"
  shows "\<exists>st' pos. dbpf_keyval_iterate_keys_op_svc L evict st pool_flags h key_sz count TROVE_ITERATE_START =
      Some (1, pos, map (\<lambda>e. take key_sz (key e)) (take count (attrs L (keyval_db st) h)), min count (length (attrs L (keyval_db st) h)), st') \<and>
    attrs L (keyval_db st') h = drop count (attrs L (keyval_db st) h) \<and>
    ent_count L (keyval_db st') h = (if count \<le> length (attrs L (keyval_db st) h) then int (length (attrs L (keyval_db st') h)) else ent_count L (keyval_db st) h)"
proof -
  let ?db = "keyval_db st"
  let ?S = "attrs L ?db h"
  let ?T = "take count ?S"
  let ?es = "map (cut L ?db key_sz 0) ?T" and ?db1 = "del_list L True ?T ?db"
  have run: "PINT_dbpf_keyval_iterate L ?db h DBPF_ATTRIBUTE_TYPE (pos_cache st) key_sz 0 count TROVE_ITERATE_START True =
    Some (if count \<le> length ?S then 0 else - TROVE_ENOENT, ?es, ?db1, pos_cache st)"
    using start_page [OF assms(1,4,3), of "pos_cache st" 0 count True] assms(2) by (simp add: page_size_def)
  have "type e = DBPF_ATTRIBUTE_TYPE" if "e \<in> set ?T" for e using that in_set_takeD in_keyvals [OF assms(1)] by fast
  then have c1: "ent_count L ?db1 h = ent_count L ?db h" using get_del_list [OF assms(1)] by (fastforce simp: ent_count_def)
  have S1: "attrs L ?db1 h = drop count ?S"
  proof (rule keyvals_eqI [OF assms(1)])
    show "sorted_wrt (<) (drop count ?S)" by (rule sorted_wrt_drop [OF keyvals_sorted [OF assms(1)]])
    have "set ?S = set ?T \<union> set (drop count ?S)" by (metis append_take_drop_id set_append)
    moreover have "set ?T \<inter> set (drop count ?S) = {}" using distinct_append [of ?T "drop count ?S"] strict_sorted_iff keyvals_sorted [OF assms(1), of ?db h DBPF_ATTRIBUTE_TYPE]
      unfolding append_take_drop_id by blast
    ultimately show "e \<in> set (drop count ?S) \<longleftrightarrow> of_handle h DBPF_ATTRIBUTE_TYPE e \<and> lib_get L ?db1 e \<noteq> None" for e
      unfolding get_del_list [OF assms(1)] using in_keyvals [OF assms(1), of e ?db h DBPF_ATTRIBUTE_TYPE] by auto
  qed
  have ks: "map fst ?es = map (\<lambda>e. take key_sz (key e)) ?T" by simp
  show ?thesis
  proof (cases "count \<le> length ?S")
    case True
    have len: "length ?es = count" using True by simp
    have "int count \<le> ent_count L ?db1 h" using c1 assms(5) True by simp
    then obtain db2 where db2: "decrement_loop L ?db1 pool_flags h count = Some (0, db2)" "ent_count L db2 h = ent_count L ?db1 h - int count"
      "same_outside L h ?db1 db2" by (rule decrement_entries [OF assms(1) pool_flag_simps(2)])
    have "attrs L db2 h = drop count ?S" using attrs_same [OF assms(1) db2(3)] S1 by simp
    then show ?thesis using run db2(1,2) c1 assms(2,5) True len
      by (simp add: dbpf_keyval_iterate_keys_op_svc_def Let_def comp_def)
  next
    case False
    then show ?thesis using run S1 c1 assms(2) by (simp add: dbpf_keyval_iterate_keys_op_svc_def Let_def comp_def)
  qed
qed

definition ex_pool :: "(dbpf_keyval_db_entry \<times> db_data) list keyval_state" where
  "ex_pool = \<lparr>keyval_db = [(Db_entry 9 DBPF_ATTRIBUTE_TYPE [5, 0, 0, 0, 0, 0, 0, 0], Keyval []), (Db_entry 9 DBPF_COUNT_TYPE [], Handle_info 1)],
     pos_cache = (\<lambda>_. None), readdir_session = 0\<rparr>"

theorem iterate_keys_remove_witness:
  "\<exists>st' pos. dbpf_keyval_iterate_keys_op_svc list_lib (\<lambda>pc. pc) ex_pool pool_flags 9 8 2 TROVE_ITERATE_START = Some (1, pos, [[5, 0, 0, 0, 0, 0, 0, 0]], 1, st') \<and>
    attrs list_lib (keyval_db st') 9 = [] \<and> ent_count list_lib (keyval_db st') 9 = 1"
proof -
  have a: "attrs list_lib (keyval_db ex_pool) 9 = [Db_entry 9 DBPF_ATTRIBUTE_TYPE [5, 0, 0, 0, 0, 0, 0, 0]]"
    by (rule keyvals_eqI [OF list_lib_laws]) (auto simp: list_lib_def ex_pool_def split: if_splits)
  have c: "ent_count list_lib (keyval_db ex_pool) 9 = 1" by (simp add: ent_count_def list_lib_def ex_pool_def info_count_def)
  show ?thesis using iterate_keys_remove [OF list_lib_laws, where st = ex_pool and h = 9 and count = 2 and key_sz = 8 and evict = "\<lambda>pc. pc"]
    unfolding a c by (simp add: DBPF_MAX_KEY_LENGTH_def PVFS_NAME_MAX_def)
qed

end
