(* ===== verification/Crdirent.thy ===== *)
theory Crdirent
  imports Dist_Dir Md5 Dbpf_Iterate
begin

text \<open>
  The creation of directory entries, \<open>src/server/crdirent.sm\<close>, and the split of a dirdata object that has grown too large. The
  server checks that the name belongs to its bucket, writes the entry, and when there are too many entries, moves
  those of one more hash bit to another server and tells all servers about the new bucket. The messages run
  \<open>src/server/mgmt-split-dirent.sm\<close> and \<open>src/server/set-attr.sm\<close> on the other servers.

  The state machine is a step function: a state runs its action, and the error code chooses the next state. The
  results of jobs and messages are inputs. A directory has one dirdata object on each of its servers; the state of such
  an object is its distribution attributes, its bitmap and the keyvals of its entries. Names are the bytes of
  C strings without the final zero; handles in entries are their eight bytes in memory. Time stamps, permissions,
  and disk errors are left out. \<open>None\<close> means that the code reads or writes outside of an array, reads
  uninitialized memory, or fails an assertion.
\<close>

section \<open>Names and hashes\<close>

definition c_str :: "bytes \<Rightarrow> bytes" where
  "c_str buffer = takeWhile (\<lambda>b. b \<noteq> 0) buffer"

definition le64 :: "bytes \<Rightarrow> 64 word" where
  "le64 bs = foldr (\<lambda>b w. push_bit 8 w OR ucast b) bs 0"

definition PINT_encrypt_dirdata :: "bytes \<Rightarrow> 64 word" where
  "PINT_encrypt_dirdata name = le64 (drop 8 (md5_finish (md5_append (md5_init md5_state0) name)))"

section \<open>Directories\<close>

record 'db dirdata =
  dd_handle :: TROVE_handle
  dd_attr :: PVFS_dist_dir_attr
  dd_bitmap :: PVFS_dist_dir_bitmap
  dd_state :: "'db keyval_state"

text \<open>The dirdata objects in the order of their servers, and the copy of the attributes in the metadata object.\<close>

record 'db directory =
  dirdata :: "'db dirdata list"
  meta_attr :: PVFS_dist_dir_attr
  meta_bitmap :: PVFS_dist_dir_bitmap

definition update_dirdata :: "nat \<Rightarrow> ('db dirdata \<Rightarrow> 'db dirdata) \<Rightarrow> 'db directory \<Rightarrow> 'db directory option" where
  "update_dirdata i f dir = do {
     d \<leftarrow> array_get (dirdata dir) (int i);
     Some (dir\<lparr>dirdata := (dirdata dir)[i := f d]\<rparr>) }"

definition PVFS_REQ_LIMIT_DIRENT_FILE_COUNT :: int where "PVFS_REQ_LIMIT_DIRENT_FILE_COUNT = 1024"
definition PVFS_EOVERFLOW :: int where "PVFS_EOVERFLOW = 40 + PVFS_ERROR_BIT"

text \<open>Setting the distribution attributes of a dirdata object: its attributes and bitmap are replaced by those of the request, and
  the result is merged with those of the request.\<close>

definition setattr_write_distr_dir_data :: "'db directory \<Rightarrow> PVFS_dist_dir_attr \<Rightarrow> PVFS_dist_dir_bitmap \<Rightarrow> 'db dirdata \<Rightarrow> (int \<times> 'db dirdata) option" where
  "setattr_write_distr_dir_data dir req_attr req_bitmap d =
     (if num_servers req_attr < 1 \<or> num_servers req_attr > PVFS_REQ_LIMIT_DIRENT_FILE_COUNT then Some (- PVFS_EOVERFLOW, d)
      else do {
        (ret, attr, bitmap) \<leftarrow> PINT_update_dist_dir_bitmap_from_bitmap req_attr req_bitmap req_bitmap;
        attr \<leftarrow> (case List.find (\<lambda>i. dd_handle (dirdata dir ! i) = dd_handle d) [0..<length (dirdata dir)] of
            None \<Rightarrow> Some attr
          | Some i \<Rightarrow> do { (ret, attr) \<leftarrow> PINT_dist_dir_set_serverno (int i) attr bitmap; Some attr });
        Some (0, d\<lparr>dd_attr := attr, dd_bitmap := bitmap\<rparr>) })"

fun tree_setattr :: "PVFS_dist_dir_attr \<Rightarrow> PVFS_dist_dir_bitmap \<Rightarrow> nat list \<Rightarrow> 'db directory \<Rightarrow> 'db directory option" where
  "tree_setattr req_attr req_bitmap [] dir = Some dir"
| "tree_setattr req_attr req_bitmap (i # is) dir = do {
     d \<leftarrow> array_get (dirdata dir) (int i);
     (ret, d') \<leftarrow> setattr_write_distr_dir_data dir req_attr req_bitmap d;
     tree_setattr req_attr req_bitmap is (dir\<lparr>dirdata := (dirdata dir)[i := d']\<rparr>) }"

text \<open>The entries of a split message are written by the target, or removed again when the message undoes a split.\<close>

definition mgmt_split_dirent_write_directory_entries :: "'db db_lib \<Rightarrow> bool \<Rightarrow> (bytes \<times> bytes) list \<Rightarrow> 'db dirdata \<Rightarrow> (int \<times> 'db dirdata) option" where
  "mgmt_split_dirent_write_directory_entries L undo es d =
     (if length es < 1 then Some (0, d)
      else do {
        let db = keyval_db (dd_state d);
        (ret, db) \<leftarrow> (if \<not> undo
           then dbpf_keyval_write_list_op_svc L db dirent_flags (dd_handle d) (map (\<lambda>(n, h). (n @ [0], h)) es)
           else map_option (\<lambda>(ret, _, db). (ret, db))
             (dbpf_keyval_remove_list_op_svc L db dirent_flags (dd_handle d) (map (\<lambda>(n, h). (n @ [0], Some 8)) es)));
        Some (if ret = DBPF_OP_COMPLETE then 0 else ret, d\<lparr>dd_state := (dd_state d)\<lparr>keyval_db := db\<rparr>\<rparr>) })"

section \<open>The state machine\<close>

datatype crdirent_state =
    Setup_op | Get_dist_dir_attr | Get_bitmap_and_dirdata_handles | Validate | Validation_object_type_failure
  | Validation_dirdata_mismatch | Write_directory_entry | Update_directory_attr | Update_metahandle_timestamp
  | Update_local_metahandle_timestamp | Update_metahandle_timestamp_xfer_msgpair | Get_dirent_count | Check_for_split
  | Retrieve_dir_entries | Find_split_entries | Split_xfer_msgpair | Activate_server_setup | Activate_server
  | Deactivate_server_setup | Deactivate_server | Update_dirdata_attrs | Update_metahandle_attrs
  | Update_metahandle_xfer_msgpair | Notify_dirdata_servers_setup | Notify_dirdata_servers_xfer | Backout_dirdata_attrs
  | Remove_local_copies | Split_cleanup_msgpairarray | Split_remove_entries | Split_remove_entries_xfer_msgpair
  | Remove_entries_cleanup | Return

definition INVALID_OBJECT :: int where "INVALID_OBJECT = 131"
definition INVALID_DIRDATA :: int where "INVALID_DIRDATA = 132"
definition SPLIT_REQUIRED :: int where "SPLIT_REQUIRED = 133"
definition SPLIT_FATAL_ERROR :: int where "SPLIT_FATAL_ERROR = 135"
definition NOTIFY_DIRDATA :: int where "NOTIFY_DIRDATA = 136"
definition REMOTE_METAHANDLE :: int where "REMOTE_METAHANDLE = 138"
definition REMOVE_ENTRIES_REQUIRED :: int where "REMOVE_ENTRIES_REQUIRED = 139"
definition PVFS_ENOTDIR :: int where "PVFS_ENOTDIR = 13 + PVFS_ERROR_BIT"

lemmas crdirent_code_defs = INVALID_OBJECT_def INVALID_DIRDATA_def SPLIT_REQUIRED_def SPLIT_FATAL_ERROR_def NOTIFY_DIRDATA_def
  REMOTE_METAHANDLE_def REMOVE_ENTRIES_REQUIRED_def

text \<open>The transitions of \<open>pvfs2_crdirent_work_sm\<close>.\<close>

fun next_state :: "crdirent_state \<Rightarrow> int \<Rightarrow> crdirent_state" where
  "next_state Setup_op e = Get_dist_dir_attr"
| "next_state Get_dist_dir_attr e = (if e = 0 then Get_bitmap_and_dirdata_handles else Return)"
| "next_state Get_bitmap_and_dirdata_handles e = (if e = 0 then Validate else Return)"
| "next_state Validate e =
     (if e = 0 then Write_directory_entry else if e = INVALID_OBJECT then Validation_object_type_failure
      else if e = INVALID_DIRDATA then Validation_dirdata_mismatch else Return)"
| "next_state Validation_object_type_failure e = Return"
| "next_state Validation_dirdata_mismatch e = Return"
| "next_state Write_directory_entry e = (if e = 0 then Update_directory_attr else Return)"
| "next_state Update_directory_attr e = (if e = 0 then Update_metahandle_timestamp else Return)"
| "next_state Update_metahandle_timestamp e =
     (if e = REMOTE_METAHANDLE then Update_metahandle_timestamp_xfer_msgpair
      else if e = 0 then Update_local_metahandle_timestamp else Return)"
| "next_state Update_local_metahandle_timestamp e = Get_dirent_count"
| "next_state Update_metahandle_timestamp_xfer_msgpair e = Get_dirent_count"
| "next_state Get_dirent_count e = (if e = 0 then Check_for_split else Return)"
| "next_state Check_for_split e = (if e = SPLIT_REQUIRED then Retrieve_dir_entries else Return)"
| "next_state Retrieve_dir_entries e = (if e = 0 then Find_split_entries else Return)"
| "next_state Find_split_entries e = (if e = SPLIT_REQUIRED then Split_xfer_msgpair else Return)"
| "next_state Split_xfer_msgpair e = (if e = 0 then Activate_server_setup else Split_cleanup_msgpairarray)"
| "next_state Activate_server_setup e = (if e = 0 then Activate_server else Split_remove_entries)"
| "next_state Activate_server e = (if e = 0 then Update_dirdata_attrs else Split_remove_entries)"
| "next_state Deactivate_server_setup e = (if e = 0 then Deactivate_server else Return)"
| "next_state Deactivate_server e = Split_remove_entries"
| "next_state Update_dirdata_attrs e = (if e = 0 then Update_metahandle_attrs else Deactivate_server_setup)"
| "next_state Update_metahandle_attrs e =
     (if e = REMOTE_METAHANDLE then Update_metahandle_xfer_msgpair
      else if e = 0 then Notify_dirdata_servers_setup else Backout_dirdata_attrs)"
| "next_state Update_metahandle_xfer_msgpair e = (if e = 0 then Notify_dirdata_servers_setup else Backout_dirdata_attrs)"
| "next_state Notify_dirdata_servers_setup e =
     (if e = NOTIFY_DIRDATA then Notify_dirdata_servers_xfer else if e = 0 then Remove_local_copies else Backout_dirdata_attrs)"
| "next_state Notify_dirdata_servers_xfer e = (if e = 0 then Remove_local_copies else Backout_dirdata_attrs)"
| "next_state Backout_dirdata_attrs e = Deactivate_server_setup"
| "next_state Remove_local_copies e = Return"
| "next_state Split_cleanup_msgpairarray e = (if e = 0 then Return else Split_remove_entries)"
| "next_state Split_remove_entries e = (if e = REMOVE_ENTRIES_REQUIRED then Split_remove_entries_xfer_msgpair else Return)"
| "next_state Split_remove_entries_xfer_msgpair e = Remove_entries_cleanup"
| "next_state Remove_entries_cleanup e = Return"
| "next_state Return e = Return"

text \<open>The operation with its request: the server, the name, the handle, and whether the new object and the directory are on other
  servers.\<close>

record crdirent_op =
  op_server :: nat
  op_name :: bytes
  op_new_handle :: bytes
  new_remote :: bool
  parent_remote :: bool
  op_state :: crdirent_state
  error_code :: int
  op_attr :: PVFS_dist_dir_attr
  op_bitmap :: PVFS_dist_dir_bitmap
  saved_attr :: PVFS_dist_dir_attr
  saved_bitmap :: PVFS_dist_dir_bitmap
  dirent_count :: int
  split_node :: int
  dir_entries :: "(bytes \<times> bytes) list"
  split_entries :: "(bytes \<times> bytes) list"
  num_msgs_required :: nat
  msg_boundaries :: "(nat \<times> nat) list"
  split_status :: "int option list"

text \<open>A message is answered with a status, and was executed if the status is 0; or it fails with an error of the transport, and then
  may have been executed or not.\<close>

datatype msg_result = Answered int | Failed int bool

fun executed :: "msg_result \<Rightarrow> bool" where
  "executed (Answered s) \<longleftrightarrow> s = 0"
| "executed (Failed e x) \<longleftrightarrow> x"

text \<open>The error code of a message without a completion function, and of one whose completion function returns 0.\<close>

fun msgpair_status :: "msg_result \<Rightarrow> int" where
  "msgpair_status (Answered s) = s"
| "msgpair_status (Failed e x) = e"

fun msgpair_comp_status :: "msg_result \<Rightarrow> int" where
  "msgpair_comp_status (Answered s) = 0"
| "msgpair_comp_status (Failed e x) = e"

fun first_error :: "int list \<Rightarrow> int" where
  "first_error [] = 0"
| "first_error (e # es) = (if e \<noteq> 0 then e else first_error es)"

record step_input =
  job_error :: int
  replies :: "nat \<Rightarrow> msg_result"

section \<open>Actions\<close>

definition crdirent_get_dist_dir_attr :: "crdirent_op \<Rightarrow> 'db directory \<Rightarrow> (crdirent_op \<times> 'db directory) option" where
  "crdirent_get_dist_dir_attr op dir = do {
     d \<leftarrow> array_get (dirdata dir) (int (op_server op));
     Some (op\<lparr>op_attr := dd_attr d, error_code := 0\<rparr>, dir) }"

definition crdirent_get_bitmap_and_dirdata_handles :: "crdirent_op \<Rightarrow> 'db directory \<Rightarrow> (crdirent_op \<times> 'db directory) option" where
  "crdirent_get_bitmap_and_dirdata_handles op dir =
     (if \<not> (num_servers (op_attr op) > 0 \<and> bitmap_size (op_attr op) > 0) then None
      else do {
        d \<leftarrow> array_get (dirdata dir) (int (op_server op));
        Some (op\<lparr>op_bitmap := dd_bitmap d, error_code := 0\<rparr>, dir) })"

definition crdirent_validate :: "crdirent_op \<Rightarrow> crdirent_op option" where
  "crdirent_validate op =
     (if 0x2f \<in> set (op_name op) then Some (op\<lparr>error_code := - PVFS_EINVAL\<rparr>)
      else do {
        dirdata_server_index \<leftarrow> PINT_find_dist_dir_bucket (PINT_encrypt_dirdata (op_name op)) (op_attr op) (op_bitmap op);
        Some (op\<lparr>error_code := if dirdata_server_index \<noteq> server_no (op_attr op) then INVALID_DIRDATA else 0\<rparr>) })"

definition crdirent_write_directory_entry :: "'db db_lib \<Rightarrow> crdirent_op \<Rightarrow> 'db directory \<Rightarrow> (crdirent_op \<times> 'db directory) option" where
  "crdirent_write_directory_entry L op dir = do {
     d \<leftarrow> array_get (dirdata dir) (int (op_server op));
     if dd_handle d = 0 then None
     else do {
       (ret, db) \<leftarrow> dbpf_keyval_write_op_svc L (keyval_db (dd_state d)) dirent_flags (dd_handle d) (op_name op @ [0]) (op_new_handle op);
       dir \<leftarrow> update_dirdata (op_server op) (\<lambda>d. d\<lparr>dd_state := (dd_state d)\<lparr>keyval_db := db\<rparr>\<rparr>) dir;
       Some (op\<lparr>error_code := if ret = DBPF_OP_COMPLETE then 0 else ret\<rparr>, dir) } }"

definition crdirent_get_dirent_count :: "'db db_lib \<Rightarrow> crdirent_op \<Rightarrow> 'db directory \<Rightarrow> crdirent_op option" where
  "crdirent_get_dirent_count L op dir = do {
     d \<leftarrow> array_get (dirdata dir) (int (op_server op));
     case dbpf_keyval_get_handle_info_op_svc L (keyval_db (dd_state d)) (dd_handle d) of
       (ret, None) \<Rightarrow> Some (op\<lparr>error_code := ret\<rparr>)
     | (ret, Some n) \<Rightarrow> Some (op\<lparr>error_code := 0, dirent_count := n\<rparr>) }"

definition crdirent_check_for_split :: "crdirent_op \<Rightarrow> crdirent_op option" where
  "crdirent_check_for_split op =
     (if error_code op \<noteq> 0 then Some op
      else
        let op = op\<lparr>saved_attr := op_attr op, saved_bitmap := op_bitmap op\<rparr>
        in if dirent_count op \<ge> split_size (op_attr op) then do {
             (node, attr, bitmap) \<leftarrow> PINT_find_dist_dir_split_node (op_attr op) (op_bitmap op);
             let op = op\<lparr>op_attr := attr, op_bitmap := bitmap, split_node := node\<rparr>;
             if node < 0 then Some op else Some (op\<lparr>error_code := SPLIT_REQUIRED\<rparr>) }
           else Some op)"

definition crdirent_save_dirdata_attrs :: "PVFS_dist_dir_attr \<Rightarrow> PVFS_dist_dir_bitmap \<Rightarrow> nat \<Rightarrow> 'db directory \<Rightarrow> 'db directory option" where
  "crdirent_save_dirdata_attrs attr bitmap i dir = update_dirdata i (\<lambda>d. d\<lparr>dd_attr := attr, dd_bitmap := bitmap\<rparr>) dir"

text \<open>A message with attributes for the target of the split, and the message for the metadata object, which passes the attributes on to all
  dirdata objects.\<close>

definition activate_xfer :: "PVFS_dist_dir_attr \<Rightarrow> PVFS_dist_dir_bitmap \<Rightarrow> step_input \<Rightarrow> crdirent_op \<Rightarrow> 'db directory \<Rightarrow> (crdirent_op \<times> 'db directory) option" where
  "activate_xfer attr bitmap inp op dir = do {
     dir \<leftarrow> (if executed (replies inp 0) then tree_setattr attr bitmap [nat (split_node op)] dir else Some dir);
     Some (op\<lparr>error_code := msgpair_status (replies inp 0)\<rparr>, dir) }"

definition crdirent_update_metahandle_attrs :: "crdirent_op \<Rightarrow> 'db directory \<Rightarrow> crdirent_op \<times> 'db directory" where
  "crdirent_update_metahandle_attrs op dir =
     (if parent_remote op then (op\<lparr>error_code := REMOTE_METAHANDLE\<rparr>, dir)
      else (op\<lparr>error_code := 0\<rparr>, dir\<lparr>meta_attr := op_attr op, meta_bitmap := op_bitmap op\<rparr>))"

definition metahandle_xfer :: "step_input \<Rightarrow> crdirent_op \<Rightarrow> 'db directory \<Rightarrow> (crdirent_op \<times> 'db directory) option" where
  "metahandle_xfer inp op dir = do {
     dir \<leftarrow> (if executed (replies inp 0) then do {
        dir \<leftarrow> tree_setattr (op_attr op) (op_bitmap op) [0..<length (dirdata dir)] dir;
        (ret, attr, bitmap) \<leftarrow> PINT_update_dist_dir_bitmap_from_bitmap (op_attr op) (op_bitmap op) (op_bitmap op);
        Some (dir\<lparr>meta_attr := attr, meta_bitmap := bitmap\<rparr>) } else Some dir);
     Some (op\<lparr>error_code := msgpair_status (replies inp 0)\<rparr>, dir) }"

text \<open>All other dirdata objects except the target of the split.\<close>

definition remote_dirdata_handles :: "crdirent_op \<Rightarrow> 'db directory \<Rightarrow> nat list" where
  "remote_dirdata_handles op dir = filter (\<lambda>i. int i \<noteq> split_node op \<and> i \<noteq> op_server op) [0..<length (dirdata dir)]"

definition notify_xfer :: "step_input \<Rightarrow> crdirent_op \<Rightarrow> 'db directory \<Rightarrow> (crdirent_op \<times> 'db directory) option" where
  "notify_xfer inp op dir = do {
     dir \<leftarrow> (if executed (replies inp 0) then tree_setattr (op_attr op) (op_bitmap op) (remote_dirdata_handles op dir) dir else Some dir);
     Some (op\<lparr>error_code := msgpair_comp_status (replies inp 0)\<rparr>, dir) }"

definition crdirent_retrieve_dir_entries :: "'db db_lib \<Rightarrow> (pcache \<Rightarrow> pcache) \<Rightarrow> crdirent_op \<Rightarrow> 'db directory \<Rightarrow> (crdirent_op \<times> 'db directory) option" where
  "crdirent_retrieve_dir_entries L evict op dir = do {
     d \<leftarrow> array_get (dirdata dir) (int (op_server op));
     (ret, pos, es, st) \<leftarrow> dbpf_keyval_iterate_op_svc L evict (dd_state d) readdir_flags (dd_handle d) PVFS_NAME_MAX 8
       (nat (dirent_count op)) TROVE_ITERATE_START;
     dir \<leftarrow> update_dirdata (op_server op) (\<lambda>d. d\<lparr>dd_state := st\<rparr>) dir;
     Some (op\<lparr>error_code := if ret = DBPF_OP_COMPLETE then 0 else ret, dir_entries := es\<rparr>, dir) }"

definition PVFS_REQ_LIMIT_SPLIT_SIZE_MAX :: nat where "PVFS_REQ_LIMIT_SPLIT_SIZE_MAX = 65536"
definition PVFS_REQ_LIMIT_NENTRIES_MAX :: nat where "PVFS_REQ_LIMIT_NENTRIES_MAX = PVFS_REQ_LIMIT_SPLIT_SIZE_MAX div (PVFS_NAME_MAX + 8)"

text \<open>The loop over the entries: the entries of the new bucket, the number of messages, the boundaries of the messages, and the bytes of
  the last message.\<close>

definition split_entry :: "PVFS_dist_dir_attr \<Rightarrow> PVFS_dist_dir_bitmap \<Rightarrow> int \<Rightarrow> bytes \<times> bytes
    \<Rightarrow> (bytes \<times> bytes) list \<times> nat \<times> (nat \<times> nat) list \<times> nat \<Rightarrow> ((bytes \<times> bytes) list \<times> nat \<times> (nat \<times> nat) list \<times> nat) option" where
  "split_entry attr bitmap node kv = (\<lambda>(es, num_msgs, boundaries, cur_bytes). do {
     let name = c_str (fst kv);
     b \<leftarrow> PINT_find_dist_dir_bucket (PINT_encrypt_dirdata name) attr bitmap;
     if b = node then
       let cur_bytes = cur_bytes + length name + 1 + 8
       in if cur_bytes \<ge> PVFS_REQ_LIMIT_SPLIT_SIZE_MAX then do {
            boundaries \<leftarrow> array_set boundaries (int num_msgs) (length es, 1);
            Some (es @ [(name, snd kv)], num_msgs + 1, boundaries, length name + 1 + 8) }
          else do {
            (start, n) \<leftarrow> array_get boundaries (int num_msgs - 1);
            boundaries \<leftarrow> array_set boundaries (int num_msgs - 1) (start, n + 1);
            Some (es @ [(name, snd kv)], num_msgs, boundaries, cur_bytes) }
     else Some (es, num_msgs, boundaries, cur_bytes) })"

fun split_loop :: "PVFS_dist_dir_attr \<Rightarrow> PVFS_dist_dir_bitmap \<Rightarrow> int \<Rightarrow> (bytes \<times> bytes) list
    \<Rightarrow> (bytes \<times> bytes) list \<times> nat \<times> (nat \<times> nat) list \<times> nat \<Rightarrow> ((bytes \<times> bytes) list \<times> nat \<times> (nat \<times> nat) list \<times> nat) option" where
  "split_loop attr bitmap node [] st = Some st"
| "split_loop attr bitmap node (kv # kvs) st = do { st \<leftarrow> split_entry attr bitmap node kv st; split_loop attr bitmap node kvs st }"

text \<open>The loop goes over the counted number of entries; entries that have not been read are uninitialized.\<close>

definition crdirent_find_split_entries :: "crdirent_op \<Rightarrow> crdirent_op option" where
  "crdirent_find_split_entries op =
     (if int (length (dir_entries op)) < dirent_count op then None
      else do {
        let num_entries_needed = nat (dirent_count op) div PVFS_REQ_LIMIT_NENTRIES_MAX + 1;
        (es, num_msgs, boundaries, cur_bytes) \<leftarrow> split_loop (op_attr op) (op_bitmap op) (split_node op)
          (take (nat (dirent_count op)) (dir_entries op)) ([], 1, replicate num_entries_needed (0, 0), 0);
        Some (op\<lparr>split_entries := es, num_msgs_required := num_msgs, msg_boundaries := boundaries,
          split_status := replicate num_entries_needed None, error_code := if es \<noteq> [] then SPLIT_REQUIRED else 0\<rparr>) })"

text \<open>A part of an array; \<open>None\<close> if it leaves the array.\<close>

definition slice_of :: "'a list \<Rightarrow> nat \<Rightarrow> nat \<Rightarrow> 'a list option" where
  "slice_of xs start n = (if start + n \<le> length xs then Some (take n (drop start xs)) else None)"

text \<open>Messages to the target, from the given one on: the entries of each are written (or removed) when the message is executed, and the status
  of an answer is stored.\<close>

fun split_xfer :: "'db db_lib \<Rightarrow> bool \<Rightarrow> (nat \<Rightarrow> msg_result) \<Rightarrow> nat \<Rightarrow> (bytes \<times> bytes) list list \<Rightarrow> int option list \<Rightarrow> 'db dirdata
    \<Rightarrow> (int option list \<times> 'db dirdata) option" where
  "split_xfer L undo rs i [] status d = Some (status, d)"
| "split_xfer L undo rs i (es # ess) status d = do {
     (ret, d) \<leftarrow> (if executed (rs i) then mgmt_split_dirent_write_directory_entries L undo es d else Some (0, d));
     status \<leftarrow> (case rs i of Answered s \<Rightarrow> array_set status (int i) (Some s) | Failed e x \<Rightarrow> Some status);
     split_xfer L undo rs (i + 1) ess status d }"

definition messages :: "crdirent_op \<Rightarrow> (bytes \<times> bytes) list list option" where
  "messages op = those (map (\<lambda>i. do { (start, n) \<leftarrow> array_get (msg_boundaries op) (int i); slice_of (split_entries op) start n }) [0..<num_msgs_required op])"

definition crdirent_split_xfer :: "'db db_lib \<Rightarrow> step_input \<Rightarrow> crdirent_op \<Rightarrow> 'db directory \<Rightarrow> (crdirent_op \<times> 'db directory) option" where
  "crdirent_split_xfer L inp op dir = do {
     ess \<leftarrow> messages op;
     d \<leftarrow> array_get (dirdata dir) (split_node op);
     (status, d) \<leftarrow> split_xfer L False (replies inp) 0 ess (split_status op) d;
     dir \<leftarrow> update_dirdata (nat (split_node op)) (\<lambda>_. d) dir;
     Some (op\<lparr>split_status := status, error_code := first_error (map (msgpair_comp_status \<circ> replies inp) [0..<length ess])\<rparr>, dir) }"

definition crdirent_remove_local_copies :: "'db db_lib \<Rightarrow> crdirent_op \<Rightarrow> 'db directory \<Rightarrow> (crdirent_op \<times> 'db directory) option" where
  "crdirent_remove_local_copies L op dir = do {
     d \<leftarrow> array_get (dirdata dir) (int (op_server op));
     (ret, _, db) \<leftarrow> dbpf_keyval_remove_list_op_svc L (keyval_db (dd_state d))
       [TROVE_SYNC, TROVE_KEYVAL_HANDLE_COUNT, TROVE_KEYVAL_DIRECTORY_ENTRY] (dd_handle d)
       (map (\<lambda>(n, h). (n @ [0], Some 8)) (split_entries op));
     dir \<leftarrow> update_dirdata (op_server op) (\<lambda>d. d\<lparr>dd_state := (dd_state d)\<lparr>keyval_db := db\<rparr>\<rparr>) dir;
     Some (op\<lparr>error_code := if ret = DBPF_OP_COMPLETE then 0 else ret\<rparr>, dir) }"

text \<open>The loop that collects the entries to undo: it reads the status of every entry, and counts only the bytes of the handles. A
  boundary that is not reset is counted on.\<close>

fun undo_loop :: "int option list \<Rightarrow> nat \<Rightarrow> nat \<Rightarrow> (bytes \<times> bytes) list \<Rightarrow> nat \<Rightarrow> nat \<Rightarrow> (nat \<times> nat) list \<Rightarrow> nat
    \<Rightarrow> ((bytes \<times> bytes) list \<times> nat \<times> nat \<times> (nat \<times> nat) list) option" where
  "undo_loop status i 0 es num_undo num_msgs boundaries cur_bytes = Some (es, num_undo, num_msgs, boundaries)"
| "undo_loop status i (Suc n) es num_undo num_msgs boundaries cur_bytes = do {
     so \<leftarrow> array_get status (int i);
     s \<leftarrow> so;
     if s = 0 then do {
       e \<leftarrow> array_get es (int i);
       es \<leftarrow> (if i > num_undo then array_set es (int num_undo) e else Some es);
       let cur_bytes = cur_bytes + 8;
       if cur_bytes \<ge> PVFS_REQ_LIMIT_SPLIT_SIZE_MAX then do {
         boundaries \<leftarrow> array_set boundaries (int num_msgs) (num_undo, 1);
         undo_loop status (i + 1) n es (num_undo + 1) (num_msgs + 1) boundaries 8 }
       else do {
         (start, k) \<leftarrow> array_get boundaries (int num_msgs - 1);
         boundaries \<leftarrow> array_set boundaries (int num_msgs - 1) (start, k + 1);
         undo_loop status (i + 1) n es (num_undo + 1) num_msgs boundaries cur_bytes } }
     else undo_loop status (i + 1) n es num_undo num_msgs boundaries cur_bytes }"

text \<open>Every undo message has all entries from the start of its part on; their number is kept in the boundaries here.\<close>

definition crdirent_split_remove_entries :: "crdirent_op \<Rightarrow> crdirent_op option" where
  "crdirent_split_remove_entries op = do {
     (es, num_undo, num_msgs, boundaries) \<leftarrow> undo_loop (split_status op) 0 (length (split_entries op)) (split_entries op) 0 1 (msg_boundaries op) 0;
     let op = op\<lparr>split_entries := es, num_msgs_required := num_msgs, error_code := 0\<rparr>;
     if num_undo > 0
     then Some (op\<lparr>msg_boundaries := map (\<lambda>(start, n). (start, num_undo)) boundaries, error_code := REMOVE_ENTRIES_REQUIRED\<rparr>)
     else Some (op\<lparr>msg_boundaries := boundaries\<rparr>) }"

definition crdirent_undo_xfer :: "'db db_lib \<Rightarrow> step_input \<Rightarrow> crdirent_op \<Rightarrow> 'db directory \<Rightarrow> (crdirent_op \<times> 'db directory) option" where
  "crdirent_undo_xfer L inp op dir = do {
     ess \<leftarrow> messages op;
     d \<leftarrow> array_get (dirdata dir) (split_node op);
     (status, d) \<leftarrow> split_xfer L True (replies inp) 0 ess (split_status op) d;
     dir \<leftarrow> update_dirdata (nat (split_node op)) (\<lambda>_. d) dir;
     Some (op\<lparr>split_status := status, error_code := first_error (map (msgpair_comp_status \<circ> replies inp) [0..<length ess])\<rparr>, dir) }"

text \<open>The action of a state.\<close>

fun crdirent_action :: "'db db_lib \<Rightarrow> (pcache \<Rightarrow> pcache) \<Rightarrow> step_input \<Rightarrow> crdirent_state \<Rightarrow> crdirent_op \<Rightarrow> 'db directory
    \<Rightarrow> (crdirent_op \<times> 'db directory) option" where
  "crdirent_action L evict inp Setup_op op dir = Some (op\<lparr>error_code := job_error inp\<rparr>, dir)"
| "crdirent_action L evict inp Get_dist_dir_attr op dir = crdirent_get_dist_dir_attr op dir"
| "crdirent_action L evict inp Get_bitmap_and_dirdata_handles op dir = crdirent_get_bitmap_and_dirdata_handles op dir"
| "crdirent_action L evict inp Validate op dir = map_option (\<lambda>op. (op, dir)) (crdirent_validate op)"
| "crdirent_action L evict inp Validation_object_type_failure op dir = Some (op\<lparr>error_code := - PVFS_ENOTDIR\<rparr>, dir)"
| "crdirent_action L evict inp Validation_dirdata_mismatch op dir = Some (op\<lparr>error_code := - PVFS_EAGAIN\<rparr>, dir)"
| "crdirent_action L evict inp Write_directory_entry op dir = crdirent_write_directory_entry L op dir"
| "crdirent_action L evict inp Update_directory_attr op dir = Some (op\<lparr>error_code := job_error inp\<rparr>, dir)"
| "crdirent_action L evict inp Update_metahandle_timestamp op dir =
     Some (op\<lparr>error_code := if new_remote op then REMOTE_METAHANDLE else job_error inp\<rparr>, dir)"
| "crdirent_action L evict inp Update_local_metahandle_timestamp op dir = Some (op\<lparr>error_code := job_error inp\<rparr>, dir)"
| "crdirent_action L evict inp Update_metahandle_timestamp_xfer_msgpair op dir = Some (op\<lparr>error_code := msgpair_status (replies inp 0)\<rparr>, dir)"
| "crdirent_action L evict inp Get_dirent_count op dir = map_option (\<lambda>op. (op, dir)) (crdirent_get_dirent_count L op dir)"
| "crdirent_action L evict inp Check_for_split op dir = map_option (\<lambda>op. (op, dir)) (crdirent_check_for_split op)"
| "crdirent_action L evict inp Retrieve_dir_entries op dir = crdirent_retrieve_dir_entries L evict op dir"
| "crdirent_action L evict inp Find_split_entries op dir = map_option (\<lambda>op. (op, dir)) (crdirent_find_split_entries op)"
| "crdirent_action L evict inp Split_xfer_msgpair op dir = crdirent_split_xfer L inp op dir"
| "crdirent_action L evict inp Activate_server_setup op dir = Some (op\<lparr>error_code := 0\<rparr>, dir)"
| "crdirent_action L evict inp Activate_server op dir = activate_xfer (op_attr op) (op_bitmap op) inp op dir"
| "crdirent_action L evict inp Deactivate_server_setup op dir = Some (op\<lparr>error_code := 0\<rparr>, dir)"
| "crdirent_action L evict inp Deactivate_server op dir = activate_xfer (saved_attr op) (saved_bitmap op) inp op dir"
| "crdirent_action L evict inp Update_dirdata_attrs op dir =
     map_option (\<lambda>dir. (op\<lparr>error_code := 0\<rparr>, dir)) (crdirent_save_dirdata_attrs (op_attr op) (op_bitmap op) (op_server op) dir)"
| "crdirent_action L evict inp Update_metahandle_attrs op dir = Some (crdirent_update_metahandle_attrs op dir)"
| "crdirent_action L evict inp Update_metahandle_xfer_msgpair op dir = metahandle_xfer inp op dir"
| "crdirent_action L evict inp Notify_dirdata_servers_setup op dir =
     Some (op\<lparr>error_code := if remote_dirdata_handles op dir \<noteq> [] then NOTIFY_DIRDATA else 0\<rparr>, dir)"
| "crdirent_action L evict inp Notify_dirdata_servers_xfer op dir = notify_xfer inp op dir"
| "crdirent_action L evict inp Backout_dirdata_attrs op dir =
     map_option (\<lambda>dir. (op\<lparr>error_code := 0\<rparr>, dir)) (crdirent_save_dirdata_attrs (saved_attr op) (saved_bitmap op) (op_server op) dir)"
| "crdirent_action L evict inp Remove_local_copies op dir = crdirent_remove_local_copies L op dir"
| "crdirent_action L evict inp Split_cleanup_msgpairarray op dir =
     Some (op\<lparr>error_code := if num_msgs_required op > 0 then SPLIT_FATAL_ERROR else 0\<rparr>, dir)"
| "crdirent_action L evict inp Split_remove_entries op dir = map_option (\<lambda>op. (op, dir)) (crdirent_split_remove_entries op)"
| "crdirent_action L evict inp Split_remove_entries_xfer_msgpair op dir = crdirent_undo_xfer L inp op dir"
| "crdirent_action L evict inp Remove_entries_cleanup op dir =
     Some (op\<lparr>error_code := if error_code op = REMOVE_ENTRIES_REQUIRED then 0 else error_code op\<rparr>, dir)"
| "crdirent_action L evict inp Return op dir = Some (op, dir)"

definition crdirent_step :: "'db db_lib \<Rightarrow> (pcache \<Rightarrow> pcache) \<Rightarrow> step_input \<Rightarrow> crdirent_op \<times> 'db directory \<Rightarrow> (crdirent_op \<times> 'db directory) option" where
  "crdirent_step L evict inp = (\<lambda>(op, dir). do {
     (op', dir') \<leftarrow> crdirent_action L evict inp (op_state op) op dir;
     Some (op'\<lparr>op_state := next_state (op_state op) (error_code op')\<rparr>, dir') })"

text \<open>A run of the machine; every state is visited at most once, and \<open>env\<close> gives the results of the jobs and messages of a state.\<close>

fun crdirent_run :: "'db db_lib \<Rightarrow> (pcache \<Rightarrow> pcache) \<Rightarrow> (crdirent_state \<Rightarrow> step_input) \<Rightarrow> nat \<Rightarrow> crdirent_op \<times> 'db directory
    \<Rightarrow> (crdirent_op \<times> 'db directory) option" where
  "crdirent_run L evict env 0 s = Some s"
| "crdirent_run L evict env (Suc k) s = do { s \<leftarrow> crdirent_step L evict (env (op_state (fst s))) s; crdirent_run L evict env k s }"

section \<open>The attributes of a directory\<close>

abbreviation for_server :: "PVFS_dist_dir_attr \<Rightarrow> nat \<Rightarrow> int \<Rightarrow> PVFS_dist_dir_attr" where
  "for_server attr i l \<equiv> attr\<lparr>server_no := int i, branch_level := l\<rparr>"

lemma find_bucket_cong [simp]: "PINT_find_dist_dir_bucket hash (for_server attr i l) bm = PINT_find_dist_dir_bucket hash attr bm"
  "PINT_find_dist_dir_bucket hash (attr\<lparr>branch_level := l\<rparr>) bm = PINT_find_dist_dir_bucket hash attr bm"
  by (simp_all add: PINT_find_dist_dir_bucket_def)

lemma dir_ok_cong [simp]: "dir_ok (for_server attr i l) bm = dir_ok attr bm" "dir_ok (attr\<lparr>branch_level := l\<rparr>) bm = dir_ok attr bm"
  "dir_ok (attr\<lparr>server_no := k\<rparr>) bm = dir_ok attr bm"
  by (simp_all add: dir_ok_def height_def)

lemma or_words_self: "n \<le> length bm \<Longrightarrow> or_words n bm bm = Some bm"
  by (induction n) (simp_all add: array_get_def array_set_def)

text \<open>A server that knows the tree.\<close>

definition configured :: "PVFS_dist_dir_attr \<Rightarrow> PVFS_dist_dir_bitmap \<Rightarrow> nat \<Rightarrow> 'db dirdata \<Rightarrow> bool" where
  "configured attr bm i d \<longleftrightarrow> dd_bitmap d = bm \<and>
     (\<exists>l. dd_attr d = for_server attr i l \<and> dist_dir_calc_branch_level (for_server attr i l) bm = Some l)"

lemma calc_cong [simp]: "dist_dir_calc_branch_level (attr\<lparr>branch_level := l\<rparr>) bm = dist_dir_calc_branch_level attr bm"
  by (simp add: dist_dir_calc_branch_level_def cong: if_cong)

lemma set_serverno:
  assumes "dir_ok attr bm" "num_servers attr \<le> 16" "int i < num_servers attr"
  obtains l where "PINT_dist_dir_set_serverno (int i) attr bm = Some (0, for_server attr i l)" "dist_dir_calc_branch_level (for_server attr i l) bm = Some l"
proof -
  have h: "\<not> 5 \<le> height (attr\<lparr>server_no := int i\<rparr>)" using small_height [of "attr\<lparr>server_no := int i\<rparr>" bm] assms(1,2) by simp
  obtain l where "dist_dir_calc_branch_level (attr\<lparr>server_no := int i\<rparr>) bm = Some l"
    using calc_branch_level_total [of "attr\<lparr>server_no := int i\<rparr>" bm] assms h by auto
  then show thesis using that [of l] assms(3) by (simp add: PINT_dist_dir_set_serverno_def)
qed

lemma update_self:
  assumes "dir_ok attr bm" "num_servers attr \<le> 16" "0 \<le> server_no attr" "server_no attr < num_servers attr"
  obtains l where "PINT_update_dist_dir_bitmap_from_bitmap attr bm bm = Some (0, attr\<lparr>branch_level := l\<rparr>, bm)"
proof -
  have "\<not> 5 \<le> height attr" using small_height [OF assms(1)] assms(2) by simp
  then obtain l where "dist_dir_calc_branch_level attr bm = Some l" using calc_branch_level_total [OF assms(1,3,4)] by blast
  moreover have "int (length bm) = bitmap_size attr" using assms(1) unfolding dir_ok_def by blast
  then have "nat (bitmap_size attr) \<le> length bm" by simp
  ultimately show thesis using that [of l] assms(3) by (simp add: PINT_update_dist_dir_bitmap_from_bitmap_def or_words_self)
qed

definition handles_ok :: "'db directory \<Rightarrow> bool" where
  "handles_ok dir \<longleftrightarrow> distinct (map dd_handle (dirdata dir)) \<and> 0 \<notin> set (map dd_handle (dirdata dir))"

lemma find_handle:
  assumes "handles_ok dir" "i < length (dirdata dir)" "dd_handle d = dd_handle (dirdata dir ! i)"
  shows "List.find (\<lambda>j. dd_handle (dirdata dir ! j) = dd_handle d) [0..<length (dirdata dir)] = Some i"
proof -
  have "dd_handle (dirdata dir ! j) \<noteq> dd_handle d" if "j < i" for j
    using assms that nth_eq_iff_index_eq [of "map dd_handle (dirdata dir)" j i] by (auto simp: handles_ok_def)
  then show ?thesis using assms(2,3) by (auto simp: find_Some_iff intro!: exI [of _ i])
qed

lemma setattr_configures:
  assumes "dir_ok attr bm" "num_servers attr \<le> 16" "0 \<le> server_no attr" "server_no attr < num_servers attr"
    "num_servers attr = int (length (dirdata dir))" "handles_ok dir" "i < length (dirdata dir)"
  obtains d where "setattr_write_distr_dir_data dir attr bm (dirdata dir ! i) = Some (0, d)" "configured attr bm i d"
    "dd_handle d = dd_handle (dirdata dir ! i)" "dd_state d = dd_state (dirdata dir ! i)"
proof -
  obtain l where l: "PINT_update_dist_dir_bitmap_from_bitmap attr bm bm = Some (0, attr\<lparr>branch_level := l\<rparr>, bm)"
    by (rule update_self [OF assms(1-4)])
  have a: "dir_ok (attr\<lparr>branch_level := l\<rparr>) bm" "num_servers (attr\<lparr>branch_level := l\<rparr>) \<le> 16" "int i < num_servers (attr\<lparr>branch_level := l\<rparr>)"
    using assms by simp_all
  obtain m where m: "PINT_dist_dir_set_serverno (int i) (attr\<lparr>branch_level := l\<rparr>) bm = Some (0, for_server (attr\<lparr>branch_level := l\<rparr>) i m)"
    "dist_dir_calc_branch_level (for_server (attr\<lparr>branch_level := l\<rparr>) i m) bm = Some m"
    by (rule set_serverno [OF a])
  have eq: "for_server (attr\<lparr>branch_level := l\<rparr>) i m = for_server attr i m" by simp
  show thesis
  proof (rule that)
    show "setattr_write_distr_dir_data dir attr bm (dirdata dir ! i) = Some (0, (dirdata dir ! i)\<lparr>dd_attr := for_server attr i m, dd_bitmap := bm\<rparr>)"
      using l m(1) find_handle [OF assms(6,7) refl] assms(2,4) assms(3)
      by (simp add: setattr_write_distr_dir_data_def PVFS_REQ_LIMIT_DIRENT_FILE_COUNT_def eq)
    show "configured attr bm i ((dirdata dir ! i)\<lparr>dd_attr := for_server attr i m, dd_bitmap := bm\<rparr>)" using m(2) unfolding configured_def eq by auto
  qed simp_all
qed

text \<open>The servers that are told about a tree know it; nothing else changes.\<close>

lemma tree_setattr_configures:
  assumes "dir_ok attr bm" "num_servers attr \<le> 16" "0 \<le> server_no attr" "server_no attr < num_servers attr"
    "num_servers attr = int (length (dirdata dir))" "handles_ok dir" "\<forall>i \<in> set is. i < length (dirdata dir)"
  obtains ds where "tree_setattr attr bm is dir = Some (dir\<lparr>dirdata := ds\<rparr>)" "length ds = length (dirdata dir)"
    "map dd_handle ds = map dd_handle (dirdata dir)" "map dd_state ds = map dd_state (dirdata dir)"
    "\<And>i. i \<in> set is \<Longrightarrow> configured attr bm i (ds ! i)" "\<And>i. i \<notin> set is \<Longrightarrow> ds ! i = dirdata dir ! i"
  using assms(5-7)
proof (induction "is" arbitrary: dir thesis)
  case Nil
  show ?case by (rule Nil(1) [of "dirdata dir"]) simp_all
next
  case (Cons i "is")
  have i: "i < length (dirdata dir)" using Cons.prems(4) by simp
  obtain d where d: "setattr_write_distr_dir_data dir attr bm (dirdata dir ! i) = Some (0, d)" "configured attr bm i d"
    "dd_handle d = dd_handle (dirdata dir ! i)" "dd_state d = dd_state (dirdata dir ! i)"
    by (rule setattr_configures [OF assms(1-4) Cons.prems(2,3) i])
  let ?dir = "dir\<lparr>dirdata := (dirdata dir)[i := d]\<rparr>"
  have maps: "map dd_handle (dirdata ?dir) = map dd_handle (dirdata dir)" "map dd_state (dirdata ?dir) = map dd_state (dirdata dir)"
    using d(3,4) i list_update_id [of "map dd_handle (dirdata dir)" i] list_update_id [of "map dd_state (dirdata dir)" i] by (simp_all add: map_update)
  have "num_servers attr = int (length (dirdata ?dir))" "handles_ok ?dir" "\<forall>j \<in> set is. j < length (dirdata ?dir)"
    using Cons.prems(2-4) maps(1) by (simp_all add: handles_ok_def)
  then obtain ds where ds: "tree_setattr attr bm is ?dir = Some (?dir\<lparr>dirdata := ds\<rparr>)" "length ds = length (dirdata ?dir)"
    "map dd_handle ds = map dd_handle (dirdata ?dir)" "map dd_state ds = map dd_state (dirdata ?dir)"
    "\<And>j. j \<in> set is \<Longrightarrow> configured attr bm j (ds ! j)" "\<And>j. j \<notin> set is \<Longrightarrow> ds ! j = dirdata ?dir ! j"
    using Cons.IH by blast
  show ?case
  proof (rule Cons.prems(1) [of ds])
    show "tree_setattr attr bm (i # is) dir = Some (dir\<lparr>dirdata := ds\<rparr>)" using d(1) ds(1) i by (simp add: array_get_def)
    show "map dd_handle ds = map dd_handle (dirdata dir)" "map dd_state ds = map dd_state (dirdata dir)" using ds(3,4) maps by simp_all
    show "configured attr bm j (ds ! j)" if "j \<in> set (i # is)" for j
      using that ds(5,6) [of j] d(2) i by (cases "j \<in> set is") auto
    show "ds ! j = dirdata dir ! j" if "j \<notin> set (i # is)" for j using that ds(6) [of j] by simp
  qed (simp add: ds(2))
qed

end
