(* ===== verification/Crdirent_Run.thy ===== *)
theory Crdirent_Run
  imports Crdirent
begin

text \<open>
  What the creation of a directory entry does to a distributed directory: the split messages hold the entries of the new bucket,
  and a run without failures keeps every entry where the tree points to.
\<close>

section \<open>The messages of a split\<close>

abbreviation home :: "PVFS_dist_dir_attr \<Rightarrow> PVFS_dist_dir_bitmap \<Rightarrow> bytes \<Rightarrow> int option" where
  "home attr bm name \<equiv> PINT_find_dist_dir_bucket (PINT_encrypt_dirdata name) attr bm"

definition split_moved :: "PVFS_dist_dir_attr \<Rightarrow> PVFS_dist_dir_bitmap \<Rightarrow> int \<Rightarrow> (bytes \<times> bytes) list \<Rightarrow> (bytes \<times> bytes) list" where
  "split_moved attr bm node kvs = filter (\<lambda>(n, v). home attr bm n = Some node) (map (\<lambda>(k, v). (c_str k, v)) kvs)"

definition entry_bytes :: "(bytes \<times> bytes) list \<Rightarrow> nat" where
  "entry_bytes es = sum_list (map (\<lambda>(n, v). length n + 9) es)"

abbreviation part :: "(bytes \<times> bytes) list \<Rightarrow> nat \<times> nat \<Rightarrow> (bytes \<times> bytes) list" where
  "part es b \<equiv> take (snd b) (drop (fst b) es)"

text \<open>The messages so far hold the entries so far; every message but the last has at least \<open>PVFS_REQ_LIMIT_NENTRIES_MAX\<close> entries.\<close>

definition split_inv :: "(bytes \<times> bytes) list \<times> nat \<times> (nat \<times> nat) list \<times> nat \<Rightarrow> bool" where
  "split_inv = (\<lambda>(es, m, bs, cur). \<exists>cl s n. take m bs = cl @ [(s, n)] \<and> length cl + 1 = m \<and> m \<le> length bs \<and> s + n = length es \<and>
     cur = entry_bytes (drop s es) \<and> cur < PVFS_REQ_LIMIT_SPLIT_SIZE_MAX \<and> length cl * PVFS_REQ_LIMIT_NENTRIES_MAX \<le> s \<and>
     (\<forall>b \<in> set cl. fst b + snd b \<le> s) \<and> concat (map (part es) (cl @ [(s, n)])) = es)"

lemma limits: "PVFS_REQ_LIMIT_SPLIT_SIZE_MAX = 65536" "PVFS_REQ_LIMIT_NENTRIES_MAX = 248"
  by (simp_all add: PVFS_REQ_LIMIT_SPLIT_SIZE_MAX_def PVFS_REQ_LIMIT_NENTRIES_MAX_def PVFS_NAME_MAX_def)

lemma entry_bytes_bound: "\<forall>(n, v) \<in> set es. length n < PVFS_NAME_MAX \<Longrightarrow> entry_bytes es \<le> length es * 264"
  by (induction es) (auto simp: entry_bytes_def PVFS_NAME_MAX_def)

lemma part_snoc: "fst b + snd b \<le> length es \<Longrightarrow> part (es @ [e]) b = part es b"
  by simp

lemma take_update_last:
  assumes "take m bs = cl @ [x]" "length cl + 1 = m" "m \<le> length bs"
  shows "take m (bs[m - 1 := y]) = cl @ [y]" "bs ! (m - 1) = x"
proof -
  have "cl = take (m - 1) (take m bs)" unfolding assms(1) using assms(2) by simp
  then have "cl = take (m - 1) bs" by simp
  then show "take m (bs[m - 1 := y]) = cl @ [y]" using assms(2,3) take_Suc_conv_app_nth [of "m - 1" "bs[m - 1 := y]"] by simp
  have m: "m - 1 = length cl" using assms(2) by simp
  have "take m bs ! (m - 1) = x" unfolding assms(1) m by simp
  then show "bs ! (m - 1) = x" using assms(2) by simp
qed

lemma split_entry_inv:
  assumes "split_inv (es, m, bs, cur)" "\<forall>(n, v) \<in> set es. length n < PVFS_NAME_MAX" "length (c_str (fst kv)) < PVFS_NAME_MAX"
    "home attr bm (c_str (fst kv)) = Some b" "length es < C" "length bs = C div PVFS_REQ_LIMIT_NENTRIES_MAX + 1"
  obtains m' bs' cur' where "split_entry attr bm node kv (es, m, bs, cur) = Some (es @ split_moved attr bm node [kv], m', bs', cur')"
    "split_inv (es @ split_moved attr bm node [kv], m', bs', cur')" "length bs' = length bs"
proof -
  obtain cl s n where i: "take m bs = cl @ [(s, n)]" "length cl + 1 = m" "m \<le> length bs" "s + n = length es" "cur = entry_bytes (drop s es)"
    "cur < PVFS_REQ_LIMIT_SPLIT_SIZE_MAX" "length cl * PVFS_REQ_LIMIT_NENTRIES_MAX \<le> s" "\<forall>b \<in> set cl. fst b + snd b \<le> s"
    "concat (map (part es) (cl @ [(s, n)])) = es"
    using assms(1) unfolding split_inv_def by blast
  define name where "name = c_str (fst kv)"
  let ?e = "(name, snd kv)" and ?c = "cur + length name + 1 + 8"
  have mv: "split_moved attr bm node [kv] = (if b = node then [?e] else [])" using assms(4) by (cases kv) (simp add: split_moved_def name_def)
  have parts: "map (part (es @ [?e])) cl = map (part es) cl" using i(4,8) by (auto intro: part_snoc)
  show thesis
  proof (cases "b = node")
    case False
    show thesis by (rule that [of m bs cur]) (use False assms mv in \<open>simp_all add: split_entry_def\<close>)
  next
    case node: True
    show thesis
    proof (cases "?c \<ge> PVFS_REQ_LIMIT_SPLIT_SIZE_MAX")
      case True
      have "cur \<le> n * 264" using entry_bytes_bound [of "drop s es"] assms(2) i(4,5) in_set_dropD [of _ s es] by fastforce
      moreover have "length name + 9 \<le> 264" using assms(3) by (simp add: name_def PVFS_NAME_MAX_def)
      ultimately have n: "248 \<le> n" using True by (simp add: limits)
      then have "m * 248 \<le> length es" using i(2,4,7) by (simp add: limits)
      then have "m \<le> (C - 1) div 248" using assms(5) by (simp add: less_eq_div_iff_mult_less_eq)
      also have "\<dots> \<le> C div 248" by (rule div_le_mono) simp
      finally have lt: "m < length bs" using assms(6) by (simp add: limits)
      let ?bs = "bs[m := (length es, 1)]"
      have tk: "take (Suc m) ?bs = (cl @ [(s, n)]) @ [(length es, 1)]" using i(1) lt by (simp add: take_Suc_conv_app_nth)
      show thesis
      proof (rule that [of "m + 1" ?bs "length name + 9"])
        show "split_entry attr bm node kv (es, m, bs, cur) = Some (es @ split_moved attr bm node [kv], m + 1, ?bs, length name + 9)"
          using assms(4) node True lt mv by (simp add: split_entry_def name_def array_set_def Let_def)
        have "part (es @ [?e]) (s, n) = part es (s, n)" "part (es @ [?e]) (length es, 1) = [?e]" using i(4) by simp_all
        then have mp: "map (part (es @ [?e])) ((cl @ [(s, n)]) @ [(length es, 1)]) = map (part es) (cl @ [(s, n)]) @ [[?e]]"
          unfolding map_append parts list.map by simp
        have "concat (map (part (es @ [?e])) ((cl @ [(s, n)]) @ [(length es, 1)])) = es @ [?e]" unfolding mp concat_append i(9) by simp
        moreover have "m * PVFS_REQ_LIMIT_NENTRIES_MAX \<le> length es" using \<open>m * 248 \<le> length es\<close> by (simp add: limits)
        ultimately show "split_inv (es @ split_moved attr bm node [kv], m + 1, ?bs, length name + 9)"
          unfolding split_inv_def prod.case mv
          by (intro exI [of _ "cl @ [(s, n)]"] exI [of _ "length es"] exI [of _ 1])
            (use tk i lt node assms(3) in \<open>auto simp: entry_bytes_def limits name_def PVFS_NAME_MAX_def\<close>)
      qed simp
    next
      case False
      let ?bs = "bs[m - 1 := (s, n + 1)]"
      note tu = take_update_last [OF i(1-3)]
      show thesis
      proof (rule that [of m ?bs ?c])
        have m: "int m - 1 = int (m - 1)" "m - 1 < length bs" using i(2,3) by auto
        have a: "array_get bs (int m - 1) = Some (s, n)" "array_set bs (int m - 1) (s, n + 1) = Some ?bs"
          unfolding m(1) array_get_def array_set_def using m(2) tu(2) by simp_all
        show "split_entry attr bm node kv (es, m, bs, cur) = Some (es @ split_moved attr bm node [kv], m, ?bs, ?c)"
          unfolding split_entry_def prod.case name_def [symmetric] Let_def using assms(4) [folded name_def] node False mv a by (simp add: add.assoc)
        have "part (es @ [?e]) (s, n + 1) = part es (s, n) @ [?e]" using i(4) by simp
        then have mp: "map (part (es @ [?e])) (cl @ [(s, n + 1)]) = map (part es) cl @ [part es (s, n) @ [?e]]" unfolding map_append parts list.map by simp
        have "concat (map (part es) cl) @ part es (s, n) = es" using i(9) by simp
        then have "concat (map (part (es @ [?e])) (cl @ [(s, n + 1)])) = es @ [?e]" unfolding mp by simp
        then show "split_inv (es @ split_moved attr bm node [kv], m, ?bs, ?c)"
          unfolding split_inv_def prod.case mv
          by (intro exI [of _ cl] exI [of _ s] exI [of _ "n + 1"])
            (use tu(1) i node False in \<open>auto simp: entry_bytes_def\<close>)
      qed simp
    qed
  qed
qed

lemma split_moved_simps [simp]: "split_moved attr bm node [] = []" "split_moved attr bm node (kvs @ kvs') = split_moved attr bm node kvs @ split_moved attr bm node kvs'"
  by (simp_all add: split_moved_def)

lemma split_moved_names: "\<forall>kv \<in> set kvs. length (c_str (fst kv)) < PVFS_NAME_MAX \<Longrightarrow> \<forall>(n, v) \<in> set (split_moved attr bm node kvs). length n < PVFS_NAME_MAX"
  by (auto simp: split_moved_def)

lemma split_loop_inv:
  assumes "split_inv (es, m, bs, cur)" "\<forall>(n, v) \<in> set es. length n < PVFS_NAME_MAX" "\<forall>kv \<in> set kvs. length (c_str (fst kv)) < PVFS_NAME_MAX"
    "dir_ok attr bm" "length es + length kvs \<le> C" "length bs = C div PVFS_REQ_LIMIT_NENTRIES_MAX + 1"
  obtains m' bs' cur' where "split_loop attr bm node kvs (es, m, bs, cur) = Some (es @ split_moved attr bm node kvs, m', bs', cur')"
    "split_inv (es @ split_moved attr bm node kvs, m', bs', cur')" "length bs' = length bs"
  using assms(1-3,5,6)
proof (induction kvs arbitrary: es m bs cur thesis)
  case Nil
  show ?case by (rule Nil(1) [of m bs cur]) (use Nil in simp_all)
next
  case (Cons kv kvs)
  obtain b where b: "home attr bm (c_str (fst kv)) = Some b" using find_bucket [OF assms(4)] by blast
  have len: "length (c_str (fst kv)) < PVFS_NAME_MAX" "length es < C" "\<forall>kv \<in> set kvs. length (c_str (fst kv)) < PVFS_NAME_MAX" using Cons.prems(4,5) by auto
  obtain m1 bs1 cur1 where s: "split_entry attr bm node kv (es, m, bs, cur) = Some (es @ split_moved attr bm node [kv], m1, bs1, cur1)"
    "split_inv (es @ split_moved attr bm node [kv], m1, bs1, cur1)" "length bs1 = length bs"
    by (rule split_entry_inv [OF Cons.prems(2,3) len(1) b len(2) Cons.prems(6)])
  have "\<forall>(n, v) \<in> set (es @ split_moved attr bm node [kv]). length n < PVFS_NAME_MAX"
    using Cons.prems(3) split_moved_names [of "[kv]" attr bm node] len(1) by auto
  moreover have "length (split_moved attr bm node [kv]) \<le> 1" by (simp add: split_moved_def)
  then have "length (es @ split_moved attr bm node [kv]) + length kvs \<le> C" using Cons.prems(5) by simp
  moreover have "length bs1 = C div PVFS_REQ_LIMIT_NENTRIES_MAX + 1" using s(3) Cons.prems(6) by simp
  ultimately obtain m' bs' cur' where "split_loop attr bm node kvs (es @ split_moved attr bm node [kv], m1, bs1, cur1) =
      Some ((es @ split_moved attr bm node [kv]) @ split_moved attr bm node kvs, m', bs', cur')"
    "split_inv ((es @ split_moved attr bm node [kv]) @ split_moved attr bm node kvs, m', bs', cur')" "length bs' = length bs1"
    using Cons.IH [OF _ s(2) _ len(3)] by blast
  then show ?case using Cons.prems(1) [of m' bs' cur'] s(1,3) split_moved_simps(2) [of attr bm node "[kv]" kvs] by simp
qed

lemma those_map: "\<forall>x \<in> set xs. f x = Some (g x) \<Longrightarrow> those (map f xs) = Some (map g xs)"
  by (induction xs) simp_all

lemma messages_parts:
  assumes "split_inv (split_entries op, num_msgs_required op, msg_boundaries op, cur)"
  obtains ess where "messages op = Some ess" "concat ess = split_entries op" "length ess = num_msgs_required op" "num_msgs_required op \<le> length (msg_boundaries op)"
proof -
  let ?es = "split_entries op" and ?m = "num_msgs_required op" and ?bs = "msg_boundaries op"
  obtain cl s n where i: "take ?m ?bs = cl @ [(s, n)]" "?m \<le> length ?bs" "s + n = length ?es" "\<forall>b \<in> set cl. fst b + snd b \<le> s"
    "concat (map (part ?es) (cl @ [(s, n)])) = ?es" "length cl + 1 = ?m"
    using assms unfolding split_inv_def by blast
  have "fst b + snd b \<le> length ?es" if "b \<in> set (take ?m ?bs)" for b using that i(3,4) unfolding i(1) by fastforce
  moreover have "?bs ! j \<in> set (take ?m ?bs)" if "j < ?m" for j using that i(2) by (auto simp: in_set_conv_nth)
  ultimately have "messages op = Some (map (\<lambda>j. part ?es (?bs ! j)) [0..<?m])"
    unfolding messages_def using i(2) by (intro those_map) (auto simp: array_get_def slice_of_def case_prod_beta)
  also have "map (\<lambda>j. part ?es (?bs ! j)) [0..<?m] = map (part ?es) (take ?m ?bs)" using i(2) by (intro nth_equalityI) simp_all
  finally show thesis using that [of "map (part ?es) (take ?m ?bs)"] i(1,2,5,6) by simp
qed

lemma split_inv_start: "split_inv ([], 1, replicate (Suc k) (0, 0), 0)"
  by (auto simp: split_inv_def entry_bytes_def limits)

lemma find_split:
  assumes "dir_ok (op_attr op) (op_bitmap op)" "dirent_count op = int (length (dir_entries op))"
    "\<forall>kv \<in> set (dir_entries op). length (c_str (fst kv)) < PVFS_NAME_MAX"
  obtains m bs ess where "crdirent_find_split_entries op = Some (op\<lparr>split_entries := split_moved (op_attr op) (op_bitmap op) (split_node op) (dir_entries op),
      num_msgs_required := m, msg_boundaries := bs, split_status := replicate (length bs) None,
      error_code := if split_moved (op_attr op) (op_bitmap op) (split_node op) (dir_entries op) \<noteq> [] then SPLIT_REQUIRED else 0\<rparr>)"
    "\<forall>op'. split_entries op' = split_moved (op_attr op) (op_bitmap op) (split_node op) (dir_entries op) \<and> num_msgs_required op' = m \<and>
       msg_boundaries op' = bs \<longrightarrow> messages op' = Some ess"
    "concat ess = split_moved (op_attr op) (op_bitmap op) (split_node op) (dir_entries op)" "length ess \<le> length bs"
proof -
  let ?mv = "split_moved (op_attr op) (op_bitmap op) (split_node op) (dir_entries op)" and ?C = "length (dir_entries op)"
  let ?k = "?C div PVFS_REQ_LIMIT_NENTRIES_MAX"
  obtain m bs cur where l: "split_loop (op_attr op) (op_bitmap op) (split_node op) (dir_entries op) ([], 1, replicate (Suc ?k) (0, 0), 0) = Some ([] @ ?mv, m, bs, cur)"
    "split_inv ([] @ ?mv, m, bs, cur)" "length bs = length (replicate (Suc ?k) (0 :: nat, 0 :: nat))"
    by (rule split_loop_inv [OF split_inv_start _ assms(3,1), where C = ?C]) simp_all
  obtain ess where e: "messages (op\<lparr>split_entries := ?mv, num_msgs_required := m, msg_boundaries := bs\<rparr>) = Some ess" "concat ess = ?mv" "length ess = m" "m \<le> length bs"
    by (rule messages_parts [of "op\<lparr>split_entries := ?mv, num_msgs_required := m, msg_boundaries := bs\<rparr>" cur]) (use l(2) in simp_all)
  show thesis
  proof (rule that [where m = m and bs = bs and ess = ess])
    show "crdirent_find_split_entries op = Some (op\<lparr>split_entries := ?mv, num_msgs_required := m, msg_boundaries := bs,
        split_status := replicate (length bs) None, error_code := if ?mv \<noteq> [] then SPLIT_REQUIRED else 0\<rparr>)"
      using l(1,3) assms(2) by (simp add: crdirent_find_split_entries_def)
    show "\<forall>op'. split_entries op' = ?mv \<and> num_msgs_required op' = m \<and> msg_boundaries op' = bs \<longrightarrow> messages op' = Some ess"
      using e(1) by (auto simp: messages_def)
  qed (use e in simp_all)
qed

section \<open>The entries of the servers\<close>

definition good_name :: "bytes \<Rightarrow> bool" where
  "good_name n \<longleftrightarrow> 0 \<notin> set n \<and> length n < PVFS_NAME_MAX"

abbreviation dents :: "'db db_lib \<Rightarrow> 'db dirdata \<Rightarrow> bytes \<Rightarrow> bytes option" where
  "dents L d \<equiv> ents L (keyval_db (dd_state d)) (dd_handle d)"

definition store_ok :: "'db db_lib \<Rightarrow> 'db dirdata \<Rightarrow> bool" where
  "store_ok L d \<longleftrightarrow> counted L (keyval_db (dd_state d)) (dd_handle d) \<and> readdir_session (dd_state d) < 2 ^ 16 \<and>
     (\<forall>k v. dents L d k = Some v \<longrightarrow> (\<exists>n. k = n @ [0] \<and> good_name n) \<and> length v = 8)"

definition keyed :: "(bytes \<times> bytes) list \<Rightarrow> (bytes \<times> bytes) list" where
  "keyed es = map (\<lambda>(n, h). (n @ [0], h)) es"

lemma keyed_simps [simp]: "keyed [] = []" "keyed (es @ es') = keyed es @ keyed es'" "length (keyed es) = length es" "map snd (keyed es) = map snd es"
  "fst ` set (keyed es) = (\<lambda>n. n @ [0]) ` fst ` set es"
  by (force simp: keyed_def)+

lemma distinct_keyed [simp]: "distinct (map fst (keyed es)) = distinct (map fst es)"
proof -
  have "map fst (keyed es) = map (\<lambda>n. n @ [0]) (map fst es)" by (simp add: keyed_def case_prod_beta)
  then show ?thesis by (simp add: distinct_map inj_on_def)
qed

lemma map_of_keyed [simp]: "map_of (keyed es) (n @ [0]) = map_of es n"
  by (induction es) (auto simp: keyed_def)

lemma c_str_key [simp]: "good_name n \<Longrightarrow> c_str (n @ [0]) = n"
proof -
  assume "good_name n"
  then have "\<forall>b \<in> set n. b \<noteq> 0" by (auto simp: good_name_def)
  then show ?thesis by (simp add: c_str_def takeWhile_append2)
qed

lemma key_fits: "good_name n \<Longrightarrow> length (n @ [0]) \<le> DBPF_MAX_KEY_LENGTH"
  by (simp add: good_name_def DBPF_MAX_KEY_LENGTH_def)

fun delivered :: "(nat \<Rightarrow> msg_result) \<Rightarrow> nat \<Rightarrow> (bytes \<times> bytes) list list \<Rightarrow> (bytes \<times> bytes) list" where
  "delivered rs i [] = []"
| "delivered rs i (es # ess) = (if executed (rs i) then es else []) @ delivered rs (i + 1) ess"

lemma delivered_subset: "set (delivered rs i ess) \<subseteq> set (concat ess)"
  by (induction ess arbitrary: i) force+

lemma delivered_all: "\<forall>i. executed (rs i) \<Longrightarrow> delivered rs i ess = concat ess"
  by (induction ess arbitrary: i) simp_all

lemma delivered_none: "\<forall>i. \<not> executed (rs i) \<Longrightarrow> delivered rs i ess = []"
  by (induction ess arbitrary: i) simp_all

lemma write_message:
  assumes "db_laws L" "store_ok L d" "distinct (map fst es)" "\<forall>(n, v) \<in> set es. good_name n \<and> length v = 8 \<and> n @ [0] \<notin> dom (dents L d)"
  obtains d' where "mgmt_split_dirent_write_directory_entries L False es d = Some (0, d')" "dents L d' = dents L d ++ map_of (keyed es)"
    "store_ok L d'" "dd_handle d' = dd_handle d" "dd_attr d' = dd_attr d" "dd_bitmap d' = dd_bitmap d"
proof (cases "es = []")
  case True
  then show thesis using that [of d] assms(2) by (simp add: mgmt_split_dirent_write_directory_entries_def)
next
  case False
  let ?db = "keyval_db (dd_state d)" and ?h = "dd_handle d"
  have k: "\<forall>k \<in> set (map fst (keyed es)). length k \<le> DBPF_MAX_KEY_LENGTH" "distinct (map fst (keyed es))"
    using assms(4) key_fits assms(3) by (force, simp)
  obtain db where db: "dbpf_keyval_write_list_op_svc L ?db dirent_flags ?h (keyed es) = Some (DBPF_OP_COMPLETE, db)"
    "ents L db ?h = ents L ?db ?h ++ map_of (keyed es)" "ent_count L db ?h = ent_count L ?db ?h + int (length (keyed es))"
    by (rule write_list_entries [OF assms(1) k])
  let ?d = "d\<lparr>dd_state := (dd_state d)\<lparr>keyval_db := db\<rparr>\<rparr>"
  have dom: "dom (map_of (keyed es)) \<inter> dom (ents L ?db ?h) = {}" using assms(4) by (auto simp: dom_map_of_conv_image_fst)
  have "card (dom (map_of (keyed es))) = length es" using distinct_card [OF k(2)] by (simp add: dom_map_of_conv_image_fst)
  moreover have "dom (ents L db ?h) = dom (map_of (keyed es)) \<union> dom (ents L ?db ?h)" using db(2) by simp
  ultimately have "card (dom (ents L db ?h)) = length es + card (dom (ents L ?db ?h))"
    using card_Un_disjoint [OF finite_dom_map_of finite_ents [OF assms(1)] dom] by simp
  then have "counted L db ?h" using assms(2) db(3) by (simp add: store_ok_def counted_def)
  moreover have "(\<exists>n. k = n @ [0] \<and> good_name n) \<and> length v = 8" if "ents L db ?h k = Some v" for k v
  proof -
    have "ents L ?db ?h k = Some v \<or> (k, v) \<in> set (keyed es)" using that db(2) by (auto dest: map_of_SomeD)
    then show ?thesis using assms(2,4) unfolding store_ok_def keyed_def by fastforce
  qed
  ultimately show thesis
    using that [of ?d] db(1,2) False assms(2) by (simp add: mgmt_split_dirent_write_directory_entries_def keyed_def store_ok_def)
qed

text \<open>The messages of a split write the entries of those that are executed.\<close>

lemma split_xfer_entries:
  assumes "db_laws L" "store_ok L d" "distinct (map fst (concat ess))" "\<forall>(n, v) \<in> set (concat ess). good_name n \<and> length v = 8 \<and> n @ [0] \<notin> dom (dents L d)"
    "\<forall>j. \<exists>s. rs j = Answered s" "i + length ess \<le> length status"
  obtains status' d' where "split_xfer L False rs i ess status d = Some (status', d')" "dents L d' = dents L d ++ map_of (keyed (delivered rs i ess))"
    "store_ok L d'" "dd_handle d' = dd_handle d" "dd_attr d' = dd_attr d" "dd_bitmap d' = dd_bitmap d" "length status' = length status"
  using assms(2-4,6)
proof (induction ess arbitrary: i status d thesis)
  case Nil
  show ?case by (rule Nil(1) [of status d]) (use Nil(2) in simp_all)
next
  case (Cons es ess)
  obtain s where s: "rs i = Answered s" using assms(5) by blast
  define del where "del = (if executed (rs i) then es else [])"
  have del: "distinct (map fst del)" "\<forall>(n, v) \<in> set del. good_name n \<and> length v = 8 \<and> n @ [0] \<notin> dom (dents L d)"
    using Cons.prems(3,4) by (auto simp: del_def)
  obtain d1 where d1: "mgmt_split_dirent_write_directory_entries L False del d = Some (0, d1)" "dents L d1 = dents L d ++ map_of (keyed del)"
    "store_ok L d1" "dd_handle d1 = dd_handle d" "dd_attr d1 = dd_attr d" "dd_bitmap d1 = dd_bitmap d"
    by (rule write_message [OF assms(1) Cons.prems(2) del])
  have w: "(if executed (rs i) then mgmt_split_dirent_write_directory_entries L False es d else Some (0, d)) = Some (0, d1)"
    using d1(1) by (auto simp: del_def mgmt_split_dirent_write_directory_entries_def)
  have dis: "fst ` set es \<inter> fst ` set (concat ess) = {}" "distinct (map fst (concat ess))" using Cons.prems(3) by auto
  have rest: "\<forall>(n, v) \<in> set (concat ess). good_name n \<and> length v = 8 \<and> n @ [0] \<notin> dom (dents L d1)"
  proof (clarify, intro conjI)
    fix n v assume nv: "(n, v) \<in> set (concat ess)"
    then show "good_name n" "length v = 8" using Cons.prems(4) by auto
    have "n \<notin> fst ` set del" using nv dis(1) by (force simp: del_def)
    moreover have "n @ [0] \<notin> dom (dents L d)" using nv Cons.prems(4) by auto
    ultimately show "n @ [0] \<notin> dom (dents L d1)" by (auto simp: d1(2) dom_map_of_conv_image_fst)
  qed
  let ?status = "status[i := Some s]"
  have "i + 1 + length ess \<le> length ?status" using Cons.prems(5) by simp
  then obtain status' d' where r: "split_xfer L False rs (i + 1) ess ?status d1 = Some (status', d')" "dents L d' = dents L d1 ++ map_of (keyed (delivered rs (i + 1) ess))"
    "store_ok L d'" "dd_handle d' = dd_handle d1" "dd_attr d' = dd_attr d1" "dd_bitmap d' = dd_bitmap d1" "length status' = length ?status"
    using Cons.IH [OF _ d1(3) dis(2) rest] by blast
  have "array_set status (int i) (Some s) = Some ?status" using Cons.prems(5) by (simp add: array_set_def)
  then have run: "split_xfer L False rs i (es # ess) status d = Some (status', d')" using w r(1) s by simp
  have "fst ` set (delivered rs (i + 1) ess) \<subseteq> fst ` set (concat ess)" using delivered_subset by blast
  then have "fst ` set del \<inter> fst ` set (delivered rs (i + 1) ess) = {}" using dis(1) by (auto simp: del_def)
  then have "map_of (keyed del) ++ map_of (keyed (delivered rs (i + 1) ess)) = map_of (keyed (delivered rs (i + 1) ess)) ++ map_of (keyed del)"
    by (intro map_add_comm) (auto simp: dom_map_of_conv_image_fst)
  then have comm: "map_of (keyed (delivered rs i (es # ess))) = map_of (keyed del) ++ map_of (keyed (delivered rs (i + 1) ess))"
    unfolding delivered.simps del_def [symmetric] by (simp only: keyed_simps map_of_append)
  have "dents L d' = dents L d ++ map_of (keyed (delivered rs i (es # ess)))" unfolding comm r(2) d1(2) by simp
  then show ?case using Cons.prems(1) [OF run] r(3-7) d1(4-6) by simp
qed

text \<open>All servers hold the entries \<open>F\<close>.\<close>

definition hold :: "'db db_lib \<Rightarrow> 'db directory \<Rightarrow> (nat \<Rightarrow> bytes \<Rightarrow> bytes option) \<Rightarrow> bool" where
  "hold L dir F \<longleftrightarrow> handles_ok dir \<and> (\<forall>i < length (dirdata dir). store_ok L (dirdata dir ! i) \<and> dents L (dirdata dir ! i) = F i)"

lemma hold_update:
  assumes "hold L dir F" "i < length (dirdata dir)" "store_ok L d" "dd_handle d = dd_handle (dirdata dir ! i)" "dents L d = f"
  shows "hold L (dir\<lparr>dirdata := (dirdata dir)[i := d]\<rparr>) (F(i := f))"
proof -
  have "map dd_handle ((dirdata dir)[i := d]) = map dd_handle (dirdata dir)"
    using assms(2,4) list_update_id [of "map dd_handle (dirdata dir)" i] by (simp add: map_update)
  then show ?thesis using assms by (simp add: hold_def handles_ok_def nth_list_update)
qed

lemma hold_meta [simp]: "hold L (dir\<lparr>meta_attr := a, meta_bitmap := b\<rparr>) F = hold L dir F"
  by (simp add: hold_def handles_ok_def)

lemma hold_states:
  assumes "hold L dir F" "length ds = length (dirdata dir)" "map dd_handle ds = map dd_handle (dirdata dir)" "map dd_state ds = map dd_state (dirdata dir)"
  shows "hold L (dir\<lparr>dirdata := ds\<rparr>) F"
proof -
  have "dd_handle (ds ! i) = dd_handle (dirdata dir ! i)" "dd_state (ds ! i) = dd_state (dirdata dir ! i)" if "i < length (dirdata dir)" for i
    using that assms(2) arg_cong [OF assms(3), of "\<lambda>xs. xs ! i"] arg_cong [OF assms(4), of "\<lambda>xs. xs ! i"] by simp_all
  then show ?thesis using assms by (simp add: hold_def handles_ok_def store_ok_def)
qed

text \<open>A directory whose servers know the tree of the metadata object and hold their own entries, and the entries a client finds.\<close>

definition dir_inv :: "'db db_lib \<Rightarrow> 'db directory \<Rightarrow> bool" where
  "dir_inv L dir \<longleftrightarrow> dir_ok (meta_attr dir) (meta_bitmap dir) \<and> num_servers (meta_attr dir) = int (length (dirdata dir)) \<and>
     length (dirdata dir) \<le> 16 \<and> handles_ok dir \<and>
     (\<forall>i < length (dirdata dir). configured (meta_attr dir) (meta_bitmap dir) i (dirdata dir ! i) \<and> store_ok L (dirdata dir ! i) \<and>
        (\<forall>n. n @ [0] \<in> dom (dents L (dirdata dir ! i)) \<longrightarrow> home (meta_attr dir) (meta_bitmap dir) n = Some (int i)))"

definition dir_map :: "'db db_lib \<Rightarrow> 'db directory \<Rightarrow> bytes \<Rightarrow> bytes option" where
  "dir_map L dir n = do {
     i \<leftarrow> home (meta_attr dir) (meta_bitmap dir) n;
     d \<leftarrow> array_get (dirdata dir) i;
     dents L d (n @ [0]) }"

lemma home_server:
  assumes "dir_ok attr bm"
  obtains i where "home attr bm n = Some (int i)" "int i < num_servers attr" "PINT_is_dist_dir_bucket_active attr bm (int i) = Some True"
proof -
  note d = dir_okD [OF assms]
  let ?i = "bucket (active bm) (height attr) (unat (PINT_encrypt_dirdata n))"
  have "?i \<in> active bm" by (rule bucket_active [OF dir_treeD(1) [OF d(4)]])
  moreover have "?i < nat (num_servers attr)" using calculation dir_treeD [OF d(4)] by blast
  ultimately show thesis using that find_bucket [OF assms] is_bucket_active [OF assms] by (metis zless_nat_eq_int_zless)
qed

text \<open>The entries of a directory in terms of those of the servers.\<close>

lemma dir_map_hold:
  assumes "hold L dir F" "home (meta_attr dir) (meta_bitmap dir) n = Some (int i)" "i < length (dirdata dir)"
  shows "dir_map L dir n = F i (n @ [0])"
  using assms by (simp add: dir_map_def array_get_def hold_def)

lemma dir_invI:
  assumes "dir_ok (meta_attr dir) (meta_bitmap dir)" "num_servers (meta_attr dir) = int (length (dirdata dir))" "length (dirdata dir) \<le> 16" "hold L dir F"
    "\<And>i. i < length (dirdata dir) \<Longrightarrow> configured (meta_attr dir) (meta_bitmap dir) i (dirdata dir ! i)"
    "\<And>i n. i < length (dirdata dir) \<Longrightarrow> n @ [0] \<in> dom (F i) \<Longrightarrow> home (meta_attr dir) (meta_bitmap dir) n = Some (int i)"
  shows "dir_inv L dir"
  using assms unfolding dir_inv_def hold_def by metis

lemma dir_invD:
  assumes "dir_inv L dir"
  shows "dir_ok (meta_attr dir) (meta_bitmap dir)" "num_servers (meta_attr dir) = int (length (dirdata dir))" "length (dirdata dir) \<le> 16"
    "hold L dir (\<lambda>i. dents L (dirdata dir ! i))"
    "i < length (dirdata dir) \<Longrightarrow> configured (meta_attr dir) (meta_bitmap dir) i (dirdata dir ! i)"
    "i < length (dirdata dir) \<Longrightarrow> n @ [0] \<in> dom (dents L (dirdata dir ! i)) \<Longrightarrow> home (meta_attr dir) (meta_bitmap dir) n = Some (int i)"
  using assms unfolding dir_inv_def hold_def by blast+

lemma configured_cong [simp]: "configured (for_server attr j m) bm i d = configured attr bm i d" "configured (attr\<lparr>branch_level := m\<rparr>) bm i d = configured attr bm i d"
  "configured (attr\<lparr>server_no := k\<rparr>) bm i d = configured attr bm i d"
  by (simp_all add: configured_def)

section \<open>Runs\<close>

definition reaches :: "'db db_lib \<Rightarrow> (pcache \<Rightarrow> pcache) \<Rightarrow> (crdirent_state \<Rightarrow> step_input) \<Rightarrow> nat \<Rightarrow> crdirent_op \<times> 'db directory
    \<Rightarrow> crdirent_op \<times> 'db directory \<Rightarrow> bool" where
  "reaches L evict env n s s' \<longleftrightarrow> (\<exists>m \<le> n. crdirent_run L evict env m s = Some s')"

lemma run_add: "crdirent_run L evict env (m + k) s = Option.bind (crdirent_run L evict env m s) (crdirent_run L evict env k)"
  by (induction m arbitrary: s) (simp_all split: Option.bind_split)

lemma reaches_trans: "reaches L evict env a s s' \<Longrightarrow> reaches L evict env b s' s'' \<Longrightarrow> a + b \<le> c \<Longrightarrow> reaches L evict env c s s''"
  unfolding reaches_def by (elim exE conjE, rule_tac x = "m + ma" in exI) (simp add: run_add)

lemma reaches_refl: "reaches L evict env n s s"
  unfolding reaches_def by (intro exI [of _ 0]) simp

lemma reaches_step:
  assumes "crdirent_action L evict (env (op_state op)) (op_state op) op dir = Some (op', dir')" "next_state (op_state op) (error_code op') = st"
    "reaches L evict env n (op'\<lparr>op_state := st\<rparr>, dir') s'" "0 < k" "n \<le> k - 1"
  shows "reaches L evict env k (op, dir) s'"
proof -
  obtain m where "m \<le> n" "crdirent_run L evict env m (op'\<lparr>op_state := st\<rparr>, dir') = Some s'" using assms(3) unfolding reaches_def by blast
  then show ?thesis using assms(1,2,4,5) unfolding reaches_def by (intro exI [of _ "Suc m"]) (simp add: crdirent_step_def)
qed

lemma return_stays: "op_state op = Return \<Longrightarrow> crdirent_run L evict env k (op, dir) = Some (op, dir)"
  by (cases op, induction k) (simp_all add: crdirent_step_def)

lemma reaches_run:
  assumes "reaches L evict env n s (op, dir)" "op_state op = Return" "n \<le> k"
  shows "crdirent_run L evict env k s = Some (op, dir)"
proof -
  obtain m where m: "m \<le> n" "crdirent_run L evict env m s = Some (op, dir)" using assms(1) unfolding reaches_def by blast
  then show ?thesis using run_add [of L evict env m "k - m" s] assms(2,3) return_stays by simp
qed

text \<open>Jobs and messages succeed; the messages of a split are answered with \<open>e\<close>.\<close>

definition answering :: "int \<Rightarrow> (crdirent_state \<Rightarrow> step_input) \<Rightarrow> bool" where
  "answering e env \<longleftrightarrow> (\<forall>st. job_error (env st) = 0 \<and> (\<forall>i. replies (env st) i = Answered (if st = Split_xfer_msgpair then e else 0)))"

lemma answeringD: "answering e env \<Longrightarrow> job_error (env st) = 0" "answering e env \<Longrightarrow> replies (env st) i = Answered (if st = Split_xfer_msgpair then e else 0)"
  by (simp_all add: answering_def)

lemma array_get_nth [simp]: "i < length xs \<Longrightarrow> array_get xs (int i) = Some (xs ! i)"
  by (simp add: array_get_def)

lemma home_cong [simp]: "PINT_find_dist_dir_bucket hash (attr\<lparr>server_no := j\<rparr>) bm = PINT_find_dist_dir_bucket hash attr bm"
  by (simp add: PINT_find_dist_dir_bucket_def)

lemmas run_simps = eval_nat_numeral crdirent_step_def crdirent_code_defs

lemma first_error_0: "\<forall>x \<in> set xs. x = 0 \<Longrightarrow> first_error xs = 0"
  by (induction xs) simp_all

text \<open>The states up to the validation.\<close>

lemma reaches_validate:
  assumes "dir_inv L dir" "answering e env" "op_server op = s" "s < length (dirdata dir)" "op_state op = Setup_op" "0x2f \<notin> set (op_name op)"
  obtains op' where "reaches L evict env 4 (op, dir) (op', dir)" "op_attr op' = dd_attr (dirdata dir ! s)" "op_bitmap op' = meta_bitmap dir"
    "op_server op' = s" "op_name op' = op_name op" "op_new_handle op' = op_new_handle op"
    "if home (meta_attr dir) (meta_bitmap dir) (op_name op) = Some (int s) then op_state op' = Write_directory_entry \<and> error_code op' = 0
     else op_state op' = Validation_dirdata_mismatch"
proof -
  note i = dir_invD [OF assms(1)]
  obtain l where c: "dd_bitmap (dirdata dir ! s) = meta_bitmap dir" "dd_attr (dirdata dir ! s) = for_server (meta_attr dir) s l"
    using i(5) [OF assms(4)] unfolding configured_def by blast
  obtain j where j: "home (meta_attr dir) (meta_bitmap dir) (op_name op) = Some (int j)" by (rule home_server [OF i(1)])
  have pos: "0 < num_servers (meta_attr dir)" "0 < bitmap_size (meta_attr dir)" using i(1) by (auto simp: dir_ok_def)
  let ?e = "if j = s then 0 else INVALID_DIRDATA"
  let ?op = "op\<lparr>op_attr := dd_attr (dirdata dir ! s), op_bitmap := meta_bitmap dir, error_code := ?e, op_state := next_state Validate ?e\<rparr>"
  show thesis
  proof (rule that [of ?op])
    show "reaches L evict env 4 (op, dir) (?op, dir)"
      unfolding reaches_def
      by (intro exI [of _ 4]) (simp add: run_simps assms(3-6) answeringD [OF assms(2)] crdirent_get_dist_dir_attr_def
        crdirent_get_bitmap_and_dirdata_handles_def crdirent_validate_def c j pos)
  qed (simp_all add: assms(3) j INVALID_DIRDATA_def INVALID_OBJECT_def)
qed

text \<open>Writing the entry, up to the count of the entries.\<close>

lemma hold_handle: "hold L dir F \<Longrightarrow> i < length (dirdata dir) \<Longrightarrow> dd_handle (dirdata dir ! i) \<noteq> 0"
  by (force simp: hold_def handles_ok_def)

lemma store_ok_insert:
  assumes "store_ok L d" "ents L db (dd_handle d) = (dents L d)(n @ [0] \<mapsto> v)" "counted L db (dd_handle d)" "good_name n" "length v = 8"
  shows "store_ok L (d\<lparr>dd_state := (dd_state d)\<lparr>keyval_db := db\<rparr>\<rparr>)"
  using assms by (auto simp: store_ok_def split: if_splits)

lemma inv_insert:
  assumes "dir_inv L dir" "s < length (dirdata dir)" "home (meta_attr dir) (meta_bitmap dir) n = Some (int s)" "store_ok L d"
    "dd_handle d = dd_handle (dirdata dir ! s)" "dd_attr d = dd_attr (dirdata dir ! s)" "dd_bitmap d = dd_bitmap (dirdata dir ! s)"
    "dents L d = (dents L (dirdata dir ! s))(n @ [0] \<mapsto> v)"
  shows "dir_inv L (dir\<lparr>dirdata := (dirdata dir)[s := d]\<rparr>)" "dir_map L (dir\<lparr>dirdata := (dirdata dir)[s := d]\<rparr>) = (dir_map L dir)(n \<mapsto> v)"
proof -
  note i = dir_invD [OF assms(1)]
  let ?dir = "dir\<lparr>dirdata := (dirdata dir)[s := d]\<rparr>" and ?F = "\<lambda>i. dents L (dirdata dir ! i)"
  have h: "hold L ?dir (?F(s := (?F s)(n @ [0] \<mapsto> v)))" by (rule hold_update [OF i(4) assms(2,4,5,8)])
  have c: "configured (meta_attr dir) (meta_bitmap dir) s d" using i(5) [OF assms(2)] assms(6,7) by (simp add: configured_def)
  show "dir_inv L ?dir"
  proof (rule dir_invI [OF _ _ _ h])
    show "configured (meta_attr ?dir) (meta_bitmap ?dir) j (dirdata ?dir ! j)" if "j < length (dirdata ?dir)" for j
      using that c i(5) [of j] assms(2) by (auto simp: nth_list_update)
    show "home (meta_attr ?dir) (meta_bitmap ?dir) m = Some (int j)"
      if "j < length (dirdata ?dir)" "m @ [0] \<in> dom ((?F(s := (?F s)(n @ [0] \<mapsto> v))) j)" for j m
      using that i(6) [of j m] assms(2,3) by (auto split: if_splits)
  qed (use i(1-3) in simp_all)
  show "dir_map L ?dir = (dir_map L dir)(n \<mapsto> v)"
  proof
    fix m
    obtain j where j: "home (meta_attr dir) (meta_bitmap dir) m = Some (int j)" "int j < num_servers (meta_attr dir)" by (rule home_server [OF i(1)])
    have lj: "j < length (dirdata dir)" using j(2) i(2) by simp
    have "dir_map L ?dir m = (?F(s := (?F s)(n @ [0] \<mapsto> v))) j (m @ [0])" by (rule dir_map_hold [OF h]) (use j(1) lj in simp_all)
    moreover have "dir_map L dir m = ?F j (m @ [0])" by (rule dir_map_hold [OF i(4) j(1) lj])
    ultimately show "dir_map L ?dir m = ((dir_map L dir)(n \<mapsto> v)) m" using j(1) assms(3) by auto
  qed
qed

lemma eexist: "TROVE_EEXIST \<noteq> - 1" "TROVE_EEXIST \<noteq> 0"
  by (simp_all add: keyval_code_defs)

lemma reaches_write:
  assumes "db_laws L" "dir_inv L dir" "answering e env" "s < length (dirdata dir)" "op_server op = s" "op_state op = Write_directory_entry"
    "good_name (op_name op)" "length (op_new_handle op) = 8" "home (meta_attr dir) (meta_bitmap dir) (op_name op) = Some (int s)"
  obtains (exists) op' where "dir_map L dir (op_name op) \<noteq> None" "reaches L evict env 1 (op, dir) (op', dir)" "op_state op' = Return" "error_code op' = - TROVE_EEXIST"
  | (new) dir' where "dir_map L dir (op_name op) = None" "dir_inv L dir'" "dir_map L dir' = (dir_map L dir)(op_name op \<mapsto> op_new_handle op)"
    "reaches L evict env 5 (op, dir) (op\<lparr>error_code := 0, op_state := Check_for_split, dirent_count := int (card (dom (dents L (dirdata dir' ! s))))\<rparr>, dir')"
    "meta_attr dir' = meta_attr dir" "meta_bitmap dir' = meta_bitmap dir" "length (dirdata dir') = length (dirdata dir)"
    "dd_attr (dirdata dir' ! s) = dd_attr (dirdata dir ! s)"
    "dents L (dirdata dir' ! s) = (dents L (dirdata dir ! s))(op_name op @ [0] \<mapsto> op_new_handle op)"
proof -
  note i = dir_invD [OF assms(2)]
  let ?d = "dirdata dir ! s" and ?n = "op_name op @ [0]"
  have st: "store_ok L ?d" using i(4) assms(4) by (simp add: hold_def)
  then have cnt: "counted L (keyval_db (dd_state ?d)) (dd_handle ?d)" by (simp add: store_ok_def)
  have h: "dd_handle ?d \<noteq> 0" by (rule hold_handle [OF i(4) assms(4)])
  have m: "dir_map L dir (op_name op) = dents L ?d ?n" by (rule dir_map_hold [OF i(4) assms(9,4)])
  show thesis
  proof (cases rule: write_entry [OF assms(1) cnt key_fits [OF assms(7)], where v = "op_new_handle op", case_names ex nw])
    case ex
    have "(dirdata dir)[s := ?d\<lparr>dd_state := (dd_state ?d)\<lparr>keyval_db := keyval_db (dd_state ?d)\<rparr>\<rparr>] = dirdata dir" by simp
    then have "crdirent_write_directory_entry L op dir = Some (op\<lparr>error_code := - TROVE_EEXIST\<rparr>, dir)"
      using ex(2) h assms(4,5) by (simp add: crdirent_write_directory_entry_def update_dirdata_def eexist)
    then have "reaches L evict env 1 (op, dir) (op\<lparr>error_code := - TROVE_EEXIST, op_state := Return\<rparr>, dir)"
      unfolding reaches_def using assms(6) by (intro exI [of _ 1]) (simp add: run_simps eexist)
    then show thesis using exists ex(1) m by auto
  next
    case (nw db)
    let ?d' = "?d\<lparr>dd_state := (dd_state ?d)\<lparr>keyval_db := db\<rparr>\<rparr>"
    let ?dir = "dir\<lparr>dirdata := (dirdata dir)[s := ?d']\<rparr>"
    have st': "store_ok L ?d'" by (rule store_ok_insert [OF st nw(3,4) assms(7,8)])
    have inv: "dir_inv L ?dir" "dir_map L ?dir = (dir_map L dir)(op_name op \<mapsto> op_new_handle op)"
      by (rule inv_insert [OF assms(2,4,9) st'], simp_all add: nw(3))+
    have w: "crdirent_write_directory_entry L op dir = Some (op\<lparr>error_code := 0\<rparr>, ?dir)"
      using nw(2) h assms(4,5) by (simp add: crdirent_write_directory_entry_def update_dirdata_def)
    have "ents L db (dd_handle ?d) \<noteq> Map.empty" using nw(3) by auto
    then have "dbpf_keyval_get_handle_info_op_svc L db (dd_handle ?d) = (1, Some (int (card (dom (ents L db (dd_handle ?d))))))"
      using handle_info_counted [OF assms(1) nw(4)] by auto
    then have c: "crdirent_get_dirent_count L (op'\<lparr>op_state := st\<rparr>) ?dir = Some (op'\<lparr>op_state := st, error_code := 0, dirent_count := int (card (dom (ents L db (dd_handle ?d))))\<rparr>)"
      if "op_server op' = s" for op' st
      using that assms(4) by (simp add: crdirent_get_dirent_count_def)
    have "reaches L evict env 5 (op, dir) (op\<lparr>error_code := 0, op_state := Check_for_split, dirent_count := int (card (dom (dents L (dirdata ?dir ! s))))\<rparr>, ?dir)"
      unfolding reaches_def using assms(4)
      by (intro exI [of _ 5]) (simp add: run_simps assms(5,6) w answeringD [OF assms(3)] c)
    then show thesis using nw(1,3) m assms(4) by (intro new [OF _ inv]) auto
  qed
qed

text \<open>The states that tell the servers about the new tree.\<close>

definition knows :: "'db db_lib \<Rightarrow> PVFS_dist_dir_attr \<Rightarrow> PVFS_dist_dir_bitmap \<Rightarrow> (nat \<Rightarrow> bytes \<Rightarrow> bytes option) \<Rightarrow> nat \<Rightarrow> nat set \<Rightarrow> 'db directory \<Rightarrow> bool" where
  "knows L attr bm F n I dir \<longleftrightarrow> hold L dir F \<and> length (dirdata dir) = n \<and> (\<forall>i \<in> I. configured attr bm i (dirdata dir ! i))"

definition tree_ok :: "PVFS_dist_dir_attr \<Rightarrow> PVFS_dist_dir_bitmap \<Rightarrow> nat \<Rightarrow> nat \<Rightarrow> bool" where
  "tree_ok attr bm n s \<longleftrightarrow> dir_ok attr bm \<and> num_servers attr = int n \<and> n \<le> 16 \<and> server_no attr = int s \<and> s < n \<and>
     dist_dir_calc_branch_level attr bm = Some (branch_level attr)"

lemma tree_setattr_knows:
  assumes "tree_ok attr bm n s" "knows L attr bm F n I dir" "\<forall>i \<in> set is. i < n"
  obtains dir' where "tree_setattr attr bm is dir = Some dir'" "knows L attr bm F n (I \<union> set is) dir'" "meta_attr dir' = meta_attr dir" "meta_bitmap dir' = meta_bitmap dir"
proof -
  have a: "dir_ok attr bm" "num_servers attr \<le> 16" "0 \<le> server_no attr" "server_no attr < num_servers attr" "num_servers attr = int (length (dirdata dir))"
    "handles_ok dir" "\<forall>i \<in> set is. i < length (dirdata dir)"
    using assms by (simp_all add: tree_ok_def knows_def hold_def)
  obtain ds where ds: "tree_setattr attr bm is dir = Some (dir\<lparr>dirdata := ds\<rparr>)" "length ds = length (dirdata dir)"
    "map dd_handle ds = map dd_handle (dirdata dir)" "map dd_state ds = map dd_state (dirdata dir)"
    "\<And>i. i \<in> set is \<Longrightarrow> configured attr bm i (ds ! i)" "\<And>i. i \<notin> set is \<Longrightarrow> ds ! i = dirdata dir ! i"
    using tree_setattr_configures [OF a] by blast
  have "configured attr bm i (ds ! i)" if "i \<in> I \<union> set is" for i
    using that ds(5,6) [of i] assms(2) by (cases "i \<in> set is") (auto simp: knows_def)
  then have "knows L attr bm F n (I \<union> set is) (dir\<lparr>dirdata := ds\<rparr>)"
    using hold_states [OF _ ds(2-4)] assms(2) ds(2) by (simp add: knows_def)
  then show thesis using that ds(1) by simp
qed

lemma save_knows:
  assumes "tree_ok attr bm n s" "knows L attr bm F n I dir"
  obtains dir' where "crdirent_save_dirdata_attrs attr bm s dir = Some dir'" "knows L attr bm F n (insert s I) dir'"
    "meta_attr dir' = meta_attr dir" "meta_bitmap dir' = meta_bitmap dir"
proof -
  let ?d = "(dirdata dir ! s)\<lparr>dd_attr := attr, dd_bitmap := bm\<rparr>"
  let ?dir = "dir\<lparr>dirdata := (dirdata dir)[s := ?d]\<rparr>"
  have s: "s < length (dirdata dir)" using assms by (simp add: tree_ok_def knows_def)
  have "F s = dents L (dirdata dir ! s)" "store_ok L ?d" using assms(2) s by (simp_all add: knows_def hold_def store_ok_def)
  then have "hold L ?dir (F(s := F s))" using assms(2) s by (intro hold_update) (simp_all add: knows_def)
  moreover have eq: "for_server attr s (branch_level attr) = attr" using assms(1) by (simp add: tree_ok_def)
  have "dist_dir_calc_branch_level (for_server attr s (branch_level attr)) bm = Some (branch_level attr)" "dd_attr ?d = for_server attr s (branch_level attr)"
    unfolding eq using assms(1) by (simp_all add: tree_ok_def)
  then have "configured attr bm s ?d" unfolding configured_def by auto
  then have "configured attr bm i (dirdata ?dir ! i)" if "i \<in> insert s I" for i
    using that assms(2) s by (cases "i = s") (auto simp: knows_def)
  ultimately have "knows L attr bm F n (insert s I) ?dir" using assms(2) by (simp add: knows_def)
  then show thesis using that [of ?dir] s by (simp add: crdirent_save_dirdata_attrs_def update_dirdata_def)
qed

lemma reaches_configure:
  assumes "tree_ok (op_attr op) (op_bitmap op) n s" "hold L dir F" "length (dirdata dir) = n" "answering e env" "op_server op = s" "split_node op = int t" "t < n"
    "op_state op = Activate_server_setup"
  obtains dir' l where "reaches L evict env 7 (op, dir) (op\<lparr>error_code := 0, op_state := Remove_local_copies\<rparr>, dir')"
    "knows L (op_attr op) (op_bitmap op) F n {..<n} dir'" "meta_attr dir' = (op_attr op)\<lparr>branch_level := l\<rparr>" "meta_bitmap dir' = op_bitmap op"
proof -
  let ?A = "op_attr op" and ?B = "op_bitmap op"
  let ?at = "\<lambda>st. op\<lparr>error_code := 0, op_state := st\<rparr>"
  have "knows L ?A ?B F n {} dir" using assms(2,3) by (simp add: knows_def)
  then obtain d1 where d1: "tree_setattr ?A ?B [t] dir = Some d1" "knows L ?A ?B F n {t} d1"
    using tree_setattr_knows [OF assms(1), of L F "{}" dir "[t]"] assms(7) by auto
  obtain d2 where d2: "crdirent_save_dirdata_attrs ?A ?B s d1 = Some d2" "knows L ?A ?B F n {s, t} d2"
    by (rule save_knows [OF assms(1) d1(2)])
  have r1: "reaches L evict env 3 (op, dir) (?at Update_metahandle_attrs, d2)"
    unfolding reaches_def by (intro exI [of _ 3]) (simp add: run_simps assms(5,6,8) answeringD [OF assms(4)] activate_xfer_def d1(1) d2(1) del: tree_setattr.simps)
  obtain d3 l where d3: "reaches L evict env 2 (?at Update_metahandle_attrs, d2) (?at Notify_dirdata_servers_setup, d3)"
    "knows L ?A ?B F n {s, t} d3" "meta_attr d3 = ?A\<lparr>branch_level := l\<rparr>" "meta_bitmap d3 = ?B"
  proof (cases "parent_remote op")
    case False
    have "reaches L evict env 2 (?at Update_metahandle_attrs, d2) (?at Notify_dirdata_servers_setup, d2\<lparr>meta_attr := ?A, meta_bitmap := ?B\<rparr>)"
      unfolding reaches_def using False by (intro exI [of _ 1]) (simp add: run_simps crdirent_update_metahandle_attrs_def)
    moreover have "knows L ?A ?B F n {s, t} (d2\<lparr>meta_attr := ?A, meta_bitmap := ?B\<rparr>)" using d2(2) by (simp add: knows_def)
    ultimately show thesis by (rule that [where l = "branch_level ?A"]) simp_all
  next
    case True
    obtain d where d: "tree_setattr ?A ?B [0..<n] d2 = Some d" "knows L ?A ?B F n ({s, t} \<union> set [0..<n]) d"
      using tree_setattr_knows [OF assms(1) d2(2), of "[0..<n]"] by auto
    have "dir_ok ?A ?B" "num_servers ?A \<le> 16" "0 \<le> server_no ?A" "server_no ?A < num_servers ?A" using assms(1) by (simp_all add: tree_ok_def)
    then obtain l where l: "PINT_update_dist_dir_bitmap_from_bitmap ?A ?B ?B = Some (0, ?A\<lparr>branch_level := l\<rparr>, ?B)" by (rule update_self)
    have "reaches L evict env 2 (?at Update_metahandle_attrs, d2) (?at Notify_dirdata_servers_setup, d\<lparr>meta_attr := ?A\<lparr>branch_level := l\<rparr>, meta_bitmap := ?B\<rparr>)"
      unfolding reaches_def using True d2(2) d(1) l
      by (intro exI [of _ 2]) (simp add: run_simps crdirent_update_metahandle_attrs_def answeringD [OF assms(4)] metahandle_xfer_def knows_def)
    moreover have "knows L ?A ?B F n {s, t} (d\<lparr>meta_attr := ?A\<lparr>branch_level := l\<rparr>, meta_bitmap := ?B\<rparr>)" using d(2) by (simp add: knows_def)
    ultimately show thesis by (rule that) simp_all
  qed
  let ?rest = "remote_dirdata_handles op d3"
  have rest: "set ?rest \<union> {s, t} = {..<n}" "remote_dirdata_handles (op\<lparr>error_code := c, op_state := st\<rparr>) d3 = ?rest" "\<forall>i \<in> set ?rest. i < n" for c st
    using d3(2) assms(1,5-7) by (auto simp: remote_dirdata_handles_def knows_def tree_ok_def)
  obtain d4 where d4: "tree_setattr ?A ?B ?rest d3 = Some d4" "knows L ?A ?B F n ({s, t} \<union> set ?rest) d4" "meta_attr d4 = meta_attr d3" "meta_bitmap d4 = meta_bitmap d3"
    by (rule tree_setattr_knows [OF assms(1) d3(2) rest(3)])
  have r3: "reaches L evict env 2 (?at Notify_dirdata_servers_setup, d3) (?at Remove_local_copies, d4)"
  proof (cases "?rest = []")
    case True
    then have "d4 = d3" using d4(1) by simp
    then show ?thesis unfolding reaches_def using True rest(2) by (intro exI [of _ 1]) (simp add: run_simps)
  next
    case False
    then show ?thesis
      unfolding reaches_def using rest(2) d4(1)
      by (intro exI [of _ 2]) (simp add: run_simps answeringD [OF assms(4)] notify_xfer_def)
  qed
  have "reaches L evict env 7 (op, dir) (?at Remove_local_copies, d4)"
    by (rule reaches_trans [OF r1 reaches_trans [OF d3(1) r3, where c = 4]]) simp_all
  moreover have "{s, t} \<union> set ?rest = {..<n}" using rest(1) by blast
  ultimately show thesis using that d4(2-4) d3(3,4) by simp
qed

text \<open>Reading all entries of the server.\<close>

lemma retrieve:
  assumes "db_laws L" "hold L dir F" "s < length (dirdata dir)" "op_server op = s" "dirent_count op = int (card (dom (F s)))" "F s \<noteq> Map.empty"
  obtains es d where "crdirent_retrieve_dir_entries L evict op dir =
      Some (op\<lparr>error_code := 0, dir_entries := keyed es\<rparr>, dir\<lparr>dirdata := (dirdata dir)[s := d]\<rparr>)"
    "hold L (dir\<lparr>dirdata := (dirdata dir)[s := d]\<rparr>) F" "dd_attr d = dd_attr (dirdata dir ! s)" "dd_bitmap d = dd_bitmap (dirdata dir ! s)" "distinct (map fst es)" "map_of (keyed es) = F s" "int (length es) = dirent_count op"
    "\<forall>(n, v) \<in> set es. good_name n \<and> length v = 8 \<and> F s (n @ [0]) = Some v"
proof -
  let ?d = "dirdata dir ! s"
  let ?db = "keyval_db (dd_state ?d)" and ?h = "dd_handle ?d"
  let ?A = "dirents L ?db ?h"
  have st: "store_ok L ?d" "dents L ?d = F s" using assms(2,3) by (simp_all add: hold_def)
  have key: "\<exists>n. key a = n @ [0] \<and> good_name n" "length (val_of L ?db a) = 8" if "a \<in> set ?A" for a
    using that in_dirents [OF assms(1)] st(1) unfolding store_ok_def by fastforce+
  have names: "names_ok L ?db ?h" using key(1) by (fastforce simp: names_ok_def good_name_def)
  have len: "length ?A = card (dom (F s))" using length_dirents [OF assms(1)] st(2) by metis
  have "card (dom (F s)) \<noteq> 0" using finite_ents [OF assms(1), of ?db ?h] assms(6) st(2) by simp
  then have "0 < length ?A" using len by simp
  then obtain st' where it: "dbpf_keyval_iterate_op_svc L evict (dd_state ?d) readdir_flags ?h PVFS_NAME_MAX 8 (length ?A) TROVE_ITERATE_START =
      Some (1, next_pos (dd_state ?d) (length ?A) TROVE_ITERATE_START, map (entry_of L ?db 8) ?A, st')"
    "keyval_db st' = ?db" "readdir_session (dd_state ?d) < 2 ^ 16 \<longrightarrow> readdir_session st' < 2 ^ 16"
    using svc_page(1) [OF refl names order_refl _ _ start_at [OF assms(1) names], of "length ?A" evict] by (auto simp: TROVE_ITERATE_START_def TROVE_ITERATE_END_def)
  define es where "es = map (\<lambda>a. (c_str (key a), val_of L ?db a)) ?A"
  have read: "map (entry_of L ?db 8) ?A = keyed es" using key by (fastforce simp: es_def keyed_def)
  let ?d' = "?d\<lparr>dd_state := st'\<rparr>"
  have "store_ok L ?d'" "dents L ?d' = F s" using st it(2,3) by (simp_all add: store_ok_def)
  then have h: "hold L (dir\<lparr>dirdata := (dirdata dir)[s := ?d']\<rparr>) (F(s := F s))" by (intro hold_update [OF assms(2,3)]) simp_all
  have dis: "distinct (map fst (keyed es))" using distinct_dirents [OF assms(1), of ?db ?h] by (simp add: read [symmetric] comp_def)
  have F: "map_of (keyed es) k = F s k" for k
  proof -
    have "map_of (keyed es) k = map_option (take 8) (F s k)" unfolding read [symmetric] map_of_dirents [OF assms(1)] st(2) by simp
    moreover have "\<forall>v. F s k = Some v \<longrightarrow> length v = 8" using st unfolding store_ok_def by metis
    ultimately show ?thesis by (cases "F s k") auto
  qed
  have all: "good_name n \<and> length v = 8 \<and> F s (n @ [0]) = Some v" if "(n, v) \<in> set es" for n v
  proof -
    have "(n @ [0], v) \<in> set (keyed es)" using that by (force simp: keyed_def)
    then have "F s (n @ [0]) = Some v" using F dis by (metis map_of_eq_Some_iff)
    then show ?thesis using st unfolding store_ok_def by (metis append1_eq_conv)
  qed
  show thesis
  proof (rule that)
    show "crdirent_retrieve_dir_entries L evict op dir = Some (op\<lparr>error_code := 0, dir_entries := keyed es\<rparr>, dir\<lparr>dirdata := (dirdata dir)[s := ?d']\<rparr>)"
      using assms(3-5) it(1) len read by (simp add: crdirent_retrieve_dir_entries_def update_dirdata_def)
    show "map_of (keyed es) = F s" using F by blast
    show "\<forall>(n, v) \<in> set es. good_name n \<and> length v = 8 \<and> F s (n @ [0]) = Some v" using all by blast
    show "int (length es) = dirent_count op" using len assms(5) by (simp add: es_def)
  qed (use h dis in simp_all)
qed

text \<open>Removing the entries that have moved.\<close>

lemma remove_list_flags: "dbpf_keyval_remove_list_op_svc L db [TROVE_SYNC, TROVE_KEYVAL_HANDLE_COUNT, TROVE_KEYVAL_DIRECTORY_ENTRY] h ks =
    dbpf_keyval_remove_list_op_svc L db dirent_flags h ks"
  by (simp add: dbpf_keyval_remove_list_op_svc_def dirent_flags_def key_type_def)

lemma remove_local:
  assumes "db_laws L" "hold L dir F" "s < length (dirdata dir)" "op_server op = s" "\<forall>(n, v) \<in> set (split_entries op). good_name n"
  obtains d where "crdirent_remove_local_copies L op dir = Some (op\<lparr>error_code := 0\<rparr>, dir\<lparr>dirdata := (dirdata dir)[s := d]\<rparr>)"
    "hold L (dir\<lparr>dirdata := (dirdata dir)[s := d]\<rparr>) (F(s := F s |` (- (\<lambda>n. n @ [0]) ` fst ` set (split_entries op))))"
    "dd_attr d = dd_attr (dirdata dir ! s)" "dd_bitmap d = dd_bitmap (dirdata dir ! s)"
proof -
  let ?d = "dirdata dir ! s" and ?ks = "map (\<lambda>(n, h). (n @ [0], Some (8 :: nat))) (split_entries op)"
  have st: "store_ok L ?d" "dents L ?d = F s" using assms(2,3) by (simp_all add: hold_def)
  then have cnt: "counted L (keyval_db (dd_state ?d)) (dd_handle ?d)" by (simp add: store_ok_def)
  have ks: "\<forall>(k, n) \<in> set ?ks. length k \<le> DBPF_MAX_KEY_LENGTH" using assms(5) key_fits by force
  obtain errs db where r: "dbpf_keyval_remove_list_op_svc L (keyval_db (dd_state ?d)) dirent_flags (dd_handle ?d) ?ks = Some (DBPF_OP_COMPLETE, errs, db)"
    "ents L db (dd_handle ?d) = dents L ?d |` (- fst ` set ?ks)" "counted L db (dd_handle ?d)"
    by (rule remove_list_entries [OF assms(1) cnt ks])
  let ?d' = "?d\<lparr>dd_state := (dd_state ?d)\<lparr>keyval_db := db\<rparr>\<rparr>"
  have im: "fst ` set ?ks = (\<lambda>n. n @ [0]) ` fst ` set (split_entries op)" by force
  have "store_ok L ?d'" using st(1) r(2,3) by (auto simp: store_ok_def restrict_map_def split: if_splits)
  then have "hold L (dir\<lparr>dirdata := (dirdata dir)[s := ?d']\<rparr>) (F(s := F s |` (- (\<lambda>n. n @ [0]) ` fst ` set (split_entries op))))"
    using r(2) unfolding im st(2) by (intro hold_update [OF assms(2,3)]) simp_all
  then show thesis using that [of ?d'] assms(3,4) r(1) by (simp add: crdirent_remove_local_copies_def update_dirdata_def remove_list_flags)
qed

text \<open>The tree after a split.\<close>

lemma split_directory:
  assumes "dir_inv L dir" "s < length (dirdata dir)" "PINT_is_dist_dir_bucket_active (meta_attr dir) (meta_bitmap dir) (int s) = Some True"
  obtains t attr' bm' where "PINT_find_dist_dir_split_node (dd_attr (dirdata dir ! s)) (meta_bitmap dir) = Some (t, attr', bm')"
    "t < 0 \<or> (\<exists>m. attr' = for_server (meta_attr dir) s m) \<and> t < int (length (dirdata dir)) \<and> t \<noteq> int s \<and> tree_ok attr' bm' (length (dirdata dir)) s \<and>
      (\<forall>n. home (meta_attr dir) bm' n \<noteq> Some t \<longrightarrow> home (meta_attr dir) bm' n = home (meta_attr dir) (meta_bitmap dir) n) \<and>
      (\<forall>n. home (meta_attr dir) bm' n = Some t \<longrightarrow> home (meta_attr dir) (meta_bitmap dir) n = Some (int s)) \<and>
      (\<forall>n. home (meta_attr dir) (meta_bitmap dir) n \<noteq> Some t)"
proof -
  note i = dir_invD [OF assms(1)]
  let ?A = "meta_attr dir" and ?B = "meta_bitmap dir"
  obtain l where c: "dd_attr (dirdata dir ! s) = for_server ?A s l" "dist_dir_calc_branch_level (for_server ?A s l) ?B = Some l"
    using i(5) [OF assms(2)] unfolding configured_def by blast
  have ok: "dir_ok (for_server ?A s l) ?B" using i(1) by simp
  have "PINT_is_dist_dir_bucket_active (for_server ?A s l) ?B (int s) = Some True"
    using assms(3) is_bucket_active [OF i(1)] is_bucket_active [OF ok] by simp
  then have n: "case PINT_find_dist_dir_split_node (for_server ?A s l) ?B of None \<Rightarrow> 16 < num_servers ?A \<and> l + 1 = tree_height ?A
    | Some (new, attr', bitmap') \<Rightarrow>
        if l \<ge> tree_height ?A \<or> int s + 2 ^ nat l \<ge> num_servers ?A then new = - 1 \<and> attr' = for_server ?A s l \<and> bitmap' = ?B
        else new = int s + 2 ^ nat l \<and> attr' = for_server ?A s (l + 1) \<and> dir_ok attr' bitmap' \<and> dist_dir_calc_branch_level attr' bitmap' = Some (l + 1) \<and>
          (\<forall>hash. PINT_find_dist_dir_bucket hash attr' bitmap' =
             (if PINT_find_dist_dir_bucket hash ?A ?B = Some (int s) \<and> bit hash (nat l) then Some new else PINT_find_dist_dir_bucket hash ?A ?B)) \<and>
          (\<forall>hash. PINT_find_dist_dir_bucket hash ?A ?B \<noteq> Some new)"
    using Dist_Dir.split_node [OF ok _ _ ] c(2) by (auto split: option.splits)
  have len: "num_servers ?A = int (length (dirdata dir))" "num_servers ?A \<le> 16" using i(2,3) by simp_all
  show thesis
  proof (cases "PINT_find_dist_dir_split_node (for_server ?A s l) ?B")
    case None
    then show thesis using n len by simp
  next
    case (Some r)
    obtain t attr' bm' where r: "r = (t, attr', bm')" by (cases r)
    show thesis
    proof (cases "l \<ge> tree_height ?A \<or> int s + 2 ^ nat l \<ge> num_servers ?A")
      case True
      then show thesis using n Some r c(1) by (intro that [of t attr' bm']) simp_all
    next
      case False
      then have n': "t = int s + 2 ^ nat l" "attr' = for_server ?A s (l + 1)" "dir_ok attr' bm'" "dist_dir_calc_branch_level attr' bm' = Some (l + 1)"
        "\<And>hash. PINT_find_dist_dir_bucket hash attr' bm' =
             (if PINT_find_dist_dir_bucket hash ?A ?B = Some (int s) \<and> bit hash (nat l) then Some t else PINT_find_dist_dir_bucket hash ?A ?B)"
        "\<And>hash. PINT_find_dist_dir_bucket hash ?A ?B \<noteq> Some t"
        using n [unfolded Some r option.case prod.case if_not_P [OF False]] by blast+
      have h: "home attr' bm' n = home ?A bm' n" for n unfolding n'(2) by simp
      have "tree_ok attr' bm' (length (dirdata dir)) s" using n'(2-4) len i(3) assms(2) by (simp add: tree_ok_def)
      moreover have "t < int (length (dirdata dir))" "t \<noteq> int s" using n'(1) False len by simp_all
      ultimately show thesis using n'(2,5,6) h Some r c(1) by (intro that [of t attr' bm']) (auto split: if_splits)
    qed
  qed
qed

text \<open>The directory after a split: the entries of the new bucket are found if the messages were executed, and are on no server if not.\<close>

lemma split_done:
  fixes L :: "'db db_lib" and dir dir' :: "'db directory"
  defines "F \<equiv> \<lambda>i. dents L (dirdata dir ! i)" and "A \<equiv> meta_attr dir" and "B \<equiv> meta_bitmap dir" and "B' \<equiv> meta_bitmap dir'"
  assumes "dir_inv L dir" "s < length (dirdata dir)" "t < length (dirdata dir)" "t \<noteq> s" "length (dirdata dir') = length (dirdata dir)"
    and h: "\<And>n. home A B' n \<noteq> Some (int t) \<Longrightarrow> home A B' n = home A B n" "\<And>n. home A B' n = Some (int t) \<Longrightarrow> home A B n = Some (int s)"
      "\<And>n. home A B n \<noteq> Some (int t)"
    and mv: "\<And>n v. (n, v) \<in> set mv \<longleftrightarrow> F s (n @ [0]) = Some v \<and> home A B' n = Some (int t)" "distinct (map fst mv)"
    and hold: "hold L dir' (F(t := F t ++ map_of (keyed (if e = 0 then mv else [])), s := F s |` (- (\<lambda>n. n @ [0]) ` fst ` set mv)))" (is "hold L dir' ?F")
    and meta: "dir_ok A B'" "meta_attr dir' = for_server A s m" "\<And>i. i < length (dirdata dir) \<Longrightarrow> configured A B' i (dirdata dir' ! i)"
  shows "dir_inv L dir'" "dir_map L dir' = (\<lambda>n. if e \<noteq> 0 \<and> home A B' n = Some (int t) then None else dir_map L dir n)"
proof -
  note i = dir_invD [OF assms(5), folded A_def B_def]
  have Ft: "F t (n @ [0]) = None" for n using i(6) [OF assms(7), of n] h(3) [of n] by (auto simp: F_def)
  have key: "map_of (keyed mv) (n @ [0]) = (if home A B' n = Some (int t) then F s (n @ [0]) else None)" for n
  proof -
    have "map_of (keyed mv) (n @ [0]) = Some v \<longleftrightarrow> (n, v) \<in> set mv" for v
      using map_of_eq_Some_iff [OF mv(2)] by simp
    then show ?thesis using mv(1) by (metis not_None_eq option.exhaust)
  qed
  have gone: "n @ [0] \<in> (\<lambda>n. n @ [0]) ` fst ` set mv \<longleftrightarrow> home A B' n = Some (int t) \<and> F s (n @ [0]) \<noteq> None" for n
    using mv(1) by (auto simp: image_iff) force
  have Fs: "?F s (n @ [0]) = (if home A B' n = Some (int t) then None else F s (n @ [0]))" for n
    using gone [of n] by (auto simp: restrict_map_def)
  have Ft': "?F t (n @ [0]) = (if e = 0 \<and> home A B' n = Some (int t) then F s (n @ [0]) else None)" for n
    using assms(8) Ft [of n] key [of n] by (auto simp: map_add_def split: option.splits)
  have eq: "home (meta_attr dir') (meta_bitmap dir') n = home A B' n" for n unfolding meta(2) B'_def by simp
  show "dir_inv L dir'"
  proof (rule dir_invI [OF _ _ _ hold])
    show "dir_ok (meta_attr dir') (meta_bitmap dir')" "num_servers (meta_attr dir') = int (length (dirdata dir'))" "length (dirdata dir') \<le> 16"
      using meta(1,2) i(2,3) assms(9) by (simp_all add: B'_def)
    show "configured (meta_attr dir') (meta_bitmap dir') j (dirdata dir' ! j)" if "j < length (dirdata dir')" for j
      using meta(3) [of j] that assms(9) unfolding meta(2) B'_def by simp
    show "home (meta_attr dir') (meta_bitmap dir') n = Some (int j)" if "j < length (dirdata dir')" "n @ [0] \<in> dom (?F j)" for j n
    proof -
      consider "j = s" | "j = t" | "j \<noteq> s" "j \<noteq> t" by blast
      then have "home A B' n = Some (int j)"
      proof cases
        case 1
        then have "home A B' n \<noteq> Some (int t)" "F s (n @ [0]) \<noteq> None" using that(2) Fs [of n] by (auto split: if_splits)
        then show ?thesis using h(1) i(6) [OF assms(6), of n] 1 by (auto simp: F_def)
      next
        case 2
        then show ?thesis using that(2) Ft' [of n] by (auto split: if_splits)
      next
        case 3
        then have "home A B n = Some (int j)" using that i(6) [of j n] assms(9) by (simp add: F_def)
        then show ?thesis using h(1,2) [of n] 3(1) by fastforce
      qed
      then show ?thesis unfolding eq .
    qed
  qed
  show "dir_map L dir' = (\<lambda>n. if e \<noteq> 0 \<and> home A B' n = Some (int t) then None else dir_map L dir n)"
  proof
    fix n
    obtain j where j: "home A B' n = Some (int j)" "int j < num_servers A" by (rule home_server [OF meta(1)])
    have lj: "j < length (dirdata dir)" using j(2) i(2) by simp
    have new: "dir_map L dir' n = ?F j (n @ [0])" by (rule dir_map_hold [OF hold]) (use eq j(1) lj assms(9) in simp_all)
    have old: "dir_map L dir n = F k (n @ [0])" if "home A B n = Some (int k)" "k < length (dirdata dir)" for k
      unfolding F_def by (rule dir_map_hold [OF i(4)]) (use that in \<open>simp_all add: A_def B_def\<close>)
    consider "j = t" | "j = s" | "j \<noteq> t" "j \<noteq> s" by blast
    then show "dir_map L dir' n = (if e \<noteq> 0 \<and> home A B' n = Some (int t) then None else dir_map L dir n)"
    proof cases
      case 1
      then show ?thesis using new Ft' [of n] j(1) old [OF _ assms(6)] h(2) [of n] by simp
    next
      case 2
      then show ?thesis using new Fs [of n] j(1) old [OF _ assms(6)] h(1) [of n] assms(8) h(3) [of n] by simp
    next
      case 3
      then show ?thesis using new j(1) old [OF _ lj] h(1) [of n] h(3) [of n] by simp
    qed
  qed
qed

text \<open>The states of a split up to the messages, and from the messages on.\<close>

lemma split_moved_keyed: "\<forall>(n, v) \<in> set es. good_name n \<Longrightarrow> split_moved attr bm node (keyed es) = filter (\<lambda>(n, v). home attr bm n = Some node) es"
  by (induction es) (auto simp: split_moved_def keyed_def)

lemma reaches_find:
  assumes "db_laws L" "hold L dir F" "s < length (dirdata dir)" "op_server op = s" "op_state op = Check_for_split" "error_code op = 0"
    "split_size (op_attr op) \<le> dirent_count op" "dirent_count op = int (card (dom (F s)))" "F s \<noteq> Map.empty"
    "PINT_find_dist_dir_split_node (op_attr op) (op_bitmap op) = Some (int t, attr, bm)" "dir_ok attr bm"
  obtains op' d mv where "reaches L evict env 3 (op, dir) (op', dir\<lparr>dirdata := (dirdata dir)[s := d]\<rparr>)" "hold L (dir\<lparr>dirdata := (dirdata dir)[s := d]\<rparr>) F"
    "dd_attr d = dd_attr (dirdata dir ! s)" "dd_bitmap d = dd_bitmap (dirdata dir ! s)" "split_entries op' = mv"
    "op_server op' = s" "op_attr op' = attr" "op_bitmap op' = bm" "split_node op' = int t" "distinct (map fst mv)"
    "\<And>n v. (n, v) \<in> set mv \<longleftrightarrow> F s (n @ [0]) = Some v \<and> home attr bm n = Some (int t)" "\<forall>(n, v) \<in> set mv. good_name n \<and> length v = 8"
    "mv = [] \<Longrightarrow> op_state op' = Return \<and> error_code op' = 0"
    "mv \<noteq> [] \<Longrightarrow> op_state op' = Split_xfer_msgpair \<and> (\<exists>ess. messages op' = Some ess \<and> concat ess = mv \<and> length ess \<le> length (split_status op'))"
proof -
  let ?op1 = "op\<lparr>saved_attr := op_attr op, saved_bitmap := op_bitmap op, op_attr := attr, op_bitmap := bm, split_node := int t, error_code := SPLIT_REQUIRED\<rparr>"
  have c: "crdirent_check_for_split op = Some ?op1" using assms(6,7,10) by (simp add: crdirent_check_for_split_def)
  have op1: "op_server (?op1\<lparr>op_state := Retrieve_dir_entries\<rparr>) = s" "dirent_count (?op1\<lparr>op_state := Retrieve_dir_entries\<rparr>) = int (card (dom (F s)))"
    using assms(4,8) by simp_all
  obtain es d where r: "crdirent_retrieve_dir_entries L evict (?op1\<lparr>op_state := Retrieve_dir_entries\<rparr>) dir =
      Some (?op1\<lparr>op_state := Retrieve_dir_entries, error_code := 0, dir_entries := keyed es\<rparr>, dir\<lparr>dirdata := (dirdata dir)[s := d]\<rparr>)"
    "hold L (dir\<lparr>dirdata := (dirdata dir)[s := d]\<rparr>) F" "dd_attr d = dd_attr (dirdata dir ! s)" "dd_bitmap d = dd_bitmap (dirdata dir ! s)"
    "distinct (map fst es)" "map_of (keyed es) = F s" "int (length es) = dirent_count (?op1\<lparr>op_state := Retrieve_dir_entries\<rparr>)"
    "\<forall>(n, v) \<in> set es. good_name n \<and> length v = 8 \<and> F s (n @ [0]) = Some v"
    by (rule retrieve [OF assms(1-3) op1 assms(9), where evict = evict])
  let ?op2 = "?op1\<lparr>error_code := 0, dir_entries := keyed es, op_state := Find_split_entries\<rparr>"
  define mv where "mv = filter (\<lambda>(n, v). home attr bm n = Some (int t)) es"
  have mv: "split_moved (op_attr ?op2) (op_bitmap ?op2) (split_node ?op2) (dir_entries ?op2) = mv" using r(8) by (auto simp: mv_def intro!: split_moved_keyed)
  have op2: "dir_ok (op_attr ?op2) (op_bitmap ?op2)" "dirent_count ?op2 = int (length (dir_entries ?op2))"
    "\<forall>kv \<in> set (dir_entries ?op2). length (c_str (fst kv)) < PVFS_NAME_MAX"
    using assms(11) r(7,8) by (auto simp: keyed_def good_name_def)
  obtain m bs ess where f: "crdirent_find_split_entries ?op2 = Some (?op2\<lparr>split_entries := mv, num_msgs_required := m, msg_boundaries := bs,
      split_status := replicate (length bs) None, error_code := if mv \<noteq> [] then SPLIT_REQUIRED else 0\<rparr>)"
    "\<forall>op'. split_entries op' = mv \<and> num_msgs_required op' = m \<and> msg_boundaries op' = bs \<longrightarrow> messages op' = Some ess" "concat ess = mv" "length ess \<le> length bs"
    by (rule find_split [OF op2, unfolded mv])
  let ?op3 = "?op2\<lparr>split_entries := mv, num_msgs_required := m, msg_boundaries := bs,
      split_status := replicate (length bs) None, error_code := if mv \<noteq> [] then SPLIT_REQUIRED else 0,
      op_state := if mv \<noteq> [] then Split_xfer_msgpair else Return\<rparr>"
  have run: "reaches L evict env 3 (op, dir) (?op3, dir\<lparr>dirdata := (dirdata dir)[s := d]\<rparr>)"
    unfolding reaches_def using c r(1) f(1) assms(5) by (intro exI [of _ 3]) (simp add: run_simps)
  show thesis
  proof (rule that [OF run r(2-4)])
    show "(n, v) \<in> set mv \<longleftrightarrow> F s (n @ [0]) = Some v \<and> home attr bm n = Some (int t)" for n v
      using r(5,8) unfolding r(6) [symmetric] by (auto simp: mv_def map_of_eq_Some_iff)
    show "distinct (map fst mv)" using r(5) by (auto simp: mv_def distinct_map intro: inj_on_subset)
    show "\<forall>(n, v) \<in> set mv. good_name n \<and> length v = 8" using r(8) by (auto simp: mv_def)
  qed (use f(2-4) assms(4) in simp_all)
qed

lemma reaches_transfer:
  assumes "db_laws L" "hold L dir F" "length (dirdata dir) = n" "answering e env" "tree_ok (op_attr op) (op_bitmap op) n s" "op_server op = s"
    "split_node op = int t" "t < n" "t \<noteq> s" "op_state op = Split_xfer_msgpair" "messages op = Some ess" "concat ess = split_entries op" "length ess \<le> length (split_status op)"
    "distinct (map fst (split_entries op))" "\<forall>(k, v) \<in> set (split_entries op). good_name k \<and> length v = 8 \<and> k @ [0] \<notin> dom (F t)"
  obtains op' dir' l where "reaches L evict env 9 (op, dir) (op', dir')" "op_state op' = Return" "error_code op' = 0" "length (dirdata dir') = n"
    "hold L dir' (F(t := F t ++ map_of (keyed (if e = 0 then split_entries op else [])), s := F s |` (- (\<lambda>n. n @ [0]) ` fst ` set (split_entries op))))"
    "meta_attr dir' = (op_attr op)\<lparr>branch_level := l\<rparr>" "meta_bitmap dir' = op_bitmap op" "\<And>i. i < n \<Longrightarrow> configured (op_attr op) (op_bitmap op) i (dirdata dir' ! i)"
proof -
  let ?rs = "replies (env Split_xfer_msgpair)" and ?mv = "split_entries op"
  have t: "t < length (dirdata dir)" "store_ok L (dirdata dir ! t)" "dents L (dirdata dir ! t) = F t" using assms(2,3,8) by (simp_all add: hold_def)
  have rs: "?rs i = Answered e" for i using answeringD [OF assms(4)] by simp
  have x: "distinct (map fst (concat ess))" "\<forall>(k, v) \<in> set (concat ess). good_name k \<and> length v = 8 \<and> k @ [0] \<notin> dom (dents L (dirdata dir ! t))"
    "\<forall>j. \<exists>s. ?rs j = Answered s" "0 + length ess \<le> length (split_status op)"
    using assms(12-15) t(3) rs by simp_all
  obtain status d where d: "split_xfer L False ?rs 0 ess (split_status op) (dirdata dir ! t) = Some (status, d)"
    "dents L d = dents L (dirdata dir ! t) ++ map_of (keyed (delivered ?rs 0 ess))" "store_ok L d" "dd_handle d = dd_handle (dirdata dir ! t)"
    by (rule split_xfer_entries [OF assms(1) t(2) x])
  have del: "delivered ?rs 0 ess = (if e = 0 then ?mv else [])"
    using delivered_all [of ?rs 0 ess] delivered_none [of ?rs 0 ess] rs assms(12) by simp
  let ?F = "F(t := F t ++ map_of (keyed (if e = 0 then ?mv else [])))"
  let ?op1 = "op\<lparr>split_status := status, error_code := 0, op_state := Activate_server_setup\<rparr>" and ?dir1 = "dir\<lparr>dirdata := (dirdata dir)[t := d]\<rparr>"
  have h1: "hold L ?dir1 ?F" "length (dirdata ?dir1) = n" using hold_update [OF assms(2) t(1) d(3,4)] d(2) assms(3) unfolding t(3) del by simp_all
  have "first_error (map (msgpair_comp_status \<circ> ?rs) [0..<length ess]) = 0" using rs by (intro first_error_0) simp
  then have "crdirent_split_xfer L (env Split_xfer_msgpair) op dir = Some (op\<lparr>split_status := status, error_code := 0\<rparr>, ?dir1)"
    using assms(7,11) t(1) d(1) by (simp add: crdirent_split_xfer_def update_dirdata_def)
  then have r1: "reaches L evict env 1 (op, dir) (?op1, ?dir1)"
    unfolding reaches_def using assms(10) by (intro exI [of _ 1]) (simp add: run_simps)
  have op1: "tree_ok (op_attr ?op1) (op_bitmap ?op1) n s" "op_server ?op1 = s" "split_node ?op1 = int t" "op_state ?op1 = Activate_server_setup"
    using assms(5-7) by simp_all
  obtain dir2 l where r2: "reaches L evict env 7 (?op1, ?dir1) (?op1\<lparr>error_code := 0, op_state := Remove_local_copies\<rparr>, dir2)"
    "knows L (op_attr ?op1) (op_bitmap ?op1) ?F n {..<n} dir2" "meta_attr dir2 = (op_attr ?op1)\<lparr>branch_level := l\<rparr>" "meta_bitmap dir2 = op_bitmap ?op1"
    by (rule reaches_configure [OF op1(1) h1 assms(4) op1(2,3) assms(8) op1(4)])
  let ?op2 = "?op1\<lparr>error_code := 0, op_state := Remove_local_copies\<rparr>"
  have h2: "hold L dir2 ?F" "length (dirdata dir2) = n" "\<And>i. i < n \<Longrightarrow> configured (op_attr op) (op_bitmap op) i (dirdata dir2 ! i)" using r2(2) by (simp_all add: knows_def)
  have s: "s < length (dirdata dir2)" using assms(5) h2(2) by (simp add: tree_ok_def)
  have op2: "op_server ?op2 = s" "\<forall>(n, v) \<in> set (split_entries ?op2). good_name n" using assms(6,15) by auto
  obtain d3 where r3: "crdirent_remove_local_copies L ?op2 dir2 = Some (?op2\<lparr>error_code := 0\<rparr>, dir2\<lparr>dirdata := (dirdata dir2)[s := d3]\<rparr>)"
    "hold L (dir2\<lparr>dirdata := (dirdata dir2)[s := d3]\<rparr>) (?F(s := ?F s |` (- (\<lambda>n. n @ [0]) ` fst ` set (split_entries ?op2))))"
    "dd_attr d3 = dd_attr (dirdata dir2 ! s)" "dd_bitmap d3 = dd_bitmap (dirdata dir2 ! s)"
    by (rule remove_local [OF assms(1) h2(1) s op2])
  let ?dir3 = "dir2\<lparr>dirdata := (dirdata dir2)[s := d3]\<rparr>"
  have last: "reaches L evict env 1 (?op2, dir2) (?op2\<lparr>error_code := 0, op_state := Return\<rparr>, ?dir3)"
    unfolding reaches_def using r3(1) by (intro exI [of _ 1]) (simp add: run_simps)
  have conf: "configured (op_attr op) (op_bitmap op) i (dirdata ?dir3 ! i)" if "i < n" for i
    using that h2(3) [of i] r3(3,4) s by (cases "i = s") (simp_all add: configured_def)
  have run: "reaches L evict env 9 (op, dir) (?op2\<lparr>error_code := 0, op_state := Return\<rparr>, ?dir3)"
    by (rule reaches_trans [OF r1 reaches_trans [OF r2(1) last, where c = 8]]) simp_all
  show thesis
  proof (rule that [OF run _ _ _ _ _ _ conf])
    show "hold L ?dir3 (F(t := F t ++ map_of (keyed (if e = 0 then ?mv else [])), s := F s |` (- (\<lambda>n. n @ [0]) ` fst ` set ?mv)))"
      using r3(2) assms(9) by simp
  qed (use r2(3,4) h2(2) in simp_all)
qed

lemma inv_same:
  assumes "dir_inv L dir" "s < length (dirdata dir)" "hold L (dir\<lparr>dirdata := (dirdata dir)[s := d]\<rparr>) (\<lambda>i. dents L (dirdata dir ! i))"
    "dd_attr d = dd_attr (dirdata dir ! s)" "dd_bitmap d = dd_bitmap (dirdata dir ! s)"
  shows "dir_inv L (dir\<lparr>dirdata := (dirdata dir)[s := d]\<rparr>)" "dir_map L (dir\<lparr>dirdata := (dirdata dir)[s := d]\<rparr>) = dir_map L dir"
proof -
  note i = dir_invD [OF assms(1)]
  let ?dir = "dir\<lparr>dirdata := (dirdata dir)[s := d]\<rparr>"
  show "dir_inv L ?dir"
  proof (rule dir_invI [OF _ _ _ assms(3)])
    show "configured (meta_attr ?dir) (meta_bitmap ?dir) j (dirdata ?dir ! j)" if "j < length (dirdata ?dir)" for j
      using that i(5) [of j] assms(2,4,5) by (cases "j = s") (simp_all add: configured_def)
  qed (use i in simp_all)
  show "dir_map L ?dir = dir_map L dir"
  proof
    fix n
    obtain j where j: "home (meta_attr dir) (meta_bitmap dir) n = Some (int j)" "int j < num_servers (meta_attr dir)" by (rule home_server [OF i(1)])
    then show "dir_map L ?dir n = dir_map L dir n"
      using dir_map_hold [OF assms(3), of n j] dir_map_hold [OF i(4), of n j] i(2) by simp
  qed
qed

text \<open>The states from the check for a split on. The entries of the names that get a new server are lost if the answers of the split messages
  are errors.\<close>

lemma reaches_check:
  assumes "db_laws L" "dir_inv L dir" "answering e env" "s < length (dirdata dir)"
    "PINT_is_dist_dir_bucket_active (meta_attr dir) (meta_bitmap dir) (int s) = Some True" "op_server op = s" "op_state op = Check_for_split" "error_code op = 0"
    "op_attr op = dd_attr (dirdata dir ! s)" "op_bitmap op = meta_bitmap dir" "dirent_count op = int (card (dom (dents L (dirdata dir ! s))))"
    "dents L (dirdata dir ! s) \<noteq> Map.empty"
  obtains op' dir' where "reaches L evict env 12 (op, dir) (op', dir')" "op_state op' = Return" "error_code op' = 0" "dir_inv L dir'"
    "\<forall>bm n. home (meta_attr dir') bm n = home (meta_attr dir) bm n"
    "dir_map L dir' = (\<lambda>n. if e \<noteq> 0 \<and> home (meta_attr dir) (meta_bitmap dir') n \<noteq> home (meta_attr dir) (meta_bitmap dir) n then None else dir_map L dir n)"
    "\<forall>t attr' bm'. PINT_find_dist_dir_split_node (dd_attr (dirdata dir ! s)) (meta_bitmap dir) = Some (t, attr', bm') \<and> 0 \<le> t \<and>
       split_size (op_attr op) \<le> dirent_count op \<and> (\<exists>n. dir_map L dir n \<noteq> None \<and> home (meta_attr dir) bm' n = Some t) \<longrightarrow> meta_bitmap dir' = bm'"
proof -
  note i = dir_invD [OF assms(2)]
  let ?A = "meta_attr dir" and ?B = "meta_bitmap dir" and ?F = "\<lambda>i. dents L (dirdata dir ! i)" and ?n = "length (dirdata dir)"
  obtain t attr' bm' where f: "PINT_find_dist_dir_split_node (dd_attr (dirdata dir ! s)) ?B = Some (t, attr', bm')"
    and t: "t < 0 \<or> (\<exists>m. attr' = for_server ?A s m) \<and> t < int ?n \<and> t \<noteq> int s \<and> tree_ok attr' bm' ?n s \<and>
      (\<forall>n. home ?A bm' n \<noteq> Some t \<longrightarrow> home ?A bm' n = home ?A ?B n) \<and> (\<forall>n. home ?A bm' n = Some t \<longrightarrow> home ?A ?B n = Some (int s)) \<and>
      (\<forall>n. home ?A ?B n \<noteq> Some t)"
    by (rule split_directory [OF assms(2,4,5)])
  show thesis
  proof (cases "t < 0 \<or> dirent_count op < split_size (op_attr op)")
    case True
    have "\<exists>op'. crdirent_check_for_split op = Some op' \<and> error_code op' = 0"
      using True assms(8-10) f by (cases "split_size (op_attr op) \<le> dirent_count op") (simp_all add: crdirent_check_for_split_def Let_def)
    then obtain op' where "crdirent_check_for_split op = Some op'" "error_code op' = 0" by blast
    then have "reaches L evict env 12 (op, dir) (op'\<lparr>op_state := Return\<rparr>, dir)"
      unfolding reaches_def using assms(7) by (intro exI [of _ 1]) (simp add: run_simps)
    then show thesis using True assms(2) f \<open>error_code op' = 0\<close> by (intro that [of "op'\<lparr>op_state := Return\<rparr>" dir]) auto
  next
    case False
    then obtain t' m where t': "t = int t'" "attr' = for_server ?A s m" "t' < ?n" "t' \<noteq> s" "tree_ok attr' bm' ?n s"
      and h: "\<And>n. home ?A bm' n \<noteq> Some (int t') \<Longrightarrow> home ?A bm' n = home ?A ?B n" "\<And>n. home ?A bm' n = Some (int t') \<Longrightarrow> home ?A ?B n = Some (int s)"
        "\<And>n. home ?A ?B n \<noteq> Some (int t')"
      using t by (cases t rule: int_cases2) auto
    have eq: "home attr' b n = home ?A b n" for b n unfolding t'(2) by simp
    have ok: "dir_ok attr' bm'" using t'(5) by (simp add: tree_ok_def)
    have sz: "split_size (op_attr op) \<le> dirent_count op" using False by simp
    obtain op1 d mv where r: "reaches L evict env 3 (op, dir) (op1, dir\<lparr>dirdata := (dirdata dir)[s := d]\<rparr>)" "hold L (dir\<lparr>dirdata := (dirdata dir)[s := d]\<rparr>) ?F"
      "dd_attr d = dd_attr (dirdata dir ! s)" "dd_bitmap d = dd_bitmap (dirdata dir ! s)" "split_entries op1 = mv"
      "op_server op1 = s" "op_attr op1 = attr'" "op_bitmap op1 = bm'" "split_node op1 = int t'" "distinct (map fst mv)"
      "\<And>n v. (n, v) \<in> set mv \<longleftrightarrow> ?F s (n @ [0]) = Some v \<and> home attr' bm' n = Some (int t')" "\<forall>(n, v) \<in> set mv. good_name n \<and> length v = 8"
      "mv = [] \<Longrightarrow> op_state op1 = Return \<and> error_code op1 = 0"
      "mv \<noteq> [] \<Longrightarrow> op_state op1 = Split_xfer_msgpair \<and> (\<exists>ess. messages op1 = Some ess \<and> concat ess = mv \<and> length ess \<le> length (split_status op1))"
      using reaches_find [OF assms(1) i(4) assms(4,6-8) sz assms(11,12) f [unfolded t'(1), folded assms(9,10)] ok, of evict env] by blast
    let ?dir = "dir\<lparr>dirdata := (dirdata dir)[s := d]\<rparr>"
    have same: "dir_inv L ?dir" "dir_map L ?dir = dir_map L dir" by (rule inv_same [OF assms(2,4) r(2-4)])+
    have mem: "(n, v) \<in> set mv \<longleftrightarrow> dir_map L dir n = Some v \<and> home ?A bm' n = Some (int t')" for n v
      using r(11) [of n v] h(2) [of n] dir_map_hold [OF i(4) _ assms(4), of n] unfolding eq by auto
    show thesis
    proof (cases "mv = []")
      case True
      have "reaches L evict env 12 (op, dir) (op1, ?dir)" by (rule reaches_trans [OF r(1) reaches_refl, where b = 9]) simp
      then show thesis using r(13) [OF True] same mem True f t'(1) by (intro that [of op1 ?dir]) auto
    next
      case False
      then obtain ess where ess: "op_state op1 = Split_xfer_msgpair" "messages op1 = Some ess" "concat ess = split_entries op1" "length ess \<le> length (split_status op1)"
        using r(5,14) by blast
      have len: "length (dirdata ?dir) = ?n" by simp
      have "k @ [0] \<notin> dom (?F t')" for k using i(6) [OF t'(3), of k] h(3) [of k] by blast
      then have e: "tree_ok (op_attr op1) (op_bitmap op1) ?n s" "distinct (map fst (split_entries op1))"
        "\<forall>(k, v) \<in> set (split_entries op1). good_name k \<and> length v = 8 \<and> k @ [0] \<notin> dom (?F t')"
        using t'(5) r(5,7,8,10,12) by auto
      obtain op2 dir2 l where x: "reaches L evict env 9 (op1, ?dir) (op2, dir2)" "op_state op2 = Return" "error_code op2 = 0" "length (dirdata dir2) = ?n"
        "hold L dir2 (?F(t' := ?F t' ++ map_of (keyed (if e = 0 then split_entries op1 else [])), s := ?F s |` (- (\<lambda>n. n @ [0]) ` fst ` set (split_entries op1))))"
        "meta_attr dir2 = (op_attr op1)\<lparr>branch_level := l\<rparr>" "meta_bitmap dir2 = op_bitmap op1" "\<And>i. i < ?n \<Longrightarrow> configured (op_attr op1) (op_bitmap op1) i (dirdata dir2 ! i)"
        using reaches_transfer [OF assms(1) r(2) len assms(3) e(1) r(6,9) t'(3,4) ess e(2,3), of evict] by blast
      have B': "meta_bitmap dir2 = bm'" and A': "meta_attr dir2 = for_server ?A s l" using x(6,7) r(7,8) t'(2) by simp_all
      have mv: "\<And>n v. (n, v) \<in> set mv \<longleftrightarrow> ?F s (n @ [0]) = Some v \<and> home ?A bm' n = Some (int t')" using r(11) unfolding eq .
      have conf: "\<And>i. i < ?n \<Longrightarrow> configured ?A bm' i (dirdata dir2 ! i)" "dir_ok ?A bm'" using x(8) ok unfolding r(7,8) t'(2) by simp_all
      note fin = split_done [OF assms(2,4) t'(3,4) x(4), unfolded B', OF h mv r(10) x(5) [unfolded r(5)] conf(2) A' conf(1)]
      have new: "home ?A bm' n \<noteq> home ?A ?B n \<longleftrightarrow> home ?A bm' n = Some (int t')" for n using h [of n] by metis
      show thesis
      proof (rule that [of op2 dir2])
        show "reaches L evict env 12 (op, dir) (op2, dir2)" by (rule reaches_trans [OF r(1) x(1)]) simp
        show "\<forall>bm n. home (meta_attr dir2) bm n = home ?A bm n" unfolding A' by simp
        show "dir_map L dir2 = (\<lambda>n. if e \<noteq> 0 \<and> home ?A (meta_bitmap dir2) n \<noteq> home ?A ?B n then None else dir_map L dir n)"
          unfolding B' new by (rule fin(2))
      qed (use x(2,3) fin(1) B' f in simp_all)
    qed
  qed
qed

text \<open>The creation of an entry, with the answers \<open>e\<close> to the messages of a split.\<close>

lemma reaches_creation:
  assumes "db_laws L" "dir_inv L dir" "answering e env" "op_server op = s" "s < length (dirdata dir)" "op_state op = Setup_op" "good_name (op_name op)"
    "0x2f \<notin> set (op_name op)" "length (op_new_handle op) = 8"
  obtains (other) op' where "home (meta_attr dir) (meta_bitmap dir) (op_name op) \<noteq> Some (int s)"
      "reaches L evict env 21 (op, dir) (op', dir)" "op_state op' = Return" "error_code op' = - PVFS_EAGAIN"
  | (exists) op' where "home (meta_attr dir) (meta_bitmap dir) (op_name op) = Some (int s)" "dir_map L dir (op_name op) \<noteq> None"
      "reaches L evict env 21 (op, dir) (op', dir)" "op_state op' = Return" "error_code op' = - TROVE_EEXIST"
  | (new) op' dir' where "home (meta_attr dir) (meta_bitmap dir) (op_name op) = Some (int s)" "dir_map L dir (op_name op) = None"
      "reaches L evict env 21 (op, dir) (op', dir')" "op_state op' = Return" "error_code op' = 0" "dir_inv L dir'"
      "\<forall>bm n. home (meta_attr dir') bm n = home (meta_attr dir) bm n"
      "dir_map L dir' = (\<lambda>n. if e \<noteq> 0 \<and> home (meta_attr dir) (meta_bitmap dir') n \<noteq> home (meta_attr dir) (meta_bitmap dir) n then None
         else ((dir_map L dir)(op_name op \<mapsto> op_new_handle op)) n)"
      "\<forall>t attr' bm'. PINT_find_dist_dir_split_node (dd_attr (dirdata dir ! s)) (meta_bitmap dir) = Some (t, attr', bm') \<and> 0 \<le> t \<and>
         split_size (dd_attr (dirdata dir ! s)) \<le> int (card (dom (dents L (dirdata dir ! s)))) + 1 \<and>
         (\<exists>n. ((dir_map L dir)(op_name op \<mapsto> op_new_handle op)) n \<noteq> None \<and> home (meta_attr dir) bm' n = Some t) \<longrightarrow> meta_bitmap dir' = bm'"
proof -
  note i = dir_invD [OF assms(2)]
  let ?A = "meta_attr dir" and ?B = "meta_bitmap dir"
  obtain op1 where v: "reaches L evict env 4 (op, dir) (op1, dir)" "op_attr op1 = dd_attr (dirdata dir ! s)" "op_bitmap op1 = ?B"
    "op_server op1 = s" "op_name op1 = op_name op" "op_new_handle op1 = op_new_handle op"
    "if home ?A ?B (op_name op) = Some (int s) then op_state op1 = Write_directory_entry \<and> error_code op1 = 0 else op_state op1 = Validation_dirdata_mismatch"
    by (rule reaches_validate [OF assms(2-6,8)])
  show thesis
  proof (cases "home ?A ?B (op_name op) = Some (int s)")
    case False
    then have "reaches L evict env 1 (op1, dir) (op1\<lparr>error_code := - PVFS_EAGAIN, op_state := Return\<rparr>, dir)"
      unfolding reaches_def using v(7) by (intro exI [of _ 1]) (simp add: run_simps)
    then have "reaches L evict env 21 (op, dir) (op1\<lparr>error_code := - PVFS_EAGAIN, op_state := Return\<rparr>, dir)" by (rule reaches_trans [OF v(1)]) simp
    then show thesis using other False by simp
  next
    case True
    have op1: "op_state op1 = Write_directory_entry" "good_name (op_name op1)" "length (op_new_handle op1) = 8" "home ?A ?B (op_name op1) = Some (int s)"
      using v(5-7) True assms(7,9) by simp_all
    show thesis
    proof (cases rule: reaches_write [OF assms(1-3,5) v(4) op1, where evict = evict, case_names exst nw])
      case (exst op')
      have "reaches L evict env 21 (op, dir) (op', dir)" by (rule reaches_trans [OF v(1) exst(2)]) simp
      then show thesis using exists True exst v(5) by simp
    next
      case (nw dir1)
      let ?op2 = "op1\<lparr>error_code := 0, op_state := Check_for_split, dirent_count := int (card (dom (dents L (dirdata dir1 ! s))))\<rparr>"
      have act: "PINT_is_dist_dir_bucket_active (meta_attr dir1) (meta_bitmap dir1) (int s) = Some True"
        using home_server [OF i(1), of "op_name op"] True unfolding nw(5,6) by auto
      have op2: "s < length (dirdata dir1)" "op_server ?op2 = s" "op_state ?op2 = Check_for_split" "error_code ?op2 = 0" "op_attr ?op2 = dd_attr (dirdata dir1 ! s)"
        "op_bitmap ?op2 = meta_bitmap dir1" "dirent_count ?op2 = int (card (dom (dents L (dirdata dir1 ! s))))" "dents L (dirdata dir1 ! s) \<noteq> Map.empty"
        using nw(6-9) assms(5) v(2-4) by auto
      obtain op' dir' where c: "reaches L evict env 12 (?op2, dir1) (op', dir')" "op_state op' = Return" "error_code op' = 0" "dir_inv L dir'"
        "\<forall>bm n. home (meta_attr dir') bm n = home (meta_attr dir1) bm n"
        "dir_map L dir' = (\<lambda>n. if e \<noteq> 0 \<and> home (meta_attr dir1) (meta_bitmap dir') n \<noteq> home (meta_attr dir1) (meta_bitmap dir1) n then None else dir_map L dir1 n)"
        "\<forall>t attr' bm'. PINT_find_dist_dir_split_node (dd_attr (dirdata dir1 ! s)) (meta_bitmap dir1) = Some (t, attr', bm') \<and> 0 \<le> t \<and>
          split_size (op_attr ?op2) \<le> dirent_count ?op2 \<and> (\<exists>n. dir_map L dir1 n \<noteq> None \<and> home (meta_attr dir1) bm' n = Some t) \<longrightarrow> meta_bitmap dir' = bm'"
        by (rule reaches_check [OF assms(1) nw(2) assms(3) op2(1) act op2(2-8)])
      have none: "dents L (dirdata dir ! s) (op_name op @ [0]) = None"
        using dir_map_hold [OF i(4) True assms(5)] nw(1) v(5) by simp
      have "card (dom (dents L (dirdata dir1 ! s))) = card (dom (dents L (dirdata dir ! s))) + 1"
        unfolding nw(9) using finite_ents [OF assms(1)] none v(5) by (simp add: domIff card_insert_if)
      then have cnt: "split_size (op_attr ?op2) \<le> dirent_count ?op2 \<longleftrightarrow> split_size (dd_attr (dirdata dir ! s)) \<le> int (card (dom (dents L (dirdata dir ! s)))) + 1"
        using v(2) by (simp add: add.commute)
      have "reaches L evict env 21 (op, dir) (op', dir')" by (rule reaches_trans [OF v(1) reaches_trans [OF nw(4) c(1), where c = 17]]) simp_all
      then show thesis using c(5-7) nw(1) True unfolding cnt unfolding nw(3,5,6,8) v(5,6) by (intro new [OF _ _ _ c(2-4)]) assumption+
    qed
  qed
qed

section \<open>Properties\<close>

text \<open>A directory with two servers: the second one is not active, and the first one is full with its second entry. The names ``a'' and
  ``abc'' go to different servers after the split.\<close>

definition ex_attr :: "nat \<Rightarrow> PVFS_dist_dir_attr" where
  "ex_attr i = \<lparr>tree_height = 1, num_servers = 2, bitmap_size = 1, split_size = 2, server_no = int i, branch_level = (if i = 0 then 0 else - 1)\<rparr>"

definition ex_split_db :: "(dbpf_keyval_db_entry \<times> db_data) list" where
  "ex_split_db = [(Db_entry 7 DBPF_DIRECTORY_ENTRY_TYPE [0x61, 0], Keyval [1, 0, 0, 0, 0, 0, 0, 0]), (Db_entry 7 DBPF_COUNT_TYPE [], Handle_info 1)]"

definition ex_directory :: "(dbpf_keyval_db_entry \<times> db_data) list directory" where
  "ex_directory = \<lparr>dirdata = [\<lparr>dd_handle = 7, dd_attr = ex_attr 0, dd_bitmap = [1], dd_state = \<lparr>keyval_db = ex_split_db, pos_cache = (\<lambda>_. None), readdir_session = 0\<rparr>\<rparr>,
       \<lparr>dd_handle = 8, dd_attr = ex_attr 1, dd_bitmap = [1], dd_state = \<lparr>keyval_db = [], pos_cache = (\<lambda>_. None), readdir_session = 0\<rparr>\<rparr>],
     meta_attr = ex_attr 0, meta_bitmap = [1]\<rparr>"

definition ex_op :: crdirent_op where
  "ex_op = \<lparr>op_server = 0, op_name = [0x61, 0x62, 0x63], op_new_handle = [2, 0, 0, 0, 0, 0, 0, 0], new_remote = True, parent_remote = True, op_state = Setup_op,
     error_code = 0, op_attr = ex_attr 0, op_bitmap = [], saved_attr = ex_attr 0, saved_bitmap = [], dirent_count = 0, split_node = 0, dir_entries = [],
     split_entries = [], num_msgs_required = 0, msg_boundaries = [], split_status = []\<rparr>"

definition ex_env :: "int \<Rightarrow> crdirent_state \<Rightarrow> step_input" where
  "ex_env e st = \<lparr>job_error = 0, replies = (\<lambda>_. Answered (if st = Split_xfer_msgpair then e else 0))\<rparr>"

lemma ex_ok: "dir_ok (ex_attr 0) [1]" "configured (ex_attr 0) [1] 0 (dirdata ex_directory ! 0)" "configured (ex_attr 0) [1] 1 (dirdata ex_directory ! 1)"
proof -
  have h: "ceil_log2 (nat 2) = 1" "set_bits_below (nat 1) [0] = Some [1]" by code_simp+
  show "dir_ok (ex_attr 0) [1]" by (rule init_state [of 2 1]) (use h in \<open>simp_all add: ex_attr_def\<close>)
  have "dist_dir_calc_branch_level (ex_attr 0) [1] = Some 0" "dist_dir_calc_branch_level (ex_attr 1) [1] = Some (- 1)" by code_simp+
  then show "configured (ex_attr 0) [1] 0 (dirdata ex_directory ! 0)" "configured (ex_attr 0) [1] 1 (dirdata ex_directory ! 1)"
    by (auto simp: configured_def ex_attr_def ex_directory_def)
qed

lemma encrypt_rfc:
  assumes "length n < 2 ^ 28"
  shows "PINT_encrypt_dirdata n = le64 (drop 8 (rfc_md5 n))"
  using finish_after [OF append_after [OF init_after assms]] by (simp add: PINT_encrypt_dirdata_def md5_state0_def)

lemma ex_home: "home (ex_attr 0) [1] n = Some 0" "home (ex_attr 0) [3] [0x61] = Some 1" "home (ex_attr 0) [3] [0x61, 0x62, 0x63] = Some 0"
  "home (ex_attr 0) [3] [0x63] = Some 1"
proof -
  obtain i where i: "home (ex_attr 0) [1] n = Some (int i)" "PINT_is_dist_dir_bucket_active (ex_attr 0) [1] (int i) = Some True" by (rule home_server [OF ex_ok(1)])
  then have "i \<in> active [1]" using is_bucket_active [OF ex_ok(1)] by simp
  then have "i = 0" by (auto simp: active_def bit_1_iff)
  then show "home (ex_attr 0) [1] n = Some 0" using i(1) by simp
  have e: "PINT_encrypt_dirdata [0x61] = le64 (drop 8 (rfc_md5 [0x61]))" "PINT_encrypt_dirdata [0x61, 0x62, 0x63] = le64 (drop 8 (rfc_md5 [0x61, 0x62, 0x63]))"
    "PINT_encrypt_dirdata [0x63] = le64 (drop 8 (rfc_md5 [0x63]))"
    by (simp_all add: encrypt_rfc)
  show "home (ex_attr 0) [3] [0x61] = Some 1" "home (ex_attr 0) [3] [0x61, 0x62, 0x63] = Some 0" "home (ex_attr 0) [3] [0x63] = Some 1" unfolding e by code_simp+
qed

lemma ex_split: "PINT_find_dist_dir_split_node (ex_attr 0) [1] = Some (1, (ex_attr 0)\<lparr>branch_level := 1\<rparr>, [3])"
  by code_simp

lemma ex_dents: "dents list_lib (dirdata ex_directory ! 0) = [[0x61, 0] \<mapsto> [1, 0, 0, 0, 0, 0, 0, 0]]" "dents list_lib (dirdata ex_directory ! 1) = Map.empty"
  by (simp_all add: ex_directory_def ex_split_db_def ents_def list_lib_def fun_eq_iff data_bytes_def)

lemma ex_inv: "dir_inv list_lib ex_directory" "dir_map list_lib ex_directory = [[0x61] \<mapsto> [1, 0, 0, 0, 0, 0, 0, 0]]"
proof -
  have d: "length (dirdata ex_directory) = 2" "meta_attr ex_directory = ex_attr 0" "meta_bitmap ex_directory = [1]" by (simp_all add: ex_directory_def)
  have c: "store_ok list_lib (dirdata ex_directory ! 0)" "store_ok list_lib (dirdata ex_directory ! 1)"
    unfolding store_ok_def counted_def ex_dents
    by (auto simp: ex_directory_def ex_split_db_def ent_count_def list_lib_def info_count_def good_name_def PVFS_NAME_MAX_def intro!: exI [of _ "[0x61]"] split: if_splits)
  have h: "hold list_lib ex_directory (\<lambda>i. dents list_lib (dirdata ex_directory ! i))"
    using c by (auto simp: hold_def d less_2_cases_iff) (simp add: handles_ok_def ex_directory_def)
  show "dir_inv list_lib ex_directory"
  proof (rule dir_invI [OF _ _ _ h], unfold d)
    show "configured (ex_attr 0) [1] i (dirdata ex_directory ! i)" if "i < 2" for i using that ex_ok(2,3) by (auto simp: less_2_cases_iff)
    show "home (ex_attr 0) [1] n = Some (int i)" if "i < 2" "n @ [0] \<in> dom (dents list_lib (dirdata ex_directory ! i))" for i n
      using that ex_home(1) ex_dents by (auto simp: less_2_cases_iff)
  qed (use ex_ok(1) in \<open>simp_all add: ex_attr_def\<close>)
  show "dir_map list_lib ex_directory = [[0x61] \<mapsto> [1, 0, 0, 0, 0, 0, 0, 0]]"
    using dir_map_hold [OF h, of _ 0] ex_home(1) by (auto simp: d ex_dents fun_eq_iff)
qed





lemma undo_loop_overrun: "i \<le> length status \<Longrightarrow> length status < i + n \<Longrightarrow> undo_loop status i n es num_undo num_msgs boundaries cur_bytes = None"
proof (induction n arbitrary: i es num_undo num_msgs boundaries cur_bytes)
  case (Suc n)
  show ?case
  proof (cases "i = length status")
    case False
    then have "undo_loop status (i + 1) n es' u m bs c = None" for es' u m bs c using Suc by simp
    then show ?thesis by (simp add: Let_def split: Option.bind_split prod.split)
  qed (simp add: array_get_def)
qed simp

text \<open>C40. When a split is undone, the statuses of the messages are read once per moved entry: when more entries are moved than statuses
  are allocated, the loop leaves the array of statuses. One status is allocated for every 248 entries that the directory object counts, and one more
  (248 is the limit of entries per message); for an object that counts fewer than 248 entries, two moved entries are therefore enough.\<close>

theorem split_undo_overruns:
  assumes "crdirent_find_split_entries op = Some op'" "nat (dirent_count op) div PVFS_REQ_LIMIT_NENTRIES_MAX + 1 < length (split_entries op')"
    "split_xfer L False rs 0 ess (split_status op') d = Some (status, d')"
  shows "crdirent_split_remove_entries (op'\<lparr>split_status := status\<rparr>) = None"
proof -
  have "length status = length st" if "split_xfer L False rs i ess st d = Some (status, d')" for i st d
    using that
  proof (induction ess arbitrary: i st d)
    case (Cons es ess)
    then show ?case by (force simp: array_set_def split: Option.bind_splits prod.splits if_splits msg_result.splits)
  qed simp
  moreover have "length (split_status op') = nat (dirent_count op) div PVFS_REQ_LIMIT_NENTRIES_MAX + 1"
    using assms(1) by (auto simp: crdirent_find_split_entries_def Let_def split: Option.bind_splits if_splits)
  ultimately have "undo_loop status 0 (length (split_entries op')) es u m bs c = None" for es u m bs c
    using assms(2,3) by (intro undo_loop_overrun) simp_all
  then show ?thesis by (simp add: crdirent_split_remove_entries_def)
qed

definition ex_undo :: crdirent_op where
  "ex_undo = ex_op\<lparr>op_bitmap := [3], split_node := 1, dirent_count := 2,
     dir_entries := [([0x61, 0], [1, 0, 0, 0, 0, 0, 0, 0]), ([0x63, 0], [3, 0, 0, 0, 0, 0, 0, 0])]\<rparr>"

theorem split_undo_overruns_witness:
  "\<exists>op'. crdirent_find_split_entries ex_undo = Some op' \<and> length (split_entries op') = 2 \<and> split_status op' = [None] \<and>
    crdirent_split_remove_entries (op'\<lparr>split_status := [Some (- PVFS_EINVAL)]\<rparr>) = None"
proof -
  let ?es = "[([0x61], [1, 0, 0, 0, 0, 0, 0, 0]), ([0x63], [3, 0, 0, 0, 0, 0, 0, 0])] :: (bytes \<times> bytes) list"
  have "\<exists>op'. crdirent_find_split_entries ex_undo = Some op' \<and> split_entries op' = ?es \<and> split_status op' = [None]"
    by (simp add: crdirent_find_split_entries_def ex_undo_def ex_op_def split_entry_def c_str_def ex_home limits array_get_def array_set_def)
  then obtain op' where f: "crdirent_find_split_entries ex_undo = Some op'" "split_entries op' = ?es" "split_status op' = [None]" by blast
  have "split_xfer list_lib False (\<lambda>_. Answered (- PVFS_EINVAL)) 0 [?es] (split_status op') (dirdata ex_directory ! 1) = Some ([Some (- PVFS_EINVAL)], dirdata ex_directory ! 1)"
    unfolding f(3) by (simp add: array_set_def error_code_defs)
  then have "crdirent_split_remove_entries (op'\<lparr>split_status := [Some (- PVFS_EINVAL)]\<rparr>) = None"
    by (rule split_undo_overruns [OF f(1), rotated]) (simp add: f(2) limits ex_undo_def)
  then show ?thesis using f by simp
qed

end
