(* ===== verification/Spec2Isabelle.thy ===== *)
theory Spec2Isabelle
  imports Handle_Mgmt Request_Io Request_Pack Req_Sched_Run Crdirent_Run
begin

text \<open>
  A verification development of OrangeFS, a parallel file system: files are striped over many
  servers, clients describe what they read and write with nested requests, and each server stores its
  part of the data in local objects that are named by handles. The development models the parts of the
  sources that compute on state of their own: the request engine and the data distributions
  (\<open>src/io/description\<close>), the handle management of the storage layer (\<open>src/io/trove/trove-handle-mgmt\<close>), the request
  scheduler of the server (\<open>src/server/request-scheduler\<close>), the distributed directories (\<open>src/common/misc/dist-dir-utils.c\<close>), the
  digest that spreads names over them (\<open>src/common/misc/md5.c\<close>), the keyval spaces in which the servers store directory
  entries (\<open>src/io/trove/trove-dbpf/dbpf-keyval.c\<close>), and the server's state machine that creates an entry
  (\<open>src/server/crdirent.sm\<close>).

  \<^bold>\<open>How the code is modelled.\<close> A structure is a record or a datatype with its members, and a function of
  the code is a function of the same name on an explicit state. \<open>None\<close> as the result of an operation means that the
  code would dereference NULL, leave the bounds of an array, divide by zero, fail an assertion or
  run forever; errors that the code returns are values. Handles are 64-bit words. Offsets, sizes and counts
  are integers; where the code keeps a number in 32 bits and the width matters, it is reduced modulo
  \<open>2 ^ 32\<close>. C division is \<open>sdiv\<close> and \<open>smod\<close>. The clock and the addresses that \<open>malloc\<close> returns are arguments,
  and allocation succeeds. Berkeley DB, which is not part of the sources, is a record of functions with the laws of its
  documentation as a hypothesis. Loops that may not end are partial functions to the option type, and the theorems about
  them state that they return.

  \<^bold>\<open>Handles.\<close>
  \<^item> \<open>Extent_Index\<close> is the interface between the extent lists and their tree (locale \<open>extent_index\<close>). \<open>Avl_Tree\<close> models
    \<open>avltree.c\<close>, proves that insertion and removal keep a balanced search tree, and interprets the interface.
  \<^item> \<open>Extent_List\<close> and \<open>Free_Handles\<close> model \<open>trove-extentlist.c\<close>: each operation is a change of
    the set of free handles, and the representation stays canonical.
  \<^item> \<open>Handle_Ledger\<close> models \<open>trove-ledger.c\<close>: the free, recently freed and overflow lists of a collection,
    their runs, and that no handle is allocated twice.
  \<^item> \<open>Quick_Hash\<close> models \<open>quickhash.h\<close> (locale \<open>qhash_user\<close>, interpreted for the tables of ledgers and of
    scheduler queues); \<open>C_Strings\<close> and \<open>Handle_Ranges\<close> model the parsers of handle ranges (\<open>str-utils.c\<close>,
    \<open>extent-utils.c\<close>); \<open>Handle_Mgmt\<close> models \<open>trove-handle-mgmt.c\<close> and that collections are independent.

  \<^bold>\<open>Distributions.\<close>
  \<^item> \<open>Dist_Interface\<close> holds the contracts of the offset mappings: \<open>dist_bounded\<close> (up to an offset where 32-bit
    counts wrap), \<open>dist_map\<close> and \<open>dist_rank\<close> (for all offsets), and \<open>dist_counting\<close> (a physical offset is the number
    of earlier bytes of the server).
  \<^item> \<open>Dist_Basic\<close>, \<open>Dist_Simple_Stripe\<close>, \<open>Dist_Twod\<close> with \<open>Dist_Twod_Contract\<close>, and \<open>Dist_Varstrip_Parser\<close>,
    \<open>Dist_Varstrip\<close> and \<open>Dist_Varstrip_Contract\<close> model \<open>dist-basic.c\<close>, \<open>dist-simple-stripe.c\<close>, \<open>dist-twod-stripe.c\<close> and
    \<open>dist-varstrip.c\<close> with its parser, and interpret the contracts: every byte has one server, file sizes are
    recovered from the sizes of the local objects, and the next offset and the contiguous length are right.

  \<^bold>\<open>Requests.\<close>
  \<^item> \<open>Pint_Request\<close> models \<open>pint-request.c\<close>: the walk over a request, \<open>PINT_process_request\<close>, and \<open>PINT_distribute\<close>. The
    iterations of their loops are functions of their own. A request is the tree that its pointers span.
  \<^item> \<open>Pint_Distribute\<close> (locale \<open>dist_server\<close>) shows what \<open>PINT_distribute\<close> returns on a server; \<open>Pint_Walk\<close> defines the meaning
    of a request, \<open>layout\<close>, and the \<open>regular\<close> requests, for which the shortcuts of the walk are right;
    \<open>Pint_Process\<close> (locale \<open>segment_maker\<close>) shows that the loop ends and what it returns.
  \<^item> \<open>Request_Io\<close> binds the methods of the four distributions (locale \<open>dist_methods\<close>) and shows that the servers of a
    file transfer each byte of a request once.
  \<^item> \<open>Pvfs_Request\<close> models the constructors and the release of \<open>pvfs-request.c\<close> on a heap of structures;
    \<open>Request_Build\<close> shows which request a heap represents (\<open>shape\<close>), that the constructors build
    regular requests for the bytes they should, and that the release restores the heap.
  \<^item> \<open>Request_Pack\<close> models the packing of a request and the conversion of its pointers: the array is large enough,
    the packed request is the same request, and the conversion is undone on the other side.
  \<^item> This theory composes them: an indexed request from its construction to the segments of the servers.

  \<^bold>\<open>The request scheduler.\<close>
  \<^item> \<open>Req_Sched\<close> models \<open>request-scheduler.c\<close>; \<open>Req_Sched_Inv\<close> and \<open>Req_Sched_Remove\<close> show the invariant
    of its queues; \<open>Req_Sched_Run\<close> has the reachable states, mutual exclusion, admission, order of service and the
    one case in which an operation fails.

  \<^bold>\<open>Directories.\<close>
  \<^item> \<open>Dist_Dir\<close> models \<open>dist-dir-utils.c\<close>: the tree of active buckets over which the entries of a directory are spread by the
    hash of their names. The search finds the longest active suffix of a hash, and a split moves exactly the hash
    values with one more bit set. \<open>Md5\<close> models \<open>md5.c\<close> and shows that it computes the digest of RFC 1321, in pieces of any sizes.
  \<^item> \<open>Dbpf_Keyval\<close> models the service functions of \<open>dbpf-keyval.c\<close> on \<open>dbpf-db-bdb.c\<close>: the operations on the entries of a directory
    refine those of a map, and the number of entries is kept right, except by the write of a list.
  \<^item> \<open>Dbpf_Iterate\<close> models the iteration over the keyvals of a handle and its cache of positions
    (\<open>dbpf-keyval-pcache.c\<close>): a directory is read page by page, completely when it does not change, and without
    duplicates or omissions of stable entries when it does.
  \<^item> \<open>Crdirent\<close> models the machine of \<open>crdirent.sm\<close> on a directory, the list of its dirdata objects, one per server: the transitions of its
    states, the actions, and what the messages do at their receivers (\<open>mgmt-split-dirent.sm\<close>, \<open>set-attr.sm\<close>,
    \<open>tree-communicate.sm\<close>). The results of jobs and messages are an argument. \<open>Crdirent_Run\<close> composes the parts above: all servers know
    the same tree and hold the entries of their bucket (\<open>dir_inv\<close>), what a client finds is a map (\<open>dir_map\<close>), and a creation
    refines the insertion into this map, also through a split. It also shows what is lost when a split is answered with errors.

  \<^bold>\<open>Bounds.\<close> The two-dimensional and the variable strip distribution count strips and stripes in 32 bits; their
  theorems hold below the offset where this count wraps. The members of a request that
  are \<open>int32_t\<close> are integers in the model; packing assumes fewer than \<open>2 ^ 31\<close> nested structures. The theorems about the creation of entries hold for up to
  16 servers, where the bitmap operations stay in their arrays. The number of states that \<open>crdirent_run\<close> visits is an argument; the longest run
  without failures has 21 states and stays in its last state. \<open>finalize_chain\<close>, the loop that empties a chain of the table of ledgers (\<open>trove-handle-mgmt.c\<close>),
  takes at most one step more than the table has entries, and is shown to end within them. No other fuel is used. Logarithms of the number of servers, which
  the code computes in floating point, are exact.

  \<^bold>\<open>Not modelled.\<close> Apart from the keyval operations, the storage back ends, the network layer, flows, jobs and the device are calls of the operating
  system, databases, network drivers and threads. The other state machines of server and client are
  input of a generator and submit jobs to these layers; of the creation of entries, credentials, capabilities, times and the retries of messages are left out. The wire encoding of structures is made of
  macros over raw buffers. Client libraries, applications, the kernel module, security and
  the ports consist of calls to libraries that are not part of the sources. In the modelled parts, debug output,
  allocation failure and locks are left out, as are the functions that only free memory or print. Also left out are: the branch of
  \<open>PINT_distribute\<close> without file data, the checks of \<open>crdirent.sm\<close> for a missing name and a null parent handle, and its error path for a capability that
  cannot be created. \<open>trove_ledger_handle_free\<close> reads the clock once in the model. A message of a split that is answered with an error counts as not
  executed by its receiver.
\<close>

section \<open>Requests from the client to the servers\<close>

text \<open>
  C1. The way of a write: a client builds an indexed request over a valid element type from blocks of at least one element that are in
  ascending order and do not overlap, packs it and turns its
  pointers into indexes; the servers turn the indexes back. When the servers of a simple stripe
  file that may be extended then process the request that they have received, each processes all of it, and the logical offsets of the segments of
  all servers are the bytes of the blocks that the client named, each exactly once. A valid element type is regular, no larger than its
  extent, not packed, and counts its structures; the request has fewer than \<open>2 ^ 31\<close> nested structures and no negative offsets, and the result
  of each server has room for it. The order of the blocks matters: see the property on blocks in descending order below.
\<close>

theorem indexed_write:
  fixes sz :: "int \<Rightarrow> PVFS_size"
  assumes "shape h o1 r" "proper r" "packable h o1" "length displacements = length blocklengths" "blocklengths \<noteq> []"
    "ascending (extent r) (zip displacements blocklengths)" "length blocklengths \<le> length as" "distinct as" "\<forall>a \<in> set as. h a = None"
    "0 \<le> num_nested_req (deref r)" "num_nested_req (deref r) + int (length blocklengths) < 2 ^ 31"
    and "0 < strip_size dparam" "0 < n" "n < 2 ^ 32"
  defines "blocks \<equiv> concat (map (\<lambda>(d, l). concat (map (\<lambda>j. layout r (d + j * extent r)) [0..l - 1])) (zip displacements blocklengths))"
    and "srv \<equiv> \<lambda>s. \<lparr>fsize = sz s, server_nr = s, server_ct = n, extend_flag = True\<rparr>"
  assumes "\<forall>x \<in> set blocks. 0 \<le> x" "\<forall>s \<in> {0..<n}. empty_result (int (length blocks)) (res s)"
  shows "\<exists>h' p h'' reg enc dec q res'. PVFS_Request_hindexed h (int (length blocklengths)) blocklengths displacements (Some o1) as = Some (PVFS_SUCCESS, h', Some p) \<and>
    PVFS_Request_commit h' (Some (Some p)) = Some (PVFS_SUCCESS, h'', Inr (Some reg)) \<and>
    PINT_request_encode reg = Some (0, enc) \<and> PINT_request_decode enc = Some (0, dec) \<and> shape (region_heap dec) 0 q \<and>
    (\<forall>s \<in> {0..<n}. \<exists>req' fd'. PINT_process_request (Some (simple_stripe_methods dparam)) (Some (new_state q)) None
        (srv s) (Some (res s)) PINT_SERVER = Some (0, Some req', None, fd', Some (res' s)) \<and> type_offset req' = aggregate_size (deref q)) \<and>
    (\<Sum>s\<in>{0..<n}. mset (map (ss_physical_to_logical_offset dparam (srv s)) (out (res' s)))) = mset blocks"
proof -
  obtain h' p h'' reg enc q where
    b: "PVFS_Request_hindexed h (int (length blocklengths)) blocklengths displacements (Some o1) as = Some (PVFS_SUCCESS, h', Some p)"
    "PVFS_Request_commit h' (Some (Some p)) = Some (PVFS_SUCCESS, h'', Inr (Some reg))"
    "PINT_request_encode reg = Some (0, enc)" "PINT_request_decode enc = Some (0, reg)" "shape (region_heap reg) 0 q" "proper q"
    and l: "\<forall>b. layout q b = concat (map (\<lambda>(d, l). concat (map (\<lambda>j. layout r (b + d + j * extent r)) [0..l - 1])) (zip displacements blocklengths))"
    using hindexed_ships [OF assms(1-11)] by (elim exE conjE) (rule that)
  let ?a = "aggregate_size (deref q)"
  have reg: "regular q" "?a \<le> extent q" using b(6) by (simp_all add: proper_def)
  have lay: "layout q 0 = blocks" using l by (simp add: blocks_def)
  have len: "int (length blocks) = ?a" using regularD(3) [OF reg(1), of 0] lay by simp
  have a: "0 < ?a" by (rule regularD(2) [OF reg(1)])
  note st = stream_first [OF reg(1), unfolded lay]
  have nonneg: "0 \<le> x" if "x \<in> set (stream q (copies q ?a))" for x
    using that st(2) assms(17) a reg(2) by auto
  have new: "new_state q\<lparr>target_offset := 0, final_offset := ?a\<rparr> = new_state q" by (simp add: new_state_def)
  have valid: "ss_valid (dparam, srv s)" if "0 \<le> s" "s < n" for s using assms(12-14) that by (simp add: ss_valid_def srv_def)
  have owner: "\<exists>!s. 0 \<le> s \<and> s < n \<and> ss_mine (dparam, srv s) x" for x
  proof -
    have "0 \<le> x div strip_size dparam mod n" "x div strip_size dparam mod n < n" using assms(13) by simp_all
    then show ?thesis by (intro ex1I [of _ "x div strip_size dparam mod n"]) (auto simp: ss_mine_def srv_def)
  qed
  have "\<exists>res'. (\<forall>s \<in> {0..<n}. \<exists>req' fd'. PINT_process_request (Some (simple_stripe_methods dparam))
        (Some (new_state q\<lparr>target_offset := 0, final_offset := ?a\<rparr>)) None
        (srv s) (Some (res s)) PINT_SERVER = Some (0, Some req', None, fd', Some (res' s)) \<and> type_offset req' = ?a) \<and>
    (\<Sum>s\<in>{0..<n}. mset (map (ss_physical_to_logical_offset dparam (srv s)) (out (res' s)))) = mset (slice (stream q (copies q ?a)) 0 ?a)"
    by (rule ssio.transfer_once [where p = dparam and srv = srv and res = res, unfolded prod.case])
      (use reg(1) a valid owner nonneg assms(18) len in \<open>auto simp: srv_def\<close>)
  then show ?thesis unfolding new st(1) using b(1-5) by blast
qed

theorem indexed_write_witness:
  "\<exists>h' p h'' reg enc dec q res'. PVFS_Request_hindexed [0 \<mapsto> PINT_INT] 2 [2, 1] [4, 32] (Some 0) [1, 2] = Some (PVFS_SUCCESS, h', Some p) \<and>
    PVFS_Request_commit h' (Some (Some p)) = Some (PVFS_SUCCESS, h'', Inr (Some reg)) \<and>
    PINT_request_encode reg = Some (0, enc) \<and> PINT_request_decode enc = Some (0, dec) \<and> shape (region_heap dec) 0 q \<and>
    (\<forall>s \<in> {0..<3}. \<exists>req' fd'. PINT_process_request (Some (simple_stripe_methods \<lparr>strip_size = 8\<rparr>)) (Some (new_state q)) None
        \<lparr>fsize = 0, server_nr = s, server_ct = 3, extend_flag = True\<rparr> (Some ex_result) PINT_SERVER =
          Some (0, Some req', None, fd', Some (res' s)) \<and> type_offset req' = aggregate_size (deref q)) \<and>
    (\<Sum>s\<in>{0..<3}. mset (map (ss_physical_to_logical_offset \<lparr>strip_size = 8\<rparr>
       \<lparr>fsize = 0, server_nr = s, server_ct = 3, extend_flag = True\<rparr>) (out (res' s)))) = mset ([4..11] @ [32..35])"
proof -
  have l: "concat (map (\<lambda>(d, l). concat (map (\<lambda>j. layout (tree_node (PINT_INT :: nat PINT_Request) None None)
      (d + j * extent (tree_node (PINT_INT :: nat PINT_Request) None None))) [0..l - 1])) (zip [4, 32] [2, 1])) = [4..11] @ [32..35]"
    unfolding facts_INT by code_simp
  have f: "int (length [2, 1 :: int]) = 2" by simp
  show ?thesis
    by (rule indexed_write [OF shape_INT proper_INT packable_INT, of "[4, 32]" "[2, 1]" "[1, 2]" "\<lparr>strip_size = 8\<rparr>" 3 "\<lambda>_. ex_result" "\<lambda>_. 0", unfolded l f])
      (auto simp: facts_INT ex_result_empty)
qed

text \<open>
  C33. Blocks in descending order: for an indexed request of two blocks of four bytes with the displacements
  1 and 0, which describes the bytes 4 to 7 and then 0 to 3, the walk returns one segment of eight bytes
  at offset 4. The test for contiguous data looks at the element type only.
\<close>

theorem descending_sequence_merged:
  "\<exists>h' p q. PVFS_Request_indexed [0 \<mapsto> PINT_INT] 2 [1, 1] [1, 0] (Some 0) [1, 2] = Some (PVFS_SUCCESS, h', Some p) \<and> shape h' p q \<and>
    layout q 0 = [4..7] @ [0..3] \<and>
    (\<exists>req' fd' res'. PINT_process_request (Some basic_methods) (Some (new_state q)) None
        \<lparr>fsize = 100, server_nr = 0, server_ct = 1, extend_flag = False\<rparr> (Some ex_result) PINT_SERVER =
        Some (0, Some req', None, fd', Some res') \<and> seg_list res' = [(4, 8)])"
proof -
  let ?I = "tree_node (PINT_INT :: nat PINT_Request) None None"
  obtain h' used p where run: "PVFS_Request_hindexed [0 \<mapsto> PINT_INT] (int (length [1, 1 :: int])) [1, 1] [4, 0] (Some 0) [1, 2] =
      Some (PVFS_SUCCESS, h'(p \<mapsto> set_refcount 1 (the (h' p))), Some p)"
    and b: "built [0 \<mapsto> PINT_INT] 0 ?I (zip [4, 0] [1, 1]) used h' (Some p)"
    by (rule hindexed_run [OF shape_INT, of "[4, 0]" "[1, 1]" "[1, 2]"]) auto
  define q where "q = the (seq_of ?I [(4, 1), (0, 1)])"
  have q: "seq_of ?I [(4, 1), (0, 1)] = Some q" by (simp add: q_def)
  obtain m where m: "h' p = Some m" by (rule built_head [OF b])
  have "shape h' p q" using b q by (simp add: built_def)
  then have "shape (h'(p \<mapsto> set_refcount 1 (the (h' p)))) p q" by (rule shape_keeps) (use m in \<open>auto simp: keeps_def\<close>)
  moreover have "oldext_of [0 \<mapsto> PINT_INT] 0 = Some 4" using oldext_shape [OF shape_INT] facts_INT by simp
  then have "PVFS_Request_indexed [0 \<mapsto> PINT_INT] 2 [1, 1] [1, 0] (Some 0) [1, 2] = PVFS_Request_hindexed [0 \<mapsto> PINT_INT] 2 [1, 1] [4, 0] (Some 0) [1, 2]"
    using indexed_hindexed [of "[0 \<mapsto> PINT_INT]" 0 4] by simp
  moreover have "layout q 0 = [4..7] @ [0..3]"
    using seq_of_layout [OF q, of 0] by (simp add: facts_INT) 
  moreover have "map_option (\<lambda>(v, req', mem, fd', res'). (v, req' \<noteq> None, mem, map_option seg_list res'))
    (PINT_process_request (Some basic_methods) (Some (new_state q)) None
        \<lparr>fsize = 100, server_nr = 0, server_ct = 1, extend_flag = False\<rparr> (Some ex_result) PINT_SERVER) = Some (0, True, None, Some [(4, 8)])"
    unfolding q_def by code_simp
  then have "\<exists>req' fd' res'. PINT_process_request (Some basic_methods) (Some (new_state q)) None
        \<lparr>fsize = 100, server_nr = 0, server_ct = 1, extend_flag = False\<rparr> (Some ex_result) PINT_SERVER =
        Some (0, Some req', None, fd', Some res') \<and> seg_list res' = [(4, 8)]"
    by (auto simp: map_option_eq_Some)
  moreover have "int (length [1, 1 :: int]) = 2" by simp
  ultimately show ?thesis using run by (metis (no_types, lifting))
qed

end
